(* ===== verification/Prelude.thy ===== *)
theory Prelude
  imports Main "HOL-Library.Word" "HOL-Library.Monad_Syntax"
begin

text \<open>
  Shared vocabulary of the development: byte memories as functions from offsets to
  8-bit words, little-endian reads and writes of the C++ \<open>short\<close> and \<open>int\<close> types with
  their wrap-around, block copies (\<open>memcpy\<close>, \<open>bcopy\<close>, \<open>memset\<close>), C's truncated
  remainder, and the read-over-write lemmas that carry the component proofs. The
  collection \<open>mem_simps\<close> holds the read-over-write lemmas.

  Throughout, an operation that can run into undefined behaviour, that can stop the
  process (\<open>exit\<close>, \<open>ASSERT\<close>) or that may not return has a result of type \<open>'a option\<close>;
  \<open>None\<close> stands for "no defined result". Error codes of the program are ordinary values.
\<close>

named_theorems mem_simps "read-over-write lemmas of byte memories"

type_synonym byte = "8 word"
type_synonym mem = "nat \<Rightarrow> byte"

text \<open>An object address; \<open>0\<close> is the null pointer.\<close>

type_synonym ptr = "64 word"

abbreviation NULL :: ptr where "NULL \<equiv> 0"


section \<open>Little-endian integers\<close>

fun get_le :: "nat \<Rightarrow> mem \<Rightarrow> nat \<Rightarrow> int" where
  "get_le 0 m a = 0"
| "get_le (Suc n) m a = uint (m a) + 256 * get_le n m (Suc a)"

fun put_le :: "nat \<Rightarrow> mem \<Rightarrow> nat \<Rightarrow> int \<Rightarrow> mem" where
  "put_le 0 m a v = m"
| "put_le (Suc n) m a v = put_le n (m(a := word_of_int v)) (Suc a) (v div 256)"

text \<open>The value of an \<open>n\<close>-byte two's complement integer: wrap into the signed range.\<close>

definition swrap :: "nat \<Rightarrow> int \<Rightarrow> int" where
  "swrap n v = (v + 256 ^ n div 2) mod 256 ^ n - 256 ^ n div 2"

definition get_short :: "mem \<Rightarrow> nat \<Rightarrow> int" where
  "get_short m a = swrap 2 (get_le 2 m a)"

definition put_short :: "mem \<Rightarrow> nat \<Rightarrow> int \<Rightarrow> mem" where
  "put_short m a v = put_le 2 m a v"

definition get_int :: "mem \<Rightarrow> nat \<Rightarrow> int" where
  "get_int m a = swrap 4 (get_le 4 m a)"

definition put_int :: "mem \<Rightarrow> nat \<Rightarrow> int \<Rightarrow> mem" where
  "put_int m a v = put_le 4 m a v"

definition short_ok :: "int \<Rightarrow> bool" where
  "short_ok v \<longleftrightarrow> - 32768 \<le> v \<and> v < 32768"

definition int_ok :: "int \<Rightarrow> bool" where
  "int_ok v \<longleftrightarrow> - 2147483648 \<le> v \<and> v < 2147483648"


section \<open>Block operations\<close>

definition read_bytes :: "mem \<Rightarrow> nat \<Rightarrow> nat \<Rightarrow> byte list" where
  "read_bytes m a n = map m [a..<a + n]"

definition write_bytes :: "mem \<Rightarrow> nat \<Rightarrow> byte list \<Rightarrow> mem" where
  "write_bytes m a bs = (\<lambda>x. if a \<le> x \<and> x < a + length bs then bs ! (x - a) else m x)"

text \<open>\<open>memset(p, 0, sizeof p)\<close> on a whole object.\<close>

definition zero_mem :: mem where
  "zero_mem = (\<lambda>_. 0)"

text \<open>C and C++ integer remainder truncates towards zero.\<close>

definition c_rem :: "int \<Rightarrow> int \<Rightarrow> int" where
  "c_rem a b = sgn a * (\<bar>a\<bar> mod \<bar>b\<bar>)"


text \<open>Decimal output of an integer (\<open>operator <<\<close>).\<close>

fun show_nat :: "nat \<Rightarrow> string" where
  "show_nat n = (if n < 10 then [char_of (48 + n)] else show_nat (n div 10) @ [char_of (48 + n mod 10)])"

declare show_nat.simps [simp del]

definition show_int :: "int \<Rightarrow> string" where
  "show_int i = (if i < 0 then CHR ''-'' # show_nat (nat (- i)) else show_nat (nat i))"


section \<open>Facts about little-endian integers\<close>

lemma put_le_outside [mem_simps]:
  "x < a \<or> a + n \<le> x \<Longrightarrow> put_le n m a v x = m x"
  by (induction n m a v rule: put_le.induct) auto

lemma get_le_cong:
  "(\<And>x. a \<le> x \<Longrightarrow> x < a + n \<Longrightarrow> m x = m' x) \<Longrightarrow> get_le n m a = get_le n m' a"
  by (induction n arbitrary: a) auto

lemma mod_split_256: "0 \<le> p \<Longrightarrow> (v::int) mod 256 + 256 * (v div 256 mod p) = v mod (256 * p)"
  by (simp add: zmod_zmult2_eq)

lemma get_le_put_le: "get_le n (put_le n m a v) a = v mod 256 ^ n"
proof (induction n arbitrary: m a v)
  case 0
  show ?case by simp
next
  case (Suc n)
  have "put_le n (m(a := word_of_int v)) (Suc a) (v div 256) a = word_of_int v"
    by (simp add: put_le_outside)
  then have "get_le (Suc n) (put_le (Suc n) m a v) a
      = uint (word_of_int v :: byte) + 256 * (v div 256 mod 256 ^ n)"
    by (simp add: Suc.IH)
  also have "\<dots> = v mod 256 + 256 * (v div 256 mod 256 ^ n)"
    by (simp add: uint_word_of_int)
  also have "\<dots> = v mod 256 ^ Suc n"
    by (simp add: mod_split_256)
  finally show ?case .
qed

lemma swrap_mod: "swrap n (v mod 256 ^ n) = swrap n v"
  by (simp add: swrap_def mod_simps)

lemma swrap_2 [simp]: "short_ok v \<Longrightarrow> swrap 2 v = v"
  by (simp add: swrap_def short_ok_def)

lemma swrap_4 [simp]: "int_ok v \<Longrightarrow> swrap 4 v = v"
  by (simp add: swrap_def int_ok_def)

lemma get_short_range: "short_ok (get_short m a)"
proof -
  have "0 \<le> (x::int) mod 65536" "(x::int) mod 65536 < 65536" for x by simp_all
  then show ?thesis
    by (simp add: get_short_def swrap_def short_ok_def)
qed

lemma get_int_range: "int_ok (get_int m a)"
proof -
  have "0 \<le> (x::int) mod 4294967296" "(x::int) mod 4294967296 < 4294967296" for x by simp_all
  then show ?thesis
    by (simp add: get_int_def swrap_def int_ok_def)
qed

lemma get_put_short_wrap: "get_short (put_short m a v) a = swrap 2 v"
  using swrap_mod [of 2 v] by (simp add: get_short_def put_short_def get_le_put_le)

lemma get_put_int_wrap: "get_int (put_int m a v) a = swrap 4 v"
  using swrap_mod [of 4 v] by (simp add: get_int_def put_int_def get_le_put_le)

lemma get_put_short [mem_simps]: "short_ok v \<Longrightarrow> get_short (put_short m a v) a = v"
  by (simp add: get_put_short_wrap)

lemma get_put_int [mem_simps]: "int_ok v \<Longrightarrow> get_int (put_int m a v) a = v"
  by (simp add: get_put_int_wrap)


section \<open>Read over write\<close>

text \<open>Each typed read depends on its own bytes only.\<close>

lemma get_short_cong: "(\<And>x. a \<le> x \<Longrightarrow> x < a + 2 \<Longrightarrow> m x = m' x) \<Longrightarrow> get_short m a = get_short m' a"
  unfolding get_short_def by (metis get_le_cong)

lemma get_int_cong: "(\<And>x. a \<le> x \<Longrightarrow> x < a + 4 \<Longrightarrow> m x = m' x) \<Longrightarrow> get_int m a = get_int m' a"
  unfolding get_int_def by (metis get_le_cong)

lemma read_bytes_cong:
  "(\<And>x. a \<le> x \<Longrightarrow> x < a + n \<Longrightarrow> m x = m' x) \<Longrightarrow> read_bytes m a n = read_bytes m' a n"
  by (simp add: read_bytes_def)

lemma put_short_outside [mem_simps]: "x < a \<or> a + 2 \<le> x \<Longrightarrow> put_short m a v x = m x"
  by (simp add: put_short_def put_le_outside)

lemma put_int_outside [mem_simps]: "x < a \<or> a + 4 \<le> x \<Longrightarrow> put_int m a v x = m x"
  by (simp add: put_int_def put_le_outside)

lemma write_bytes_outside [mem_simps]: "x < a \<or> a + length bs \<le> x \<Longrightarrow> write_bytes m a bs x = m x"
  by (auto simp: write_bytes_def)

lemma get_short_put_short [mem_simps]:
  "b + 2 \<le> a \<or> a + 2 \<le> b \<Longrightarrow> get_short (put_short m a v) b = get_short m b"
  by (rule get_short_cong) (auto simp: put_short_outside)

lemma get_short_put_int [mem_simps]:
  "b + 2 \<le> a \<or> a + 4 \<le> b \<Longrightarrow> get_short (put_int m a v) b = get_short m b"
  by (rule get_short_cong) (auto simp: put_int_outside)

lemma get_short_write_bytes [mem_simps]:
  "b + 2 \<le> a \<or> a + length bs \<le> b \<Longrightarrow> get_short (write_bytes m a bs) b = get_short m b"
  by (rule get_short_cong) (auto simp: write_bytes_outside)

lemma get_int_put_short [mem_simps]:
  "b + 4 \<le> a \<or> a + 2 \<le> b \<Longrightarrow> get_int (put_short m a v) b = get_int m b"
  by (rule get_int_cong) (auto simp: put_short_outside)

lemma get_int_put_int [mem_simps]:
  "b + 4 \<le> a \<or> a + 4 \<le> b \<Longrightarrow> get_int (put_int m a v) b = get_int m b"
  by (rule get_int_cong) (auto simp: put_int_outside)

lemma get_int_write_bytes [mem_simps]:
  "b + 4 \<le> a \<or> a + length bs \<le> b \<Longrightarrow> get_int (write_bytes m a bs) b = get_int m b"
  by (rule get_int_cong) (auto simp: write_bytes_outside)

lemma read_bytes_put_short [mem_simps]:
  "b + n \<le> a \<or> a + 2 \<le> b \<Longrightarrow> read_bytes (put_short m a v) b n = read_bytes m b n"
  by (rule read_bytes_cong) (auto simp: put_short_outside)

lemma read_bytes_put_int [mem_simps]:
  "b + n \<le> a \<or> a + 4 \<le> b \<Longrightarrow> read_bytes (put_int m a v) b n = read_bytes m b n"
  by (rule read_bytes_cong) (auto simp: put_int_outside)

lemma read_bytes_write_bytes_outside [mem_simps]:
  "b + n \<le> a \<or> a + length bs \<le> b \<Longrightarrow> read_bytes (write_bytes m a bs) b n = read_bytes m b n"
  by (rule read_bytes_cong) (auto simp: write_bytes_outside)

lemma length_read_bytes [simp]: "length (read_bytes m a n) = n"
  by (simp add: read_bytes_def)

lemma nth_read_bytes [simp]: "i < n \<Longrightarrow> read_bytes m a n ! i = m (a + i)"
  by (simp add: read_bytes_def)

lemma read_write_bytes [simp]: "read_bytes (write_bytes m a bs) a (length bs) = bs"
  by (rule nth_equalityI) (simp_all add: write_bytes_def)

text \<open>Reading inside a block that was written.\<close>

lemma read_bytes_write_bytes_inside:
  "a \<le> b \<Longrightarrow> b + n \<le> a + length bs \<Longrightarrow>
   read_bytes (write_bytes m a bs) b n = take n (drop (b - a) bs)"
  by (rule nth_equalityI) (auto simp: write_bytes_def)

lemma get_short_zero [simp]: "get_short zero_mem a = 0"
  by (simp add: get_short_def swrap_def zero_mem_def numeral_2_eq_2)

lemma get_int_zero [simp]: "get_int zero_mem a = 0"
  by (simp add: get_int_def swrap_def zero_mem_def numeral_eq_Suc)


section \<open>Remainder\<close>

lemma c_rem_nonneg: "0 \<le> a \<Longrightarrow> 0 < b \<Longrightarrow> c_rem a b = a mod b"
  by (cases "a = 0") (auto simp: c_rem_def)

lemma c_rem_bound: "0 < b \<Longrightarrow> \<bar>c_rem a b\<bar> < b"
  by (auto simp: c_rem_def sgn_if)

end
