(* ===== verification/ErrorCodes.thy ===== *)
theory ErrorCodes
  imports Prelude
begin

text \<open>
  The status codes of \<open>error.h\<close> and the message printer of \<open>error.cpp\<close>. Every operation
  of the program reports its outcome as one of these codes; \<open>OK\<close> is zero and all other
  codes count upwards from -999.
\<close>

datatype (plugins only: code) Status =
    OK | NOTUSED1 | BADFILEPTR | BADFILE | FILETABFULL | FILEOPEN
  | FILENOTOPEN | UNIXERR | BADPAGEPTR | BADPAGENO | FILEEXISTS | HASHTBLERROR
  | HASHNOTFOUND | BUFFEREXCEEDED | PAGENOTPINNED | BADBUFFER | PAGEPINNED | NOSPACE
  | NORECORDS | ENDOFPAGE | INVALIDSLOTNO | INVALIDRECLEN | BADRID | BADRECPTR
  | BADSCANPARM | BADSCANID | SCANTABFULL | FILEEOF | FILEHDRFULL | BADINDEXPARM
  | RECNOTFOUND | BUCKETFULL | DIROVERFLOW | NONUNIQUEENTRY | NOMORERECS | BADSORTPARM
  | INSUFMEM | BADCATPARM | RELNOTFOUND | ATTRNOTFOUND | NAMETOOLONG | DUPLATTR
  | RELEXISTS | NOINDEX | INDEXEXISTS | ATTRTOOLONG | ATTRTYPEMISMATCH | TMP_RES_EXISTS
  | NOTUSED2

text \<open>The integer value the compiler gives each enumerator.\<close>

fun status_code :: "Status \<Rightarrow> int" where
  "status_code OK = 0"
| "status_code NOTUSED1 = - 999"
| "status_code BADFILEPTR = - 998"
| "status_code BADFILE = - 997"
| "status_code FILETABFULL = - 996"
| "status_code FILEOPEN = - 995"
| "status_code FILENOTOPEN = - 994"
| "status_code UNIXERR = - 993"
| "status_code BADPAGEPTR = - 992"
| "status_code BADPAGENO = - 991"
| "status_code FILEEXISTS = - 990"
| "status_code HASHTBLERROR = - 989"
| "status_code HASHNOTFOUND = - 988"
| "status_code BUFFEREXCEEDED = - 987"
| "status_code PAGENOTPINNED = - 986"
| "status_code BADBUFFER = - 985"
| "status_code PAGEPINNED = - 984"
| "status_code NOSPACE = - 983"
| "status_code NORECORDS = - 982"
| "status_code ENDOFPAGE = - 981"
| "status_code INVALIDSLOTNO = - 980"
| "status_code INVALIDRECLEN = - 979"
| "status_code BADRID = - 978"
| "status_code BADRECPTR = - 977"
| "status_code BADSCANPARM = - 976"
| "status_code BADSCANID = - 975"
| "status_code SCANTABFULL = - 974"
| "status_code FILEEOF = - 973"
| "status_code FILEHDRFULL = - 972"
| "status_code BADINDEXPARM = - 971"
| "status_code RECNOTFOUND = - 970"
| "status_code BUCKETFULL = - 969"
| "status_code DIROVERFLOW = - 968"
| "status_code NONUNIQUEENTRY = - 967"
| "status_code NOMORERECS = - 966"
| "status_code BADSORTPARM = - 965"
| "status_code INSUFMEM = - 964"
| "status_code BADCATPARM = - 963"
| "status_code RELNOTFOUND = - 962"
| "status_code ATTRNOTFOUND = - 961"
| "status_code NAMETOOLONG = - 960"
| "status_code DUPLATTR = - 959"
| "status_code RELEXISTS = - 958"
| "status_code NOINDEX = - 957"
| "status_code INDEXEXISTS = - 956"
| "status_code ATTRTOOLONG = - 955"
| "status_code ATTRTYPEMISMATCH = - 954"
| "status_code TMP_RES_EXISTS = - 953"
| "status_code NOTUSED2 = - 952"

text \<open>The \<open>switch\<close> of \<open>Error::print\<close>; \<open>None\<close> is its \<open>default\<close> label.\<close>

fun status_message :: "Status \<Rightarrow> string option" where
  "status_message OK = Some ''no error''"
| "status_message BADFILEPTR = Some ''bad file pointer''"
| "status_message BADFILE = Some ''bad filename''"
| "status_message FILETABFULL = Some ''open file table full''"
| "status_message FILEOPEN = Some ''file open''"
| "status_message FILENOTOPEN = Some ''file not open''"
| "status_message UNIXERR = Some ''Unix error''"
| "status_message BADPAGEPTR = Some ''bad page pointer''"
| "status_message BADPAGENO = Some ''bad page number''"
| "status_message FILEEXISTS = Some ''file exists already''"
| "status_message HASHTBLERROR = Some ''hash table error''"
| "status_message HASHNOTFOUND = Some ''hash entry not found''"
| "status_message BUFFEREXCEEDED = Some ''buffer pool full''"
| "status_message PAGENOTPINNED = Some ''page not pinned''"
| "status_message BADBUFFER = Some ''buffer pool corrupted''"
| "status_message PAGEPINNED = Some ''page still pinned''"
| "status_message NOSPACE = Some ''no space on page for record''"
| "status_message NORECORDS = Some ''page is empty - no records''"
| "status_message ENDOFPAGE = Some ''last record on page''"
| "status_message INVALIDSLOTNO = Some ''invalid slot number''"
| "status_message INVALIDRECLEN = Some ''specified record length <= 0''"
| "status_message BADRID = Some ''bad record id''"
| "status_message BADRECPTR = Some ''bad record pointer''"
| "status_message BADSCANPARM = Some ''bad scan parameter''"
| "status_message SCANTABFULL = Some ''scan table full''"
| "status_message FILEEOF = Some ''end of file encountered''"
| "status_message FILEHDRFULL = Some ''heapfile hdear page is full''"
| "status_message BADINDEXPARM = Some ''bad index parameter''"
| "status_message RECNOTFOUND = Some ''no such record''"
| "status_message BUCKETFULL = Some ''bucket full''"
| "status_message DIROVERFLOW = Some ''directory is full''"
| "status_message NONUNIQUEENTRY = Some ''nonunique entry''"
| "status_message NOMORERECS = Some ''no more records''"
| "status_message BADSORTPARM = Some ''bad sort parameter''"
| "status_message INSUFMEM = Some ''insufficient memory''"
| "status_message BADCATPARM = Some ''bad catalog parameter''"
| "status_message RELNOTFOUND = Some ''relation not in catalog''"
| "status_message ATTRNOTFOUND = Some ''attribute not in catalog''"
| "status_message NAMETOOLONG = Some ''name too long''"
| "status_message ATTRTOOLONG = Some ''attributes too long''"
| "status_message DUPLATTR = Some ''duplicate attribute names''"
| "status_message RELEXISTS = Some ''relation exists already''"
| "status_message NOINDEX = Some ''no index exists''"
| "status_message ATTRTYPEMISMATCH = Some ''attribute type mismatch''"
| "status_message TMP_RES_EXISTS = Some ''temp result already exists''"
| "status_message INDEXEXISTS = Some ''index exists already''"
| "status_message _ = None"

text \<open>The line \<open>Error::print\<close> writes to the standard error stream.\<close>

definition Error_print :: "Status \<Rightarrow> string" where
  "Error_print status = ''Error: '' @
     (case status_message status of
        Some msg \<Rightarrow> msg
      | None \<Rightarrow> ''undefined error status: '' @ show_int (status_code status)) @ [CHR 0x0A]"


section \<open>Facts\<close>

lemma status_code_neg: "s \<noteq> OK \<Longrightarrow> - 999 \<le> status_code s \<and> status_code s < 0"
  by (cases s) simp_all

text \<open>Distinct codes have distinct values: the enumeration can be read back.\<close>

definition status_of_code :: "int \<Rightarrow> Status" where
  "status_of_code c = (if c = 0 then OK else
     [NOTUSED1, BADFILEPTR, BADFILE, FILETABFULL, FILEOPEN, FILENOTOPEN,
      UNIXERR, BADPAGEPTR, BADPAGENO, FILEEXISTS, HASHTBLERROR, HASHNOTFOUND,
      BUFFEREXCEEDED, PAGENOTPINNED, BADBUFFER, PAGEPINNED, NOSPACE, NORECORDS,
      ENDOFPAGE, INVALIDSLOTNO, INVALIDRECLEN, BADRID, BADRECPTR, BADSCANPARM,
      BADSCANID, SCANTABFULL, FILEEOF, FILEHDRFULL, BADINDEXPARM, RECNOTFOUND,
      BUCKETFULL, DIROVERFLOW, NONUNIQUEENTRY, NOMORERECS, BADSORTPARM, INSUFMEM,
      BADCATPARM, RELNOTFOUND, ATTRNOTFOUND, NAMETOOLONG, DUPLATTR, RELEXISTS,
      NOINDEX, INDEXEXISTS, ATTRTOOLONG, ATTRTYPEMISMATCH, TMP_RES_EXISTS, NOTUSED2] ! nat (c + 999))"

lemma status_of_code_code [simp]: "status_of_code (status_code s) = s"
  by (cases s) (simp_all add: status_of_code_def)

lemma status_code_inj: "status_code s = status_code t \<longleftrightarrow> s = t"
  by (metis status_of_code_code)

end
