(* ===== verification/Page.thy ===== *)
theory Page
  imports ErrorCodes
begin

text \<open>
  The slotted data page of \<open>page.h\<close> and \<open>page.cpp\<close>, at the level of its 1024 bytes.

  A \<open>Page\<close> object occupies bytes 0 to 1023: \<open>data\<close> at 0 (1004 bytes), \<open>slot[0]\<close> at 1004,
  \<open>slotCnt\<close> at 1008, \<open>freePtr\<close> at 1010, \<open>freeSpace\<close> at 1012, an unused short at 1014,
  \<open>nextPage\<close> at 1016 and \<open>curPage\<close> at 1020. The slot array is indexed with non-positive
  indices and grows downwards into the data area: \<open>slot[i]\<close> is at byte \<open>1004 + 4 * i\<close>.
  Since record bytes and slots share the same memory, that they never overlap is part of
  what is proved, not of the representation. An access outside the 1024 bytes has no
  defined result (\<open>None\<close>).
\<close>

type_synonym page = mem

datatype RID = RID (pageNo: int) (slotNo: int)

definition NULLRID :: RID where
  "NULLRID = RID (- 1) (- 1)"

text \<open>A \<open>Record\<close> handed to an operation: the bytes at its pointer and its length field.\<close>

record Record =
  rec_data :: "byte list"
  rec_length :: int

text \<open>A \<open>Record\<close> handed out by a page: the pointer (an offset into \<open>data\<close>) and the length.\<close>

record recref =
  ref_offset :: int
  ref_length :: int

abbreviation PAGESIZE :: int where "PAGESIZE \<equiv> 1024"
abbreviation DPFIXED :: int where "DPFIXED \<equiv> 20"
abbreviation sizeof_slot :: int where "sizeof_slot \<equiv> 4"


section \<open>Fields\<close>

definition slot_addr :: "int \<Rightarrow> nat" where
  "slot_addr i = nat (PAGESIZE - DPFIXED + sizeof_slot * i)"

text \<open>The slot indices whose four bytes lie inside the page object.\<close>

definition slot_in_page :: "int \<Rightarrow> bool" where
  "slot_in_page i \<longleftrightarrow> - 251 \<le> i \<and> i \<le> 4"

definition slot_offset :: "page \<Rightarrow> int \<Rightarrow> int" where
  "slot_offset p i = get_short p (slot_addr i)"

definition slot_length :: "page \<Rightarrow> int \<Rightarrow> int" where
  "slot_length p i = get_short p (slot_addr i + 2)"

definition slotCnt :: "page \<Rightarrow> int" where
  "slotCnt p = get_short p 1008"

definition freePtr :: "page \<Rightarrow> int" where
  "freePtr p = get_short p 1010"

definition freeSpace :: "page \<Rightarrow> int" where
  "freeSpace p = get_short p 1012"

definition nextPage :: "page \<Rightarrow> int" where
  "nextPage p = get_int p 1016"

definition curPage :: "page \<Rightarrow> int" where
  "curPage p = get_int p 1020"

definition set_slot_offset :: "page \<Rightarrow> int \<Rightarrow> int \<Rightarrow> page" where
  "set_slot_offset p i v = put_short p (slot_addr i) v"

definition set_slot_length :: "page \<Rightarrow> int \<Rightarrow> int \<Rightarrow> page" where
  "set_slot_length p i v = put_short p (slot_addr i + 2) v"

definition set_slotCnt :: "page \<Rightarrow> int \<Rightarrow> page" where
  "set_slotCnt p v = put_short p 1008 v"

definition set_freePtr :: "page \<Rightarrow> int \<Rightarrow> page" where
  "set_freePtr p v = put_short p 1010 v"

definition set_freeSpace :: "page \<Rightarrow> int \<Rightarrow> page" where
  "set_freeSpace p v = put_short p 1012 v"

definition set_nextPage :: "page \<Rightarrow> int \<Rightarrow> page" where
  "set_nextPage p v = put_int p 1016 v"

definition set_curPage :: "page \<Rightarrow> int \<Rightarrow> page" where
  "set_curPage p v = put_int p 1020 v"


section \<open>Operations\<close>

definition Page_init :: "page \<Rightarrow> int \<Rightarrow> page" where
  "Page_init p pageNum =
     (let p = set_nextPage p (- 1);
          p = set_slotCnt p 0;
          p = set_curPage p pageNum;
          p = set_freePtr p 0
      in set_freeSpace p (PAGESIZE - DPFIXED))"

definition Page_setNextPage :: "page \<Rightarrow> int \<Rightarrow> Status \<times> page" where
  "Page_setNextPage p n = (OK, set_nextPage p n)"

definition Page_getNextPage :: "page \<Rightarrow> Status \<times> int" where
  "Page_getNextPage p = (OK, nextPage p)"

definition Page_getFreeSpace :: "page \<Rightarrow> int" where
  "Page_getFreeSpace p = freeSpace p"

text \<open>The loop of \<open>insertRecord\<close> that looks for an empty slot.\<close>

function find_free_slot :: "page \<Rightarrow> int \<Rightarrow> int option" where
  "find_free_slot p i =
     (if i > slotCnt p then
        if \<not> slot_in_page i then None
        else if slot_length p i = - 1 then Some i
        else find_free_slot p (i - 1)
      else Some i)"
  by pat_completeness auto
termination
  by (relation "measure (\<lambda>(p, i). nat (i - slotCnt p))") auto

declare find_free_slot.simps [simp del]

text \<open>The \<open>memcpy\<close> of a record's bytes into the data area.\<close>

definition copy_record :: "page \<Rightarrow> int \<Rightarrow> Record \<Rightarrow> page option" where
  "copy_record p off rec =
     (if 0 \<le> rec_length rec \<and> rec_length rec \<le> int (length (rec_data rec)) \<and>
         0 \<le> off \<and> off + rec_length rec \<le> PAGESIZE
      then Some (write_bytes p (nat off) (take (nat (rec_length rec)) (rec_data rec)))
      else None)"

definition Page_insertRecord :: "page \<Rightarrow> Record \<Rightarrow> RID \<Rightarrow> (Status \<times> page \<times> RID) option" where
  "Page_insertRecord p rec rid =
     (let spaceNeeded = swrap 4 (rec_length rec + sizeof_slot)
      in if spaceNeeded > freeSpace p then Some (NOSPACE, p, rid)
      else do {
        i \<leftarrow> find_free_slot p 0;
        let p = (if i = slotCnt p
                 then set_slotCnt (set_freeSpace p (freeSpace p - spaceNeeded)) (slotCnt p - 1)
                 else set_freeSpace p (freeSpace p - rec_length rec));
        if \<not> slot_in_page i then None
        else do {
          let p = set_slot_offset p i (freePtr p);
          let p = set_slot_length p i (rec_length rec);
          p \<leftarrow> copy_record p (freePtr p) rec;
          let p = set_freePtr p (freePtr p + rec_length rec);
          Some (OK, p, RID (curPage p) (- i))
        }
      })"

text \<open>
  The loop of \<open>deleteRecord\<close> that moves the offsets of the records behind the hole; the
  loop variable \<open>i\<close> is \<open>- int k\<close>.
\<close>

function shift_offsets :: "page \<Rightarrow> int \<Rightarrow> int \<Rightarrow> nat \<Rightarrow> page option" where
  "shift_offsets p sl recLen k =
     (if - int k > slotCnt p then
        if \<not> slot_in_page (- int k) then None
        else shift_offsets
               (if slot_length p (- int k) \<ge> 0 \<and> slot_offset p (- int k) > slot_offset p sl
                then set_slot_offset p (- int k) (slot_offset p (- int k) - recLen) else p)
               sl recLen (Suc k)
      else Some p)"
  by pat_completeness auto
termination
  by (relation "measure (\<lambda>(p, sl, recLen, k). 252 - k)") (auto simp: slot_in_page_def)

declare shift_offsets.simps [simp del]

text \<open>The \<open>do ... while\<close> loop of \<open>deleteRecord\<close> that compacts the end of the slot array.\<close>

definition drop_slot :: "page \<Rightarrow> page" where
  "drop_slot p = (let p = set_slotCnt p (slotCnt p + 1) in set_freeSpace p (freeSpace p + sizeof_slot))"

lemma slotCnt_drop_slot: "slotCnt (drop_slot p) = swrap 2 (slotCnt p + 1)"
  by (simp add: drop_slot_def Let_def set_slotCnt_def set_freeSpace_def slotCnt_def
      mem_simps get_put_short_wrap)

lemma slotCnt_drop_slot_neg:
  "slotCnt (drop_slot p) < 0 \<Longrightarrow> slotCnt p < 0 \<Longrightarrow> slotCnt (drop_slot p) = slotCnt p + 1"
  using get_short_range [of p 1008] unfolding slotCnt_drop_slot
  by (simp add: slotCnt_def short_ok_def)

function compact_slots :: "page \<Rightarrow> page option" where
  "compact_slots p =
     (if slotCnt (drop_slot p) < 0 then
        if \<not> slot_in_page (slotCnt (drop_slot p) + 1) then None
        else if slot_length (drop_slot p) (slotCnt (drop_slot p) + 1) = - 1
        then compact_slots (drop_slot p)
        else Some (drop_slot p)
      else Some (drop_slot p))"
  by pat_completeness auto
termination
proof (relation "measure (\<lambda>p. if slotCnt p < 0 then nat (- slotCnt p) else 40000)")
  fix p assume neg: "slotCnt (drop_slot p) < 0"
  show "(drop_slot p, p) \<in> measure (\<lambda>p. if slotCnt p < 0 then nat (- slotCnt p) else 40000)"
    using neg slotCnt_drop_slot_neg [OF neg] get_short_range [of "drop_slot p" 1008]
    by (auto simp: slotCnt_def [of "drop_slot p"] short_ok_def)
qed simp

declare compact_slots.simps [simp del]

definition Page_deleteRecord :: "page \<Rightarrow> RID \<Rightarrow> (Status \<times> page) option" where
  "Page_deleteRecord p rid =
     (let sl = - slotNo rid
      in if sl > slotCnt p then
           if \<not> slot_in_page sl then None
           else if slot_length p sl > 0 then do {
             let off = slot_offset p sl;
             let recLen = slot_length p sl;
             let nextOffset = off + recLen;
             let cnt = freePtr p - nextOffset;
             if \<not> (0 \<le> off \<and> 0 \<le> cnt \<and> freePtr p \<le> PAGESIZE) then None
             else do {
               let p = write_bytes p (nat off) (read_bytes p (nat nextOffset) (nat cnt));
               p \<leftarrow> shift_offsets p sl recLen 0;
               let p = set_freePtr p (freePtr p - recLen);
               let p = set_freeSpace p (freeSpace p + recLen);
               if sl = slotCnt p + 1 then do { p \<leftarrow> compact_slots p; Some (OK, p) }
               else Some (OK, set_slot_offset (set_slot_length p sl (- 1)) sl 0)
             }
           }
           else Some (INVALIDSLOTNO, p)
         else Some (INVALIDSLOTNO, p))"

text \<open>The loop of \<open>firstRecord\<close> and \<open>nextRecord\<close> that skips empty slots.\<close>

function skip_empty :: "page \<Rightarrow> int \<Rightarrow> int option" where
  "skip_empty p i =
     (if i > slotCnt p then
        if \<not> slot_in_page i then None
        else if slot_length p i = - 1 then skip_empty p (i - 1)
        else Some i
      else Some i)"
  by pat_completeness auto
termination
  by (relation "measure (\<lambda>(p, i). nat (i - slotCnt p))") auto

declare skip_empty.simps [simp del]

definition Page_firstRecord :: "page \<Rightarrow> RID \<Rightarrow> (Status \<times> RID) option" where
  "Page_firstRecord p firstRid = do {
     i \<leftarrow> skip_empty p 0;
     if i = slotCnt p then Some (NORECORDS, firstRid)
     else if \<not> slot_in_page i then None
     else if slot_length p i = - 1 then Some (NORECORDS, firstRid)
     else Some (OK, RID (curPage p) (- i))
   }"

definition Page_nextRecord :: "page \<Rightarrow> RID \<Rightarrow> RID \<Rightarrow> (Status \<times> RID) option" where
  "Page_nextRecord p curRid nextRid = do {
     i \<leftarrow> skip_empty p (- slotNo curRid - 1);
     if i \<le> slotCnt p then Some (ENDOFPAGE, nextRid)
     else if \<not> slot_in_page i then None
     else if slot_length p i = - 1 then Some (ENDOFPAGE, nextRid)
     else Some (OK, RID (curPage p) (- i))
   }"

definition Page_getRecord :: "page \<Rightarrow> RID \<Rightarrow> recref \<Rightarrow> (Status \<times> recref) option" where
  "Page_getRecord p rid rec =
     (let sl = slotNo rid
      in if - sl > slotCnt p then
           if \<not> slot_in_page (- sl) then None
           else if slot_length p (- sl) > 0
           then Some (OK, \<lparr>ref_offset = slot_offset p (- sl), ref_length = slot_length p (- sl)\<rparr>)
           else Some (INVALIDSLOTNO, rec)
         else Some (INVALIDSLOTNO, rec))"

text \<open>Following the pointer of a record reference into the page.\<close>

definition deref :: "page \<Rightarrow> recref \<Rightarrow> Record option" where
  "deref p r =
     (if 0 \<le> ref_offset r \<and> 0 \<le> ref_length r \<and> ref_offset r + ref_length r \<le> PAGESIZE
      then Some \<lparr>rec_data = read_bytes p (nat (ref_offset r)) (nat (ref_length r)),
                 rec_length = ref_length r\<rparr>
      else None)"

end
