(* ===== verification/FileLayer.thy ===== *)
theory FileLayer
  imports Page
begin

text \<open>
  The \<open>File\<close> class of \<open>db.h\<close> and \<open>db.cpp\<close>: page reads and writes on a Unix file, and page
  allocation with the free list kept on the file's header page (page 0).

  A Unix file is its size and its bytes; descriptors are an array of open files (descriptor
  \<open>i + 3\<close> is entry \<open>i\<close>, the first three belong to the standard streams). \<open>lseek\<close> fails on a
  negative offset, \<open>read\<close> past the end of the file is short, \<open>write\<close> extends the file and
  fills a hole with zeros. Device errors and exhausted descriptors are not modelled. \<open>File\<close>
  objects live in a heap indexed by their address; using an address at which there is no
  object has no defined result.
\<close>

record ufile =
  fsize :: nat
  fdata :: mem

record File =
  fileName :: string
  openCnt :: int
  unixFile :: int

record fs_state =
  disk :: "string \<Rightarrow> ufile option"
  fds :: "string option list"
  files :: "ptr \<Rightarrow> File option"


section \<open>Unix system calls\<close>

text \<open>
  The name of the Unix file for a \<open>std::string\<close>: \<open>c_str()\<close> ends at the first zero byte. The keys of \<open>disk\<close> and
  the names in \<open>fds\<close> are such names; \<open>File\<close> objects and the table of open files have the whole string.
\<close>

definition unix_name :: "string \<Rightarrow> string" where
  "unix_name s = takeWhile (\<lambda>c. c \<noteq> CHR 0x00) s"

definition fd_name :: "'a fs_state_scheme \<Rightarrow> int \<Rightarrow> string option" where
  "fd_name w fd = (if 3 \<le> fd \<and> nat (fd - 3) < length (fds w) then fds w ! nat (fd - 3) else None)"

text \<open>\<open>read\<close> of one page into a buffer: the number of bytes read and the buffer.\<close>

definition sys_read :: "ufile \<Rightarrow> nat \<Rightarrow> page \<Rightarrow> nat \<times> page" where
  "sys_read u off buf =
     (let nbytes = min 1024 (fsize u - off)
      in (nbytes, \<lambda>x. if x < nbytes then fdata u (off + x) else buf x))"

text \<open>\<open>write\<close> of one page.\<close>

definition sys_write :: "ufile \<Rightarrow> nat \<Rightarrow> page \<Rightarrow> ufile" where
  "sys_write u off pg =
     \<lparr>fsize = max (fsize u) (off + 1024),
      fdata = (\<lambda>x. if off \<le> x \<and> x < off + 1024 then pg (x - off) else if x < fsize u then fdata u x else 0)\<rparr>"


section \<open>The header page\<close>

text \<open>\<open>DBP(p)\<close> views the first twelve bytes of a page as a \<open>DBPage\<close>.\<close>

definition nextFree :: "page \<Rightarrow> int" where "nextFree p = get_int p 0"
definition firstPage :: "page \<Rightarrow> int" where "firstPage p = get_int p 4"
definition numPages :: "page \<Rightarrow> int" where "numPages p = get_int p 8"

definition set_nextFree :: "page \<Rightarrow> int \<Rightarrow> page" where "set_nextFree p v = put_int p 0 v"
definition set_firstPage :: "page \<Rightarrow> int \<Rightarrow> page" where "set_firstPage p v = put_int p 4 v"
definition set_numPages :: "page \<Rightarrow> int \<Rightarrow> page" where "set_numPages p v = put_int p 8 v"


section \<open>Operations\<close>

definition File_intread :: "'a fs_state_scheme \<Rightarrow> ptr \<Rightarrow> int \<Rightarrow> page \<Rightarrow> (Status \<times> page) option" where
  "File_intread w f pageNum buf = do {
     fo \<leftarrow> files w f;
     if pageNum < 0 then Some (UNIXERR, buf)
     else case fd_name w (unixFile fo) of
       None \<Rightarrow> Some (UNIXERR, buf)
     | Some nm \<Rightarrow>
         (case disk w nm of
            None \<Rightarrow> Some (UNIXERR, buf)
          | Some u \<Rightarrow>
              let (nbytes, buf) = sys_read u (nat pageNum * 1024) buf
              in if nbytes \<noteq> 1024 then Some (UNIXERR, buf) else Some (OK, buf))
   }"

definition File_intwrite :: "'a fs_state_scheme \<Rightarrow> ptr \<Rightarrow> int \<Rightarrow> page \<Rightarrow> (Status \<times> 'a fs_state_scheme) option" where
  "File_intwrite w f pageNum pg = do {
     fo \<leftarrow> files w f;
     if pageNum < 0 then Some (UNIXERR, w)
     else case fd_name w (unixFile fo) of
       None \<Rightarrow> Some (UNIXERR, w)
     | Some nm \<Rightarrow>
         (case disk w nm of
            None \<Rightarrow> Some (UNIXERR, w)
          | Some u \<Rightarrow> Some (OK, w\<lparr>disk := (disk w)(nm \<mapsto> sys_write u (nat pageNum * 1024) pg)\<rparr>))
   }"

text \<open>The last argument is what \<open>pagePtr\<close> points to; \<open>None\<close> is a null pointer, for which no page is returned.\<close>

definition File_readPage :: "'a fs_state_scheme \<Rightarrow> ptr \<Rightarrow> int \<Rightarrow> page option \<Rightarrow> (Status \<times> page) option" where
  "File_readPage w f pageNum pagePtr =
     (case pagePtr of
        None \<Rightarrow> Some (BADPAGEPTR, zero_mem)
      | Some buf \<Rightarrow> if pageNum < 1 then Some (BADPAGENO, buf) else File_intread w f pageNum buf)"

definition File_writePage :: "'a fs_state_scheme \<Rightarrow> ptr \<Rightarrow> int \<Rightarrow> page option \<Rightarrow> (Status \<times> 'a fs_state_scheme) option" where
  "File_writePage w f pageNum pagePtr =
     (case pagePtr of
        None \<Rightarrow> Some (BADPAGEPTR, w)
      | Some pg \<Rightarrow> if pageNum < 1 then Some (BADPAGENO, w) else File_intwrite w f pageNum pg)"

definition File_getFirstPage :: "'a fs_state_scheme \<Rightarrow> ptr \<Rightarrow> int \<Rightarrow> (Status \<times> int) option" where
  "File_getFirstPage w f pageNum = do {
     (status, header) \<leftarrow> File_intread w f 0 zero_mem;
     if status \<noteq> OK then Some (status, pageNum) else Some (OK, firstPage header)
   }"

text \<open>\<open>pageNo\<close> is an output parameter; its value on entry is the last argument.\<close>

definition File_allocatePage ::
    "'a fs_state_scheme \<Rightarrow> ptr \<Rightarrow> int \<Rightarrow> (Status \<times> int \<times> 'a fs_state_scheme) option" where
  "File_allocatePage w f pageNum = do {
     (status, header) \<leftarrow> File_intread w f 0 zero_mem;
     if status \<noteq> OK then Some (status, pageNum, w)
     else if nextFree header \<noteq> - 1 then do {
       let pageNum = nextFree header;
       (status, firstFree) \<leftarrow> File_intread w f pageNum zero_mem;
       if status \<noteq> OK then Some (status, pageNum, w)
       else do {
         let header = set_nextFree header (nextFree firstFree);
         (status, w) \<leftarrow> File_intwrite w f 0 header;
         Some (status, pageNum, w)
       }
     }
     else do {
       let pageNum = numPages header;
       (status, w) \<leftarrow> File_intwrite w f pageNum zero_mem;
       if status \<noteq> OK then Some (status, pageNum, w)
       else do {
         let header = set_numPages header (numPages header + 1);
         let header = (if firstPage header = - 1 then set_firstPage header pageNum else header);
         (status, w) \<leftarrow> File_intwrite w f 0 header;
         Some (status, pageNum, w)
       }
     }
   }"

definition File_disposePage :: "'a fs_state_scheme \<Rightarrow> ptr \<Rightarrow> int \<Rightarrow> (Status \<times> 'a fs_state_scheme) option" where
  "File_disposePage w f pageNum =
     (if pageNum < 1 then Some (BADPAGENO, w)
      else do {
        (status, header) \<leftarrow> File_intread w f 0 zero_mem;
        if status \<noteq> OK then Some (status, w)
        else if firstPage header = pageNum \<or> pageNum \<ge> numPages header then Some (BADPAGENO, w)
        else do {
          (status, away) \<leftarrow> File_intread w f pageNum zero_mem;
          if status \<noteq> OK then Some (status, w)
          else do {
            let away = set_nextFree zero_mem (nextFree header);
            let header = set_nextFree header pageNum;
            (status, w) \<leftarrow> File_intwrite w f pageNum away;
            if status \<noteq> OK then Some (status, w)
            else File_intwrite w f 0 header
          }
        }
      })"

text \<open>\<open>File::create\<close>: a new file holds just the header page.\<close>

definition empty_header :: page where
  "empty_header = set_numPages (set_firstPage (set_nextFree zero_mem (- 1)) (- 1)) 1"

definition File_create :: "'a fs_state_scheme \<Rightarrow> string \<Rightarrow> Status \<times> 'a fs_state_scheme" where
  "File_create w fname =
     (case disk w (unix_name fname) of
        Some u \<Rightarrow> (FILEEXISTS, w)
      | None \<Rightarrow>
          (OK, w\<lparr>disk := (disk w)(unix_name fname \<mapsto> sys_write \<lparr>fsize = 0, fdata = zero_mem\<rparr> 0 empty_header)\<rparr>))"

definition File_destroy :: "'a fs_state_scheme \<Rightarrow> string \<Rightarrow> Status \<times> 'a fs_state_scheme" where
  "File_destroy w fname =
     (case disk w (unix_name fname) of
        None \<Rightarrow> (UNIXERR, w)
      | Some u \<Rightarrow> (OK, w\<lparr>disk := (disk w)(unix_name fname := None)\<rparr>))"

text \<open>\<open>::open\<close> takes the first descriptor not in use.\<close>

fun first_free_fd :: "string option list \<Rightarrow> nat" where
  "first_free_fd [] = 0"
| "first_free_fd (None # ds) = 0"
| "first_free_fd (Some n # ds) = Suc (first_free_fd ds)"

definition sys_open :: "'a fs_state_scheme \<Rightarrow> string \<Rightarrow> int \<times> 'a fs_state_scheme" where
  "sys_open w fname =
     (case disk w fname of
        None \<Rightarrow> (- 1, w)
      | Some u \<Rightarrow>
          let i = first_free_fd (fds w);
              ds = (if i < length (fds w) then (fds w)[i := Some fname] else fds w @ [Some fname])
          in (int i + 3, w\<lparr>fds := ds\<rparr>))"

definition sys_close :: "'a fs_state_scheme \<Rightarrow> int \<Rightarrow> int \<times> 'a fs_state_scheme" where
  "sys_close w fd =
     (case fd_name w fd of
        None \<Rightarrow> (- 1, w)
      | Some nm \<Rightarrow> (0, w\<lparr>fds := (fds w)[nat (fd - 3) := None]\<rparr>))"

definition new_File :: "string \<Rightarrow> File" where
  "new_File fname = \<lparr>fileName = fname, openCnt = 0, unixFile = - 1\<rparr>"

definition File_open :: "'a fs_state_scheme \<Rightarrow> ptr \<Rightarrow> (Status \<times> 'a fs_state_scheme) option" where
  "File_open w f = do {
     fo \<leftarrow> files w f;
     if openCnt fo = 0 then do {
       let (fd, w) = sys_open w (unix_name (fileName fo));
       if fd < 0 then Some (UNIXERR, w\<lparr>files := (files w)(f \<mapsto> fo\<lparr>unixFile := fd\<rparr>)\<rparr>)
       else Some (OK, w\<lparr>files := (files w)(f \<mapsto> fo\<lparr>unixFile := fd, openCnt := 1\<rparr>)\<rparr>)
     }
     else Some (OK, w\<lparr>files := (files w)(f \<mapsto> fo\<lparr>openCnt := openCnt fo + 1\<rparr>)\<rparr>)
   }"

end
