(* ===== verification/ChainTable.thy ===== *)
theory ChainTable
  imports ErrorCodes
begin

text \<open>
  Chained hash tables. The program has two with the same code, \<open>OpenFileHashTbl\<close> (open
  files by name, \<open>db.cpp\<close>) and \<open>BufHashTbl\<close> (buffered pages by file and page number,
  \<open>bufHash.cpp\<close>): an array of singly linked chains, insertion at the head of a chain after
  a search for a duplicate, removal of the first match. This theory has the loops over one
  chain, the facts about an array of chains (locale \<open>chained_table\<close>) and the contract the
  clients rely on (locale \<open>lookup_table\<close>); each table's theory interprets both.
\<close>

text \<open>The search loop \<open>while (tmpBuc) { if (match) ...; tmpBuc = tmpBuc->next; }\<close>.\<close>

fun chain_find :: "('b \<Rightarrow> bool) \<Rightarrow> 'b list \<Rightarrow> 'b option" where
  "chain_find match [] = None"
| "chain_find match (b # bs) = (if match b then Some b else chain_find match bs)"

text \<open>
  The removal loop with its trailing pointer: the first match is unlinked; \<open>None\<close> means
  the end of the chain was reached.
\<close>

fun chain_remove :: "('b \<Rightarrow> bool) \<Rightarrow> 'b list \<Rightarrow> 'b list option" where
  "chain_remove match [] = None"
| "chain_remove match (b # bs) =
     (if match b then Some bs else map_option ((#) b) (chain_remove match bs))"

text \<open>An access \<open>ht[index]\<close> is defined only inside the array.\<close>

definition ht_chain :: "'b list list \<Rightarrow> int \<Rightarrow> 'b list option" where
  "ht_chain ht index = (if 0 \<le> index \<and> index < int (length ht) then Some (ht ! nat index) else None)"


section \<open>Chains\<close>

lemma chain_find_None: "chain_find P bs = None \<longleftrightarrow> (\<forall>b \<in> set bs. \<not> P b)"
  by (induction bs) auto

lemma chain_find_Some: "chain_find P bs = Some b \<Longrightarrow> b \<in> set bs \<and> P b"
  by (induction bs) (auto split: if_splits)

lemma chain_remove_None: "chain_remove P bs = None \<longleftrightarrow> chain_find P bs = None"
  by (induction bs) auto

lemma chain_remove_set: "chain_remove P bs = Some cs \<Longrightarrow> set cs \<subseteq> set bs"
  by (induction bs arbitrary: cs) (auto split: if_splits)

lemma chain_remove_distinct:
  "chain_remove P bs = Some cs \<Longrightarrow> distinct (map key bs) \<Longrightarrow> distinct (map key cs)"
  by (induction bs arbitrary: cs) (fastforce split: if_splits dest: chain_remove_set)+

lemma chain_find_remove:
  "chain_remove (\<lambda>b. key b = k) bs = Some cs \<Longrightarrow> distinct (map key bs) \<Longrightarrow>
   chain_find (\<lambda>b. key b = j) cs = (if j = k then None else chain_find (\<lambda>b. key b = j) bs)"
  by (induction bs arbitrary: cs) (auto split: if_splits simp: chain_find_None rev_image_eqI)


section \<open>Arrays of chains\<close>

locale chained_table =
  fixes key :: "'b \<Rightarrow> 'k" and idx :: "'k \<Rightarrow> int" and n :: nat
begin

definition wf :: "'b list list \<Rightarrow> bool" where
  "wf ht \<longleftrightarrow> length ht = n \<and>
     (\<forall>i < n. distinct (map key (ht ! i)) \<and> (\<forall>b \<in> set (ht ! i). idx (key b) = int i))"

definition ok :: "'k \<Rightarrow> bool" where
  "ok k \<longleftrightarrow> 0 \<le> idx k \<and> idx k < int n"

definition abs :: "'b list list \<Rightarrow> 'k \<Rightarrow> 'b option" where
  "abs ht k = (if ok k then chain_find (\<lambda>b. key b = k) (ht ! nat (idx k)) else None)"

lemma wf_empty: "wf (replicate n [])"
  by (simp add: wf_def)

lemma abs_empty: "abs (replicate n []) k = None"
  by (auto simp: abs_def ok_def nat_less_iff)

lemma chain_ok: "wf ht \<Longrightarrow> ok k \<Longrightarrow> ht_chain ht (idx k) = Some (ht ! nat (idx k))"
  by (simp add: wf_def ok_def ht_chain_def)

lemma abs_key: "abs ht k = Some b \<Longrightarrow> key b = k \<and> ok k"
  by (auto simp: abs_def dest: chain_find_Some split: if_splits)

lemma wfD: "wf ht \<Longrightarrow> i < n \<Longrightarrow> distinct (map key (ht ! i))"
  "wf ht \<Longrightarrow> i < n \<Longrightarrow> \<forall>b \<in> set (ht ! i). idx (key b) = int i"
  by (simp_all add: wf_def)

lemma wf_update:
  "wf ht \<Longrightarrow> i < n \<Longrightarrow> distinct (map key c) \<Longrightarrow> \<forall>b \<in> set c. idx (key b) = int i \<Longrightarrow> wf (ht[i := c])"
  by (simp add: wf_def nth_list_update)

lemma abs_update:
  "wf ht \<Longrightarrow> ok k \<Longrightarrow> ok j \<Longrightarrow> abs (ht[nat (idx k) := c]) j =
     (if idx j = idx k then chain_find (\<lambda>b. key b = j) c else abs ht j)"
  by (auto simp: abs_def wf_def ok_def nth_list_update)

lemma insert_wf:
  assumes wf: "wf ht" and b: "ok (key b)" "abs ht (key b) = None"
  shows "wf (ht[nat (idx (key b)) := b # ht ! nat (idx (key b))])"
    and "abs (ht[nat (idx (key b)) := b # ht ! nat (idx (key b))]) = (abs ht)(key b \<mapsto> b)"
proof -
  let ?i = "nat (idx (key b))"
  have i: "?i < n" "int ?i = idx (key b)" using b(1) by (auto simp: ok_def)
  have "key b \<notin> key ` set (ht ! ?i)" using b by (auto simp: abs_def chain_find_None)
  then show "wf (ht[?i := b # ht ! ?i])"
    using wfD(1) [OF wf i(1)]
    by (intro wf_update [OF wf i(1)]) (simp, metis wfD(2) [OF wf i(1)] i(2) set_ConsD)
  show "abs (ht[?i := b # ht ! ?i]) = (abs ht)(key b \<mapsto> b)"
  proof
    fix j
    show "abs (ht[?i := b # ht ! ?i]) j = ((abs ht)(key b \<mapsto> b)) j"
    proof (cases "ok j")
      case True
      then show ?thesis using abs_update [OF wf b(1) True] b by (auto simp: abs_def)
    next
      case False
      then show ?thesis using b by (auto simp: abs_def)
    qed
  qed
qed

lemma remove_wf:
  assumes wf: "wf ht" and k: "ok k"
    and rm: "chain_remove (\<lambda>b. key b = k) (ht ! nat (idx k)) = Some c"
  shows "wf (ht[nat (idx k) := c])" and "abs (ht[nat (idx k) := c]) = (abs ht)(k := None)"
proof -
  let ?i = "nat (idx k)"
  have i: "?i < n" "int ?i = idx k" using k by (auto simp: ok_def)
  have d: "distinct (map key (ht ! ?i))" by (rule wfD(1) [OF wf i(1)])
  show "wf (ht[?i := c])"
    using wfD(2) [OF wf i(1)] chain_remove_set [OF rm] chain_remove_distinct [OF rm d]
    by (intro wf_update [OF wf i(1)]) blast+
  show "abs (ht[?i := c]) = (abs ht)(k := None)"
  proof
    fix j
    show "abs (ht[?i := c]) j = ((abs ht)(k := None)) j"
    proof (cases "ok j")
      case True
      then show ?thesis
        using abs_update [OF wf k True] chain_find_remove [OF rm d, of j] k by (auto simp: abs_def)
    next
      case False
      then show ?thesis by (auto simp: abs_def)
    qed
  qed
qed

end


section \<open>The contract of a lookup table\<close>

locale lookup_table =
  fixes invar :: "'t \<Rightarrow> bool"
    and valid :: "'t \<Rightarrow> 'k \<Rightarrow> bool"
    and amap :: "'t \<Rightarrow> 'k \<Rightarrow> 'v option"
    and tinsert :: "'t \<Rightarrow> 'k \<Rightarrow> 'v \<Rightarrow> (Status \<times> 't) option"
    and tlookup :: "'t \<Rightarrow> 'k \<Rightarrow> 'v \<Rightarrow> (Status \<times> 'v) option"
    and tremove :: "'t \<Rightarrow> 'k \<Rightarrow> (Status \<times> 't) option"
  assumes insert_new: "invar t \<Longrightarrow> valid t k \<Longrightarrow> amap t k = None \<Longrightarrow>
      \<exists>t'. tinsert t k v = Some (OK, t') \<and> invar t' \<and> amap t' = (amap t)(k \<mapsto> v) \<and> valid t' = valid t"
    and insert_dup: "invar t \<Longrightarrow> valid t k \<Longrightarrow> amap t k \<noteq> None \<Longrightarrow> tinsert t k v = Some (HASHTBLERROR, t)"
    and lookup_present: "invar t \<Longrightarrow> valid t k \<Longrightarrow> amap t k = Some v \<Longrightarrow> tlookup t k d = Some (OK, v)"
    and lookup_absent: "invar t \<Longrightarrow> valid t k \<Longrightarrow> amap t k = None \<Longrightarrow> tlookup t k d = Some (HASHNOTFOUND, d)"
    and remove_present: "invar t \<Longrightarrow> valid t k \<Longrightarrow> amap t k \<noteq> None \<Longrightarrow>
      \<exists>t'. tremove t k = Some (OK, t') \<and> invar t' \<and> amap t' = (amap t)(k := None) \<and> valid t' = valid t"
    and remove_absent: "invar t \<Longrightarrow> valid t k \<Longrightarrow> amap t k = None \<Longrightarrow> tremove t k = Some (HASHTBLERROR, t)"
begin

lemma lookup_iff: "invar t \<Longrightarrow> valid t k \<Longrightarrow>
   tlookup t k d = (case amap t k of Some v \<Rightarrow> Some (OK, v) | None \<Rightarrow> Some (HASHNOTFOUND, d))"
  by (cases "amap t k") (simp_all add: lookup_present lookup_absent)

text \<open>A key that was inserted is found; every other key is found as before.\<close>

lemma lookup_insert:
  assumes "invar t" "valid t k" "valid t j" "amap t k = None"
  shows "\<exists>t'. tinsert t k v = Some (OK, t') \<and> invar t' \<and>
     tlookup t' j d = (if j = k then Some (OK, v) else tlookup t j d)"
proof -
  obtain t' where t': "tinsert t k v = Some (OK, t')" "invar t'" "amap t' = (amap t)(k \<mapsto> v)" "valid t' = valid t"
    using insert_new [OF assms(1,2,4)] by metis
  then have "tlookup t' j d = (if j = k then Some (OK, v) else tlookup t j d)"
    using lookup_iff [of t' j d] lookup_iff [of t j d] assms by simp
  then show ?thesis using t' by blast
qed

lemma lookup_remove:
  assumes "invar t" "valid t k" "valid t j" "amap t k \<noteq> None"
  shows "\<exists>t'. tremove t k = Some (OK, t') \<and> invar t' \<and>
     tlookup t' j d = (if j = k then Some (HASHNOTFOUND, d) else tlookup t j d)"
proof -
  obtain t' where t': "tremove t k = Some (OK, t')" "invar t'" "amap t' = (amap t)(k := None)" "valid t' = valid t"
    using remove_present [OF assms(1,2,4)] by metis
  then have "tlookup t' j d = (if j = k then Some (HASHNOTFOUND, d) else tlookup t j d)"
    using lookup_iff [of t' j d] lookup_iff [of t j d] assms by simp
  then show ?thesis using t' by blast
qed

text \<open>Inserting and removing a key leaves the map as it was.\<close>

lemma remove_insert:
  assumes "invar t" "valid t k" "amap t k = None"
  shows "\<exists>t' t''. tinsert t k v = Some (OK, t') \<and> tremove t' k = Some (OK, t'') \<and> invar t'' \<and> amap t'' = amap t"
proof -
  obtain t' where t': "tinsert t k v = Some (OK, t')" "invar t'" "amap t' = (amap t)(k \<mapsto> v)" "valid t' = valid t"
    using insert_new [OF assms] by metis
  obtain t'' where "tremove t' k = Some (OK, t'')" "invar t''" "amap t'' = (amap t')(k := None)"
    using remove_present [of t' k] t' assms(2) by auto
  then show ?thesis using t' assms(3) by (intro exI [of _ t'] exI [of _ t'']) (auto simp: fun_eq_iff)
qed

end

end
