(* ===== verification/BufHash.thy ===== *)
theory BufHash
  imports ChainTable
begin

text \<open>
  The hash table of buffered pages (\<open>buf.h\<close>, \<open>bufHash.cpp\<close>): it maps a file object's
  address and a page number to the frame that holds the page. The hash function casts the
  address to a 32-bit integer, so its value can be negative; the array access is then out
  of bounds and the operation has no defined result.
\<close>

record hashBucket =
  hb_file :: ptr
  hb_pageNo :: int
  hb_frameNo :: int

record BufHashTbl =
  HTSIZE :: int
  ht :: "hashBucket list list"

definition bh_index :: "int \<Rightarrow> ptr \<Rightarrow> int \<Rightarrow> int" where
  "bh_index htsize file pageNum = (let tmp = swrap 4 (uint file) in c_rem (swrap 4 (tmp + pageNum)) htsize)"

definition BufHashTbl_hash :: "BufHashTbl \<Rightarrow> ptr \<Rightarrow> int \<Rightarrow> int" where
  "BufHashTbl_hash t file pageNum = bh_index (HTSIZE t) file pageNum"

definition BufHashTbl_new :: "int \<Rightarrow> BufHashTbl" where
  "BufHashTbl_new htSize = \<lparr>HTSIZE = htSize, ht = replicate (nat htSize) []\<rparr>"

abbreviation hb_matches :: "ptr \<Rightarrow> int \<Rightarrow> hashBucket \<Rightarrow> bool" where
  "hb_matches file pageNum b \<equiv> hb_file b = file \<and> hb_pageNo b = pageNum"

definition BufHashTbl_insert :: "BufHashTbl \<Rightarrow> ptr \<Rightarrow> int \<Rightarrow> int \<Rightarrow> (Status \<times> BufHashTbl) option" where
  "BufHashTbl_insert t file pageNum frameNum = do {
     let index = BufHashTbl_hash t file pageNum;
     chain \<leftarrow> ht_chain (ht t) index;
     if chain_find (hb_matches file pageNum) chain \<noteq> None then Some (HASHTBLERROR, t)
     else do {
       let tmpBuc = \<lparr>hb_file = file, hb_pageNo = pageNum, hb_frameNo = frameNum\<rparr>;
       Some (OK, t\<lparr>ht := (ht t)[nat index := tmpBuc # chain]\<rparr>)
     }
   }"

definition BufHashTbl_lookup :: "BufHashTbl \<Rightarrow> ptr \<Rightarrow> int \<Rightarrow> int \<Rightarrow> (Status \<times> int) option" where
  "BufHashTbl_lookup t file pageNum frameNum = do {
     let index = BufHashTbl_hash t file pageNum;
     chain \<leftarrow> ht_chain (ht t) index;
     case chain_find (hb_matches file pageNum) chain of
       Some b \<Rightarrow> Some (OK, hb_frameNo b)
     | None \<Rightarrow> Some (HASHNOTFOUND, frameNum)
   }"

definition BufHashTbl_remove :: "BufHashTbl \<Rightarrow> ptr \<Rightarrow> int \<Rightarrow> (Status \<times> BufHashTbl) option" where
  "BufHashTbl_remove t file pageNum = do {
     let index = BufHashTbl_hash t file pageNum;
     chain \<leftarrow> ht_chain (ht t) index;
     case chain_remove (hb_matches file pageNum) chain of
       Some rest \<Rightarrow> Some (OK, t\<lparr>ht := (ht t)[nat index := rest]\<rparr>)
     | None \<Rightarrow> Some (HASHTBLERROR, t)
   }"


section \<open>The table implements a map\<close>

definition hb_key :: "hashBucket \<Rightarrow> ptr \<times> int" where
  "hb_key b = (hb_file b, hb_pageNo b)"

definition bh_idx :: "nat \<Rightarrow> ptr \<times> int \<Rightarrow> int" where
  "bh_idx n k = bh_index (int n) (fst k) (snd k)"

interpretation bh: chained_table hb_key "bh_idx n" n for n .

definition bht_inv :: "BufHashTbl \<Rightarrow> bool" where
  "bht_inv t \<longleftrightarrow> 0 \<le> HTSIZE t \<and> bh.wf (nat (HTSIZE t)) (ht t)"

text \<open>The keys whose hash value is an index of the array.\<close>

definition bht_valid :: "BufHashTbl \<Rightarrow> ptr \<times> int \<Rightarrow> bool" where
  "bht_valid t k \<longleftrightarrow> 0 \<le> bh_index (HTSIZE t) (fst k) (snd k) \<and> bh_index (HTSIZE t) (fst k) (snd k) < HTSIZE t"

definition bht_map :: "BufHashTbl \<Rightarrow> ptr \<times> int \<Rightarrow> int option" where
  "bht_map t k = map_option hb_frameNo (bh.abs (nat (HTSIZE t)) (ht t) k)"

lemma bht_valid_ok: "bht_inv t \<Longrightarrow> bht_valid t k \<longleftrightarrow> bh.ok (nat (HTSIZE t)) k"
  by (auto simp: bht_inv_def bht_valid_def bh.ok_def bh_idx_def)

lemma hb_matches_key: "hb_matches f p = (\<lambda>b. hb_key b = (f, p))"
  by (auto simp: hb_key_def fun_eq_iff)

lemma bht_hash_idx: "bht_inv t \<Longrightarrow> BufHashTbl_hash t f p = bh_idx (nat (HTSIZE t)) (f, p)"
  by (simp add: BufHashTbl_hash_def bh_idx_def bht_inv_def)

lemma bht_chain:
  assumes "bht_inv t" "bht_valid t (f, p)"
  shows "ht_chain (ht t) (bh_idx (nat (HTSIZE t)) (f, p)) = Some (ht t ! nat (bh_idx (nat (HTSIZE t)) (f, p)))"
    and "bh.abs (nat (HTSIZE t)) (ht t) (f, p)
      = chain_find (\<lambda>b. hb_key b = (f, p)) (ht t ! nat (bh_idx (nat (HTSIZE t)) (f, p)))"
  using assms bh.chain_ok [of "nat (HTSIZE t)" "ht t" "(f, p)"] bht_valid_ok [OF assms(1), of "(f, p)"]
  by (simp_all add: bht_inv_def bh.abs_def)

interpretation buf_table: lookup_table bht_inv bht_valid bht_map
  "\<lambda>t k. BufHashTbl_insert t (fst k) (snd k)" "\<lambda>t k. BufHashTbl_lookup t (fst k) (snd k)"
  "\<lambda>t k. BufHashTbl_remove t (fst k) (snd k)"
proof unfold_locales
  fix t k and v d :: int
  assume inv: "bht_inv t" and val: "bht_valid t k"
  obtain f p where k: "k = (f, p)" by (cases k)
  let ?n = "nat (HTSIZE t)"
  let ?h = "bh_idx ?n (f, p)"
  note ch = bht_chain [OF inv val [unfolded k]] and ops = hb_matches_key bht_hash_idx [OF inv]
  have wf: "bh.wf ?n (ht t)" and ok: "bh.ok ?n (f, p)"
    using inv val bht_valid_ok [OF inv] by (auto simp: bht_inv_def k)
  show "\<exists>t'. BufHashTbl_insert t (fst k) (snd k) v = Some (OK, t') \<and> bht_inv t' \<and>
      bht_map t' = (bht_map t)(k \<mapsto> v) \<and> bht_valid t' = bht_valid t" if "bht_map t k = None"
  proof -
    let ?b = "\<lparr>hb_file = f, hb_pageNo = p, hb_frameNo = v\<rparr>"
    have none: "bh.abs ?n (ht t) (f, p) = None" using that by (simp add: bht_map_def k)
    moreover have key: "hb_key ?b = (f, p)" by (simp add: hb_key_def)
    ultimately have "bh.wf ?n ((ht t)[nat ?h := ?b # ht t ! nat ?h])"
      "bh.abs ?n ((ht t)[nat ?h := ?b # ht t ! nat ?h]) = (bh.abs ?n (ht t))((f, p) \<mapsto> ?b)"
      using bh.insert_wf [OF wf, of ?b] ok by simp_all
    then show ?thesis
      using none ch inv by (auto simp: BufHashTbl_insert_def Let_def ops bht_map_def k bht_inv_def bht_valid_def fun_eq_iff)
  qed
  show "BufHashTbl_insert t (fst k) (snd k) v = Some (HASHTBLERROR, t)" if "bht_map t k \<noteq> None"
    using that ch by (simp add: BufHashTbl_insert_def Let_def ops bht_map_def k)
  show "BufHashTbl_lookup t (fst k) (snd k) d = Some (OK, v)" if "bht_map t k = Some v"
    using that ch by (auto simp: BufHashTbl_lookup_def Let_def ops bht_map_def k)
  show "BufHashTbl_lookup t (fst k) (snd k) d = Some (HASHNOTFOUND, d)" if "bht_map t k = None"
    using that ch by (simp add: BufHashTbl_lookup_def Let_def ops bht_map_def k)
  show "\<exists>t'. BufHashTbl_remove t (fst k) (snd k) = Some (OK, t') \<and> bht_inv t' \<and>
      bht_map t' = (bht_map t)(k := None) \<and> bht_valid t' = bht_valid t" if "bht_map t k \<noteq> None"
  proof -
    have "chain_remove (\<lambda>b. hb_key b = (f, p)) (ht t ! nat ?h) \<noteq> None"
      using that ch(2) by (simp add: bht_map_def k chain_remove_None)
    then obtain c where c: "chain_remove (\<lambda>b. hb_key b = (f, p)) (ht t ! nat ?h) = Some c" by blast
    then show ?thesis
      using ch(1) inv bh.remove_wf [OF wf ok c]
      by (auto simp: BufHashTbl_remove_def Let_def ops bht_map_def k bht_inv_def bht_valid_def fun_eq_iff)
  qed
  show "BufHashTbl_remove t (fst k) (snd k) = Some (HASHTBLERROR, t)" if "bht_map t k = None"
    using that ch chain_remove_None [of "\<lambda>b. hb_key b = (f, p)" "ht t ! nat ?h"]
    by (simp add: BufHashTbl_remove_def Let_def ops bht_map_def k)
qed

lemma bht_new: "0 \<le> n \<Longrightarrow> bht_inv (BufHashTbl_new n) \<and> bht_map (BufHashTbl_new n) = Map.empty"
  using bh.wf_empty [of "nat n"] bh.abs_empty [of "nat n"]
  by (auto simp: bht_inv_def BufHashTbl_new_def bht_map_def fun_eq_iff)

text \<open>Every entry sits in a chain of the array, so its key has a valid hash.\<close>

lemma bht_map_valid: "bht_inv t \<Longrightarrow> bht_map t k = Some v \<Longrightarrow> bht_valid t k"
  using bh.abs_key [of "nat (HTSIZE t)" "ht t" k] bht_valid_ok [of t k] by (auto simp: bht_map_def)


section \<open>Properties\<close>

definition sample_table :: BufHashTbl where
  "sample_table = snd (the (BufHashTbl_insert (BufHashTbl_new 7) 4096 3 0))"

lemma sample_table_inv: "bht_inv sample_table \<and> bht_map sample_table = [(4096, 3) \<mapsto> 0]"
proof -
  have "bht_valid (BufHashTbl_new 7) (4096, 3)" by code_simp
  then obtain t where "BufHashTbl_insert (BufHashTbl_new 7) 4096 3 0 = Some (OK, t)" "bht_inv t"
      "bht_map t = [(4096, 3) \<mapsto> 0]"
    using buf_table.insert_new [of "BufHashTbl_new 7" "(4096, 3)" 0] bht_new [of 7] by auto
  then show ?thesis by (simp add: sample_table_def)
qed

text \<open>
  (C33) The page hash table behaves as a map. After a successful \<open>insert\<close> the new page is
  found at its frame and every other page is found as before; a second insertion of a key
  is refused with \<open>HASHTBLERROR\<close> and changes nothing. The key has to hash into the array.
\<close>

theorem bufhash_insert_lookup:
  assumes "bht_inv t" "bht_valid t (f, p)" "bht_valid t (g, q)"
  shows "if bht_map t (f, p) = None
    then \<exists>t'. BufHashTbl_insert t f p v = Some (OK, t') \<and> bht_inv t' \<and>
      BufHashTbl_lookup t' g q d = (if (g, q) = (f, p) then Some (OK, v) else BufHashTbl_lookup t g q d)
    else BufHashTbl_insert t f p v = Some (HASHTBLERROR, t)"
  using buf_table.lookup_insert [of t "(f, p)" "(g, q)" v d] buf_table.insert_dup [of t "(f, p)" v] assms
  by (auto simp del: split_paired_Ex split_paired_All)

theorem bufhash_insert_lookup_witness:
  "\<exists>t'. BufHashTbl_insert sample_table 4096 4 1 = Some (OK, t') \<and> bht_inv t' \<and>
     BufHashTbl_lookup t' 4096 3 9 = Some (OK, 0)"
proof -
  have "bht_valid sample_table (4096, 4)" "bht_valid sample_table (4096, 3)"
    "BufHashTbl_lookup sample_table 4096 3 9 = Some (OK, 0)" by code_simp+
  then show ?thesis
    using bufhash_insert_lookup [of sample_table 4096 4 4096 3 1 9] sample_table_inv by simp
qed

text \<open>
  \<open>remove\<close> takes exactly the named page out of the table: afterwards a lookup of it
  gives \<open>HASHNOTFOUND\<close> and leaves the caller's frame number alone, every other lookup is
  unchanged, and removing an absent page is reported as \<open>HASHTBLERROR\<close>.
\<close>

theorem bufhash_remove_lookup:
  assumes "bht_inv t" "bht_valid t (f, p)" "bht_valid t (g, q)"
  shows "if bht_map t (f, p) = None then BufHashTbl_remove t f p = Some (HASHTBLERROR, t)
    else \<exists>t'. BufHashTbl_remove t f p = Some (OK, t') \<and> bht_inv t' \<and>
      BufHashTbl_lookup t' g q d =
        (if (g, q) = (f, p) then Some (HASHNOTFOUND, d) else BufHashTbl_lookup t g q d)"
  using buf_table.lookup_remove [of t "(f, p)" "(g, q)" d] buf_table.remove_absent [of t "(f, p)"] assms
  by (auto simp del: split_paired_Ex split_paired_All)

theorem bufhash_remove_lookup_witness:
  "\<exists>t'. BufHashTbl_remove sample_table 4096 3 = Some (OK, t') \<and> bht_inv t' \<and>
     BufHashTbl_lookup t' 4096 3 9 = Some (HASHNOTFOUND, 9)"
proof -
  have "bht_valid sample_table (4096, 3)" by code_simp
  then show ?thesis
    using bufhash_remove_lookup [of sample_table 4096 3 4096 3 9] sample_table_inv by simp
qed

text \<open>
  (C35) The hash function does not keep the range its declaration promises. The cast keeps the low 32 bits of the
  address of the file object; if bit 31 is set, the sum with the page number is negative until it
  reaches zero, so is its remainder by the size of the table, and unless the size divides the sum every operation
  on this page accesses the array in front of its first element, which is undefined.
\<close>

theorem bufhash_negative_index:
  assumes "bht_inv t" "0 < HTSIZE t" "low = uint f mod 2 ^ 32" "2 ^ 31 \<le> low" "0 \<le> p" "low + p < 2 ^ 32" "\<not> HTSIZE t dvd 2 ^ 32 - (low + p)"
  shows "BufHashTbl_hash t f p = - ((2 ^ 32 - (low + p)) mod HTSIZE t) \<and> BufHashTbl_hash t f p < 0 \<and>
     BufHashTbl_insert t f p n = None \<and> BufHashTbl_lookup t f p n = None \<and> BufHashTbl_remove t f p = None"
proof -
  have "(uint f + 2 ^ 31) mod 2 ^ 32 = (low + 2 ^ 31 - 2 ^ 32) mod 2 ^ 32"
    unfolding assms(3) minus_mod_self2 by (rule mod_add_left_eq [symmetric])
  moreover have "low < 2 ^ 32" using assms(3) by simp
  ultimately have "swrap 4 (uint f) = low - 2 ^ 32" using assms(4) by (simp add: swrap_def)
  moreover have "swrap 4 (low - 2 ^ 32 + p) = low + p - 2 ^ 32" using assms(4-6) by (simp add: swrap_def)
  ultimately have "BufHashTbl_hash t f p = c_rem (low + p - 2 ^ 32) (HTSIZE t)"
    by (simp add: BufHashTbl_hash_def bh_index_def)
  then have h: "BufHashTbl_hash t f p = - ((2 ^ 32 - (low + p)) mod HTSIZE t)" using assms(2,6) by (simp add: c_rem_def)
  have "(2 ^ 32 - (low + p)) mod HTSIZE t \<noteq> 0" using assms(7) by (simp add: dvd_eq_mod_eq_0)
  moreover have "0 \<le> (2 ^ 32 - (low + p)) mod HTSIZE t" using assms(2) by simp
  ultimately have "BufHashTbl_hash t f p < 0" unfolding h by simp
  then show ?thesis using h by (simp add: BufHashTbl_insert_def BufHashTbl_lookup_def BufHashTbl_remove_def ht_chain_def)
qed

theorem bufhash_negative_index_witness:
  "BufHashTbl_hash (BufHashTbl_new 121) 0x80000000 1 < 0 \<and> BufHashTbl_insert (BufHashTbl_new 121) 0x80000000 1 0 = None"
proof -
  have t: "bht_inv (BufHashTbl_new 121)" "HTSIZE (BufHashTbl_new 121) = 121" using bht_new [of 121] by (simp_all add: BufHashTbl_new_def)
  show ?thesis using bufhash_negative_index [OF t(1), of "2 ^ 31" "0x80000000" 1 0] by (simp add: t(2))
qed

end
