(* ===== verification/Buf.thy ===== *)
theory Buf
  imports FileLayer BufHash
begin

text \<open>
  The buffer manager of \<open>buf.h\<close> and \<open>buf.cpp\<close>: a pool of page frames, one descriptor per
  frame, a hash table from file and page number to frame, and replacement by the clock
  algorithm.

  The state extends the state of the file layer with the fields of the single \<open>BufMgr\<close>
  object. A \<open>Page*\<close> into the pool is the index of its frame, \<open>None\<close> is the null pointer.
  Output parameters are passed with their value on entry and returned with their value on
  exit. An index outside the pool has no defined result.
\<close>

record BufDesc =
  bd_file :: ptr
  bd_pageNo :: int
  bd_frameNo :: int
  pinCnt :: int
  dirty :: bool
  valid :: bool
  refbit :: bool

record BufStats =
  accesses :: int
  diskreads :: int
  diskwrites :: int

record buf_state = fs_state +
  clockHand :: nat
  numBufs :: int
  hashTable :: BufHashTbl
  bufTable :: "BufDesc list"
  bufPool :: "page list"
  bufStats :: BufStats

type_synonym pageptr = "nat option"

definition BufDesc_Clear :: "BufDesc \<Rightarrow> BufDesc" where
  "BufDesc_Clear d = d\<lparr>pinCnt := 0, bd_file := NULL, bd_pageNo := - 1, dirty := False, valid := False\<rparr>"

definition BufDesc_Set :: "BufDesc \<Rightarrow> ptr \<Rightarrow> int \<Rightarrow> BufDesc" where
  "BufDesc_Set d filePtr pageNum =
     d\<lparr>bd_file := filePtr, bd_pageNo := pageNum, pinCnt := 1, dirty := False, valid := True, refbit := True\<rparr>"

definition BufStats_clear :: BufStats where
  "BufStats_clear = \<lparr>accesses = 0, diskreads = 0, diskwrites = 0\<rparr>"

text \<open>
  The constructor: all descriptor bytes are set to zero, then each frame gets its number.
  \<open>(int) (bufs * 1.2)\<close> is the integer part of six fifths of \<open>bufs\<close>.
\<close>

definition BufMgr_new :: "'a buf_state_scheme \<Rightarrow> int \<Rightarrow> 'a buf_state_scheme" where
  "BufMgr_new w bufs = w\<lparr>
     numBufs := bufs,
     bufTable := map (\<lambda>i. \<lparr>bd_file = NULL, bd_pageNo = 0, bd_frameNo = int i, pinCnt = 0,
                           dirty = False, valid = False, refbit = False\<rparr>) [0..<nat bufs],
     bufPool := replicate (nat bufs) zero_mem,
     hashTable := BufHashTbl_new (bufs * 6 div 5 * 2 div 2 + 1),
     clockHand := nat (bufs - 1),
     bufStats := BufStats_clear\<rparr>"


section \<open>Frame access\<close>

definition frame_in_pool :: "'a buf_state_scheme \<Rightarrow> int \<Rightarrow> bool" where
  "frame_in_pool w i \<longleftrightarrow> 0 \<le> i \<and> i < int (length (bufTable w)) \<and> i < int (length (bufPool w))"

definition set_desc :: "'a buf_state_scheme \<Rightarrow> nat \<Rightarrow> BufDesc \<Rightarrow> 'a buf_state_scheme" where
  "set_desc w i d = w\<lparr>bufTable := (bufTable w)[i := d]\<rparr>"

text \<open>A store through a page pointer into the pool.\<close>

definition set_frame :: "'a buf_state_scheme \<Rightarrow> nat \<Rightarrow> page \<Rightarrow> 'a buf_state_scheme" where
  "set_frame w i p = w\<lparr>bufPool := (bufPool w)[i := p]\<rparr>"

definition advanceClock :: "'a buf_state_scheme \<Rightarrow> 'a buf_state_scheme" where
  "advanceClock w = w\<lparr>clockHand := (clockHand w + 1) mod nat (numBufs w)\<rparr>"


section \<open>Frame allocation\<close>

text \<open>
  The loop of \<open>allocBuf\<close>. The argument counts the iterations left, \<open>2 * numBufs -
  numScanned\<close>; the result says whether a victim was taken out of the hash table (the flag
  \<open>found\<close>) and how many iterations were left at the exit.
\<close>

fun clock_scan :: "'a buf_state_scheme \<Rightarrow> nat \<Rightarrow> (bool \<times> nat \<times> 'a buf_state_scheme) option" where
  "clock_scan w 0 = Some (False, 0, w)"
| "clock_scan w (Suc left) =
     (let w = advanceClock w; h = clockHand w
      in if \<not> frame_in_pool w (int h) then None
      else let d = bufTable w ! h
      in if \<not> valid d then Some (False, left, w)
      else if \<not> refbit d then
        if pinCnt d = 0 then do {
          (status, t) \<leftarrow> BufHashTbl_remove (hashTable w) (bd_file d) (bd_pageNo d);
          Some (True, left, w\<lparr>hashTable := t\<rparr>)
        }
        else clock_scan w left
      else clock_scan
        (set_desc (w\<lparr>bufStats := (bufStats w)\<lparr>accesses := accesses (bufStats w) + 1\<rparr>\<rparr>)
           h (d\<lparr>refbit := False\<rparr>)) left)"

definition BufMgr_allocBuf :: "'a buf_state_scheme \<Rightarrow> int \<Rightarrow> (Status \<times> int \<times> 'a buf_state_scheme) option" where
  "BufMgr_allocBuf w frame = do {
     (found, left, w) \<leftarrow> clock_scan w (2 * nat (numBufs w));
     if \<not> found \<and> left = 0 then Some (BUFFEREXCEEDED, frame, w)
     else if \<not> frame_in_pool w (int (clockHand w)) then None
     else do {
       let h = clockHand w;
       let d = bufTable w ! h;
       if dirty d then do {
         let w = w\<lparr>bufStats := (bufStats w)\<lparr>diskwrites := diskwrites (bufStats w) + 1\<rparr>\<rparr>;
         (status, w) \<leftarrow> File_writePage w (bd_file d) (bd_pageNo d) (Some (bufPool w ! h));
         if status \<noteq> OK then Some (status, frame, w) else Some (OK, int h, w)
       }
       else Some (OK, int h, w)
     }
   }"


section \<open>Public operations\<close>

definition BufMgr_readPage ::
    "'a buf_state_scheme \<Rightarrow> ptr \<Rightarrow> int \<Rightarrow> pageptr \<Rightarrow> (Status \<times> pageptr \<times> 'a buf_state_scheme) option" where
  "BufMgr_readPage w file pageNum page = do {
     (status, frameNum) \<leftarrow> BufHashTbl_lookup (hashTable w) file pageNum 0;
     if status = OK then
       if \<not> frame_in_pool w frameNum then None
       else do {
         let i = nat frameNum;
         let d = bufTable w ! i;
         Some (OK, Some i, set_desc w i (d\<lparr>refbit := True, pinCnt := pinCnt d + 1\<rparr>))
       }
     else do {
       (status, frameNum, w) \<leftarrow> BufMgr_allocBuf w frameNum;
       if status \<noteq> OK then Some (status, page, w)
       else if \<not> frame_in_pool w frameNum then None
       else do {
         let i = nat frameNum;
         let w = w\<lparr>bufStats := (bufStats w)\<lparr>diskreads := diskreads (bufStats w) + 1\<rparr>\<rparr>;
         (status, buf) \<leftarrow> File_readPage w file pageNum (Some (bufPool w ! i));
         let w = set_frame w i buf;
         if status \<noteq> OK then Some (status, page, w)
         else do {
           let w = set_desc w i (BufDesc_Set (bufTable w ! i) file pageNum);
           (status, t) \<leftarrow> BufHashTbl_insert (hashTable w) file pageNum frameNum;
           let w = w\<lparr>hashTable := t\<rparr>;
           Some (status, Some i, w)
         }
       }
     }
   }"

definition BufMgr_unPinPage ::
    "'a buf_state_scheme \<Rightarrow> ptr \<Rightarrow> int \<Rightarrow> bool \<Rightarrow> (Status \<times> 'a buf_state_scheme) option" where
  "BufMgr_unPinPage w file pageNum dirtyFlag = do {
     (status, frameNum) \<leftarrow> BufHashTbl_lookup (hashTable w) file pageNum 0;
     if status \<noteq> OK then Some (status, w)
     else if \<not> frame_in_pool w frameNum then None
     else do {
       let i = nat frameNum;
       let w = (if dirtyFlag then set_desc w i ((bufTable w ! i)\<lparr>dirty := dirtyFlag\<rparr>) else w);
       let d = bufTable w ! i;
       if pinCnt d = 0 then Some (PAGENOTPINNED, w)
       else Some (OK, set_desc w i (d\<lparr>pinCnt := pinCnt d - 1\<rparr>))
     }
   }"

text \<open>The loop of \<open>flushFile\<close> over the frame numbers still to be visited.\<close>

fun flush_frames :: "'a buf_state_scheme \<Rightarrow> ptr \<Rightarrow> nat list \<Rightarrow> (Status \<times> 'a buf_state_scheme) option" where
  "flush_frames w file [] = Some (OK, w)"
| "flush_frames w file (i # is) =
     (if \<not> frame_in_pool w (int i) then None
      else let tmpbuf = bufTable w ! i
      in if valid tmpbuf \<and> bd_file tmpbuf = file then
        if pinCnt tmpbuf > 0 then Some (PAGEPINNED, w)
        else do {
          (status, w) \<leftarrow>
            (if dirty tmpbuf then do {
               (status, w) \<leftarrow> File_writePage w (bd_file tmpbuf) (bd_pageNo tmpbuf) (Some (bufPool w ! i));
               if status \<noteq> OK then Some (status, w)
               else Some (OK, set_desc w i ((bufTable w ! i)\<lparr>dirty := False\<rparr>))
             }
             else Some (OK, w));
          if status \<noteq> OK then Some (status, w)
          else do {
            (rmStatus, t) \<leftarrow> BufHashTbl_remove (hashTable w) file (bd_pageNo tmpbuf);
            let w = w\<lparr>hashTable := t\<rparr>;
            let w = set_desc w i ((bufTable w ! i)\<lparr>bd_file := NULL, bd_pageNo := - 1, valid := False\<rparr>);
            flush_frames w file is
          }
        }
      else if \<not> valid tmpbuf \<and> bd_file tmpbuf = file then Some (BADBUFFER, w)
      else flush_frames w file is)"

definition BufMgr_flushFile :: "'a buf_state_scheme \<Rightarrow> ptr \<Rightarrow> (Status \<times> 'a buf_state_scheme) option" where
  "BufMgr_flushFile w file = flush_frames w file [0..<nat (numBufs w)]"

definition BufMgr_disposePage ::
    "'a buf_state_scheme \<Rightarrow> ptr \<Rightarrow> int \<Rightarrow> (Status \<times> 'a buf_state_scheme) option" where
  "BufMgr_disposePage w file pageNum = do {
     (status, frameNum) \<leftarrow> BufHashTbl_lookup (hashTable w) file pageNum 0;
     w \<leftarrow> (if status = OK then
            if \<not> frame_in_pool w frameNum then None
            else Some (set_desc w (nat frameNum) (BufDesc_Clear (bufTable w ! nat frameNum)))
          else Some w);
     (status, t) \<leftarrow> BufHashTbl_remove (hashTable w) file pageNum;
     File_disposePage (w\<lparr>hashTable := t\<rparr>) file pageNum
   }"

definition BufMgr_allocPage ::
    "'a buf_state_scheme \<Rightarrow> ptr \<Rightarrow> int \<Rightarrow> pageptr \<Rightarrow> (Status \<times> int \<times> pageptr \<times> 'a buf_state_scheme) option" where
  "BufMgr_allocPage w file pageNum page = do {
     (status, pageNum, w) \<leftarrow> File_allocatePage w file pageNum;
     if status \<noteq> OK then Some (status, pageNum, page, w)
     else do {
       (status, frameNum, w) \<leftarrow> BufMgr_allocBuf w 0;
       if status \<noteq> OK then Some (status, pageNum, page, w)
       else if \<not> frame_in_pool w frameNum then None
       else do {
         let i = nat frameNum;
         let w = set_desc w i (BufDesc_Set (bufTable w ! i) file pageNum);
         (status, t) \<leftarrow> BufHashTbl_insert (hashTable w) file pageNum frameNum;
         let w = w\<lparr>hashTable := t\<rparr>;
         Some (status, pageNum, Some i, w)
       }
     }
   }"

text \<open>The destructor writes out every dirty page; write errors are ignored.\<close>

fun flush_all :: "'a buf_state_scheme \<Rightarrow> nat list \<Rightarrow> 'a buf_state_scheme option" where
  "flush_all w [] = Some w"
| "flush_all w (i # is) =
     (if \<not> frame_in_pool w (int i) then None
      else let tmpbuf = bufTable w ! i
      in if valid tmpbuf \<and> dirty tmpbuf then do {
        (status, w) \<leftarrow> File_writePage w (bd_file tmpbuf) (bd_pageNo tmpbuf) (Some (bufPool w ! i));
        flush_all w is
      }
      else flush_all w is)"

definition BufMgr_destroy :: "'a buf_state_scheme \<Rightarrow> 'a buf_state_scheme option" where
  "BufMgr_destroy w = flush_all w [0..<nat (numBufs w)]"

definition getBufStats :: "'a buf_state_scheme \<Rightarrow> BufStats" where
  "getBufStats w = bufStats w"

definition clearBufStats :: "'a buf_state_scheme \<Rightarrow> 'a buf_state_scheme" where
  "clearBufStats w = w\<lparr>bufStats := BufStats_clear\<rparr>"

end
