(* ===== verification/DB.thy ===== *)
theory DB
  imports Buf
begin

text \<open>
  The rest of \<open>db.h\<close> and \<open>db.cpp\<close>: the hash table of open files, closing and deleting \<open>File\<close>
  objects, and the \<open>DB\<close> class that opens files by name and counts how often each is open.

  The state extends the state of the buffer manager with the table of open files, the
  global pointer \<open>bufMgr\<close> (whether it is set), and the addresses that \<open>new\<close> will return for
  \<open>File\<close> objects: call number \<open>newCnt\<close> returns \<open>newAddr newCnt\<close>. A \<open>char\<close> is signed.
\<close>

section \<open>The table of open files\<close>

record fileHashBucket =
  fb_fname :: string
  fb_file :: ptr

record OpenFileHashTbl =
  of_HTSIZE :: int
  of_ht :: "fileHashBucket list list"

definition OpenFileHashTbl_new :: OpenFileHashTbl where
  "OpenFileHashTbl_new = \<lparr>of_HTSIZE = 113, of_ht = replicate 113 []\<rparr>"

definition char_value :: "char \<Rightarrow> int" where
  "char_value c = swrap 1 (of_char c)"

text \<open>The loop \<open>value = 31*value + (int) fileName[i]\<close>.\<close>

fun hash_chars :: "int \<Rightarrow> string \<Rightarrow> int" where
  "hash_chars value [] = value"
| "hash_chars value (c # cs) = hash_chars (swrap 4 (swrap 4 (31 * value) + char_value c)) cs"

definition OpenFileHashTbl_hash :: "OpenFileHashTbl \<Rightarrow> string \<Rightarrow> int" where
  "OpenFileHashTbl_hash t fname = \<bar>c_rem (hash_chars 0 fname) (of_HTSIZE t)\<bar>"

definition OpenFileHashTbl_insert :: "OpenFileHashTbl \<Rightarrow> string \<Rightarrow> ptr \<Rightarrow> (Status \<times> OpenFileHashTbl) option" where
  "OpenFileHashTbl_insert t fname file = do {
     let index = OpenFileHashTbl_hash t fname;
     chain \<leftarrow> ht_chain (of_ht t) index;
     if chain_find (\<lambda>b. fb_fname b = fname) chain \<noteq> None then Some (HASHTBLERROR, t)
     else do {
       let tmpBuc = \<lparr>fb_fname = fname, fb_file = file\<rparr>;
       Some (OK, t\<lparr>of_ht := (of_ht t)[nat index := tmpBuc # chain]\<rparr>)
     }
   }"

definition OpenFileHashTbl_find :: "OpenFileHashTbl \<Rightarrow> string \<Rightarrow> ptr \<Rightarrow> (Status \<times> ptr) option" where
  "OpenFileHashTbl_find t fname file = do {
     let index = OpenFileHashTbl_hash t fname;
     chain \<leftarrow> ht_chain (of_ht t) index;
     case chain_find (\<lambda>b. fb_fname b = fname) chain of
       Some b \<Rightarrow> Some (OK, fb_file b)
     | None \<Rightarrow> Some (HASHNOTFOUND, file)
   }"

definition OpenFileHashTbl_erase :: "OpenFileHashTbl \<Rightarrow> string \<Rightarrow> (Status \<times> OpenFileHashTbl) option" where
  "OpenFileHashTbl_erase t fname = do {
     let index = OpenFileHashTbl_hash t fname;
     chain \<leftarrow> ht_chain (of_ht t) index;
     case chain_remove (\<lambda>b. fb_fname b = fname) chain of
       Some rest \<Rightarrow> Some (OK, t\<lparr>of_ht := (of_ht t)[nat index := rest]\<rparr>)
     | None \<Rightarrow> Some (HASHTBLERROR, t)
   }"


section \<open>Closing and deleting file objects\<close>

record db_state = buf_state +
  openFiles :: OpenFileHashTbl
  bufMgr :: bool
  newAddr :: "nat \<Rightarrow> ptr"
  newCnt :: nat

text \<open>\<open>close\<close> ignores the status of \<open>flushFile\<close>.\<close>

definition File_close :: "'a db_state_scheme \<Rightarrow> ptr \<Rightarrow> (Status \<times> 'a db_state_scheme) option" where
  "File_close w f = do {
     fo \<leftarrow> files w f;
     if openCnt fo \<le> 0 then Some (FILENOTOPEN, w)
     else do {
       let cnt = openCnt fo - 1;
       let w = w\<lparr>files := (files w)(f \<mapsto> fo\<lparr>openCnt := cnt\<rparr>)\<rparr>;
       if cnt = 0 then do {
         (flushStatus, w) \<leftarrow> (if bufMgr w then BufMgr_flushFile w f else Some (OK, w));
         let (rc, w) = sys_close w (unixFile fo);
         if rc < 0 then Some (UNIXERR, w) else Some (OK, w)
       }
       else Some (OK, w)
     }
   }"

text \<open>\<open>delete file\<close>: the destructor, then the object is gone. The message of a failed close is not modelled.\<close>

definition delete_File :: "'a db_state_scheme \<Rightarrow> ptr \<Rightarrow> 'a db_state_scheme option" where
  "delete_File w f = do {
     fo \<leftarrow> files w f;
     w \<leftarrow> (if openCnt fo = 0 then Some w
          else do {
            let w = w\<lparr>files := (files w)(f \<mapsto> fo\<lparr>openCnt := 1\<rparr>)\<rparr>;
            (status, w) \<leftarrow> File_close w f;
            Some w
          });
     Some (w\<lparr>files := (files w)(f := None)\<rparr>)
   }"

text \<open>The destructor of the table deletes the file objects that are still in it.\<close>

fun delete_files :: "'a db_state_scheme \<Rightarrow> ptr list \<Rightarrow> 'a db_state_scheme option" where
  "delete_files w [] = Some w"
| "delete_files w (f # fs) = do {
     w \<leftarrow> (if f \<noteq> NULL then delete_File w f else Some w);
     delete_files w fs
   }"

definition OpenFileHashTbl_destroy :: "'a db_state_scheme \<Rightarrow> 'a db_state_scheme option" where
  "OpenFileHashTbl_destroy w = do {
     w' \<leftarrow> delete_files w (map fb_file (concat (of_ht (openFiles w))));
     Some (w'\<lparr>openFiles := (openFiles w')\<lparr>of_ht := []\<rparr>\<rparr>)
   }"


section \<open>The DB class\<close>

definition DB_createFile :: "'a db_state_scheme \<Rightarrow> string \<Rightarrow> (Status \<times> 'a db_state_scheme) option" where
  "DB_createFile w fname =
     (if fname = [] then Some (BADFILE, w)
      else do {
        (status, file) \<leftarrow> OpenFileHashTbl_find (openFiles w) fname NULL;
        if status = OK then Some (FILEEXISTS, w) else Some (File_create w fname)
      })"

definition DB_destroyFile :: "'a db_state_scheme \<Rightarrow> string \<Rightarrow> (Status \<times> 'a db_state_scheme) option" where
  "DB_destroyFile w fname =
     (if fname = [] then Some (BADFILE, w)
      else do {
        (status, file) \<leftarrow> OpenFileHashTbl_find (openFiles w) fname NULL;
        if status = OK then Some (FILEOPEN, w) else Some (File_destroy w fname)
      })"

definition DB_openFile :: "'a db_state_scheme \<Rightarrow> string \<Rightarrow> ptr \<Rightarrow> (Status \<times> ptr \<times> 'a db_state_scheme) option" where
  "DB_openFile w fname filePtr =
     (if fname = [] then Some (BADFILE, filePtr, w)
      else do {
        (found, file) \<leftarrow> OpenFileHashTbl_find (openFiles w) fname NULL;
        if found = OK then do {
          (status, w) \<leftarrow> File_open w file;
          Some (status, file, w)
        }
        else do {
          let filePtr = newAddr w (newCnt w);
          let w = w\<lparr>newCnt := newCnt w + 1, files := (files w)(filePtr \<mapsto> new_File fname)\<rparr>;
          (status, w) \<leftarrow> File_open w filePtr;
          if status \<noteq> OK then do {
            w \<leftarrow> delete_File w filePtr;
            Some (status, filePtr, w)
          }
          else do {
            (status, t) \<leftarrow> OpenFileHashTbl_insert (openFiles w) fname filePtr;
            Some (status, filePtr, w\<lparr>openFiles := t\<rparr>)
          }
        }
      })"

definition DB_closeFile :: "'a db_state_scheme \<Rightarrow> ptr \<Rightarrow> (Status \<times> 'a db_state_scheme) option" where
  "DB_closeFile w file =
     (if file = NULL then Some (BADFILEPTR, w)
      else do {
        (closeStatus, w) \<leftarrow> File_close w file;
        fo \<leftarrow> files w file;
        if openCnt fo = 0 then do {
          (status, t) \<leftarrow> OpenFileHashTbl_erase (openFiles w) (fileName fo);
          let w = w\<lparr>openFiles := t\<rparr>;
          if status \<noteq> OK then Some (BADFILEPTR, w)
          else do {
            w \<leftarrow> delete_File w file;
            Some (OK, w)
          }
        }
        else Some (OK, w)
      })"

end
