(* ===== verification/HeapFile.thy ===== *)
theory HeapFile
  imports DB
begin

text \<open>
  The heap file layer of \<open>heapfile.h\<close> and \<open>heapfile.cpp\<close>: files of records on a chain of data
  pages, filtered scans, record access by identifier and insertion.

  An object of class \<open>HeapFile\<close> is a record; the fields of an object whose constructor has not
  set them are those of the record passed to the constructor. The global pointer \<open>bufMgr\<close> is
  taken as set. Dereferencing a null or stray page pointer has no defined result. The loops
  of \<open>scanNext\<close> follow page links and need not end on a cyclic chain: they are partial
  functions, \<open>None\<close> also stands for not returning. Local record identifiers without an
  initial value start as \<open>NULLRID\<close>. Messages on \<open>cerr\<close> are not modelled.
\<close>

datatype Datatype = STRING | INTEGER | FLOAT

text \<open>Callers cast an integer to the enumeration; a value outside it is no enumerator.\<close>

fun Datatype_of_int :: "int \<Rightarrow> Datatype option" where
  "Datatype_of_int i = (if i = 0 then Some STRING else if i = 1 then Some INTEGER else if i = 2 then Some FLOAT else None)"

datatype Operator = LT | LTE | EQ | GTE | GT | NE


section \<open>The header page of a heap file\<close>

text \<open>\<open>FileHdrPage\<close>: \<open>fileName\<close> at byte 0 (50 bytes), then four integers from byte 52 on.\<close>

definition hdr_fileName :: "page \<Rightarrow> byte list" where "hdr_fileName p = read_bytes p 0 50"
definition hdr_firstPage :: "page \<Rightarrow> int" where "hdr_firstPage p = get_int p 52"
definition hdr_lastPage :: "page \<Rightarrow> int" where "hdr_lastPage p = get_int p 56"
definition hdr_pageCnt :: "page \<Rightarrow> int" where "hdr_pageCnt p = get_int p 60"
definition hdr_recCnt :: "page \<Rightarrow> int" where "hdr_recCnt p = get_int p 64"

definition set_hdr_firstPage :: "page \<Rightarrow> int \<Rightarrow> page" where "set_hdr_firstPage p v = put_int p 52 v"
definition set_hdr_lastPage :: "page \<Rightarrow> int \<Rightarrow> page" where "set_hdr_lastPage p v = put_int p 56 v"
definition set_hdr_pageCnt :: "page \<Rightarrow> int \<Rightarrow> page" where "set_hdr_pageCnt p v = put_int p 60 v"
definition set_hdr_recCnt :: "page \<Rightarrow> int \<Rightarrow> page" where "set_hdr_recCnt p v = put_int p 64 v"

text \<open>The bytes of a \<open>string\<close> up to its first zero (\<open>c_str\<close>), and \<open>strncpy\<close>.\<close>

definition c_str :: "string \<Rightarrow> byte list" where
  "c_str s = takeWhile (\<lambda>b. b \<noteq> 0) (map of_char s)"

definition strncpy :: "mem \<Rightarrow> nat \<Rightarrow> byte list \<Rightarrow> nat \<Rightarrow> mem" where
  "strncpy m a s n = write_bytes m a (take n s @ replicate (n - length s) 0)"


section \<open>Access through page pointers\<close>

definition frame_at :: "'a buf_state_scheme \<Rightarrow> pageptr \<Rightarrow> page option" where
  "frame_at w pp = (case pp of None \<Rightarrow> None | Some i \<Rightarrow> if i < length (bufPool w) then Some (bufPool w ! i) else None)"

definition store_at :: "'a buf_state_scheme \<Rightarrow> pageptr \<Rightarrow> page \<Rightarrow> 'a buf_state_scheme option" where
  "store_at w pp pg = (case pp of None \<Rightarrow> None | Some i \<Rightarrow> if i < length (bufPool w) then Some (set_frame w i pg) else None)"


section \<open>Creating and destroying heap files\<close>

definition createHeapFile :: "'a db_state_scheme \<Rightarrow> string \<Rightarrow> (Status \<times> 'a db_state_scheme) option" where
  "createHeapFile w fname = do {
     (status, file, w) \<leftarrow> DB_openFile w fname NULL;
     if status \<noteq> OK then do {
       (status, w) \<leftarrow> DB_createFile w fname;
       if status \<noteq> OK then Some (status, w) else do {
       (status, file, w) \<leftarrow> DB_openFile w fname file;
       if status \<noteq> OK then Some (status, w) else do {
       (status, hdrPageNo, newPage, w) \<leftarrow> BufMgr_allocPage w file 0 None;
       if status \<noteq> OK then Some (status, w) else do {
       let hdrPage = newPage;
       hdr \<leftarrow> frame_at w hdrPage;
       w \<leftarrow> store_at w hdrPage (strncpy hdr 0 (c_str fname) 50);
       (status, newPageNo, newPage, w) \<leftarrow> BufMgr_allocPage w file 0 newPage;
       if status \<noteq> OK then Some (status, w) else do {
       pg \<leftarrow> frame_at w newPage;
       let (status, pg) = Page_setNextPage (Page_init pg newPageNo) (- 1);
       w \<leftarrow> store_at w newPage pg;
       hdr \<leftarrow> frame_at w hdrPage;
       let hdr = set_hdr_pageCnt (set_hdr_recCnt hdr 0) 1;
       let hdr = set_hdr_firstPage (set_hdr_lastPage hdr newPageNo) newPageNo;
       w \<leftarrow> store_at w hdrPage hdr;
       (status, w) \<leftarrow> BufMgr_unPinPage w file newPageNo True;
       if status \<noteq> OK then Some (status, w) else do {
       (status, w) \<leftarrow> BufMgr_unPinPage w file hdrPageNo True;
       if status \<noteq> OK then Some (status, w) else do {
       (status, w) \<leftarrow> BufMgr_flushFile w file;
       if status \<noteq> OK then Some (status, w) else do {
       (status, w) \<leftarrow> DB_closeFile w file;
       if status \<noteq> OK then Some (status, w) else Some (OK, w)
       }}}}}}}
     }
     else Some (FILEEXISTS, w)
   }"

definition destroyHeapFile :: "'a db_state_scheme \<Rightarrow> string \<Rightarrow> (Status \<times> 'a db_state_scheme) option" where
  "destroyHeapFile w fname = DB_destroyFile w fname"


section \<open>Heap file objects\<close>

record HeapFile =
  filePtr :: ptr
  headerPage :: pageptr
  headerPageNo :: int
  hdrDirtyFlag :: bool
  hf_curPage :: pageptr
  curPageNo :: int
  curDirtyFlag :: bool
  curRec :: RID

text \<open>The constructor ends with status \<open>OK\<close> whenever the file could be opened.\<close>

definition HeapFile_new ::
    "'a db_state_scheme \<Rightarrow> 'h HeapFile_scheme \<Rightarrow> string \<Rightarrow> (Status \<times> 'h HeapFile_scheme \<times> 'a db_state_scheme) option" where
  "HeapFile_new w h fname = do {
     (status, fp, w) \<leftarrow> DB_openFile w fname (filePtr h);
     let h = h\<lparr>filePtr := fp\<rparr>;
     if status = OK then do {
       (status, hno) \<leftarrow> File_getFirstPage w (filePtr h) (headerPageNo h);
       let h = h\<lparr>headerPageNo := hno\<rparr>;
       (status, pagePtr, w) \<leftarrow> BufMgr_readPage w (filePtr h) (headerPageNo h) None;
       let h = h\<lparr>headerPage := pagePtr, hdrDirtyFlag := False\<rparr>;
       hdr \<leftarrow> frame_at w (headerPage h);
       let h = h\<lparr>curPageNo := hdr_firstPage hdr\<rparr>;
       (status, cp, w) \<leftarrow> BufMgr_readPage w (filePtr h) (curPageNo h) (hf_curPage h);
       let h = h\<lparr>hf_curPage := cp, curDirtyFlag := False, curRec := NULLRID\<rparr>;
       Some (OK, h, w)
     }
     else Some (status, h, w)
   }"

definition HeapFile_destroy ::
    "'a db_state_scheme \<Rightarrow> 'h HeapFile_scheme \<Rightarrow> ('h HeapFile_scheme \<times> 'a db_state_scheme) option" where
  "HeapFile_destroy w h = do {
     (h, w) \<leftarrow>
       (if hf_curPage h \<noteq> None then do {
          (status, w) \<leftarrow> BufMgr_unPinPage w (filePtr h) (curPageNo h) (curDirtyFlag h);
          Some (h\<lparr>hf_curPage := None, curPageNo := 0, curDirtyFlag := False\<rparr>, w)
        }
        else Some (h, w));
     (status, w) \<leftarrow> BufMgr_unPinPage w (filePtr h) (headerPageNo h) (hdrDirtyFlag h);
     (status, w) \<leftarrow> DB_closeFile w (filePtr h);
     Some (h, w)
   }"

definition HeapFile_getRecCnt :: "'a buf_state_scheme \<Rightarrow> 'h HeapFile_scheme \<Rightarrow> int option" where
  "HeapFile_getRecCnt w h = map_option hdr_recCnt (frame_at w (headerPage h))"

definition HeapFile_getRecord ::
    "'a buf_state_scheme \<Rightarrow> 'h HeapFile_scheme \<Rightarrow> RID \<Rightarrow> recref \<Rightarrow> (Status \<times> recref \<times> 'h HeapFile_scheme \<times> 'a buf_state_scheme) option" where
  "HeapFile_getRecord w h rid rec = do {
     if hf_curPage h \<noteq> None \<and> pageNo rid = curPageNo h then do {
       p \<leftarrow> frame_at w (hf_curPage h);
       (status, rec) \<leftarrow> Page_getRecord p rid rec;
       Some (status, rec, h\<lparr>curRec := rid\<rparr>, w)
     }
     else do {
       (status, w) \<leftarrow> (if hf_curPage h \<noteq> None then BufMgr_unPinPage w (filePtr h) (curPageNo h) (curDirtyFlag h) else Some (OK, w));
       if status \<noteq> OK then Some (status, rec, h\<lparr>hf_curPage := None, curPageNo := 0, curDirtyFlag := False\<rparr>, w)
       else do {
         (status, cp, w) \<leftarrow> BufMgr_readPage w (filePtr h) (pageNo rid) (hf_curPage h);
         let h = h\<lparr>hf_curPage := cp\<rparr>;
         if status \<noteq> OK then Some (status, rec, h, w)
         else do {
           let h = h\<lparr>curPageNo := pageNo rid, curDirtyFlag := False, curRec := rid\<rparr>;
           p \<leftarrow> frame_at w (hf_curPage h);
           (status, rec) \<leftarrow> Page_getRecord p rid rec;
           Some (status, rec, h, w)
         }
       }
     }
   }"


section \<open>Scans\<close>

record HeapFileScan = HeapFile +
  scan_offset :: int
  scan_length :: int
  scan_type :: Datatype
  scan_filter :: "byte list option"
  scan_op :: Operator
  markedPageNo :: int
  markedRec :: RID

definition HeapFileScan_new ::
    "'a db_state_scheme \<Rightarrow> HeapFileScan \<Rightarrow> string \<Rightarrow> (Status \<times> HeapFileScan \<times> 'a db_state_scheme) option" where
  "HeapFileScan_new w s name = do {
     (status, s, w) \<leftarrow> HeapFile_new w s name;
     Some (status, s\<lparr>scan_filter := None\<rparr>, w)
   }"

text \<open>\<open>startScan\<close>; that the operator is one of the enumeration holds by typing.\<close>

definition startScan :: "HeapFileScan \<Rightarrow> int \<Rightarrow> int \<Rightarrow> int \<Rightarrow> byte list option \<Rightarrow> Operator \<Rightarrow> Status \<times> HeapFileScan" where
  "startScan s offset len type flt op =
     (if flt = None then (OK, s\<lparr>scan_filter := None\<rparr>)
      else case Datatype_of_int type of
        None \<Rightarrow> (BADSCANPARM, s)
      | Some t \<Rightarrow>
          if (offset < 0 \<or> len < 1) \<or> (t = INTEGER \<and> len \<noteq> 4 \<or> t = FLOAT \<and> len \<noteq> 4) then (BADSCANPARM, s)
          else (OK, s\<lparr>scan_offset := offset, scan_length := len, scan_type := t, scan_filter := flt, scan_op := op\<rparr>))"

definition endScan :: "'a buf_state_scheme \<Rightarrow> HeapFileScan \<Rightarrow> (Status \<times> HeapFileScan \<times> 'a buf_state_scheme) option" where
  "endScan w s =
     (if hf_curPage s \<noteq> None then do {
        (status, w) \<leftarrow> BufMgr_unPinPage w (filePtr s) (curPageNo s) (curDirtyFlag s);
        Some (status, s\<lparr>hf_curPage := None, curPageNo := 0, curDirtyFlag := False\<rparr>, w)
      }
      else Some (OK, s, w))"

definition HeapFileScan_destroy :: "'a db_state_scheme \<Rightarrow> HeapFileScan \<Rightarrow> (HeapFileScan \<times> 'a db_state_scheme) option" where
  "HeapFileScan_destroy w s = do {
     (status, s, w) \<leftarrow> endScan w s;
     HeapFile_destroy w s
   }"

definition markScan :: "HeapFileScan \<Rightarrow> Status \<times> HeapFileScan" where
  "markScan s = (OK, s\<lparr>markedPageNo := curPageNo s, markedRec := curRec s\<rparr>)"

definition resetScan :: "'a buf_state_scheme \<Rightarrow> HeapFileScan \<Rightarrow> (Status \<times> HeapFileScan \<times> 'a buf_state_scheme) option" where
  "resetScan w s =
     (if markedPageNo s \<noteq> curPageNo s then do {
        (status, w) \<leftarrow> (if hf_curPage s \<noteq> None then BufMgr_unPinPage w (filePtr s) (curPageNo s) (curDirtyFlag s) else Some (OK, w));
        if status \<noteq> OK then Some (status, s, w)
        else do {
          let s = s\<lparr>curPageNo := markedPageNo s, curRec := markedRec s\<rparr>;
          (status, cp, w) \<leftarrow> BufMgr_readPage w (filePtr s) (curPageNo s) (hf_curPage s);
          let s = s\<lparr>hf_curPage := cp\<rparr>;
          if status \<noteq> OK then Some (status, s, w)
          else Some (OK, s\<lparr>curDirtyFlag := False\<rparr>, w)
        }
      }
      else Some (OK, s\<lparr>curRec := markedRec s\<rparr>, w))"


subsection \<open>The filter\<close>

text \<open>
  \<open>matchRec\<close> looks only at the sign of \<open>diff\<close>. A difference of two integers keeps its sign
  when it is converted to \<open>float\<close>; the subtraction itself wraps around. The difference of two
  finite IEEE single precision numbers has the sign of the exact difference (underflow is
  gradual); a finite number is its exact value in units of \<open>2\<close> to the power \<open>-149\<close>. A
  difference that is not a number is \<open>None\<close>.
\<close>

datatype single = Finite int | Infinite bool | NaN

definition single_of_bits :: "int \<Rightarrow> single" where
  "single_of_bits b =
     (let s = (if b div 2 ^ 31 mod 2 = 1 then - 1 else 1); e = b div 2 ^ 23 mod 256; m = b mod 2 ^ 23
      in if e = 255 then if m = 0 then Infinite (s < 0) else NaN
      else if e = 0 then Finite (s * m)
      else Finite (s * (m + 2 ^ 23) * 2 ^ nat (e - 1)))"

fun single_diff_sgn :: "single \<Rightarrow> single \<Rightarrow> int option" where
  "single_diff_sgn (Finite x) (Finite y) = Some (sgn (x - y))"
| "single_diff_sgn (Finite x) (Infinite neg) = Some (if neg then 1 else - 1)"
| "single_diff_sgn (Infinite neg) (Finite y) = Some (if neg then - 1 else 1)"
| "single_diff_sgn (Infinite neg) (Infinite neg') = (if neg = neg' then None else Some (if neg then - 1 else 1))"
| "single_diff_sgn _ _ = None"

text \<open>\<open>strncmp\<close> on byte strings: the sign, or \<open>None\<close> when it reads behind the end of a buffer.\<close>

fun strncmp :: "byte list \<Rightarrow> byte list \<Rightarrow> nat \<Rightarrow> int option" where
  "strncmp as bs 0 = Some 0"
| "strncmp (a # as) (b # bs) (Suc n) =
     (if a \<noteq> b then Some (if a < b then - 1 else 1) else if a = 0 then Some 0 else strncmp as bs n)"
| "strncmp _ _ _ = None"

definition bytes_mem :: "byte list \<Rightarrow> mem" where
  "bytes_mem bs = (\<lambda>i. if i < length bs then bs ! i else 0)"

fun op_holds :: "Operator \<Rightarrow> int option \<Rightarrow> bool" where
  "op_holds NE None = True"
| "op_holds _ None = False"
| "op_holds LT (Some d) = (d < 0)"
| "op_holds LTE (Some d) = (d \<le> 0)"
| "op_holds EQ (Some d) = (d = 0)"
| "op_holds GTE (Some d) = (d \<ge> 0)"
| "op_holds GT (Some d) = (d > 0)"
| "op_holds NE (Some d) = (d \<noteq> 0)"

text \<open>The sign of \<open>diff\<close> for an attribute and a filter value of a given type.\<close>

definition attr_diff :: "Datatype \<Rightarrow> byte list \<Rightarrow> byte list \<Rightarrow> nat \<Rightarrow> int option option" where
  "attr_diff t attr flt len =
     (case t of
        INTEGER \<Rightarrow>
          if len \<le> length flt then Some (Some (sgn (swrap 4 (get_int (bytes_mem attr) 0 - get_int (bytes_mem flt) 0)))) else None
      | FLOAT \<Rightarrow>
          if len \<le> length flt
          then Some (single_diff_sgn (single_of_bits (get_le 4 (bytes_mem attr) 0)) (single_of_bits (get_le 4 (bytes_mem flt) 0)))
          else None
      | STRING \<Rightarrow> map_option Some (strncmp attr flt len))"

definition matchRec :: "HeapFileScan \<Rightarrow> page \<Rightarrow> recref \<Rightarrow> bool option" where
  "matchRec s p rec =
     (case scan_filter s of
        None \<Rightarrow> Some True
      | Some flt \<Rightarrow>
          if swrap 4 (scan_offset s + scan_length s - 1) \<ge> ref_length rec then Some False
          else if \<not> (0 \<le> ref_offset rec + scan_offset s \<and> ref_offset rec + scan_offset s + scan_length s \<le> PAGESIZE) then None
          else do {
            let attr = read_bytes p (nat (ref_offset rec + scan_offset s)) (nat (scan_length s));
            diff \<leftarrow> attr_diff (scan_type s) attr flt (nat (scan_length s));
            Some (op_holds (scan_op s) diff)
          })"


subsection \<open>Moving through the file\<close>

text \<open>
  The inner loop of \<open>scanNext\<close>: go to the next page until one has a record. The first component
  of the result is the status with which \<open>scanNext\<close> returns, or \<open>None\<close> when the loop ends
  with \<open>curRec\<close> at a record.
\<close>

abbreviation no_rec :: recref where "no_rec \<equiv> \<lparr>ref_offset = 0, ref_length = 0\<rparr>"

partial_function (option) scan_pages ::
    "'a buf_state_scheme \<Rightarrow> HeapFileScan \<Rightarrow> Status \<Rightarrow> (Status option \<times> HeapFileScan \<times> 'a buf_state_scheme) option" where
  "scan_pages w s status =
     (if status = ENDOFPAGE \<or> status = NORECORDS then do {
        p \<leftarrow> frame_at w (hf_curPage s);
        let (status, nextPageNo) = Page_getNextPage p;
        if nextPageNo = - 1 then Some (Some FILEEOF, s, w)
        else do {
          (status, w) \<leftarrow> BufMgr_unPinPage w (filePtr s) (curPageNo s) (curDirtyFlag s);
          let s = s\<lparr>hf_curPage := None, curPageNo := - 1\<rparr>;
          if status \<noteq> OK then Some (Some status, s, w)
          else do {
            let s = s\<lparr>curPageNo := nextPageNo, curDirtyFlag := False\<rparr>;
            (status, cp, w) \<leftarrow> BufMgr_readPage w (filePtr s) (curPageNo s) (hf_curPage s);
            let s = s\<lparr>hf_curPage := cp\<rparr>;
            if status \<noteq> OK then Some (Some status, s, w)
            else do {
              p \<leftarrow> frame_at w (hf_curPage s);
              (status, rid) \<leftarrow> Page_firstRecord p (curRec s);
              scan_pages w (s\<lparr>curRec := rid\<rparr>) status
            }
          }
        }
      }
      else Some (None, s, w))"

text \<open>The outer loop: try the records behind \<open>curRec\<close> until one satisfies the predicate.\<close>

partial_function (option) scan_records ::
    "'a buf_state_scheme \<Rightarrow> HeapFileScan \<Rightarrow> RID \<Rightarrow> (Status \<times> RID \<times> HeapFileScan \<times> 'a buf_state_scheme) option" where
  "scan_records w s outRid = do {
     p \<leftarrow> frame_at w (hf_curPage s);
     (status, nextRid) \<leftarrow> Page_nextRecord p (curRec s) NULLRID;
     (ret, s, w) \<leftarrow> (if status = OK then Some (None, s\<lparr>curRec := nextRid\<rparr>, w) else scan_pages w s status);
     case ret of
       Some status \<Rightarrow> Some (status, outRid, s, w)
     | None \<Rightarrow> do {
         p \<leftarrow> frame_at w (hf_curPage s);
         (status, rec) \<leftarrow> Page_getRecord p (curRec s) no_rec;
         if status \<noteq> OK then Some (status, outRid, s, w)
         else do {
           match \<leftarrow> matchRec s p rec;
           if match then Some (OK, curRec s, s, w) else scan_records w s outRid
         }
       }
   }"

definition scanNext ::
    "'a buf_state_scheme \<Rightarrow> HeapFileScan \<Rightarrow> RID \<Rightarrow> (Status \<times> RID \<times> HeapFileScan \<times> 'a buf_state_scheme) option" where
  "scanNext w s outRid =
     (if curPageNo s < 0 then Some (FILEEOF, outRid, s, w)
      else if hf_curPage s \<noteq> None then scan_records w s outRid
      else do {
        hdr \<leftarrow> frame_at w (headerPage s);
        let s = s\<lparr>curPageNo := hdr_firstPage hdr\<rparr>;
        if curPageNo s = - 1 then Some (FILEEOF, outRid, s, w)
        else do {
          (status, cp, w) \<leftarrow> BufMgr_readPage w (filePtr s) (curPageNo s) (hf_curPage s);
          let s = s\<lparr>hf_curPage := cp, curDirtyFlag := False, curRec := NULLRID\<rparr>;
          if status \<noteq> OK then Some (status, outRid, s, w)
          else do {
            p \<leftarrow> frame_at w (hf_curPage s);
            (status, tmpRid) \<leftarrow> Page_firstRecord p NULLRID;
            let s = s\<lparr>curRec := tmpRid\<rparr>;
            if status = NORECORDS then do {
              (status, w) \<leftarrow> BufMgr_unPinPage w (filePtr s) (curPageNo s) (curDirtyFlag s);
              if status \<noteq> OK then Some (status, outRid, s, w)
              else Some (FILEEOF, outRid, s\<lparr>curPageNo := - 1, hf_curPage := None\<rparr>, w)
            }
            else do {
              (status, rec) \<leftarrow> Page_getRecord p tmpRid no_rec;
              if status \<noteq> OK then Some (status, outRid, s, w)
              else do {
                match \<leftarrow> matchRec s p rec;
                if match then Some (OK, tmpRid, s, w) else scan_records w s outRid
              }
            }
          }
        }
      })"

definition HeapFileScan_getRecord :: "'a buf_state_scheme \<Rightarrow> HeapFileScan \<Rightarrow> recref \<Rightarrow> (Status \<times> recref) option" where
  "HeapFileScan_getRecord w s rec = do {
     p \<leftarrow> frame_at w (hf_curPage s);
     Page_getRecord p (curRec s) rec
   }"

definition HeapFileScan_deleteRecord ::
    "'a buf_state_scheme \<Rightarrow> HeapFileScan \<Rightarrow> (Status \<times> HeapFileScan \<times> 'a buf_state_scheme) option" where
  "HeapFileScan_deleteRecord w s = do {
     p \<leftarrow> frame_at w (hf_curPage s);
     (status, p) \<leftarrow> Page_deleteRecord p (curRec s);
     w \<leftarrow> store_at w (hf_curPage s) p;
     let s = s\<lparr>curDirtyFlag := True\<rparr>;
     hdr \<leftarrow> frame_at w (headerPage s);
     w \<leftarrow> store_at w (headerPage s) (set_hdr_recCnt hdr (hdr_recCnt hdr - 1));
     Some (status, s\<lparr>hdrDirtyFlag := True\<rparr>, w)
   }"

definition markDirty :: "HeapFileScan \<Rightarrow> Status \<times> HeapFileScan" where
  "markDirty s = (OK, s\<lparr>curDirtyFlag := True\<rparr>)"


section \<open>Insertion\<close>

definition InsertFileScan_new ::
    "'a db_state_scheme \<Rightarrow> HeapFile \<Rightarrow> string \<Rightarrow> (Status \<times> HeapFile \<times> 'a db_state_scheme) option" where
  "InsertFileScan_new w h name = do {
     (status, h, w) \<leftarrow> HeapFile_new w h name;
     if hf_curPage h \<noteq> None then do {
       hdr \<leftarrow> frame_at w (headerPage h);
       if curPageNo h \<noteq> hdr_lastPage hdr then do {
         (status, w) \<leftarrow> BufMgr_unPinPage w (filePtr h) (curPageNo h) (curDirtyFlag h);
         hdr \<leftarrow> frame_at w (headerPage h);
         let h = h\<lparr>curPageNo := hdr_lastPage hdr\<rparr>;
         (status, cp, w) \<leftarrow> BufMgr_readPage w (filePtr h) (curPageNo h) (hf_curPage h);
         Some (status, h\<lparr>hf_curPage := cp, curDirtyFlag := False\<rparr>, w)
       }
       else Some (status, h, w)
     }
     else Some (status, h, w)
   }"

definition InsertFileScan_destroy :: "'a db_state_scheme \<Rightarrow> HeapFile \<Rightarrow> (HeapFile \<times> 'a db_state_scheme) option" where
  "InsertFileScan_destroy w h = do {
     (h, w) \<leftarrow>
       (if hf_curPage h \<noteq> None then do {
          (status, w) \<leftarrow> BufMgr_unPinPage w (filePtr h) (curPageNo h) True;
          Some (h\<lparr>hf_curPage := None, curPageNo := 0\<rparr>, w)
        }
        else Some (h, w));
     HeapFile_destroy w h
   }"

text \<open>\<open>headerPage->recCnt++\<close>.\<close>

definition count_record :: "'a buf_state_scheme \<Rightarrow> pageptr \<Rightarrow> 'a buf_state_scheme option" where
  "count_record w hp = do {
     hdr \<leftarrow> frame_at w hp;
     store_at w hp (set_hdr_recCnt hdr (hdr_recCnt hdr + 1))
   }"

definition insertRecord ::
    "'a buf_state_scheme \<Rightarrow> HeapFile \<Rightarrow> Record \<Rightarrow> RID \<Rightarrow> (Status \<times> RID \<times> HeapFile \<times> 'a buf_state_scheme) option" where
  "insertRecord w h rec outRid =
     (if rec_length rec mod 2 ^ 32 > PAGESIZE - DPFIXED then Some (INVALIDRECLEN, outRid, h, w)
      else do {
        (status, h, w) \<leftarrow>
          (if hf_curPage h = None then do {
             hdr \<leftarrow> frame_at w (headerPage h);
             let h = h\<lparr>curPageNo := hdr_lastPage hdr\<rparr>;
             (status, cp, w) \<leftarrow> BufMgr_readPage w (filePtr h) (curPageNo h) (hf_curPage h);
             Some (status, h\<lparr>hf_curPage := cp\<rparr>, w)
           }
           else Some (OK, h, w));
        if status \<noteq> OK then Some (status, outRid, h, w) else do {
        p \<leftarrow> frame_at w (hf_curPage h);
        (status, p, rid) \<leftarrow> Page_insertRecord p rec NULLRID;
        w \<leftarrow> store_at w (hf_curPage h) p;
        if status = OK then do {
          w \<leftarrow> count_record w (headerPage h);
          Some (status, rid, h\<lparr>hdrDirtyFlag := True, curDirtyFlag := True\<rparr>, w)
        }
        else do {
        (status, newPageNo, newPage, w) \<leftarrow> BufMgr_allocPage w (filePtr h) 0 None;
        if status \<noteq> OK then Some (status, outRid, h, w) else do {
        pg \<leftarrow> frame_at w newPage;
        let (status, pg) = Page_setNextPage (Page_init pg newPageNo) (- 1);
        w \<leftarrow> store_at w newPage pg;
        if status \<noteq> OK then Some (status, outRid, h, w) else do {
        hdr \<leftarrow> frame_at w (headerPage h);
        let hdr = set_hdr_lastPage hdr newPageNo;
        w \<leftarrow> store_at w (headerPage h) (set_hdr_pageCnt hdr (hdr_pageCnt hdr + 1));
        let h = h\<lparr>hdrDirtyFlag := True\<rparr>;
        p \<leftarrow> frame_at w (hf_curPage h);
        let (status, p) = Page_setNextPage p newPageNo;
        w \<leftarrow> store_at w (hf_curPage h) p;
        if status \<noteq> OK then Some (status, outRid, h, w) else do {
        (status, w) \<leftarrow> BufMgr_unPinPage w (filePtr h) (curPageNo h) True;
        if status \<noteq> OK then do {
          let h = h\<lparr>hf_curPage := None, curPageNo := - 1, curDirtyFlag := False\<rparr>;
          (unpinstatus, w) \<leftarrow> BufMgr_unPinPage w (filePtr h) newPageNo True;
          Some (status, outRid, h, w)
        }
        else do {
        let h = h\<lparr>hf_curPage := newPage, curPageNo := newPageNo\<rparr>;
        p \<leftarrow> frame_at w (hf_curPage h);
        (status, p, rid) \<leftarrow> Page_insertRecord p rec NULLRID;
        w \<leftarrow> store_at w (hf_curPage h) p;
        if status = OK then do {
          w \<leftarrow> count_record w (headerPage h);
          Some (status, rid, h\<lparr>hdrDirtyFlag := True, curDirtyFlag := True\<rparr>, w)
        }
        else Some (status, outRid, h, w)
        }}}}}}
      })"

end
