(* ===== verification/FileCorrect.thy ===== *)
theory FileCorrect
  imports FileLayer
begin

text \<open>
  Correctness of the file layer. A page of a file as the program sees it is the 1024 bytes
  at its place in the Unix file (\<open>disk_page\<close>); the locale \<open>page_device\<close> is the contract
  that the buffer manager relies on: a read gives the page last written, a write changes
  one page. The locale \<open>page_allocator\<close> is the contract of page allocation: a page that is
  handed out was not in use. Both are interpreted on the operations of \<open>File\<close>.
\<close>

section \<open>Pages of a file\<close>

lemma unix_name_simps [simp]: "unix_name [] = []" "unix_name (c # cs) = (if c = CHR 0x00 then [] else c # unix_name cs)"
  by (simp_all add: unix_name_def)

lemma unix_name_idem [simp]: "unix_name (unix_name s) = unix_name s"
  by (simp add: unix_name_def takeWhile_idem)

text \<open>The bytes of a page object; a model page is a function on all offsets.\<close>

definition page_img :: "page \<Rightarrow> page" where
  "page_img p = (\<lambda>x. if x < 1024 then p x else 0)"

definition file_name :: "'a fs_state_scheme \<Rightarrow> ptr \<Rightarrow> string option" where
  "file_name w f = Option.bind (files w f) (\<lambda>fo. fd_name w (unixFile fo))"

definition file_of :: "'a fs_state_scheme \<Rightarrow> ptr \<Rightarrow> ufile option" where
  "file_of w f = Option.bind (file_name w f) (disk w)"

definition fpage :: "ufile \<Rightarrow> int \<Rightarrow> page" where
  "fpage u n = page_img (\<lambda>x. fdata u (nat n * 1024 + x))"

definition has_page :: "ufile \<Rightarrow> int \<Rightarrow> bool" where
  "has_page u n \<longleftrightarrow> 0 \<le> n \<and> (nat n + 1) * 1024 \<le> fsize u"

definition disk_page :: "'a fs_state_scheme \<Rightarrow> ptr \<Rightarrow> int \<Rightarrow> page option" where
  "disk_page w f n = (case file_of w f of None \<Rightarrow> None | Some u \<Rightarrow> if has_page u n then Some (fpage u n) else None)"

text \<open>Two file objects never name the same Unix file, and files hold whole pages.\<close>

definition fs_inv :: "'a fs_state_scheme \<Rightarrow> bool" where
  "fs_inv w \<longleftrightarrow> (\<forall>f g. file_name w f \<noteq> None \<longrightarrow> file_name w f = file_name w g \<longrightarrow> f = g)"

text \<open>The same files are open, no file is gone, and files that no file object names have not changed.\<close>

definition disk_frame :: "'a fs_state_scheme \<Rightarrow> 'a fs_state_scheme \<Rightarrow> bool" where
  "disk_frame w w' \<longleftrightarrow> files w' = files w \<and> fds w' = fds w \<and> (\<forall>nm. disk w nm \<noteq> None \<longleftrightarrow> disk w' nm \<noteq> None) \<and>
     (\<forall>nm. (\<forall>f. file_name w f \<noteq> Some nm) \<longrightarrow> disk w' nm = disk w nm)"

text \<open>\<open>w'\<close> differs from \<open>w\<close> in the contents of open files only.\<close>

definition same_files :: "'a fs_state_scheme \<Rightarrow> 'a fs_state_scheme \<Rightarrow> bool" where
  "same_files w w' \<longleftrightarrow> w' = w\<lparr>disk := disk w'\<rparr> \<and> disk_frame w w'"

lemma file_name_cong: "files w' = files w \<Longrightarrow> fds w' = fds w \<Longrightarrow> file_name w' = file_name w"
  by (intro ext) (simp add: file_name_def fd_name_def cong: if_cong)

lemma disk_frame_refl [simp]: "disk_frame w w"
  by (simp add: disk_frame_def)

lemma disk_frame_trans: "disk_frame w w1 \<Longrightarrow> disk_frame w1 w2 \<Longrightarrow> disk_frame w w2"
  using file_name_cong [of w1 w] by (auto simp: disk_frame_def)

lemma page_img_idem [simp]: "page_img (page_img p) = page_img p"
  by (simp add: page_img_def fun_eq_iff)

lemma page_img_apply [simp]: "x < 1024 \<Longrightarrow> page_img p x = p x"
  by (simp add: page_img_def)

lemma page_img_eqI: "(\<And>x. x < 1024 \<Longrightarrow> p x = q x) \<Longrightarrow> page_img p = page_img q"
  by (simp add: page_img_def fun_eq_iff)

lemma page_img_fpage [simp]: "page_img (fpage u n) = fpage u n"
  by (simp add: fpage_def)

lemma get_int_page_img: "a + 4 \<le> 1024 \<Longrightarrow> get_int (page_img p) a = get_int p a"
  by (rule get_int_cong) simp

lemma get_int_img_eq: "page_img p = page_img q \<Longrightarrow> a + 4 \<le> 1024 \<Longrightarrow> get_int p a = get_int q a"
  using get_int_page_img by metis

lemma same_files_refl [simp]: "same_files w w"
  by (simp add: same_files_def)

lemma same_files_trans: "same_files w w' \<Longrightarrow> same_files w' w'' \<Longrightarrow> same_files w w''"
  unfolding same_files_def using disk_frame_trans [of w w' w''] by (cases w, cases w', cases w'') simp

lemma fd_name_disk [simp]: "fd_name (w\<lparr>disk := d\<rparr>) = fd_name w"
  by (simp add: fd_name_def fun_eq_iff)

lemma file_name_disk [simp]: "file_name (w\<lparr>disk := d\<rparr>) = file_name w"
  by (simp add: file_name_def fun_eq_iff)

lemma same_files_name: "same_files w w' \<Longrightarrow> file_name w' = file_name w"
  by (metis same_files_def file_name_disk)

lemma same_files_inv: "same_files w w' \<Longrightarrow> fs_inv w' = fs_inv w"
  using same_files_name [of w w'] by (simp add: fs_inv_def)

lemma same_files_sel: "same_files w w' \<Longrightarrow> files w' = files w \<and> fds w' = fds w"
  by (cases w, cases w') (simp add: same_files_def)


section \<open>Reading and writing one page\<close>

lemma file_of_files: "file_of w f = Some u \<Longrightarrow> \<exists>fo nm. files w f = Some fo \<and> fd_name w (unixFile fo) = Some nm \<and> disk w nm = Some u"
  by (auto simp: file_of_def file_name_def split: bind_splits)

lemma intread_ok:
  assumes "file_of w f = Some u" "has_page u n"
  shows "\<exists>b. File_intread w f n buf = Some (OK, b) \<and> page_img b = fpage u n"
proof -
  obtain fo nm where "files w f = Some fo" "fd_name w (unixFile fo) = Some nm" "disk w nm = Some u"
    using file_of_files [OF assms(1)] by blast
  moreover have "min 1024 (fsize u - nat n * 1024) = 1024" "\<not> n < 0" using assms(2) by (auto simp: has_page_def)
  ultimately show ?thesis
    by (auto simp: File_intread_def sys_read_def Let_def fpage_def intro: page_img_eqI)
qed

lemma intread_fails:
  assumes "file_of w f = Some u" "\<not> has_page u n"
  shows "\<exists>b. File_intread w f n buf = Some (UNIXERR, b)"
proof -
  obtain fo nm where "files w f = Some fo" "fd_name w (unixFile fo) = Some nm" "disk w nm = Some u"
    using file_of_files [OF assms(1)] by blast
  moreover have "n < 0 \<or> min 1024 (fsize u - nat n * 1024) \<noteq> 1024" using assms(2) by (auto simp: has_page_def)
  ultimately show ?thesis
    by (auto simp: File_intread_def sys_read_def Let_def)
qed

lemma intread_cases:
  assumes "file_of w f = Some u"
  shows "\<exists>b. File_intread w f n buf = (if has_page u n then Some (OK, b) else Some (UNIXERR, b)) \<and>
     (has_page u n \<longrightarrow> page_img b = fpage u n)"
  using intread_ok [OF assms, of n buf] intread_fails [OF assms, of n buf] by auto

lemma intwrite_ok:
  assumes u: "file_of w f = Some u" and n: "0 \<le> n" and inv: "fs_inv w"
  shows "\<exists>w'. File_intwrite w f n pg = Some (OK, w') \<and> same_files w w' \<and>
     (\<forall>g. file_of w' g = (if g = f then Some (sys_write u (nat n * 1024) pg) else file_of w g))"
proof -
  obtain fo nm where fo: "files w f = Some fo" "fd_name w (unixFile fo) = Some nm" "disk w nm = Some u"
    using file_of_files [OF u] by blast
  let ?w = "w\<lparr>disk := (disk w)(nm \<mapsto> sys_write u (nat n * 1024) pg)\<rparr>"
  have nm: "file_name w f = Some nm" using fo by (simp add: file_name_def)
  then have eq: "file_name w g = Some nm \<longleftrightarrow> g = f" for g using inv by (auto simp: fs_inv_def)
  have "file_of ?w g = (if file_name w g = Some nm then Some (sys_write u (nat n * 1024) pg) else file_of w g)" for g
    by (cases "file_name w g") (simp_all add: file_of_def)
  then have "file_of ?w g = (if g = f then Some (sys_write u (nat n * 1024) pg) else file_of w g)" for g
    by (simp add: eq)
  moreover have "disk_frame w ?w" using nm fo(3) by (auto simp: disk_frame_def)
  ultimately show ?thesis using fo n by (simp add: File_intwrite_def same_files_def)
qed

lemma sys_write_size: "fsize (sys_write u off pg) = max (fsize u) (off + 1024)"
  by (simp add: sys_write_def)

lemma has_page_write:
  "0 \<le> n \<Longrightarrow> has_page (sys_write u (nat n * 1024) pg) m \<longleftrightarrow> has_page u m \<or> 0 \<le> m \<and> m \<le> n"
  by (auto simp: has_page_def sys_write_size le_max_iff_disj)

lemma fpage_write_same: "0 \<le> n \<Longrightarrow> fpage (sys_write u (nat n * 1024) pg) n = page_img pg"
  by (simp add: fpage_def sys_write_def page_img_def fun_eq_iff)

lemma fpage_write_other:
  assumes "has_page u m" "m \<noteq> n" "0 \<le> n"
  shows "fpage (sys_write u (nat n * 1024) pg) m = fpage u m"
proof -
  have "nat m < nat n \<or> nat n < nat m" "nat m * 1024 + 1024 \<le> fsize u" using assms by (auto simp: has_page_def)
  then have "nat m * 1024 + 1024 \<le> nat n * 1024 \<or> nat n * 1024 + 1024 \<le> nat m * 1024" "nat m * 1024 + 1024 \<le> fsize u"
    by linarith+
  then show ?thesis unfolding fpage_def by (intro page_img_eqI) (auto simp: sys_write_def)
qed

text \<open>Writing a page of the file, or the one just after its end.\<close>

lemma disk_page_file_of: "disk_page w f n = Some p \<longleftrightarrow> (\<exists>u. file_of w f = Some u \<and> has_page u n \<and> p = fpage u n)"
  by (auto simp: disk_page_def split: option.splits)

lemma readPage_device:
  "disk_page w f n = Some p \<Longrightarrow> 1 \<le> n \<Longrightarrow> \<exists>b. File_readPage w f n (Some buf) = Some (OK, b) \<and> page_img b = p"
  using intread_ok [of w f _ n buf] by (auto simp: disk_page_file_of File_readPage_def)

lemma writePage_device:
  assumes p: "disk_page w f n = Some p" and n: "1 \<le> n" and inv: "fs_inv w"
  shows "\<exists>w'. File_writePage w f n (Some pg) = Some (OK, w') \<and> same_files w w' \<and>
    (\<forall>g m. disk_page w' g m = (if g = f \<and> m = n then Some (page_img pg) else disk_page w g m))"
proof -
  obtain u where u: "file_of w f = Some u" "has_page u n" using p by (auto simp: disk_page_file_of)
  have "0 \<le> n" using n by simp
  then obtain w' where w': "File_intwrite w f n pg = Some (OK, w')" "same_files w w'"
      "\<forall>g. file_of w' g = (if g = f then Some (sys_write u (nat n * 1024) pg) else file_of w g)"
    using intwrite_ok [OF u(1) _ inv, of n pg] by blast
  have "has_page (sys_write u (nat n * 1024) pg) m = has_page u m" for m
    using has_page_write [of n u pg m] u(2) n by (auto simp: has_page_def)
  then have "disk_page w' g m = (if g = f \<and> m = n then Some (page_img pg) else disk_page w g m)" for g m
    using w'(3) u fpage_write_other [of u m n pg] fpage_write_same [of n u pg] \<open>0 \<le> n\<close> by (auto simp: disk_page_def)
  then show ?thesis using w' n by (auto simp: File_writePage_def)
qed


section \<open>The device contract\<close>

locale page_device =
  fixes dinv :: "'s \<Rightarrow> bool"
    and dpage :: "'s \<Rightarrow> 'f \<Rightarrow> int \<Rightarrow> page option"
    and dread :: "'s \<Rightarrow> 'f \<Rightarrow> int \<Rightarrow> page \<Rightarrow> (Status \<times> page) option"
    and dwrite :: "'s \<Rightarrow> 'f \<Rightarrow> int \<Rightarrow> page \<Rightarrow> (Status \<times> 's) option"
  assumes read_ok: "dpage s f n = Some p \<Longrightarrow> 1 \<le> n \<Longrightarrow> \<exists>b. dread s f n buf = Some (OK, b) \<and> page_img b = p"
    and write_ok: "dinv s \<Longrightarrow> dpage s f n = Some p \<Longrightarrow> 1 \<le> n \<Longrightarrow> \<exists>s'. dwrite s f n pg = Some (OK, s') \<and> dinv s' \<and>
      (\<forall>g m. dpage s' g m = (if g = f \<and> m = n then Some (page_img pg) else dpage s g m))"
    and no_page_zero: "n < 1 \<Longrightarrow> dread s f n buf = Some (BADPAGENO, buf) \<and> dwrite s f n pg = Some (BADPAGENO, s)"
begin

lemma read_after_write:
  assumes "dinv s" "dpage s f n = Some p" "1 \<le> n" "dpage s g m = Some q" "1 \<le> m"
  shows "\<exists>s' b. dwrite s f n pg = Some (OK, s') \<and> dinv s' \<and> dread s' g m buf = Some (OK, b) \<and>
     page_img b = (if (g, m) = (f, n) then page_img pg else q)"
proof -
  obtain s' where s': "dwrite s f n pg = Some (OK, s')" "dinv s'"
      "\<forall>g m. dpage s' g m = (if g = f \<and> m = n then Some (page_img pg) else dpage s g m)"
    using write_ok [OF assms(1-3)] by metis
  then have "dpage s' g m = Some (if (g, m) = (f, n) then page_img pg else q)" using assms(4) by simp
  from read_ok [OF this assms(5), of buf] show ?thesis using s' by auto
qed

text \<open>The last of two writes of a page counts; writes of different pages commute.\<close>

lemma write_write:
  assumes "dinv s" "dpage s f n = Some p" "1 \<le> n" "dpage s g m = Some q" "1 \<le> m"
  shows "\<exists>s1 s2. dwrite s f n a = Some (OK, s1) \<and> dwrite s1 g m b = Some (OK, s2) \<and> dinv s2 \<and>
     (\<forall>h k. dpage s2 h k = (if (h, k) = (g, m) then Some (page_img b)
        else if (h, k) = (f, n) then Some (page_img a) else dpage s h k))"
proof -
  obtain s1 where s1: "dwrite s f n a = Some (OK, s1)" "dinv s1"
      "\<forall>g m. dpage s1 g m = (if g = f \<and> m = n then Some (page_img a) else dpage s g m)"
    using write_ok [OF assms(1-3)] by metis
  then have "\<exists>q. dpage s1 g m = Some q" using assms(4) by auto
  then obtain s2 where "dwrite s1 g m b = Some (OK, s2)" "dinv s2"
      "\<forall>h k. dpage s2 h k = (if h = g \<and> k = m then Some (page_img b) else dpage s1 h k)"
    using write_ok [OF s1(2) _ assms(5)] by metis
  then show ?thesis using s1 by auto
qed

end

interpretation dev: page_device fs_inv disk_page "\<lambda>s f n buf. File_readPage s f n (Some buf)" "\<lambda>s f n pg. File_writePage s f n (Some pg)"
proof unfold_locales
  fix s :: "'a fs_state_scheme" and f n p and pg buf :: page
  assume "fs_inv s" "disk_page s f n = Some p" "1 \<le> n"
  then show "\<exists>s'. File_writePage s f n (Some pg) = Some (OK, s') \<and> fs_inv s' \<and>
      (\<forall>g m. disk_page s' g m = (if g = f \<and> m = n then Some (page_img pg) else disk_page s g m))"
    using writePage_device [of s f n p pg] same_files_inv by blast
qed (auto simp: readPage_device, auto simp: File_readPage_def File_writePage_def)


section \<open>The free list\<close>

fun free_walk :: "ufile \<Rightarrow> nat \<Rightarrow> int \<Rightarrow> int list" where
  "free_walk u 0 p = []"
| "free_walk u (Suc k) p = (if p = - 1 then [] else p # free_walk u k (nextFree (fpage u p)))"

fun free_chain :: "ufile \<Rightarrow> int \<Rightarrow> int list \<Rightarrow> bool" where
  "free_chain u p [] \<longleftrightarrow> p = - 1"
| "free_chain u p (x # xs) \<longleftrightarrow> p = x \<and> free_chain u (nextFree (fpage u x)) xs"

abbreviation npages :: "ufile \<Rightarrow> int" where
  "npages u \<equiv> numPages (fpage u 0)"

definition free_list :: "ufile \<Rightarrow> int list" where
  "free_list u = free_walk u (nat (npages u)) (nextFree (fpage u 0))"

text \<open>
  A well-formed file: its header counts its pages, its first user page is page 1, and the
  free list ends and has each page at most once, never the header or the first page.
\<close>

definition file_ok :: "ufile \<Rightarrow> bool" where
  "file_ok u \<longleftrightarrow> 1 \<le> npages u \<and> fsize u = nat (npages u) * 1024 \<and>
     firstPage (fpage u 0) = (if npages u = 1 then - 1 else 1) \<and>
     free_chain u (nextFree (fpage u 0)) (free_list u) \<and> distinct (free_list u) \<and>
     set (free_list u) \<subseteq> {2..<npages u}"

definition in_use :: "ufile \<Rightarrow> int set" where
  "in_use u = {1..<npages u} - set (free_list u)"

lemma hdr_img [simp]:
  "nextFree (page_img p) = nextFree p" "firstPage (page_img p) = firstPage p" "numPages (page_img p) = numPages p"
  by (simp_all add: nextFree_def firstPage_def numPages_def get_int_page_img)

lemma hdr_set [simp]:
  "int_ok v \<Longrightarrow> nextFree (set_nextFree p v) = v" "firstPage (set_nextFree p v) = firstPage p"
  "numPages (set_nextFree p v) = numPages p"
  "nextFree (set_firstPage p v) = nextFree p" "int_ok v \<Longrightarrow> firstPage (set_firstPage p v) = v"
  "numPages (set_firstPage p v) = numPages p"
  "nextFree (set_numPages p v) = nextFree p" "firstPage (set_numPages p v) = firstPage p"
  "int_ok v \<Longrightarrow> numPages (set_numPages p v) = v"
  by (simp_all add: nextFree_def firstPage_def numPages_def set_nextFree_def set_firstPage_def
      set_numPages_def mem_simps)

lemma hdr_range [simp]: "int_ok (nextFree p)" "int_ok (firstPage p)" "int_ok (numPages p)"
  by (simp_all add: nextFree_def firstPage_def numPages_def get_int_range)

lemma hdr_cong: "page_img p = page_img q \<Longrightarrow> nextFree p = nextFree q \<and> firstPage p = firstPage q \<and> numPages p = numPages q"
  using get_int_img_eq [of p q] by (simp add: nextFree_def firstPage_def numPages_def)

lemma put_le_local: "p x = q x \<Longrightarrow> put_le n p a v x = put_le n q a v x"
proof (induction n arbitrary: p q a v)
  case (Suc n)
  then have "(p(a := word_of_int v)) x = (q(a := word_of_int v)) x" by simp
  then show ?case unfolding put_le.simps by (rule Suc.IH [of "p(a := word_of_int v)" "q(a := word_of_int v)"])
qed simp

lemma put_int_img: "a + 4 \<le> 1024 \<Longrightarrow> page_img (put_int p a v) = page_img (put_int (page_img p) a v)"
proof (rule page_img_eqI)
  fix x :: nat
  assume "x < 1024"
  then have "p x = page_img p x" by simp
  then show "put_int p a v x = put_int (page_img p) a v x" unfolding put_int_def by (rule put_le_local [of p x "page_img p"])
qed

lemma set_nextFree_img: "page_img b = page_img c \<Longrightarrow> page_img (set_nextFree b v) = page_img (set_nextFree c v)"
  unfolding set_nextFree_def using put_int_img [of 0 b v] put_int_img [of 0 c v] by simp

lemma free_chain_cong:
  "(\<And>x. x \<in> set xs \<Longrightarrow> fpage u' x = fpage u x) \<Longrightarrow> free_chain u' p xs = free_chain u p xs"
  by (induction xs arbitrary: p) auto

lemma free_walk_chain: "free_chain u p xs \<Longrightarrow> length xs \<le> k \<Longrightarrow> - 1 \<notin> set xs \<Longrightarrow> free_walk u k p = xs"
proof (induction xs arbitrary: p k)
  case Nil
  then show ?case by (cases k) auto
next
  case (Cons x xs)
  then show ?case by (cases k) auto
qed

lemma distinct_range_length:
  assumes "distinct xs" "set xs \<subseteq> {2..<(n :: int)}"
  shows "length xs \<le> nat n"
proof -
  have "length xs = card (set xs)" using distinct_card [OF assms(1)] by simp
  also have "\<dots> \<le> card {2..<n}" using assms(2) by (intro card_mono) auto
  finally show ?thesis by simp
qed

text \<open>A file with the right header and the right chain has that chain as its free list.\<close>

lemma file_okI:
  assumes "1 \<le> npages u" "fsize u = nat (npages u) * 1024" "firstPage (fpage u 0) = (if npages u = 1 then - 1 else 1)"
    and "free_chain u (nextFree (fpage u 0)) xs" "distinct xs" "set xs \<subseteq> {2..<npages u}"
  shows "file_ok u \<and> free_list u = xs"
proof -
  have "- 1 \<notin> set xs" using assms(6) by auto
  then have "free_list u = xs"
    unfolding free_list_def using free_walk_chain [OF assms(4) distinct_range_length [OF assms(5,6)]] by blast
  then show ?thesis using assms by (simp add: file_ok_def)
qed

lemma has_page_npages: "file_ok u \<Longrightarrow> has_page u n \<longleftrightarrow> 0 \<le> n \<and> n < npages u"
  by (auto simp: file_ok_def has_page_def)

lemma in_use_page: "p \<in> in_use u \<Longrightarrow> 1 \<le> p \<and> p < npages u \<and> p \<notin> set (free_list u)"
  by (auto simp: in_use_def)

text \<open>The header page rewritten, with the same number of pages.\<close>

lemma rewrite_header:
  assumes ok: "file_ok u" and h: "numPages h = npages u" "firstPage h = firstPage (fpage u 0)"
    and xs: "free_chain u (nextFree h) xs" "distinct xs" "set xs \<subseteq> {2..<npages u}"
  shows "file_ok (sys_write u 0 h) \<and> free_list (sys_write u 0 h) = xs \<and> npages (sys_write u 0 h) = npages u \<and>
     (\<forall>q. 0 < q \<and> q < npages u \<longrightarrow> fpage (sys_write u 0 h) q = fpage u q)"
proof -
  let ?u = "sys_write u 0 h"
  have h0: "fpage ?u 0 = page_img h" using fpage_write_same [of 0 u h] by simp
  have other: "fpage ?u q = fpage u q" if "0 < q" "q < npages u" for q
    using fpage_write_other [of u q 0 h] has_page_npages [OF ok, of q] that by simp
  have sz: "fsize ?u = fsize u" using ok by (auto simp: sys_write_size file_ok_def max_def)
  have "file_ok ?u \<and> free_list ?u = xs"
  proof (rule file_okI)
    have "free_chain ?u (nextFree h) xs" using xs free_chain_cong [of xs ?u u] other by fastforce
    then show "free_chain ?u (nextFree (fpage ?u 0)) xs" by (simp add: h0)
  qed (use ok h xs sz in \<open>auto simp: h0 file_ok_def\<close>)
  then show ?thesis using other h by (auto simp: h0)
qed


section \<open>Allocation\<close>

lemma alloc_reuse:
  assumes ok: "file_ok u" and fl: "free_list u = p # ps"
  shows "let u' = sys_write u 0 h in page_img h = page_img (set_nextFree (fpage u 0) (nextFree (fpage u p))) \<longrightarrow>
     file_ok u' \<and> free_list u' = ps \<and> npages u' = npages u \<and> (\<forall>q \<in> in_use u. fpage u' q = fpage u q)"
  unfolding Let_def
proof
  assume h: "page_img h = page_img (set_nextFree (fpage u 0) (nextFree (fpage u p)))"
  have "nextFree h = nextFree (fpage u p)" "firstPage h = firstPage (fpage u 0)" "numPages h = npages u"
    using hdr_cong [OF h] by simp_all
  then show "file_ok (sys_write u 0 h) \<and> free_list (sys_write u 0 h) = ps \<and> npages (sys_write u 0 h) = npages u \<and>
      (\<forall>q \<in> in_use u. fpage (sys_write u 0 h) q = fpage u q)"
    using rewrite_header [OF ok, of h ps] ok fl by (auto simp: file_ok_def in_use_def)
qed

text \<open>The file one page longer.\<close>

lemma extend_file:
  assumes ok: "file_ok u" and fl: "free_list u = []" and n: "npages u < 2147483647"
    and h: "nextFree h = - 1" "firstPage h = 1" "numPages h = npages u + 1"
  shows "let u' = sys_write (sys_write u (nat (npages u) * 1024) zero_mem) 0 h in
     file_ok u' \<and> free_list u' = [] \<and> npages u' = npages u + 1 \<and> (\<forall>q. 0 < q \<and> q < npages u \<longrightarrow> fpage u' q = fpage u q)"
proof -
  let ?v = "sys_write u (nat (npages u) * 1024) zero_mem"
  let ?u = "sys_write ?v 0 h"
  have n1: "1 \<le> npages u" "fsize u = nat (npages u) * 1024" using ok by (simp_all add: file_ok_def)
  have h0: "fpage ?u 0 = page_img h" using fpage_write_same [of 0 ?v h] by simp
  have "fsize ?u = nat (npages u) * 1024 + 1024" using n1 by (auto simp: sys_write_size)
  then have sz: "fsize ?u = nat (npages u + 1) * 1024" using n1 by (simp add: nat_add_distrib)
  have "file_ok ?u \<and> free_list ?u = []"
    by (rule file_okI) (use h n1 sz in \<open>simp_all add: h0\<close>)
  moreover have "fpage ?u q = fpage u q" if q: "0 < q" "q < npages u" for q
  proof -
    have "has_page u q" using has_page_npages [OF ok] q by simp
    moreover have "has_page ?v q" using has_page_write [of "npages u" u zero_mem q] n1 q by simp
    ultimately show ?thesis
      using fpage_write_other [of ?v q 0 h] fpage_write_other [of u q "npages u" zero_mem] q n1 by simp
  qed
  ultimately show ?thesis using h by (auto simp: h0)
qed

lemma extend_header_fields:
  assumes ok: "file_ok u" and fl: "free_list u = []" and n: "npages u < 2147483647" and b: "page_img b = fpage u 0"
  defines "h \<equiv> set_numPages b (numPages b + 1)"
  defines "h' \<equiv> (if firstPage h = - 1 then set_firstPage h (numPages b) else h)"
  shows "nextFree h' = - 1 \<and> firstPage h' = 1 \<and> numPages h' = npages u + 1"
proof -
  have f: "nextFree b = nextFree (fpage u 0)" "firstPage b = firstPage (fpage u 0)" "numPages b = npages u"
    using hdr_cong [of b "fpage u 0"] b by simp_all
  have "nextFree (fpage u 0) = - 1" "1 \<le> npages u" "firstPage (fpage u 0) = (if npages u = 1 then - 1 else 1)"
    using ok fl by (simp_all add: file_ok_def)
  moreover have "int_ok (npages u + 1)" "int_ok (npages u)" using n calculation(2) by (auto simp: int_ok_def)
  ultimately show ?thesis using f by (auto simp: h'_def h_def)
qed

text \<open>
  What \<open>allocatePage\<close> does to a well-formed file: the first page of the free list if there
  is one, otherwise a new page at the end.
\<close>

lemma allocatePage_spec:
  assumes u: "file_of w f = Some u" and ok: "file_ok u" and inv: "fs_inv w" and n: "npages u < 2147483647"
  shows "\<exists>w' u' p. File_allocatePage w f pn = Some (OK, p, w') \<and> same_files w w' \<and> file_of w' = (file_of w)(f \<mapsto> u') \<and>
    file_ok u' \<and> p = (case free_list u of [] \<Rightarrow> npages u | x # xs \<Rightarrow> x) \<and> free_list u' = tl (free_list u) \<and>
    npages u' = npages u + (if free_list u = [] then 1 else 0) \<and> (\<forall>q \<in> in_use u. fpage u' q = fpage u q)"
proof -
  have "has_page u 0" using has_page_npages [OF ok] ok by (simp add: file_ok_def)
  then obtain b where b: "File_intread w f 0 zero_mem = Some (OK, b)" "page_img b = fpage u 0"
    using intread_ok [OF u] by blast
  have f: "nextFree b = nextFree (fpage u 0)" "numPages b = npages u" using hdr_cong [of b "fpage u 0"] b by simp_all
  show ?thesis
  proof (cases "free_list u")
    case Nil
    define h where "h = set_numPages b (numPages b + 1)"
    define h' where "h' = (if firstPage h = - 1 then set_firstPage h (numPages b) else h)"
    let ?v = "sys_write u (nat (npages u) * 1024) zero_mem"
    have nf: "nextFree b = - 1" and n1: "0 \<le> npages u" using ok Nil f by (simp_all add: file_ok_def)
    obtain w1 where w1: "File_intwrite w f (npages u) zero_mem = Some (OK, w1)" "same_files w w1"
        "\<forall>g. file_of w1 g = (if g = f then Some ?v else file_of w g)"
      using intwrite_ok [OF u n1 inv, of zero_mem] by blast
    then obtain w2 where w2: "File_intwrite w1 f 0 h' = Some (OK, w2)" "same_files w1 w2"
        "\<forall>g. file_of w2 g = (if g = f then Some (sys_write ?v 0 h') else file_of w1 g)"
      using intwrite_ok [of w1 f _ 0 h'] same_files_inv [OF w1(2)] inv by force
    have "nextFree h' = - 1" "firstPage h' = 1" "numPages h' = npages u + 1"
      unfolding h'_def h_def using extend_header_fields [OF ok Nil n b(2)] by blast+
    note ext = extend_file [OF ok Nil n this, unfolded Let_def]
    have "File_allocatePage w f pn = Some (OK, npages u, w2)"
      using b(1) w1(1) w2(1) nf f by (simp add: File_allocatePage_def Let_def h'_def h_def split: if_splits)
    moreover have "file_of w2 = (file_of w)(f \<mapsto> sys_write ?v 0 h')"
      using w2(3) w1(3) by (auto simp: fun_eq_iff)
    moreover have "\<forall>q \<in> in_use u. fpage (sys_write ?v 0 h') q = fpage u q"
      using ext by (simp add: in_use_def)
    ultimately show ?thesis
      using ext same_files_trans [OF w1(2) w2(2)] Nil
      by (intro exI [of _ w2] exI [of _ "sys_write ?v 0 h'"] exI [of _ "npages u"]) simp
  next
    case (Cons p ps)
    have p: "nextFree b = p" "p \<noteq> - 1" "2 \<le> p" "p < npages u" using ok Cons f by (auto simp: file_ok_def)
    then obtain ff where ff: "File_intread w f p zero_mem = Some (OK, ff)" "page_img ff = fpage u p"
      using intread_ok [OF u, of p zero_mem] has_page_npages [OF ok, of p] by auto
    let ?h = "set_nextFree b (nextFree ff)"
    obtain w1 where w1: "File_intwrite w f 0 ?h = Some (OK, w1)" "same_files w w1"
        "\<forall>g. file_of w1 g = (if g = f then Some (sys_write u 0 ?h) else file_of w g)"
      using intwrite_ok [OF u _ inv, of 0 ?h] by auto
    have "nextFree ff = nextFree (fpage u p)" using hdr_cong [of ff "fpage u p"] ff by simp
    then have "page_img ?h = page_img (set_nextFree (fpage u 0) (nextFree (fpage u p)))"
      using b(2) set_nextFree_img [of b "fpage u 0"] by simp
    then have "file_ok (sys_write u 0 ?h) \<and> free_list (sys_write u 0 ?h) = ps \<and> npages (sys_write u 0 ?h) = npages u \<and>
        (\<forall>q \<in> in_use u. fpage (sys_write u 0 ?h) q = fpage u q)"
      using alloc_reuse [OF ok Cons, of ?h] by (simp add: Let_def)
    moreover have "File_allocatePage w f pn = Some (OK, p, w1)"
      using b(1) ff(1) w1(1) p by (simp add: File_allocatePage_def Let_def)
    ultimately show ?thesis using w1 Cons by (auto simp: fun_eq_iff)
  qed
qed

section \<open>Disposal\<close>

lemma dispose_file:
  assumes ok: "file_ok u" and p: "p \<in> in_use u" "p \<noteq> 1"
    and a: "nextFree a = nextFree (fpage u 0)"
    and h: "nextFree h = p" "firstPage h = firstPage (fpage u 0)" "numPages h = npages u"
  shows "let u' = sys_write (sys_write u (nat p * 1024) a) 0 h in
     file_ok u' \<and> free_list u' = p # free_list u \<and> npages u' = npages u \<and>
     (\<forall>q \<in> in_use u - {p}. fpage u' q = fpage u q)"
proof -
  let ?v = "sys_write u (nat p * 1024) a"
  let ?u = "sys_write ?v 0 h"
  have p1: "1 \<le> p" "p < npages u" "p \<notin> set (free_list u)" using in_use_page [OF p(1)] by simp_all
  have n1: "1 \<le> npages u" "fsize u = nat (npages u) * 1024" using ok by (simp_all add: file_ok_def)
  have h0: "fpage ?u 0 = page_img h" using fpage_write_same [of 0 ?v h] by simp
  have keep: "fpage ?u q = (if q = p then page_img a else fpage u q)" if q: "0 < q" "q < npages u" for q
  proof -
    have q': "has_page u q" "has_page ?v q"
      using has_page_npages [OF ok, of q] has_page_write [of p u a q] p1 q by simp_all
    then show ?thesis
      using fpage_write_other [OF q'(2), of 0 h] fpage_write_other [OF q'(1), of p a] fpage_write_same [of p u a] p1 q
      by auto
  qed
  have "nat p * 1024 + 1024 \<le> fsize u" using p1 n1 by simp
  then have sz: "fsize ?u = nat (npages u) * 1024" using n1 by (auto simp: sys_write_size)
  have "file_ok ?u \<and> free_list ?u = p # free_list u"
  proof (rule file_okI)
    have "\<forall>x \<in> set (free_list u). fpage ?u x = fpage u x" using keep p1 ok by (auto simp: file_ok_def)
    then have "free_chain ?u (nextFree (fpage u 0)) (free_list u)"
      using free_chain_cong [of "free_list u" ?u u] ok by (auto simp: file_ok_def)
    then show "free_chain ?u (nextFree (fpage ?u 0)) (p # free_list u)"
      using keep [of p] p1 a h by (simp add: h0)
  qed (use ok h p p1 n1 sz in \<open>auto simp: h0 file_ok_def\<close>)
  moreover have "\<forall>q \<in> in_use u - {p}. fpage ?u q = fpage u q" using keep by (auto simp: in_use_def)
  ultimately show ?thesis using h by (simp add: h0 Let_def)
qed

lemma disposePage_spec:
  assumes u: "file_of w f = Some u" and ok: "file_ok u" and inv: "fs_inv w" and p: "p \<in> in_use u" "p \<noteq> 1"
  shows "\<exists>w' u'. File_disposePage w f p = Some (OK, w') \<and> same_files w w' \<and> file_of w' = (file_of w)(f \<mapsto> u') \<and>
    file_ok u' \<and> free_list u' = p # free_list u \<and> npages u' = npages u \<and> (\<forall>q \<in> in_use u - {p}. fpage u' q = fpage u q)"
proof -
  have p1: "1 \<le> p" "p < npages u" using in_use_page [OF p(1)] by simp_all
  have "has_page u 0" "has_page u p" using has_page_npages [OF ok] p1 by simp_all
  then obtain b c where b: "File_intread w f 0 zero_mem = Some (OK, b)" "page_img b = fpage u 0"
      and c: "File_intread w f p zero_mem = Some (OK, c)"
    using intread_ok [OF u] by meson
  have f: "nextFree b = nextFree (fpage u 0)" "firstPage b = firstPage (fpage u 0)" "numPages b = npages u"
    using hdr_cong [of b "fpage u 0"] b by simp_all
  define a where "a = set_nextFree zero_mem (nextFree b)"
  define h where "h = set_nextFree b p"
  have "int_ok p" using p1 hdr_range(3) [of "fpage u 0"] by (simp add: int_ok_def)
  then have hf: "nextFree a = nextFree (fpage u 0)" "nextFree h = p" "firstPage h = firstPage (fpage u 0)" "numPages h = npages u"
    using f by (simp_all add: a_def h_def)
  let ?v = "sys_write u (nat p * 1024) a"
  obtain w1 where w1: "File_intwrite w f p a = Some (OK, w1)" "same_files w w1"
      "\<forall>g. file_of w1 g = (if g = f then Some ?v else file_of w g)"
    using intwrite_ok [OF u _ inv, of p a] p1 by auto
  then obtain w2 where w2: "File_intwrite w1 f 0 h = Some (OK, w2)" "same_files w1 w2"
      "\<forall>g. file_of w2 g = (if g = f then Some (sys_write ?v 0 h) else file_of w1 g)"
    using intwrite_ok [of w1 f _ 0 h] same_files_inv [OF w1(2)] inv by force
  have "firstPage b \<noteq> p" using f p p1 ok by (auto simp: file_ok_def)
  then have "File_disposePage w f p = Some (OK, w2)"
    using b(1) c w1(1) w2(1) p1 f by (simp add: File_disposePage_def Let_def a_def h_def)
  moreover have "file_of w2 = (file_of w)(f \<mapsto> sys_write ?v 0 h)" using w2(3) w1(3) by (auto simp: fun_eq_iff)
  ultimately show ?thesis
    using dispose_file [OF ok p hf] same_files_trans [OF w1(2) w2(2)]
    by (intro exI [of _ w2] exI [of _ "sys_write ?v 0 h"]) (simp add: Let_def)
qed

text \<open>The header, the first page and pages beyond the end are refused.\<close>

lemma disposePage_bad:
  assumes u: "file_of w f = Some u" and ok: "file_ok u" and p: "p \<le> 1 \<or> npages u \<le> p"
  shows "File_disposePage w f p = Some (BADPAGENO, w)"
proof -
  have "has_page u 0" using has_page_npages [OF ok] ok by (simp add: file_ok_def)
  then obtain b where b: "File_intread w f 0 zero_mem = Some (OK, b)" "page_img b = fpage u 0"
    using intread_ok [OF u] by blast
  then have "firstPage b = (if npages u = 1 then - 1 else 1)" "numPages b = npages u"
    using hdr_cong [of b "fpage u 0"] ok by (simp_all add: file_ok_def)
  then show ?thesis using b(1) p by (auto simp: File_disposePage_def)
qed


section \<open>The allocation contract\<close>

locale page_allocator =
  fixes ainv :: "'s \<Rightarrow> bool"
    and used :: "'s \<Rightarrow> int set"
    and content :: "'s \<Rightarrow> int \<Rightarrow> page"
    and alloc :: "'s \<Rightarrow> (int \<times> 's) option"
    and release :: "'s \<Rightarrow> int \<Rightarrow> 's option"
  assumes alloc_fresh: "ainv s \<Longrightarrow> alloc s = Some (p, s') \<Longrightarrow> ainv s' \<and> p \<notin> used s \<and> used s' = insert p (used s) \<and>
      (\<forall>q \<in> used s. content s' q = content s q)"
    and release_used: "ainv s \<Longrightarrow> p \<in> used s \<Longrightarrow> release s p = Some s' \<Longrightarrow> ainv s' \<and> used s' = used s - {p} \<and>
      (\<forall>q \<in> used s - {p}. content s' q = content s q)"
begin

text \<open>A client that allocates \<open>n\<close> pages in a row.\<close>

fun alloc_n :: "nat \<Rightarrow> 's \<Rightarrow> (int list \<times> 's) option" where
  "alloc_n 0 s = Some ([], s)"
| "alloc_n (Suc n) s = do {(p, s) \<leftarrow> alloc s; (ps, s) \<leftarrow> alloc_n n s; Some (p # ps, s)}"

lemma alloc_n_distinct:
  "ainv s \<Longrightarrow> alloc_n n s = Some (ps, s') \<Longrightarrow> ainv s' \<and> distinct ps \<and> set ps \<inter> used s = {} \<and>
     used s' = used s \<union> set ps \<and> (\<forall>q \<in> used s. content s' q = content s q)"
proof (induction n arbitrary: s ps)
  case (Suc n)
  then obtain p s1 qs where step: "alloc s = Some (p, s1)" "alloc_n n s1 = Some (qs, s')" "ps = p # qs"
    by (auto split: bind_splits)
  then have s1: "ainv s1 \<and> p \<notin> used s \<and> used s1 = insert p (used s) \<and> (\<forall>q \<in> used s. content s1 q = content s q)"
    using alloc_fresh Suc.prems(1) by blast
  then have "ainv s' \<and> distinct qs \<and> set qs \<inter> used s1 = {} \<and>
     used s' = used s1 \<union> set qs \<and> (\<forall>q \<in> used s1. content s' q = content s1 q)"
    using Suc.IH step(2) by blast
  then show ?case using s1 step(3) by auto
qed simp

lemma release_alloc_other:
  assumes "ainv s" "p \<in> used s" "release s p = Some s1" "alloc s1 = Some (q, s2)"
  shows "q \<notin> used s - {p} \<and> (\<forall>r \<in> used s - {p}. content s2 r = content s r)"
  using assms release_used [of s p s1] alloc_fresh [of s1 q s2] by auto

end

text \<open>
  The operations of one open file as an allocator. A file of \<open>2147483647\<close> pages cannot grow:
  its page count is the largest \<open>int\<close>.
\<close>

definition file_full :: "ptr \<Rightarrow> 'a fs_state_scheme \<Rightarrow> bool" where
  "file_full f w = (case file_of w f of None \<Rightarrow> True | Some u \<Rightarrow> npages u = 2147483647)"

definition file_alloc :: "ptr \<Rightarrow> 'a fs_state_scheme \<Rightarrow> (int \<times> 'a fs_state_scheme) option" where
  "file_alloc f w = (if file_full f w then None
     else case File_allocatePage w f 0 of
       None \<Rightarrow> None
     | Some (st, p, w') \<Rightarrow> if st = OK then Some (p, w') else None)"

definition file_release :: "ptr \<Rightarrow> 'a fs_state_scheme \<Rightarrow> int \<Rightarrow> 'a fs_state_scheme option" where
  "file_release f w p = (case File_disposePage w f p of
       None \<Rightarrow> None
     | Some (st, w') \<Rightarrow> if st = OK then Some w' else None)"

definition file_inv :: "ptr \<Rightarrow> 'a fs_state_scheme \<Rightarrow> bool" where
  "file_inv f w \<longleftrightarrow> fs_inv w \<and> (\<exists>u. file_of w f = Some u \<and> file_ok u)"

definition used_pages :: "ptr \<Rightarrow> 'a fs_state_scheme \<Rightarrow> int set" where
  "used_pages f w = (case file_of w f of None \<Rightarrow> {} | Some u \<Rightarrow> in_use u)"

definition page_content :: "ptr \<Rightarrow> 'a fs_state_scheme \<Rightarrow> int \<Rightarrow> page" where
  "page_content f w p = (case file_of w f of None \<Rightarrow> zero_mem | Some u \<Rightarrow> fpage u p)"


lemma file_invD:
  assumes "file_inv f w" "\<not> file_full f w"
  shows "\<exists>u. file_of w f = Some u \<and> file_ok u \<and> fs_inv w \<and> npages u < 2147483647"
proof -
  obtain u where u: "file_of w f = Some u" "file_ok u" "fs_inv w" using assms(1) by (auto simp: file_inv_def)
  moreover have "npages u < 2147483647" using assms(2) u hdr_range(3) [of "fpage u 0"] by (simp add: file_full_def int_ok_def)
  ultimately show ?thesis by blast
qed

lemma in_use_tl:
  assumes "file_ok u" "free_list u = x # xs" "free_list u' = xs" "npages u' = npages u"
  shows "in_use u' = insert x (in_use u) \<and> x \<notin> in_use u"
  using assms by (auto simp: in_use_def file_ok_def)

lemma in_use_grow:
  assumes "file_ok u" "free_list u = []" "free_list u' = []" "npages u' = npages u + 1"
  shows "in_use u' = insert (npages u) (in_use u) \<and> npages u \<notin> in_use u"
  using assms by (auto simp: in_use_def file_ok_def)

lemma allocatePage_fresh:
  assumes "file_inv f w" "\<not> file_full f w"
  shows "\<exists>p w'. File_allocatePage w f pn = Some (OK, p, w') \<and> same_files w w' \<and> file_inv f w' \<and> 1 \<le> p \<and>
     p \<notin> used_pages f w \<and> used_pages f w' = insert p (used_pages f w) \<and>
     (\<forall>q \<in> used_pages f w. page_content f w' q = page_content f w q) \<and>
     (\<forall>g. g \<noteq> f \<longrightarrow> file_of w' g = file_of w g)"
proof -
  obtain u where u: "file_of w f = Some u" "file_ok u" "fs_inv w" "npages u < 2147483647"
    using file_invD [OF assms] by blast
  obtain w' u' p where a: "File_allocatePage w f pn = Some (OK, p, w')" "same_files w w'"
      "file_of w' = (file_of w)(f \<mapsto> u')" "file_ok u'" "p = (case free_list u of [] \<Rightarrow> npages u | x # xs \<Rightarrow> x)"
      "free_list u' = tl (free_list u)" "npages u' = npages u + (if free_list u = [] then 1 else 0)"
      "\<forall>q \<in> in_use u. fpage u' q = fpage u q"
    using allocatePage_spec [OF u, of pn] by blast
  have "in_use u' = insert p (in_use u) \<and> p \<notin> in_use u"
  proof (cases "free_list u")
    case Nil
    then show ?thesis using a(5-7) in_use_grow [OF u(2) Nil, of u'] by simp
  next
    case (Cons x xs)
    then show ?thesis using a(5-7) in_use_tl [OF u(2) Cons, of u'] by simp
  qed
  moreover have "fs_inv w'" using same_files_inv [OF a(2)] u(3) by simp
  moreover have "1 \<le> p" using a(5) u(2) by (cases "free_list u") (auto simp: file_ok_def)
  ultimately show ?thesis
    using a u by (intro exI [of _ p] exI [of _ w']) (simp add: file_inv_def used_pages_def page_content_def)
qed

lemma disposePage_used:
  assumes "file_inv f w" "p \<in> used_pages f w" "p \<noteq> 1"
  shows "\<exists>w'. File_disposePage w f p = Some (OK, w') \<and> same_files w w' \<and> file_inv f w' \<and>
     used_pages f w' = used_pages f w - {p} \<and>
     (\<forall>q \<in> used_pages f w - {p}. page_content f w' q = page_content f w q) \<and>
     (\<forall>g. g \<noteq> f \<longrightarrow> file_of w' g = file_of w g)"
proof -
  obtain u where u: "file_of w f = Some u" "file_ok u" "fs_inv w" using assms(1) by (auto simp: file_inv_def)
  have p: "p \<in> in_use u" using assms(2) u by (simp add: used_pages_def)
  obtain w' u' where a: "File_disposePage w f p = Some (OK, w')" "same_files w w'" "file_of w' = (file_of w)(f \<mapsto> u')"
      "file_ok u'" "free_list u' = p # free_list u" "npages u' = npages u" "\<forall>q \<in> in_use u - {p}. fpage u' q = fpage u q"
    using disposePage_spec [OF u p assms(3)] by blast
  have "in_use u' = in_use u - {p}" using a(5,6) by (auto simp: in_use_def)
  moreover have "fs_inv w'" using same_files_inv [OF a(2)] u(3) by simp
  ultimately show ?thesis
    using a u by (intro exI [of _ w']) (simp add: file_inv_def used_pages_def page_content_def)
qed

lemma disposePage_first:
  assumes "file_inv f w" "p \<le> 1"
  shows "File_disposePage w f p = Some (BADPAGENO, w)"
  using assms disposePage_bad [of w f _ p] by (auto simp: file_inv_def)

interpretation file_pages: page_allocator "file_inv f" "used_pages f" "page_content f" "file_alloc f" "file_release f" for f
proof unfold_locales
  fix s s' :: "'a fs_state_scheme" and p
  assume inv: "file_inv f s"
  show "file_inv f s' \<and> p \<notin> used_pages f s \<and> used_pages f s' = insert p (used_pages f s) \<and>
      (\<forall>q \<in> used_pages f s. page_content f s' q = page_content f s q)" if "file_alloc f s = Some (p, s')"
    using that allocatePage_fresh [OF inv, of 0] by (auto simp: file_alloc_def split: if_splits option.splits)
  show "file_inv f s' \<and> used_pages f s' = used_pages f s - {p} \<and>
      (\<forall>q \<in> used_pages f s - {p}. page_content f s' q = page_content f s q)"
    if "p \<in> used_pages f s" "file_release f s p = Some s'"
  proof (cases "p = 1")
    case True
    then show ?thesis using that disposePage_first [OF inv, of p] by (simp add: file_release_def)
  next
    case False
    then show ?thesis
      using that disposePage_used [OF inv that(1) False] by (auto simp: file_release_def split: if_splits option.splits)
  qed
qed


section \<open>New files\<close>

lemma empty_header_fields: "nextFree empty_header = - 1" "firstPage empty_header = - 1" "numPages empty_header = 1"
  by (simp_all add: empty_header_def int_ok_def)

lemma new_file_ok: "file_ok (sys_write \<lparr>fsize = 0, fdata = zero_mem\<rparr> 0 empty_header) \<and>
    in_use (sys_write \<lparr>fsize = 0, fdata = zero_mem\<rparr> 0 empty_header) = {}"
proof -
  let ?u = "sys_write \<lparr>fsize = 0, fdata = zero_mem\<rparr> 0 empty_header"
  have h: "fpage ?u 0 = page_img empty_header" using fpage_write_same [of 0] by simp
  have "file_ok ?u \<and> free_list ?u = []"
    by (rule file_okI) (simp_all add: h empty_header_fields sys_write_size)
  then show ?thesis by (simp add: in_use_def h empty_header_fields)
qed

definition sample_fs :: fs_state where
  "sample_fs = (let w = snd (File_create \<lparr>disk = Map.empty, fds = [], files = [4096 \<mapsto> new_File ''rel'']\<rparr> ''rel'')
     in snd (the (File_open w 4096)))"

lemma sample_fs_eq: "sample_fs = \<lparr>disk = [''rel'' \<mapsto> sys_write \<lparr>fsize = 0, fdata = zero_mem\<rparr> 0 empty_header],
    fds = [Some ''rel''], files = [4096 \<mapsto> \<lparr>fileName = ''rel'', openCnt = 1, unixFile = 3\<rparr>]\<rparr>"
  by (simp add: sample_fs_def File_create_def File_open_def new_File_def sys_open_def Let_def fun_eq_iff)

lemma sample_fs_file: "file_of sample_fs 4096 = Some (sys_write \<lparr>fsize = 0, fdata = zero_mem\<rparr> 0 empty_header)"
  by (simp add: sample_fs_eq file_of_def file_name_def fd_name_def)

lemma sample_fs_inv: "file_inv 4096 sample_fs \<and> \<not> file_full 4096 sample_fs \<and> used_pages 4096 sample_fs = {}"
proof -
  have "fs_inv sample_fs" by (auto simp: fs_inv_def sample_fs_eq file_name_def split: if_splits)
  then show ?thesis
    using new_file_ok sample_fs_file fpage_write_same [of 0 "\<lparr>fsize = 0, fdata = zero_mem\<rparr>" empty_header]
    by (simp add: file_inv_def used_pages_def file_full_def empty_header_fields)
qed

section \<open>A page disposed twice\<close>

text \<open>The free list has become a cycle through one page.\<close>

definition free_loop :: "ptr \<Rightarrow> int \<Rightarrow> 'a fs_state_scheme \<Rightarrow> bool" where
  "free_loop f p w \<longleftrightarrow> fs_inv w \<and> 1 \<le> p \<and> (\<exists>u. file_of w f = Some u \<and> has_page u 0 \<and> has_page u p \<and>
     nextFree (fpage u 0) = p \<and> nextFree (fpage u p) = p)"

lemma alloc_free_loop:
  assumes "free_loop f p w"
  shows "\<exists>w'. File_allocatePage w f pn = Some (OK, p, w') \<and> free_loop f p w'"
proof -
  obtain u where u: "fs_inv w" "1 \<le> p" "file_of w f = Some u" "has_page u 0" "has_page u p"
      "nextFree (fpage u 0) = p" "nextFree (fpage u p) = p" using assms by (auto simp: free_loop_def)
  obtain b where b: "File_intread w f 0 zero_mem = Some (OK, b)" "page_img b = fpage u 0"
    using intread_ok [OF u(3,4)] by blast
  obtain c where c: "File_intread w f p zero_mem = Some (OK, c)" "page_img c = fpage u p"
    using intread_ok [OF u(3,5)] by blast
  have nf: "nextFree b = p" "nextFree c = p" using hdr_cong [of b "fpage u 0"] hdr_cong [of c "fpage u p"] b c u by simp_all
  define h where "h = set_nextFree b p"
  have "nextFree h = p" using hdr_range(1) [of b] nf by (simp add: h_def)
  moreover obtain w' where w': "File_intwrite w f 0 h = Some (OK, w')" "same_files w w'"
      "\<forall>g. file_of w' g = (if g = f then Some (sys_write u 0 h) else file_of w g)"
    using intwrite_ok [OF u(3) _ u(1), of 0 h] by auto
  moreover have "File_allocatePage w f pn = Some (OK, p, w')"
    using b(1) c(1) nf w'(1) u(2) by (simp add: File_allocatePage_def Let_def h_def)
  ultimately show ?thesis
    using same_files_inv [OF w'(2)] u fpage_write_same [of 0 u h] fpage_write_other [OF u(5), of 0 h]
      has_page_write [of 0 u h] by (auto simp: free_loop_def)
qed

lemma dispose_makes_loop:
  assumes inv: "fs_inv w" and u: "file_of w f = Some u" "file_ok u" and fl: "free_list u = p # ps"
  shows "\<exists>w'. File_disposePage w f p = Some (OK, w') \<and> free_loop f p w'"
proof -
  have p: "2 \<le> p" "p < npages u" "nextFree (fpage u 0) = p" "firstPage (fpage u 0) = (if npages u = 1 then - 1 else 1)"
    using u fl by (auto simp: file_ok_def)
  have hp: "has_page u 0" "has_page u p" using has_page_npages [OF u(2)] p by simp_all
  obtain b where b: "File_intread w f 0 zero_mem = Some (OK, b)" "page_img b = fpage u 0"
    using intread_ok [OF u(1) hp(1)] by blast
  obtain c where c: "File_intread w f p zero_mem = Some (OK, c)" using intread_ok [OF u(1) hp(2)] by blast
  have nf: "nextFree b = p" "firstPage b = (if npages u = 1 then - 1 else 1)" "numPages b = npages u"
    using hdr_cong [of b "fpage u 0"] b p by simp_all
  define a where "a = set_nextFree zero_mem p"
  define h where "h = set_nextFree b p"
  have ah: "nextFree a = p" "nextFree h = p" using hdr_range(1) [of b] nf by (simp_all add: a_def h_def)
  let ?v = "sys_write u (nat p * 1024) a"
  obtain w1 where w1: "File_intwrite w f p a = Some (OK, w1)" "same_files w w1"
      "\<forall>g. file_of w1 g = (if g = f then Some ?v else file_of w g)"
    using intwrite_ok [OF u(1) _ inv, of p a] p by auto
  then obtain w2 where w2: "File_intwrite w1 f 0 h = Some (OK, w2)" "same_files w1 w2"
      "\<forall>g. file_of w2 g = (if g = f then Some (sys_write ?v 0 h) else file_of w1 g)"
    using intwrite_ok [of w1 f _ 0 h] same_files_inv [OF w1(2)] inv by force
  have "File_disposePage w f p = Some (OK, w2)"
    using b(1) c w1(1) w2(1) p nf by (simp add: File_disposePage_def Let_def a_def h_def)
  moreover have hv: "has_page ?v p" using has_page_write [of p u a p] p by simp
  moreover have "has_page (sys_write ?v 0 h) p" "has_page (sys_write ?v 0 h) 0" using has_page_write [of 0 ?v h] hv by simp_all
  moreover have "fpage (sys_write ?v 0 h) 0 = page_img h" "fpage (sys_write ?v 0 h) p = page_img a"
    using fpage_write_same [of 0 ?v h] fpage_write_other [OF hv, of 0 h] fpage_write_same [of p u a] p by simp_all
  moreover have "fs_inv w2" using same_files_inv [OF w1(2)] same_files_inv [OF w2(2)] inv by simp
  ultimately show ?thesis using w2(3) ah p by (auto simp: free_loop_def)
qed


section \<open>Sample files\<close>

text \<open>A file with pages 1 and 2 in use.\<close>

definition sample_fs2 :: fs_state where
  "sample_fs2 = snd (the (file_pages.alloc_n 4096 2 sample_fs))"

lemma file_alloc_grow:
  assumes "file_of w f = Some u" "file_ok u" "fs_inv w" "free_list u = []" "npages u < 2147483646"
  shows "\<exists>w' u'. file_alloc f w = Some (npages u, w') \<and> file_of w' f = Some u' \<and> file_ok u' \<and> fs_inv w' \<and>
     free_list u' = [] \<and> npages u' = npages u + 1"
proof -
  obtain w' u' where a: "File_allocatePage w f 0 = Some (OK, npages u, w')" "same_files w w'" "file_of w' = (file_of w)(f \<mapsto> u')"
      "file_ok u'" "free_list u' = []" "npages u' = npages u + 1"
    using allocatePage_spec [OF assms(1-3), of 0] assms(4,5) by auto
  then show ?thesis using same_files_inv [OF a(2)] assms by (auto simp: file_alloc_def file_full_def)
qed

lemma sample_fs2_alloc: "file_pages.alloc_n 4096 2 sample_fs = Some ([1, 2], sample_fs2)"
  and sample_fs2_file: "\<exists>u. file_of sample_fs2 4096 = Some u \<and> file_ok u \<and> fs_inv sample_fs2 \<and> free_list u = [] \<and> npages u = 3"
proof -
  obtain u where u: "file_of sample_fs 4096 = Some u" "file_ok u" "fs_inv sample_fs" "in_use u = {}" "npages u = 1"
    using sample_fs_inv sample_fs_file fpage_write_same [of 0 "\<lparr>fsize = 0, fdata = zero_mem\<rparr>" empty_header]
    by (auto simp: file_inv_def used_pages_def empty_header_fields)
  then have "free_list u = []" by (auto simp: file_ok_def)
  then obtain w1 u1 where w1: "file_alloc 4096 sample_fs = Some (1, w1)" "file_of w1 4096 = Some u1" "file_ok u1" "fs_inv w1"
      "free_list u1 = []" "npages u1 = 2"
    using file_alloc_grow [OF u(1-3)] u(5) by auto
  then obtain w2 u2 where w2: "file_alloc 4096 w1 = Some (2, w2)" "file_of w2 4096 = Some u2" "file_ok u2" "fs_inv w2"
      "free_list u2 = []" "npages u2 = 3"
    using file_alloc_grow [OF w1(2-5)] by auto
  have "file_pages.alloc_n 4096 2 sample_fs = Some ([1, 2], w2)" using w1(1) w2(1) by (simp add: numeral_2_eq_2)
  then show "file_pages.alloc_n 4096 2 sample_fs = Some ([1, 2], sample_fs2)"
    "\<exists>u. file_of sample_fs2 4096 = Some u \<and> file_ok u \<and> fs_inv sample_fs2 \<and> free_list u = [] \<and> npages u = 3"
    using w2 by (simp_all add: sample_fs2_def)
qed

lemma sample_fs2_inv: "file_inv 4096 sample_fs2" "\<not> file_full 4096 sample_fs2" "used_pages 4096 sample_fs2 = {1, 2}"
  using sample_fs2_file by (auto simp: file_inv_def used_pages_def file_full_def in_use_def)

lemma sample_fs2_disk: "1 \<le> n \<Longrightarrow> n \<le> 2 \<Longrightarrow> \<exists>p. disk_page sample_fs2 4096 n = Some p"
  using sample_fs2_file has_page_npages by (auto simp: disk_page_def split: option.splits)


section \<open>Properties\<close>

text \<open>
  (C15) \<open>allocatePage\<close> on a well-formed file hands out a page that is not in use: the page
  disposed of last if the free list has one, otherwise a new page at the end of the file.
  Every page in use keeps its contents, other files are untouched, and the header and the
  free list are well formed again.
\<close>

theorem file_allocate_fresh:
  assumes "file_inv f w" "\<not> file_full f w"
  shows "\<exists>p w'. File_allocatePage w f pn = Some (OK, p, w') \<and> file_inv f w' \<and> p \<notin> used_pages f w \<and>
     used_pages f w' = insert p (used_pages f w) \<and>
     (\<forall>q. q \<in> used_pages f w \<longrightarrow> page_content f w' q = page_content f w q) \<and>
     (\<forall>g. g \<noteq> f \<longrightarrow> file_of w' g = file_of w g)"
  using allocatePage_fresh [OF assms, of pn] by blast

theorem file_allocate_fresh_witness:
  "\<exists>p w'. File_allocatePage sample_fs 4096 0 = Some (OK, p, w') \<and> used_pages 4096 w' = {p}"
  using file_allocate_fresh [of 4096 sample_fs 0] sample_fs_inv by auto

text \<open>
  (C26) Pages allocated one after the other are pairwise distinct and none of them was in use
  before; what the pages in use held is unchanged.
\<close>

theorem file_allocate_distinct:
  assumes "file_inv f w" "file_pages.alloc_n f n w = Some (ps, w')"
  shows "distinct ps \<and> set ps \<inter> used_pages f w = {} \<and> used_pages f w' = used_pages f w \<union> set ps \<and>
     (\<forall>q. q \<in> used_pages f w \<longrightarrow> page_content f w' q = page_content f w q)"
  using file_pages.alloc_n_distinct [OF assms] by blast

theorem file_allocate_distinct_witness: "used_pages 4096 sample_fs2 = {1, 2}"
  using file_allocate_distinct [of 4096 sample_fs 2 "[1, 2]" sample_fs2] sample_fs_inv sample_fs2_alloc by simp

text \<open>
  (C25) A page that is disposed of goes to the head of the free list: \<open>disposePage\<close> succeeds
  for every page in use but the first, changes no other page in use, and the next
  \<open>allocatePage\<close> returns that page again and restores the set of pages in use. Page 0, the
  first page and pages beyond the end of the file are refused with \<open>BADPAGENO\<close>.
\<close>

theorem file_dispose_allocate:
  assumes "file_inv f w"
  shows "(p \<in> used_pages f w \<and> p \<noteq> 1 \<and> \<not> file_full f w \<longrightarrow>
      (\<exists>w1 w2. File_disposePage w f p = Some (OK, w1) \<and> file_inv f w1 \<and> used_pages f w1 = used_pages f w - {p} \<and>
        (\<forall>q. q \<in> used_pages f w - {p} \<longrightarrow> page_content f w1 q = page_content f w q) \<and>
        File_allocatePage w1 f pn = Some (OK, p, w2) \<and> used_pages f w2 = used_pages f w)) \<and>
    (p \<le> 1 \<longrightarrow> File_disposePage w f p = Some (BADPAGENO, w))"
proof (intro conjI impI)
  assume p: "p \<in> used_pages f w \<and> p \<noteq> 1 \<and> \<not> file_full f w"
  obtain u where u: "file_of w f = Some u" "file_ok u" "fs_inv w" "npages u < 2147483647"
    using file_invD [OF assms] p by blast
  obtain w1 u1 where a: "File_disposePage w f p = Some (OK, w1)" "same_files w w1" "file_of w1 = (file_of w)(f \<mapsto> u1)"
      "file_ok u1" "free_list u1 = p # free_list u" "npages u1 = npages u" "\<forall>q \<in> in_use u - {p}. fpage u1 q = fpage u q"
    using disposePage_spec [OF u(1-3), of p] p u(1) by (auto simp: used_pages_def)
  have inv1: "fs_inv w1" using same_files_inv [OF a(2)] u by simp
  have f1: "file_of w1 f = Some u1" using a(3) by simp
  obtain w2 u2 where b: "File_allocatePage w1 f pn = Some (OK, p, w2)" "file_of w2 = (file_of w1)(f \<mapsto> u2)"
      "free_list u2 = free_list u" "npages u2 = npages u"
    using allocatePage_spec [OF f1 a(4) inv1, of pn] a(5,6) u(4) by auto
  have "in_use u1 = in_use u - {p}" "in_use u2 = in_use u" using a(5,6) b(3,4) by (auto simp: in_use_def)
  then show "\<exists>w1 w2. File_disposePage w f p = Some (OK, w1) \<and> file_inv f w1 \<and> used_pages f w1 = used_pages f w - {p} \<and>
        (\<forall>q. q \<in> used_pages f w - {p} \<longrightarrow> page_content f w1 q = page_content f w q) \<and>
        File_allocatePage w1 f pn = Some (OK, p, w2) \<and> used_pages f w2 = used_pages f w"
    using a b u inv1 by (intro exI [of _ w1] exI [of _ w2]) (simp add: file_inv_def used_pages_def page_content_def)
qed (rule disposePage_first [OF assms])

theorem file_dispose_allocate_witness:
  "(\<exists>w1 w2. File_disposePage sample_fs2 4096 2 = Some (OK, w1) \<and> File_allocatePage w1 4096 0 = Some (OK, 2, w2)) \<and>
   File_disposePage sample_fs2 4096 1 = Some (BADPAGENO, sample_fs2)"
  using file_dispose_allocate [OF sample_fs2_inv(1), where p = 2 and pn = 0] file_dispose_allocate [OF sample_fs2_inv(1), of 1]
    sample_fs2_inv by auto

text \<open>A client that allocates a number of pages in a row, with the statuses and page numbers it gets.\<close>

fun allocate_pages :: "'a fs_state_scheme \<Rightarrow> ptr \<Rightarrow> nat \<Rightarrow> ((Status \<times> int) list \<times> 'a fs_state_scheme) option" where
  "allocate_pages w f 0 = Some ([], w)"
| "allocate_pages w f (Suc n) = do {
     (status, p, w) \<leftarrow> File_allocatePage w f 0;
     (ps, w) \<leftarrow> allocate_pages w f n;
     Some ((status, p) # ps, w)
   }"

lemma allocate_free_loop: "free_loop f p w \<Longrightarrow> \<exists>w'. allocate_pages w f n = Some (replicate n (OK, p), w')"
proof (induction n arbitrary: w)
  case (Suc n)
  obtain w1 where "File_allocatePage w f 0 = Some (OK, p, w1)" "free_loop f p w1" using alloc_free_loop [OF Suc.prems] by blast
  then show ?case using Suc.IH by fastforce
qed simp

text \<open>
  (C34) The free list has no protection against a page disposed of twice: both calls succeed,
  and then all allocations in a row, however many, succeed and return this same page, so that
  any number of owners share it.
\<close>

theorem file_double_dispose:
  assumes "file_inv f w" "p \<in> used_pages f w" "p \<noteq> 1"
  shows "\<exists>w1 w2. File_disposePage w f p = Some (OK, w1) \<and> File_disposePage w1 f p = Some (OK, w2) \<and>
     (\<forall>n. \<exists>w3. allocate_pages w2 f n = Some (replicate n (OK, p), w3))"
proof -
  obtain u where u: "file_of w f = Some u" "file_ok u" "fs_inv w" using assms(1) by (auto simp: file_inv_def)
  obtain w1 u1 where a: "File_disposePage w f p = Some (OK, w1)" "same_files w w1" "file_of w1 = (file_of w)(f \<mapsto> u1)"
      "file_ok u1" "free_list u1 = p # free_list u"
    using disposePage_spec [OF u(1-3), of p] assms(2,3) u(1) by (auto simp: used_pages_def)
  then have "fs_inv w1" "file_of w1 f = Some u1" using same_files_inv [OF a(2)] u by simp_all
  then obtain w2 where w2: "File_disposePage w1 f p = Some (OK, w2)" "free_loop f p w2"
    using dispose_makes_loop a(4,5) by blast
  then show ?thesis using a(1) allocate_free_loop [OF w2(2)] by blast
qed

theorem file_double_dispose_witness:
  "\<exists>w1 w2 w3. File_disposePage sample_fs2 4096 2 = Some (OK, w1) \<and> File_disposePage w1 4096 2 = Some (OK, w2) \<and>
     allocate_pages w2 4096 3 = Some ([(OK, 2), (OK, 2), (OK, 2)], w3)"
proof -
  obtain w1 w2 where w: "File_disposePage sample_fs2 4096 2 = Some (OK, w1)" "File_disposePage w1 4096 2 = Some (OK, w2)"
     "\<forall>n. \<exists>w3. allocate_pages w2 4096 n = Some (replicate n (OK, 2), w3)"
    using file_double_dispose [OF sample_fs2_inv(1), of 2] sample_fs2_inv(3) by auto
  then obtain w3 where "allocate_pages w2 4096 3 = Some (replicate 3 (OK, 2), w3)" by blast
  then show ?thesis using w(1,2) by (simp add: numeral_3_eq_3)
qed

text \<open>
  A page read after a write gives what was written, and writing one page changes no
  other page of this or any other open file.
\<close>

theorem file_write_read:
  assumes "fs_inv w" "disk_page w f n = Some p" "1 \<le> n" "disk_page w g m = Some q" "1 \<le> m"
  shows "\<exists>w' b. File_writePage w f n (Some pg) = Some (OK, w') \<and> fs_inv w' \<and> File_readPage w' g m (Some buf) = Some (OK, b) \<and>
     page_img b = (if (g, m) = (f, n) then page_img pg else q)"
  by (rule dev.read_after_write [OF assms])

theorem file_write_read_witness:
  "\<exists>w' b. File_writePage sample_fs2 4096 1 (Some (\<lambda>_. 7)) = Some (OK, w') \<and> File_readPage w' 4096 1 (Some zero_mem) = Some (OK, b) \<and>
     page_img b = page_img (\<lambda>_. 7)"
proof -
  obtain p where p: "disk_page sample_fs2 4096 1 = Some p" using sample_fs2_disk [of 1] by auto
  have "fs_inv sample_fs2" using sample_fs2_inv(1) by (simp add: file_inv_def)
  from file_write_read [OF this p _ p, of "\<lambda>_. 7" zero_mem] show ?thesis by auto
qed

end
