(* ===== verification/BufCorrect.thy ===== *)
theory BufCorrect
  imports Buf FileCorrect
begin

text \<open>
  The invariant of the buffer manager and the correctness of frame allocation and of
  \<open>readPage\<close>. \<open>buf_inv\<close> ties the hash table, the frame descriptors and the files together;
  \<open>coherent\<close> says that a clean page nobody uses equals its disk copy; \<open>lpage\<close> is the
  contents of a page as clients see it, in the pool or on disk. The clock algorithm is
  shown to find a frame within \<open>2 * numBufs\<close> steps exactly when one is unpinned.
\<close>


section \<open>Files with a well-formed free list\<close>

definition fs_ok :: "'a fs_state_scheme \<Rightarrow> bool" where
  "fs_ok w \<longleftrightarrow> fs_inv w \<and> (\<forall>f u. file_of w f = Some u \<longrightarrow> file_ok u)"

lemma fs_ok_file_inv: "fs_ok w \<Longrightarrow> file_of w f \<noteq> None \<Longrightarrow> file_inv f w"
  by (auto simp: fs_ok_def file_inv_def)

lemma used_file: "p \<in> used_pages f w \<Longrightarrow> \<exists>u. file_of w f = Some u \<and> p \<in> in_use u"
  by (auto simp: used_pages_def split: option.splits)

lemma used_disk:
  assumes "fs_ok w" "p \<in> used_pages f w"
  shows "1 \<le> p \<and> disk_page w f p = Some (page_content f w p)"
  using assms used_file [OF assms(2)] has_page_npages
  by (auto simp: fs_ok_def disk_page_def page_content_def in_use_def)

text \<open>A page in use is not on the free list, so writing it keeps the file well formed.\<close>

lemma write_in_use:
  assumes ok: "file_ok u" and p: "p \<in> in_use u"
  shows "file_ok (sys_write u (nat p * 1024) pg) \<and> in_use (sys_write u (nat p * 1024) pg) = in_use u"
proof -
  let ?u = "sys_write u (nat p * 1024) pg"
  have p1: "1 \<le> p" "p < npages u" "p \<notin> set (free_list u)" using in_use_page [OF p] by simp_all
  have keep: "fpage ?u q = fpage u q" if "0 \<le> q" "q < npages u" "q \<noteq> p" for q
    using fpage_write_other [of u q p pg] has_page_npages [OF ok, of q] that p1 by simp
  have h0: "fpage ?u 0 = fpage u 0" using keep [of 0] p1 by simp
  have "nat p * 1024 + 1024 \<le> fsize u" using p1 ok by (simp add: file_ok_def)
  then have sz: "fsize ?u = fsize u" by (simp add: sys_write_size)
  have "set (free_list u) \<subseteq> {2..<npages u}" using ok by (simp add: file_ok_def)
  then have "0 \<le> x \<and> x < npages u \<and> x \<noteq> p" if "x \<in> set (free_list u)" for x using that p1 by auto
  then have "\<forall>x \<in> set (free_list u). fpage ?u x = fpage u x" using keep by blast
  then have "free_chain ?u (nextFree (fpage u 0)) (free_list u)"
    using free_chain_cong [of "free_list u" ?u u] ok by (auto simp: file_ok_def)
  then have "file_ok ?u \<and> free_list ?u = free_list u"
    using ok by (intro file_okI) (simp_all add: h0 sz file_ok_def)
  then show ?thesis by (simp add: in_use_def h0)
qed

lemma write_used:
  assumes ok: "fs_ok w" and p: "p \<in> used_pages f w"
  shows "\<exists>w'. File_writePage w f p (Some pg) = Some (OK, w') \<and> same_files w w' \<and> fs_ok w' \<and>
     (\<forall>g. used_pages g w' = used_pages g w) \<and>
     (\<forall>g q. disk_page w' g q = (if g = f \<and> q = p then Some (page_img pg) else disk_page w g q))"
proof -
  obtain u where u: "file_of w f = Some u" "p \<in> in_use u" using used_file [OF p] by blast
  have d: "1 \<le> p" "disk_page w f p = Some (page_content f w p)" using used_disk [OF ok p] by simp_all
  have inv: "fs_inv w" "file_ok u" using ok u by (auto simp: fs_ok_def)
  obtain w1 where w1: "File_intwrite w f p pg = Some (OK, w1)" "same_files w w1"
      "\<forall>g. file_of w1 g = (if g = f then Some (sys_write u (nat p * 1024) pg) else file_of w g)"
    using intwrite_ok [OF u(1) _ inv(1), of p pg] d(1) by auto
  then have wr: "File_writePage w f p (Some pg) = Some (OK, w1)" using d(1) by (simp add: File_writePage_def)
  then have "\<forall>g q. disk_page w1 g q = (if g = f \<and> q = p then Some (page_img pg) else disk_page w g q)"
    using writePage_device [OF d(2,1) inv(1), of pg] by auto
  moreover have "fs_ok w1" using w1(3) ok write_in_use [OF inv(2) u(2), of pg] same_files_inv [OF w1(2)]
    by (auto simp: fs_ok_def split: if_splits)
  moreover have "used_pages g w1 = used_pages g w" for g
    using w1(3) u write_in_use [OF inv(2) u(2), of pg] by (simp add: used_pages_def)
  ultimately show ?thesis using wr w1(2) by blast
qed

text \<open>Only the files, descriptors and file objects count for the view of the disk.\<close>

definition fs_view :: "'a fs_state_scheme \<Rightarrow> (string \<Rightarrow> ufile option) \<times> string option list \<times> (ptr \<Rightarrow> File option)" where
  "fs_view w = (disk w, fds w, files w)"

lemma fs_view_fields [simp]:
  "fs_view (w\<lparr>clockHand := a\<rparr>) = fs_view w" "fs_view (w\<lparr>hashTable := b\<rparr>) = fs_view w"
  "fs_view (w\<lparr>bufTable := c\<rparr>) = fs_view w" "fs_view (w\<lparr>bufPool := d\<rparr>) = fs_view w"
  "fs_view (w\<lparr>bufStats := e\<rparr>) = fs_view w" "fs_view (w\<lparr>numBufs := n\<rparr>) = fs_view w"
  by (simp_all add: fs_view_def)

lemma fs_view_cong:
  assumes "fs_view w = fs_view w'"
  shows "file_name w = file_name w'" "file_of w = file_of w'" "disk_page w = disk_page w'"
    "used_pages f w = used_pages f w'" "fs_ok w = fs_ok w'" "page_content f w = page_content f w'"
proof -
  have eq: "disk w = disk w'" "fds w = fds w'" "files w = files w'" using assms by (simp_all add: fs_view_def)
  show n: "file_name w = file_name w'" using eq by (simp add: file_name_def fd_name_def fun_eq_iff cong: if_cong)
  then show o: "file_of w = file_of w'" using eq by (intro ext) (simp add: file_of_def)
  show "disk_page w = disk_page w'" using o by (simp add: disk_page_def fun_eq_iff)
  show "used_pages f w = used_pages f w'" "page_content f w = page_content f w'"
    using o by (simp_all add: used_pages_def page_content_def fun_eq_iff)
  show "fs_ok w = fs_ok w'" using o n by (simp add: fs_ok_def fs_inv_def)
qed

lemmas fs_frame_simps [simp] =
  fs_view_cong [OF fs_view_fields(1)] fs_view_cong [OF fs_view_fields(2)] fs_view_cong [OF fs_view_fields(3)]
  fs_view_cong [OF fs_view_fields(4)] fs_view_cong [OF fs_view_fields(5)] fs_view_cong [OF fs_view_fields(6)]


text \<open>What the operations of the buffer manager leave alone: open files, and state the manager does not have.\<close>

definition buf_frame :: "'a buf_state_scheme \<Rightarrow> 'a buf_state_scheme \<Rightarrow> bool" where
  "buf_frame w w' \<longleftrightarrow> disk_frame w w' \<and> buf_state.more w' = buf_state.more w"

lemma buf_frame_refl [simp]: "buf_frame w w"
  by (simp add: buf_frame_def)

lemma buf_frame_trans: "buf_frame w w1 \<Longrightarrow> buf_frame w1 w2 \<Longrightarrow> buf_frame w w2"
  using disk_frame_trans [of w w1 w2] by (simp add: buf_frame_def)

lemma buf_frame_view: "fs_view w1 = fs_view w \<Longrightarrow> buf_state.more w1 = buf_state.more w \<Longrightarrow> buf_frame w w1"
  by (simp add: fs_view_def buf_frame_def disk_frame_def)

lemma buf_frame_fields [simp]:
  "buf_frame w (w1\<lparr>clockHand := a\<rparr>) = buf_frame w w1" "buf_frame w (w1\<lparr>hashTable := b\<rparr>) = buf_frame w w1"
  "buf_frame w (w1\<lparr>bufTable := c\<rparr>) = buf_frame w w1" "buf_frame w (w1\<lparr>bufPool := d\<rparr>) = buf_frame w w1"
  "buf_frame w (w1\<lparr>bufStats := e\<rparr>) = buf_frame w w1" "buf_frame (w\<lparr>bufStats := e\<rparr>) w1 = buf_frame w w1"
  by (simp_all add: buf_frame_def disk_frame_def)


section \<open>The invariant of the buffer manager\<close>

definition desc_key :: "BufDesc \<Rightarrow> ptr \<times> int" where
  "desc_key d = (bd_file d, bd_pageNo d)"

abbreviation frames :: "'a buf_state_scheme \<Rightarrow> nat" where
  "frames w \<equiv> length (bufTable w)"

text \<open>The frame of a page according to the hash table.\<close>

abbreviation frame_of :: "'a buf_state_scheme \<Rightarrow> ptr \<times> int \<Rightarrow> int option" where
  "frame_of w \<equiv> bht_map (hashTable w)"

text \<open>What a frame descriptor has to satisfy on its own.\<close>

definition desc_ok :: "'a buf_state_scheme \<Rightarrow> BufDesc \<Rightarrow> bool" where
  "desc_ok w d \<longleftrightarrow> 0 \<le> pinCnt d \<and>
     (if valid d then bd_file d \<noteq> NULL \<and> bd_pageNo d \<in> used_pages (bd_file d) w else bd_file d = NULL \<and> \<not> dirty d)"

definition buf_inv :: "'a buf_state_scheme \<Rightarrow> bool" where
  "buf_inv w \<longleftrightarrow> 0 < numBufs w \<and> frames w = nat (numBufs w) \<and> length (bufPool w) = frames w \<and> clockHand w < frames w \<and>
     bht_inv (hashTable w) \<and> fs_ok w \<and> (\<forall>i < frames w. desc_ok w (bufTable w ! i)) \<and>
     (\<forall>k i. frame_of w k = Some i \<longleftrightarrow>
        0 \<le> i \<and> nat i < frames w \<and> valid (bufTable w ! nat i) \<and> desc_key (bufTable w ! nat i) = k)"

text \<open>A page nobody has pinned and that is not marked dirty is the same in the pool and on disk.\<close>

definition coherent :: "'a buf_state_scheme \<Rightarrow> bool" where
  "coherent w \<longleftrightarrow> (\<forall>i < frames w. let d = bufTable w ! i in
     valid d \<and> \<not> dirty d \<and> pinCnt d = 0 \<longrightarrow> disk_page w (bd_file d) (bd_pageNo d) = Some (page_img (bufPool w ! i)))"

text \<open>The current contents of a page: in the pool if it is buffered, otherwise on disk.\<close>

definition lpage :: "'a buf_state_scheme \<Rightarrow> ptr \<Rightarrow> int \<Rightarrow> page option" where
  "lpage w f p = (case frame_of w (f, p) of Some i \<Rightarrow> Some (page_img (bufPool w ! nat i)) | None \<Rightarrow> disk_page w f p)"

definition all_pinned :: "'a buf_state_scheme \<Rightarrow> bool" where
  "all_pinned w \<longleftrightarrow> (\<forall>d \<in> set (bufTable w). valid d \<and> pinCnt d \<noteq> 0)"

lemma buf_invI:
  assumes "0 < numBufs w" "frames w = nat (numBufs w)" "length (bufPool w) = frames w" "clockHand w < frames w"
    "bht_inv (hashTable w)" "fs_ok w" "\<And>i. i < frames w \<Longrightarrow> desc_ok w (bufTable w ! i)"
    "\<And>k i. frame_of w k = Some i \<longleftrightarrow>
        0 \<le> i \<and> nat i < frames w \<and> valid (bufTable w ! nat i) \<and> desc_key (bufTable w ! nat i) = k"
  shows "buf_inv w"
  unfolding buf_inv_def using assms by blast

lemma buf_inv_sizes:
  "buf_inv w \<Longrightarrow> 0 < frames w \<and> nat (numBufs w) = frames w \<and> length (bufPool w) = frames w \<and> clockHand w < frames w"
  by (auto simp: buf_inv_def)

lemma buf_inv_pool: "buf_inv w \<Longrightarrow> i < frames w \<Longrightarrow> frame_in_pool w (int i)"
  by (simp add: buf_inv_def frame_in_pool_def)

lemma buf_inv_frame_of: "buf_inv w \<Longrightarrow> frame_of w k = Some i \<longleftrightarrow>
    0 \<le> i \<and> nat i < frames w \<and> valid (bufTable w ! nat i) \<and> desc_key (bufTable w ! nat i) = k"
  unfolding buf_inv_def by blast

lemma buf_inv_desc: "buf_inv w \<Longrightarrow> i < frames w \<Longrightarrow> desc_ok w (bufTable w ! i)"
  by (simp add: buf_inv_def)

lemma valid_frame_of: "buf_inv w \<Longrightarrow> i < frames w \<Longrightarrow> valid (bufTable w ! i) \<Longrightarrow> frame_of w (desc_key (bufTable w ! i)) = Some (int i)"
  by (simp add: buf_inv_frame_of)

text \<open>At most one frame holds a given page.\<close>

lemma frame_unique:
  assumes "buf_inv w" "i < frames w" "j < frames w" "valid (bufTable w ! i)" "valid (bufTable w ! j)"
    "desc_key (bufTable w ! i) = desc_key (bufTable w ! j)"
  shows "i = j"
  using valid_frame_of [OF assms(1,2,4)] valid_frame_of [OF assms(1,3,5)] assms(6) by (metis option.inject of_nat_eq_iff)

section \<open>The clock\<close>

text \<open>\<open>w'\<close> is \<open>w\<close> with the hand moved and some reference bits cleared.\<close>

definition clock_moved :: "'a buf_state_scheme \<Rightarrow> 'a buf_state_scheme \<Rightarrow> bool" where
  "clock_moved w w' \<longleftrightarrow> w' = w\<lparr>clockHand := clockHand w', bufTable := bufTable w', bufStats := bufStats w'\<rparr> \<and>
     map (BufDesc.refbit_update (\<lambda>_. False)) (bufTable w') = map (BufDesc.refbit_update (\<lambda>_. False)) (bufTable w)"

lemma clock_moved_refl [simp]: "clock_moved w w"
  by (simp add: clock_moved_def)

lemma clock_moved_trans: "clock_moved w w' \<Longrightarrow> clock_moved w' w'' \<Longrightarrow> clock_moved w w''"
  by (cases w, cases w', cases w'') (simp add: clock_moved_def)

lemma clock_moved_sel:
  assumes "clock_moved w w'"
  shows "fs_view w' = fs_view w" "numBufs w' = numBufs w" "hashTable w' = hashTable w" "bufPool w' = bufPool w"
    "frames w' = frames w" "buf_state.more w' = buf_state.more w"
proof -
  show "frames w' = frames w" using assms by (auto simp: clock_moved_def dest: map_eq_imp_length_eq)
qed (use assms in \<open>cases w, cases w', simp add: clock_moved_def fs_view_def\<close>)+

lemma clock_moved_desc:
  assumes "clock_moved w w'" "i < frames w"
  shows "bufTable w' ! i = (bufTable w ! i)\<lparr>refbit := refbit (bufTable w' ! i)\<rparr>"
proof -
  have "map (BufDesc.refbit_update (\<lambda>_. False)) (bufTable w') ! i = map (BufDesc.refbit_update (\<lambda>_. False)) (bufTable w) ! i"
    using assms(1) by (simp add: clock_moved_def)
  then have "(bufTable w' ! i)\<lparr>refbit := False\<rparr> = (bufTable w ! i)\<lparr>refbit := False\<rparr>"
    using assms(2) clock_moved_sel(5) [OF assms(1)] by simp
  then show ?thesis by (cases "bufTable w' ! i", cases "bufTable w ! i") simp
qed

lemma clock_moved_fields:
  assumes "clock_moved w w'" "i < frames w"
  shows "valid (bufTable w' ! i) = valid (bufTable w ! i)" "dirty (bufTable w' ! i) = dirty (bufTable w ! i)"
    "pinCnt (bufTable w' ! i) = pinCnt (bufTable w ! i)" "desc_key (bufTable w' ! i) = desc_key (bufTable w ! i)"
    "bd_file (bufTable w' ! i) = bd_file (bufTable w ! i)" "bd_pageNo (bufTable w' ! i) = bd_pageNo (bufTable w ! i)"
    "desc_ok w (bufTable w' ! i) = desc_ok w (bufTable w ! i)"
proof -
  obtain r where "bufTable w' ! i = (bufTable w ! i)\<lparr>refbit := r\<rparr>" using clock_moved_desc [OF assms] by blast
  then show "valid (bufTable w' ! i) = valid (bufTable w ! i)" "dirty (bufTable w' ! i) = dirty (bufTable w ! i)"
    "pinCnt (bufTable w' ! i) = pinCnt (bufTable w ! i)" "desc_key (bufTable w' ! i) = desc_key (bufTable w ! i)"
    "bd_file (bufTable w' ! i) = bd_file (bufTable w ! i)" "bd_pageNo (bufTable w' ! i) = bd_pageNo (bufTable w ! i)"
    "desc_ok w (bufTable w' ! i) = desc_ok w (bufTable w ! i)"
    by (simp_all add: desc_key_def desc_ok_def)
qed

lemma desc_ok_view: "fs_view w' = fs_view w \<Longrightarrow> desc_ok w' d = desc_ok w d"
  using fs_view_cong(4) [of w' w] by (simp add: desc_ok_def)

lemma clock_moved_inv:
  assumes "buf_inv w" "clock_moved w w'" "clockHand w' < frames w"
  shows "buf_inv w'"
  using assms(1,3) clock_moved_sel [OF assms(2)] fs_view_cong(5) [of w' w] desc_ok_view [of w' w]
    clock_moved_fields [OF assms(2)]
  unfolding buf_inv_def by (auto 0 3)

lemma clock_moved_lpage: "clock_moved w w' \<Longrightarrow> lpage w' = lpage w"
  using clock_moved_sel [of w w'] fs_view_cong(3) [of w' w] by (auto simp: lpage_def fun_eq_iff split: option.splits)

lemma clock_moved_coherent: "clock_moved w w' \<Longrightarrow> coherent w' = coherent w"
  using clock_moved_sel [of w w'] fs_view_cong(3) [of w' w] clock_moved_fields [of w w']
  by (auto simp: coherent_def Let_def)

lemma clock_moved_all_pinned: "clock_moved w w' \<Longrightarrow> all_pinned w' = all_pinned w"
  using clock_moved_sel(5) [of w w'] clock_moved_fields [of w w']
  by (auto simp: all_pinned_def all_set_conv_all_nth)

lemma advanceClock_moved: "clock_moved w (advanceClock w)"
  by (simp add: clock_moved_def advanceClock_def)

lemma advanceClock_hand: "buf_inv w \<Longrightarrow> clockHand (advanceClock w) = (clockHand w + 1) mod frames w \<and>
    clockHand (advanceClock w) < frames w"
  by (auto simp: advanceClock_def buf_inv_def)

text \<open>Clearing the reference bit under the hand.\<close>

lemma clear_refbit_moved:
  "clock_moved w (set_desc (w\<lparr>bufStats := s\<rparr>) i ((bufTable w ! i)\<lparr>refbit := b\<rparr>))"
proof (cases "i < frames w")
  case True
  have "map (refbit_update (\<lambda>_. False)) ((bufTable w)[i := (bufTable w ! i)\<lparr>refbit := b\<rparr>]) =
      map (refbit_update (\<lambda>_. False)) (bufTable w)"
    using True by (intro nth_equalityI) (auto simp: nth_list_update)
  then show ?thesis by (simp add: clock_moved_def set_desc_def)
qed (simp add: clock_moved_def set_desc_def list_update_beyond)

text \<open>What one run of the loop ends with.\<close>

definition scan_result :: "'a buf_state_scheme \<Rightarrow> bool \<times> nat \<times> 'a buf_state_scheme \<Rightarrow> bool" where
  "scan_result w r \<longleftrightarrow> (\<exists>w0. clock_moved w w0 \<and> clockHand w0 < frames w \<and>
     (let d = bufTable w0 ! clockHand w0 in case r of (found, left, w') \<Rightarrow>
       if found then valid d \<and> pinCnt d = 0 \<and> (\<exists>t. BufHashTbl_remove (hashTable w) (bd_file d) (bd_pageNo d) = Some (OK, t) \<and>
         w' = w0\<lparr>hashTable := t\<rparr>)
       else w' = w0 \<and> (left \<noteq> 0 \<longrightarrow> \<not> valid d)))"

lemma scan_result_moved:
  assumes "clock_moved w w1" "scan_result w1 r"
  shows "scan_result w r"
  using assms(2) clock_moved_trans [OF assms(1)]
  unfolding scan_result_def clock_moved_sel(3,5) [OF assms(1)] by blast

lemma remove_valid:
  assumes "buf_inv w" "i < frames w" "valid (bufTable w ! i)"
  shows "\<exists>t. BufHashTbl_remove (hashTable w) (bd_file (bufTable w ! i)) (bd_pageNo (bufTable w ! i)) = Some (OK, t) \<and>
     bht_inv t \<and> bht_map t = (frame_of w)(desc_key (bufTable w ! i) := None) \<and> bht_valid t = bht_valid (hashTable w)"
proof -
  let ?k = "desc_key (bufTable w ! i)"
  have "bht_inv (hashTable w)" "frame_of w ?k \<noteq> None" using assms valid_frame_of [OF assms] by (simp_all add: buf_inv_def)
  moreover have "bht_valid (hashTable w) ?k" using calculation bht_map_valid by blast
  ultimately show ?thesis using buf_table.remove_present [of "hashTable w" ?k] by (simp add: desc_key_def)
qed

lemma clock_scan_result: "buf_inv w \<Longrightarrow> \<exists>r. clock_scan w n = Some r \<and> scan_result w r"
proof (induction n arbitrary: w)
  case 0
  then have "scan_result w (False, 0, w)" using buf_inv_sizes [OF 0] by (auto simp: scan_result_def Let_def)
  then show ?case by simp
next
  case (Suc n)
  let ?w = "advanceClock w"
  let ?h = "clockHand ?w"
  let ?d = "bufTable ?w ! ?h"
  let ?w2 = "set_desc (?w\<lparr>bufStats := (bufStats ?w)\<lparr>accesses := accesses (bufStats ?w) + 1\<rparr>\<rparr>) ?h (?d\<lparr>refbit := False\<rparr>)"
  have h: "?h < frames w" using advanceClock_hand [OF Suc.prems] by simp
  note mv = advanceClock_moved [of w]
  have inv: "buf_inv ?w" using clock_moved_inv [OF Suc.prems mv h] .
  have sz: "frames ?w = frames w" "hashTable ?w = hashTable w" using clock_moved_sel [OF mv] by simp_all
  have pool: "frame_in_pool ?w (int ?h)" using buf_inv_pool [OF inv] h sz by simp
  have mv2: "clock_moved ?w ?w2" by (rule clear_refbit_moved)
  then have inv2: "buf_inv ?w2" using clock_moved_inv [OF inv mv2] h sz by (simp add: set_desc_def)
  consider "\<not> valid ?d" | "valid ?d" "\<not> refbit ?d" "pinCnt ?d = 0" | "valid ?d" "\<not> refbit ?d" "pinCnt ?d \<noteq> 0" | "valid ?d" "refbit ?d"
    by blast
  then show ?case
  proof cases
    case 1
    then have "scan_result w (False, n, ?w)" using mv h by (auto simp: scan_result_def Let_def)
    then show ?thesis using 1 pool by (simp add: Let_def)
  next
    case 2
    then obtain t where t: "BufHashTbl_remove (hashTable w) (bd_file ?d) (bd_pageNo ?d) = Some (OK, t)"
      using remove_valid [OF inv, of ?h] h sz by auto
    then have "scan_result w (True, n, ?w\<lparr>hashTable := t\<rparr>)" using mv h 2 by (auto simp: scan_result_def Let_def)
    then show ?thesis using 2 pool t sz by (simp add: Let_def)
  next
    case 3
    then show ?thesis using Suc.IH [OF inv] scan_result_moved [OF mv] pool by (auto simp: Let_def)
  next
    case 4
    then show ?thesis
      using Suc.IH [OF inv2] scan_result_moved [OF clock_moved_trans [OF mv mv2]] pool by (auto simp: Let_def)
  qed
qed

text \<open>The number of iterations until the hand reaches frame \<open>i\<close>, and until it takes it.\<close>

definition hand_dist :: "'a buf_state_scheme \<Rightarrow> nat \<Rightarrow> nat" where
  "hand_dist w i = (if clockHand w < i then i - clockHand w else i + frames w - clockHand w)"

definition scan_cost :: "'a buf_state_scheme \<Rightarrow> nat \<Rightarrow> nat" where
  "scan_cost w i = hand_dist w i +
     (if valid (bufTable w ! i) then if refbit (bufTable w ! i) then frames w else 0 else 1)"

lemma hand_dist_advance:
  assumes "buf_inv w" "i < frames w"
  shows "hand_dist w i = (if clockHand (advanceClock w) = i then 1 else Suc (hand_dist (advanceClock w) i))"
    and "clockHand (advanceClock w) = i \<Longrightarrow> hand_dist (advanceClock w) i = frames w"
    and "1 \<le> hand_dist w i \<and> hand_dist w i \<le> frames w"
proof -
  have "clockHand w < frames w" using assms(1) by (simp add: buf_inv_def)
  then have h: "clockHand (advanceClock w) = (if clockHand w + 1 = frames w then 0 else clockHand w + 1)"
    using advanceClock_hand [OF assms(1)] by auto
  have sz: "frames (advanceClock w) = frames w" by (simp add: advanceClock_def)
  show "hand_dist w i = (if clockHand (advanceClock w) = i then 1 else Suc (hand_dist (advanceClock w) i))"
    using \<open>clockHand w < frames w\<close> assms(2) by (auto simp: hand_dist_def h sz)
  show "clockHand (advanceClock w) = i \<Longrightarrow> hand_dist (advanceClock w) i = frames w"
    by (simp add: hand_dist_def sz)
  show "1 \<le> hand_dist w i \<and> hand_dist w i \<le> frames w"
    using \<open>clockHand w < frames w\<close> assms(2) by (auto simp: hand_dist_def)
qed

lemma scan_cost_bound: "buf_inv w \<Longrightarrow> i < frames w \<Longrightarrow> scan_cost w i \<le> 2 * frames w"
  using hand_dist_advance(3) [of w i] by (auto simp: scan_cost_def)

lemma clock_scan_stops:
  assumes "buf_inv w" "i < frames w" "\<not> valid (bufTable w ! i) \<or> pinCnt (bufTable w ! i) = 0" "scan_cost w i \<le> n"
    and "clock_scan w n = Some (found, left, w')"
  shows "found \<or> left \<noteq> 0"
  using assms
proof (induction n arbitrary: w)
  case 0
  then show ?case using hand_dist_advance(3) [OF 0(1,2)] by (simp add: scan_cost_def)
next
  case (Suc n)
  let ?w = "advanceClock w"
  let ?h = "clockHand ?w"
  let ?d = "bufTable ?w ! ?h"
  define v where "v = set_desc (?w\<lparr>bufStats := (bufStats ?w)\<lparr>accesses := accesses (bufStats ?w) + 1\<rparr>\<rparr>) ?h (?d\<lparr>refbit := False\<rparr>)"
  have h: "?h < frames w" using advanceClock_hand [OF Suc.prems(1)] by simp
  note mv = advanceClock_moved [of w]
  have inv: "buf_inv ?w" using clock_moved_inv [OF Suc.prems(1) mv h] .
  have sz: "bufTable ?w = bufTable w" by (simp add: advanceClock_def)
  have pool: "frame_in_pool ?w (int ?h)" using buf_inv_pool [OF inv] h sz by simp
  have mv2: "clock_moved ?w v" unfolding v_def by (rule clear_refbit_moved)
  then have inv2: "buf_inv v" using clock_moved_inv [OF inv mv2] h sz by (simp add: v_def set_desc_def)
  have v: "frames v = frames w" "hand_dist v i = hand_dist ?w i"
    "bufTable v ! i = (if ?h = i then (bufTable w ! i)\<lparr>refbit := False\<rparr> else bufTable w ! i)"
    using h sz by (simp_all add: v_def set_desc_def hand_dist_def nth_list_update)
  note dist = hand_dist_advance [OF Suc.prems(1,2)]
  have cost: "n \<noteq> 0" if "\<not> valid ?d" using that Suc.prems(4) dist hand_dist_advance(3) [OF inv, of i] Suc.prems(2)
    by (auto simp: scan_cost_def sz split: if_splits)
  have next1: "scan_cost ?w i \<le> n" if "?h \<noteq> i" using that Suc.prems(4) dist(1) by (simp add: scan_cost_def sz split: if_splits)
  have next2: "scan_cost v i \<le> n" if "valid ?d" "refbit ?d"
    using that Suc.prems(2,4) dist(1,2) by (auto simp: scan_cost_def sz v split: if_splits)
  consider "\<not> valid ?d" | "valid ?d" "\<not> refbit ?d" "pinCnt ?d = 0" | "valid ?d" "\<not> refbit ?d" "pinCnt ?d \<noteq> 0" | "valid ?d" "refbit ?d"
    by blast
  then show ?case
  proof cases
    case 1
    then show ?thesis using Suc.prems(5) pool cost by (simp add: Let_def)
  next
    case 2
    then show ?thesis using Suc.prems(5) pool by (auto simp: Let_def split: bind_splits)
  next
    case 3
    then have "?h \<noteq> i" using Suc.prems(3) sz by auto
    moreover have "clock_scan ?w n = Some (found, left, w')" using Suc.prems(5) 3 pool by (simp add: Let_def)
    ultimately show ?thesis using Suc.IH [OF inv] Suc.prems(2,3) next1 sz by simp
  next
    case 4
    then have "clock_scan v n = Some (found, left, w')" using Suc.prems(5) pool by (simp add: Let_def v_def)
    moreover have "\<not> valid (bufTable v ! i) \<or> pinCnt (bufTable v ! i) = 0" using Suc.prems(3) v(3) sz by auto
    ultimately show ?thesis using Suc.IH [OF inv2] Suc.prems(2) next2 [OF 4] v(1) by simp
  qed
qed

lemma clock_scan_pinned:
  assumes "buf_inv w" "all_pinned w"
  shows "\<exists>w'. clock_scan w n = Some (False, 0, w') \<and> clock_moved w w' \<and> clockHand w' < frames w"
proof -
  obtain found left w' where r: "clock_scan w n = Some (found, left, w')" "scan_result w (found, left, w')"
    using clock_scan_result [OF assms(1), of n] by (metis prod.exhaust)
  then obtain w0 where w0: "clock_moved w w0" "clockHand w0 < frames w"
      "if found then valid (bufTable w0 ! clockHand w0) \<and> pinCnt (bufTable w0 ! clockHand w0) = 0
       else w' = w0 \<and> (left \<noteq> 0 \<longrightarrow> \<not> valid (bufTable w0 ! clockHand w0))"
    by (auto simp: scan_result_def Let_def split: if_splits)
  have "bufTable w0 ! clockHand w0 \<in> set (bufTable w0)" using w0(2) clock_moved_sel(5) [OF w0(1)] by simp
  then have "valid (bufTable w0 ! clockHand w0)" "pinCnt (bufTable w0 ! clockHand w0) \<noteq> 0"
    using assms(2) clock_moved_all_pinned [OF w0(1)] by (simp_all add: all_pinned_def)
  then show ?thesis using w0 r by (auto split: if_splits)
qed

section \<open>Frame allocation\<close>

text \<open>
  \<open>w'\<close> is \<open>w\<close> after frame \<open>i\<close> was freed for a new page: nobody had it pinned, its page is
  out of the hash table, and it was written to disk if it was dirty.
\<close>

definition evicted :: "'a buf_state_scheme \<Rightarrow> nat \<Rightarrow> 'a buf_state_scheme \<Rightarrow> bool" where
  "evicted w i w' \<longleftrightarrow> i < frames w \<and> (valid (bufTable w ! i) \<longrightarrow> pinCnt (bufTable w ! i) = 0) \<and>
     numBufs w' = numBufs w \<and> bufPool w' = bufPool w \<and> frames w' = frames w \<and> clockHand w' < frames w \<and>
     (\<forall>j < frames w. \<exists>r. bufTable w' ! j = (bufTable w ! j)\<lparr>refbit := r\<rparr>) \<and>
     bht_inv (hashTable w') \<and> bht_valid (hashTable w') = bht_valid (hashTable w) \<and>
     frame_of w' = (if valid (bufTable w ! i) then (frame_of w)(desc_key (bufTable w ! i) := None) else frame_of w) \<and>
     fs_ok w' \<and> buf_frame w w' \<and> (\<forall>g. used_pages g w' = used_pages g w) \<and>
     (\<not> dirty (bufTable w ! i) \<longrightarrow> fs_view w' = fs_view w) \<and>
     (\<forall>g q. disk_page w' g q = (if dirty (bufTable w ! i) \<and> (g, q) = desc_key (bufTable w ! i)
        then Some (page_img (bufPool w ! i)) else disk_page w g q))"

text \<open>The frame after the clock stopped and before its page is written out.\<close>

lemma clock_scan_victim:
  assumes inv: "buf_inv w" and free: "\<not> all_pinned w"
  shows "\<exists>found left w1. clock_scan w (2 * nat (numBufs w)) = Some (found, left, w1) \<and> (found \<or> left \<noteq> 0) \<and>
     (let i = clockHand w1 in i < frames w \<and> (valid (bufTable w ! i) \<longrightarrow> pinCnt (bufTable w ! i) = 0) \<and>
      fs_view w1 = fs_view w \<and> buf_state.more w1 = buf_state.more w \<and> numBufs w1 = numBufs w \<and> bufPool w1 = bufPool w \<and> frames w1 = frames w \<and>
      (\<forall>j < frames w. \<exists>r. bufTable w1 ! j = (bufTable w ! j)\<lparr>refbit := r\<rparr>) \<and>
      bht_inv (hashTable w1) \<and> bht_valid (hashTable w1) = bht_valid (hashTable w) \<and>
      frame_of w1 = (if valid (bufTable w ! i) then (frame_of w)(desc_key (bufTable w ! i) := None) else frame_of w))"
proof -
  obtain k where k: "k < frames w" "\<not> valid (bufTable w ! k) \<or> pinCnt (bufTable w ! k) = 0"
    using free by (auto simp: all_pinned_def all_set_conv_all_nth)
  obtain found left w1 where r: "clock_scan w (2 * nat (numBufs w)) = Some (found, left, w1)" "scan_result w (found, left, w1)"
    using clock_scan_result [OF inv] by (metis prod.exhaust)
  have stop: "found \<or> left \<noteq> 0"
    using clock_scan_stops [OF inv k scan_cost_bound [OF inv k(1)]] r(1) buf_inv_sizes [OF inv] by simp
  obtain w0 where w0: "clock_moved w w0" "clockHand w0 < frames w" and
      f: "found \<Longrightarrow> valid (bufTable w0 ! clockHand w0) \<and> pinCnt (bufTable w0 ! clockHand w0) = 0 \<and>
        (\<exists>t. BufHashTbl_remove (hashTable w) (bd_file (bufTable w0 ! clockHand w0)) (bd_pageNo (bufTable w0 ! clockHand w0)) = Some (OK, t) \<and>
          w1 = w0\<lparr>hashTable := t\<rparr>)" and
      nf: "\<not> found \<Longrightarrow> w1 = w0 \<and> (left \<noteq> 0 \<longrightarrow> \<not> valid (bufTable w0 ! clockHand w0))"
    using r(2) unfolding scan_result_def Let_def by (auto split: if_splits)
  note fld = clock_moved_fields [OF w0(1,2)] and sel = clock_moved_sel [OF w0(1)]
  have desc: "\<forall>j < frames w. \<exists>r. bufTable w0 ! j = (bufTable w ! j)\<lparr>refbit := r\<rparr>" using clock_moved_desc [OF w0(1)] by blast
  show ?thesis
  proof (cases found)
    case True
    then obtain t where t: "BufHashTbl_remove (hashTable w) (bd_file (bufTable w ! clockHand w0)) (bd_pageNo (bufTable w ! clockHand w0)) = Some (OK, t)"
        "w1 = w0\<lparr>hashTable := t\<rparr>" and v: "valid (bufTable w ! clockHand w0)" "pinCnt (bufTable w ! clockHand w0) = 0"
      using f fld by auto
    then show ?thesis using r(1) stop w0 sel desc remove_valid [OF inv w0(2) v(1)] by (auto simp: Let_def)
  next
    case False
    then have "w1 = w0" "\<not> valid (bufTable w ! clockHand w0)" using nf stop fld by auto
    then show ?thesis using r(1) stop w0 sel desc inv by (auto simp: Let_def buf_inv_def)
  qed
qed

lemma same_files_buf:
  "same_files w w' \<Longrightarrow> numBufs w' = numBufs w \<and> bufPool w' = bufPool w \<and> bufTable w' = bufTable w \<and>
     hashTable w' = hashTable w \<and> clockHand w' = clockHand w \<and> bufStats w' = bufStats w \<and> buf_frame w w'"
  by (cases w, cases w') (simp add: same_files_def buf_frame_def)

lemma allocBuf_pinned:
  assumes "buf_inv w" "all_pinned w"
  shows "\<exists>w'. BufMgr_allocBuf w fr = Some (BUFFEREXCEEDED, fr, w') \<and> clock_moved w w' \<and> buf_inv w'"
  using clock_scan_pinned [OF assms, of "2 * nat (numBufs w)"] clock_moved_inv [OF assms(1)]
  by (auto simp: BufMgr_allocBuf_def)

lemma allocBuf_free:
  assumes inv: "buf_inv w" and free: "\<not> all_pinned w"
  shows "\<exists>i w'. BufMgr_allocBuf w fr = Some (OK, int i, w') \<and> evicted w i w'"
proof -
  obtain found left w1 where s: "clock_scan w (2 * nat (numBufs w)) = Some (found, left, w1)" "found \<or> left \<noteq> 0"
      "clockHand w1 < frames w" "valid (bufTable w ! clockHand w1) \<longrightarrow> pinCnt (bufTable w ! clockHand w1) = 0"
      "fs_view w1 = fs_view w" "numBufs w1 = numBufs w" "bufPool w1 = bufPool w" "frames w1 = frames w"
      "\<forall>j < frames w. \<exists>r. bufTable w1 ! j = (bufTable w ! j)\<lparr>refbit := r\<rparr>"
      "bht_inv (hashTable w1)" "bht_valid (hashTable w1) = bht_valid (hashTable w)"
      "frame_of w1 = (if valid (bufTable w ! clockHand w1) then (frame_of w)(desc_key (bufTable w ! clockHand w1) := None) else frame_of w)"
      "buf_state.more w1 = buf_state.more w"
    using clock_scan_victim [OF assms] unfolding Let_def by blast
  let ?i = "clockHand w1"
  have pool: "frame_in_pool w1 (int ?i)" using s buf_inv_sizes [OF inv] by (simp add: frame_in_pool_def)
  note view = fs_view_cong [OF s(5)]
  have fsel: "buf_frame w w1" using buf_frame_view [OF s(5)] s(13) by simp
  have ok: "fs_ok w1" using view inv by (simp add: buf_inv_def)
  obtain r where d: "bufTable w1 ! ?i = (bufTable w ! ?i)\<lparr>refbit := r\<rparr>" using s(3,9) by blast
  have dok: "desc_ok w (bufTable w ! ?i)" using buf_inv_desc [OF inv s(3)] .
  show ?thesis
  proof (cases "dirty (bufTable w ! ?i)")
    case False
    then have "BufMgr_allocBuf w fr = Some (OK, int ?i, w1)"
      using s(1,2) pool d by (auto simp: BufMgr_allocBuf_def Let_def)
    moreover have "evicted w ?i w1" unfolding evicted_def using False s view ok fsel by simp
    ultimately show ?thesis by blast
  next
    case True
    let ?d = "bufTable w ! ?i"
    let ?w2 = "w1\<lparr>bufStats := (bufStats w1)\<lparr>diskwrites := diskwrites (bufStats w1) + 1\<rparr>\<rparr>"
    have "bd_pageNo ?d \<in> used_pages (bd_file ?d) ?w2" "fs_ok ?w2"
      using True dok view ok by (auto simp: desc_ok_def split: if_splits)
    then obtain w3 where w3: "File_writePage ?w2 (bd_file ?d) (bd_pageNo ?d) (Some (bufPool w ! ?i)) = Some (OK, w3)" "same_files ?w2 w3"
        "fs_ok w3" "\<forall>g. used_pages g w3 = used_pages g ?w2"
        "\<forall>g q. disk_page w3 g q = (if g = bd_file ?d \<and> q = bd_pageNo ?d then Some (page_img (bufPool w ! ?i)) else disk_page ?w2 g q)"
      using write_used by blast
    have "BufMgr_allocBuf w fr = Some (OK, int ?i, w3)"
      using s(1,2,7) pool d True w3(1) by (auto simp: BufMgr_allocBuf_def Let_def)
    moreover have "evicted w ?i w3"
      unfolding evicted_def using True s view ok fsel w3(3-5) same_files_buf [OF w3(2)] buf_frame_trans [OF fsel, of w3] by (simp add: desc_key_def)
    ultimately show ?thesis by blast
  qed
qed

lemma evicted_table:
  assumes "evicted w i w'" "j < frames w"
  shows "valid (bufTable w' ! j) = valid (bufTable w ! j)" "dirty (bufTable w' ! j) = dirty (bufTable w ! j)"
    "pinCnt (bufTable w' ! j) = pinCnt (bufTable w ! j)" "desc_key (bufTable w' ! j) = desc_key (bufTable w ! j)"
    "bd_file (bufTable w' ! j) = bd_file (bufTable w ! j)" "bd_pageNo (bufTable w' ! j) = bd_pageNo (bufTable w ! j)"
    "desc_ok w' (bufTable w' ! j) = desc_ok w (bufTable w ! j)"
proof -
  obtain r where "bufTable w' ! j = (bufTable w ! j)\<lparr>refbit := r\<rparr>" "\<forall>g. used_pages g w' = used_pages g w"
    using assms unfolding evicted_def by blast
  then show "valid (bufTable w' ! j) = valid (bufTable w ! j)" "dirty (bufTable w' ! j) = dirty (bufTable w ! j)"
    "pinCnt (bufTable w' ! j) = pinCnt (bufTable w ! j)" "desc_key (bufTable w' ! j) = desc_key (bufTable w ! j)"
    "bd_file (bufTable w' ! j) = bd_file (bufTable w ! j)" "bd_pageNo (bufTable w' ! j) = bd_pageNo (bufTable w ! j)"
    "desc_ok w' (bufTable w' ! j) = desc_ok w (bufTable w ! j)"
    by (simp_all add: desc_key_def desc_ok_def)
qed

text \<open>The state after page \<open>(f, p)\<close> with contents \<open>pg\<close> was put into frame \<open>i\<close>.\<close>

definition placed :: "'a buf_state_scheme \<Rightarrow> nat \<Rightarrow> ptr \<Rightarrow> int \<Rightarrow> page \<Rightarrow> BufHashTbl \<Rightarrow> 'a buf_state_scheme" where
  "placed w i f p pg t =
     w\<lparr>bufPool := (bufPool w)[i := pg], bufTable := (bufTable w)[i := BufDesc_Set (bufTable w ! i) f p], hashTable := t\<rparr>"

lemma placed_view [simp]: "fs_view (placed w i f p pg t) = fs_view w"
  by (simp add: placed_def)

lemmas placed_fs [simp] = fs_view_cong [OF placed_view] desc_ok_view [OF placed_view]

lemma placed_nth:
  assumes "i < frames w" "length (bufPool w) = frames w" "j < frames w"
  shows "bufTable (placed w i f p pg t) ! j = (if j = i then BufDesc_Set (bufTable w ! i) f p else bufTable w ! j)"
    "bufPool (placed w i f p pg t) ! j = (if j = i then pg else bufPool w ! j)"
  using assms by (simp_all add: placed_def nth_list_update)

lemma BufDesc_Set_sel [simp]:
  "valid (BufDesc_Set d f p)" "desc_key (BufDesc_Set d f p) = (f, p)" "pinCnt (BufDesc_Set d f p) = 1"
  "bd_file (BufDesc_Set d f p) = f" "bd_pageNo (BufDesc_Set d f p) = p" "\<not> dirty (BufDesc_Set d f p)"
  by (simp_all add: BufDesc_Set_def desc_key_def)

lemma placed_frame_of:
  assumes inv: "buf_inv w" and ev: "evicted w i w1" and new: "frame_of w (f, p) = None"
    and t: "bht_map t = (frame_of w1)((f, p) \<mapsto> int i)"
  shows "frame_of (placed w1 i f p pg t) k = Some j \<longleftrightarrow> 0 \<le> j \<and> nat j < frames w1 \<and>
     valid (bufTable (placed w1 i f p pg t) ! nat j) \<and> desc_key (bufTable (placed w1 i f p pg t) ! nat j) = k"
proof -
  have i: "i < frames w" "frames w1 = frames w" "length (bufPool w1) = frames w1"
    using ev buf_inv_sizes [OF inv] by (auto simp: evicted_def)
  have m: "frame_of w1 = (if valid (bufTable w ! i) then (frame_of w)(desc_key (bufTable w ! i) := None) else frame_of w)"
    using ev by (simp add: evicted_def)
  have L: "frame_of (placed w1 i f p pg t) k = (if k = (f, p) then Some (int i)
      else if valid (bufTable w ! i) \<and> k = desc_key (bufTable w ! i) then None else frame_of w k)"
    by (simp add: placed_def t m)
  show ?thesis
  proof (cases "0 \<le> j \<and> nat j < frames w")
    case False
    then show ?thesis using L buf_inv_frame_of [OF inv, of k j] i by auto
  next
    case True
    let ?d = "bufTable w ! nat j"
    have tab: "valid (bufTable (placed w1 i f p pg t) ! nat j) = (nat j = i \<or> valid ?d)"
      "desc_key (bufTable (placed w1 i f p pg t) ! nat j) = (if nat j = i then (f, p) else desc_key ?d)"
      using placed_nth(1) [of i w1 "nat j"] evicted_table [OF ev, of "nat j"] i True by auto
    have A: "frame_of w k = Some j \<longleftrightarrow> valid ?d \<and> desc_key ?d = k" for k using buf_inv_frame_of [OF inv, of k j] True by auto
    show ?thesis
    proof (cases "nat j = i")
      case i_eq: True
      then have "j = int i" using True by auto
      then show ?thesis using L tab A [of k] True i i_eq by (simp split: if_splits) blast
    next
      case i_ne: False
      have u: "\<not> (valid ?d \<and> valid (bufTable w ! i) \<and> desc_key ?d = desc_key (bufTable w ! i))"
        using frame_unique [OF inv, of "nat j" i] True i i_ne by blast
      have "\<not> (valid ?d \<and> desc_key ?d = (f, p))" using A [of "(f, p)"] new by simp
      then show ?thesis using L tab A [of k] True i i_ne u by (cases "k = (f, p)") auto
    qed
  qed
qed

lemma place_page:
  assumes inv: "buf_inv w" and ev: "evicted w i w1" and new: "frame_of w (f, p) = None"
    and key: "f \<noteq> NULL" "p \<in> used_pages f w" "bht_valid (hashTable w) (f, p)"
  shows "\<exists>t. BufHashTbl_insert (hashTable w1) f p (int i) = Some (OK, t) \<and> buf_inv (placed w1 i f p pg t) \<and>
     bht_map t = (frame_of w1)((f, p) \<mapsto> int i) \<and> bht_valid t = bht_valid (hashTable w)"
proof -
  have e: "i < frames w" "frames w1 = frames w" "length (bufPool w1) = frames w" "bht_inv (hashTable w1)"
    "bht_valid (hashTable w1) = bht_valid (hashTable w)" "fs_ok w1" "numBufs w1 = numBufs w" "clockHand w1 < frames w"
    "\<forall>g. used_pages g w1 = used_pages g w"
    using ev buf_inv_sizes [OF inv] by (simp_all add: evicted_def)
  have "frame_of w1 (f, p) = None" using ev new by (simp add: evicted_def)
  then obtain t where t: "BufHashTbl_insert (hashTable w1) f p (int i) = Some (OK, t)" "bht_inv t"
      "bht_map t = (frame_of w1)((f, p) \<mapsto> int i)" "bht_valid t = bht_valid (hashTable w1)"
    using buf_table.insert_new [OF e(4), of "(f, p)" "int i"] key(3) e(5) by auto
  let ?w = "placed w1 i f p pg t"
  have sz: "numBufs ?w = numBufs w" "frames ?w = frames w" "length (bufPool ?w) = frames w" "clockHand ?w < frames w"
    "hashTable ?w = t" using e by (simp_all add: placed_def)
  have "desc_ok ?w (bufTable ?w ! j)" if "j < frames w" for j
  proof (cases "j = i")
    case True
    then show ?thesis using placed_nth(1) [of i w1 j] e that key by (simp add: desc_ok_def [of w1])
  next
    case False
    then show ?thesis
      using placed_nth(1) [of i w1 j] e that evicted_table(7) [OF ev that] buf_inv_desc [OF inv that]
      by simp
  qed
  moreover have "fs_ok ?w" using e(6) by simp
  moreover have "frame_of ?w k = Some j \<longleftrightarrow> 0 \<le> j \<and> nat j < frames ?w \<and> valid (bufTable ?w ! nat j) \<and> desc_key (bufTable ?w ! nat j) = k" for k j
    using placed_frame_of [OF inv ev new t(3), of pg k j] e(2) sz(2) by simp
  moreover have "0 < numBufs w" "frames w = nat (numBufs w)" using inv by (simp_all add: buf_inv_def)
  ultimately have "buf_inv ?w" using sz t(2) by (intro buf_invI) simp_all
  then show ?thesis using t e(5) by auto
qed

section \<open>Reading a page through the pool\<close>

definition pins :: "'a buf_state_scheme \<Rightarrow> ptr \<Rightarrow> int \<Rightarrow> int" where
  "pins w f p = (case frame_of w (f, p) of Some i \<Rightarrow> pinCnt (bufTable w ! nat i) | None \<Rightarrow> 0)"

text \<open>A pinned page stays in its frame with its contents, so pointers to it stay good.\<close>

definition pinned_kept :: "'a buf_state_scheme \<Rightarrow> 'a buf_state_scheme \<Rightarrow> bool" where
  "pinned_kept w w' \<longleftrightarrow> (\<forall>g q i. frame_of w (g, q) = Some i \<and> pinCnt (bufTable w ! nat i) \<noteq> 0 \<longrightarrow>
     frame_of w' (g, q) = Some i \<and> bufPool w' ! nat i = bufPool w ! nat i)"

text \<open>A buffered page is clean if it is marked dirty or the same as on disk: giving it back without a mark loses nothing.\<close>

definition clean :: "'a buf_state_scheme \<Rightarrow> ptr \<Rightarrow> int \<Rightarrow> bool" where
  "clean w f p \<longleftrightarrow> (\<forall>i. frame_of w (f, p) = Some i \<longrightarrow>
     dirty (bufTable w ! nat i) \<or> disk_page w f p = Some (page_img (bufPool w ! nat i)))"

definition clean_kept :: "'a buf_state_scheme \<Rightarrow> 'a buf_state_scheme \<Rightarrow> bool" where
  "clean_kept w w' \<longleftrightarrow> (\<forall>g q. q \<in> used_pages g w \<longrightarrow> clean w g q \<longrightarrow> clean w' g q)"

lemma evicted_frame_of:
  assumes "evicted w i w1" "bht_map t = (frame_of w1)((f, p) \<mapsto> int i)"
  shows "frame_of (placed w1 i f p pg t) k = (if k = (f, p) then Some (int i)
      else if valid (bufTable w ! i) \<and> k = desc_key (bufTable w ! i) then None else frame_of w k)"
  using assms by (simp add: placed_def evicted_def)

lemma other_frame:
  assumes inv: "buf_inv w" and i: "i < frames w" and k: "frame_of w k = Some j" "\<not> (valid (bufTable w ! i) \<and> k = desc_key (bufTable w ! i))"
  shows "nat j \<noteq> i \<and> nat j < frames w"
  using buf_inv_frame_of [OF inv, of k j] k by auto

lemma placed_lpage:
  assumes inv: "buf_inv w" and coh: "coherent w" and ev: "evicted w i w1" and new: "frame_of w (f, p) = None"
    and t: "bht_map t = (frame_of w1)((f, p) \<mapsto> int i)"
  shows "lpage (placed w1 i f p pg t) g q = (if (g, q) = (f, p) then Some (page_img pg) else lpage w g q)"
proof -
  have e: "i < frames w" "frames w1 = frames w" "length (bufPool w1) = frames w1" "bufPool w1 = bufPool w"
    and disk: "\<forall>g q. disk_page w1 g q = (if dirty (bufTable w ! i) \<and> (g, q) = desc_key (bufTable w ! i)
        then Some (page_img (bufPool w ! i)) else disk_page w g q)"
    and pin: "valid (bufTable w ! i) \<longrightarrow> pinCnt (bufTable w ! i) = 0"
    using ev buf_inv_sizes [OF inv] by (auto simp: evicted_def)
  note fo = evicted_frame_of [OF ev t, of pg]
  have dv: "dirty (bufTable w ! i) \<Longrightarrow> valid (bufTable w ! i)"
    using buf_inv_desc [OF inv e(1)] by (auto simp: desc_ok_def split: if_splits)
  show ?thesis
  proof (cases "(g, q) = (f, p)")
    case True
    then show ?thesis using fo [of "(f, p)"] placed_nth(2) [of i w1 i] e by (simp add: lpage_def)
  next
    case ne: False
    show ?thesis
    proof (cases "valid (bufTable w ! i) \<and> (g, q) = desc_key (bufTable w ! i)")
      case True
      then have "lpage w g q = Some (page_img (bufPool w ! i))" using valid_frame_of [OF inv e(1)] by (simp add: lpage_def)
      moreover have "disk_page w1 g q = Some (page_img (bufPool w ! i))"
        using coh e(1) True pin disk by (auto simp: coherent_def Let_def desc_key_def)
      ultimately show ?thesis using True ne fo [of "(g, q)"] by (auto simp: lpage_def)
    next
      case False
      have "disk_page w1 g q = disk_page w g q" using False disk dv by auto
      moreover have "frame_of (placed w1 i f p pg t) (g, q) = frame_of w (g, q)" using False ne fo [of "(g, q)"] by auto
      ultimately show ?thesis
        using ne other_frame [OF inv e(1) _ False] placed_nth(2) [of i w1] e by (auto simp: lpage_def split: option.splits)
    qed
  qed
qed

lemma placed_coherent:
  assumes inv: "buf_inv w" and coh: "coherent w" and ev: "evicted w i w1"
  shows "coherent (placed w1 i f p pg t)"
proof -
  have e: "i < frames w" "frames w1 = frames w" "length (bufPool w1) = frames w1" "bufPool w1 = bufPool w"
    and disk: "\<forall>g q. disk_page w1 g q = (if dirty (bufTable w ! i) \<and> (g, q) = desc_key (bufTable w ! i)
        then Some (page_img (bufPool w ! i)) else disk_page w g q)"
    using ev buf_inv_sizes [OF inv] by (auto simp: evicted_def)
  have dv: "dirty (bufTable w ! i) \<Longrightarrow> valid (bufTable w ! i)"
    using buf_inv_desc [OF inv e(1)] by (auto simp: desc_ok_def split: if_splits)
  have "disk_page w1 (bd_file (bufTable w ! j)) (bd_pageNo (bufTable w ! j)) = Some (page_img (bufPool w ! j))"
    if j: "j < frames w" "j \<noteq> i" "valid (bufTable w ! j)" "\<not> dirty (bufTable w ! j)" "pinCnt (bufTable w ! j) = 0" for j
  proof -
    have "dirty (bufTable w ! i) \<Longrightarrow> desc_key (bufTable w ! j) \<noteq> desc_key (bufTable w ! i)"
      using frame_unique [OF inv j(1) e(1) j(3)] dv j(2) by blast
    then show ?thesis using coh j disk by (auto simp: coherent_def Let_def desc_key_def)
  qed
  moreover have "frames (placed w1 i f p pg t) = frames w" using e by (simp add: placed_def)
  ultimately show ?thesis
    using e placed_nth [of i w1] evicted_table [OF ev] by (auto simp: coherent_def Let_def)
qed

lemma placed_pins:
  assumes inv: "buf_inv w" and ev: "evicted w i w1" and new: "frame_of w (f, p) = None"
    and t: "bht_map t = (frame_of w1)((f, p) \<mapsto> int i)"
  shows "pins (placed w1 i f p pg t) g q = pins w g q + (if (g, q) = (f, p) then 1 else 0)"
    and "pinned_kept w (placed w1 i f p pg t)"
proof -
  have e: "i < frames w" "frames w1 = frames w" "length (bufPool w1) = frames w1" "bufPool w1 = bufPool w"
    and pin: "valid (bufTable w ! i) \<longrightarrow> pinCnt (bufTable w ! i) = 0"
    using ev buf_inv_sizes [OF inv] by (auto simp: evicted_def)
  note fo = evicted_frame_of [OF ev t, of pg]
  note nth = placed_nth [of i w1]
  have same: "frame_of (placed w1 i f p pg t) k = Some j \<and> nat j \<noteq> i \<and> nat j < frames w"
    if "frame_of w k = Some j" "\<not> (valid (bufTable w ! i) \<and> k = desc_key (bufTable w ! i))" for k j
    using that fo [of k] new other_frame [OF inv e(1) that] by auto
  show "pins (placed w1 i f p pg t) g q = pins w g q + (if (g, q) = (f, p) then 1 else 0)"
  proof (cases "valid (bufTable w ! i) \<and> (g, q) = desc_key (bufTable w ! i)")
    case True
    then have "pins w g q = 0" "(g, q) \<noteq> (f, p)" using valid_frame_of [OF inv e(1)] pin new by (auto simp: pins_def)
    then show ?thesis using True fo [of "(g, q)"] by (auto simp: pins_def)
  next
    case False
    show ?thesis
    proof (cases "frame_of w (g, q)")
      case None
      then show ?thesis using fo [of "(g, q)"] nth(1) [of i] e False by (auto simp: pins_def)
    next
      case (Some j)
      then have "(g, q) \<noteq> (f, p)" using new by auto
      then show ?thesis using Some same [OF Some False] nth(1) [of "nat j"] e evicted_table(3) [OF ev, of "nat j"] by (auto simp: pins_def)
    qed
  qed
  show "pinned_kept w (placed w1 i f p pg t)"
    unfolding pinned_kept_def
  proof (intro allI impI)
    fix g q j
    assume a: "frame_of w (g, q) = Some j \<and> pinCnt (bufTable w ! nat j) \<noteq> 0"
    then have "\<not> (valid (bufTable w ! i) \<and> (g, q) = desc_key (bufTable w ! i))" using valid_frame_of [OF inv e(1)] pin by auto
    then show "frame_of (placed w1 i f p pg t) (g, q) = Some j \<and> bufPool (placed w1 i f p pg t) ! nat j = bufPool w ! nat j"
      using same [of "(g, q)" j] a nth(2) [of "nat j"] e by auto
  qed
qed

lemma placed_clean:
  assumes inv: "buf_inv w" and ev: "evicted w i w1" and new: "frame_of w (f, p) = None"
    and t: "bht_map t = (frame_of w1)((f, p) \<mapsto> int i)"
  shows "(g, q) \<noteq> (f, p) \<Longrightarrow> clean w g q \<Longrightarrow> clean (placed w1 i f p pg t) g q"
    and "disk_page w1 f p = Some (page_img pg) \<Longrightarrow> clean (placed w1 i f p pg t) f p"
proof -
  let ?w = "placed w1 i f p pg t"
  have e: "i < frames w" "frames w1 = frames w" "length (bufPool w1) = frames w1" "bufPool w1 = bufPool w"
    and disk: "\<forall>g q. disk_page w1 g q = (if dirty (bufTable w ! i) \<and> (g, q) = desc_key (bufTable w ! i)
        then Some (page_img (bufPool w ! i)) else disk_page w g q)"
    using ev buf_inv_sizes [OF inv] by (auto simp: evicted_def)
  note fo = evicted_frame_of [OF ev t, of pg]
  note nth = placed_nth [of i w1]
  show "disk_page w1 f p = Some (page_img pg) \<Longrightarrow> clean ?w f p"
    using fo [of "(f, p)"] nth [of i] e by (simp add: clean_def)
  assume ne: "(g, q) \<noteq> (f, p)" and cl: "clean w g q"
  have "dirty (bufTable ?w ! nat j) \<or> disk_page ?w g q = Some (page_img (bufPool ?w ! nat j))" if j: "frame_of ?w (g, q) = Some j" for j
  proof -
    have o: "frame_of w (g, q) = Some j" "\<not> (valid (bufTable w ! i) \<and> (g, q) = desc_key (bufTable w ! i))"
      using fo [of "(g, q)"] j ne by (auto split: if_splits)
    have "nat j \<noteq> i" "nat j < frames w" using other_frame [OF inv e(1) o] by auto
    moreover have "disk_page w1 g q = disk_page w g q"
      using disk o(2) buf_inv_desc [OF inv e(1)] by (auto simp: desc_ok_def split: if_splits)
    ultimately show ?thesis
      using cl o(1) nth [of "nat j"] e evicted_table(2) [OF ev, of "nat j"] by (auto simp: clean_def)
  qed
  then show "clean ?w g q" by (simp add: clean_def)
qed

text \<open>A descriptor that keeps its page and its validity.\<close>

lemma set_desc_view [simp]: "fs_view (set_desc w i d) = fs_view w" "fs_view (set_frame w i pg) = fs_view w"
  by (simp_all add: set_desc_def set_frame_def)

lemmas set_desc_fs [simp] = fs_view_cong [OF set_desc_view(1)] desc_ok_view [OF set_desc_view(1)]
  fs_view_cong [OF set_desc_view(2)] desc_ok_view [OF set_desc_view(2)]

lemma set_desc_sel [simp]:
  "hashTable (set_desc w i d) = hashTable w" "bufPool (set_desc w i d) = bufPool w" "frames (set_desc w i d) = frames w"
  "numBufs (set_desc w i d) = numBufs w" "clockHand (set_desc w i d) = clockHand w"
  by (simp_all add: set_desc_def)

lemma set_frame_sel [simp]:
  "hashTable (set_frame w i pg) = hashTable w" "bufTable (set_frame w i pg) = bufTable w"
  "length (bufPool (set_frame w i pg)) = length (bufPool w)"
  "numBufs (set_frame w i pg) = numBufs w" "clockHand (set_frame w i pg) = clockHand w"
  by (simp_all add: set_frame_def)

lemma set_desc_nth: "i < frames w \<Longrightarrow> bufTable (set_desc w i d) ! j = (if j = i then d else bufTable w ! j)"
  by (simp add: set_desc_def nth_list_update)

lemma set_desc_inv:
  assumes "buf_inv w" "i < frames w" "valid d = valid (bufTable w ! i)" "desc_key d = desc_key (bufTable w ! i)" "desc_ok w d"
  shows "buf_inv (set_desc w i d)"
proof (rule buf_invI)
  fix k j
  show "frame_of (set_desc w i d) k = Some j \<longleftrightarrow> 0 \<le> j \<and> nat j < frames (set_desc w i d) \<and>
      valid (bufTable (set_desc w i d) ! nat j) \<and> desc_key (bufTable (set_desc w i d) ! nat j) = k"
    using buf_inv_frame_of [OF assms(1), of k j] assms by (simp add: set_desc_nth)
qed (use assms buf_inv_desc [OF assms(1)] in \<open>auto simp: buf_inv_def set_desc_nth\<close>)

lemma set_desc_lpage: "lpage (set_desc w i d) = lpage w"
  by (simp add: lpage_def fun_eq_iff split: option.splits)

lemma set_desc_coherent:
  assumes "coherent w" "i < frames w" "valid d \<Longrightarrow> \<not> dirty d \<Longrightarrow> pinCnt d = 0 \<Longrightarrow>
      disk_page w (bd_file d) (bd_pageNo d) = Some (page_img (bufPool w ! i))"
  shows "coherent (set_desc w i d)"
  using assms by (auto simp: coherent_def Let_def set_desc_nth)

lemma set_desc_pins:
  assumes inv: "buf_inv w" and i: "i < frames w" and d: "valid (bufTable w ! i)"
  shows "pins (set_desc w i d) g q = (if (g, q) = desc_key (bufTable w ! i) then pinCnt d else pins w g q)"
proof (cases "frame_of w (g, q)")
  case None
  then show ?thesis using valid_frame_of [OF inv i d] by (auto simp: pins_def)
next
  case (Some j)
  then have "nat j = i \<longleftrightarrow> (g, q) = desc_key (bufTable w ! i)"
    using buf_inv_frame_of [OF inv, of "(g, q)" j] frame_unique [OF inv _ i _ d, of "nat j"] by auto
  then show ?thesis using Some i by (auto simp: pins_def set_desc_nth)
qed

text \<open>A buffered page: its frame.\<close>

lemma buffered:
  assumes "buf_inv w" "frame_of w (f, p) = Some j"
  obtains i where "j = int i" "i < frames w" "valid (bufTable w ! i)" "desc_key (bufTable w ! i) = (f, p)"
    "bd_file (bufTable w ! i) = f" "bd_pageNo (bufTable w ! i) = p" "desc_ok w (bufTable w ! i)" "frame_in_pool w (int i)"
    "BufHashTbl_lookup (hashTable w) f p dflt = Some (OK, int i)"
proof -
  have j: "0 \<le> j" "nat j < frames w" "valid (bufTable w ! nat j)" "desc_key (bufTable w ! nat j) = (f, p)"
    using buf_inv_frame_of [OF assms(1), of "(f, p)" j] assms(2) by auto
  have "bht_inv (hashTable w)" using assms(1) by (simp add: buf_inv_def)
  then have "BufHashTbl_lookup (hashTable w) f p dflt = Some (OK, j)"
    using buf_table.lookup_present [of "hashTable w" "(f, p)" j dflt] bht_map_valid assms(2) by fastforce
  then show thesis
    using that [of "nat j"] j buf_inv_desc [OF assms(1) j(2)] buf_inv_pool [OF assms(1) j(2)] by (auto simp: desc_key_def)
qed

lemma not_buffered:
  assumes "buf_inv w" "frame_of w (f, p) = None" "bht_valid (hashTable w) (f, p)"
  shows "BufHashTbl_lookup (hashTable w) f p d = Some (HASHNOTFOUND, d)"
  using assms buf_table.lookup_absent [of "hashTable w" "(f, p)" d] by (simp add: buf_inv_def)

lemma readPage_hit:
  assumes inv: "buf_inv w" and hit: "frame_of w (f, p) = Some j"
  shows "\<exists>i w'. BufMgr_readPage w f p pp = Some (OK, Some i, w') \<and> j = int i \<and> i < frames w \<and>
     w' = set_desc w i ((bufTable w ! i)\<lparr>refbit := True, pinCnt := pinCnt (bufTable w ! i) + 1\<rparr>) \<and> buf_inv w' \<and>
     lpage w' = lpage w \<and> (coherent w \<longrightarrow> coherent w') \<and> pinned_kept w w' \<and>
     (\<forall>g q. pins w' g q = pins w g q + (if (g, q) = (f, p) then 1 else 0))"
proof -
  obtain i where i: "j = int i" "i < frames w" "valid (bufTable w ! i)" "desc_key (bufTable w ! i) = (f, p)"
    "desc_ok w (bufTable w ! i)" "frame_in_pool w (int i)" "BufHashTbl_lookup (hashTable w) f p 0 = Some (OK, int i)"
    using buffered [OF inv hit, of 0] by metis
  let ?d = "(bufTable w ! i)\<lparr>refbit := True, pinCnt := pinCnt (bufTable w ! i) + 1\<rparr>"
  have d: "valid ?d" "desc_key ?d = (f, p)" "desc_ok w ?d" "0 \<le> pinCnt (bufTable w ! i)"
    using i by (auto simp: desc_key_def desc_ok_def split: if_splits)
  have "buf_inv (set_desc w i ?d)" using set_desc_inv [OF inv i(2), of ?d] d i by simp
  moreover have "coherent w \<longrightarrow> coherent (set_desc w i ?d)" using set_desc_coherent [OF _ i(2), of ?d] d(4) by simp
  moreover have "pins w f p = pinCnt (bufTable w ! i)" using hit i by (simp add: pins_def)
  then have "pins (set_desc w i ?d) g q = pins w g q + (if (g, q) = (f, p) then 1 else 0)" for g q
    using set_desc_pins [OF inv i(2,3), of ?d g q] i(4) by auto
  moreover have "BufMgr_readPage w f p pp = Some (OK, Some i, set_desc w i ?d)"
    using i by (simp add: BufMgr_readPage_def Let_def)
  ultimately show ?thesis using i set_desc_lpage by (auto simp: pinned_kept_def)
qed

lemma readPage_miss:
  assumes inv: "buf_inv w" and coh: "coherent w" and miss: "frame_of w (f, p) = None" and free: "\<not> all_pinned w"
    and key: "f \<noteq> NULL" "p \<in> used_pages f w" "bht_valid (hashTable w) (f, p)"
  shows "\<exists>i w'. BufMgr_readPage w f p pp = Some (OK, Some i, w') \<and> i < frames w \<and> frame_of w' (f, p) = Some (int i) \<and> buf_inv w' \<and>
     lpage w' = lpage w \<and> coherent w' \<and> pinned_kept w w' \<and>
     (\<forall>g q. pins w' g q = pins w g q + (if (g, q) = (f, p) then 1 else 0)) \<and>
     bht_valid (hashTable w') = bht_valid (hashTable w) \<and> (\<forall>g. used_pages g w' = used_pages g w) \<and>
     buf_frame w w' \<and> frames w' = frames w \<and> numBufs w' = numBufs w \<and>
     ((\<forall>d \<in> set (bufTable w). \<not> dirty d) \<longrightarrow> fs_view w' = fs_view w) \<and> clean_kept w w'"
proof -
  obtain i w1 where a: "BufMgr_allocBuf w 0 = Some (OK, int i, w1)" "evicted w i w1" using allocBuf_free [OF inv free] by blast
  have e: "i < frames w" "frames w1 = frames w" "length (bufPool w1) = frames w" "fs_ok w1" "used_pages f w1 = used_pages f w"
    using a(2) buf_inv_sizes [OF inv] by (simp_all add: evicted_def)
  define w2 where "w2 = w1\<lparr>bufStats := (bufStats w1)\<lparr>diskreads := diskreads (bufStats w1) + 1\<rparr>\<rparr>"
  have ev2: "evicted w i w2" using a(2) by (simp add: evicted_def w2_def)
  have pool: "frame_in_pool w1 (int i)" using e by (simp add: frame_in_pool_def)
  have dk: "fs_ok w2" "p \<in> used_pages f w2" using e key by (simp_all add: w2_def)
  obtain b where b: "File_readPage w2 f p (Some (bufPool w2 ! i)) = Some (OK, b)" "disk_page w2 f p = Some (page_img b)"
    using used_disk [OF dk] readPage_device [of w2 f p "page_content f w2 p" "bufPool w2 ! i"] by auto
  obtain t where t: "BufHashTbl_insert (hashTable w2) f p (int i) = Some (OK, t)" "buf_inv (placed w2 i f p b t)"
      "bht_map t = (frame_of w2)((f, p) \<mapsto> int i)" "bht_valid t = bht_valid (hashTable w)"
    using place_page [OF inv ev2 miss key, of b] by blast
  let ?w = "placed w2 i f p b t"
  have "BufMgr_readPage w f p pp = Some (OK, Some i, ?w)"
    using not_buffered [OF inv miss key(3), of 0] a(1) pool b(1) t(1)
    by (simp add: BufMgr_readPage_def Let_def w2_def [symmetric] set_frame_def set_desc_def placed_def)
  moreover have "lpage w f p = Some (page_img b)"
  proof -
    have "disk_page w f p = disk_page w2 f p \<or> valid (bufTable w ! i) \<and> (f, p) = desc_key (bufTable w ! i)"
      using ev2 buf_inv_desc [OF inv e(1)] by (auto simp: evicted_def desc_ok_def split: if_splits)
    then show ?thesis using miss valid_frame_of [OF inv e(1)] b(2) by (auto simp: lpage_def)
  qed
  then have "lpage ?w = lpage w" using placed_lpage [OF inv coh ev2 miss t(3)] by (auto simp: fun_eq_iff)
  moreover have "frame_of ?w (f, p) = Some (int i)" using evicted_frame_of [OF ev2 t(3)] by simp
  moreover have "hashTable ?w = t" "\<forall>g. used_pages g ?w = used_pages g w" "buf_frame w ?w" "frames ?w = frames w" "numBufs ?w = numBufs w"
    using ev2 by (simp_all add: evicted_def, simp_all add: placed_def)
  moreover have "(\<forall>d \<in> set (bufTable w). \<not> dirty d) \<longrightarrow> fs_view ?w = fs_view w"
    using ev2 e(1) by (auto simp: evicted_def)
  moreover have "clean_kept w ?w"
    using placed_clean(1) [OF inv ev2 miss t(3), of _ _ b] placed_clean(2) [OF inv ev2 miss t(3) b(2)]
    unfolding clean_kept_def by (metis prod.inject)
  ultimately show ?thesis
    using t(2,4) e placed_coherent [OF inv coh ev2] placed_pins [OF inv ev2 miss t(3)]
    by (intro exI [of _ i] exI [of _ ?w]) simp
qed

end
