(* ===== verification/BufOps.thy ===== *)
theory BufOps
  imports BufCorrect
begin

text \<open>
  Correctness of the other operations of the buffer manager (\<open>unPinPage\<close>, stores of a
  client into a pinned page, \<open>flushFile\<close>, \<open>allocPage\<close>, \<open>disposePage\<close>, construction and
  destruction).
\<close>


section \<open>Unpinning and client writes\<close>

lemma unPinPage_absent:
  assumes "buf_inv w" "frame_of w (f, p) = None" "bht_valid (hashTable w) (f, p)"
  shows "BufMgr_unPinPage w f p b = Some (HASHNOTFOUND, w)"
  using not_buffered [OF assms, of 0] by (simp add: BufMgr_unPinPage_def)

text \<open>The descriptor after \<open>unPinPage\<close> and the status it returns.\<close>

definition unpinned :: "BufDesc \<Rightarrow> bool \<Rightarrow> BufDesc" where
  "unpinned d b = (let d = (if b then d\<lparr>dirty := True\<rparr> else d) in if pinCnt d = 0 then d else d\<lparr>pinCnt := pinCnt d - 1\<rparr>)"

lemma unPinPage_present:
  assumes inv: "buf_inv w" and hit: "frame_of w (f, p) = Some j"
  shows "\<exists>i. j = int i \<and> i < frames w \<and> desc_key (bufTable w ! i) = (f, p) \<and>
     BufMgr_unPinPage w f p b = Some (if pinCnt (bufTable w ! i) = 0 then PAGENOTPINNED else OK, set_desc w i (unpinned (bufTable w ! i) b)) \<and>
     buf_inv (set_desc w i (unpinned (bufTable w ! i) b)) \<and>
     lpage (set_desc w i (unpinned (bufTable w ! i) b)) = lpage w \<and>
     (\<forall>g q. pins (set_desc w i (unpinned (bufTable w ! i) b)) g q = (if (g, q) = (f, p) then max 0 (pins w f p - 1) else pins w g q))"
proof -
  obtain i where i: "j = int i" "i < frames w" "valid (bufTable w ! i)" "desc_key (bufTable w ! i) = (f, p)"
    "desc_ok w (bufTable w ! i)" "frame_in_pool w (int i)" "BufHashTbl_lookup (hashTable w) f p 0 = Some (OK, int i)"
    using buffered [OF inv hit, of 0] by metis
  let ?d = "unpinned (bufTable w ! i) b"
  have d: "valid ?d" "desc_key ?d = (f, p)" "desc_ok w ?d"
    using i by (auto simp: desc_key_def desc_ok_def unpinned_def Let_def split: if_splits)
  have pc: "pinCnt ?d = max 0 (pinCnt (bufTable w ! i) - 1)" "pins w f p = pinCnt (bufTable w ! i)"
    using i hit by (auto simp: unpinned_def desc_ok_def pins_def Let_def)
  have "BufMgr_unPinPage w f p b = Some (if pinCnt (bufTable w ! i) = 0 then PAGENOTPINNED else OK, set_desc w i ?d)"
    using i(2,6,7) by (auto simp: BufMgr_unPinPage_def Let_def unpinned_def set_desc_def intro!: buf_state.equality)
  moreover have "buf_inv (set_desc w i ?d)" using set_desc_inv [OF inv i(2), of ?d] d i by simp
  moreover have "pins (set_desc w i ?d) g q = (if (g, q) = (f, p) then max 0 (pins w f p - 1) else pins w g q)" for g q
    using set_desc_pins [OF inv i(2,3), of ?d g q] i(4) pc by auto
  ultimately show ?thesis using i set_desc_lpage by auto
qed

text \<open>A client that pinned a page may store into its frame.\<close>

lemma client_write:
  assumes inv: "buf_inv w" and hit: "frame_of w (f, p) = Some (int i)"
  shows "buf_inv (set_frame w i pg) \<and>
     (\<forall>g q. lpage (set_frame w i pg) g q = (if (g, q) = (f, p) then Some (page_img pg) else lpage w g q)) \<and>
     (coherent w \<longrightarrow> pinCnt (bufTable w ! i) \<noteq> 0 \<longrightarrow> coherent (set_frame w i pg))"
proof -
  have i: "i < frames w" "valid (bufTable w ! i)" "desc_key (bufTable w ! i) = (f, p)" "length (bufPool w) = frames w"
    using buf_inv_frame_of [OF inv, of "(f, p)" "int i"] hit buf_inv_sizes [OF inv] by simp_all
  have nth: "bufPool (set_frame w i pg) ! j = (if j = i then pg else bufPool w ! j)" for j
    using i by (simp add: set_frame_def nth_list_update)
  have "lpage (set_frame w i pg) g q = (if (g, q) = (f, p) then Some (page_img pg) else lpage w g q)" for g q
  proof (cases "frame_of w (g, q)")
    case (Some j)
    then have "nat j = i \<longleftrightarrow> (g, q) = (f, p)" using hit buf_inv_frame_of [OF inv, of "(g, q)" j] i(3) by auto
    then show ?thesis using Some by (auto simp: lpage_def nth)
  qed (use hit in \<open>auto simp: lpage_def\<close>)
  moreover have "buf_inv (set_frame w i pg)"
    using inv buf_inv_frame_of [OF inv] buf_inv_desc [OF inv] by (intro buf_invI) (simp_all add: buf_inv_def)
  ultimately show ?thesis by (auto simp: coherent_def Let_def nth)
qed


section \<open>Flushing a file\<close>

abbreviation dropped :: "BufDesc \<Rightarrow> BufDesc" where
  "dropped d \<equiv> d\<lparr>dirty := False, bd_file := NULL, bd_pageNo := - 1, valid := False\<rparr>"

text \<open>One frame of the file, not pinned: written out if dirty, then given up.\<close>

lemma flush_one:
  assumes inv: "buf_inv w" and coh: "coherent w" and i: "i < frames w"
    and d: "valid (bufTable w ! i)" "pinCnt (bufTable w ! i) = 0" "bd_file (bufTable w ! i) = f"
  shows "\<exists>w'. flush_frames w f (i # is) = flush_frames w' f is \<and> buf_inv w' \<and> coherent w' \<and> lpage w' = lpage w \<and>
     bufTable w' = (bufTable w)[i := dropped (bufTable w ! i)] \<and> numBufs w' = numBufs w \<and> buf_frame w w' \<and>
     (\<forall>g. used_pages g w' = used_pages g w) \<and> (\<forall>g q. g \<noteq> f \<longrightarrow> disk_page w' g q = disk_page w g q) \<and>
     bht_valid (hashTable w') = bht_valid (hashTable w)"
proof -
  let ?d = "bufTable w ! i"
  have dok: "desc_ok w ?d" "frame_in_pool w (int i)" "fs_ok w" using buf_inv_desc [OF inv i] buf_inv_pool [OF inv i] inv by (simp_all add: buf_inv_def)
  have used: "bd_pageNo ?d \<in> used_pages f w" "f \<noteq> NULL" using dok d by (auto simp: desc_ok_def)
  obtain t where t: "BufHashTbl_remove (hashTable w) f (bd_pageNo ?d) = Some (OK, t)" "bht_inv t"
      "bht_map t = (frame_of w)(desc_key ?d := None)" "bht_valid t = bht_valid (hashTable w)"
    using remove_valid [OF inv i d(1)] d(3) by auto
  have "\<exists>w1. (if dirty ?d then do {
               (status, w) \<leftarrow> File_writePage w (bd_file ?d) (bd_pageNo ?d) (Some (bufPool w ! i));
               if status \<noteq> OK then Some (status, w)
               else Some (OK, set_desc w i ((bufTable w ! i)\<lparr>dirty := False\<rparr>))
             }
             else Some (OK, w)) = Some (OK, set_desc w1 i (?d\<lparr>dirty := False\<rparr>)) \<and> same_files w w1 \<and> fs_ok w1 \<and>
         (\<forall>g. used_pages g w1 = used_pages g w) \<and>
         (\<forall>g q. disk_page w1 g q = (if (g, q) = desc_key ?d then Some (page_img (bufPool w ! i)) else disk_page w g q))"
  proof (cases "dirty ?d")
    case True
    obtain w1 where w1: "File_writePage w f (bd_pageNo ?d) (Some (bufPool w ! i)) = Some (OK, w1)" "same_files w w1" "fs_ok w1"
        "\<forall>g. used_pages g w1 = used_pages g w"
        "\<forall>g q. disk_page w1 g q = (if g = f \<and> q = bd_pageNo ?d then Some (page_img (bufPool w ! i)) else disk_page w g q)"
      using write_used [OF dok(3) used(1)] by blast
    then show ?thesis using True d(3) same_files_buf [OF w1(2)] by (auto simp: desc_key_def)
  next
    case False
    have same: "set_desc w i (?d\<lparr>dirty := False\<rparr>) = w"
    proof -
      have "?d\<lparr>dirty := False\<rparr> = ?d" using False by (cases ?d) simp
      then show ?thesis by (simp add: set_desc_def)
    qed
    have "disk_page w f (bd_pageNo ?d) = Some (page_img (bufPool w ! i))"
      using coh i d False by (auto simp: coherent_def Let_def)
    then show ?thesis using False dok same d(3) by (intro exI [of _ w]) (simp add: desc_key_def)
  qed
  then obtain w1 where w1: "(if dirty ?d then do {
               (status, w) \<leftarrow> File_writePage w (bd_file ?d) (bd_pageNo ?d) (Some (bufPool w ! i));
               if status \<noteq> OK then Some (status, w)
               else Some (OK, set_desc w i ((bufTable w ! i)\<lparr>dirty := False\<rparr>))
             }
             else Some (OK, w)) = Some (OK, set_desc w1 i (?d\<lparr>dirty := False\<rparr>))" "same_files w w1" "fs_ok w1"
         "\<forall>g. used_pages g w1 = used_pages g w"
         "\<forall>g q. disk_page w1 g q = (if (g, q) = desc_key ?d then Some (page_img (bufPool w ! i)) else disk_page w g q)"
    by blast
  note sf = same_files_buf [OF w1(2)]
  define w' where "w' = (set_desc w1 i (dropped ?d))\<lparr>hashTable := t\<rparr>"
  have w'sel: "bufTable w' = (bufTable w)[i := dropped ?d]" "numBufs w' = numBufs w" "hashTable w' = t" "bufPool w' = bufPool w"
    "clockHand w' = clockHand w" "buf_frame w w'" "fs_ok w'" "disk_page w' = disk_page w1"
    "\<forall>g. used_pages g w' = used_pages g w"
    using sf w1 by (simp_all add: w'_def set_desc_def)
  have nth: "bufTable w' ! j = (if j = i then dropped ?d else bufTable w ! j)" for j using i w'sel(1) by (simp add: nth_list_update)
  have step: "flush_frames w f (i # is) = flush_frames w' f is"
  proof -
    have "(set_desc (set_desc w1 i (?d\<lparr>dirty := False\<rparr>)\<lparr>hashTable := t\<rparr>) i
       ((bufTable (set_desc w1 i (?d\<lparr>dirty := False\<rparr>)\<lparr>hashTable := t\<rparr>) ! i)\<lparr>bd_file := NULL, bd_pageNo := - 1, valid := False\<rparr>)) = w'"
      using i sf by (simp add: w'_def set_desc_def)
    then show ?thesis
      using w1(1) dok(2) d t(1) sf by (simp add: Let_def)
  qed
  have "buf_inv w'"
  proof (rule buf_invI)
    fix k j
    have "frame_of w' k = Some j \<longleftrightarrow> k \<noteq> desc_key ?d \<and> frame_of w k = Some j" using w'sel(3) t(3) by auto
    also have "\<dots> \<longleftrightarrow> 0 \<le> j \<and> nat j < frames w \<and> nat j \<noteq> i \<and> valid (bufTable w ! nat j) \<and> desc_key (bufTable w ! nat j) = k"
      using buf_inv_frame_of [OF inv, of k j] frame_unique [OF inv i _ d(1), of "nat j"] by auto
    also have "\<dots> \<longleftrightarrow> 0 \<le> j \<and> nat j < frames w' \<and> valid (bufTable w' ! nat j) \<and> desc_key (bufTable w' ! nat j) = k"
      using nth [of "nat j"] w'sel(1) by auto
    finally show "frame_of w' k = Some j \<longleftrightarrow> 0 \<le> j \<and> nat j < frames w' \<and> valid (bufTable w' ! nat j) \<and> desc_key (bufTable w' ! nat j) = k" .
  next
    fix j
    assume "j < frames w'"
    then have "desc_ok w (bufTable w ! j)" using buf_inv_desc [OF inv] w'sel(1) by simp
    then show "desc_ok w' (bufTable w' ! j)" using nth [of j] w'sel(9) d(2) by (auto simp: desc_ok_def split: if_splits)
  qed (use inv w'sel t(2) in \<open>simp_all add: buf_inv_def\<close>)
  moreover have "lpage w' g q = lpage w g q" for g q
    using w'sel(3,4,8) t(3) w1(5) valid_frame_of [OF inv i d(1)] by (auto simp: lpage_def split: option.splits)
  moreover have "coherent w'"
    unfolding coherent_def Let_def
  proof (intro allI impI)
    fix j
    assume j: "j < frames w'" "valid (bufTable w' ! j) \<and> \<not> dirty (bufTable w' ! j) \<and> pinCnt (bufTable w' ! j) = 0"
    then have ne: "j \<noteq> i" "j < frames w" "bufTable w' ! j = bufTable w ! j" using nth [of j] w'sel(1) by (auto split: if_splits)
    then have "desc_key (bufTable w ! j) \<noteq> desc_key ?d" using frame_unique [OF inv _ i _ d(1), of j] j by auto
    then show "disk_page w' (bd_file (bufTable w' ! j)) (bd_pageNo (bufTable w' ! j)) = Some (page_img (bufPool w' ! j))"
      using coh j ne w'sel(4,8) w1(5) by (auto simp: coherent_def Let_def desc_key_def)
  qed
  ultimately show ?thesis
    using step w'sel t(4) w1(5) d(3) by (intro exI [of _ w']) (auto simp: desc_key_def)
qed

definition pinned_in :: "'a buf_state_scheme \<Rightarrow> ptr \<Rightarrow> nat \<Rightarrow> bool" where
  "pinned_in w f i \<longleftrightarrow> valid (bufTable w ! i) \<and> bd_file (bufTable w ! i) = f \<and> pinCnt (bufTable w ! i) \<noteq> 0"

text \<open>What the flush loop keeps, and what it changes: frames of \<open>f\<close> are given up.\<close>

definition flushed :: "'a buf_state_scheme \<Rightarrow> ptr \<Rightarrow> 'a buf_state_scheme \<Rightarrow> bool" where
  "flushed w f w' \<longleftrightarrow> buf_inv w' \<and> coherent w' \<and> lpage w' = lpage w \<and> frames w' = frames w \<and> numBufs w' = numBufs w \<and>
     buf_frame w w' \<and> (\<forall>g. used_pages g w' = used_pages g w) \<and>
     (\<forall>g q. g \<noteq> f \<longrightarrow> disk_page w' g q = disk_page w g q) \<and> bht_valid (hashTable w') = bht_valid (hashTable w) \<and>
     (\<forall>i < frames w. bufTable w' ! i = bufTable w ! i \<or>
        bufTable w' ! i = dropped (bufTable w ! i) \<and> valid (bufTable w ! i) \<and> bd_file (bufTable w ! i) = f \<and> pinCnt (bufTable w ! i) = 0)"

lemma flushed_refl: "buf_inv w \<Longrightarrow> coherent w \<Longrightarrow> flushed w f w"
  by (simp add: flushed_def)

lemma flushed_trans:
  assumes "f \<noteq> NULL" "flushed w f w1" "flushed w1 f w2"
  shows "flushed w f w2"
proof -
  have "bufTable w2 ! i = bufTable w ! i \<or>
      bufTable w2 ! i = dropped (bufTable w ! i) \<and> valid (bufTable w ! i) \<and> bd_file (bufTable w ! i) = f \<and> pinCnt (bufTable w ! i) = 0"
    if "i < frames w" for i
  proof -
    have "i < frames w1" using assms(2) that by (simp add: flushed_def)
    then have "bufTable w2 ! i = bufTable w1 ! i \<or> bufTable w2 ! i = dropped (bufTable w1 ! i) \<and> valid (bufTable w1 ! i) \<and>
        bd_file (bufTable w1 ! i) = f \<and> pinCnt (bufTable w1 ! i) = 0" using assms(3) by (simp add: flushed_def)
    moreover have "bufTable w1 ! i = bufTable w ! i \<or> bufTable w1 ! i = dropped (bufTable w ! i) \<and> valid (bufTable w ! i) \<and>
        bd_file (bufTable w ! i) = f \<and> pinCnt (bufTable w ! i) = 0" using assms(2) that by (simp add: flushed_def)
    ultimately show ?thesis by auto
  qed
  then show ?thesis using assms(2,3) buf_frame_trans [of w w1 w2] by (simp add: flushed_def)
qed

lemma flush_one_flushed:
  assumes "buf_inv w" "coherent w" "i < frames w" "valid (bufTable w ! i)" "pinCnt (bufTable w ! i) = 0" "bd_file (bufTable w ! i) = f"
  shows "\<exists>w'. flush_frames w f (i # is) = flush_frames w' f is \<and> flushed w f w' \<and> bufTable w' = (bufTable w)[i := dropped (bufTable w ! i)]"
proof -
  obtain w' where w': "flush_frames w f (i # is) = flush_frames w' f is" "buf_inv w'" "coherent w'" "lpage w' = lpage w"
     "bufTable w' = (bufTable w)[i := dropped (bufTable w ! i)]" "numBufs w' = numBufs w" "buf_frame w w'"
     "\<forall>g. used_pages g w' = used_pages g w" "\<forall>g q. g \<noteq> f \<longrightarrow> disk_page w' g q = disk_page w g q"
     "bht_valid (hashTable w') = bht_valid (hashTable w)"
    using flush_one [OF assms, of "is"] by blast
  have "bufTable w' ! j = bufTable w ! j \<or> bufTable w' ! j = dropped (bufTable w ! j) \<and> valid (bufTable w ! j) \<and>
      bd_file (bufTable w ! j) = f \<and> pinCnt (bufTable w ! j) = 0" if "j < frames w" for j
    using w'(5) assms(3-6) that by (cases "j = i") simp_all
  then show ?thesis using w' by (intro exI [of _ w']) (simp add: flushed_def)
qed

lemma flush_frames_spec:
  assumes "buf_inv w" "coherent w" "f \<noteq> NULL" "set is \<subseteq> {..<frames w}"
  shows "\<exists>w'. flush_frames w f is = Some (if \<exists>i \<in> set is. pinned_in w f i then PAGEPINNED else OK, w') \<and> flushed w f w' \<and>
     ((\<exists>i \<in> set is. pinned_in w f i) \<or> (\<forall>i \<in> set is. bd_file (bufTable w' ! i) \<noteq> f))"
  using assms
proof (induction "is" arbitrary: w)
  case Nil
  then show ?case by (simp add: flushed_refl)
next
  case (Cons i "is")
  let ?d = "bufTable w ! i"
  have i: "i < frames w" "desc_ok w ?d" "frame_in_pool w (int i)"
    using Cons.prems buf_inv_desc [OF Cons.prems(1), of i] buf_inv_pool [OF Cons.prems(1), of i] by auto
  consider "pinned_in w f i" | "valid ?d" "bd_file ?d = f" "pinCnt ?d = 0" | "bd_file ?d \<noteq> f"
    using i(2) Cons.prems(3) by (auto simp: pinned_in_def desc_ok_def split: if_splits)
  then show ?case
  proof cases
    case 1
    then have "flush_frames w f (i # is) = Some (PAGEPINNED, w)" using i by (auto simp: pinned_in_def Let_def desc_ok_def)
    then show ?thesis using 1 Cons.prems by (auto simp: flushed_refl)
  next
    case 2
    obtain w1 where w1: "flush_frames w f (i # is) = flush_frames w1 f is" "flushed w f w1"
        "bufTable w1 = (bufTable w)[i := dropped ?d]"
      using flush_one_flushed [OF Cons.prems(1,2) i(1) 2(1,3,2)] by blast
    have inv1: "buf_inv w1" "coherent w1" "frames w1 = frames w" using w1(2) by (simp_all add: flushed_def)
    have p1: "pinned_in w1 f j = pinned_in w f j" for j
      using w1(3) i(1) 2 Cons.prems(3) by (cases "j = i") (simp_all add: pinned_in_def)
    obtain w2 where w2: "flush_frames w1 f is = Some (if \<exists>i \<in> set is. pinned_in w f i then PAGEPINNED else OK, w2)" "flushed w1 f w2"
        "(\<exists>i \<in> set is. pinned_in w f i) \<or> (\<forall>i \<in> set is. bd_file (bufTable w2 ! i) \<noteq> f)"
      using Cons.IH [OF inv1(1,2)] Cons.prems(3,4) inv1(3) by (auto simp: p1)
    have "bd_file (bufTable w1 ! i) \<noteq> f" using w1(3) i(1) Cons.prems(3) by simp
    then have "bd_file (bufTable w2 ! i) \<noteq> f" using w2(2) i(1) inv1(3) Cons.prems(3) by (fastforce simp: flushed_def)
    moreover have "\<not> pinned_in w f i" using 2 by (simp add: pinned_in_def)
    ultimately show ?thesis
      using w1(1) w2 flushed_trans [OF Cons.prems(3) w1(2) w2(2)] by (intro exI [of _ w2]) auto
  next
    case 3
    then have "flush_frames w f (i # is) = flush_frames w f is" "\<not> pinned_in w f i"
      using i by (simp_all add: Let_def pinned_in_def)
    moreover obtain w2 where w2: "flush_frames w f is = Some (if \<exists>i \<in> set is. pinned_in w f i then PAGEPINNED else OK, w2)" "flushed w f w2"
        "(\<exists>i \<in> set is. pinned_in w f i) \<or> (\<forall>i \<in> set is. bd_file (bufTable w2 ! i) \<noteq> f)"
      using Cons.IH [OF Cons.prems(1-3)] Cons.prems(4) by auto
    moreover have "bd_file (bufTable w2 ! i) \<noteq> f" using w2(2) i(1) 3 Cons.prems(3) by (auto simp: flushed_def)
    ultimately show ?thesis by (intro exI [of _ w2]) auto
  qed
qed

lemma flushFile_spec:
  assumes "buf_inv w" "coherent w" "f \<noteq> NULL"
  shows "\<exists>w'. BufMgr_flushFile w f = Some (if \<exists>p. 0 < pins w f p then PAGEPINNED else OK, w') \<and> flushed w f w' \<and>
     ((\<exists>p. 0 < pins w f p) \<or> (\<forall>p. frame_of w' (f, p) = None \<and> disk_page w' f p = lpage w f p))"
proof -
  have sz: "nat (numBufs w) = frames w" using buf_inv_sizes [OF assms(1)] by simp
  have pin: "(\<exists>i \<in> set [0..<frames w]. pinned_in w f i) = (\<exists>p. 0 < pins w f p)"
  proof
    assume "\<exists>i \<in> set [0..<frames w]. pinned_in w f i"
    then obtain i where i: "i < frames w" "valid (bufTable w ! i)" "bd_file (bufTable w ! i) = f" "pinCnt (bufTable w ! i) \<noteq> 0"
      by (auto simp: pinned_in_def)
    moreover have "0 \<le> pinCnt (bufTable w ! i)" using buf_inv_desc [OF assms(1) i(1)] by (simp add: desc_ok_def)
    ultimately have "0 < pins w f (bd_pageNo (bufTable w ! i))"
      using valid_frame_of [OF assms(1) i(1,2)] by (simp add: pins_def desc_key_def)
    then show "\<exists>p. 0 < pins w f p" ..
  next
    assume "\<exists>p. 0 < pins w f p"
    then obtain p j where "frame_of w (f, p) = Some j" "0 < pinCnt (bufTable w ! nat j)" by (auto simp: pins_def split: option.splits)
    then show "\<exists>i \<in> set [0..<frames w]. pinned_in w f i"
      using buf_inv_frame_of [OF assms(1), of "(f, p)" j] by (force simp: pinned_in_def desc_key_def)
  qed
  have sub: "set [0..<frames w] \<subseteq> {..<frames w}" by auto
  obtain w' where w': "BufMgr_flushFile w f = Some (if \<exists>p. 0 < pins w f p then PAGEPINNED else OK, w')" "flushed w f w'"
      "(\<exists>p. 0 < pins w f p) \<or> (\<forall>i \<in> set [0..<frames w]. bd_file (bufTable w' ! i) \<noteq> f)"
    using flush_frames_spec [OF assms sub] unfolding pin BufMgr_flushFile_def sz by blast
  have "frame_of w' (f, p) = None \<and> disk_page w' f p = lpage w f p" if "\<forall>i \<in> set [0..<frames w]. bd_file (bufTable w' ! i) \<noteq> f" for p
  proof -
    have "buf_inv w'" "frames w' = frames w" "lpage w' = lpage w" using w'(2) by (simp_all add: flushed_def)
    moreover have "frame_of w' (f, p) = None"
    proof (rule ccontr)
      assume "frame_of w' (f, p) \<noteq> None"
      then obtain j where "frame_of w' (f, p) = Some j" by blast
      then have "nat j < frames w" "bd_file (bufTable w' ! nat j) = f"
        using buf_inv_frame_of [OF calculation(1), of "(f, p)" j] calculation(2) by (auto simp: desc_key_def)
      then show False using that by simp
    qed
    ultimately show ?thesis by (metis lpage_def option.case(1))
  qed
  then show ?thesis using w' by blast
qed


section \<open>Allocating and disposing of pages\<close>

text \<open>A change of the files that keeps every buffered page.\<close>

lemma fs_change:
  assumes inv: "buf_inv w" and sf: "same_files w w1" and ok: "fs_ok w1"
    and keep: "\<And>i. i < frames w \<Longrightarrow> valid (bufTable w ! i) \<Longrightarrow>
      bd_pageNo (bufTable w ! i) \<in> used_pages (bd_file (bufTable w ! i)) w1 \<and>
      disk_page w1 (bd_file (bufTable w ! i)) (bd_pageNo (bufTable w ! i)) = disk_page w (bd_file (bufTable w ! i)) (bd_pageNo (bufTable w ! i))"
  shows "buf_inv w1" "coherent w \<Longrightarrow> coherent w1"
    "disk_page w1 g q = disk_page w g q \<Longrightarrow> lpage w1 g q = lpage w g q" "pins w1 = pins w" "all_pinned w1 = all_pinned w"
proof -
  note sel = same_files_buf [OF sf]
  have desc: "desc_ok w1 (bufTable w ! i)" if "i < frames w" for i
    using buf_inv_desc [OF inv that] keep [OF that] by (auto simp: desc_ok_def split: if_splits)
  show "buf_inv w1"
    using inv sel ok desc buf_inv_frame_of [OF inv] by (intro buf_invI) (simp_all add: buf_inv_def)
  show "coherent w \<Longrightarrow> coherent w1" using sel keep by (simp add: coherent_def Let_def)
  show "disk_page w1 g q = disk_page w g q \<Longrightarrow> lpage w1 g q = lpage w g q" using sel by (simp add: lpage_def split: option.splits)
  show "pins w1 = pins w" using sel by (simp add: pins_def fun_eq_iff split: option.splits)
  show "all_pinned w1 = all_pinned w" using sel by (simp add: all_pinned_def)
qed

lemma valid_used: "buf_inv w \<Longrightarrow> i < frames w \<Longrightarrow> valid (bufTable w ! i) \<Longrightarrow>
    bd_pageNo (bufTable w ! i) \<in> used_pages (bd_file (bufTable w ! i)) w"
  using buf_inv_desc [of w i] by (simp add: desc_ok_def)

text \<open>Pages in use with the same contents are the same on disk.\<close>

lemma used_disk_eq:
  "fs_ok w \<Longrightarrow> fs_ok w1 \<Longrightarrow> q \<in> used_pages g w \<Longrightarrow> q \<in> used_pages g w1 \<Longrightarrow> page_content g w1 q = page_content g w q \<Longrightarrow>
   disk_page w1 g q = disk_page w g q"
  by (simp add: used_disk)

text \<open>The page the next allocation returns.\<close>

definition next_page :: "ptr \<Rightarrow> 'a fs_state_scheme \<Rightarrow> int" where
  "next_page f w = (case file_of w f of None \<Rightarrow> 0 | Some u \<Rightarrow> (case free_list u of [] \<Rightarrow> npages u | x # xs \<Rightarrow> x))"

lemma fs_ok_update:
  assumes "fs_ok w" "same_files w w1" "file_of w1 f = Some u1" "file_ok u1" "\<forall>g. g \<noteq> f \<longrightarrow> file_of w1 g = file_of w g"
  shows "fs_ok w1"
  using assms same_files_inv [OF assms(2)] unfolding fs_ok_def by (metis option.inject)

lemma alloc_step:
  assumes ok: "fs_ok w" and f: "file_of w f \<noteq> None" "\<not> file_full f w"
  shows "\<exists>w1. File_allocatePage w f pn = Some (OK, next_page f w, w1) \<and> same_files w w1 \<and> fs_ok w1 \<and> next_page f w \<notin> used_pages f w \<and>
     (\<forall>g. used_pages g w1 = (if g = f then insert (next_page f w) (used_pages f w) else used_pages g w)) \<and>
     (\<forall>g q. q \<in> used_pages g w \<or> g \<noteq> f \<longrightarrow> disk_page w1 g q = disk_page w g q)"
proof -
  have fi: "file_inv f w" using fs_ok_file_inv [OF ok f(1)] .
  obtain p w1 where a: "File_allocatePage w f pn = Some (OK, p, w1)" "same_files w w1" "file_inv f w1" "p \<notin> used_pages f w"
      "used_pages f w1 = insert p (used_pages f w)" "\<forall>q \<in> used_pages f w. page_content f w1 q = page_content f w q"
      "\<forall>g. g \<noteq> f \<longrightarrow> file_of w1 g = file_of w g"
    using allocatePage_fresh [OF fi f(2), of pn] by blast
  have p: "p = next_page f w"
    using file_invD [OF fi f(2)] allocatePage_spec [of w f _ pn] a(1) by (force simp: next_page_def)
  have ok1: "fs_ok w1" using fs_ok_update [OF ok a(2) _ _ a(7)] a(3) by (auto simp: file_inv_def)
  have other: "used_pages g w1 = used_pages g w" "page_content g w1 = page_content g w" if "g \<noteq> f" for g
    using a(7) that by (simp_all add: used_pages_def page_content_def fun_eq_iff)
  have "disk_page w1 g q = disk_page w g q" if "q \<in> used_pages g w \<or> g \<noteq> f" for g q
  proof (cases "g = f")
    case True
    then show ?thesis using used_disk_eq [OF ok ok1, of q g] a(5,6) that by auto
  next
    case False
    then show ?thesis using a(7) by (simp add: disk_page_def)
  qed
  then show ?thesis using a ok1 other p by (intro exI [of _ w1]) auto
qed

lemma allocPage_file:
  assumes inv: "buf_inv w" and f: "file_of w f \<noteq> None" "\<not> file_full f w"
  shows "\<exists>w1. File_allocatePage w f pn = Some (OK, next_page f w, w1) \<and> buf_inv w1 \<and> (coherent w \<longrightarrow> coherent w1) \<and>
     next_page f w \<notin> used_pages f w \<and> frame_of w1 = frame_of w \<and> bufTable w1 = bufTable w \<and> bufPool w1 = bufPool w \<and>
     bht_valid (hashTable w1) = bht_valid (hashTable w) \<and> pins w1 = pins w \<and> all_pinned w1 = all_pinned w \<and> buf_frame w w1 \<and>
     (\<forall>g. used_pages g w1 = (if g = f then insert (next_page f w) (used_pages f w) else used_pages g w)) \<and>
     (\<forall>g q. q \<in> used_pages g w \<or> g \<noteq> f \<longrightarrow> lpage w1 g q = lpage w g q) \<and> clean_kept w w1"
proof -
  have ok: "fs_ok w" using inv by (simp add: buf_inv_def)
  obtain w1 where a: "File_allocatePage w f pn = Some (OK, next_page f w, w1)" "same_files w w1" "fs_ok w1" "next_page f w \<notin> used_pages f w"
     "\<forall>g. used_pages g w1 = (if g = f then insert (next_page f w) (used_pages f w) else used_pages g w)"
     "\<forall>g q. q \<in> used_pages g w \<or> g \<noteq> f \<longrightarrow> disk_page w1 g q = disk_page w g q"
    using alloc_step [OF ok f, of pn] by blast
  note ch = fs_change [OF inv a(2,3)]
  have k: "bd_pageNo (bufTable w ! i) \<in> used_pages (bd_file (bufTable w ! i)) w1 \<and>
      disk_page w1 (bd_file (bufTable w ! i)) (bd_pageNo (bufTable w ! i)) = disk_page w (bd_file (bufTable w ! i)) (bd_pageNo (bufTable w ! i))"
    if "i < frames w" "valid (bufTable w ! i)" for i
    using valid_used [OF inv that] a(5,6) by auto
  have "clean_kept w w1" using a(6) same_files_buf [OF a(2)] by (simp add: clean_kept_def clean_def)
  then show ?thesis
    using a ch(1,2,4,5) [OF k] ch(3) [OF k] same_files_buf [OF a(2)] by (intro exI [of _ w1]) auto
qed

lemma frame_of_used: "buf_inv w \<Longrightarrow> frame_of w (f, p) = Some j \<Longrightarrow> p \<in> used_pages f w"
  using valid_used [of w "nat j"] buf_inv_frame_of [of w "(f, p)" j] by (auto simp: desc_key_def)

lemma allocPage_spec:
  assumes inv: "buf_inv w" and coh: "coherent w" and f: "f \<noteq> NULL" "file_of w f \<noteq> None" "\<not> file_full f w"
    and free: "\<not> all_pinned w" and key: "bht_valid (hashTable w) (f, next_page f w)"
  shows "\<exists>i w'. BufMgr_allocPage w f pn pp = Some (OK, next_page f w, Some i, w') \<and> buf_inv w' \<and> coherent w' \<and>
     next_page f w \<notin> used_pages f w \<and> i < frames w \<and> frame_of w' (f, next_page f w) = Some (int i) \<and> pinned_kept w w' \<and>
     (\<forall>g q. pins w' g q = pins w g q + (if (g, q) = (f, next_page f w) then 1 else 0)) \<and>
     (\<forall>g. used_pages g w' = (if g = f then insert (next_page f w) (used_pages f w) else used_pages g w)) \<and>
     (\<forall>g q. q \<in> used_pages g w \<or> g \<noteq> f \<longrightarrow> lpage w' g q = lpage w g q) \<and>
     buf_frame w w' \<and> bht_valid (hashTable w') = bht_valid (hashTable w) \<and> frames w' = frames w \<and> clean_kept w w'"
proof -
  let ?p = "next_page f w"
  obtain w1 where a: "File_allocatePage w f pn = Some (OK, ?p, w1)" "buf_inv w1" "coherent w1" "?p \<notin> used_pages f w"
     "frame_of w1 = frame_of w" "bufTable w1 = bufTable w" "bufPool w1 = bufPool w" "bht_valid (hashTable w1) = bht_valid (hashTable w)"
     "pins w1 = pins w" "all_pinned w1 = all_pinned w"
     "\<forall>g. used_pages g w1 = (if g = f then insert ?p (used_pages f w) else used_pages g w)"
     "\<forall>g q. q \<in> used_pages g w \<or> g \<noteq> f \<longrightarrow> lpage w1 g q = lpage w g q" "buf_frame w w1" "clean_kept w w1"
    using allocPage_file [OF inv f(2,3), of pn] coh by blast
  obtain i w2 where b: "BufMgr_allocBuf w1 0 = Some (OK, int i, w2)" "evicted w1 i w2"
    using allocBuf_free [OF a(2)] a(10) free by blast
  have e: "i < frames w1" "frames w2 = frames w1" "length (bufPool w2) = frames w2" "\<forall>g. used_pages g w2 = used_pages g w1" "buf_frame w1 w2"
    using b(2) buf_inv_sizes [OF a(2)] by (auto simp: evicted_def)
  have new: "frame_of w1 (f, ?p) = None" using a(4,5) frame_of_used [OF inv, of f ?p] by (cases "frame_of w (f, ?p)") auto
  have used1: "?p \<in> used_pages f w1" and key1: "bht_valid (hashTable w1) (f, ?p)" using a(8,11) key by simp_all
  obtain t where t: "BufHashTbl_insert (hashTable w2) f ?p (int i) = Some (OK, t)" "buf_inv (placed w2 i f ?p (bufPool w2 ! i) t)"
      "bht_map t = (frame_of w2)((f, ?p) \<mapsto> int i)" "bht_valid t = bht_valid (hashTable w1)"
    using place_page [OF a(2) b(2) new f(1) used1 key1, of "bufPool w2 ! i"] by blast
  let ?w = "placed w2 i f ?p (bufPool w2 ! i) t"
  have "BufMgr_allocPage w f pn pp = Some (OK, ?p, Some i, ?w)"
    using a(1) b(1) e t(1) by (simp add: BufMgr_allocPage_def Let_def frame_in_pool_def set_desc_def placed_def)
  moreover have "coherent ?w" by (rule placed_coherent [OF a(2,3) b(2)])
  moreover have "frame_of ?w (f, ?p) = Some (int i)" using evicted_frame_of [OF b(2) t(3)] by simp
  moreover have "pinned_kept w ?w" using placed_pins(2) [OF a(2) b(2) new t(3)] unfolding pinned_kept_def a(5-7) by blast
  moreover have "\<forall>g q. pins ?w g q = pins w g q + (if (g, q) = (f, ?p) then 1 else 0)"
    using placed_pins(1) [OF a(2) b(2) new t(3)] a(9) by simp
  moreover have "\<forall>g. used_pages g ?w = (if g = f then insert ?p (used_pages f w) else used_pages g w)"
    using a(11) e(4) by simp
  moreover have "\<forall>g q. q \<in> used_pages g w \<or> g \<noteq> f \<longrightarrow> lpage ?w g q = lpage w g q"
    using placed_lpage [OF a(2,3) b(2) new t(3)] a(4,12) by auto
  moreover have "buf_frame w ?w" using buf_frame_trans [OF a(13) e(5)] by (simp add: placed_def)
  moreover have "bht_valid (hashTable ?w) = bht_valid (hashTable w)" "frames ?w = frames w" using t(4) a(6,8) e(2) by (simp_all add: placed_def)
  moreover have "clean_kept w ?w"
    using placed_clean(1) [OF a(2) b(2) new t(3), of _ _ "bufPool w2 ! i"] a(4,14)
    unfolding clean_kept_def by (metis prod.inject)
  ultimately show ?thesis using t(2) a(4,6) e(1) by (intro exI [of _ i] exI [of _ ?w]) simp
qed

text \<open>When every frame is pinned the page has been allocated in the file all the same.\<close>

lemma allocPage_exceeded:
  assumes inv: "buf_inv w" and f: "file_of w f \<noteq> None" "\<not> file_full f w" and full: "all_pinned w"
  shows "\<exists>w'. BufMgr_allocPage w f pn pp = Some (BUFFEREXCEEDED, next_page f w, pp, w') \<and> buf_inv w' \<and>
     next_page f w \<notin> used_pages f w \<and> used_pages f w' = insert (next_page f w) (used_pages f w)"
proof -
  obtain w1 where a: "File_allocatePage w f pn = Some (OK, next_page f w, w1)" "buf_inv w1" "next_page f w \<notin> used_pages f w"
     "all_pinned w1 = all_pinned w" "used_pages f w1 = insert (next_page f w) (used_pages f w)"
    using allocPage_file [OF inv f, of pn] by auto
  obtain w2 where b: "BufMgr_allocBuf w1 0 = Some (BUFFEREXCEEDED, 0, w2)" "clock_moved w1 w2" "buf_inv w2"
    using allocBuf_pinned [OF a(2)] a(4) full by blast
  have "used_pages f w2 = used_pages f w1" using fs_view_cong(4) [OF clock_moved_sel(1) [OF b(2)]] .
  then show ?thesis using a b by (simp add: BufMgr_allocPage_def)
qed

text \<open>The frame of a page is cleared, pinned or not, and its entry removed.\<close>

lemma forget_page:
  assumes inv: "buf_inv w" and key: "bht_valid (hashTable w) (f, p)"
  shows "\<exists>t w1. (case frame_of w (f, p) of None \<Rightarrow> w1 = w
       | Some j \<Rightarrow> w1 = set_desc w (nat j) (BufDesc_Clear (bufTable w ! nat j))) \<and>
     (\<exists>st. BufHashTbl_remove (hashTable w1) f p = Some (st, t)) \<and> bht_valid t = bht_valid (hashTable w) \<and>
     bht_map t = (frame_of w)((f, p) := None) \<and> buf_inv (w1\<lparr>hashTable := t\<rparr>) \<and> (coherent w \<longrightarrow> coherent (w1\<lparr>hashTable := t\<rparr>))"
proof (cases "frame_of w (f, p)")
  case None
  have "bht_inv (hashTable w)" using inv by (simp add: buf_inv_def)
  then have "BufHashTbl_remove (hashTable w) f p = Some (HASHTBLERROR, hashTable w)"
    using buf_table.remove_absent [of "hashTable w" "(f, p)"] None key by simp
  then show ?thesis using None inv by (intro exI [of _ "hashTable w"] exI [of _ w]) (auto simp: fun_eq_iff)
next
  case (Some j)
  obtain i where i: "j = int i" "i < frames w" "valid (bufTable w ! i)" "desc_key (bufTable w ! i) = (f, p)"
      "bd_file (bufTable w ! i) = f" "bd_pageNo (bufTable w ! i) = p"
    using buffered [OF inv Some, of 0] by metis
  obtain t where t: "BufHashTbl_remove (hashTable w) f p = Some (OK, t)" "bht_inv t" "bht_map t = (frame_of w)((f, p) := None)"
      "bht_valid t = bht_valid (hashTable w)"
    using remove_valid [OF inv i(2,3)] i by auto
  let ?w = "(set_desc w i (BufDesc_Clear (bufTable w ! i)))\<lparr>hashTable := t\<rparr>"
  have nth: "bufTable ?w ! k = (if k = i then BufDesc_Clear (bufTable w ! i) else bufTable w ! k)" for k
    using i(2) by (simp add: set_desc_def nth_list_update)
  have "buf_inv ?w"
  proof (rule buf_invI)
    fix k m
    have "frame_of ?w k = Some m \<longleftrightarrow> k \<noteq> (f, p) \<and> frame_of w k = Some m" using t(3) by auto
    also have "\<dots> \<longleftrightarrow> 0 \<le> m \<and> nat m < frames w \<and> nat m \<noteq> i \<and> valid (bufTable w ! nat m) \<and> desc_key (bufTable w ! nat m) = k"
      using buf_inv_frame_of [OF inv, of k m] frame_unique [OF inv i(2) _ i(3), of "nat m"] i(4) by auto
    also have "\<dots> \<longleftrightarrow> 0 \<le> m \<and> nat m < frames ?w \<and> valid (bufTable ?w ! nat m) \<and> desc_key (bufTable ?w ! nat m) = k"
      using nth [of "nat m"] by (auto simp: BufDesc_Clear_def set_desc_def)
    finally show "frame_of ?w k = Some m \<longleftrightarrow> 0 \<le> m \<and> nat m < frames ?w \<and> valid (bufTable ?w ! nat m) \<and> desc_key (bufTable ?w ! nat m) = k" .
  next
    fix k
    assume "k < frames ?w"
    then have "desc_ok w (bufTable w ! k)" using buf_inv_desc [OF inv] by (simp add: set_desc_def)
    then show "desc_ok ?w (bufTable ?w ! k)" using nth [of k] by (auto simp: desc_ok_def BufDesc_Clear_def split: if_splits)
  qed (use inv t(2) in \<open>simp_all add: buf_inv_def\<close>)
  moreover have "coherent w \<longrightarrow> coherent ?w"
    using nth by (auto simp: coherent_def Let_def BufDesc_Clear_def)
  ultimately show ?thesis
    using Some t i by (intro exI [of _ t] exI [of _ "set_desc w i (BufDesc_Clear (bufTable w ! i))"]) simp
qed

lemma dispose_step:
  assumes ok: "fs_ok w" and p: "p \<in> used_pages f w" "p \<noteq> 1"
  shows "\<exists>w1. File_disposePage w f p = Some (OK, w1) \<and> same_files w w1 \<and> fs_ok w1 \<and>
     (\<forall>g. used_pages g w1 = (if g = f then used_pages f w - {p} else used_pages g w)) \<and>
     (\<forall>g q. q \<in> used_pages g w1 \<longrightarrow> disk_page w1 g q = disk_page w g q)"
proof -
  have fi: "file_inv f w" using fs_ok_file_inv [OF ok] used_file [OF p(1)] by auto
  obtain w1 where a: "File_disposePage w f p = Some (OK, w1)" "same_files w w1" "file_inv f w1"
      "used_pages f w1 = used_pages f w - {p}" "\<forall>q \<in> used_pages f w - {p}. page_content f w1 q = page_content f w q"
      "\<forall>g. g \<noteq> f \<longrightarrow> file_of w1 g = file_of w g"
    using disposePage_used [OF fi p] by blast
  have ok1: "fs_ok w1" using fs_ok_update [OF ok a(2) _ _ a(6)] a(3) by (auto simp: file_inv_def)
  have other: "used_pages g w1 = used_pages g w" "page_content g w1 = page_content g w" if "g \<noteq> f" for g
    using a(6) that by (simp_all add: used_pages_def page_content_def fun_eq_iff)
  have "disk_page w1 g q = disk_page w g q" if "q \<in> used_pages g w1" for g q
    using used_disk_eq [OF ok ok1 _ that] a(4,5) other that by (cases "g = f") auto
  then show ?thesis using a ok1 other by (intro exI [of _ w1]) auto
qed

lemma disposePage_spec_buf:
  assumes inv: "buf_inv w" and coh: "coherent w" and p: "p \<in> used_pages f w" "p \<noteq> 1" and key: "bht_valid (hashTable w) (f, p)"
  shows "\<exists>w'. BufMgr_disposePage w f p = Some (OK, w') \<and> buf_inv w' \<and> coherent w' \<and> frame_of w' = (frame_of w)((f, p) := None) \<and>
     (\<forall>g. used_pages g w' = (if g = f then used_pages f w - {p} else used_pages g w)) \<and>
     (\<forall>g q. q \<in> used_pages g w \<and> (g, q) \<noteq> (f, p) \<longrightarrow> lpage w' g q = lpage w g q) \<and>
     buf_frame w w' \<and> bht_valid (hashTable w') = bht_valid (hashTable w) \<and> frames w' = frames w"
proof -
  obtain t w1 where a: "case frame_of w (f, p) of None \<Rightarrow> w1 = w | Some j \<Rightarrow> w1 = set_desc w (nat j) (BufDesc_Clear (bufTable w ! nat j))"
     "\<exists>st. BufHashTbl_remove (hashTable w1) f p = Some (st, t)" "bht_map t = (frame_of w)((f, p) := None)"
     "buf_inv (w1\<lparr>hashTable := t\<rparr>)" "coherent (w1\<lparr>hashTable := t\<rparr>)" "bht_valid t = bht_valid (hashTable w)"
    using forget_page [OF inv key] coh by blast
  let ?w = "w1\<lparr>hashTable := t\<rparr>"
  have v: "fs_view ?w = fs_view w" "bufPool ?w = bufPool w" using a(1) by (auto split: option.splits)
  note vc = fs_view_cong [OF v(1)]
  obtain w2 where b: "File_disposePage ?w f p = Some (OK, w2)" "same_files ?w w2" "fs_ok w2"
     "\<forall>g. used_pages g w2 = (if g = f then used_pages f ?w - {p} else used_pages g ?w)"
     "\<forall>g q. q \<in> used_pages g w2 \<longrightarrow> disk_page w2 g q = disk_page ?w g q"
    using dispose_step [of ?w p f] a(4) p vc(4) by (auto simp: buf_inv_def)
  have notp: "frame_of ?w (f, p) = None" using a(3) by simp
  have k: "bd_pageNo (bufTable ?w ! i) \<in> used_pages (bd_file (bufTable ?w ! i)) w2 \<and>
      disk_page w2 (bd_file (bufTable ?w ! i)) (bd_pageNo (bufTable ?w ! i)) = disk_page ?w (bd_file (bufTable ?w ! i)) (bd_pageNo (bufTable ?w ! i))"
    if i: "i < frames ?w" "valid (bufTable ?w ! i)" for i
  proof -
    have "desc_key (bufTable ?w ! i) \<noteq> (f, p)" using valid_frame_of [OF a(4) i] notp by auto
    then have "bd_pageNo (bufTable ?w ! i) \<in> used_pages (bd_file (bufTable ?w ! i)) w2"
      using valid_used [OF a(4) i] b(4) by (auto simp: desc_key_def)
    then show ?thesis using b(5) by blast
  qed
  note ch = fs_change [OF a(4) b(2,3)]
  have lk: "(case frame_of w (f, p) of None \<Rightarrow> BufHashTbl_lookup (hashTable w) f p 0 = Some (HASHNOTFOUND, 0)
      | Some j \<Rightarrow> BufHashTbl_lookup (hashTable w) f p 0 = Some (OK, j) \<and> frame_in_pool w j)"
  proof (cases "frame_of w (f, p)")
    case None
    then show ?thesis using not_buffered [OF inv None key] by simp
  next
    case (Some j)
    obtain i where "j = int i" "frame_in_pool w (int i)" "BufHashTbl_lookup (hashTable w) f p 0 = Some (OK, int i)"
      using buffered [OF inv Some, of 0] by metis
    then show ?thesis using Some by simp
  qed
  have "BufMgr_disposePage w f p = Some (OK, w2)"
    using lk a(1,2) b(1) by (auto simp: BufMgr_disposePage_def split: option.splits)
  moreover have "lpage w2 g q = lpage w g q" if "q \<in> used_pages g w" "(g, q) \<noteq> (f, p)" for g q
  proof -
    have "lpage ?w g q = lpage w g q" using a(3) v(2) vc(3) that by (auto simp: lpage_def split: option.splits)
    moreover have "q \<in> used_pages g w2" using b(4) that vc(4) by auto
    ultimately show ?thesis using ch(3) [OF k] b(5) by metis
  qed
  moreover have "frame_of w2 = (frame_of w)((f, p) := None)" using same_files_buf [OF b(2)] a(3) by simp
  moreover have "\<forall>g. used_pages g w2 = (if g = f then used_pages f w - {p} else used_pages g w)"
    using b(4) vc(4) by simp
  moreover have "buf_frame w ?w" "frames ?w = frames w" using a(1) by (auto simp: set_desc_def split: option.splits)
  then have "buf_frame w w2" "frames w2 = frames w" "bht_valid (hashTable w2) = bht_valid (hashTable w)"
    using buf_frame_trans [of w ?w w2] same_files_buf [OF b(2)] a(6) by simp_all
  ultimately show ?thesis using ch(1,2) [OF k] a(5) by (intro exI [of _ w2]) auto
qed

section \<open>Construction and destruction\<close>

lemma BufMgr_new_inv:
  assumes "fs_ok w" "0 < bufs"
  shows "buf_inv (BufMgr_new w bufs) \<and> coherent (BufMgr_new w bufs) \<and> frame_of (BufMgr_new w bufs) = Map.empty \<and>
     lpage (BufMgr_new w bufs) = disk_page w \<and> fs_view (BufMgr_new w bufs) = fs_view w"
proof -
  let ?w = "BufMgr_new w bufs"
  have "0 \<le> bufs * 6 div 5 * 2 div 2 + 1" using assms(2) by (simp add: pos_imp_zdiv_nonneg_iff)
  then have t: "bht_inv (hashTable ?w)" "frame_of ?w = Map.empty" using bht_new by (auto simp: BufMgr_new_def)
  have v: "fs_view ?w = fs_view w" by (simp add: BufMgr_new_def)
  have nv: "\<not> valid (bufTable ?w ! i) \<and> desc_ok ?w (bufTable ?w ! i)" if "i < frames ?w" for i
    using that by (simp add: BufMgr_new_def desc_ok_def)
  have "buf_inv ?w"
  proof (rule buf_invI)
    show "fs_ok ?w" using assms(1) fs_view_cong(5) [OF v] by simp
  qed (use t nv assms(2) in \<open>auto simp: BufMgr_new_def\<close>)
  moreover have "coherent ?w" by (simp add: coherent_def BufMgr_new_def)
  moreover have "lpage ?w = disk_page w" using t(2) fs_view_cong(3) [OF v] by (simp add: lpage_def fun_eq_iff)
  ultimately show ?thesis using t v by simp
qed

lemma flush_all_spec:
  assumes "fs_ok w" "length (bufPool w) = frames w" "set is \<subseteq> {..<frames w}" "distinct is"
    and "\<And>i. i < frames w \<Longrightarrow> valid (bufTable w ! i) \<Longrightarrow> bd_pageNo (bufTable w ! i) \<in> used_pages (bd_file (bufTable w ! i)) w"
    and "\<And>i j. i < frames w \<Longrightarrow> j < frames w \<Longrightarrow> valid (bufTable w ! i) \<Longrightarrow> valid (bufTable w ! j) \<Longrightarrow>
      desc_key (bufTable w ! i) = desc_key (bufTable w ! j) \<Longrightarrow> i = j"
  shows "\<exists>w'. flush_all w is = Some w' \<and>
     (\<forall>i \<in> set is. valid (bufTable w ! i) \<and> dirty (bufTable w ! i) \<longrightarrow>
        disk_page w' (bd_file (bufTable w ! i)) (bd_pageNo (bufTable w ! i)) = Some (page_img (bufPool w ! i))) \<and>
     (\<forall>g q. (\<forall>i \<in> set is. valid (bufTable w ! i) \<and> dirty (bufTable w ! i) \<longrightarrow> desc_key (bufTable w ! i) \<noteq> (g, q)) \<longrightarrow>
        disk_page w' g q = disk_page w g q)"
  using assms
proof (induction "is" arbitrary: w)
  case (Cons i "is")
  let ?d = "bufTable w ! i"
  have i: "i < frames w" "frame_in_pool w (int i)" using Cons.prems(2,3) by (auto simp: frame_in_pool_def)
  show ?case
  proof (cases "valid ?d \<and> dirty ?d")
    case False
    have sub: "set is \<subseteq> {..<frames w}" "distinct is" using Cons.prems(3,4) by auto
    obtain w' where "flush_all w is = Some w'" and
      1: "\<forall>i \<in> set is. valid (bufTable w ! i) \<and> dirty (bufTable w ! i) \<longrightarrow>
        disk_page w' (bd_file (bufTable w ! i)) (bd_pageNo (bufTable w ! i)) = Some (page_img (bufPool w ! i))" and
      2: "\<forall>g q. (\<forall>i \<in> set is. valid (bufTable w ! i) \<and> dirty (bufTable w ! i) \<longrightarrow> desc_key (bufTable w ! i) \<noteq> (g, q)) \<longrightarrow>
        disk_page w' g q = disk_page w g q"
      using Cons.IH [OF Cons.prems(1,2) sub Cons.prems(5,6)] by blast
    then have "flush_all w (i # is) = Some w'" using False i(2) by (auto simp: Let_def)
    then show ?thesis using 1 2 False by (intro exI [of _ w']) auto
  next
    case True
    obtain w1 where w1: "File_writePage w (bd_file ?d) (bd_pageNo ?d) (Some (bufPool w ! i)) = Some (OK, w1)" "same_files w w1" "fs_ok w1"
        "\<forall>g. used_pages g w1 = used_pages g w"
        "\<forall>g q. disk_page w1 g q = (if g = bd_file ?d \<and> q = bd_pageNo ?d then Some (page_img (bufPool w ! i)) else disk_page w g q)"
      using write_used [OF Cons.prems(1) Cons.prems(5) [OF i(1)]] True by blast
    note sel = same_files_buf [OF w1(2)]
    have sub: "length (bufPool w1) = frames w1" "set is \<subseteq> {..<frames w1}" "distinct is" using Cons.prems(2-4) sel by auto
    have "\<exists>w'. flush_all w1 is = Some w' \<and>
        (\<forall>i \<in> set is. valid (bufTable w1 ! i) \<and> dirty (bufTable w1 ! i) \<longrightarrow>
           disk_page w' (bd_file (bufTable w1 ! i)) (bd_pageNo (bufTable w1 ! i)) = Some (page_img (bufPool w1 ! i))) \<and>
        (\<forall>g q. (\<forall>i \<in> set is. valid (bufTable w1 ! i) \<and> dirty (bufTable w1 ! i) \<longrightarrow> desc_key (bufTable w1 ! i) \<noteq> (g, q)) \<longrightarrow>
           disk_page w' g q = disk_page w1 g q)"
      by (rule Cons.IH [OF w1(3) sub]) (use Cons.prems(5,6) sel w1(4) in auto)
    then obtain w' where w': "flush_all w1 is = Some w'" and
      1: "\<forall>i \<in> set is. valid (bufTable w ! i) \<and> dirty (bufTable w ! i) \<longrightarrow>
        disk_page w' (bd_file (bufTable w ! i)) (bd_pageNo (bufTable w ! i)) = Some (page_img (bufPool w ! i))" and
      2: "\<forall>g q. (\<forall>i \<in> set is. valid (bufTable w ! i) \<and> dirty (bufTable w ! i) \<longrightarrow> desc_key (bufTable w ! i) \<noteq> (g, q)) \<longrightarrow>
        disk_page w' g q = disk_page w1 g q"
      unfolding sel [THEN conjunct2, THEN conjunct1] sel [THEN conjunct2, THEN conjunct2, THEN conjunct1] by blast
    have "desc_key (bufTable w ! j) \<noteq> desc_key ?d" if "j \<in> set is" "valid (bufTable w ! j)" for j
      using that True Cons.prems(6) [of j i] Cons.prems(3,4) by auto
    then have "disk_page w' (bd_file ?d) (bd_pageNo ?d) = disk_page w1 (bd_file ?d) (bd_pageNo ?d)"
      using 2 by (simp add: desc_key_def)
    moreover have "flush_all w (i # is) = Some w'" using True i(2) w1(1) w' by (simp add: Let_def)
    ultimately show ?thesis using 1 2 w1(5) True by (intro exI [of _ w']) (auto simp: desc_key_def)
  qed
qed simp

end
