(* ===== verification/BufProps.thy ===== *)
theory BufProps
  imports BufOps
begin

text \<open>
  The buffer manager as a page cache: the locale \<open>page_cache\<close> states what a client of the pool
  relies on and is interpreted on \<open>readPage\<close>, stores into a frame and \<open>unPinPage\<close>; a sample
  pool; and the properties of the buffer manager.
\<close>


lemma destroy_spec:
  assumes inv: "buf_inv w"
  shows "\<exists>w'. BufMgr_destroy w = Some w' \<and> (\<forall>g q. disk_page w' g q = (if clean w g q then lpage w g q else disk_page w g q))"
proof -
  have sz: "nat (numBufs w) = frames w" "length (bufPool w) = frames w" "fs_ok w" using inv by (auto simp: buf_inv_def)
  have sub: "set [0..<frames w] \<subseteq> {..<frames w}" by auto
  obtain w' where w': "flush_all w [0..<frames w] = Some w'" and
     1: "\<forall>i \<in> set [0..<frames w]. valid (bufTable w ! i) \<and> dirty (bufTable w ! i) \<longrightarrow>
        disk_page w' (bd_file (bufTable w ! i)) (bd_pageNo (bufTable w ! i)) = Some (page_img (bufPool w ! i))" and
     2: "\<forall>g q. (\<forall>i \<in> set [0..<frames w]. valid (bufTable w ! i) \<and> dirty (bufTable w ! i) \<longrightarrow> desc_key (bufTable w ! i) \<noteq> (g, q)) \<longrightarrow>
        disk_page w' g q = disk_page w g q"
    using flush_all_spec [OF sz(3,2) sub distinct_upt valid_used [OF inv] frame_unique [OF inv]] by blast
  have "disk_page w' g q = (if clean w g q then lpage w g q else disk_page w g q)" for g q
  proof (cases "frame_of w (g, q)")
    case None
    then have "\<forall>i \<in> set [0..<frames w]. valid (bufTable w ! i) \<and> dirty (bufTable w ! i) \<longrightarrow> desc_key (bufTable w ! i) \<noteq> (g, q)"
      using valid_frame_of [OF inv] by fastforce
    then show ?thesis using 2 None by (simp add: lpage_def clean_def)
  next
    case (Some j)
    obtain i where i: "j = int i" "i < frames w" "valid (bufTable w ! i)" "desc_key (bufTable w ! i) = (g, q)"
        "bd_file (bufTable w ! i) = g" "bd_pageNo (bufTable w ! i) = q"
      using buffered [OF inv Some, of 0] by metis
    have fr: "frame_of w (g, q) = Some (int i)" using Some i(1) by simp
    show ?thesis
    proof (cases "dirty (bufTable w ! i)")
      case True
      then have "disk_page w' g q = Some (page_img (bufPool w ! i))" using 1 i by auto
      then show ?thesis using fr True by (simp add: lpage_def clean_def)
    next
      case False
      then have "\<forall>k \<in> set [0..<frames w]. valid (bufTable w ! k) \<and> dirty (bufTable w ! k) \<longrightarrow> desc_key (bufTable w ! k) \<noteq> (g, q)"
        using frame_unique [OF inv _ i(2) _ i(3)] i(4) by auto
      then have "disk_page w' g q = disk_page w g q" using 2 by blast
      then show ?thesis using fr False by (auto simp: lpage_def clean_def)
    qed
  qed
  then show ?thesis using w' sz by (auto simp: BufMgr_destroy_def fun_eq_iff)
qed


section \<open>The contract of a page cache\<close>

locale page_cache =
  fixes cinv :: "'s \<Rightarrow> bool"
    and legal :: "'s \<Rightarrow> 'k \<Rightarrow> bool"
    and view :: "'s \<Rightarrow> 'k \<Rightarrow> page option"
    and pinned :: "'s \<Rightarrow> 'k \<Rightarrow> int"
    and fetch :: "'s \<Rightarrow> 'k \<Rightarrow> 's option"
    and store :: "'s \<Rightarrow> 'k \<Rightarrow> page \<Rightarrow> 's"
    and release :: "'s \<Rightarrow> 'k \<Rightarrow> 's option"
  assumes fetch_ok: "cinv s \<Longrightarrow> legal s k \<Longrightarrow> fetch s k = Some s' \<Longrightarrow>
      cinv s' \<and> legal s' = legal s \<and> view s' = view s \<and> pinned s' = (pinned s)(k := pinned s k + 1)"
    and store_ok: "cinv s \<Longrightarrow> 0 < pinned s k \<Longrightarrow>
      cinv (store s k pg) \<and> legal (store s k pg) = legal s \<and> view (store s k pg) = (view s)(k \<mapsto> page_img pg) \<and> pinned (store s k pg) = pinned s"
    and release_ok: "cinv s \<Longrightarrow> 0 < pinned s k \<Longrightarrow>
      \<exists>s'. release s k = Some s' \<and> cinv s' \<and> legal s' = legal s \<and> view s' = view s \<and> pinned s' = (pinned s)(k := pinned s k - 1)"
    and pinned_nonneg: "cinv s \<Longrightarrow> 0 \<le> pinned s k"
begin

text \<open>Read, modify, write: fetch the page, store new contents, give it back as dirty.\<close>

definition update :: "'s \<Rightarrow> 'k \<Rightarrow> page \<Rightarrow> 's option" where
  "update s k pg = do {s \<leftarrow> fetch s k; release (store s k pg) k}"

lemma update_view:
  assumes "cinv s" "legal s k" "update s k pg = Some s'"
  shows "cinv s' \<and> legal s' = legal s \<and> view s' = (view s)(k \<mapsto> page_img pg) \<and> pinned s' = pinned s"
proof -
  obtain s1 where s1: "fetch s k = Some s1" "release (store s1 k pg) k = Some s'"
    using assms(3) by (auto simp: update_def split: bind_splits)
  have f: "cinv s1" "legal s1 = legal s" "view s1 = view s" "pinned s1 = (pinned s)(k := pinned s k + 1)"
    using fetch_ok [OF assms(1,2) s1(1)] by simp_all
  moreover have "0 < pinned s1 k" using f(4) pinned_nonneg [OF assms(1), of k] by simp
  ultimately have st: "cinv (store s1 k pg)" "0 < pinned (store s1 k pg) k" "legal (store s1 k pg) = legal s"
      "view (store s1 k pg) = (view s)(k \<mapsto> page_img pg)" "pinned (store s1 k pg) = (pinned s)(k := pinned s k + 1)"
    using store_ok [of s1 k pg] by simp_all
  then show ?thesis using release_ok [OF st(1,2)] s1(2) by (auto simp: fun_eq_iff)
qed

fun update_many :: "'s \<Rightarrow> ('k \<times> page) list \<Rightarrow> 's option" where
  "update_many s [] = Some s"
| "update_many s (u # us) = do {s \<leftarrow> update s (fst u) (snd u); update_many s us}"

text \<open>A sequence of updates has the effect of the map updates in the same order, whatever is evicted meanwhile.\<close>

lemma update_many_view:
  "cinv s \<Longrightarrow> \<forall>u \<in> set us. legal s (fst u) \<Longrightarrow> update_many s us = Some s' \<Longrightarrow>
   cinv s' \<and> view s' = fold (\<lambda>u m. m(fst u \<mapsto> page_img (snd u))) us (view s) \<and> pinned s' = pinned s"
proof (induction us arbitrary: s)
  case (Cons u us)
  then obtain s1 where s1: "update s (fst u) (snd u) = Some s1" "update_many s1 us = Some s'"
    by (auto split: bind_splits)
  have "cinv s1 \<and> legal s1 = legal s \<and> view s1 = (view s)(fst u \<mapsto> page_img (snd u)) \<and> pinned s1 = pinned s"
    using update_view [OF Cons.prems(1) _ s1(1)] Cons.prems(2) by simp
  then show ?case using Cons.IH [of s1] s1(2) Cons.prems(2) by simp
qed simp

end

text \<open>The client's side of the buffer manager: a store goes to the frame the page is in.\<close>

definition buf_fetch :: "'a buf_state_scheme \<Rightarrow> ptr \<times> int \<Rightarrow> 'a buf_state_scheme option" where
  "buf_fetch w k = (case BufMgr_readPage w (fst k) (snd k) None of
      None \<Rightarrow> None | Some (st, pg, w') \<Rightarrow> if st = OK then Some w' else None)"

definition buf_store :: "'a buf_state_scheme \<Rightarrow> ptr \<times> int \<Rightarrow> page \<Rightarrow> 'a buf_state_scheme" where
  "buf_store w k pg = (case frame_of w k of None \<Rightarrow> w | Some i \<Rightarrow> set_frame w (nat i) pg)"

definition buf_release :: "'a buf_state_scheme \<Rightarrow> ptr \<times> int \<Rightarrow> 'a buf_state_scheme option" where
  "buf_release w k = (case BufMgr_unPinPage w (fst k) (snd k) True of
      None \<Rightarrow> None | Some (st, w') \<Rightarrow> if st = OK then Some w' else None)"

definition buf_legal :: "'a buf_state_scheme \<Rightarrow> ptr \<times> int \<Rightarrow> bool" where
  "buf_legal w k \<longleftrightarrow> fst k \<noteq> NULL \<and> snd k \<in> used_pages (fst k) w \<and> bht_valid (hashTable w) k"

lemma readPage_exceeded:
  assumes "buf_inv w" "frame_of w (f, p) = None" "bht_valid (hashTable w) (f, p)" "all_pinned w"
  shows "\<exists>w'. BufMgr_readPage w f p pp = Some (BUFFEREXCEEDED, pp, w') \<and> buf_inv w' \<and> lpage w' = lpage w \<and>
     (coherent w \<longrightarrow> coherent w')"
  using not_buffered [OF assms(1-3), of 0] allocBuf_pinned [OF assms(1,4), of 0] clock_moved_lpage clock_moved_coherent
  by (fastforce simp: BufMgr_readPage_def)

lemma readPage_ok:
  assumes "buf_inv w" "coherent w" "buf_legal w (f, p)" "frame_of w (f, p) \<noteq> None \<or> \<not> all_pinned w"
  shows "\<exists>i w'. BufMgr_readPage w f p pp = Some (OK, Some i, w') \<and> i < frames w \<and> frame_of w' (f, p) = Some (int i) \<and>
     buf_inv w' \<and> coherent w' \<and> lpage w' = lpage w \<and> pinned_kept w w' \<and>
     (\<forall>g q. pins w' g q = pins w g q + (if (g, q) = (f, p) then 1 else 0)) \<and>
     bht_valid (hashTable w') = bht_valid (hashTable w) \<and> (\<forall>g. used_pages g w' = used_pages g w) \<and> buf_frame w w' \<and> frames w' = frames w \<and> clean_kept w w'"
proof (cases "frame_of w (f, p)")
  case None
  then show ?thesis using readPage_miss [OF assms(1,2) None, of pp] assms(3,4) by (auto simp: buf_legal_def)
next
  case (Some j)
  obtain i w' where h: "BufMgr_readPage w f p pp = Some (OK, Some i, w')" "j = int i" "i < frames w"
     "w' = set_desc w i ((bufTable w ! i)\<lparr>refbit := True, pinCnt := pinCnt (bufTable w ! i) + 1\<rparr>)" "buf_inv w'"
     "lpage w' = lpage w" "coherent w'" "pinned_kept w w'" "\<forall>g q. pins w' g q = pins w g q + (if (g, q) = (f, p) then 1 else 0)"
    using readPage_hit [OF assms(1) Some, of pp] assms(2) by blast
  then have "frame_of w' (f, p) = Some (int i)" "bht_valid (hashTable w') = bht_valid (hashTable w)"
      "\<forall>g. used_pages g w' = used_pages g w" "buf_frame w w'" "frames w' = frames w" "clean_kept w w'"
    using Some by (simp_all add: set_desc_def clean_kept_def clean_def nth_list_update)
  then show ?thesis using h by blast
qed

lemma buf_fetch_ok:
  assumes "buf_inv w \<and> coherent w" "buf_legal w k" "buf_fetch w k = Some w'"
  shows "(buf_inv w' \<and> coherent w') \<and> buf_legal w' = buf_legal w \<and> lpage w' = lpage w \<and>
     (\<forall>j. pins w' (fst j) (snd j) = pins w (fst j) (snd j) + (if j = k then 1 else 0))"
proof -
  obtain f p where k: "k = (f, p)" by (cases k)
  have "frame_of w (f, p) \<noteq> None \<or> \<not> all_pinned w"
    using assms readPage_exceeded [of w f p None] by (auto simp: buf_fetch_def buf_legal_def k)
  then obtain i w1 where r: "BufMgr_readPage w f p None = Some (OK, Some i, w1)" "buf_inv w1" "coherent w1" "lpage w1 = lpage w"
     "\<forall>g q. pins w1 g q = pins w g q + (if (g, q) = (f, p) then 1 else 0)"
     "bht_valid (hashTable w1) = bht_valid (hashTable w)" "\<forall>g. used_pages g w1 = used_pages g w"
    using readPage_ok [of w f p None] assms(1,2) k by blast
  have "w' = w1" using assms(3) r(1) by (simp add: buf_fetch_def k)
  then show ?thesis using r by (auto simp: buf_legal_def fun_eq_iff k)
qed

lemma pins_nonneg: "buf_inv w \<Longrightarrow> 0 \<le> pins w f p"
  using buf_inv_desc [of w] buf_inv_frame_of [of w "(f, p)"] by (auto simp: pins_def desc_ok_def split: option.splits)

lemma pins_frame:
  assumes "buf_inv w" "0 < pins w f p"
  obtains i where "frame_of w (f, p) = Some (int i)" "i < frames w" "valid (bufTable w ! i)" "desc_key (bufTable w ! i) = (f, p)"
    "pinCnt (bufTable w ! i) = pins w f p"
proof -
  obtain j where j: "frame_of w (f, p) = Some j" using assms(2) by (auto simp: pins_def split: option.splits)
  moreover have "pins w f p = pinCnt (bufTable w ! nat j)" using j by (simp add: pins_def)
  moreover have "0 \<le> j" "nat j < frames w" "valid (bufTable w ! nat j)" "desc_key (bufTable w ! nat j) = (f, p)"
    using buf_inv_frame_of [OF assms(1), of "(f, p)" j] j by auto
  ultimately show thesis using that [of "nat j"] by simp
qed

lemma buf_store_ok:
  assumes "buf_inv w \<and> coherent w" "0 < pins w (fst k) (snd k)"
  shows "(buf_inv (buf_store w k pg) \<and> coherent (buf_store w k pg)) \<and> buf_legal (buf_store w k pg) = buf_legal w \<and>
     (\<forall>g q. lpage (buf_store w k pg) g q = (if (g, q) = k then Some (page_img pg) else lpage w g q)) \<and>
     pins (buf_store w k pg) = pins w"
proof -
  obtain i where i: "frame_of w k = Some (int i)" "pinCnt (bufTable w ! i) = pins w (fst k) (snd k)"
    by (rule pins_frame [of w "fst k" "snd k"]) (use assms in auto)
  have st: "buf_store w k pg = set_frame w i pg" using i(1) by (simp add: buf_store_def)
  have "pins (set_frame w i pg) = pins w" by (simp add: pins_def fun_eq_iff split: option.splits)
  moreover have "buf_legal (set_frame w i pg) = buf_legal w" by (simp add: buf_legal_def fun_eq_iff)
  ultimately show ?thesis using client_write [of w "fst k" "snd k" i pg] assms i by (simp add: st)
qed

lemma unPin_dirty_coherent:
  assumes "coherent w" "i < frames w"
  shows "coherent (set_desc w i (unpinned (bufTable w ! i) True))"
  by (rule set_desc_coherent [OF assms]) (simp add: unpinned_def Let_def split: if_splits)

lemma buf_release_ok:
  assumes "buf_inv w \<and> coherent w" "0 < pins w (fst k) (snd k)"
  shows "\<exists>w'. buf_release w k = Some w' \<and> (buf_inv w' \<and> coherent w') \<and> buf_legal w' = buf_legal w \<and> lpage w' = lpage w \<and>
     (\<forall>j. pins w' (fst j) (snd j) = pins w (fst j) (snd j) - (if j = k then 1 else 0))"
proof -
  let ?f = "fst k" and ?p = "snd k"
  have inv: "buf_inv w" "coherent w" using assms by simp_all
  obtain i0 where i0: "frame_of w k = Some (int i0)" "pinCnt (bufTable w ! i0) = pins w ?f ?p"
    by (rule pins_frame [of w ?f ?p]) (use assms in auto)
  let ?w = "set_desc w i0 (unpinned (bufTable w ! i0) True)"
  have u: "i0 < frames w" "BufMgr_unPinPage w ?f ?p True = Some (OK, ?w)" "buf_inv ?w" "lpage ?w = lpage w"
     "\<forall>g q. pins ?w g q = (if (g, q) = (?f, ?p) then max 0 (pins w ?f ?p - 1) else pins w g q)"
    using unPinPage_present [OF inv(1), of ?f ?p "int i0" True] i0 assms(2) by auto
  have "buf_release w k = Some ?w" using u(2) by (simp add: buf_release_def)
  moreover have "buf_legal ?w = buf_legal w" by (simp add: buf_legal_def fun_eq_iff)
  moreover have "pins ?w (fst j) (snd j) = pins w (fst j) (snd j) - (if j = k then 1 else 0)" for j
    using u(5) assms(2) by (auto simp: prod_eq_iff)
  ultimately show ?thesis using u unPin_dirty_coherent [OF inv(2) u(1)] by blast
qed

interpretation pool: page_cache "\<lambda>w. buf_inv w \<and> coherent w" buf_legal "\<lambda>w k. lpage w (fst k) (snd k)"
  "\<lambda>w k. pins w (fst k) (snd k)" buf_fetch buf_store buf_release
proof unfold_locales
  fix s s' :: "'a buf_state_scheme" and k pg
  assume inv: "buf_inv s \<and> coherent s"
  show "(buf_inv s' \<and> coherent s') \<and> buf_legal s' = buf_legal s \<and> (\<lambda>k. lpage s' (fst k) (snd k)) = (\<lambda>k. lpage s (fst k) (snd k)) \<and>
      (\<lambda>k. pins s' (fst k) (snd k)) = (\<lambda>k. pins s (fst k) (snd k))(k := pins s (fst k) (snd k) + 1)"
    if "buf_legal s k" "buf_fetch s k = Some s'"
    using buf_fetch_ok [OF inv that] by (auto simp: fun_eq_iff)
  show "0 \<le> pins s (fst k) (snd k)" using pins_nonneg inv by blast
  assume pin: "0 < pins s (fst k) (snd k)"
  show "(buf_inv (buf_store s k pg) \<and> coherent (buf_store s k pg)) \<and> buf_legal (buf_store s k pg) = buf_legal s \<and>
      (\<lambda>j. lpage (buf_store s k pg) (fst j) (snd j)) = (\<lambda>j. lpage s (fst j) (snd j))(k \<mapsto> page_img pg) \<and>
      (\<lambda>j. pins (buf_store s k pg) (fst j) (snd j)) = (\<lambda>j. pins s (fst j) (snd j))"
    using buf_store_ok [OF inv pin, of pg] by (auto simp: fun_eq_iff)
  obtain s1 where s1: "buf_release s k = Some s1" "buf_inv s1 \<and> coherent s1" "buf_legal s1 = buf_legal s" "lpage s1 = lpage s"
      "\<forall>j. pins s1 (fst j) (snd j) = pins s (fst j) (snd j) - (if j = k then 1 else 0)"
    using buf_release_ok [OF inv pin] by blast
  then show "\<exists>s'. buf_release s k = Some s' \<and> (buf_inv s' \<and> coherent s') \<and> buf_legal s' = buf_legal s \<and>
      (\<lambda>j. lpage s' (fst j) (snd j)) = (\<lambda>j. lpage s (fst j) (snd j)) \<and>
      (\<lambda>j. pins s' (fst j) (snd j)) = (\<lambda>j. pins s (fst j) (snd j))(k := pins s (fst k) (snd k) - 1)"
    by (intro exI [of _ s1]) (auto simp: fun_eq_iff)
qed

section \<open>A sample pool\<close>

lemma file_alloc_same: "file_inv f w \<Longrightarrow> file_alloc f w = Some (p, w') \<Longrightarrow> same_files w w' \<and> file_inv f w'"
  using allocatePage_fresh [of f w 0] by (auto simp: file_alloc_def split: if_splits option.splits)

lemma sample_fs2_same: "same_files sample_fs sample_fs2"
proof -
  obtain w1 where w1: "file_alloc 4096 sample_fs = Some (1, w1)" "file_alloc 4096 w1 = Some (2, sample_fs2)"
    using sample_fs2_alloc by (auto simp: numeral_2_eq_2 split: bind_splits)
  show ?thesis
    using file_alloc_same [OF _ w1(1)] file_alloc_same [OF _ w1(2)] sample_fs_inv same_files_trans by blast
qed

lemma sample_fs2_ok: "fs_ok sample_fs2"
proof -
  have "file_name sample_fs g = None" if "g \<noteq> 4096" for g using that by (simp add: sample_fs_eq file_name_def)
  then have "file_of sample_fs2 g = None" if "g \<noteq> 4096" for g
    using that same_files_name [OF sample_fs2_same] by (simp add: file_of_def)
  then show ?thesis using sample_fs2_file unfolding fs_ok_def by (metis option.distinct(1) option.inject)
qed

text \<open>A pool with one frame over a file with pages 1 and 2, empty, then with page 1 pinned, then unpinned.\<close>

definition sample_pool :: buf_state where
  "sample_pool = BufMgr_new \<lparr>disk = disk sample_fs2, fds = fds sample_fs2, files = files sample_fs2, clockHand = 0, numBufs = 0,
     hashTable = BufHashTbl_new 0, bufTable = [], bufPool = [], bufStats = BufStats_clear\<rparr> 1"

definition sample_pinned :: buf_state where
  "sample_pinned = snd (snd (the (BufMgr_readPage sample_pool 4096 1 None)))"

definition sample_unpinned :: buf_state where
  "sample_unpinned = snd (the (BufMgr_unPinPage sample_pinned 4096 1 True))"

lemma sample_pool_view: "fs_view sample_pool = fs_view sample_fs2"
  by (simp add: sample_pool_def BufMgr_new_def fs_view_def)

lemmas sample_pool_fs = fs_view_cong [OF sample_pool_view]

lemma sample_pool_file: "file_of sample_pool 4096 \<noteq> None" "\<not> file_full 4096 sample_pool" "next_page 4096 sample_pool = 3"
  "used_pages 4096 sample_pool = {1, 2}" "fs_ok sample_pool"
  using sample_fs2_file sample_fs2_inv sample_pool_fs(2,4,5) sample_fs2_ok by (auto simp: file_full_def next_page_def)

lemma sample_pool_inv: "buf_inv sample_pool" "coherent sample_pool" "frame_of sample_pool = Map.empty"
  and sample_pool_frames: "frames sample_pool = 1" "\<not> all_pinned sample_pool"
proof -
  let ?b = "\<lparr>disk = disk sample_fs2, fds = fds sample_fs2, files = files sample_fs2, clockHand = 0, numBufs = 0,
     hashTable = BufHashTbl_new 0, bufTable = [], bufPool = [], bufStats = BufStats_clear\<rparr> :: buf_state"
  have "fs_view ?b = fs_view sample_fs2" by (simp add: fs_view_def)
  then have "fs_ok ?b" using fs_view_cong(5) [of ?b sample_fs2] sample_fs2_ok by simp
  then show "buf_inv sample_pool" "coherent sample_pool" "frame_of sample_pool = Map.empty"
    using BufMgr_new_inv [of ?b 1] by (simp_all add: sample_pool_def)
  show "frames sample_pool = 1" "\<not> all_pinned sample_pool"
    by (simp_all add: sample_pool_def BufMgr_new_def all_pinned_def)
qed

lemma sample_keys: "bht_valid (hashTable sample_pool) (4096, 1)" "bht_valid (hashTable sample_pool) (4096, 2)"
  "bht_valid (hashTable sample_pool) (4096, 3)" "bht_valid (hashTable sample_pool) (4096, 9)"
  by (simp_all add: sample_pool_def BufMgr_new_def bht_valid_def BufHashTbl_new_def bh_index_def swrap_def c_rem_def)

lemma sample_legal: "buf_legal sample_pool (4096, 1)" "buf_legal sample_pool (4096, 2)"
  using sample_keys sample_pool_file(4) by (simp_all add: buf_legal_def)

lemma sample_pinned_facts:
  "buf_inv sample_pinned" "coherent sample_pinned" "frame_of sample_pinned (4096, 1) = Some 0" "pins sample_pinned 4096 1 = 1"
  "bht_valid (hashTable sample_pinned) = bht_valid (hashTable sample_pool)" "lpage sample_pinned = lpage sample_pool"
  "used_pages g sample_pinned = used_pages g sample_pool"
proof -
  obtain i w' where r: "BufMgr_readPage sample_pool 4096 1 None = Some (OK, Some i, w')" "i < frames sample_pool"
     "frame_of w' (4096, 1) = Some (int i)" "buf_inv w'" "coherent w'" "lpage w' = lpage sample_pool"
     "\<forall>g q. pins w' g q = pins sample_pool g q + (if (g, q) = (4096, 1) then 1 else 0)"
     "bht_valid (hashTable w') = bht_valid (hashTable sample_pool)" "\<forall>g. used_pages g w' = used_pages g sample_pool"
    using readPage_ok [OF sample_pool_inv(1,2) sample_legal(1), of None] sample_pool_frames(2) by blast
  have p0: "pins sample_pool 4096 1 = 0" by (simp add: pins_def sample_pool_inv(3))
  have "sample_pinned = w'" using r(1) by (simp add: sample_pinned_def)
  then show "buf_inv sample_pinned" "coherent sample_pinned" "frame_of sample_pinned (4096, 1) = Some 0" "pins sample_pinned 4096 1 = 1"
    "bht_valid (hashTable sample_pinned) = bht_valid (hashTable sample_pool)" "lpage sample_pinned = lpage sample_pool"
    "used_pages g sample_pinned = used_pages g sample_pool"
    using r sample_pool_frames(1) p0 by simp_all
qed

lemma sample_pinned_frames: "frames sample_pinned = 1" "fs_view sample_pinned = fs_view sample_pool"
proof -
  have "BufMgr_readPage sample_pool 4096 1 None \<noteq> None"
    using readPage_ok [OF sample_pool_inv(1,2) sample_legal(1), of None] sample_pool_frames(2) by auto
  have "\<forall>d \<in> set (bufTable sample_pool). \<not> dirty d" by (simp add: sample_pool_def BufMgr_new_def)
  then obtain i w' where r: "BufMgr_readPage sample_pool 4096 1 None = Some (OK, Some i, w')" "frames w' = frames sample_pool"
      "fs_view w' = fs_view sample_pool"
    using readPage_miss [OF sample_pool_inv(1,2) _ sample_pool_frames(2), of 4096 1 None] sample_pool_inv(3) sample_legal(1)
    by (auto simp: buf_legal_def)
  then show "frames sample_pinned = 1" "fs_view sample_pinned = fs_view sample_pool"
    by (simp_all add: sample_pinned_def sample_pool_frames(1))
qed

lemma sample_pinned_all: "all_pinned sample_pinned" "frame_of sample_pinned (4096, 2) = None"
proof -
  have v: "valid (bufTable sample_pinned ! 0)" "desc_key (bufTable sample_pinned ! 0) = (4096, 1)" "pinCnt (bufTable sample_pinned ! 0) = 1"
    using sample_pinned_facts buf_inv_frame_of [OF sample_pinned_facts(1), of "(4096, 1)" 0] by (simp_all add: pins_def)
  then show "all_pinned sample_pinned" using sample_pinned_frames(1) by (simp add: all_pinned_def all_set_conv_all_nth)
  show "frame_of sample_pinned (4096, 2) = None"
  proof (rule ccontr)
    assume "frame_of sample_pinned (4096, 2) \<noteq> None"
    then obtain j where "frame_of sample_pinned (4096, 2) = Some j" by blast
    then show False
      using buf_inv_frame_of [OF sample_pinned_facts(1), of "(4096, 2)" j] sample_pinned_frames(1) v(2) by auto
  qed
qed

lemma sample_unpinned_facts: "buf_inv sample_unpinned" "\<not> all_pinned sample_unpinned" "\<forall>d \<in> set (bufTable sample_unpinned). valid d"
  "bht_valid (hashTable sample_unpinned) = bht_valid (hashTable sample_pool)" "fs_view sample_unpinned = fs_view sample_pinned"
proof -
  have v: "valid (bufTable sample_pinned ! 0)" "pinCnt (bufTable sample_pinned ! 0) = 1"
    using sample_pinned_facts buf_inv_frame_of [OF sample_pinned_facts(1), of "(4096, 1)" 0] by (simp_all add: pins_def)
  have u: "sample_unpinned = set_desc sample_pinned 0 (unpinned (bufTable sample_pinned ! 0) True)" "buf_inv sample_unpinned"
    using unPinPage_present [OF sample_pinned_facts(1,3), of True] by (auto simp: sample_unpinned_def)
  have "bufTable sample_unpinned ! 0 = unpinned (bufTable sample_pinned ! 0) True" "frames sample_unpinned = 1"
    unfolding u(1) using sample_pinned_frames(1) by (simp_all add: set_desc_nth)
  then show "\<not> all_pinned sample_unpinned" "\<forall>d \<in> set (bufTable sample_unpinned). valid d"
    using v by (auto simp: all_pinned_def all_set_conv_all_nth unpinned_def Let_def)
  show "buf_inv sample_unpinned" by (rule u(2))
  show "bht_valid (hashTable sample_unpinned) = bht_valid (hashTable sample_pool)" "fs_view sample_unpinned = fs_view sample_pinned"
    unfolding u(1) using sample_pinned_facts(5) by simp_all
qed

section \<open>A failed read\<close>

lemma readPage_fails:
  assumes inv: "buf_inv w" and key: "bht_valid (hashTable w) (f, p)" and f: "used_pages f w \<noteq> {}" "disk_page w f p = None" "1 \<le> p"
    and free: "\<not> all_pinned w"
  shows "\<exists>w' i. BufMgr_readPage w f p pp = Some (UNIXERR, pp, w') \<and> i < frames w \<and> frames w' = frames w \<and>
     valid (bufTable w' ! i) = valid (bufTable w ! i) \<and> desc_key (bufTable w' ! i) = desc_key (bufTable w ! i) \<and>
     (valid (bufTable w ! i) \<longrightarrow> frame_of w' (desc_key (bufTable w ! i)) = None)"
proof -
  have ok: "fs_ok w" using inv by (simp add: buf_inv_def)
  have miss: "frame_of w (f, p) = None"
    using frame_of_used [OF inv, of f p] used_disk [OF ok, of p f] f(2) by (cases "frame_of w (f, p)") auto
  obtain i w1 where a: "BufMgr_allocBuf w 0 = Some (OK, int i, w1)" "evicted w i w1" using allocBuf_free [OF inv free] by blast
  have e: "i < frames w" "frames w1 = frames w" "length (bufPool w1) = frames w" "used_pages f w1 = used_pages f w"
    "frame_of w1 = (if valid (bufTable w ! i) then (frame_of w)(desc_key (bufTable w ! i) := None) else frame_of w)"
    using a(2) buf_inv_sizes [OF inv] by (auto simp: evicted_def)
  define w2 where "w2 = w1\<lparr>bufStats := (bufStats w1)\<lparr>diskreads := diskreads (bufStats w1) + 1\<rparr>\<rparr>"
  have "dirty (bufTable w ! i) \<Longrightarrow> desc_key (bufTable w ! i) \<noteq> (f, p)"
    using miss buf_inv_desc [OF inv e(1)] valid_frame_of [OF inv e(1)] by (auto simp: desc_ok_def split: if_splits)
  then have "disk_page w2 f p = None" using a(2) f(2) by (auto simp: evicted_def w2_def)
  moreover obtain u where u: "file_of w2 f = Some u" using f(1) e(4) used_file [of _ f w2] by (auto simp: w2_def)
  ultimately have "\<not> has_page u p" by (auto simp: disk_page_def split: if_splits)
  then obtain b where b: "File_readPage w2 f p (Some (bufPool w2 ! i)) = Some (UNIXERR, b)"
    using intread_fails [OF u, of p "bufPool w2 ! i"] f(3) by (auto simp: File_readPage_def)
  have "BufMgr_readPage w f p pp = Some (UNIXERR, pp, set_frame w2 i b)"
    using not_buffered [OF inv miss key, of 0] a(1) b e by (simp add: BufMgr_readPage_def Let_def w2_def [symmetric] frame_in_pool_def)
  then show ?thesis
    using e evicted_table [OF a(2) e(1)] by (intro exI [of _ "set_frame w2 i b"] exI [of _ i]) (simp add: w2_def)
qed


section \<open>Properties\<close>

text \<open>
  (C8) \<open>readPage\<close> returns the current contents of a page in use, whether it is buffered or has
  to be read after another page is evicted. It pins the page once more; no other pin count
  changes, every pinned page stays in its frame with its contents, no page of any file
  changes its contents, and the invariant of the pool holds again.
\<close>

theorem buf_read_correct:
  assumes "buf_inv w" "coherent w" "buf_legal w (f, p)" "frame_of w (f, p) \<noteq> None \<or> \<not> all_pinned w"
  shows "\<exists>i w'. BufMgr_readPage w f p pp = Some (OK, Some i, w') \<and> buf_inv w' \<and> coherent w' \<and>
     lpage w f p = Some (page_img (bufPool w' ! i)) \<and> lpage w' = lpage w \<and> pinned_kept w w' \<and>
     (\<forall>g q. pins w' g q = pins w g q + (if (g, q) = (f, p) then 1 else 0))"
proof -
  obtain i w' where r: "BufMgr_readPage w f p pp = Some (OK, Some i, w')" "frame_of w' (f, p) = Some (int i)"
     "buf_inv w'" "coherent w'" "lpage w' = lpage w" "pinned_kept w w'"
     "\<forall>g q. pins w' g q = pins w g q + (if (g, q) = (f, p) then 1 else 0)"
    using readPage_ok [OF assms, of pp] by blast
  moreover have "lpage w' f p = Some (page_img (bufPool w' ! i))" using r(2) by (simp add: lpage_def)
  ultimately show ?thesis by auto
qed

theorem buf_read_correct_witness:
  "\<exists>i w'. BufMgr_readPage sample_pool 4096 2 None = Some (OK, Some i, w') \<and> buf_inv w' \<and> pins w' 4096 2 = 1"
proof -
  have "pins sample_pool 4096 2 = 0" by (simp add: pins_def sample_pool_inv(3))
  then show ?thesis
    using buf_read_correct [OF sample_pool_inv(1,2) sample_legal(2), of None] sample_pool_frames(2) by auto
qed

text \<open>
  (C17) The clock finds a frame whenever there is one: reading a page that is not buffered
  gives \<open>BUFFEREXCEEDED\<close> exactly when every frame holds a pinned page, and then nothing is
  lost.
\<close>

theorem buf_exceeded_iff:
  assumes "buf_inv w" "coherent w" "buf_legal w (f, p)" "frame_of w (f, p) = None"
  shows "if all_pinned w
    then \<exists>w'. BufMgr_readPage w f p pp = Some (BUFFEREXCEEDED, pp, w') \<and> buf_inv w' \<and> coherent w' \<and> lpage w' = lpage w
    else \<exists>i w'. BufMgr_readPage w f p pp = Some (OK, Some i, w')"
  using readPage_ok [OF assms(1-3), of pp] readPage_exceeded [OF assms(1,4), of pp] assms
  by (auto simp: buf_legal_def)

theorem buf_exceeded_iff_witness:
  "\<exists>w'. BufMgr_readPage sample_pinned 4096 2 None = Some (BUFFEREXCEEDED, None, w') \<and> lpage w' = lpage sample_pinned"
proof -
  have "buf_legal sample_pinned (4096, 2)"
    using sample_legal(2) sample_pinned_facts(5,7) by (simp add: buf_legal_def)
  from buf_exceeded_iff [OF sample_pinned_facts(1,2) this sample_pinned_all(2), of None] sample_pinned_all(1)
  show ?thesis by auto
qed

text \<open>
  (C16) \<open>flushFile\<close> makes a file durable: if none of its pages is pinned it returns \<open>OK\<close>, no
  page of the file is buffered any more and the disk holds the current contents of every
  page; with a pinned page it returns \<open>PAGEPINNED\<close>. In both cases no page of any file
  changes its contents and the other files are not touched on disk.
\<close>

theorem buf_flush_durable:
  assumes "buf_inv w" "coherent w" "f \<noteq> NULL"
  shows "\<exists>w'. BufMgr_flushFile w f = Some (if \<exists>p. 0 < pins w f p then PAGEPINNED else OK, w') \<and> buf_inv w' \<and> coherent w' \<and>
     lpage w' = lpage w \<and> (\<forall>g q. g \<noteq> f \<longrightarrow> disk_page w' g q = disk_page w g q) \<and>
     ((\<exists>p. 0 < pins w f p) \<or> (\<forall>p. frame_of w' (f, p) = None \<and> disk_page w' f p = lpage w f p))"
  using flushFile_spec [OF assms] unfolding flushed_def by blast

theorem buf_flush_durable_witness:
  "\<exists>w'. BufMgr_flushFile sample_pinned 4096 = Some (PAGEPINNED, w') \<and> lpage w' = lpage sample_pinned"
proof -
  have "\<exists>p. 0 < pins sample_pinned 4096 p" using sample_pinned_facts(4) by (intro exI [of _ 1]) simp
  then show ?thesis using buf_flush_durable [OF sample_pinned_facts(1,2), of 4096] by auto
qed

text \<open>
  (C18) A client that reads pages, stores into them and unpins them as dirty sees exactly its
  stores, in their order, whatever pages are evicted and written back in between; at the
  end every pin count is what it was.
\<close>

theorem buf_read_modify_write:
  assumes "buf_inv w \<and> coherent w" "\<forall>u \<in> set us. buf_legal w (fst u)" "pool.update_many w us = Some w'"
  shows "(buf_inv w' \<and> coherent w') \<and>
     (\<lambda>k. lpage w' (fst k) (snd k)) = fold (\<lambda>u m. m(fst u \<mapsto> page_img (snd u))) us (\<lambda>k. lpage w (fst k) (snd k)) \<and>
     (\<lambda>k. pins w' (fst k) (snd k)) = (\<lambda>k. pins w (fst k) (snd k))"
  by (rule pool.update_many_view [OF assms])

lemma sample_update: "\<exists>w'. pool.update_many sample_pool [((4096, 1), \<lambda>_. 5)] = Some w'"
proof -
  obtain i w1 where r: "BufMgr_readPage sample_pool 4096 1 None = Some (OK, Some i, w1)"
    using readPage_ok [OF sample_pool_inv(1,2) sample_legal(1), of None] sample_pool_frames(2) by blast
  then have f: "buf_fetch sample_pool (4096, 1) = Some sample_pinned" by (simp add: buf_fetch_def sample_pinned_def)
  have "buf_inv sample_pinned \<and> coherent sample_pinned" using sample_pinned_facts by simp
  from buf_store_ok [OF this, of "(4096, 1)" "\<lambda>_. 5"] sample_pinned_facts(4)
  have "buf_inv (buf_store sample_pinned (4096, 1) (\<lambda>_. 5)) \<and> coherent (buf_store sample_pinned (4096, 1) (\<lambda>_. 5))"
    "pins (buf_store sample_pinned (4096, 1) (\<lambda>_. 5)) 4096 1 = 1" by simp_all
  from buf_release_ok [OF this(1), of "(4096, 1)"] this(2) f show ?thesis by (auto simp: pool.update_def)
qed

theorem buf_read_modify_write_witness:
  "\<exists>w'. pool.update_many sample_pool [((4096, 1), \<lambda>_. 5)] = Some w' \<and> lpage w' 4096 1 = Some (page_img (\<lambda>_. 5))"
proof -
  obtain w' where w': "pool.update_many sample_pool [((4096, 1), \<lambda>_. 5)] = Some w'" using sample_update by blast
  then have "(\<lambda>k. lpage w' (fst k) (snd k)) = (\<lambda>k. lpage sample_pool (fst k) (snd k))((4096, 1) \<mapsto> page_img (\<lambda>_. 5))"
    using buf_read_modify_write [of sample_pool "[((4096, 1), \<lambda>_. 5)]" w'] sample_pool_inv sample_legal(1) by simp
  from fun_cong [OF this, of "(4096, 1)"] w' show ?thesis by simp
qed

text \<open>
  (C24) \<open>allocPage\<close> gives the client a page of the file that was not in use, pinned once in a
  frame; the contents of all pages in use, the pinned pages and the other files stay.
\<close>

theorem buf_alloc_page:
  assumes "buf_inv w" "coherent w" "f \<noteq> NULL" "file_of w f \<noteq> None" "\<not> file_full f w" "\<not> all_pinned w"
    "bht_valid (hashTable w) (f, next_page f w)"
  shows "\<exists>i p w'. BufMgr_allocPage w f pn pp = Some (OK, p, Some i, w') \<and> p = next_page f w \<and> buf_inv w' \<and> coherent w' \<and>
     p \<notin> used_pages f w \<and> used_pages f w' = insert p (used_pages f w) \<and> frame_of w' (f, p) = Some (int i) \<and> pinned_kept w w' \<and>
     (\<forall>g q. pins w' g q = pins w g q + (if (g, q) = (f, p) then 1 else 0)) \<and>
     (\<forall>g q. q \<in> used_pages g w \<longrightarrow> lpage w' g q = lpage w g q)"
proof -
  obtain i w' where a: "BufMgr_allocPage w f pn pp = Some (OK, next_page f w, Some i, w')" "buf_inv w'" "coherent w'"
     "next_page f w \<notin> used_pages f w" "frame_of w' (f, next_page f w) = Some (int i)" "pinned_kept w w'"
     "\<forall>g q. pins w' g q = pins w g q + (if (g, q) = (f, next_page f w) then 1 else 0)"
     "\<forall>g. used_pages g w' = (if g = f then insert (next_page f w) (used_pages f w) else used_pages g w)"
     "\<forall>g q. q \<in> used_pages g w \<longrightarrow> lpage w' g q = lpage w g q"
    using allocPage_spec [OF assms, of pn pp] by blast
  then show ?thesis by (intro exI [of _ i] exI [of _ "next_page f w"] exI [of _ w']) simp
qed

theorem buf_alloc_page_witness:
  "\<exists>i w'. BufMgr_allocPage sample_pool 4096 0 None = Some (OK, 3, Some i, w') \<and> used_pages 4096 w' = {3, 1, 2}"
  using buf_alloc_page [OF sample_pool_inv(1,2) _ sample_pool_file(1,2) sample_pool_frames(2), of 0 None]
    sample_pool_file(3,4) sample_keys(3) by auto

text \<open>
  If every frame is pinned, \<open>allocPage\<close> fails with \<open>BUFFEREXCEEDED\<close> after it has already
  taken a page of the file: the page is in use although no caller got it.
\<close>

theorem buf_alloc_leak:
  assumes "buf_inv w" "file_of w f \<noteq> None" "\<not> file_full f w" "all_pinned w"
  shows "\<exists>w' p. BufMgr_allocPage w f pn pp = Some (BUFFEREXCEEDED, p, pp, w') \<and>
     p \<notin> used_pages f w \<and> used_pages f w' = insert p (used_pages f w)"
  using allocPage_exceeded [OF assms, of pn pp] by blast

theorem buf_alloc_leak_witness:
  "\<exists>w' p. BufMgr_allocPage sample_pinned 4096 0 None = Some (BUFFEREXCEEDED, p, None, w') \<and> p \<in> used_pages 4096 w' - {1, 2}"
proof -
  have "file_of sample_pinned = file_of sample_pool" using fs_view_cong(2) [OF sample_pinned_frames(2)] .
  then have "file_of sample_pinned 4096 \<noteq> None" "\<not> file_full 4096 sample_pinned" "used_pages 4096 sample_pinned = {1, 2}"
    using sample_pool_file by (simp_all add: file_full_def used_pages_def)
  then show ?thesis using buf_alloc_leak [OF sample_pinned_facts(1) _ _ sample_pinned_all(1), of 4096 0 None] by auto
qed

text \<open>
  \<open>disposePage\<close> gives a page in use back to the file and forgets its frame; every other
  page in use keeps its contents, buffered or not.
\<close>

theorem buf_dispose_page:
  assumes "buf_inv w" "coherent w" "p \<in> used_pages f w" "p \<noteq> 1" "bht_valid (hashTable w) (f, p)"
  shows "\<exists>w'. BufMgr_disposePage w f p = Some (OK, w') \<and> buf_inv w' \<and> coherent w' \<and> frame_of w' (f, p) = None \<and>
     used_pages f w' = used_pages f w - {p} \<and>
     (\<forall>g q. q \<in> used_pages g w \<and> (g, q) \<noteq> (f, p) \<longrightarrow> lpage w' g q = lpage w g q)"
  using disposePage_spec_buf [OF assms] by (auto simp del: split_paired_All)

theorem buf_dispose_page_witness:
  "\<exists>w'. BufMgr_disposePage sample_pool 4096 2 = Some (OK, w') \<and> buf_inv w' \<and> used_pages 4096 w' = {1}"
  using buf_dispose_page [OF sample_pool_inv(1,2), of 2 4096] sample_pool_file(4) sample_keys(2) by auto


text \<open>The pool with a changed page in its frame, marked dirty or not.\<close>

definition sample_changed :: "bool \<Rightarrow> buf_state" where
  "sample_changed d = sample_pinned\<lparr>bufPool := [\<lambda>_. 5], bufTable := map (\<lambda>b. b\<lparr>dirty := valid b \<and> d\<rparr>) (bufTable sample_pinned)\<rparr>"

lemma buf_inv_marked:
  assumes "buf_inv w" "length ps = frames w"
  shows "buf_inv (w\<lparr>bufPool := ps, bufTable := map (\<lambda>b. b\<lparr>dirty := valid b \<and> d\<rparr>) (bufTable w)\<rparr>)" (is "buf_inv ?w")
proof (rule buf_invI)
  have v: "fs_view ?w = fs_view w" by (simp add: fs_view_def)
  have i: "0 < numBufs w" "frames w = nat (numBufs w)" "clockHand w < frames w" "bht_inv (hashTable w)" "fs_ok w" "\<And>i. i < frames w \<Longrightarrow> desc_ok w (bufTable w ! i)"
     "\<And>k i. frame_of w k = Some i \<longleftrightarrow> 0 \<le> i \<and> nat i < frames w \<and> valid (bufTable w ! nat i) \<and> desc_key (bufTable w ! nat i) = k"
    using assms(1) unfolding buf_inv_def by blast+
  have n: "bufTable ?w ! j = (bufTable w ! j)\<lparr>dirty := valid (bufTable w ! j) \<and> d\<rparr>" if "j < frames w" for j using that by simp
  show "fs_ok ?w" using i(5) fs_view_cong(5) [OF v] by simp
  show "desc_ok ?w (bufTable ?w ! j)" if "j < frames ?w" for j
    using i(6) [of j] n [of j] that fs_view_cong(4) [OF v] by (auto simp: desc_ok_def)
  show "frame_of ?w k = Some j \<longleftrightarrow> 0 \<le> j \<and> nat j < frames ?w \<and> valid (bufTable ?w ! nat j) \<and> desc_key (bufTable ?w ! nat j) = k" for k j
    using i(7) [of k j] n [of "nat j"] by (auto simp: desc_key_def simp del: nth_map)
  show "0 < numBufs ?w" "frames ?w = nat (numBufs ?w)" "length (bufPool ?w) = frames ?w" "clockHand ?w < frames ?w" "bht_inv (hashTable ?w)"
    using i(1-4) assms(2) by simp_all
qed

lemma sample_changed_facts:
  "buf_inv (sample_changed d)" "lpage (sample_changed d) 4096 1 = Some (page_img (\<lambda>_. 5))" "disk_page (sample_changed d) = disk_page sample_pool"
  "frame_of (sample_changed d) (4096, 1) = Some 0" "dirty (bufTable (sample_changed d) ! 0) = d"
proof -
  have v: "fs_view (sample_changed d) = fs_view sample_pinned" by (simp add: fs_view_def sample_changed_def)
  show "buf_inv (sample_changed d)" unfolding sample_changed_def by (rule buf_inv_marked) (use sample_pinned_facts(1) sample_pinned_frames(1) in simp_all)
  show f: "frame_of (sample_changed d) (4096, 1) = Some 0" using sample_pinned_facts(3) by (simp add: sample_changed_def)
  then show "lpage (sample_changed d) 4096 1 = Some (page_img (\<lambda>_. 5))" by (simp add: lpage_def) (simp add: sample_changed_def)
  show "disk_page (sample_changed d) = disk_page sample_pool" using fs_view_cong(3) [OF v] fs_view_cong(3) [OF sample_pinned_frames(2)] by simp
  have "valid (bufTable sample_pinned ! 0)" using buf_inv_frame_of [OF sample_pinned_facts(1), of "(4096, 1)" 0] sample_pinned_facts(3) by simp
  then show "dirty (bufTable (sample_changed d) ! 0) = d" using sample_pinned_frames(1) by (simp add: sample_changed_def)
qed


text \<open>
  A read that fails on disk leaves the pool inconsistent. With every frame in use the
  victim has already left the hash table when the read fails, but its descriptor still says
  that it holds the old page: a valid frame that no lookup finds.
\<close>

theorem buf_failed_read_stale:
  assumes "buf_inv w" "\<forall>d \<in> set (bufTable w). valid d" "\<not> all_pinned w"
    and "used_pages f w \<noteq> {}" "disk_page w f p = None" "1 \<le> p" "bht_valid (hashTable w) (f, p)"
  shows "\<exists>w' i. BufMgr_readPage w f p pp = Some (UNIXERR, pp, w') \<and> i < frames w' \<and> valid (bufTable w' ! i) \<and>
     frame_of w' (desc_key (bufTable w' ! i)) = None \<and> \<not> buf_inv w'"
proof -
  obtain w' i where r: "BufMgr_readPage w f p pp = Some (UNIXERR, pp, w')" "i < frames w" "frames w' = frames w"
     "valid (bufTable w' ! i) = valid (bufTable w ! i)" "desc_key (bufTable w' ! i) = desc_key (bufTable w ! i)"
     "valid (bufTable w ! i) \<longrightarrow> frame_of w' (desc_key (bufTable w ! i)) = None"
    using readPage_fails [OF assms(1,7,4,5,6,3), of pp] by blast
  moreover have "valid (bufTable w ! i)" using assms(2) r(2) by simp
  moreover have "\<not> buf_inv w'"
  proof
    assume "buf_inv w'"
    then show False using valid_frame_of [of w' i] r(2-6) \<open>valid (bufTable w ! i)\<close> by simp
  qed
  ultimately show ?thesis by (intro exI [of _ w'] exI [of _ i]) simp
qed

theorem buf_failed_read_stale_witness:
  "\<exists>w'. BufMgr_readPage sample_unpinned 4096 9 None = Some (UNIXERR, None, w') \<and> \<not> buf_inv w'"
proof -
  have "used_pages 4096 sample_unpinned = {1, 2}"
    using fs_view_cong(4) [OF sample_unpinned_facts(5), of 4096] sample_pinned_facts(7) sample_pool_file(4) by simp
  moreover have "disk_page sample_unpinned 4096 9 = None"
    using fs_view_cong(3) [OF sample_unpinned_facts(5)] fs_view_cong(3) [OF sample_pinned_frames(2)] sample_pool_fs(3)
      sample_fs2_file has_page_npages by (auto simp: disk_page_def)
  ultimately show ?thesis
    using buf_failed_read_stale [OF sample_unpinned_facts(1,3,2), of 4096 9 None] sample_unpinned_facts(4) sample_keys(4) by auto
qed

end
