(* ===== verification/DBCorrect.thy ===== *)
theory DBCorrect
  imports DB BufProps
begin

text \<open>
  Correctness of the DB layer: the table of open files implements a map (an interpretation of
  \<open>lookup_table\<close>); \<open>db_inv\<close> ties file objects, descriptors, the table and the files on disk
  together; opening, closing, creating and destroying files keep it.
\<close>


section \<open>The table of open files is a map\<close>

definition of_idx :: "nat \<Rightarrow> string \<Rightarrow> int" where
  "of_idx n nm = \<bar>c_rem (hash_chars 0 nm) (int n)\<bar>"

interpretation oft: chained_table fb_fname "of_idx n" n for n .

definition oft_inv :: "OpenFileHashTbl \<Rightarrow> bool" where
  "oft_inv t \<longleftrightarrow> 0 < of_HTSIZE t \<and> oft.wf (nat (of_HTSIZE t)) (of_ht t)"

definition oft_map :: "OpenFileHashTbl \<Rightarrow> string \<Rightarrow> ptr option" where
  "oft_map t nm = map_option fb_file (oft.abs (nat (of_HTSIZE t)) (of_ht t) nm)"

text \<open>The hash value of a file name is always an index of the array.\<close>

lemma oft_ok: "oft_inv t \<Longrightarrow> oft.ok (nat (of_HTSIZE t)) nm"
  using c_rem_bound [of "of_HTSIZE t" "hash_chars 0 nm"] by (simp add: oft_inv_def oft.ok_def of_idx_def)

lemma oft_hash_idx: "oft_inv t \<Longrightarrow> OpenFileHashTbl_hash t nm = of_idx (nat (of_HTSIZE t)) nm"
  by (simp add: OpenFileHashTbl_hash_def of_idx_def oft_inv_def)

interpretation open_table: lookup_table oft_inv "\<lambda>_ _. True" oft_map
  OpenFileHashTbl_insert OpenFileHashTbl_find OpenFileHashTbl_erase
proof unfold_locales
  fix t nm and v d :: ptr
  assume inv: "oft_inv t"
  let ?n = "nat (of_HTSIZE t)"
  let ?h = "of_idx ?n nm"
  note ops = oft_hash_idx [OF inv]
  have wf: "oft.wf ?n (of_ht t)" using inv by (simp add: oft_inv_def)
  have ok: "oft.ok ?n nm" by (rule oft_ok [OF inv])
  have ch: "ht_chain (of_ht t) ?h = Some (of_ht t ! nat ?h)" by (rule oft.chain_ok [OF wf ok])
  have ab: "oft.abs ?n (of_ht t) nm = chain_find (\<lambda>b. fb_fname b = nm) (of_ht t ! nat ?h)" using ok by (simp add: oft.abs_def)
  show "\<exists>t'. OpenFileHashTbl_insert t nm v = Some (OK, t') \<and> oft_inv t' \<and> oft_map t' = (oft_map t)(nm \<mapsto> v) \<and> (\<lambda>_. True) = (\<lambda>_. True)"
    if "oft_map t nm = None"
  proof -
    let ?b = "\<lparr>fb_fname = nm, fb_file = v\<rparr>"
    have none: "oft.abs ?n (of_ht t) nm = None" using that by (simp add: oft_map_def)
    then have "oft.wf ?n ((of_ht t)[nat ?h := ?b # of_ht t ! nat ?h])"
      "oft.abs ?n ((of_ht t)[nat ?h := ?b # of_ht t ! nat ?h]) = (oft.abs ?n (of_ht t))(nm \<mapsto> ?b)"
      using oft.insert_wf [OF wf, of ?b] ok by simp_all
    then show ?thesis
      using none ch ab inv by (auto simp: OpenFileHashTbl_insert_def Let_def ops oft_map_def oft_inv_def fun_eq_iff)
  qed
  show "OpenFileHashTbl_insert t nm v = Some (HASHTBLERROR, t)" if "oft_map t nm \<noteq> None"
    using that ch ab by (simp add: OpenFileHashTbl_insert_def Let_def ops oft_map_def)
  show "OpenFileHashTbl_find t nm d = Some (OK, v)" if "oft_map t nm = Some v"
    using that ch ab by (auto simp: OpenFileHashTbl_find_def Let_def ops oft_map_def)
  show "OpenFileHashTbl_find t nm d = Some (HASHNOTFOUND, d)" if "oft_map t nm = None"
    using that ch ab by (simp add: OpenFileHashTbl_find_def Let_def ops oft_map_def)
  show "\<exists>t'. OpenFileHashTbl_erase t nm = Some (OK, t') \<and> oft_inv t' \<and> oft_map t' = (oft_map t)(nm := None) \<and> (\<lambda>_. True) = (\<lambda>_. True)"
    if "oft_map t nm \<noteq> None"
  proof -
    have "chain_remove (\<lambda>b. fb_fname b = nm) (of_ht t ! nat ?h) \<noteq> None"
      using that ab by (simp add: oft_map_def chain_remove_None)
    then obtain c where c: "chain_remove (\<lambda>b. fb_fname b = nm) (of_ht t ! nat ?h) = Some c" by blast
    then show ?thesis
      using ch inv oft.remove_wf [OF wf ok c]
      by (auto simp: OpenFileHashTbl_erase_def Let_def ops oft_map_def oft_inv_def fun_eq_iff)
  qed
  show "OpenFileHashTbl_erase t nm = Some (HASHTBLERROR, t)" if "oft_map t nm = None"
    using that ch ab chain_remove_None [of "\<lambda>b. fb_fname b = nm" "of_ht t ! nat ?h"]
    by (simp add: OpenFileHashTbl_erase_def Let_def ops oft_map_def)
qed

lemma oft_new: "oft_inv OpenFileHashTbl_new \<and> oft_map OpenFileHashTbl_new = Map.empty"
  using oft.wf_empty [of 113] oft.abs_empty [of 113]
  by (auto simp: oft_inv_def OpenFileHashTbl_new_def oft_map_def fun_eq_iff)


section \<open>Disk contents by name\<close>

definition name_page :: "'a fs_state_scheme \<Rightarrow> string \<Rightarrow> int \<Rightarrow> page option" where
  "name_page w nm p = (case disk w nm of None \<Rightarrow> None | Some u \<Rightarrow> if has_page u p then Some (fpage u p) else None)"

definition disk_ok :: "'a fs_state_scheme \<Rightarrow> bool" where
  "disk_ok w \<longleftrightarrow> (\<forall>nm u. disk w nm = Some u \<longrightarrow> file_ok u \<and> unix_name nm = nm)"

lemma disk_unix: "disk_ok w \<Longrightarrow> disk w nm = Some u \<Longrightarrow> unix_name nm = nm"
  by (simp add: disk_ok_def)

lemma disk_page_name: "file_name w f = Some nm \<Longrightarrow> disk_page w f p = name_page w nm p"
  by (simp add: disk_page_def name_page_def file_of_def)

lemma disk_frame_ok:
  assumes "disk_ok w" "disk_frame w w'" "fs_ok w'"
  shows "disk_ok w'"
  unfolding disk_ok_def
proof (intro allI impI)
  fix nm u
  assume u: "disk w' nm = Some u"
  have fn: "file_name w' = file_name w" using assms(2) file_name_cong [of w' w] by (simp add: disk_frame_def)
  have "disk w nm \<noteq> None" using assms(2) u by (simp add: disk_frame_def)
  then have "unix_name nm = nm" using disk_unix [OF assms(1)] by blast
  moreover have "file_ok u"
  proof (cases "\<exists>f. file_name w f = Some nm")
    case True
    then obtain f where "file_name w' f = Some nm" using fn by auto
    then have "file_of w' f = Some u" using u by (simp add: file_of_def)
    then show ?thesis using assms(3) by (simp add: fs_ok_def)
  next
    case False
    then show ?thesis using assms(1,2) u by (auto simp: disk_frame_def disk_ok_def)
  qed
  ultimately show "file_ok u \<and> unix_name nm = nm" by simp
qed


text \<open>The view of the disk depends on the names of the open files and the file contents only.\<close>

lemma names_cong:
  assumes "file_name w' = file_name w" "disk w' = disk w"
  shows "file_of w' = file_of w" "disk_page w' = disk_page w" "used_pages g w' = used_pages g w" "fs_ok w' = fs_ok w"
proof -
  show o: "file_of w' = file_of w" using assms by (intro ext) (simp add: file_of_def)
  show "disk_page w' = disk_page w" using o by (intro ext) (simp add: disk_page_def)
  show "used_pages g w' = used_pages g w" using o by (simp add: used_pages_def)
  show "fs_ok w' = fs_ok w" using o assms by (simp add: fs_ok_def fs_inv_def)
qed


section \<open>The invariant of the DB layer\<close>

text \<open>A live \<open>File\<close> object: open, in the table under its name, with its own descriptor.\<close>

definition file_obj_ok :: "'a db_state_scheme \<Rightarrow> ptr \<Rightarrow> File \<Rightarrow> bool" where
  "file_obj_ok w f fo \<longleftrightarrow> f \<noteq> NULL \<and> 1 \<le> openCnt fo \<and> oft_map (openFiles w) (fileName fo) = Some f \<and>
     fd_name w (unixFile fo) = Some (fileName fo) \<and> disk w (fileName fo) \<noteq> None"

definition db_inv :: "'a db_state_scheme \<Rightarrow> bool" where
  "db_inv w \<longleftrightarrow> buf_inv w \<and> coherent w \<and> bufMgr w \<and> oft_inv (openFiles w) \<and> disk_ok w \<and>
     (\<forall>f fo. files w f = Some fo \<longrightarrow> file_obj_ok w f fo) \<and>
     (\<forall>nm f. oft_map (openFiles w) nm = Some f \<longrightarrow> (\<exists>fo. files w f = Some fo \<and> fileName fo = nm))"

text \<open>How often a file is open, and the name of an open file.\<close>

definition open_count :: "'a fs_state_scheme \<Rightarrow> ptr \<Rightarrow> int" where
  "open_count w f = (case files w f of None \<Rightarrow> 0 | Some fo \<Rightarrow> openCnt fo)"

lemma db_inv_obj: "db_inv w \<Longrightarrow> files w f = Some fo \<Longrightarrow> file_obj_ok w f fo"
  by (simp add: db_inv_def)

lemma db_inv_table: "db_inv w \<Longrightarrow> oft_map (openFiles w) nm = Some f \<Longrightarrow> \<exists>fo. files w f = Some fo \<and> fileName fo = nm"
  unfolding db_inv_def by blast

lemma db_inv_file_name: "db_inv w \<Longrightarrow> file_name w f = map_option fileName (files w f)"
  using db_inv_obj [of w f] by (cases "files w f") (auto simp: file_name_def file_obj_ok_def)

lemma db_inv_name_unique: "db_inv w \<Longrightarrow> files w f = Some fo \<Longrightarrow> files w g = Some go \<Longrightarrow> fileName fo = fileName go \<Longrightarrow> f = g"
  using db_inv_obj [of w f fo] db_inv_obj [of w g go] by (simp add: file_obj_ok_def)

lemma db_inv_fd_unique: "db_inv w \<Longrightarrow> files w f = Some fo \<Longrightarrow> files w g = Some go \<Longrightarrow> unixFile fo = unixFile go \<Longrightarrow> f = g"
  using db_inv_obj [of w f fo] db_inv_obj [of w g go] by (simp add: file_obj_ok_def)

lemma valid_frame_open:
  assumes "buf_inv w" "i < frames w" "valid (bufTable w ! i)"
  shows "files w (bd_file (bufTable w ! i)) \<noteq> None"
  using used_file [OF valid_used [OF assms]] file_of_files by blast

text \<open>Only the page part of a state counts for the invariant of the pool.\<close>

lemma buf_inv_cong:
  assumes "buf_inv w" "coherent w" "fs_ok w'"
    and "numBufs w' = numBufs w" "hashTable w' = hashTable w" "bufTable w' = bufTable w" "bufPool w' = bufPool w" "clockHand w' = clockHand w"
    and "\<And>f. files w f \<noteq> None \<Longrightarrow> (\<exists>i < frames w. valid (bufTable w ! i) \<and> bd_file (bufTable w ! i) = f) \<Longrightarrow>
      used_pages f w' = used_pages f w \<and> disk_page w' f = disk_page w f"
  shows "buf_inv w'" "coherent w'"
proof -
  have same: "used_pages (bd_file (bufTable w ! i)) w' = used_pages (bd_file (bufTable w ! i)) w \<and>
      disk_page w' (bd_file (bufTable w ! i)) = disk_page w (bd_file (bufTable w ! i))" if "i < frames w" "valid (bufTable w ! i)" for i
    using assms(9) valid_frame_open [OF assms(1) that] that by blast
  have "desc_ok w' (bufTable w ! i)" if "i < frames w" for i
    using buf_inv_desc [OF assms(1) that] same [OF that] by (auto simp: desc_ok_def split: if_splits)
  then show "buf_inv w'"
    using assms(1,3-8) buf_inv_frame_of [OF assms(1)] by (intro buf_invI) (simp_all add: buf_inv_def)
  show "coherent w'" using assms(2,4-8) same by (simp add: coherent_def Let_def)
qed

text \<open>The pool is untouched.\<close>

definition same_pool :: "'a buf_state_scheme \<Rightarrow> 'a buf_state_scheme \<Rightarrow> bool" where
  "same_pool w w' \<longleftrightarrow> hashTable w' = hashTable w \<and> bufTable w' = bufTable w \<and> bufPool w' = bufPool w \<and>
     numBufs w' = numBufs w \<and> clockHand w' = clockHand w"

lemma pins_cong: "hashTable w' = hashTable w \<Longrightarrow> bufTable w' = bufTable w \<Longrightarrow> pins w' = pins w"
  by (simp add: pins_def fun_eq_iff split: option.splits)

lemma lpage_cong: "hashTable w' = hashTable w \<Longrightarrow> bufPool w' = bufPool w \<Longrightarrow> disk_page w' g q = disk_page w g q \<Longrightarrow> lpage w' g q = lpage w g q"
  by (simp add: lpage_def split: option.splits)

lemma db_fields_frame:
  "buf_state.more w' = buf_state.more w \<Longrightarrow> openFiles w' = openFiles w \<and> bufMgr w' = bufMgr w \<and> newAddr w' = newAddr w \<and> newCnt w' = newCnt w"
  by (cases w, cases w') simp

text \<open>Operations of the buffer manager keep the invariant of the DB layer.\<close>

lemma db_inv_frame:
  assumes "db_inv w" "buf_inv w'" "coherent w'" "buf_frame w w'"
  shows "db_inv w'"
proof -
  have fr: "disk_frame w w'" "files w' = files w" "fds w' = fds w"
    using assms(4) by (simp_all add: buf_frame_def disk_frame_def)
  have fld: "openFiles w' = openFiles w" "bufMgr w' = bufMgr w" using assms(4) db_fields_frame [of w' w] by (simp_all add: buf_frame_def)
  have ok: "fs_ok w'" using assms(2) by (simp add: buf_inv_def)
  then have "disk_ok w'" using disk_frame_ok [OF _ fr(1)] assms(1) by (simp add: db_inv_def)
  moreover have "disk w nm \<noteq> None \<Longrightarrow> disk w' nm \<noteq> None" for nm using fr(1) by (simp add: disk_frame_def)
  moreover have "fd_name w' = fd_name w" using fr(3) by (intro ext) (simp add: fd_name_def cong: if_cong)
  ultimately show ?thesis using assms fr fld by (simp add: db_inv_def file_obj_ok_def)
qed

section \<open>Descriptors\<close>

lemma first_free_fd_le: "first_free_fd ds \<le> length ds"
  by (induction ds rule: first_free_fd.induct) auto

lemma first_free_fd_None: "first_free_fd ds < length ds \<Longrightarrow> ds ! first_free_fd ds = None"
  by (induction ds rule: first_free_fd.induct) auto

lemma fd_name_cong: "fds w = fds w' \<Longrightarrow> fd_name w = fd_name w'"
  by (intro ext) (simp add: fd_name_def cong: if_cong)

lemma fd_name_index: "fd_name w (int i + 3) = (if i < length (fds w) then fds w ! i else None)"
  by (simp add: fd_name_def)

lemma fd_name_obtain: "fd_name w fd = Some x \<Longrightarrow> \<exists>i. fd = int i + 3 \<and> i < length (fds w) \<and> fds w ! i = Some x"
  by (intro exI [of _ "nat (fd - 3)"]) (auto simp: fd_name_def split: if_splits)

lemma sys_open_fds:
  assumes "disk w nm = Some u"
  shows "\<exists>i ds. sys_open w nm = (int i + 3, w\<lparr>fds := ds\<rparr>) \<and> fd_name (w\<lparr>fds := ds\<rparr>) (int i + 3) = Some nm \<and>
     (\<forall>fd x. fd_name w fd = Some x \<longrightarrow> fd \<noteq> int i + 3 \<and> fd_name (w\<lparr>fds := ds\<rparr>) fd = Some x)"
proof -
  let ?i = "first_free_fd (fds w)"
  let ?ds = "if ?i < length (fds w) then (fds w)[?i := Some nm] else fds w @ [Some nm]"
  have i: "?i \<le> length (fds w)" "?i < length (fds w) \<Longrightarrow> fds w ! ?i = None"
    using first_free_fd_le first_free_fd_None by blast+
  have "sys_open w nm = (int ?i + 3, w\<lparr>fds := ?ds\<rparr>)" using assms by (simp add: sys_open_def Let_def)
  moreover have "fd_name (w\<lparr>fds := ?ds\<rparr>) (int ?i + 3) = Some nm"
    using i by (cases "?i < length (fds w)") (auto simp: fd_name_index nth_append)
  moreover have "fd \<noteq> int ?i + 3 \<and> fd_name (w\<lparr>fds := ?ds\<rparr>) fd = Some x" if fdx: "fd_name w fd = Some x" for fd x
  proof -
    obtain j where j: "fd = int j + 3" "j < length (fds w)" "fds w ! j = Some x" using fd_name_obtain [OF fdx] by blast
    then have "j \<noteq> ?i" using i(2) by auto
    then show ?thesis using j by (auto simp: fd_name_index nth_append)
  qed
  ultimately show ?thesis by blast
qed

lemma sys_close_fds:
  assumes "fd_name w fd = Some nm"
  shows "\<exists>ds. sys_close w fd = (0, w\<lparr>fds := ds\<rparr>) \<and> fd_name (w\<lparr>fds := ds\<rparr>) fd = None \<and>
     (\<forall>fd'. fd' \<noteq> fd \<longrightarrow> fd_name (w\<lparr>fds := ds\<rparr>) fd' = fd_name w fd')"
proof -
  obtain i where i: "fd = int i + 3" "i < length (fds w)" "fds w ! i = Some nm" using fd_name_obtain [OF assms] by blast
  have "fd_name (w\<lparr>fds := (fds w)[i := None]\<rparr>) fd' = fd_name w fd'" if "fd' \<noteq> fd" for fd'
    using that i by (auto simp: fd_name_def nth_list_update)
  then show ?thesis using i assms by (intro exI [of _ "(fds w)[i := None]"]) (simp add: sys_close_def fd_name_index)
qed

section \<open>Opening a file that is already open\<close>

text \<open>Only the open count of a live object changes.\<close>

lemma recount:
  assumes inv: "db_inv w" and f: "files w f = Some fo" and n: "1 \<le> n"
  defines "w' \<equiv> w\<lparr>files := (files w)(f \<mapsto> fo\<lparr>openCnt := n\<rparr>)\<rparr>"
  shows "db_inv w' \<and> file_name w' = file_name w \<and> lpage w' = lpage w \<and> pins w' = pins w"
proof -
  have fd: "fd_name w' = fd_name w" by (simp add: w'_def fd_name_def fun_eq_iff)
  have fn: "file_name w' = file_name w" using f fd by (auto simp: file_name_def w'_def fun_eq_iff)
  note c = names_cong [OF fn, unfolded w'_def, simplified, folded w'_def]
  have b: "buf_inv w'" "coherent w'"
    by (rule buf_inv_cong [of w]; use inv c in \<open>simp add: db_inv_def buf_inv_def w'_def\<close>)+
  have "lpage w' = lpage w" "pins w' = pins w"
    using c(2) by (auto simp: lpage_def pins_def fun_eq_iff w'_def split: option.splits)
  moreover have "db_inv w'"
    unfolding db_inv_def
  proof (intro conjI allI impI)
    show "disk_ok w'" using inv by (simp add: db_inv_def disk_ok_def w'_def)
  next
    fix g go
    assume "files w' g = Some go"
    then show "file_obj_ok w' g go"
      using db_inv_obj [OF inv f] db_inv_obj [OF inv, of g go] n fd by (auto simp: w'_def file_obj_ok_def split: if_splits)
  next
    fix nm g
    assume "oft_map (openFiles w') nm = Some g"
    then show "\<exists>go. files w' g = Some go \<and> fileName go = nm" using db_inv_table [OF inv, of nm g] f by (auto simp: w'_def)
  qed (use inv b in \<open>simp_all add: db_inv_def w'_def\<close>)
  ultimately show ?thesis using fn by simp
qed

lemma find_open:
  assumes "db_inv w"
  shows "OpenFileHashTbl_find (openFiles w) nm d = (case oft_map (openFiles w) nm of Some f \<Rightarrow> Some (OK, f) | None \<Rightarrow> Some (HASHNOTFOUND, d))"
  using assms open_table.lookup_iff [of "openFiles w" nm d] by (simp add: db_inv_def)

lemma open_again:
  assumes inv: "db_inv w" and f: "oft_map (openFiles w) nm = Some f" and nm: "nm \<noteq> []"
  shows "\<exists>w'. DB_openFile w nm fp = Some (OK, f, w') \<and> db_inv w' \<and> open_count w' f = open_count w f + 1 \<and> 1 \<le> open_count w f \<and>
     (\<forall>g. g \<noteq> f \<longrightarrow> files w' g = files w g) \<and> openFiles w' = openFiles w \<and> lpage w' = lpage w \<and> pins w' = pins w \<and> same_pool w w'"
proof -
  obtain fo where fo: "files w f = Some fo" "fileName fo = nm" using db_inv_table [OF inv f] by blast
  have cnt: "1 \<le> openCnt fo" using db_inv_obj [OF inv fo(1)] by (simp add: file_obj_ok_def)
  let ?w = "w\<lparr>files := (files w)(f \<mapsto> fo\<lparr>openCnt := openCnt fo + 1\<rparr>)\<rparr>"
  have "DB_openFile w nm fp = Some (OK, f, ?w)"
    using nm f fo cnt by (simp add: DB_openFile_def find_open [OF inv] File_open_def)
  moreover have "db_inv ?w \<and> file_name ?w = file_name w \<and> lpage ?w = lpage w \<and> pins ?w = pins w"
    by (rule recount [OF inv fo(1)]) (use cnt in simp)
  ultimately show ?thesis using fo cnt by (intro exI [of _ ?w]) (auto simp: open_count_def same_pool_def)
qed

section \<open>Opening a closed file\<close>

lemma open_new:
  assumes inv: "db_inv w" and nm: "nm \<noteq> []" "oft_map (openFiles w) nm = None" "disk w nm = Some u"
    and f: "f = newAddr w (newCnt w)" "f \<noteq> NULL" "files w f = None"
  shows "\<exists>w'. DB_openFile w nm fp = Some (OK, f, w') \<and> db_inv w' \<and> open_count w' f = 1 \<and>
     oft_map (openFiles w') = (oft_map (openFiles w))(nm \<mapsto> f) \<and> file_name w' = (file_name w)(f \<mapsto> nm) \<and> disk w' = disk w \<and>
     (\<forall>g. g \<noteq> f \<longrightarrow> files w' g = files w g) \<and> (\<forall>g q. lpage w' g q = (if g = f then name_page w nm q else lpage w g q)) \<and>
     pins w' = pins w \<and> same_pool w w' \<and> newCnt w' = newCnt w + 1 \<and> newAddr w' = newAddr w"
proof -
  let ?w1 = "w\<lparr>newCnt := newCnt w + 1, files := (files w)(f \<mapsto> new_File nm)\<rparr>"
  obtain i ds where o: "sys_open ?w1 nm = (int i + 3, ?w1\<lparr>fds := ds\<rparr>)" "fd_name (?w1\<lparr>fds := ds\<rparr>) (int i + 3) = Some nm"
     "\<forall>fd x. fd_name ?w1 fd = Some x \<longrightarrow> fd \<noteq> int i + 3 \<and> fd_name (?w1\<lparr>fds := ds\<rparr>) fd = Some x"
    using sys_open_fds [of ?w1 nm u] nm(3) by auto
  have un: "unix_name nm = nm" using disk_unix [OF _ nm(3)] inv by (simp add: db_inv_def)
  have oi: "oft_inv (openFiles w)" using inv by (simp add: db_inv_def)
  obtain t where t: "OpenFileHashTbl_insert (openFiles w) nm f = Some (OK, t)" "oft_inv t" "oft_map t = (oft_map (openFiles w))(nm \<mapsto> f)"
    using open_table.insert_new [OF oi _ nm(2), of f] by auto
  let ?fo = "\<lparr>fileName = nm, openCnt = 1, unixFile = int i + 3\<rparr>"
  define w' where "w' = w\<lparr>newCnt := newCnt w + 1, fds := ds, files := (files w)(f \<mapsto> ?fo), openFiles := t\<rparr>"
  have run: "DB_openFile w nm fp = Some (OK, f, w')"
    using nm un o(1) t(1) f(1) by (simp add: DB_openFile_def find_open [OF inv] File_open_def new_File_def Let_def w'_def)
  have fd: "fd_name w' (int i + 3) = Some nm" "\<And>fd x. fd_name w fd = Some x \<Longrightarrow> fd_name w' fd = Some x"
    using o(2,3) fd_name_cong [of w' "?w1\<lparr>fds := ds\<rparr>"] fd_name_cong [of w ?w1] by (simp_all add: w'_def)
  have fn: "file_name w' g = (if g = f then Some nm else file_name w g)" for g
  proof (cases "files w g")
    case None
    then show ?thesis using fd(1) by (simp add: file_name_def w'_def)
  next
    case (Some go)
    then have "fd_name w (unixFile go) = Some (fileName go)" using db_inv_obj [OF inv] by (simp add: file_obj_ok_def)
    then have "file_name w g = Some (fileName go)" "fd_name w' (unixFile go) = Some (fileName go)" using Some fd(2) by (simp_all add: file_name_def)
    moreover have "g \<noteq> f" using Some f(3) by auto
    ultimately show ?thesis using Some by (simp add: file_name_def w'_def)
  qed
  have other: "used_pages g w' = used_pages g w" "disk_page w' g = disk_page w g" if "g \<noteq> f" for g
    using fn [of g] that by (simp_all add: used_pages_def disk_page_def file_of_def fun_eq_iff w'_def)
  have nf: "file_name w g \<noteq> Some nm" for g
    using db_inv_file_name [OF inv, of g] db_inv_obj [OF inv, of g] nm(2) by (auto simp: file_obj_ok_def)
  have "fs_inv w" using inv by (simp add: db_inv_def buf_inv_def fs_ok_def)
  then have "fs_inv w'"
    unfolding fs_inv_def using fn nf nf [symmetric] by auto
  moreover have "file_ok v" if "file_of w' g = Some v" for g v
    using that inv by (auto simp: db_inv_def disk_ok_def file_of_def w'_def split: bind_splits)
  ultimately have ok: "fs_ok w'" by (simp add: fs_ok_def)
  have noframe: "bd_file (bufTable w ! j) \<noteq> f" if "j < frames w" "valid (bufTable w ! j)" for j
    using valid_frame_open [of w j] inv that f(3) by (auto simp: db_inv_def)
  have b: "buf_inv w'" "coherent w'"
    by (rule buf_inv_cong [of w]; use inv ok other noframe in \<open>force simp: db_inv_def w'_def\<close>)+
  have notbuf: "frame_of w (f, q) = None" for q
    using buf_inv_frame_of [of w "(f, q)"] inv noframe by (cases "frame_of w (f, q)") (auto simp: db_inv_def desc_key_def)
  have lp: "lpage w' g q = (if g = f then name_page w nm q else lpage w g q)" for g q
  proof (cases "g = f")
    case True
    then show ?thesis using notbuf [of q] fn [of f] disk_page_name [of w' f nm q] by (simp add: lpage_def w'_def name_page_def)
  next
    case False
    then show ?thesis using other(2) [OF False] by (simp add: lpage_def w'_def split: option.splits)
  qed
  have "db_inv w'"
    unfolding db_inv_def
  proof (intro conjI allI impI)
    fix g go
    assume "files w' g = Some go"
    then show "file_obj_ok w' g go"
      using db_inv_obj [OF inv, of g go] fd t(3) nm f(2) nf db_inv_file_name [OF inv, of g]
      by (auto simp: file_obj_ok_def w'_def split: if_splits)
  next
    fix n g
    assume "oft_map (openFiles w') n = Some g"
    then show "\<exists>go. files w' g = Some go \<and> fileName go = n"
      using t(3) db_inv_table [OF inv, of n g] f(3) by (auto simp: w'_def split: if_splits)
  qed (use inv b t(2) in \<open>simp_all add: db_inv_def disk_ok_def w'_def\<close>)
  moreover have "pins w' = pins w" by (rule pins_cong) (simp_all add: w'_def)
  moreover have "file_name w' = (file_name w)(f \<mapsto> nm)" using fn by (simp add: fun_eq_iff)
  ultimately show ?thesis
    using run lp t(3) by (intro exI [of _ w']) (simp add: open_count_def, simp add: w'_def same_pool_def)
qed

lemma open_missing:
  assumes inv: "db_inv w" and nm: "nm \<noteq> []" "oft_map (openFiles w) nm = None" "disk w (unix_name nm) = None"
  shows "\<exists>w' f. DB_openFile w nm fp = Some (UNIXERR, f, w') \<and> files w' = (files w)(f := None) \<and> disk w' = disk w \<and> openFiles w' = openFiles w"
  using nm by (simp add: DB_openFile_def find_open [OF inv] File_open_def new_File_def sys_open_def delete_File_def Let_def)

section \<open>Closing a file\<close>

lemma close_shared:
  assumes inv: "db_inv w" and cnt: "1 < open_count w f"
  shows "\<exists>w'. DB_closeFile w f = Some (OK, w') \<and> db_inv w' \<and> open_count w' f = open_count w f - 1 \<and> lpage w' = lpage w \<and> pins w' = pins w \<and>
     openFiles w' = openFiles w \<and> disk w' = disk w \<and> (\<forall>g. g \<noteq> f \<longrightarrow> files w' g = files w g) \<and> same_pool w w'"
proof -
  obtain fo where fo: "files w f = Some fo" "1 < openCnt fo" using cnt by (auto simp: open_count_def split: option.splits)
  have f: "f \<noteq> NULL" using db_inv_obj [OF inv fo(1)] by (simp add: file_obj_ok_def)
  let ?w = "w\<lparr>files := (files w)(f \<mapsto> fo\<lparr>openCnt := openCnt fo - 1\<rparr>)\<rparr>"
  have "DB_closeFile w f = Some (OK, ?w)" using fo f by (simp add: DB_closeFile_def File_close_def Let_def)
  moreover have "db_inv ?w \<and> file_name ?w = file_name w \<and> lpage ?w = lpage w \<and> pins ?w = pins w"
    by (rule recount [OF inv fo(1)]) (use fo in simp)
  ultimately show ?thesis using fo by (intro exI [of _ ?w]) (auto simp: open_count_def same_pool_def)
qed

text \<open>
  The steps of the last close: \<open>w2\<close> is the state after \<open>flushFile\<close>; the descriptor is closed,
  the table entry removed and the object deleted whatever \<open>flushFile\<close> returned.
\<close>

lemma close_last_steps:
  assumes inv: "db_inv w" and fo: "files w f = Some fo" "openCnt fo = 1"
  shows "\<exists>w1 w2 w'. DB_closeFile w f = Some (OK, w') \<and> w1 = w\<lparr>files := (files w)(f \<mapsto> fo\<lparr>openCnt := 0\<rparr>)\<rparr> \<and>
     file_name w1 = file_name w \<and> disk_page w1 = disk_page w \<and> lpage w1 = lpage w \<and> flushed w1 f w2 \<and>
     ((\<exists>p. 0 < pins w f p) \<or> (\<forall>p. frame_of w2 (f, p) = None \<and> name_page w2 (fileName fo) p = lpage w f p)) \<and>
     disk w' = disk w2 \<and> hashTable w' = hashTable w2 \<and> bufTable w' = bufTable w2 \<and> bufPool w' = bufPool w2 \<and>
     numBufs w' = numBufs w2 \<and> clockHand w' = clockHand w2 \<and> bufMgr w' \<and>
     files w' = (files w)(f := None) \<and> (\<forall>fd. fd \<noteq> unixFile fo \<longrightarrow> fd_name w' fd = fd_name w fd) \<and>
     oft_inv (openFiles w') \<and> oft_map (openFiles w') = (oft_map (openFiles w))(fileName fo := None) \<and>
     newAddr w' = newAddr w \<and> newCnt w' = newCnt w"
proof -
  have o: "f \<noteq> NULL" "oft_map (openFiles w) (fileName fo) = Some f" "fd_name w (unixFile fo) = Some (fileName fo)"
    using db_inv_obj [OF inv fo(1)] by (simp_all add: file_obj_ok_def)
  define w1 where "w1 = w\<lparr>files := (files w)(f \<mapsto> fo\<lparr>openCnt := 0\<rparr>)\<rparr>"
  have fd1: "fd_name w1 = fd_name w" by (rule fd_name_cong) (simp add: w1_def)
  have fn: "file_name w1 = file_name w" using fo fd1 by (auto simp: file_name_def w1_def fun_eq_iff)
  have dk: "disk w1 = disk w" by (simp add: w1_def)
  note c = names_cong [OF fn dk]
  have b: "buf_inv w1" "coherent w1"
    by (rule buf_inv_cong [of w]; use inv c in \<open>simp add: db_inv_def buf_inv_def w1_def\<close>)+
  have lp: "lpage w1 = lpage w" by (intro ext lpage_cong) (simp_all add: c, simp_all add: w1_def)
  have pn: "pins w1 = pins w" by (rule pins_cong) (simp_all add: w1_def)
  obtain w2 where w2: "BufMgr_flushFile w1 f = Some (if \<exists>p. 0 < pins w f p then PAGEPINNED else OK, w2)" "flushed w1 f w2"
      "(\<exists>p. 0 < pins w f p) \<or> (\<forall>p. frame_of w2 (f, p) = None \<and> disk_page w2 f p = lpage w f p)"
    using flushFile_spec [OF b o(1)] unfolding lp pn by blast
  have fr: "files w2 = files w1" "fds w2 = fds w1" "buf_state.more w2 = buf_state.more w1"
    using w2(2) by (simp_all add: flushed_def buf_frame_def disk_frame_def)
  have fld: "openFiles w2 = openFiles w" "bufMgr w2" "newAddr w2 = newAddr w" "newCnt w2 = newCnt w"
    using db_fields_frame [OF fr(3)] inv by (simp_all add: w1_def db_inv_def)
  have fd2: "fd_name w2 = fd_name w" using fd_name_cong [OF fr(2)] fd1 by simp
  obtain ds where ds: "sys_close w2 (unixFile fo) = (0, w2\<lparr>fds := ds\<rparr>)"
      "\<forall>fd'. fd' \<noteq> unixFile fo \<longrightarrow> fd_name (w2\<lparr>fds := ds\<rparr>) fd' = fd_name w2 fd'"
    using sys_close_fds [of w2 "unixFile fo" "fileName fo"] o(3) fd2 by auto
  have cl: "File_close w f = Some (OK, w2\<lparr>fds := ds\<rparr>)"
    using fo w2(1) ds(1) inv by (simp add: File_close_def Let_def w1_def [symmetric] db_inv_def, simp add: w1_def)
  have oi: "oft_inv (openFiles w)" using inv by (simp add: db_inv_def)
  obtain t where t: "OpenFileHashTbl_erase (openFiles w) (fileName fo) = Some (OK, t)" "oft_inv t"
      "oft_map t = (oft_map (openFiles w))(fileName fo := None)"
    using open_table.remove_present [OF oi, of "fileName fo"] o(2) by auto
  define w' where "w' = w2\<lparr>fds := ds, openFiles := t, files := (files w2)(f := None)\<rparr>"
  have "DB_closeFile w f = Some (OK, w')"
    using o(1) cl fr(1) t(1) fld by (simp add: DB_closeFile_def Let_def w'_def, simp add: w1_def delete_File_def)
  moreover have "files w' = (files w)(f := None)" using fr(1) by (simp add: w'_def w1_def fun_eq_iff)
  moreover have "fd_name w' fd = fd_name w fd" if "fd \<noteq> unixFile fo" for fd
    using ds(2) that fd2 fd_name_cong [of w' "w2\<lparr>fds := ds\<rparr>"] by (simp add: w'_def)
  moreover have "name_page w2 (fileName fo) p = disk_page w2 f p" for p
    using disk_page_name [of w2 f "fileName fo" p] fr(1) fo fd2 o(3) by (simp add: file_name_def w1_def)
  ultimately show ?thesis
    using w2(2,3) t fld fn c(2) lp by (intro exI [of _ w1] exI [of _ w2] exI [of _ w']) (simp add: w'_def, simp add: w1_def)
qed

text \<open>Flushing changes no pin count: only frames that are not pinned are given up.\<close>

lemma flushed_pins:
  assumes inv: "buf_inv w" and fl: "flushed w f w'"
  shows "pins w' = pins w"
proof (intro ext)
  fix g q
  have inv': "buf_inv w'" "frames w' = frames w" using fl by (simp_all add: flushed_def)
  have d: "bufTable w' ! i = bufTable w ! i \<or> \<not> valid (bufTable w' ! i) \<and> pinCnt (bufTable w ! i) = 0" if "i < frames w" for i
    using fl that by (auto simp: flushed_def)
  have bk: "frame_of w (g, q) = Some j \<and> bufTable w' ! nat j = bufTable w ! nat j" if "frame_of w' (g, q) = Some j" for j
    using that d [of "nat j"] buf_inv_frame_of [OF inv'(1), of "(g, q)" j] buf_inv_frame_of [OF inv, of "(g, q)" j] inv'(2) by auto
  show "pins w' g q = pins w g q"
  proof (cases "frame_of w' (g, q)")
    case None
    have "pinCnt (bufTable w ! nat j) = 0" if j: "frame_of w (g, q) = Some j" for j
      using j d [of "nat j"] buf_inv_frame_of [OF inv'(1), of "(g, q)" j] buf_inv_frame_of [OF inv, of "(g, q)" j] inv'(2) None by auto
    then show ?thesis using None by (simp add: pins_def split: option.splits)
  next
    case (Some j)
    then show ?thesis using bk by (simp add: pins_def)
  qed
qed

lemma flushed_frames:
  assumes inv: "buf_inv w" and fl: "flushed w f w'" and p: "0 < pins w g q"
  shows "frame_of w' (g, q) = frame_of w (g, q)"
proof -
  have f: "buf_inv w'" "frames w' = frames w" using fl by (simp_all add: flushed_def)
  have "0 < pins w' g q" using p flushed_pins [OF inv fl] by simp
  then obtain j where j: "frame_of w' (g, q) = Some j" by (auto simp: pins_def split: option.splits)
  have v: "0 \<le> j" "nat j < frames w" "valid (bufTable w' ! nat j)" "desc_key (bufTable w' ! nat j) = (g, q)"
    using buf_inv_frame_of [OF f(1), of "(g, q)" j] j f(2) by simp_all
  then have "bufTable w' ! nat j = bufTable w ! nat j" using fl unfolding flushed_def by fastforce
  then show ?thesis using buf_inv_frame_of [OF inv, of "(g, q)" j] v j by simp
qed

lemma flushed_clean:
  assumes inv: "buf_inv w" and fl: "flushed w f w'" and g: "g \<noteq> f" "clean w g q"
  shows "clean w' g q"
  unfolding clean_def
proof (intro allI impI)
  fix i
  assume i: "frame_of w' (g, q) = Some i"
  have f: "buf_inv w'" "frames w' = frames w" "lpage w' g q = lpage w g q" "disk_page w' g q = disk_page w g q" using fl g(1) by (simp_all add: flushed_def)
  have v: "0 \<le> i" "nat i < frames w" "valid (bufTable w' ! nat i)" "desc_key (bufTable w' ! nat i) = (g, q)"
    using buf_inv_frame_of [OF f(1), of "(g, q)" i] i f(2) by simp_all
  then have t: "bufTable w' ! nat i = bufTable w ! nat i" using fl unfolding flushed_def by fastforce
  then have "frame_of w (g, q) = Some i" using buf_inv_frame_of [OF inv, of "(g, q)" i] v by simp
  then show "dirty (bufTable w' ! nat i) \<or> disk_page w' g q = Some (page_img (bufPool w' ! nat i))"
    using g(2) f(3,4) t i by (auto simp: clean_def lpage_def)
qed

lemma close_last:
  assumes inv: "db_inv w" and cnt: "open_count w f = 1" and nm: "file_name w f = Some nm" and free: "\<forall>p. pins w f p = 0"
  shows "\<exists>w'. DB_closeFile w f = Some (OK, w') \<and> db_inv w' \<and> files w' = (files w)(f := None) \<and>
     oft_map (openFiles w') = (oft_map (openFiles w))(nm := None) \<and> (\<forall>q. name_page w' nm q = lpage w f q) \<and>
     (\<forall>g q. g \<noteq> f \<longrightarrow> lpage w' g q = lpage w g q) \<and> pins w' = pins w \<and> frames w' = frames w \<and>
     bht_valid (hashTable w') = bht_valid (hashTable w) \<and> newAddr w' = newAddr w \<and> newCnt w' = newCnt w \<and>
     (\<exists>u. disk w' nm = Some u \<and> in_use u = used_pages f w) \<and> (\<forall>n. (\<forall>g. file_name w g \<noteq> Some n) \<longrightarrow> disk w' n = disk w n) \<and>
     (\<forall>g q. g \<noteq> f \<longrightarrow> clean w g q \<longrightarrow> clean w' g q) \<and> (\<forall>g. g \<noteq> f \<longrightarrow> used_pages g w' = used_pages g w) \<and>
     (\<forall>g q. 0 < pins w g q \<longrightarrow> frame_of w' (g, q) = frame_of w (g, q))"
proof -
  obtain fo where fo: "files w f = Some fo" "openCnt fo = 1" using cnt by (auto simp: open_count_def split: option.splits)
  have nm': "fileName fo = nm" using db_inv_file_name [OF inv, of f] fo nm by simp
  obtain w1 w2 w' where c: "DB_closeFile w f = Some (OK, w')" and w1: "w1 = w\<lparr>files := (files w)(f \<mapsto> fo\<lparr>openCnt := 0\<rparr>)\<rparr>"
     "file_name w1 = file_name w" "disk_page w1 = disk_page w" "lpage w1 = lpage w" and fl: "flushed w1 f w2"
     and np: "\<forall>p. frame_of w2 (f, p) = None \<and> name_page w2 nm p = lpage w f p"
     and w': "disk w' = disk w2" "hashTable w' = hashTable w2" "bufTable w' = bufTable w2" "bufPool w' = bufPool w2"
     "numBufs w' = numBufs w2" "clockHand w' = clockHand w2" "bufMgr w'" "files w' = (files w)(f := None)"
     "\<forall>fd. fd \<noteq> unixFile fo \<longrightarrow> fd_name w' fd = fd_name w fd" "oft_inv (openFiles w')"
     "oft_map (openFiles w') = (oft_map (openFiles w))(nm := None)" "newAddr w' = newAddr w" "newCnt w' = newCnt w"
    using close_last_steps [OF inv fo] free unfolding nm' by force
  have fr: "disk_frame w1 w2" "lpage w2 = lpage w" "buf_inv w2" "coherent w2"
    using fl w1(4) by (simp_all add: flushed_def buf_frame_def)
  have fn: "file_name w' g = (if g = f then None else file_name w g)" for g
  proof (cases "files w g")
    case (Some go)
    then have "unixFile go = unixFile fo \<longleftrightarrow> g = f" using db_inv_fd_unique [OF inv Some fo(1)] fo(1) by auto
    then show ?thesis using Some w'(8,9) by (auto simp: file_name_def)
  qed (simp add: file_name_def w'(8))
  have fn2: "file_name w2 = file_name w" using fr(1) w1(2) file_name_cong [of w2 w1] by (simp add: disk_frame_def)
  have other: "used_pages g w' = used_pages g w2" "disk_page w' g = disk_page w2 g" "file_of w' g = file_of w2 g" if "g \<noteq> f" for g
  proof -
    show "file_of w' g = file_of w2 g" using fn [of g] fn2 that w'(1) by (simp add: file_of_def)
    then show "used_pages g w' = used_pages g w2" "disk_page w' g = disk_page w2 g"
      by (simp_all add: used_pages_def disk_page_def fun_eq_iff)
  qed
  have none: "file_of w' f = None" using fn by (simp add: file_of_def)
  have "fs_ok w2" using fr(3) by (simp add: buf_inv_def)
  then have ok: "fs_ok w'"
    unfolding fs_ok_def fs_inv_def using fn fn2 other(3) none by (metis option.distinct(1))
  have noframe: "bd_file (bufTable w2 ! j) \<noteq> f" if "j < frames w2" "valid (bufTable w2 ! j)" for j
    using valid_frame_of [OF fr(3) that] np by (auto simp: desc_key_def)
  have b: "buf_inv w'" "coherent w'"
    by (rule buf_inv_cong [of w2]; use fr ok other noframe w' in force)+
  have "disk_ok w2"
  proof (rule disk_frame_ok [OF _ fr(1)])
    show "disk_ok w1" using inv w1(1) by (simp add: db_inv_def disk_ok_def)
  qed fact
  then have dok: "disk_ok w'" using w'(1) by (simp add: disk_ok_def)
  have keep: "disk w n \<noteq> None \<Longrightarrow> disk w' n \<noteq> None" for n using fr(1) w1(1) w'(1) by (simp add: disk_frame_def)
  have "db_inv w'"
    unfolding db_inv_def
  proof (intro conjI allI impI)
    fix g go
    assume go: "files w' g = Some go"
    then have g: "g \<noteq> f" "files w g = Some go" using w'(8) by (auto split: if_splits)
    then have "unixFile go \<noteq> unixFile fo" "fileName go \<noteq> nm"
      using db_inv_fd_unique [OF inv g(2) fo(1)] db_inv_name_unique [OF inv g(2) fo(1)] nm' by auto
    then show "file_obj_ok w' g go" using db_inv_obj [OF inv g(2)] w'(9,11) keep by (simp add: file_obj_ok_def)
  next
    fix n g
    assume "oft_map (openFiles w') n = Some g"
    then have n: "n \<noteq> nm" "oft_map (openFiles w) n = Some g" using w'(11) by (auto split: if_splits)
    then show "\<exists>go. files w' g = Some go \<and> fileName go = n"
      using db_inv_table [OF inv n(2)] w'(8) fo nm' by auto
  qed (use b w' dok in simp_all)
  moreover have "disk w' n = disk w n" if "\<forall>g. file_name w g \<noteq> Some n" for n
    using fr(1) that w'(1) w1(1,2) by (simp add: disk_frame_def)
  moreover have "name_page w' nm q = lpage w f q" for q using np w'(1) by (simp add: name_page_def)
  moreover have "lpage w' g q = lpage w g q" if "g \<noteq> f" for g q
    using lpage_cong [of w' w2 g q] w'(2,4) other(2) [OF that] fr(2) by simp
  moreover have "pins w' = pins w" "frames w' = frames w" "bht_valid (hashTable w') = bht_valid (hashTable w)"
     "\<forall>g q. g \<noteq> f \<longrightarrow> clean w g q \<longrightarrow> clean w' g q" "\<forall>g. g \<noteq> f \<longrightarrow> used_pages g w' = used_pages g w"
     "\<forall>g q. 0 < pins w g q \<longrightarrow> frame_of w' (g, q) = frame_of w (g, q)"
  proof -
    show "\<forall>g. g \<noteq> f \<longrightarrow> used_pages g w' = used_pages g w" using other(1) fl names_cong(3) [OF w1(2)] w1(1) by (simp add: flushed_def)
    have b1: "buf_inv w1" by (rule buf_inv_cong(1) [of w]; use inv w1 names_cong [OF w1(2)] in \<open>simp add: db_inv_def buf_inv_def\<close>)
    have pn: "pins w' = pins w2" "pins w1 = pins w" by (rule pins_cong; simp add: w' w1(1))+
    then show "pins w' = pins w" using flushed_pins [OF b1 fl] by simp
    show "\<forall>g q. 0 < pins w g q \<longrightarrow> frame_of w' (g, q) = frame_of w (g, q)" using flushed_frames [OF b1 fl] pn(2) w'(2) w1(1) by simp
    show "frames w' = frames w" "bht_valid (hashTable w') = bht_valid (hashTable w)" using fl w1(1) w'(2,3) by (simp_all add: flushed_def)
    have "clean w1 g q = clean w g q" for g q unfolding clean_def w1(3) by (simp add: w1(1))
    then show "\<forall>g q. g \<noteq> f \<longrightarrow> clean w g q \<longrightarrow> clean w' g q" using flushed_clean [OF b1 fl] other(2) w'(2-4) by (simp add: clean_def)
  qed
  moreover have "\<exists>u. disk w' nm = Some u \<and> in_use u = used_pages f w"
  proof -
    have "disk w nm \<noteq> None" using db_inv_obj [OF inv fo(1)] nm' by (simp add: file_obj_ok_def)
    then obtain u where u: "disk w' nm = Some u" using keep by blast
    then have "used_pages f w2 = in_use u" using fn2 nm w'(1) by (simp add: used_pages_def file_of_def)
    moreover have "used_pages f w2 = used_pages f w1" using fl by (simp add: flushed_def)
    moreover have "used_pages f w1 = used_pages f w" using names_cong(3) [OF w1(2)] w1(1) by simp
    ultimately show ?thesis using u by simp
  qed
  ultimately show ?thesis using c w' by blast
qed

text \<open>With a page still pinned the object is deleted under the buffer manager.\<close>

lemma close_pinned:
  assumes inv: "db_inv w" and cnt: "open_count w f = 1" and pin: "0 < pins w f p"
  shows "\<exists>w' i. DB_closeFile w f = Some (OK, w') \<and> files w' f = None \<and> i < frames w' \<and> valid (bufTable w' ! i) \<and>
     bd_file (bufTable w' ! i) = f"
proof -
  obtain fo where fo: "files w f = Some fo" "openCnt fo = 1" using cnt by (auto simp: open_count_def split: option.splits)
  obtain w1 w2 w' where c: "DB_closeFile w f = Some (OK, w')" and w1: "w1 = w\<lparr>files := (files w)(f \<mapsto> fo\<lparr>openCnt := 0\<rparr>)\<rparr>"
     and fl: "flushed w1 f w2" and w': "bufTable w' = bufTable w2" "files w' = (files w)(f := None)"
    using close_last_steps [OF inv fo] by blast
  obtain i where i: "i < frames w" "valid (bufTable w ! i)" "desc_key (bufTable w ! i) = (f, p)" "pinCnt (bufTable w ! i) = pins w f p"
    by (rule pins_frame [of w f p]) (use inv pin in \<open>auto simp: db_inv_def\<close>)
  have "bufTable w2 ! i = bufTable w ! i" "frames w2 = frames w" using fl w1 i(1,4) pin by (auto simp: flushed_def)
  then show ?thesis using c w' i by (intro exI [of _ w'] exI [of _ i]) (simp add: desc_key_def)
qed

section \<open>Creating and destroying files\<close>

text \<open>A change of files that are not open.\<close>

lemma closed_change:
  assumes inv: "db_inv w" and keep: "\<And>nm f. oft_map (openFiles w) nm = Some f \<Longrightarrow> d nm = disk w nm"
    and ok: "\<And>nm u. d nm = Some u \<Longrightarrow> file_ok u \<and> unix_name nm = nm"
  shows "db_inv (w\<lparr>disk := d\<rparr>) \<and> lpage (w\<lparr>disk := d\<rparr>) = lpage w \<and> pins (w\<lparr>disk := d\<rparr>) = pins w"
proof -
  let ?w = "w\<lparr>disk := d\<rparr>"
  have open_name: "oft_map (openFiles w) n = Some f" if "file_name w f = Some n" for f n
    using that db_inv_file_name [OF inv, of f] db_inv_obj [OF inv, of f] by (auto simp: file_obj_ok_def)
  have fo: "file_of ?w = file_of w"
  proof
    fix f
    show "file_of ?w f = file_of w f"
      using open_name keep by (cases "file_name w f") (auto simp: file_of_def)
  qed
  then have dp: "disk_page ?w = disk_page w" "\<And>g. used_pages g ?w = used_pages g w"
    by (simp_all add: disk_page_def used_pages_def fun_eq_iff)
  have "fs_ok w" using inv by (simp add: db_inv_def buf_inv_def)
  then have fok: "fs_ok ?w" using fo unfolding fs_ok_def fs_inv_def file_name_disk by auto
  have b: "buf_inv ?w" "coherent ?w"
    by (rule buf_inv_cong [of w]; use inv fok dp in \<open>simp add: db_inv_def\<close>)+
  moreover have "file_obj_ok ?w g go" if "files w g = Some go" for g go
    using db_inv_obj [OF inv that] keep by (auto simp: file_obj_ok_def)
  ultimately have "db_inv ?w" using inv ok by (simp add: db_inv_def disk_ok_def)
  moreover have "lpage ?w = lpage w" by (intro ext lpage_cong) (simp_all add: dp)
  moreover have "pins ?w = pins w" by (rule pins_cong) simp_all
  ultimately show ?thesis by blast
qed

lemma db_inv_open_disk: "db_inv w \<Longrightarrow> oft_map (openFiles w) nm = Some f \<Longrightarrow> disk w nm \<noteq> None"
  using db_inv_table [of w nm f] db_inv_obj [of w f] by (auto simp: file_obj_ok_def)

lemma open_unix_name: "db_inv w \<Longrightarrow> oft_map (openFiles w) nm = Some f \<Longrightarrow> unix_name nm = nm"
  using db_inv_open_disk [of w nm f] disk_unix [of w nm] by (auto simp: db_inv_def)

lemma createFile_spec:
  assumes inv: "db_inv w" and nm: "nm \<noteq> []"
  shows "if disk w (unix_name nm) \<noteq> None then DB_createFile w nm = Some (FILEEXISTS, w)
    else \<exists>w' u. DB_createFile w nm = Some (OK, w') \<and> w' = w\<lparr>disk := (disk w)(unix_name nm \<mapsto> u)\<rparr> \<and> db_inv w' \<and> file_ok u \<and> in_use u = {} \<and>
      lpage w' = lpage w \<and> pins w' = pins w"
proof (cases "oft_map (openFiles w) nm")
  case (Some f)
  then show ?thesis using nm db_inv_open_disk [OF inv Some] open_unix_name [OF inv Some] by (simp add: DB_createFile_def find_open [OF inv])
next
  case None
  let ?u = "sys_write \<lparr>fsize = 0, fdata = zero_mem\<rparr> 0 empty_header" and ?nm = "unix_name nm"
  have run: "DB_createFile w nm = Some (File_create w nm)" using nm None by (simp add: DB_createFile_def find_open [OF inv])
  have cl: "oft_map (openFiles w) ?nm = None" if "disk w ?nm = None"
    using that db_inv_open_disk [OF inv, of ?nm] by (cases "oft_map (openFiles w) ?nm") auto
  have "db_inv (w\<lparr>disk := (disk w)(?nm \<mapsto> ?u)\<rparr>) \<and> lpage (w\<lparr>disk := (disk w)(?nm \<mapsto> ?u)\<rparr>) = lpage w \<and>
      pins (w\<lparr>disk := (disk w)(?nm \<mapsto> ?u)\<rparr>) = pins w" if "disk w ?nm = None"
    by (rule closed_change [OF inv]) (use cl [OF that] new_file_ok inv in \<open>auto simp: db_inv_def disk_ok_def split: if_splits\<close>)
  then show ?thesis using run new_file_ok by (auto simp: File_create_def split: option.splits)
qed

lemma destroyFile_spec:
  assumes inv: "db_inv w" and nm: "nm \<noteq> []"
  shows "if oft_map (openFiles w) nm \<noteq> None then DB_destroyFile w nm = Some (FILEOPEN, w)
    else if disk w (unix_name nm) = None then DB_destroyFile w nm = Some (UNIXERR, w)
    else \<exists>w'. DB_destroyFile w nm = Some (OK, w') \<and> w' = w\<lparr>disk := (disk w)(unix_name nm := None)\<rparr> \<and>
      (oft_map (openFiles w) (unix_name nm) = None \<longrightarrow> db_inv w' \<and> lpage w' = lpage w \<and> pins w' = pins w)"
proof (cases "oft_map (openFiles w) nm")
  case (Some f)
  then show ?thesis using nm by (simp add: DB_destroyFile_def find_open [OF inv])
next
  case None
  let ?nm = "unix_name nm"
  have run: "DB_destroyFile w nm = Some (File_destroy w nm)" using nm None by (simp add: DB_destroyFile_def find_open [OF inv])
  have "db_inv (w\<lparr>disk := (disk w)(?nm := None)\<rparr>) \<and> lpage (w\<lparr>disk := (disk w)(?nm := None)\<rparr>) = lpage w \<and>
      pins (w\<lparr>disk := (disk w)(?nm := None)\<rparr>) = pins w" if "oft_map (openFiles w) ?nm = None"
    by (rule closed_change [OF inv]) (use that inv in \<open>auto simp: db_inv_def disk_ok_def split: if_splits\<close>)
  then show ?thesis using run None by (auto simp: File_destroy_def split: option.splits)
qed


section \<open>A sample database\<close>

definition empty_db :: "int \<Rightarrow> db_state" where
  "empty_db bufs = BufMgr_new \<lparr>disk = Map.empty, fds = [], files = Map.empty, clockHand = 0, numBufs = 0, hashTable = BufHashTbl_new 0,
     bufTable = [], bufPool = [], bufStats = BufStats_clear, openFiles = OpenFileHashTbl_new, bufMgr = True,
     newAddr = (\<lambda>n. 4096 + 64 * of_nat n), newCnt = 0\<rparr> bufs"

definition sample_db1 :: db_state where
  "sample_db1 = snd (the (DB_createFile (empty_db 2) ''rel''))"

definition sample_db :: db_state where
  "sample_db = snd (snd (the (DB_openFile sample_db1 ''rel'' NULL)))"

lemma empty_db_inv: "0 < bufs \<Longrightarrow> db_inv (empty_db bufs) \<and> oft_map (openFiles (empty_db bufs)) = Map.empty \<and> disk (empty_db bufs) = Map.empty \<and>
    files (empty_db bufs) = Map.empty \<and> newAddr (empty_db bufs) (newCnt (empty_db bufs)) = 4096"
proof -
  assume n: "0 < bufs"
  let ?b = "\<lparr>disk = Map.empty, fds = [], files = Map.empty, clockHand = 0, numBufs = 0, hashTable = BufHashTbl_new 0,
     bufTable = [], bufPool = [], bufStats = BufStats_clear, openFiles = OpenFileHashTbl_new, bufMgr = True,
     newAddr = (\<lambda>n. 4096 + 64 * of_nat n), newCnt = 0\<rparr> :: db_state"
  have "fs_ok ?b" by (simp add: fs_ok_def fs_inv_def file_of_def file_name_def)
  from BufMgr_new_inv [OF this n] have "buf_inv (empty_db bufs)" "coherent (empty_db bufs)" by (simp_all add: empty_db_def)
  then show ?thesis using oft_new by (simp add: db_inv_def disk_ok_def, simp add: empty_db_def BufMgr_new_def)
qed

lemma sample_db1_facts: "db_inv sample_db1 \<and> oft_map (openFiles sample_db1) = Map.empty \<and> files sample_db1 = Map.empty \<and>
    newAddr sample_db1 (newCnt sample_db1) = 4096 \<and> (\<exists>u. disk sample_db1 ''rel'' = Some u \<and> in_use u = {})"
proof -
  note e = empty_db_inv [of 2, simplified]
  obtain w' u where w: "DB_createFile (empty_db 2) ''rel'' = Some (OK, w')" "w' = (empty_db 2)\<lparr>disk := (disk (empty_db 2))(''rel'' \<mapsto> u)\<rparr>"
      "db_inv w'" "in_use u = {}"
    using createFile_spec [of "empty_db 2" "''rel''"] e by auto
  have s: "sample_db1 = w'" using w(1) by (simp add: sample_db1_def)
  have "oft_map (openFiles w') = Map.empty \<and> files w' = Map.empty \<and> newAddr w' (newCnt w') = 4096 \<and> disk w' ''rel'' = Some u"
    unfolding w(2) using e by simp
  then show ?thesis unfolding s using w(3,4) by auto
qed

lemma sample_db1_eq: "sample_db1 = (empty_db 2)\<lparr>disk := [''rel'' \<mapsto> sys_write \<lparr>fsize = 0, fdata = zero_mem\<rparr> 0 empty_header]\<rparr>"
  by (simp add: sample_db1_def DB_createFile_def find_open [OF conjunct1 [OF empty_db_inv [of 2, simplified]]]
      empty_db_inv [of 2, simplified] File_create_def)

lemma sample_db_facts: "db_inv sample_db \<and> open_count sample_db 4096 = 1 \<and> file_name sample_db 4096 = Some ''rel'' \<and>
    oft_map (openFiles sample_db) = [''rel'' \<mapsto> 4096] \<and> pins sample_db = pins sample_db1 \<and> same_pool sample_db1 sample_db \<and>
    disk sample_db = disk sample_db1"
proof -
  note e = sample_db1_facts
  obtain u where u: "disk sample_db1 ''rel'' = Some u" using e by blast
  obtain w' where w: "DB_openFile sample_db1 ''rel'' NULL = Some (OK, 4096, w')" "db_inv w'" "open_count w' 4096 = 1"
     "oft_map (openFiles w') = (oft_map (openFiles sample_db1))(''rel'' \<mapsto> 4096)" "file_name w' = (file_name sample_db1)(4096 \<mapsto> ''rel'')"
     "pins w' = pins sample_db1" "same_pool sample_db1 w'" "disk w' = disk sample_db1"
    using open_new [of sample_db1 "''rel''" u 4096 NULL] e u by auto
  have s: "sample_db = w'" using w(1) by (simp add: sample_db_def)
  show ?thesis unfolding s using w(2-8) e by auto
qed

lemma sample_db_pins: "pins sample_db f p = 0"
proof -
  have "frame_of (empty_db 2) = Map.empty" by (simp add: empty_db_def BufMgr_new_def bht_new [of 3, simplified])
  moreover have "hashTable sample_db1 = hashTable (empty_db 2)" by (simp add: sample_db1_eq)
  ultimately show ?thesis using sample_db_facts by (simp add: pins_def)
qed

definition sample_db_pinned :: db_state where
  "sample_db_pinned = snd (snd (snd (the (BufMgr_allocPage sample_db 4096 0 None))))"

lemma sample_db_alloc: "file_of sample_db 4096 \<noteq> None" "\<not> file_full 4096 sample_db" "next_page 4096 sample_db = 1"
    "\<not> all_pinned sample_db" "bht_valid (hashTable sample_db) (4096, 1)" "used_pages 4096 sample_db = {}"
proof -
  let ?u = "sys_write \<lparr>fsize = 0, fdata = zero_mem\<rparr> 0 empty_header"
  have u: "file_of sample_db 4096 = Some ?u" using sample_db_facts by (simp add: file_of_def sample_db1_eq)
  have n: "npages ?u = 1" using fpage_write_same [of 0 "\<lparr>fsize = 0, fdata = zero_mem\<rparr>" empty_header] by (simp add: empty_header_fields)
  then have "free_list ?u = []" using new_file_ok by (auto simp: file_ok_def)
  then show "file_of sample_db 4096 \<noteq> None" "\<not> file_full 4096 sample_db" "next_page 4096 sample_db = 1" "used_pages 4096 sample_db = {}"
    using u n new_file_ok by (simp_all add: file_full_def next_page_def used_pages_def)
  have "hashTable sample_db = hashTable (empty_db 2)" "bufTable sample_db = bufTable (empty_db 2)"
    using sample_db_facts by (simp_all add: same_pool_def sample_db1_eq)
  then show "\<not> all_pinned sample_db" "bht_valid (hashTable sample_db) (4096, 1)"
    by (simp_all add: empty_db_def BufMgr_new_def all_pinned_def upt_rec bht_valid_def BufHashTbl_new_def bh_index_def swrap_def c_rem_def)
qed

lemma sample_db_pinned_facts: "db_inv sample_db_pinned \<and> open_count sample_db_pinned 4096 = 1 \<and> 0 < pins sample_db_pinned 4096 1"
proof -
  have b: "buf_inv sample_db" "coherent sample_db" using sample_db_facts by (simp_all add: db_inv_def)
  obtain i w' where a: "BufMgr_allocPage sample_db 4096 0 None = Some (OK, 1, Some i, w')" "buf_inv w'" "coherent w'"
      "\<forall>g q. pins w' g q = pins sample_db g q + (if (g, q) = (4096, 1) then 1 else 0)" "buf_frame sample_db w'"
    using allocPage_spec [OF b _ sample_db_alloc(1,2,4), of 0 None] sample_db_alloc(3,5) by auto
  have s: "sample_db_pinned = w'" using a(1) by (simp add: sample_db_pinned_def)
  have "files w' = files sample_db" using a(5) by (simp add: buf_frame_def disk_frame_def)
  then have "open_count w' 4096 = open_count sample_db 4096" by (simp add: open_count_def)
  then show ?thesis unfolding s using db_inv_frame [OF _ a(2,3,5)] sample_db_facts a(4) sample_db_pins by simp
qed


section \<open>Properties\<close>

text \<open>
  (C30) Opening a file by name. A file that is open gets one more reference and the same
  object; a file that exists gets a new object with one reference whose pages are those on
  disk, if the name has no zero byte (with one it would name the Unix file of a shorter name,
  which can be open already); a file that does not exist is reported as \<open>UNIXERR\<close> and leaves no object behind. The
  contents of the pages of all other files stay.
\<close>

theorem db_open_correct:
  assumes "db_inv w" "nm \<noteq> []" "newAddr w (newCnt w) \<noteq> NULL" "files w (newAddr w (newCnt w)) = None"
  shows "case oft_map (openFiles w) nm of
      Some f \<Rightarrow> \<exists>w'. DB_openFile w nm fp = Some (OK, f, w') \<and> db_inv w' \<and> open_count w' f = open_count w f + 1 \<and> lpage w' = lpage w
    | None \<Rightarrow>
        if disk w (unix_name nm) = None
        then \<exists>w' f. DB_openFile w nm fp = Some (UNIXERR, f, w') \<and> files w' = files w \<and> disk w' = disk w \<and> openFiles w' = openFiles w
        else unix_name nm = nm \<longrightarrow> (\<exists>w' f. DB_openFile w nm fp = Some (OK, f, w') \<and> db_inv w' \<and> files w f = None \<and> open_count w' f = 1 \<and>
          oft_map (openFiles w') = (oft_map (openFiles w))(nm \<mapsto> f) \<and>
          (\<forall>g q. lpage w' g q = (if g = f then name_page w nm q else lpage w g q)))"
proof (cases "oft_map (openFiles w) nm")
  case (Some f)
  then show ?thesis using open_again [OF assms(1) Some assms(2), of fp] by auto
next
  case None
  show ?thesis
  proof (cases "disk w (unix_name nm)")
    case missing: None
    obtain w' f where w': "DB_openFile w nm fp = Some (UNIXERR, f, w')" "files w' = (files w)(f := None)" "disk w' = disk w"
        "openFiles w' = openFiles w" "f = newAddr w (newCnt w)"
      using None missing assms(2)
      by (simp add: DB_openFile_def find_open [OF assms(1)] File_open_def new_File_def sys_open_def delete_File_def Let_def)
    then have "files w' = files w" using assms(4) by auto
    then show ?thesis using None missing w' by auto
  next
    case (Some u)
    then show ?thesis using open_new [OF assms(1,2) None _ refl assms(3,4), of u fp] None assms(4) by auto
  qed
qed

theorem db_open_correct_witness:
  "\<exists>w' f. DB_openFile sample_db1 ''rel'' NULL = Some (OK, f, w') \<and> db_inv w' \<and> open_count w' f = 1"
  using db_open_correct [of sample_db1 "''rel''" NULL] sample_db1_facts by auto

text \<open>
  (C31) Closing the last reference to a file none of whose pages is pinned makes its contents
  durable: afterwards the Unix file holds the current contents of every page, the object and
  its table entry are gone, and the pages of other files are as before. As long as other
  references remain, closing only lowers the count.
\<close>

theorem db_close_durable:
  assumes "db_inv w" "file_name w f = Some nm"
  shows "if 1 < open_count w f
    then \<exists>w'. DB_closeFile w f = Some (OK, w') \<and> db_inv w' \<and> open_count w' f = open_count w f - 1 \<and> lpage w' = lpage w \<and> disk w' = disk w
    else (\<forall>p. pins w f p = 0) \<longrightarrow>
      (\<exists>w'. DB_closeFile w f = Some (OK, w') \<and> db_inv w' \<and> files w' = (files w)(f := None) \<and>
        oft_map (openFiles w') = (oft_map (openFiles w))(nm := None) \<and> (\<forall>q. name_page w' nm q = lpage w f q) \<and>
        (\<forall>g q. g \<noteq> f \<longrightarrow> lpage w' g q = lpage w g q))"
proof -
  obtain fo where "files w f = Some fo" using assms(2) by (auto simp: file_name_def split: bind_splits)
  then have "1 \<le> open_count w f" using db_inv_obj [OF assms(1)] by (auto simp: open_count_def file_obj_ok_def)
  then show ?thesis using close_shared [OF assms(1), of f] close_last [OF assms(1) _ assms(2)] by force
qed

theorem db_close_durable_witness:
  "\<exists>w'. DB_closeFile sample_db 4096 = Some (OK, w') \<and> db_inv w' \<and> files w' 4096 = None"
  using db_close_durable [of sample_db 4096 "''rel''"] sample_db_facts sample_db_pins by auto



text \<open>
  The hash of a file name is always an index of the table, for names of any length and
  with any characters: the sum wraps around and the remainder is made positive.
\<close>

theorem openfile_hash_bounds:
  assumes "0 < of_HTSIZE t"
  shows "0 \<le> OpenFileHashTbl_hash t nm \<and> OpenFileHashTbl_hash t nm < of_HTSIZE t"
  using c_rem_bound [OF assms, of "hash_chars 0 nm"] by (simp add: OpenFileHashTbl_hash_def)

theorem openfile_hash_bounds_witness:
  "0 \<le> OpenFileHashTbl_hash OpenFileHashTbl_new ''relcat'' \<and> OpenFileHashTbl_hash OpenFileHashTbl_new ''relcat'' < 113"
  using openfile_hash_bounds [of OpenFileHashTbl_new "''relcat''"] by (simp add: OpenFileHashTbl_new_def)

text \<open>
  (C38) \<open>closeFile\<close> ignores the status of \<open>flushFile\<close>. If a page of the file is still pinned at
  the last close, it returns \<open>OK\<close> and deletes the file object, and a frame of the pool keeps a
  pointer to the deleted object.
\<close>

theorem db_close_pinned_dangling:
  assumes "db_inv w" "open_count w f = 1" "0 < pins w f p"
  shows "\<exists>w' i. DB_closeFile w f = Some (OK, w') \<and> files w' f = None \<and> i < frames w' \<and> valid (bufTable w' ! i) \<and>
     bd_file (bufTable w' ! i) = f"
  by (rule close_pinned [OF assms])

theorem db_close_pinned_dangling_witness:
  "\<exists>w' i. DB_closeFile sample_db_pinned 4096 = Some (OK, w') \<and> files w' 4096 = None \<and> valid (bufTable w' ! i) \<and>
     bd_file (bufTable w' ! i) = 4096"
  using db_close_pinned_dangling [of sample_db_pinned 4096 1] sample_db_pinned_facts by auto

end
