(* ===== verification/PageCorrect.thy ===== *)
theory PageCorrect
  imports Page "HOL-Library.Multiset"
begin

text \<open>
  Correctness of the slotted page of \<open>Page\<close>: the abstract view of a page as a finite map
  from slot numbers to records, the page invariant (space accounting, disjoint records,
  no trailing empty slot), and for every operation its effect on the abstract view. Two
  interfaces are stated as locales and interpreted on the page operations: a record store
  (insert and delete) and a record iterator (first and next).
\<close>

section \<open>Abstract view and invariant\<close>

definition nslots :: "page \<Rightarrow> nat" where
  "nslots p = nat (- slotCnt p)"

definition soff :: "page \<Rightarrow> nat \<Rightarrow> int" where
  "soff p k = slot_offset p (- int k)"

definition slen :: "page \<Rightarrow> nat \<Rightarrow> int" where
  "slen p k = slot_length p (- int k)"

definition live :: "page \<Rightarrow> nat \<Rightarrow> bool" where
  "live p k \<longleftrightarrow> k < nslots p \<and> slen p k \<noteq> - 1"

text \<open>The abstract contents of a page: a finite map from slot numbers to record bytes.\<close>

definition page_recs :: "page \<Rightarrow> nat \<Rightarrow> byte list option" where
  "page_recs p k = (if live p k then Some (read_bytes p (nat (soff p k)) (nat (slen p k))) else None)"

text \<open>Two records of a page do not share a byte.\<close>

definition apart :: "page \<Rightarrow> nat \<Rightarrow> nat \<Rightarrow> bool" where
  "apart p j k \<longleftrightarrow> soff p j + slen p j \<le> soff p k \<or> soff p k + slen p k \<le> soff p j"

definition page_inv :: "page \<Rightarrow> bool" where
  "page_inv p \<longleftrightarrow>
     slotCnt p \<le> 0 \<and> 0 \<le> freePtr p \<and> 0 \<le> freeSpace p \<and>
     freeSpace p + freePtr p + 4 * int (nslots p) = 1004 \<and>
     (\<forall>k < nslots p. slen p k \<noteq> - 1 \<longrightarrow>
        0 < slen p k \<and> 0 \<le> soff p k \<and> soff p k + slen p k \<le> freePtr p) \<and>
     (\<forall>j < nslots p. \<forall>k < nslots p. j \<noteq> k \<longrightarrow> slen p j \<noteq> - 1 \<longrightarrow> slen p k \<noteq> - 1 \<longrightarrow> apart p j k) \<and>
     (0 < nslots p \<longrightarrow> slen p (nslots p - 1) \<noteq> - 1) \<and>
     freePtr p = (\<Sum>k | k < nslots p \<and> slen p k \<noteq> - 1. slen p k)"

lemmas field_defs = slot_offset_def slot_length_def slotCnt_def freePtr_def freeSpace_def
  nextPage_def curPage_def set_slot_offset_def set_slot_length_def set_slotCnt_def set_freePtr_def
  set_freeSpace_def set_nextPage_def set_curPage_def soff_def slen_def

text \<open>Slot addresses stay symbolic in proofs; this linear fact places them.\<close>

lemma slot_addr_lin: "k \<le> 251 \<Longrightarrow> slot_addr (- int k) + 4 * k = 1004"
  unfolding slot_addr_def by arith

lemma slot_addr_apart:
  "j \<le> 251 \<Longrightarrow> k \<le> 251 \<Longrightarrow> j \<noteq> k \<Longrightarrow>
   slot_addr (- int k) + 4 \<le> slot_addr (- int j) \<or> slot_addr (- int j) + 4 \<le> slot_addr (- int k)"
  unfolding slot_addr_def by arith

lemma nslots_bound: "page_inv p \<Longrightarrow> nslots p \<le> 251"
  by (auto simp: page_inv_def)

lemma slotCnt_nslots: "page_inv p \<Longrightarrow> slotCnt p = - int (nslots p)"
  by (auto simp: page_inv_def nslots_def)

lemma page_inv_init: "page_inv (Page_init p n)"
  by (simp add: page_inv_def Page_init_def Let_def nslots_def field_defs mem_simps short_ok_def)

lemma page_recs_init: "page_recs (Page_init p n) = Map.empty"
  by (rule ext) (simp add: page_recs_def live_def Page_init_def Let_def nslots_def field_defs mem_simps short_ok_def)

lemma curPage_init: "int_ok n \<Longrightarrow> curPage (Page_init p n) = n \<and> nextPage (Page_init p n) = -1"
  by (simp add: Page_init_def Let_def nslots_def field_defs mem_simps short_ok_def int_ok_def)

text \<open>
  The two search loops have one shape: they walk down the slot array until a slot satisfies
  a predicate or the array ends.
\<close>

lemma slot_search:
  assumes f: "\<And>i. f i = (if i > slotCnt p then if \<not> slot_in_page i then None
                          else if Q i then Some i else f (i - 1) else Some i)"
    and inv: "page_inv p" and k: "k \<le> nslots p"
  shows "\<exists>j. f (- int k) = Some (- int j) \<and> k \<le> j \<and> j \<le> nslots p \<and>
     (\<forall>i. k \<le> i \<and> i < j \<longrightarrow> \<not> Q (- int i)) \<and> (j < nslots p \<longrightarrow> Q (- int j))"
  using k
proof (induction "nslots p - k" arbitrary: k)
  case 0
  then show ?case
    using slotCnt_nslots [OF inv] by (intro exI [of _ k]) (auto simp: f [of "- int (nslots p)"])
next
  case (Suc d)
  have in_page: "slot_in_page (- int k)" and gt: "- int k > slotCnt p"
    using Suc.hyps(2) nslots_bound [OF inv] slotCnt_nslots [OF inv]
    by (auto simp: slot_in_page_def)
  show ?case
  proof (cases "Q (- int k)")
    case True
    then show ?thesis
      using in_page gt Suc.prems Suc.hyps(2) by (intro exI [of _ k]) (auto simp: f [of "- int k"])
  next
    case False
    have "d = nslots p - Suc k" "Suc k \<le> nslots p" using Suc.hyps(2) by auto
    from Suc.hyps(1) [OF this] obtain j where j:
      "f (- int (Suc k)) = Some (- int j)" "Suc k \<le> j" "j \<le> nslots p"
      "\<forall>i. Suc k \<le> i \<and> i < j \<longrightarrow> \<not> Q (- int i)" "j < nslots p \<longrightarrow> Q (- int j)" by auto
    have "f (- int k) = f (- int k - 1)" using False in_page gt f [of "- int k"] by simp
    also have "- int k - 1 = - int (Suc k)" by simp
    finally have "f (- int k) = Some (- int j)" by (simp only: j(1))
    moreover have "\<not> Q (- int i)" if "k \<le> i" "i < j" for i
      using False j(4) that by (cases "i = k") auto
    ultimately show ?thesis using j by (intro exI [of _ j]) auto
  qed
qed

lemma find_free_slot_spec:
  assumes "page_inv p"
  obtains j where "find_free_slot p 0 = Some (- int j)" "j \<le> nslots p"
    "\<And>i. i < j \<Longrightarrow> slen p i \<noteq> - 1" "j < nslots p \<Longrightarrow> slen p j = - 1"
proof -
  have "\<exists>j. find_free_slot p (- int 0) = Some (- int j) \<and> 0 \<le> j \<and> j \<le> nslots p \<and>
     (\<forall>i. 0 \<le> i \<and> i < j \<longrightarrow> \<not> slot_length p (- int i) = - 1) \<and>
     (j < nslots p \<longrightarrow> slot_length p (- int j) = - 1)"
    by (rule slot_search [OF find_free_slot.simps assms]) simp
  then show ?thesis using that by (auto simp: slen_def)
qed

lemma skip_empty_spec:
  assumes "page_inv p" "k \<le> nslots p"
  obtains j where "skip_empty p (- int k) = Some (- int j)" "k \<le> j" "j \<le> nslots p"
    "\<And>i. k \<le> i \<Longrightarrow> i < j \<Longrightarrow> \<not> live p i" "j < nslots p \<Longrightarrow> live p j"
proof -
  have step: "skip_empty p i = (if i > slotCnt p then if \<not> slot_in_page i then None
                  else if slot_length p i \<noteq> - 1 then Some i else skip_empty p (i - 1) else Some i)" for i
    by (subst skip_empty.simps) simp
  from slot_search [OF step assms] show ?thesis
    using that by (auto simp: slen_def live_def)
qed

text \<open>
  What a successful insertion of \<open>len\<close> bytes into slot \<open>j\<close> does to every field.
\<close>

definition inserted :: "page \<Rightarrow> nat \<Rightarrow> byte list \<Rightarrow> page \<Rightarrow> bool" where
  "inserted p j bs q \<longleftrightarrow>
     nslots q = max (nslots p) (Suc j) \<and> slotCnt q \<le> 0 \<and>
     freePtr q = freePtr p + int (length bs) \<and>
     freeSpace q = 1004 - freePtr q - 4 * int (nslots q) \<and>
     curPage q = curPage p \<and> nextPage q = nextPage p \<and>
     (\<forall>k \<le> nslots p. slen q k = (if k = j then int (length bs) else slen p k)) \<and>
     (\<forall>k \<le> nslots p. soff q k = (if k = j then freePtr p else soff p k)) \<and>
     (\<forall>x < nat (freePtr p). q x = p x) \<and>
     (\<forall>x \<ge> 1024. q x = p x) \<and>
     read_bytes q (nat (freePtr p)) (length bs) = bs"

lemma insert_fits:
  assumes inv: "page_inv p" and len: "0 < length bs"
    and fits: "int (length bs) + 4 \<le> freeSpace p"
  obtains j q where
    "Page_insertRecord p \<lparr>rec_data = bs, rec_length = int (length bs)\<rparr> rid = Some (OK, q, RID (curPage p) (int j))"
    "inserted p j bs q" "j \<le> nslots p" "\<And>i. i < j \<Longrightarrow> slen p i \<noteq> - 1" "j < nslots p \<Longrightarrow> slen p j = - 1"
proof -
  obtain j where j: "find_free_slot p 0 = Some (- int j)" "j \<le> nslots p"
    "\<And>i. i < j \<Longrightarrow> slen p i \<noteq> - 1" "j < nslots p \<Longrightarrow> slen p j = - 1"
    using find_free_slot_spec [OF inv] by metis
  define n where "n = nslots p"
  define F where "F = nat (freePtr p)"
  define L where "L = length bs"
  have cnt: "slotCnt p = - int n" using slotCnt_nslots [OF inv] by (simp add: n_def)
  have FF: "freePtr p = int F" and space: "freeSpace p + int F + 4 * int n = 1004"
    using inv by (auto simp: page_inv_def F_def n_def)
  have room: "L + 4 + F + 4 * n \<le> 1004" "0 < L" using fits space len by (auto simp: L_def)
  have jn: "j \<le> n" using j(2) by (simp add: n_def)
  have sp: "swrap 4 (int L + 4) = int L + 4"
    using room by (intro swrap_4) (simp add: int_ok_def)
  have aj: "slot_addr (- int j) + 4 * j = 1004" using room jn by (intro slot_addr_lin) simp
  define p1 where "p1 = (if - int j = slotCnt p
     then set_slotCnt (set_freeSpace p (freeSpace p - (int L + 4))) (slotCnt p - 1)
     else set_freeSpace p (freeSpace p - int L))"
  define p2 where "p2 = set_slot_length (set_slot_offset p1 (- int j) (int F)) (- int j) (int L)"
  define p3 where "p3 = write_bytes p2 F bs"
  define q where "q = set_freePtr p3 (int F + int L)"
  have fp1: "freePtr p1 = int F" 
    by (auto simp: p1_def field_defs mem_simps FF [unfolded freePtr_def])
  have fpo: "freePtr (set_slot_offset p1 (- int j) (int F)) = int F"
    using fp1 aj by (simp add: field_defs mem_simps)
  then have fp2: "freePtr p2 = int F"
    using aj by (simp add: p2_def field_defs mem_simps)
  then have fp3: "freePtr p3 = int F"
    using room by (simp add: p3_def field_defs mem_simps flip: L_def)
  have p1x: "p1 x = p x" if "x < 1008 \<or> 1014 \<le> x" for x
    using that by (auto simp: p1_def set_slotCnt_def set_freeSpace_def mem_simps)
  have cur: "curPage q = curPage p"
    using room aj by (simp add: q_def p3_def p2_def p1_def field_defs mem_simps flip: L_def)
  have copy: "copy_record p2 (int F) \<lparr>rec_data = bs, rec_length = int L\<rparr> = Some p3"
    using room by (simp add: copy_record_def p3_def L_def)
  show ?thesis
  proof
    have "freeSpace p \<ge> int L + 4" using fits by (simp add: L_def)
    then show "Page_insertRecord p \<lparr>rec_data = bs, rec_length = int (length bs)\<rparr> rid = Some (OK, q, RID (curPage p) (int j))"
      using room jn sp cur
      by (simp add: Page_insertRecord_def Let_def j(1) slot_in_page_def p1_def [symmetric] fp1 fpo fp2 fp3
          p2_def [symmetric] copy q_def [symmetric] flip: L_def split del: if_split cong: if_cong)
    show "inserted p j bs q"
      unfolding inserted_def
    proof (intro conjI allI impI)
      have cq: "slotCnt q = (if j = n then - int n - 1 else - int n)"
        using room aj jn cnt by (auto simp: q_def p3_def p2_def p1_def field_defs mem_simps short_ok_def simp flip: L_def)
      show nq: "nslots q = max (nslots p) (Suc j)" and "slotCnt q \<le> 0"
        using jn cq by (auto simp: nslots_def [of q] n_def [symmetric])
      show fq: "freePtr q = freePtr p + int (length bs)"
        using room by (simp add: q_def set_freePtr_def freePtr_def [of "put_short _ _ _"] mem_simps short_ok_def FF L_def)
      have "freeSpace q = (if j = n then freeSpace p - (int L + 4) else freeSpace p - int L)"
        using room aj jn cnt space by (auto simp: q_def p3_def p2_def p1_def field_defs mem_simps short_ok_def simp flip: L_def)
      then show "freeSpace q = 1004 - freePtr q - 4 * int (nslots q)"
        using space jn by (auto simp: nq fq FF L_def n_def [symmetric])
      show "curPage q = curPage p" by (rule cur)
      show "nextPage q = nextPage p"
        using room aj by (simp add: q_def p3_def p2_def p1_def field_defs mem_simps flip: L_def)
      show "read_bytes q (nat (freePtr p)) (length bs) = bs"
        using room by (simp add: q_def p3_def set_freePtr_def FF mem_simps L_def)
      show "q x = p x" if "x < nat (freePtr p)" for x
        using that [folded F_def] room aj jn p1x [of x] by (simp add: q_def p3_def p2_def set_freePtr_def set_slot_length_def set_slot_offset_def mem_simps)
      show "q x = p x" if "1024 \<le> x" for x
        using that room aj p1x [of x] by (simp add: q_def p3_def p2_def set_freePtr_def set_slot_length_def set_slot_offset_def mem_simps flip: L_def)
      fix k assume k: "k \<le> nslots p"
      then have ak: "slot_addr (- int k) + 4 * k = 1004" using room by (intro slot_addr_lin) (simp flip: n_def)
      have ajk: "slot_addr (- int k) + 4 \<le> slot_addr (- int j) \<or> slot_addr (- int j) + 4 \<le> slot_addr (- int k)"
        if "k \<noteq> j" using that k j(2) nslots_bound [OF inv] by (intro slot_addr_apart) auto
      have g1: "get_short p1 a = get_short p a" if "a + 2 \<le> 1008" for a
        using that by (intro get_short_cong p1x) auto
      have kF: "F + L + 4 \<le> slot_addr (- int k)"
        using room k ak by (auto simp: n_def)
      show "slen q k = (if k = j then int (length bs) else slen p k)"
        using ak aj room kF ajk
        by (cases "k = j") (auto simp: q_def p3_def p2_def g1 set_freePtr_def set_slot_length_def set_slot_offset_def
            slen_def slot_length_def mem_simps short_ok_def simp flip: L_def)
      show "soff q k = (if k = j then freePtr p else soff p k)"
        using ak aj room kF ajk
        by (cases "k = j") (auto simp: q_def p3_def p2_def g1 set_freePtr_def set_slot_length_def set_slot_offset_def
            soff_def slot_offset_def mem_simps short_ok_def FF simp flip: L_def)
    qed
  qed (use j in auto)
qed

lemma live_inserted:
  assumes ins: "inserted p j bs q" and len: "0 < length bs"
    and j: "j \<le> nslots p" "j < nslots p \<Longrightarrow> slen p j = - 1"
  shows "live q k \<longleftrightarrow> live p k \<or> k = j"
proof -
  have new: "slen q i = (if i = j then int (length bs) else slen p i)" if "i \<le> nslots p" for i
    using ins that by (simp add: inserted_def)
  have nq: "nslots q = max (nslots p) (Suc j)" using ins by (simp add: inserted_def)
  show ?thesis
  proof (cases "k = j")
    case True
    then show ?thesis using new [of j] j(1) len nq by (simp add: live_def)
  next
    case False
    then have "k < nslots q \<longleftrightarrow> k < nslots p" using nq j(1) by auto
    then show ?thesis using new [of k] False by (auto simp: live_def)
  qed
qed

lemma sum_live: "page_inv p \<Longrightarrow> freePtr p = sum (slen p) {k. live p k}"
  by (simp add: page_inv_def live_def)

lemma page_inv_liveD:
  assumes "page_inv p" "live p k"
  shows "0 < slen p k" "0 \<le> soff p k" "soff p k + slen p k \<le> freePtr p" "k < nslots p"
  using assms by (auto simp: page_inv_def live_def)

lemma page_inv_apart: "page_inv p \<Longrightarrow> live p j \<Longrightarrow> live p k \<Longrightarrow> j \<noteq> k \<Longrightarrow> apart p j k"
  by (auto simp: page_inv_def live_def)

lemma page_inv_last: "page_inv p \<Longrightarrow> 0 < nslots p \<Longrightarrow> live p (nslots p - 1)"
  by (simp add: page_inv_def live_def)

lemma page_invI:
  assumes "slotCnt p \<le> 0" "0 \<le> freePtr p" "0 \<le> freeSpace p"
    "freeSpace p = 1004 - freePtr p - 4 * int (nslots p)"
    "\<And>k. live p k \<Longrightarrow> 0 < slen p k \<and> 0 \<le> soff p k \<and> soff p k + slen p k \<le> freePtr p"
    "\<And>j k. live p j \<Longrightarrow> live p k \<Longrightarrow> j \<noteq> k \<Longrightarrow> apart p j k"
    "0 < nslots p \<Longrightarrow> live p (nslots p - 1)"
    "freePtr p = sum (slen p) {k. live p k}"
  shows "page_inv p"
  using assms by (simp add: page_inv_def live_def)

lemma finite_live [simp]: "finite {k. live p k}"
  by (rule finite_subset [of _ "{..<nslots p}"]) (auto simp: live_def)

lemma insert_preserves:
  assumes inv: "page_inv p" and ins: "inserted p j bs q" and len: "0 < length bs"
    and fits: "int (length bs) + 4 \<le> freeSpace p"
    and j: "j \<le> nslots p" "j < nslots p \<Longrightarrow> slen p j = - 1"
  shows "page_inv q" and "page_recs q = (page_recs p)(j \<mapsto> bs)"
proof -
  note lv = live_inserted [OF ins len j]
  have nj: "\<not> live p j" using j by (cases "j < nslots p") (auto simp: live_def)
  have fp: "freePtr q = freePtr p + int (length bs)" and nq: "nslots q = max (nslots p) (Suc j)"
    using ins by (auto simp: inserted_def)
  have new: "slen q j = int (length bs)" "soff q j = freePtr p"
    using ins j by (auto simp: inserted_def)
  have old: "slen q k = slen p k" "soff q k = soff p k" if "live p k" for k
    using ins that nj by (auto simp: inserted_def live_def)
  show "page_inv q"
  proof (rule page_invI)
    show "slotCnt q \<le> 0" "0 \<le> freePtr q" "freeSpace q = 1004 - freePtr q - 4 * int (nslots q)"
      using ins inv by (auto simp: inserted_def page_inv_def)
    moreover have "int (nslots q) \<le> int (nslots p) + 1" using nq j by simp
    moreover have "freeSpace p + freePtr p + 4 * int (nslots p) = 1004" using inv by (simp add: page_inv_def)
    ultimately show "0 \<le> freeSpace q" using fits fp by simp
    show "0 < slen q k \<and> 0 \<le> soff q k \<and> soff q k + slen q k \<le> freePtr q" if "live q k" for k
      using that lv new old [of k] page_inv_liveD [OF inv, of k] len fp inv
      by (auto simp: page_inv_def)
    show "apart q i k" if "live q i" "live q k" "i \<noteq> k" for i k
      using that lv new old [of i] old [of k] page_inv_liveD [OF inv, of i]
        page_inv_liveD [OF inv, of k] page_inv_apart [OF inv, of i k]
      by (auto simp: apart_def)
    show "live q (nslots q - 1)" if "0 < nslots q"
    proof (cases "j = nslots p")
      case True
      then show ?thesis using lv nq by simp
    next
      case False
      then have "nslots q = nslots p" using nq j(1) by simp
      then show ?thesis using lv page_inv_last [OF inv] that by simp
    qed
    have "{k. live q k} = insert j {k. live p k}" using lv by auto
    then have "sum (slen q) {k. live q k} = slen q j + sum (slen q) {k. live p k}" using nj by simp
    also have "sum (slen q) {k. live p k} = sum (slen p) {k. live p k}"
      by (rule sum.cong) (simp_all add: old)
    finally show "freePtr q = sum (slen q) {k. live q k}"
      using fp new sum_live [OF inv] by simp
  qed
  show "page_recs q = (page_recs p)(j \<mapsto> bs)"
  proof
    fix k
    show "page_recs q k = ((page_recs p)(j \<mapsto> bs)) k"
    proof (cases "k = j")
      case True
      then show ?thesis using ins new lv by (simp add: page_recs_def inserted_def)
    next
      case False
      have "read_bytes q (nat (soff p k)) (nat (slen p k)) = read_bytes p (nat (soff p k)) (nat (slen p k))"
        if "live p k"
        using ins page_inv_liveD [OF inv that] by (intro read_bytes_cong) (auto simp: inserted_def)
      then show ?thesis using False lv old by (simp add: page_recs_def)
    qed
  qed
qed

text \<open>Deletion: the offset-shifting loop.\<close>

lemma shift_offsets_spec:
  assumes "slotCnt p = - int n" "n \<le> 251" "s < n" "0 \<le> soff p s" "0 \<le> r" "r \<le> 1004" "k \<le> n"
  shows "\<exists>q. shift_offsets p (- int s) r k = Some q \<and>
     (\<forall>i < n. slen q i = slen p i) \<and>
     (\<forall>i < n. soff q i = (if k \<le> i \<and> 0 \<le> slen p i \<and> soff p s < soff p i then soff p i - r else soff p i)) \<and>
     (\<forall>x. x + 4 * n < 1008 \<or> 1008 \<le> x \<longrightarrow> q x = p x)"
  using assms
proof (induction "n - k" arbitrary: k p)
  case 0
  then show ?case by (auto simp: shift_offsets.simps)
next
  case (Suc d)
  have kn: "k < n" using Suc.hyps(2) by simp
  define p1 where "p1 = (if slot_length p (- int k) \<ge> 0 \<and> slot_offset p (- int k) > slot_offset p (- int s)
                then set_slot_offset p (- int k) (slot_offset p (- int k) - r) else p)"
  have step: "shift_offsets p (- int s) r k = shift_offsets p1 (- int s) r (Suc k)"
    using Suc.prems kn by (subst shift_offsets.simps) (simp add: p1_def slot_in_page_def)
  have ak: "slot_addr (- int k) + 4 * k = 1004" using kn Suc.prems by (intro slot_addr_lin) simp
  have out: "p1 x = p x" if "x < slot_addr (- int k) \<or> slot_addr (- int k) + 2 \<le> x" for x
    using that by (auto simp: p1_def set_slot_offset_def mem_simps)
  have oth: "soff p1 i = soff p i" "slen p1 i = slen p i" if "i < n" "i \<noteq> k" for i
  proof -
    have "slot_addr (- int i) + 4 \<le> slot_addr (- int k) \<or> slot_addr (- int k) + 4 \<le> slot_addr (- int i)"
      using that kn Suc.prems by (intro slot_addr_apart) auto
    then show "soff p1 i = soff p i" "slen p1 i = slen p i"
      unfolding soff_def slen_def slot_offset_def slot_length_def
      by (intro get_short_cong out; auto)+
  qed
  have lenk: "slen p1 k = slen p k" 
    by (auto simp: slen_def slot_length_def intro!: get_short_cong out)
  have offk: "soff p1 k = (if 0 \<le> slen p k \<and> soff p s < soff p k then soff p k - r else soff p k)"
    using Suc.prems get_short_range [of p "slot_addr (- int k)"]
    by (auto simp: p1_def soff_def slen_def slot_offset_def slot_length_def set_slot_offset_def mem_simps short_ok_def)
  have offs: "soff p1 s = soff p s" using oth [of s] offk Suc.prems by (cases "s = k") auto
  have cnt: "slotCnt p1 = - int n"
  proof -
    have "slotCnt p1 = slotCnt p"
      unfolding slotCnt_def by (rule get_short_cong, rule out) (use ak in auto)
    then show ?thesis using Suc.prems(1) by simp
  qed
  have "\<exists>q. shift_offsets p1 (- int s) r (Suc k) = Some q \<and>
     (\<forall>i < n. slen q i = slen p1 i) \<and>
     (\<forall>i < n. soff q i = (if Suc k \<le> i \<and> 0 \<le> slen p1 i \<and> soff p1 s < soff p1 i then soff p1 i - r else soff p1 i)) \<and>
     (\<forall>x. x + 4 * n < 1008 \<or> 1008 \<le> x \<longrightarrow> q x = p1 x)"
    using Suc.prems Suc.hyps(2) cnt offs kn by (intro Suc.hyps(1)) auto
  then obtain q where q: "shift_offsets p1 (- int s) r (Suc k) = Some q"
     "\<And>i. i < n \<Longrightarrow> slen q i = slen p1 i"
     "\<And>i. i < n \<Longrightarrow> soff q i = (if Suc k \<le> i \<and> 0 \<le> slen p1 i \<and> soff p1 s < soff p1 i then soff p1 i - r else soff p1 i)"
     "\<And>x. x + 4 * n < 1008 \<or> 1008 \<le> x \<Longrightarrow> q x = p1 x" by blast
  show ?case
  proof (intro exI [of _ q] conjI allI impI)
    show "shift_offsets p (- int s) r k = Some q" using step q(1) by simp
    show "slen q i = slen p i" if "i < n" for i
      using q(2) [OF that] oth [of i] lenk that by (cases "i = k") auto
    show "soff q i = (if k \<le> i \<and> 0 \<le> slen p i \<and> soff p s < soff p i then soff p i - r else soff p i)" if "i < n" for i
      using q(3) [OF that] oth [of i] lenk offk offs that by (cases "i = k") auto
    show "q x = p x" if "x + 4 * n < 1008 \<or> 1008 \<le> x" for x
      using q(4) [OF that] out [of x] that ak kn by auto
  qed
qed

text \<open>Deletion: the loop that gives back the trailing slots.\<close>

lemma compact_slots_spec:
  assumes "slotCnt p = - int n" "0 < n" "n \<le> 251" "0 \<le> freeSpace p" "freeSpace p + 4 * int n \<le> 1004"
  shows "\<exists>q m. compact_slots p = Some q \<and> m < n \<and> slotCnt q = - int m \<and>
     freeSpace q = freeSpace p + 4 * int (n - m) \<and>
     (0 < m \<longrightarrow> slen p (m - 1) \<noteq> - 1) \<and> (\<forall>i. m \<le> i \<and> i < n - 1 \<longrightarrow> slen p i = - 1) \<and>
     (\<forall>x. x < 1008 \<or> 1010 \<le> x \<and> x < 1012 \<or> 1014 \<le> x \<longrightarrow> q x = p x)"
  using assms
proof (induction n arbitrary: p)
  case 0
  then show ?case by simp
next
  case (Suc n)
  define p1 where "p1 = drop_slot p"
  have cnt: "slotCnt p1 = - int n" and free: "freeSpace p1 = freeSpace p + 4"
    and out: "\<And>x. x < 1008 \<or> 1010 \<le> x \<and> x < 1012 \<or> 1014 \<le> x \<Longrightarrow> p1 x = p x"
    using Suc.prems
    by (auto simp: p1_def drop_slot_def Let_def field_defs mem_simps short_ok_def)
  have same: "slen p1 i = slen p i" if "i < 251" for i
    using slot_addr_lin [of i] that unfolding slen_def slot_length_def
    by (intro get_short_cong out) auto
  have step: "compact_slots p = (if 0 < n \<and> slen p1 (n - 1) = - 1 then compact_slots p1 else Some p1)"
  proof (cases n)
    case 0
    then show ?thesis using cnt by (subst compact_slots.simps) (simp flip: p1_def)
  next
    case (Suc m)
    then have "slotCnt p1 < 0" "slotCnt p1 + 1 = - int m" "slot_in_page (- int m)"
      using cnt Suc.prems by (auto simp: slot_in_page_def)
    then have "compact_slots p = (if slot_length p1 (- int m) = - 1 then compact_slots p1 else Some p1)"
      by (subst compact_slots.simps) (simp only: p1_def [symmetric] if_True not_True_eq_False if_False)
    then show ?thesis using Suc by (simp only: slen_def diff_Suc_1 zero_less_Suc simp_thms)
  qed
  show ?case
  proof (cases "0 < n \<and> slen p1 (n - 1) = - 1")
    case True
    then have "\<exists>q m. compact_slots p1 = Some q \<and> m < n \<and> slotCnt q = - int m \<and>
       freeSpace q = freeSpace p1 + 4 * int (n - m) \<and>
       (0 < m \<longrightarrow> slen p1 (m - 1) \<noteq> - 1) \<and> (\<forall>i. m \<le> i \<and> i < n - 1 \<longrightarrow> slen p1 i = - 1) \<and>
       (\<forall>x. x < 1008 \<or> 1010 \<le> x \<and> x < 1012 \<or> 1014 \<le> x \<longrightarrow> q x = p1 x)"
      using Suc.prems cnt free by (intro Suc.IH) auto
    then obtain q m where q: "compact_slots p1 = Some q" "m < n" "slotCnt q = - int m"
       "freeSpace q = freeSpace p1 + 4 * int (n - m)" "0 < m \<longrightarrow> slen p1 (m - 1) \<noteq> - 1"
       "\<forall>i. m \<le> i \<and> i < n - 1 \<longrightarrow> slen p1 i = - 1"
       "\<forall>x. x < 1008 \<or> 1010 \<le> x \<and> x < 1012 \<or> 1014 \<le> x \<longrightarrow> q x = p1 x" by (elim exE conjE)
    have "slen p i = - 1" if "m \<le> i" "i < n" for i
      using q(6) True that same [of i] Suc.prems by (cases "i = n - 1") auto
    then show ?thesis
      using q True step free out same [of "m - 1"] Suc.prems by (intro exI [of _ q] exI [of _ m]) auto
  next
    case False
    then show ?thesis
      using step cnt free out same [of "n - 1"] Suc.prems by (intro exI [of _ p1] exI [of _ n]) auto
  qed
qed

text \<open>
  Deletion of the record in slot \<open>s\<close>, in two halves: the page after the bytes and offsets
  have moved, and the page after the slot itself has been given up.
\<close>

definition moved :: "page \<Rightarrow> nat \<Rightarrow> page \<Rightarrow> bool" where
  "moved p s q \<longleftrightarrow>
     slotCnt q = slotCnt p \<and> freePtr q = freePtr p - slen p s \<and> freeSpace q = freeSpace p + slen p s \<and>
     curPage q = curPage p \<and> nextPage q = nextPage p \<and>
     (\<forall>k < nslots p. slen q k = slen p k) \<and>
     (\<forall>k < nslots p. soff q k =
        (if 0 \<le> slen p k \<and> soff p s < soff p k then soff p k - slen p s else soff p k)) \<and>
     (\<forall>x. int x < freePtr q \<longrightarrow> q x = (if soff p s \<le> int x then p (x + nat (slen p s)) else p x)) \<and>
     (\<forall>x \<ge> 1024. q x = p x)"

lemma delete_moves:
  assumes inv: "page_inv p" and lv: "live p s"
  obtains p1 p2 q where
    "p1 = write_bytes p (nat (soff p s)) (read_bytes p (nat (soff p s + slen p s)) (nat (freePtr p - (soff p s + slen p s))))"
    "shift_offsets p1 (- int s) (slen p s) 0 = Some p2"
    "q = (let p3 = set_freePtr p2 (freePtr p2 - slen p s) in set_freeSpace p3 (freeSpace p3 + slen p s))"
    "moved p s q"
proof -
  define n where "n = nslots p"
  define R where "R = slen p s"
  define F where "F = freePtr p"
  define off where "off = soff p s"
  have sR: "0 < R" "0 \<le> off" "off + R \<le> F" "s < n"
    using page_inv_liveD [OF inv lv] by (auto simp: R_def F_def off_def n_def)
  have space: "freeSpace p + F + 4 * int n = 1004" "0 \<le> freeSpace p" "slotCnt p = - int n"
    using inv slotCnt_nslots [OF inv] by (auto simp: page_inv_def F_def n_def)
  then have n251: "n \<le> 251" using sR by simp
  define p1 where "p1 = write_bytes p (nat off) (read_bytes p (nat (off + R)) (nat (F - (off + R))))"
  have p1x: "p1 x = (if off \<le> int x \<and> int x < F - R then p (x + nat R) else p x)" for x
    using sR by (auto simp: p1_def write_bytes_def nat_add_distrib add.commute)
  have p1hi: "get_short p1 a = get_short p a" if "F \<le> int a" for a
    using that sR by (intro get_short_cong) (auto simp: p1x)
  have slot1: "slen p1 k = slen p k \<and> soff p1 k = soff p k" if "k < n" for k
  proof -
    have "F \<le> int (slot_addr (- int k))" using slot_addr_lin [of k] that space n251 by simp
    then show ?thesis
      by (simp add: slen_def soff_def slot_length_def slot_offset_def p1hi)
  qed
  have "slotCnt p1 = - int n" using space sR by (simp add: slotCnt_def p1hi)
  then have "\<exists>q. shift_offsets p1 (- int s) R 0 = Some q \<and>
     (\<forall>i < n. slen q i = slen p1 i) \<and>
     (\<forall>i < n. soff q i = (if 0 \<le> i \<and> 0 \<le> slen p1 i \<and> soff p1 s < soff p1 i then soff p1 i - R else soff p1 i)) \<and>
     (\<forall>x. x + 4 * n < 1008 \<or> 1008 \<le> x \<longrightarrow> q x = p1 x)"
    using sR space slot1 n251 by (intro shift_offsets_spec) (auto simp: off_def)
  then obtain p2 where p2: "shift_offsets p1 (- int s) R 0 = Some p2"
     "\<forall>i < n. slen p2 i = slen p1 i"
     "\<forall>i < n. soff p2 i = (if 0 \<le> i \<and> 0 \<le> slen p1 i \<and> soff p1 s < soff p1 i then soff p1 i - R else soff p1 i)"
     "\<forall>x. x + 4 * n < 1008 \<or> 1008 \<le> x \<longrightarrow> p2 x = p1 x" by (elim exE conjE)
  define q where "q = (let p3 = set_freePtr p2 (freePtr p2 - R) in set_freeSpace p3 (freeSpace p3 + R))"
  have g2: "get_short p2 a = get_short p a" if "1008 \<le> a" for a
    using that p2(4) sR space p1hi [of a] by (subst get_short_cong [of a p2 p1]) auto
  have gi2: "get_int p2 a = get_int p a" if "1008 \<le> a" for a
    using that p2(4) sR space by (intro get_int_cong) (auto simp: p1x)
  have qx: "q x = p2 x" if "x < 1010 \<or> 1014 \<le> x" for x
    using that by (auto simp: q_def Let_def set_freePtr_def set_freeSpace_def mem_simps)
  have fq: "freePtr q = F - R"
    using sR space by (simp add: q_def Let_def field_defs mem_simps short_ok_def g2 F_def)
  have slotq: "slen q k = slen p2 k \<and> soff q k = soff p2 k" if "k < n" for k
    using slot_addr_lin [of k] that n251 unfolding slen_def soff_def slot_length_def slot_offset_def
    by (auto intro!: get_short_cong qx)
  have "moved p s q"
    unfolding moved_def R_def [symmetric] off_def [symmetric] F_def [symmetric] n_def [symmetric] fq
  proof (intro conjI allI impI)
    show "slotCnt q = slotCnt p"
      using g2 [of 1008] by (simp add: q_def Let_def field_defs mem_simps)
    show "freeSpace q = freeSpace p + R"
      using sR space by (simp add: q_def Let_def field_defs mem_simps short_ok_def g2)
    show "curPage q = curPage p" "nextPage q = nextPage p"
      by (simp_all add: q_def Let_def field_defs mem_simps gi2)
    show "q x = (if off \<le> int x then p (x + nat R) else p x)" if "int x < F - R" for x
      using that p2(4) qx [of x] space sR by (auto simp: p1x)
    show "q x = p x" if "1024 \<le> x" for x
      using that p2(4) qx [of x] space sR by (auto simp: p1x)
    show "slen q k = slen p k" if "k < n" for k using that slotq p2(2) slot1 by simp
    show "soff q k = (if 0 \<le> slen p k \<and> off < soff p k then soff p k - R else soff p k)" if "k < n" for k
      using that slotq p2(3) slot1 sR(4) by (simp add: off_def)
  qed simp
  then show ?thesis
    using that [of p1 p2 q] p2(1) by (simp add: p1_def q_def off_def R_def F_def)
qed

text \<open>The page after the deletion of slot \<open>s\<close>.\<close>

definition deleted :: "page \<Rightarrow> nat \<Rightarrow> page \<Rightarrow> bool" where
  "deleted p s q \<longleftrightarrow>
     slotCnt q \<le> 0 \<and> (0 < nslots q \<longrightarrow> live q (nslots q - 1)) \<and>
     freePtr q = freePtr p - slen p s \<and>
     freeSpace q = 1004 - freePtr q - 4 * int (nslots q) \<and> 0 \<le> freeSpace q \<and>
     curPage q = curPage p \<and> nextPage q = nextPage p \<and>
     (\<forall>k. live q k \<longleftrightarrow> live p k \<and> k \<noteq> s) \<and>
     (\<forall>k. live q k \<longrightarrow> slen q k = slen p k \<and>
        soff q k = (if soff p s < soff p k then soff p k - slen p s else soff p k)) \<and>
     (\<forall>x. int x < freePtr q \<longrightarrow> q x = (if soff p s \<le> int x then p (x + nat (slen p s)) else p x)) \<and>
     (\<forall>x \<ge> 1024. q x = p x)"

text \<open>Slot \<open>s\<close> is not the last one: it is marked empty.\<close>

lemma deleted_mark:
  assumes inv: "page_inv p" and lv: "live p s" and mv: "moved p s m" and s: "Suc s < nslots p"
  shows "deleted p s (set_slot_offset (set_slot_length m (- int s) (- 1)) (- int s) 0)"
proof -
  let ?q = "set_slot_offset (set_slot_length m (- int s) (- 1)) (- int s) 0"
  have n251: "nslots p \<le> 251" by (rule nslots_bound [OF inv])
  have as: "slot_addr (- int s) + 4 * s = 1004" using n251 s by (intro slot_addr_lin) simp
  have acc: "freeSpace p + freePtr p + 4 * int (nslots p) = 1004" "0 \<le> freeSpace p"
    using inv by (auto simp: page_inv_def)
  have sF: "0 < slen p s" "0 \<le> soff p s" "soff p s + slen p s \<le> freePtr p"
    using page_inv_liveD [OF inv lv] by auto
  have hd: "slotCnt ?q = slotCnt p" "freePtr ?q = freePtr p - slen p s" "freeSpace ?q = freeSpace p + slen p s"
    "curPage ?q = curPage p" "nextPage ?q = nextPage p"
    using mv as by (auto simp: moved_def set_slot_offset_def set_slot_length_def slotCnt_def freePtr_def
        freeSpace_def curPage_def nextPage_def mem_simps)
  then have nq: "nslots ?q = nslots p" by (simp add: nslots_def)
  have low: "?q x = m x" if "int x < freePtr p \<or> 1024 \<le> x" for x
    using that as s acc by (auto simp: set_slot_offset_def set_slot_length_def mem_simps)
  have slots: "slen ?q s = - 1" using as
    by (simp add: slen_def set_slot_offset_def set_slot_length_def slot_length_def mem_simps short_ok_def)
  have other: "slen ?q k = slen m k \<and> soff ?q k = soff m k" if "k < nslots p" "k \<noteq> s" for k
  proof -
    have "slot_addr (- int k) + 4 \<le> slot_addr (- int s) \<or> slot_addr (- int s) + 4 \<le> slot_addr (- int k)"
      using that s n251 by (intro slot_addr_apart) auto
    then show ?thesis
      by (auto simp: slen_def soff_def set_slot_offset_def set_slot_length_def slot_length_def
          slot_offset_def mem_simps)
  qed
  have mk: "slen m k = slen p k" "soff m k = (if 0 \<le> slen p k \<and> soff p s < soff p k then soff p k - slen p s else soff p k)"
    if "k < nslots p" for k using mv that by (auto simp: moved_def)
  have liveq: "live ?q k \<longleftrightarrow> live p k \<and> k \<noteq> s" for k
    using other [of k] mk(1) [of k] slots nq by (cases "k = s") (auto simp: live_def)
  show ?thesis
    unfolding deleted_def
  proof (intro conjI allI impI)
    show "live ?q (nslots ?q - 1)" if "0 < nslots ?q"
      using that page_inv_last [OF inv] s by (simp add: liveq nq)
    show "slen ?q k = slen p k" and
      "soff ?q k = (if soff p s < soff p k then soff p k - slen p s else soff p k)" if "live ?q k" for k
      using that liveq [of k] other [of k] mk [of k] page_inv_liveD [OF inv, of k] by auto
    show "?q x = (if soff p s \<le> int x then p (x + nat (slen p s)) else p x)" if "int x < freePtr ?q" for x
      using that mv low [of x] sF hd by (auto simp: moved_def)
    show "?q x = p x" if "1024 \<le> x" for x using that mv low [of x] by (auto simp: moved_def)
  qed (use hd nq acc sF liveq inv in \<open>auto simp: page_inv_def\<close>)
qed

text \<open>Slot \<open>s\<close> is the last one: the trailing empty slots are given back.\<close>

lemma deleted_compact:
  assumes inv: "page_inv p" and lv: "live p s" and mv: "moved p s m" and s: "Suc s = nslots p"
  obtains q where "compact_slots m = Some q" "deleted p s q"
proof -
  define n where "n = nslots p"
  have n251: "n \<le> 251" "0 < n" using nslots_bound [OF inv] s by (simp_all add: n_def)
  have acc: "freeSpace p + freePtr p + 4 * int n = 1004" "0 \<le> freeSpace p"
    using inv by (auto simp: page_inv_def n_def)
  have sF: "0 < slen p s" "0 \<le> soff p s" "soff p s + slen p s \<le> freePtr p"
    using page_inv_liveD [OF inv lv] by auto
  have mh: "slotCnt m = - int n" "freePtr m = freePtr p - slen p s" "freeSpace m = freeSpace p + slen p s"
    "curPage m = curPage p" "nextPage m = nextPage p"
    using mv slotCnt_nslots [OF inv] by (auto simp: moved_def n_def)
  have mk: "slen m k = slen p k" "soff m k = (if 0 \<le> slen p k \<and> soff p s < soff p k then soff p k - slen p s else soff p k)"
    if "k < n" for k using mv that by (auto simp: moved_def n_def)
  have "\<exists>q d. compact_slots m = Some q \<and> d < n \<and> slotCnt q = - int d \<and>
     freeSpace q = freeSpace m + 4 * int (n - d) \<and>
     (0 < d \<longrightarrow> slen m (d - 1) \<noteq> - 1) \<and> (\<forall>i. d \<le> i \<and> i < n - 1 \<longrightarrow> slen m i = - 1) \<and>
     (\<forall>x. x < 1008 \<or> 1010 \<le> x \<and> x < 1012 \<or> 1014 \<le> x \<longrightarrow> q x = m x)"
    using mh n251 acc sF by (intro compact_slots_spec) auto
  then obtain q d where q: "compact_slots m = Some q" "d < n" "slotCnt q = - int d"
     "freeSpace q = freeSpace m + 4 * int (n - d)"
     "0 < d \<longrightarrow> slen m (d - 1) \<noteq> - 1" "\<forall>i. d \<le> i \<and> i < n - 1 \<longrightarrow> slen m i = - 1"
     "\<forall>x. x < 1008 \<or> 1010 \<le> x \<and> x < 1012 \<or> 1014 \<le> x \<longrightarrow> q x = m x" by (elim exE conjE)
  have nq: "nslots q = d" using q(3) by (simp add: nslots_def)
  have fq: "freePtr q = freePtr m" unfolding freePtr_def by (rule get_short_cong) (use q(7) in auto)
  have hq: "curPage q = curPage p" "nextPage q = nextPage p"
  proof -
    have "curPage q = curPage m" "nextPage q = nextPage m"
      unfolding curPage_def nextPage_def by (rule get_int_cong; use q(7) in auto)+
    then show "curPage q = curPage p" "nextPage q = nextPage p" using mh by simp_all
  qed
  have sq: "slen q k = slen m k \<and> soff q k = soff m k" if "k < n" for k
    using slot_addr_lin [of k] that n251 q(7) unfolding slen_def soff_def slot_length_def slot_offset_def
    by (auto intro!: get_short_cong)
  have liveq: "live q k \<longleftrightarrow> live p k \<and> k \<noteq> s" for k
  proof -
    have "slen p k = - 1" if "d \<le> k" "k < s" using q(6) mk(1) [of k] that s by (simp add: n_def)
    then show ?thesis
      using sq [of k] mk(1) [of k] nq q(2) s by (cases "k < d") (auto simp: live_def n_def)
  qed
  have "deleted p s q"
    unfolding deleted_def
  proof (intro conjI allI impI)
    show "live q (nslots q - 1)" if "0 < nslots q"
      using that q(2,5) sq [of "d - 1"] by (simp add: live_def nq)
    show "slen q k = slen p k" and
      "soff q k = (if soff p s < soff p k then soff p k - slen p s else soff p k)" if "live q k" for k
      using that liveq [of k] sq [of k] mk [of k] page_inv_liveD [OF inv, of k] by (auto simp: n_def)
    show "q x = (if soff p s \<le> int x then p (x + nat (slen p s)) else p x)" if "int x < freePtr q" for x
      using that mv q(7) acc sF fq by (auto simp: moved_def)
    show "q x = p x" if "1024 \<le> x" for x using that mv q(7) by (auto simp: moved_def)
  qed (use hq nq acc sF liveq fq mh q in auto)
  then show ?thesis using that q(1) by blast
qed

lemma delete_live:
  assumes inv: "page_inv p" and lv: "live p s" and rid: "slotNo rid = int s"
  obtains q where "Page_deleteRecord p rid = Some (OK, q)" "deleted p s q"
proof -
  from delete_moves [OF inv lv] obtain p1 p2 m where m:
    "p1 = write_bytes p (nat (soff p s)) (read_bytes p (nat (soff p s + slen p s)) (nat (freePtr p - (soff p s + slen p s))))"
    "shift_offsets p1 (- int s) (slen p s) 0 = Some p2"
    "m = (let p3 = set_freePtr p2 (freePtr p2 - slen p s) in set_freeSpace p3 (freeSpace p3 + slen p s))"
    "moved p s m" .
  have sF: "0 < slen p s" "0 \<le> soff p s" "soff p s + slen p s \<le> freePtr p" "s < nslots p"
    using page_inv_liveD [OF inv lv] by auto
  have cnt: "slotCnt p = - int (nslots p)" "slotCnt m = - int (nslots p)"
    using slotCnt_nslots [OF inv] m(4) by (auto simp: moved_def)
  have bounds: "freePtr p \<le> 1024" "slot_in_page (- int s)"
    using inv sF nslots_bound [OF inv] by (auto simp: page_inv_def slot_in_page_def)
  have sl: "slot_length p (- int s) = slen p s" "slot_offset p (- int s) = soff p s"
    by (simp_all add: slen_def soff_def)
  have gt: "- int s > slotCnt p" and last: "- int s = slotCnt m + 1 \<longleftrightarrow> Suc s = nslots p"
    using cnt sF by auto
  have "Page_deleteRecord p rid = do {
      q \<leftarrow> shift_offsets p1 (- int s) (slen p s) 0;
      let q = (let p3 = set_freePtr q (freePtr q - slen p s) in set_freeSpace p3 (freeSpace p3 + slen p s));
      if - int s = slotCnt q + 1 then do { r \<leftarrow> compact_slots q; Some (OK, r) }
      else Some (OK, set_slot_offset (set_slot_length q (- int s) (- 1)) (- int s) 0) }"
    unfolding Page_deleteRecord_def rid Let_def sl m(1) using gt bounds sF by simp
  also have "\<dots> =
     (if Suc s = nslots p then do { p \<leftarrow> compact_slots m; Some (OK, p) }
      else Some (OK, set_slot_offset (set_slot_length m (- int s) (- 1)) (- int s) 0))"
    unfolding m(2) bind.bind_lunit Let_def m(3) [unfolded Let_def, symmetric] by (simp only: last)
  finally have eq: "Page_deleteRecord p rid = \<dots>" .
  show ?thesis
  proof (cases "Suc s = nslots p")
    case True
    obtain q where "compact_slots m = Some q" "deleted p s q"
      by (rule deleted_compact [OF inv lv m(4) True])
    then show ?thesis using eq True by (intro that [of q]) simp_all
  next
    case False
    then have "Suc s < nslots p" using sF by simp
    from deleted_mark [OF inv lv m(4) this] show ?thesis
      using eq False by (intro that) (simp_all only: if_False)
  qed
qed

lemma delete_preserves:
  assumes inv: "page_inv p" and lv: "live p s" and del: "deleted p s q"
  shows "page_inv q" and "page_recs q = (page_recs p)(s := None)"
proof -
  have lq: "live q k \<longleftrightarrow> live p k \<and> k \<noteq> s" for k using del by (simp add: deleted_def)
  have fq: "freePtr q = freePtr p - slen p s" using del by (simp add: deleted_def)
  have sq: "slen q k = slen p k" "soff q k = (if soff p s < soff p k then soff p k - slen p s else soff p k)"
    if "live q k" for k using del that by (auto simp: deleted_def)
  note s = page_inv_liveD [OF inv lv]
  have rel: "soff p s + slen p s \<le> soff p k \<and> soff q k = soff p k - slen p s \<or>
             soff p k + slen p k \<le> soff p s \<and> soff q k = soff p k" if "live q k" for k
    using sq [OF that] page_inv_apart [OF inv lv, of k] that lq [of k] page_inv_liveD [OF inv, of k] s
    by (auto simp: apart_def)
  show "page_inv q"
  proof (rule page_invI)
    show "slotCnt q \<le> 0" "0 \<le> freeSpace q" "freeSpace q = 1004 - freePtr q - 4 * int (nslots q)"
      using del by (auto simp: deleted_def)
    show "live q (nslots q - 1)" if "0 < nslots q"
      using del [unfolded deleted_def, THEN conjunct2, THEN conjunct1] that by (rule mp)
    show "0 \<le> freePtr q" using fq s by simp
    show "0 < slen q k \<and> 0 \<le> soff q k \<and> soff q k + slen q k \<le> freePtr q" if "live q k" for k
    proof -
      have "live p k" using lq that by simp
      from page_inv_liveD [OF inv this] show ?thesis
        using rel [OF that] sq(1) [OF that] s fq by linarith
    qed
    show "apart q i k" if "live q i" "live q k" "i \<noteq> k" for i k
    proof -
      have "live p i" "live p k" using lq that by simp_all
      then show ?thesis
        using rel [OF that(1)] rel [OF that(2)] sq(1) [OF that(1)] sq(1) [OF that(2)]
          page_inv_apart [OF inv, of i k] page_inv_liveD [OF inv, of i] page_inv_liveD [OF inv, of k]
          s that(3) unfolding apart_def by linarith
    qed
    have "{k. live p k} = insert s {k. live q k}" using lq lv by auto
    moreover have ns: "s \<notin> {k. live q k}" using lq by simp
    ultimately have "sum (slen p) {k. live p k} = slen p s + sum (slen p) {k. live q k}"
      using sum.insert [OF finite_live ns, of "slen p"] by (simp only:)
    also have "sum (slen p) {k. live q k} = sum (slen q) {k. live q k}"
      by (rule sum.cong) (simp_all add: sq)
    finally show "freePtr q = sum (slen q) {k. live q k}" using fq sum_live [OF inv] by simp
  qed
  show "page_recs q = (page_recs p)(s := None)"
  proof
    fix k
    have "read_bytes q (nat (soff q k)) (nat (slen q k)) = read_bytes p (nat (soff p k)) (nat (slen p k))"
      if lk: "live q k"
    proof (rule nth_equalityI)
      fix i assume "i < length (read_bytes q (nat (soff q k)) (nat (slen q k)))"
      then have i: "int i < slen p k" using sq(1) [OF lk] by simp
      have k: "0 \<le> soff p k" "soff p k + slen p k \<le> freePtr p"
        using lk lq page_inv_liveD [OF inv, of k] by auto
      have qx: "int x < freePtr q \<Longrightarrow> q x = (if soff p s \<le> int x then p (x + nat (slen p s)) else p x)" for x
        using del by (simp add: deleted_def)
      show "read_bytes q (nat (soff q k)) (nat (slen q k)) ! i = read_bytes p (nat (soff p k)) (nat (slen p k)) ! i"
        using rel [OF lk] sq(1) [OF lk] i k s qx [of "nat (soff q k) + i"] fq
        by (auto simp: nat_diff_distrib nat_add_distrib nat_le_iff)
    qed (simp add: sq(1) [OF lk])
    then show "page_recs q k = ((page_recs p)(s := None)) k"
      using lq by (simp add: page_recs_def)
  qed
qed

section \<open>Lookups\<close>

lemma page_recs_Some: "page_recs p k = Some bs \<longleftrightarrow>
    live p k \<and> bs = read_bytes p (nat (soff p k)) (nat (slen p k))"
  by (auto simp: page_recs_def)

lemma dom_page_recs: "dom (page_recs p) = {k. live p k}"
  by (auto simp: page_recs_def dom_def)

lemma slotCnt_less: "page_inv p \<Longrightarrow> slotCnt p < - int k \<longleftrightarrow> k < nslots p"
  using slotCnt_nslots by auto

lemma slot_in_pageI: "page_inv p \<Longrightarrow> k < nslots p \<Longrightarrow> slot_in_page (- int k)"
  using nslots_bound by (fastforce simp: slot_in_page_def)

lemma live_slen: "page_inv p \<Longrightarrow> k < nslots p \<Longrightarrow> live p k \<longleftrightarrow> 0 < slen p k"
  using page_inv_liveD(1) by (auto simp: live_def)

lemma getRecord_eq:
  assumes "page_inv p" "slotNo rid = int k"
  shows "Page_getRecord p rid r =
    (if live p k then Some (OK, \<lparr>ref_offset = soff p k, ref_length = slen p k\<rparr>) else Some (INVALIDSLOTNO, r))"
  using assms slotCnt_less [OF assms(1), of k] slot_in_pageI [OF assms(1), of k] live_slen [OF assms(1), of k]
  by (auto simp: Page_getRecord_def Let_def slen_def soff_def live_def)

lemma deref_live:
  assumes "page_inv p" "live p k"
  shows "deref p \<lparr>ref_offset = soff p k, ref_length = slen p k\<rparr>
     = Some \<lparr>rec_data = read_bytes p (nat (soff p k)) (nat (slen p k)), rec_length = slen p k\<rparr>"
proof -
  have "freePtr p \<le> 1024" using assms(1) by (auto simp: page_inv_def)
  then show ?thesis
    using page_inv_liveD [OF assms] by (simp add: deref_def)
qed

lemma deleteRecord_invalid:
  assumes "page_inv p" "slotNo rid = int k" "\<not> live p k"
  shows "Page_deleteRecord p rid = Some (INVALIDSLOTNO, p)"
  using assms slotCnt_less [OF assms(1), of k] slot_in_pageI [OF assms(1), of k] live_slen [OF assms(1), of k]
  by (auto simp: Page_deleteRecord_def Let_def slen_def soff_def)

section \<open>Iteration\<close>

lemma firstRecord_eq:
  assumes "page_inv p"
  shows "Page_firstRecord p r =
    (if \<exists>k. live p k then Some (OK, RID (curPage p) (int (LEAST k. live p k))) else Some (NORECORDS, r))"
proof -
  obtain j where j: "skip_empty p (- int 0) = Some (- int j)" "j \<le> nslots p"
    "\<And>i. i < j \<Longrightarrow> \<not> live p i" "j < nslots p \<Longrightarrow> live p j"
    using skip_empty_spec [OF assms, of 0] by auto
  note cnt = slotCnt_nslots [OF assms]
  show ?thesis
  proof (cases "j < nslots p")
    case True
    then have "(LEAST k. live p k) = j"
      using j by (intro Least_equality) (auto simp: not_less [symmetric])
    moreover have "\<exists>k. live p k" using j(4) [OF True] by blast
    moreover have "slot_length p (- int j) \<noteq> - 1" using j(4) [OF True] by (simp add: live_def slen_def)
    ultimately show ?thesis
      using j(1) True cnt slot_in_pageI [OF assms True] by (simp add: Page_firstRecord_def)
  next
    case False
    then have "\<not> live p k" for k using j(2,3) by (auto simp: live_def)
    then show ?thesis using j False cnt by (auto simp: Page_firstRecord_def)
  qed
qed

text \<open>
  \<open>nextRecord\<close> after slot \<open>c\<close>; the case \<open>c = - 1\<close> is \<open>NULLRID\<close>, the position before the
  first slot.
\<close>

lemma nextRecord_eq:
  assumes inv: "page_inv p" and c: "slotNo cur = c" "- 1 \<le> c"
  shows "Page_nextRecord p cur r =
    (if \<exists>k. c < int k \<and> live p k
     then Some (OK, RID (curPage p) (int (LEAST k. c < int k \<and> live p k))) else Some (ENDOFPAGE, r))"
proof -
  define k0 where "k0 = nat (c + 1)"
  have k0: "int k0 = c + 1" using c by (simp add: k0_def)
  note cnt = slotCnt_nslots [OF inv]
  have start: "- slotNo cur - 1 = - int k0" using c k0 by simp
  show ?thesis
  proof (cases "k0 \<le> nslots p")
    case False
    then have "skip_empty p (- int k0) = Some (- int k0)"
      using cnt by (subst skip_empty.simps) auto
    moreover have "\<not> (\<exists>k. c < int k \<and> live p k)" using False k0 by (auto simp: live_def)
    ultimately show ?thesis using False cnt by (auto simp: Page_nextRecord_def start)
  next
    case True
    obtain j where j: "skip_empty p (- int k0) = Some (- int j)" "k0 \<le> j" "j \<le> nslots p"
      "\<And>i. k0 \<le> i \<Longrightarrow> i < j \<Longrightarrow> \<not> live p i" "j < nslots p \<Longrightarrow> live p j"
      using skip_empty_spec [OF inv True] by auto
    show ?thesis
    proof (cases "j < nslots p")
      case T: True
      have ge: "j \<le> k" if "c < int k" "live p k" for k
        using that j(4) [of k] k0 by (cases "k < j") auto
      have "(LEAST k. c < int k \<and> live p k) = j"
        using j(2) j(5) [OF T] k0 ge by (intro Least_equality) auto
      moreover have "\<exists>k. c < int k \<and> live p k" using j(2) j(5) [OF T] k0 by force
      moreover have "slot_length p (- int j) \<noteq> - 1" using j(5) [OF T] by (simp add: live_def slen_def)
      ultimately show ?thesis
        using j(1) T cnt slot_in_pageI [OF inv T] by (simp add: Page_nextRecord_def start)
    next
      case F: False
      then have "\<not> (\<exists>k. c < int k \<and> live p k)" using j(3,4) k0 by (force simp: live_def)
      then show ?thesis using j F cnt by (auto simp: Page_nextRecord_def start)
    qed
  qed
qed


section \<open>Interface: a store of records\<close>

text \<open>
  What the layers above rely on: insertion puts the record under a new key, deletion
  removes one key, nothing else changes.
\<close>

locale record_store =
  fixes invar :: "'s \<Rightarrow> bool"
    and recs :: "'s \<Rightarrow> nat \<Rightarrow> byte list option"
    and ins :: "'s \<Rightarrow> byte list \<Rightarrow> ('s \<times> nat) option"
    and del :: "'s \<Rightarrow> nat \<Rightarrow> 's option"
  assumes finite_recs: "invar s \<Longrightarrow> finite (dom (recs s))"
    and ins: "invar s \<Longrightarrow> ins s b = Some (s', k) \<Longrightarrow>
       invar s' \<and> recs s k = None \<and> recs s' = (recs s)(k \<mapsto> b)"
    and del: "invar s \<Longrightarrow> recs s k \<noteq> None \<Longrightarrow>
       \<exists>s'. del s k = Some s' \<and> invar s' \<and> recs s' = (recs s)(k := None)"
begin

text \<open>The bag of records a store holds.\<close>

definition bag :: "'s \<Rightarrow> byte list multiset" where
  "bag s = image_mset (\<lambda>k. the (recs s k)) (mset_set (dom (recs s)))"

lemma bag_ins:
  assumes "invar s" "ins s b = Some (s', k)"
  shows "bag s' = add_mset b (bag s)"
proof -
  from ins [OF assms] have r: "recs s' = (recs s)(k \<mapsto> b)" and k: "k \<notin> dom (recs s)" by auto
  have "image_mset (\<lambda>j. the (recs s' j)) (mset_set (dom (recs s))) = bag s"
    unfolding bag_def by (rule image_mset_cong) (use r k finite_recs [OF assms(1)] in auto)
  moreover have "dom (recs s') = insert k (dom (recs s))" using r by simp
  ultimately show ?thesis
    using k finite_recs [OF assms(1)] r by (simp add: bag_def)
qed

lemma del_ins:
  assumes "invar s" "ins s b = Some (s', k)"
  shows "\<exists>t. del s' k = Some t \<and> invar t \<and> recs t = recs s"
proof -
  from ins [OF assms] have "invar s'" "recs s' k \<noteq> None" "(recs s')(k := None) = recs s"
    by (auto simp: fun_eq_iff)
  then show ?thesis using del by metis
qed

lemma ins_dom: "invar s \<Longrightarrow> ins s b = Some (s', k) \<Longrightarrow> card (dom (recs s')) = Suc (card (dom (recs s)))"
  using ins [of s b s' k] finite_recs [of s] by (auto simp: card_insert_if domIff)

end

text \<open>A record too long for the 32-bit sum \<open>rec.length + sizeof(slot_t)\<close> never reaches a page.\<close>

abbreviation storable :: "byte list \<Rightarrow> bool" where
  "storable b \<equiv> 0 < length b \<and> length b < 2147483644"

definition page_ins :: "page \<Rightarrow> byte list \<Rightarrow> (page \<times> nat) option" where
  "page_ins p b =
     (if \<not> storable b then None
      else case Page_insertRecord p \<lparr>rec_data = b, rec_length = int (length b)\<rparr> NULLRID of
        Some (OK, q, r) \<Rightarrow> Some (q, nat (slotNo r)) | _ \<Rightarrow> None)"

definition page_del :: "page \<Rightarrow> nat \<Rightarrow> page option" where
  "page_del p k = (case Page_deleteRecord p (RID (curPage p) (int k)) of Some (OK, q) \<Rightarrow> Some q | _ \<Rightarrow> None)"

lemma insert_nospace:
  "0 \<le> len \<Longrightarrow> int_ok (len + 4) \<Longrightarrow> freeSpace p < len + 4 \<Longrightarrow>
   Page_insertRecord p \<lparr>rec_data = b, rec_length = len\<rparr> rid = Some (NOSPACE, p, rid)"
  by (simp add: Page_insertRecord_def)

lemma page_ins_cases:
  assumes inv: "page_inv p" and b: "storable b"
  shows "(\<exists>q k. Page_insertRecord p \<lparr>rec_data = b, rec_length = int (length b)\<rparr> rid = Some (OK, q, RID (curPage p) (int k)) \<and>
      int (length b) + 4 \<le> freeSpace p \<and> page_inv q \<and> page_recs p k = None \<and> (\<forall>i < k. page_recs p i \<noteq> None) \<and>
      page_recs q = (page_recs p)(k \<mapsto> b) \<and> inserted p k b q) \<or>
    freeSpace p < int (length b) + 4 \<and>
      Page_insertRecord p \<lparr>rec_data = b, rec_length = int (length b)\<rparr> rid = Some (NOSPACE, p, rid)"
proof (cases "int (length b) + 4 \<le> freeSpace p")
  case True
  from insert_fits [OF inv _ True] b obtain j q where q:
    "Page_insertRecord p \<lparr>rec_data = b, rec_length = int (length b)\<rparr> rid = Some (OK, q, RID (curPage p) (int j))"
    "inserted p j b q" "j \<le> nslots p" "\<And>i. i < j \<Longrightarrow> slen p i \<noteq> - 1" "j < nslots p \<Longrightarrow> slen p j = - 1"
    by blast
  have "page_recs p j = None" using q(3,5) by (cases "j < nslots p") (auto simp: page_recs_def live_def)
  moreover have "page_recs p i \<noteq> None" if "i < j" for i
    using q(3) q(4) [OF that] that by (simp add: page_recs_def live_def)
  moreover have "page_inv q" "page_recs q = (page_recs p)(j \<mapsto> b)"
    using insert_preserves [OF inv q(2) _ True q(3,5)] b by auto
  ultimately show ?thesis using q(1,2) True by blast
next
  case False
  then show ?thesis using b by (intro disjI2 conjI insert_nospace) (auto simp: int_ok_def)
qed

interpretation page_store: record_store page_inv page_recs page_ins page_del
proof unfold_locales
  fix p :: page and b k q
  show "finite (dom (page_recs p))" by (simp add: dom_page_recs)
  show "page_inv q \<and> page_recs p k = None \<and> page_recs q = (page_recs p)(k \<mapsto> b)"
    if "page_inv p" "page_ins p b = Some (q, k)"
    using that page_ins_cases [OF that(1), of b NULLRID] by (auto simp: page_ins_def split: if_splits)
  show "\<exists>q. page_del p k = Some q \<and> page_inv q \<and> page_recs q = (page_recs p)(k := None)"
    if inv: "page_inv p" and k: "page_recs p k \<noteq> None"
  proof -
    have lv: "live p k" using k by (auto simp: page_recs_def split: if_splits)
    obtain q where "Page_deleteRecord p (RID (curPage p) (int k)) = Some (OK, q)" "deleted p k q"
      by (rule delete_live [OF inv lv, of "RID (curPage p) (int k)"]) auto
    then show ?thesis using delete_preserves [OF inv lv] by (auto simp: page_del_def)
  qed
qed


section \<open>Interface: iterating over records\<close>

text \<open>Record identifiers are ordered by page number and slot number.\<close>

instantiation RID :: linorder
begin

definition less_eq_RID :: "RID \<Rightarrow> RID \<Rightarrow> bool" where
  "less_eq_RID r s \<longleftrightarrow> pageNo r < pageNo s \<or> pageNo r = pageNo s \<and> slotNo r \<le> slotNo s"

definition less_RID :: "RID \<Rightarrow> RID \<Rightarrow> bool" where
  "less_RID r s \<longleftrightarrow> pageNo r < pageNo s \<or> pageNo r = pageNo s \<and> slotNo r < slotNo s"

instance
  by standard (auto simp: less_eq_RID_def less_RID_def RID.expand)

end

text \<open>Following a successor function from a start, at most \<open>n\<close> steps.\<close>

fun walk :: "('k \<Rightarrow> 'k option) \<Rightarrow> nat \<Rightarrow> 'k option \<Rightarrow> 'k list" where
  "walk nxt 0 cur = []"
| "walk nxt (Suc n) None = []"
| "walk nxt (Suc n) (Some k) = k # walk nxt n (nxt k)"

locale record_iterator =
  fixes invar :: "'s \<Rightarrow> bool"
    and keys :: "'s \<Rightarrow> 'k::linorder set"
    and first :: "'s \<Rightarrow> 'k option"
    and succ :: "'s \<Rightarrow> 'k \<Rightarrow> 'k option"
  assumes finite_keys: "invar s \<Longrightarrow> finite (keys s)"
    and first: "invar s \<Longrightarrow> first s = (if keys s = {} then None else Some (Min (keys s)))"
    and succ: "invar s \<Longrightarrow> k \<in> keys s \<Longrightarrow>
       succ s k = (if {j \<in> keys s. k < j} = {} then None else Some (Min {j \<in> keys s. k < j}))"
begin

lemma walk_upper:
  assumes inv: "invar s" and A: "A = {j \<in> keys s. P j}" "\<And>i j. P i \<Longrightarrow> i < j \<Longrightarrow> P j" and n: "card A \<le> n"
  shows "walk (succ s) n (if A = {} then None else Some (Min A)) = sorted_list_of_set A"
  using A n
proof (induction n arbitrary: A P)
  case 0
  then have "A = {}" using finite_keys [OF inv] by simp
  then show ?case by simp
next
  case (Suc n)
  have fin: "finite A" using Suc.prems(1) finite_keys [OF inv] by simp
  show ?case
  proof (cases "A = {}")
    case True
    then show ?thesis by simp
  next
    case False
    define m where "m = Min A"
    have m: "m \<in> A" "\<And>j. j \<in> A \<Longrightarrow> m \<le> j" using False fin by (auto simp: m_def)
    define B where "B = {j \<in> keys s. m < j}"
    have BA: "B = A - {m}" using m Suc.prems(1,2) by (auto simp: B_def less_le)
    have "walk (succ s) n (if B = {} then None else Some (Min B)) = sorted_list_of_set B"
      using Suc.prems(3) m fin by (intro Suc.IH [of B "\<lambda>j. m < j"]) (auto simp: B_def [symmetric] BA)
    moreover have "succ s m = (if B = {} then None else Some (Min B))"
      using succ [OF inv, of m] m(1) Suc.prems(1) by (simp add: B_def)
    moreover have "sorted_list_of_set A = m # sorted_list_of_set B"
      using False fin by (simp add: sorted_list_of_set_nonempty m_def BA)
    ultimately show ?thesis using False by (simp add: m_def)
  qed
qed

text \<open>Walking from the first record visits every record once, in ascending order.\<close>

lemma walk_all: "invar s \<Longrightarrow> card (keys s) \<le> n \<Longrightarrow> walk (succ s) n (first s) = sorted_list_of_set (keys s)"
  using walk_upper [of s "keys s" "\<lambda>_. True" n] by (simp add: first)

end

definition page_keys :: "page \<Rightarrow> RID set" where
  "page_keys p = (\<lambda>k. RID (curPage p) (int k)) ` dom (page_recs p)"

definition page_first :: "page \<Rightarrow> RID option" where
  "page_first p = (case Page_firstRecord p NULLRID of Some (OK, r) \<Rightarrow> Some r | _ \<Rightarrow> None)"

definition page_next :: "page \<Rightarrow> RID \<Rightarrow> RID option" where
  "page_next p cur = (case Page_nextRecord p cur NULLRID of Some (OK, r) \<Rightarrow> Some r | _ \<Rightarrow> None)"

lemma Min_RID:
  assumes "finite A" "A \<noteq> {}"
  shows "Min ((\<lambda>k. RID c (int k)) ` A) = RID c (int (LEAST k. k \<in> A))"
proof (rule Min_eqI)
  show "finite ((\<lambda>k. RID c (int k)) ` A)" using assms by simp
  show "RID c (int (LEAST k. k \<in> A)) \<in> (\<lambda>k. RID c (int k)) ` A"
    using assms(2) by (auto intro: LeastI)
  show "RID c (int (LEAST k. k \<in> A)) \<le> r" if "r \<in> (\<lambda>k. RID c (int k)) ` A" for r
    using that by (auto simp: less_eq_RID_def intro: Least_le)
qed

interpretation page_iter: record_iterator page_inv page_keys page_first page_next
proof unfold_locales
  fix p :: page and r assume inv: "page_inv p"
  show "finite (page_keys p)" by (simp add: page_keys_def dom_page_recs)
  show "page_first p = (if page_keys p = {} then None else Some (Min (page_keys p)))"
    using firstRecord_eq [OF inv, of NULLRID] Min_RID [of "{k. live p k}" "curPage p"]
    by (auto simp: page_first_def page_keys_def dom_page_recs)
  assume "r \<in> page_keys p"
  then obtain c where r: "r = RID (curPage p) (int c)" by (auto simp: page_keys_def)
  have up: "{j \<in> page_keys p. r < j} = (\<lambda>k. RID (curPage p) (int k)) ` {k. int c < int k \<and> live p k}"
    by (auto simp: page_keys_def dom_page_recs r less_RID_def)
  have "finite {k. int c < int k \<and> live p k}" by (rule finite_subset [OF _ finite_live [of p]]) auto
  then show "page_next p r = (if {j \<in> page_keys p. r < j} = {} then None else Some (Min {j \<in> page_keys p. r < j}))"
    using nextRecord_eq [OF inv, of r "int c" NULLRID] Min_RID [of "{k. int c < int k \<and> live p k}" "curPage p"]
    unfolding up by (auto simp: page_next_def r)
qed


section \<open>Reachable pages\<close>

lemma slot_addr_nonpos: "slot_addr (- int k) \<le> 1004"
  by (simp add: slot_addr_def)

lemma page_view_cong:
  assumes "\<And>x. x < 1016 \<Longrightarrow> p x = q x"
  shows "page_inv p \<longleftrightarrow> page_inv q" and "page_inv q \<Longrightarrow> page_recs p = page_recs q"
proof -
  have g: "get_short p a = get_short q a" if "a + 2 \<le> 1016" for a
    using that by (intro get_short_cong assms) auto
  have s: "slen p k = slen q k" "soff p k = soff q k" for k
    using slot_addr_nonpos [of k] by (auto simp: slen_def soff_def slot_length_def slot_offset_def intro!: g)
  have h: "slotCnt p = slotCnt q" "freePtr p = freePtr q" "freeSpace p = freeSpace q" "nslots p = nslots q"
    by (simp_all add: slotCnt_def freePtr_def freeSpace_def nslots_def g)
  show "page_inv p \<longleftrightarrow> page_inv q" by (simp add: page_inv_def s h apart_def)
  assume inv: "page_inv q"
  have "read_bytes p (nat (soff q k)) (nat (slen q k)) = read_bytes q (nat (soff q k)) (nat (slen q k))"
    if "live q k" for k
  proof -
    have "freePtr q \<le> 1004" using inv by (auto simp: page_inv_def)
    then show ?thesis
      using page_inv_liveD [OF inv that] by (intro read_bytes_cong assms) auto
  qed
  then show "page_recs p = page_recs q" by (auto simp: fun_eq_iff page_recs_def live_def s h)
qed

lemma setNextPage_view:
  "page_inv (set_nextPage p n) \<longleftrightarrow> page_inv p"
  "page_inv p \<Longrightarrow> page_recs (set_nextPage p n) = page_recs p"
  by (rule page_view_cong; simp add: set_nextPage_def mem_simps)+

text \<open>The pages the operations can produce.\<close>

inductive page_reachable :: "page \<Rightarrow> bool" where
  init: "page_reachable (Page_init p n)"
| insert: "page_reachable p \<Longrightarrow> storable b \<Longrightarrow>
    Page_insertRecord p \<lparr>rec_data = b, rec_length = int (length b)\<rparr> rid = Some (st, q, rid') \<Longrightarrow> page_reachable q"
| delete: "page_reachable p \<Longrightarrow> 0 \<le> slotNo rid \<Longrightarrow> Page_deleteRecord p rid = Some (st, q) \<Longrightarrow> page_reachable q"
| link: "page_reachable p \<Longrightarrow> Page_setNextPage p n = (st, q) \<Longrightarrow> page_reachable q"

lemma insert_inv:
  "page_inv p \<Longrightarrow> storable b \<Longrightarrow>
   Page_insertRecord p \<lparr>rec_data = b, rec_length = int (length b)\<rparr> rid = Some (st, q, rid') \<Longrightarrow> page_inv q"
  using page_ins_cases [of p b rid] by auto

lemma delete_inv:
  assumes inv: "page_inv p" and rid: "0 \<le> slotNo rid" and del: "Page_deleteRecord p rid = Some (st, q)"
  shows "page_inv q"
proof -
  have k: "slotNo rid = int (nat (slotNo rid))" using rid by simp
  show ?thesis
  proof (cases "live p (nat (slotNo rid))")
    case True
    obtain r where "Page_deleteRecord p rid = Some (OK, r)" "deleted p (nat (slotNo rid)) r"
      by (rule delete_live [OF inv True k])
    then show ?thesis using del delete_preserves(1) [OF inv True] by simp
  next
    case False
    then show ?thesis using del inv deleteRecord_invalid [OF inv k] by simp
  qed
qed

lemma page_reachable_inv: "page_reachable p \<Longrightarrow> page_inv p"
  by (induction rule: page_reachable.induct)
    (auto simp: page_inv_init Page_setNextPage_def setNextPage_view dest: insert_inv delete_inv)

text \<open>On a page that satisfies the invariant no operation leaves the page object.\<close>

lemma page_ops_defined:
  assumes inv: "page_inv p" and rid: "0 \<le> slotNo rid" and b: "storable b"
  shows "Page_insertRecord p \<lparr>rec_data = b, rec_length = int (length b)\<rparr> r \<noteq> None"
    and "Page_deleteRecord p rid \<noteq> None" and "Page_getRecord p rid rr \<noteq> None"
    and "Page_firstRecord p r \<noteq> None" and "Page_nextRecord p rid r \<noteq> None"
proof -
  have k: "slotNo rid = int (nat (slotNo rid))" using rid by simp
  show "Page_insertRecord p \<lparr>rec_data = b, rec_length = int (length b)\<rparr> r \<noteq> None"
    using page_ins_cases [OF inv b, of r] by auto
  show "Page_deleteRecord p rid \<noteq> None"
  proof (cases "live p (nat (slotNo rid))")
    case True
    then show ?thesis by (rule delete_live [OF inv _ k]) simp
  qed (simp add: deleteRecord_invalid [OF inv k])
  show "Page_getRecord p rid rr \<noteq> None" by (simp add: getRecord_eq [OF inv k])
  show "Page_firstRecord p r \<noteq> None" by (simp add: firstRecord_eq [OF inv])
  show "Page_nextRecord p rid r \<noteq> None" using rid by (simp add: nextRecord_eq [OF inv refl])
qed

lemma freeSpace_init: "freeSpace (Page_init p n) = 1004"
  by (simp add: Page_init_def Let_def field_defs mem_simps short_ok_def)


text \<open>Under the invariant the slot count is determined by the records.\<close>

lemma nslots_recs:
  assumes "page_inv p" "page_inv q" "page_recs p = page_recs q"
  shows "nslots p = nslots q"
proof -
  have le: "nslots p \<le> nslots q" if "page_inv p" "page_recs p = page_recs q" for p q
  proof (cases "nslots p = 0")
    case False
    then have "live p (nslots p - 1)" using page_inv_last [OF that(1)] by simp
    then have "live q (nslots p - 1)" using that(2) dom_page_recs [of p] dom_page_recs [of q] by auto
    then show ?thesis by (auto simp: live_def)
  qed simp
  show ?thesis using le [OF assms(1,3)] le [OF assms(2) assms(3) [symmetric]] by simp
qed

lemma space_accounting: "page_inv p \<Longrightarrow> freeSpace p = 1004 - freePtr p - 4 * int (nslots p)"
  by (auto simp: page_inv_def)

text \<open>A page with one record, used in examples.\<close>

definition sample_page :: page where
  "sample_page = (case Page_insertRecord (Page_init zero_mem 7) \<lparr>rec_data = [1, 2, 3], rec_length = 3\<rparr> NULLRID of
     Some (st, q, rid) \<Rightarrow> q | None \<Rightarrow> zero_mem)"

lemma sample_page_insert:
  "Page_insertRecord (Page_init zero_mem 7) \<lparr>rec_data = [1, 2, 3], rec_length = 3\<rparr> NULLRID
     = Some (OK, sample_page, RID 7 0) \<and> page_inv sample_page \<and>
   page_recs sample_page = [0 \<mapsto> [1, 2, 3]] \<and> curPage sample_page = 7"
proof -
  obtain q k where q: "Page_insertRecord (Page_init zero_mem 7) \<lparr>rec_data = [1, 2, 3], rec_length = 3\<rparr> NULLRID
      = Some (OK, q, RID 7 (int k))" "page_inv q" "\<forall>i < k. page_recs (Page_init zero_mem 7) i \<noteq> None"
    "page_recs q = (page_recs (Page_init zero_mem 7))(k \<mapsto> [1, 2, 3])" "curPage q = 7"
    using page_ins_cases [OF page_inv_init, of "[1, 2, 3]" zero_mem 7 NULLRID]
    by (auto simp: freeSpace_init curPage_init int_ok_def inserted_def)
  then have "k = 0" by (metis gr_zeroI page_recs_init)
  then show ?thesis using q by (simp add: sample_page_def page_recs_init)
qed


section \<open>Properties\<close>

text \<open>
  (C7) Inserting a record into a valid page either fails with \<open>NOSPACE\<close> and leaves the page
  alone, exactly when the record and a slot do not fit into the free space, or stores the
  record's bytes under the lowest slot number not in use and keeps every other record, the
  page links and the invariant; the record identifier names this page and that slot.
\<close>

theorem page_insert_correct:
  assumes "page_inv p" "storable b"
  shows "if int (length b) + 4 \<le> freeSpace p
    then \<exists>q k. Page_insertRecord p \<lparr>rec_data = b, rec_length = int (length b)\<rparr> rid = Some (OK, q, RID (curPage p) (int k)) \<and>
      page_inv q \<and> page_recs p k = None \<and> (\<forall>i < k. page_recs p i \<noteq> None) \<and>
      page_recs q = (page_recs p)(k \<mapsto> b) \<and> curPage q = curPage p \<and> nextPage q = nextPage p
    else Page_insertRecord p \<lparr>rec_data = b, rec_length = int (length b)\<rparr> rid = Some (NOSPACE, p, rid)"
  using page_ins_cases [OF assms, of rid] by (fastforce simp: inserted_def)

theorem page_insert_correct_witness:
  "\<exists>q k. Page_insertRecord (Page_init zero_mem 7) \<lparr>rec_data = [1, 2, 3], rec_length = int (length [1, 2, 3 :: byte])\<rparr> NULLRID
     = Some (OK, q, RID (curPage (Page_init zero_mem 7)) (int k)) \<and> page_recs q k = Some [1, 2, 3]"
proof -
  have "page_inv (Page_init zero_mem 7)" "storable [1, 2, 3 :: byte]" by (simp_all add: page_inv_init)
  from page_insert_correct [OF this, of NULLRID] show ?thesis by (auto simp: freeSpace_init)
qed

text \<open>
  (C13) Deleting an existing record removes exactly that record: every other record keeps its
  slot number and its bytes although they move inside the page, and the invariant holds
  again. Deleting a slot that holds no record reports \<open>INVALIDSLOTNO\<close> and changes nothing.
\<close>

theorem page_delete_correct:
  assumes "page_inv p"
  shows "case page_recs p k of
      Some b \<Rightarrow> \<exists>q. Page_deleteRecord p (RID n (int k)) = Some (OK, q) \<and> page_inv q \<and>
        page_recs q = (page_recs p)(k := None) \<and> freePtr q = freePtr p - int (length b)
    | None \<Rightarrow> Page_deleteRecord p (RID n (int k)) = Some (INVALIDSLOTNO, p)"
proof (cases "live p k")
  case True
  obtain q where "Page_deleteRecord p (RID n (int k)) = Some (OK, q)" "deleted p k q"
    by (rule delete_live [OF assms True, of "RID n (int k)"]) auto
  then show ?thesis
    using delete_preserves [OF assms True] True page_inv_liveD [OF assms True]
    by (auto simp: page_recs_def deleted_def)
next
  case False
  then show ?thesis using deleteRecord_invalid [OF assms, of "RID n (int k)" k] by (simp add: page_recs_def)
qed

theorem page_delete_correct_witness:
  "\<exists>q. Page_deleteRecord sample_page (RID 7 (int 0)) = Some (OK, q) \<and> page_recs q = Map.empty"
  using page_delete_correct [where p = sample_page and k = 0 and n = 7] sample_page_insert by auto

text \<open>
  On a valid page, \<open>getRecord\<close> succeeds exactly on the slots that hold a record, and the
  pointer and length it returns denote the stored bytes, inside the page object.
\<close>

theorem page_get_correct:
  assumes "page_inv p"
  shows "case page_recs p k of
      Some b \<Rightarrow> \<exists>r. Page_getRecord p (RID n (int k)) r0 = Some (OK, r) \<and>
        deref p r = Some \<lparr>rec_data = b, rec_length = int (length b)\<rparr>
    | None \<Rightarrow> Page_getRecord p (RID n (int k)) r0 = Some (INVALIDSLOTNO, r0)"
  using getRecord_eq [OF assms, of "RID n (int k)" k r0] deref_live [OF assms, of k] page_inv_liveD [OF assms, of k]
  by (auto simp: page_recs_def)

theorem page_get_correct_witness:
  "\<exists>r. Page_getRecord sample_page (RID 7 (int 0)) \<lparr>ref_offset = 0, ref_length = 0\<rparr> = Some (OK, r) \<and>
     deref sample_page r = Some \<lparr>rec_data = [1, 2, 3], rec_length = 3\<rparr>"
  using page_get_correct [where p = sample_page and k = 0 and n = 7] sample_page_insert by auto

text \<open>
  (C22) The loop \<open>firstRecord\<close>, \<open>nextRecord\<close>, \<open>nextRecord\<close>, ... visits the identifier of every
  record of a valid page exactly once, in ascending order, and then stops; 251 steps are
  enough for any page.
\<close>

theorem page_iteration_complete:
  assumes "page_inv p"
  shows "walk (page_next p) 251 (page_first p) =
    sorted_list_of_set ((\<lambda>k. RID (curPage p) (int k)) ` dom (page_recs p))"
proof -
  have "card (page_keys p) \<le> card (dom (page_recs p))"
    unfolding page_keys_def by (rule card_image_le) (simp add: dom_page_recs)
  also have "\<dots> \<le> card {..<nslots p}"
    by (rule card_mono) (auto simp: dom_page_recs live_def)
  finally have "card (page_keys p) \<le> 251" using nslots_bound [OF assms] by simp
  then show ?thesis using page_iter.walk_all [OF assms] by (simp add: page_keys_def)
qed

theorem page_iteration_complete_witness:
  "walk (page_next sample_page) 251 (page_first sample_page) = [RID 7 0]"
  using page_iteration_complete [of sample_page] sample_page_insert by simp

text \<open>
  (C21) Every page that is initialised and then changed only by \<open>insertRecord\<close>, \<open>deleteRecord\<close>
  and \<open>setNextPage\<close>, with records of at least one byte and slot numbers that are not negative, satisfies the
  invariant, and on it no operation with such arguments reads or writes outside the page object: the slot array
  and the records never collide, and a record reference that \<open>getRecord\<close> returns lies in the page.
  The code does not check these conditions: with a negative slot number, as in \<open>NULLRID\<close>, the
  operations read behind the slot array.
\<close>

theorem page_reachable_safe:
  assumes "page_reachable p" "storable b" "0 \<le> slotNo rid"
  shows "page_inv p \<and>
    Page_insertRecord p \<lparr>rec_data = b, rec_length = int (length b)\<rparr> r \<noteq> None \<and>
    Page_deleteRecord p rid \<noteq> None \<and> Page_getRecord p rid rr \<noteq> None \<and>
    (\<forall>ref. Page_getRecord p rid rr = Some (OK, ref) \<longrightarrow> deref p ref \<noteq> None) \<and>
    Page_firstRecord p r \<noteq> None \<and> Page_nextRecord p rid r \<noteq> None"
proof -
  note inv = page_reachable_inv [OF assms(1)]
  obtain k where k: "slotNo rid = int k" using assms(3) nonneg_int_cases by blast
  have "deref p ref \<noteq> None" if "Page_getRecord p rid rr = Some (OK, ref)" for ref
    using that deref_live [OF inv, of k] by (auto simp: getRecord_eq [OF inv k] split: if_splits)
  then show ?thesis using inv page_ops_defined [OF inv assms(3,2)] by blast
qed

theorem page_reachable_safe_witness:
  "page_reachable sample_page \<and> Page_deleteRecord sample_page (RID 7 0) \<noteq> None"
proof
  have "storable [1, 2, 3 :: byte]" by simp
  from page_reachable.insert [OF page_reachable.init this, of zero_mem 7 NULLRID]
  show r: "page_reachable sample_page" using sample_page_insert by simp
  show "Page_deleteRecord sample_page (RID 7 0) \<noteq> None"
    using page_reachable_safe [OF r, of "[1]" "RID 7 0"] by simp
qed

text \<open>
  Deleting the record just inserted restores the page's contents, its slot count and its
  free space: no byte is lost to an insertion that is undone.
\<close>

theorem page_insert_delete_roundtrip:
  assumes "page_inv p" "storable b"
    "Page_insertRecord p \<lparr>rec_data = b, rec_length = int (length b)\<rparr> rid = Some (OK, q, rid')"
  shows "\<exists>t. Page_deleteRecord q rid' = Some (OK, t) \<and> page_inv t \<and> page_recs t = page_recs p \<and>
    slotCnt t = slotCnt p \<and> freePtr t = freePtr p \<and> freeSpace t = freeSpace p"
proof -
  from page_ins_cases [OF assms(1,2), of rid] assms(3) obtain k where
    k: "rid' = RID (curPage p) (int k)" "page_inv q" "page_recs p k = None"
      "page_recs q = (page_recs p)(k \<mapsto> b)" "inserted p k b q" by auto
  have "page_recs q k = Some b" using k(4) by simp
  then have lv: "live q k" and "length b = nat (slen q k)" by (simp_all add: page_recs_Some)
  then have bs: "int (length b) = slen q k" using page_inv_liveD(1) [OF k(2) lv] by simp
  obtain t where t: "Page_deleteRecord q rid' = Some (OK, t)" "deleted q k t"
    by (rule delete_live [OF k(2) lv, of rid']) (auto simp: k(1))
  note inv = delete_preserves [OF k(2) lv t(2)]
  have recs: "page_recs t = page_recs p" using inv(2) k(3,4) by (auto simp: fun_eq_iff)
  have n: "nslots t = nslots p" by (rule nslots_recs [OF inv(1) assms(1) recs])
  moreover have "freePtr t = freePtr p" using t(2) k(5) bs by (simp add: deleted_def inserted_def)
  ultimately show ?thesis
    using t(1) inv(1) recs space_accounting [OF inv(1)] space_accounting [OF assms(1)]
      slotCnt_nslots [OF inv(1)] slotCnt_nslots [OF assms(1)] by simp
qed

theorem page_insert_delete_roundtrip_witness:
  "\<exists>t. Page_deleteRecord sample_page (RID 7 0) = Some (OK, t) \<and> freeSpace t = 1004"
  using page_insert_delete_roundtrip [OF page_inv_init, of "[1, 2, 3]" zero_mem 7 NULLRID sample_page "RID 7 0"]
    sample_page_insert by (auto simp: freeSpace_init)

text \<open>
  \<open>getRecord\<close> does not reject a negative slot number: asked for \<open>NULLRID\<close>, on any page
  that holds a record it reports \<open>OK\<close> and hands out the page's own header fields as a slot,
  that is, a pointer \<open>slotCnt\<close> bytes before the start of the page with length \<open>freePtr\<close>.
  This is what \<open>HeapFileScan::getRecord\<close> does between the start of a scan and the first
  \<open>scanNext\<close>.
\<close>

theorem page_get_nullrid:
  assumes "page_inv p" "page_recs p \<noteq> Map.empty"
  shows "Page_getRecord p NULLRID r = Some (OK, \<lparr>ref_offset = slotCnt p, ref_length = freePtr p\<rparr>) \<and>
    slotCnt p < 0 \<and> deref p \<lparr>ref_offset = slotCnt p, ref_length = freePtr p\<rparr> = None"
proof -
  obtain k where k: "live p k" using assms(2) by (auto simp: page_recs_def fun_eq_iff split: if_splits)
  then have "0 < nslots p" "0 < freePtr p" using page_inv_liveD [OF assms(1) k] by auto
  moreover from this have "slotCnt p < 0" using slotCnt_nslots [OF assms(1)] by simp
  ultimately show ?thesis
    by (simp add: Page_getRecord_def NULLRID_def slot_in_page_def slot_length_def slot_offset_def
        slot_addr_def slotCnt_def freePtr_def deref_def)
qed

theorem page_get_nullrid_witness:
  "\<exists>r'. Page_getRecord sample_page NULLRID \<lparr>ref_offset = 0, ref_length = 0\<rparr> = Some (OK, r') \<and> deref sample_page r' = None"
  using page_get_nullrid [of sample_page "\<lparr>ref_offset = 0, ref_length = 0\<rparr>"] sample_page_insert by auto

end
