(* ===== verification/HeapPages.thy ===== *)
theory HeapPages
  imports HeapFile DBCorrect PageCorrect
begin

text \<open>
  What a client of the buffer manager may do with the pages it has pinned, in the form the
  heap file layer uses it: reading, giving back, writing through the pointer and allocating
  a page, each as one step on the current contents of the pages (\<open>lpage\<close>), the pin counts
  and the page pointers that stay good.
\<close>

section \<open>Steps of a client\<close>

definition pool_ok :: "'a buf_state_scheme \<Rightarrow> bool" where
  "pool_ok w \<longleftrightarrow> buf_inv w \<and> coherent w"

text \<open>\<open>pp\<close> points to the frame that holds page \<open>p\<close> of file \<open>f\<close>, and the page is pinned.\<close>

definition holds :: "'a buf_state_scheme \<Rightarrow> ptr \<Rightarrow> int \<Rightarrow> pageptr \<Rightarrow> bool" where
  "holds w f p pp \<longleftrightarrow> (\<exists>i. pp = Some i \<and> frame_of w (f, p) = Some (int i)) \<and> 0 < pins w f p"

text \<open>Giving the page back frees a frame, or there is a free frame.\<close>

definition movable :: "'a buf_state_scheme \<Rightarrow> ptr \<Rightarrow> int \<Rightarrow> bool" where
  "movable w f p \<longleftrightarrow> pins w f p = 1 \<or> \<not> all_pinned w"

definition env_same :: "'a buf_state_scheme \<Rightarrow> 'a buf_state_scheme \<Rightarrow> bool" where
  "env_same w w' \<longleftrightarrow> buf_frame w w' \<and> bht_valid (hashTable w') = bht_valid (hashTable w) \<and> frames w' = frames w"

text \<open>No page changes.\<close>

definition view_same :: "'a buf_state_scheme \<Rightarrow> 'a buf_state_scheme \<Rightarrow> bool" where
  "view_same w w' \<longleftrightarrow> pool_ok w' \<and> env_same w w' \<and> lpage w' = lpage w \<and> (\<forall>g. used_pages g w' = used_pages g w) \<and> clean_kept w w'"

lemma env_same_refl [simp]: "env_same w w"
  by (simp add: env_same_def)

lemma env_same_trans: "env_same w w1 \<Longrightarrow> env_same w1 w2 \<Longrightarrow> env_same w w2"
  by (auto simp: env_same_def intro: buf_frame_trans)

lemma view_same_refl [simp]: "pool_ok w \<Longrightarrow> view_same w w"
  by (simp add: view_same_def clean_kept_def)

lemma view_same_trans: "view_same w w1 \<Longrightarrow> view_same w1 w2 \<Longrightarrow> view_same w w2"
  by (auto simp: view_same_def clean_kept_def intro: env_same_trans)

lemma view_sameD:
  assumes "view_same w w'"
  shows "pool_ok w'" "lpage w' = lpage w" "used_pages g w' = used_pages g w" "bht_valid (hashTable w') = bht_valid (hashTable w)"
    "env_same w w'" "q \<in> used_pages g w \<Longrightarrow> clean w g q \<Longrightarrow> clean w' g q"
  using assms by (auto simp: view_same_def env_same_def clean_kept_def)

lemma view_same_legal: "view_same w w' \<Longrightarrow> buf_legal w' k = buf_legal w k"
  using view_sameD(3,4) [of w w'] by (simp add: buf_legal_def)

lemma holds_frame:
  assumes "pool_ok w" "holds w f p pp"
  obtains i where "pp = Some i" "i < frames w" "frame_of w (f, p) = Some (int i)" "pinCnt (bufTable w ! i) = pins w f p" "0 < pins w f p"
proof -
  have b: "buf_inv w" using assms(1) by (simp add: pool_ok_def)
  have pos: "0 < pins w f p" using assms(2) by (simp add: holds_def)
  obtain i where i: "frame_of w (f, p) = Some (int i)" "i < frames w" "pinCnt (bufTable w ! i) = pins w f p"
    by (rule pins_frame [OF b pos])
  moreover have "pp = Some i" using assms(2) i(1) by (auto simp: holds_def)
  ultimately show thesis using that pos by blast
qed

lemma holds_frame_at:
  assumes "pool_ok w" "holds w f p pp"
  shows "\<exists>pg. frame_at w pp = Some pg \<and> lpage w f p = Some (page_img pg)"
proof -
  obtain i where i: "pp = Some i" "i < frames w" "frame_of w (f, p) = Some (int i)" by (rule holds_frame [OF assms])
  then have "i < length (bufPool w)" using assms(1) buf_inv_sizes [of w] by (simp add: pool_ok_def)
  then show ?thesis using i by (simp add: frame_at_def lpage_def)
qed

lemma holds_used: "pool_ok w \<Longrightarrow> holds w f p pp \<Longrightarrow> p \<in> used_pages f w"
  by (auto simp: holds_def pool_ok_def intro: frame_of_used)

lemma unpinned_clean:
  assumes "pool_ok w" "pins w f p = 0"
  shows "clean w f p"
  unfolding clean_def
proof (intro allI impI)
  fix i
  assume i: "frame_of w (f, p) = Some i"
  then have "nat i < frames w" "valid (bufTable w ! nat i)" "bd_file (bufTable w ! nat i) = f" "bd_pageNo (bufTable w ! nat i) = p"
    using assms(1) buf_inv_frame_of [of w "(f, p)" i] by (auto simp: pool_ok_def desc_key_def)
  moreover have "pinCnt (bufTable w ! nat i) = 0" using assms(2) i by (simp add: pins_def)
  ultimately show "dirty (bufTable w ! nat i) \<or> disk_page w f p = Some (page_img (bufPool w ! nat i))"
    using assms(1) by (auto simp: pool_ok_def coherent_def Let_def)
qed

lemma all_pinned_nth: "all_pinned w \<longleftrightarrow> (\<forall>i < frames w. valid (bufTable w ! i) \<and> pinCnt (bufTable w ! i) \<noteq> 0)"
  by (simp add: all_pinned_def all_set_conv_all_nth)

text \<open>Reading a page when there is a free frame.\<close>

lemma read_step:
  assumes ok: "pool_ok w" and legal: "buf_legal w (f, p)" and free: "\<not> all_pinned w"
  shows "\<exists>pp' w'. BufMgr_readPage w f p pp = Some (OK, pp', w') \<and> view_same w w' \<and> holds w' f p pp' \<and>
     (\<forall>g q j. holds w g q j \<longrightarrow> holds w' g q j) \<and>
     (\<forall>g q. pins w' g q = pins w g q + (if (g, q) = (f, p) then 1 else 0)) \<and> movable w' f p"
proof -
  have b: "buf_inv w" "coherent w" using ok by (simp_all add: pool_ok_def)
  obtain i w' where r: "BufMgr_readPage w f p pp = Some (OK, Some i, w')" "i < frames w" "frame_of w' (f, p) = Some (int i)"
     "buf_inv w'" "coherent w'" "lpage w' = lpage w" "pinned_kept w w'"
     "\<forall>g q. pins w' g q = pins w g q + (if (g, q) = (f, p) then 1 else 0)"
     "bht_valid (hashTable w') = bht_valid (hashTable w)" "\<forall>g. used_pages g w' = used_pages g w" "buf_frame w w'" "frames w' = frames w" "clean_kept w w'"
    using readPage_ok [OF b legal, of pp] free by blast
  have nn: "0 \<le> pins w g q" for g q by (rule pins_nonneg [OF b(1)])
  have h: "holds w' g q j" if hq: "holds w g q j" for g q j
  proof -
    obtain k where k: "j = Some k" "frame_of w (g, q) = Some (int k)" "pinCnt (bufTable w ! k) = pins w g q" "0 < pins w g q"
      by (rule holds_frame [OF ok hq])
    then have "frame_of w' (g, q) = Some (int k)" using r(7) by (auto simp: pinned_kept_def)
    then show ?thesis using k r(8) nn by (auto simp: holds_def)
  qed
  have "movable w' f p"
  proof (cases "pins w f p = 0")
    case True
    then show ?thesis using r(8) by (simp add: movable_def)
  next
    case False
    then obtain j where j: "frame_of w (f, p) = Some j" by (auto simp: pins_def split: option.splits)
    then have pin: "pinCnt (bufTable w ! nat j) \<noteq> 0" using False by (simp add: pins_def)
    obtain k where k: "k < frames w" "\<not> valid (bufTable w ! k) \<or> pinCnt (bufTable w ! k) = 0"
      using free by (auto simp: all_pinned_nth)
    have "j = int i" "w' = set_desc w i ((bufTable w ! i)\<lparr>refbit := True, pinCnt := pinCnt (bufTable w ! i) + 1\<rparr>)"
      using readPage_hit [OF b(1) j, of pp] r(1) by auto
    moreover from this have "valid (bufTable w ! i)" using buf_inv_frame_of [OF b(1), of "(f, p)" j] j by simp
    ultimately have "bufTable w' ! k = bufTable w ! k" using k pin by (auto simp: set_desc_nth [OF r(2)])
    then show ?thesis using k r(12) by (auto simp: movable_def all_pinned_nth)
  qed
  moreover have "holds w' f p (Some i)" using r(3,8) nn by (simp add: holds_def add_nonneg_pos)
  ultimately show ?thesis
    using r h by (intro exI [of _ "Some i"] exI [of _ w']) (simp add: view_same_def pool_ok_def env_same_def)
qed

text \<open>Giving a page back.\<close>

lemma unpin_step:
  assumes ok: "pool_ok w" and h: "holds w f p pp" and cl: "b \<or> clean w f p"
  shows "\<exists>w'. BufMgr_unPinPage w f p b = Some (OK, w') \<and> view_same w w' \<and> clean w' f p \<and>
     (\<forall>g q. pins w' g q = pins w g q - (if (g, q) = (f, p) then 1 else 0)) \<and>
     (\<forall>g q j. holds w g q j \<longrightarrow> (g, q) \<noteq> (f, p) \<or> 1 < pins w f p \<longrightarrow> holds w' g q j) \<and>
     (movable w f p \<longrightarrow> \<not> all_pinned w')"
proof -
  have bi: "buf_inv w" "coherent w" using ok by (simp_all add: pool_ok_def)
  obtain i where i: "pp = Some i" "i < frames w" "frame_of w (f, p) = Some (int i)" "pinCnt (bufTable w ! i) = pins w f p" "0 < pins w f p"
    by (rule holds_frame [OF ok h])
  let ?d = "unpinned (bufTable w ! i) b"
  let ?w = "set_desc w i ?d"
  have u: "BufMgr_unPinPage w f p b = Some (OK, ?w)" "buf_inv ?w" "lpage ?w = lpage w" "desc_key (bufTable w ! i) = (f, p)"
     "\<forall>g q. pins ?w g q = (if (g, q) = (f, p) then max 0 (pins w f p - 1) else pins w g q)"
    using unPinPage_present [OF bi(1) i(3), of b] i(4,5) by auto
  have d: "dirty ?d = (b \<or> dirty (bufTable w ! i))" "pinCnt ?d = pins w f p - 1" "bd_file ?d = f" "bd_pageNo ?d = p"
    using i(4,5) u(4) by (auto simp: unpinned_def Let_def desc_key_def)
  have dk: "b \<or> dirty (bufTable w ! i) \<or> disk_page w f p = Some (page_img (bufPool w ! i))" using cl i(3) by (auto simp: clean_def)
  have "coherent ?w" by (rule set_desc_coherent [OF bi(2) i(2)]) (use d dk in auto)
  moreover have ck: "clean ?w g q" if "clean w g q \<or> (g, q) = (f, p)" for g q
    using that d(1) dk i(2,3) by (auto simp: clean_def set_desc_nth nat_eq_iff)
  moreover have pn: "\<forall>g q. pins ?w g q = pins w g q - (if (g, q) = (f, p) then 1 else 0)" using u(5) i(5) by auto
  moreover have "holds ?w g q j" if "holds w g q j" "(g, q) \<noteq> (f, p) \<or> 1 < pins w f p" for g q j
    using that pn by (auto simp: holds_def)
  moreover have "\<not> all_pinned ?w" if mv: "movable w f p"
  proof (cases "pins w f p = 1")
    case True
    then show ?thesis using d(2) i(2) set_desc_nth [OF i(2), of ?d i] by (auto simp: all_pinned_nth)
  next
    case False
    then obtain k where k: "k < frames w" "\<not> valid (bufTable w ! k) \<or> pinCnt (bufTable w ! k) = 0"
      using mv by (auto simp: movable_def all_pinned_nth)
    have "valid (bufTable w ! i)" using buf_inv_frame_of [OF bi(1), of "(f, p)" "int i"] i(3) by simp
    then have "k \<noteq> i" using k(2) i(4,5) by auto
    then have "bufTable ?w ! k = bufTable w ! k" by (simp add: set_desc_nth [OF i(2)])
    then show ?thesis using k by (auto simp: all_pinned_nth)
  qed
  ultimately show ?thesis
    using u by (intro exI [of _ ?w])
      (simp add: view_same_def pool_ok_def env_same_def clean_kept_def, simp add: set_desc_def)
qed

text \<open>Writing through a page pointer.\<close>

lemma store_step:
  assumes ok: "pool_ok w" and h: "holds w f p pp"
  shows "\<exists>w'. store_at w pp pg = Some w' \<and> pool_ok w' \<and> env_same w w' \<and>
     (\<forall>g q. lpage w' g q = (if (g, q) = (f, p) then Some (page_img pg) else lpage w g q)) \<and>
     (\<forall>g. used_pages g w' = used_pages g w) \<and> pins w' = pins w \<and> (\<forall>g q j. holds w' g q j = holds w g q j) \<and>
     (\<forall>g q. (g, q) \<noteq> (f, p) \<longrightarrow> clean w g q \<longrightarrow> clean w' g q) \<and> all_pinned w' = all_pinned w \<and> frame_at w' pp = Some pg"
proof -
  have b: "buf_inv w" "coherent w" using ok by (simp_all add: pool_ok_def)
  obtain i where i: "pp = Some i" "i < frames w" "frame_of w (f, p) = Some (int i)" "pinCnt (bufTable w ! i) = pins w f p" "0 < pins w f p"
    by (rule holds_frame [OF ok h])
  let ?w = "set_frame w i pg"
  have len: "i < length (bufPool w)" using i(2) buf_inv_sizes [OF b(1)] by simp
  have c: "buf_inv ?w" "\<forall>g q. lpage ?w g q = (if (g, q) = (f, p) then Some (page_img pg) else lpage w g q)" "coherent ?w"
    using client_write [OF b(1) i(3), of pg] b(2) i(4,5) by auto
  have "clean ?w g q" if cl: "(g, q) \<noteq> (f, p)" "clean w g q" for g q
  proof -
    have "nat j \<noteq> i" if "frame_of w (g, q) = Some j" for j
      using that cl(1) buf_inv_frame_of [OF b(1), of "(g, q)" j] buf_inv_frame_of [OF b(1), of "(f, p)" "int i"] i(3) by auto
    then show ?thesis using cl(2) by (auto simp: clean_def set_frame_def)
  qed
  moreover have "pins ?w = pins w" by (simp add: pins_def fun_eq_iff split: option.splits)
  ultimately show ?thesis
    using c len i by (intro exI [of _ ?w]) (simp add: store_at_def frame_at_def pool_ok_def env_same_def holds_def all_pinned_def, simp add: set_frame_def)
qed

section \<open>Growing files\<close>

lemma in_use_int_ok: "p \<in> in_use u \<Longrightarrow> int_ok p \<and> 1 \<le> p"
  using get_int_range [of "fpage u 0" 8] by (auto simp: in_use_def int_ok_def numPages_def)

lemma used_int_ok: "p \<in> used_pages f w \<Longrightarrow> int_ok p \<and> 1 \<le> p"
  using used_file [of p f w] in_use_int_ok by blast

text \<open>A file without free pages grows by one page; evicting other pages does not touch its header.\<close>

definition grows :: "'a fs_state_scheme \<Rightarrow> ptr \<Rightarrow> int \<Rightarrow> bool" where
  "grows w f n \<longleftrightarrow> (\<exists>u. file_of w f = Some u \<and> free_list u = [] \<and> npages u = n)"

lemma grows_page0:
  assumes "fs_ok w" "fs_ok w'" "disk_page w' f 0 = disk_page w f 0" "grows w f n" "file_of w' f \<noteq> None"
  shows "grows w' f n"
proof -
  obtain u u' where u: "file_of w f = Some u" "free_list u = []" "npages u = n" "file_of w' f = Some u'" using assms(4,5) by (auto simp: grows_def)
  have ok: "file_ok u" "file_ok u'" using assms(1,2) u by (auto simp: fs_ok_def)
  then have "has_page u 0" "has_page u' 0" using has_page_npages by (auto simp: file_ok_def)
  then have e: "fpage u' 0 = fpage u 0" using assms(3) u by (simp add: disk_page_def)
  have "nextFree (fpage u' 0) = - 1" using ok(1) u(2) e by (simp add: file_ok_def)
  then have "free_list u' = []" using ok(2) by (cases "free_list u'") (auto simp: file_ok_def)
  then show ?thesis using u e by (simp add: grows_def)
qed

lemma grows_next: "grows w f n \<Longrightarrow> next_page f w = n"
  by (auto simp: grows_def next_page_def)

lemma allocPage_grows:
  assumes inv: "buf_inv w" and g: "grows w f n" and n: "n < 2147483647" and a: "BufMgr_allocPage w f pn pp = Some (OK, m, pp', w')"
  shows "grows w' f (n + 1)"
proof -
  obtain u where u: "file_of w f = Some u" "free_list u = []" "npages u = n" using g by (auto simp: grows_def)
  have ok: "fs_ok w" using inv by (simp add: buf_inv_def)
  then have fok: "file_ok u" "fs_inv w" using u(1) by (auto simp: fs_ok_def)
  obtain w1 u1 where f1: "File_allocatePage w f pn = Some (OK, n, w1)" "same_files w w1" "file_of w1 = (file_of w)(f \<mapsto> u1)"
     "free_list u1 = []" "npages u1 = n + 1"
    using allocatePage_spec [OF u(1) fok, of pn] u(2,3) n by auto
  have nf: "\<not> file_full f w" using u n by (simp add: file_full_def)
  obtain w1' where w1': "File_allocatePage w f pn = Some (OK, next_page f w, w1')" "buf_inv w1'" using allocPage_file [OF inv _ nf, of pn] u(1) by auto
  then have inv1: "buf_inv w1" using f1(1) by simp
  have g1: "grows w1 f (n + 1)" using f1(3-5) by (simp add: grows_def)
  obtain i w2 where b: "BufMgr_allocBuf w1 0 = Some (OK, int i, w2)" "evicted w1 i w2"
  proof (cases "all_pinned w1")
    case True
    then show ?thesis using allocBuf_pinned [OF inv1 True, of 0] a f1(1) by (auto simp: BufMgr_allocPage_def)
  next
    case False
    then show ?thesis using allocBuf_free [OF inv1 False] that by blast
  qed
  have v: "fs_view w' = fs_view w2"
    using a f1(1) b(1) by (auto simp: BufMgr_allocPage_def Let_def split: if_splits bind_splits)
  have ev: "i < frames w1" "fs_ok w2" "buf_frame w1 w2"
     "\<forall>g q. disk_page w2 g q = (if dirty (bufTable w1 ! i) \<and> (g, q) = desc_key (bufTable w1 ! i) then Some (page_img (bufPool w1 ! i)) else disk_page w1 g q)"
    using b(2) by (auto simp: evicted_def)
  have "bd_pageNo (bufTable w1 ! i) \<noteq> 0" if "dirty (bufTable w1 ! i)"
    using buf_inv_desc [OF inv1 ev(1)] that used_int_ok [of "bd_pageNo (bufTable w1 ! i)"] by (auto simp: desc_ok_def split: if_splits)
  then have d0: "disk_page w2 f 0 = disk_page w1 f 0" using ev(4) by (auto simp: desc_key_def)
  have "file_of w2 f \<noteq> None"
  proof -
    have "fs_ok w1" using inv1 by (simp add: buf_inv_def)
    moreover have "file_of w1 f = Some u1" using f1(3) by simp
    ultimately have "file_ok u1" unfolding fs_ok_def by blast
    then have "has_page u1 0" using has_page_npages by (auto simp: file_ok_def)
    then have "disk_page w1 f 0 \<noteq> None" using f1(3) by (simp add: disk_page_def)
    then show ?thesis using d0 by (auto simp: disk_page_def split: option.splits)
  qed
  then have "grows w2 f (n + 1)" using grows_page0 [OF _ ev(2) d0 g1] inv1 by (simp add: buf_inv_def)
  then show ?thesis using fs_view_cong(2) [OF v] by (simp add: grows_def)
qed

text \<open>Page 0 is never buffered, so the size of a file can be read off its current contents.\<close>

lemma page0:
  assumes "pool_ok w"
  shows "lpage w f 0 = disk_page w f 0"
proof (cases "frame_of w (f, 0)")
  case (Some j)
  then have "0 \<in> used_pages f w" using assms frame_of_used [of w f 0 j] by (simp add: pool_ok_def)
  then show ?thesis using used_int_ok by fastforce
qed (simp add: lpage_def)

lemma grows_same:
  assumes "pool_ok w" "pool_ok w'" "lpage w' f 0 = lpage w f 0" "grows w f n"
  shows "grows w' f n"
proof -
  have ok: "fs_ok w" "fs_ok w'" using assms(1,2) by (simp_all add: pool_ok_def buf_inv_def)
  have d: "disk_page w' f 0 = disk_page w f 0" using assms(3) page0 [OF assms(1)] page0 [OF assms(2)] by simp
  obtain u where u: "file_of w f = Some u" using assms(4) by (auto simp: grows_def)
  then have "file_ok u" using ok(1) by (simp add: fs_ok_def)
  then have "disk_page w f 0 \<noteq> None" using u has_page_npages [of u 0] by (simp add: disk_page_def file_ok_def)
  then have "file_of w' f \<noteq> None" using d by (auto simp: disk_page_def split: option.splits)
  then show ?thesis by (rule grows_page0 [OF ok d assms(4)])
qed

definition end_page :: "(int \<Rightarrow> page option) \<Rightarrow> int \<Rightarrow> bool" where
  "end_page P n \<longleftrightarrow> (\<exists>pg. P 0 = Some pg \<and> nextFree pg = - 1 \<and> numPages pg = n)"

lemma grows_end_page:
  assumes "pool_ok w"
  shows "grows w f n \<longleftrightarrow> end_page (lpage w f) n"
proof (cases "file_of w f")
  case None
  then show ?thesis using page0 [OF assms, of f] by (simp add: grows_def end_page_def disk_page_def)
next
  case (Some u)
  have ok: "file_ok u" using assms Some by (simp add: pool_ok_def buf_inv_def fs_ok_def)
  then have "has_page u 0" using has_page_npages [of u 0] by (simp add: file_ok_def)
  then have "lpage w f 0 = Some (fpage u 0)" using page0 [OF assms, of f] Some by (simp add: disk_page_def)
  moreover have "free_list u = [] \<longleftrightarrow> nextFree (fpage u 0) = - 1" using ok by (cases "free_list u") (auto simp: file_ok_def)
  ultimately show ?thesis using Some by (simp add: grows_def end_page_def)
qed

text \<open>Allocating a page.\<close>

lemma alloc_step_pool:
  assumes ok: "pool_ok w" and f: "f \<noteq> NULL" "file_of w f \<noteq> None" "\<not> file_full f w"
    and free: "\<not> all_pinned w" and key: "bht_valid (hashTable w) (f, next_page f w)"
  shows "\<exists>pp' w'. BufMgr_allocPage w f pn pp = Some (OK, next_page f w, pp', w') \<and> pool_ok w' \<and> env_same w w' \<and>
     next_page f w \<notin> used_pages f w \<and> holds w' f (next_page f w) pp' \<and> (\<forall>g q j. holds w g q j \<longrightarrow> holds w' g q j) \<and>
     (\<forall>g q. pins w' g q = pins w g q + (if (g, q) = (f, next_page f w) then 1 else 0)) \<and>
     (\<forall>g. used_pages g w' = (if g = f then insert (next_page f w) (used_pages f w) else used_pages g w)) \<and>
     (\<forall>g q. q \<in> used_pages g w \<or> g \<noteq> f \<longrightarrow> lpage w' g q = lpage w g q) \<and> clean_kept w w' \<and> pins w' f (next_page f w) = 1 \<and>
     (\<forall>m. grows w f m \<longrightarrow> m < 2147483647 \<longrightarrow> grows w' f (m + 1))"
proof -
  have b: "buf_inv w" "coherent w" using ok by (simp_all add: pool_ok_def)
  obtain i w' where r: "BufMgr_allocPage w f pn pp = Some (OK, next_page f w, Some i, w')" "buf_inv w'" "coherent w'"
     "next_page f w \<notin> used_pages f w" "frame_of w' (f, next_page f w) = Some (int i)" "pinned_kept w w'"
     "\<forall>g q. pins w' g q = pins w g q + (if (g, q) = (f, next_page f w) then 1 else 0)"
     "\<forall>g. used_pages g w' = (if g = f then insert (next_page f w) (used_pages f w) else used_pages g w)"
     "\<forall>g q. q \<in> used_pages g w \<or> g \<noteq> f \<longrightarrow> lpage w' g q = lpage w g q"
     "buf_frame w w'" "bht_valid (hashTable w') = bht_valid (hashTable w)" "frames w' = frames w" "clean_kept w w'"
    using allocPage_spec [OF b f free key, of pn pp] by blast
  have nn: "0 \<le> pins w g q" for g q by (rule pins_nonneg [OF b(1)])
  have "pins w f (next_page f w) = 0" using r(4) frame_of_used [OF b(1)] by (auto simp: pins_def split: option.splits)
  moreover have "holds w' g q j" if hq: "holds w g q j" for g q j
  proof -
    obtain k where k: "j = Some k" "frame_of w (g, q) = Some (int k)" "pinCnt (bufTable w ! k) = pins w g q" "0 < pins w g q"
      by (rule holds_frame [OF ok hq])
    then have "frame_of w' (g, q) = Some (int k)" using r(6) by (auto simp: pinned_kept_def)
    then show ?thesis using k r(7) nn by (auto simp: holds_def)
  qed
  moreover have "\<forall>m. grows w f m \<longrightarrow> m < 2147483647 \<longrightarrow> grows w' f (m + 1)" using allocPage_grows [OF b(1) _ _ r(1)] by blast
  ultimately show ?thesis
    using r by (intro exI [of _ "Some i"] exI [of _ w']) (simp add: pool_ok_def env_same_def holds_def)
qed

end
