(* ===== verification/HeapScan.thy ===== *)
theory HeapScan
  imports HeapPages
begin

text \<open>
  Scans of heap files: the records of a page in slot order, the chain of data pages, the
  contents of a heap file as a map from record identifiers to bytes, filters as predicates on
  record bytes, and the loops of \<open>scanNext\<close> as a walk over the records still to come.
\<close>

section \<open>Pages and their images\<close>

lemma get_short_page_img: "a + 2 \<le> 1024 \<Longrightarrow> get_short (page_img p) a = get_short p a"
  by (rule get_short_cong) auto

lemma page_img_fields [simp]:
  "curPage (page_img p) = curPage p" "nextPage (page_img p) = nextPage p" "freeSpace (page_img p) = freeSpace p"
  "hdr_firstPage (page_img p) = hdr_firstPage p" "hdr_lastPage (page_img p) = hdr_lastPage p"
  "hdr_pageCnt (page_img p) = hdr_pageCnt p" "hdr_recCnt (page_img p) = hdr_recCnt p"
  by (simp_all add: curPage_def nextPage_def freeSpace_def hdr_firstPage_def hdr_lastPage_def hdr_pageCnt_def hdr_recCnt_def
      get_int_page_img get_short_page_img)

lemma page_img_inv [simp]: "page_inv (page_img p) = page_inv p"
  by (rule page_view_cong) simp

lemma page_img_recs: "page_inv p \<Longrightarrow> page_recs (page_img p) = page_recs p"
  by (rule page_view_cong) simp_all


section \<open>The records of a page in order\<close>

definition page_rids :: "page \<Rightarrow> RID list" where
  "page_rids pg = map (\<lambda>k. RID (curPage pg) (int k)) (sorted_list_of_set (dom (page_recs pg)))"

lemma page_rids_img [simp]: "page_inv p \<Longrightarrow> page_rids (page_img p) = page_rids p"
  by (simp add: page_rids_def page_img_recs)

lemma sorted_list_Min:
  "finite A \<Longrightarrow> sorted_list_of_set (A :: nat set) = (if A = {} then [] else Min A # sorted_list_of_set (A - {Min A}))"
  using sorted_list_of_set_nonempty [of A] by auto

lemma sorted_list_filter: "finite A \<Longrightarrow> filter P (sorted_list_of_set (A :: nat set)) = sorted_list_of_set {x \<in> A. P x}"
  by (rule sorted_distinct_set_unique) (auto simp: sorted_wrt_filter)

lemma page_rids_after:
  "filter (\<lambda>r. c < slotNo r) (page_rids pg) = map (\<lambda>k. RID (curPage pg) (int k)) (sorted_list_of_set {k. c < int k \<and> live pg k})"
proof -
  have "{x. live pg x \<and> c < int x} = {k. c < int k \<and> live pg k}" by auto
  then show ?thesis by (simp add: page_rids_def filter_map o_def dom_page_recs sorted_list_filter)
qed

lemma firstRecord_rids:
  assumes "page_inv pg"
  shows "Page_firstRecord pg r = Some (case page_rids pg of [] \<Rightarrow> (NORECORDS, r) | x # xs \<Rightarrow> (OK, x))"
  using firstRecord_eq [OF assms, of r] Least_Min [of "live pg"] sorted_list_Min [of "{k. live pg k}"]
  by (auto simp: page_rids_def dom_page_recs)

lemma nextRecord_rids:
  assumes "page_inv pg" "- 1 \<le> slotNo cur"
  shows "Page_nextRecord pg cur r =
    Some (case filter (\<lambda>x. slotNo cur < slotNo x) (page_rids pg) of [] \<Rightarrow> (ENDOFPAGE, r) | x # xs \<Rightarrow> (OK, x))"
proof -
  let ?P = "\<lambda>k. slotNo cur < int k \<and> live pg k"
  have fin: "finite {k. ?P k}" by (rule finite_subset [OF _ finite_live [of pg]]) auto
  then show ?thesis
    using nextRecord_eq [OF assms(1) refl assms(2), of r] Least_Min [of ?P] sorted_list_Min [OF fin]
    unfolding page_rids_after by auto
qed

lemma page_rids_mem: "r \<in> set (page_rids pg) \<longleftrightarrow> (\<exists>k. r = RID (curPage pg) (int k) \<and> live pg k)"
  by (auto simp: page_rids_def dom_page_recs)

text \<open>What is behind a record in the order of its page.\<close>

lemma page_rids_tail:
  assumes "filter (\<lambda>r. c < slotNo r) (page_rids pg) = x # xs"
  shows "filter (\<lambda>r. slotNo x < slotNo r) (page_rids pg) = xs"
proof -
  let ?A = "{k. c < int k \<and> live pg k}"
  have fin: "finite ?A" by (rule finite_subset [OF _ finite_live [of pg]]) auto
  have a: "?A \<noteq> {}" "x = RID (curPage pg) (int (Min ?A))" "xs = map (\<lambda>k. RID (curPage pg) (int k)) (sorted_list_of_set (?A - {Min ?A}))"
    using assms sorted_list_Min [OF fin] unfolding page_rids_after by (auto split: if_splits)
  define m where "m = Min ?A"
  have m: "m \<in> ?A" using a(1) fin Min_in unfolding m_def by blast
  have "m \<le> k" if "k \<in> ?A" for k using that fin by (simp add: m_def)
  then have "k \<in> {k. int m < int k \<and> live pg k} \<longleftrightarrow> k \<in> ?A - {m}" for k using m by (cases "k = m") force+
  then have "{k. int m < int k \<and> live pg k} = ?A - {m}" by blast
  then show ?thesis using a by (simp add: page_rids_after m_def)
qed

lemma page_rids_first_tail:
  assumes "page_rids pg = x # xs"
  shows "filter (\<lambda>r. slotNo x < slotNo r) (page_rids pg) = xs"
proof -
  have "filter (\<lambda>r. - 1 < slotNo r) (page_rids pg) = page_rids pg" by (auto simp: filter_id_conv page_rids_mem)
  then show ?thesis using page_rids_tail [of "- 1" pg x xs] assms by simp
qed


section \<open>Heap files\<close>

text \<open>\<open>chain P ps\<close>: the data pages \<open>ps\<close> are valid and linked in this order.\<close>

fun chain :: "(int \<Rightarrow> page option) \<Rightarrow> int list \<Rightarrow> bool" where
  "chain P [] \<longleftrightarrow> False"
| "chain P (p # ps) \<longleftrightarrow> (\<exists>pg. P p = Some pg \<and> page_inv pg \<and> curPage pg = p \<and>
     nextPage pg = (if ps = [] then - 1 else hd ps) \<and> (ps \<noteq> [] \<longrightarrow> chain P ps))"

definition heap_rids :: "(int \<Rightarrow> page option) \<Rightarrow> int list \<Rightarrow> RID list" where
  "heap_rids P ps = concat (map (\<lambda>p. page_rids (the (P p))) ps)"

text \<open>The contents of a heap file: a map from record identifiers to bytes.\<close>

definition heap_recs :: "(int \<Rightarrow> page option) \<Rightarrow> int list \<Rightarrow> RID \<Rightarrow> byte list option" where
  "heap_recs P ps r = (if pageNo r \<in> set ps \<and> 0 \<le> slotNo r then page_recs (the (P (pageNo r))) (nat (slotNo r)) else None)"

lemma heap_rids_simps [simp]: "heap_rids P [] = []" "heap_rids P (p # ps) = page_rids (the (P p)) @ heap_rids P ps"
  by (simp_all add: heap_rids_def)

definition hdr_ok :: "page \<Rightarrow> (int \<Rightarrow> page option) \<Rightarrow> int list \<Rightarrow> bool" where
  "hdr_ok hp P ps \<longleftrightarrow> hdr_firstPage hp = hd ps \<and> hdr_lastPage hp = last ps \<and> hdr_pageCnt hp = swrap 4 (int (length ps)) \<and>
     hdr_recCnt hp = swrap 4 (int (length (heap_rids P ps)))"

definition heap_file :: "'a buf_state_scheme \<Rightarrow> ptr \<Rightarrow> int \<Rightarrow> int list \<Rightarrow> bool" where
  "heap_file w f h ps \<longleftrightarrow> (\<exists>hp. lpage w f h = Some hp \<and> hdr_ok hp (lpage w f) ps) \<and> chain (lpage w f) ps \<and> distinct (h # ps) \<and>
     (\<forall>p \<in> set (h # ps). buf_legal w (f, p))"

lemma chain_page: "chain P ps \<Longrightarrow> p \<in> set ps \<Longrightarrow> \<exists>pg. P p = Some pg \<and> page_inv pg \<and> curPage pg = p"
  by (induction ps) (auto split: if_splits)

lemma heap_rids_mem:
  assumes "chain P ps" "r \<in> set (heap_rids P ps)"
  shows "\<exists>b. heap_recs P ps r = Some b"
proof -
  obtain p where p: "p \<in> set ps" "r \<in> set (page_rids (the (P p)))" using assms(2) by (auto simp: heap_rids_def)
  obtain pg where pg: "P p = Some pg" "page_inv pg" "curPage pg = p" using chain_page [OF assms(1) p(1)] by blast
  then obtain k where k: "r = RID p (int k)" "live pg k" using p(2) by (auto simp: page_rids_mem)
  then show ?thesis using p(1) pg by (simp add: heap_recs_def page_recs_def)
qed

lemma heap_rids_set:
  assumes "chain P ps"
  shows "set (heap_rids P ps) = dom (heap_recs P ps)"
proof (intro set_eqI iffI)
  fix r
  assume "r \<in> dom (heap_recs P ps)"
  then have r: "pageNo r \<in> set ps" "0 \<le> slotNo r" "page_recs (the (P (pageNo r))) (nat (slotNo r)) \<noteq> None"
    by (auto simp: heap_recs_def split: if_splits)
  obtain pg where pg: "P (pageNo r) = Some pg" "curPage pg = pageNo r" using chain_page [OF assms r(1)] by blast
  then have "r \<in> set (page_rids pg)"
    using r dom_page_recs [of pg] by (auto simp: page_rids_mem intro!: exI [of _ "nat (slotNo r)"] simp: RID.expand)
  then show "r \<in> set (heap_rids P ps)" using r(1) pg by (auto simp: heap_rids_def intro!: bexI [of _ "pageNo r"])
qed (use heap_rids_mem [OF assms] in blast)


section \<open>Filters\<close>

text \<open>A filter whose comparison value is long enough for the comparison.\<close>

definition filter_ok :: "HeapFileScan \<Rightarrow> bool" where
  "filter_ok s \<longleftrightarrow> (case scan_filter s of None \<Rightarrow> True | Some flt \<Rightarrow>
     0 \<le> scan_offset s \<and> 1 \<le> scan_length s \<and> int_ok (scan_offset s + scan_length s) \<and>
     (scan_type s \<noteq> STRING \<longrightarrow> scan_length s = 4) \<and> nat (scan_length s) \<le> length flt)"

definition rec_matches :: "HeapFileScan \<Rightarrow> byte list \<Rightarrow> bool" where
  "rec_matches s b \<longleftrightarrow> (case scan_filter s of None \<Rightarrow> True | Some flt \<Rightarrow>
     scan_offset s + scan_length s \<le> int (length b) \<and>
     op_holds (scan_op s) (the (attr_diff (scan_type s) (take (nat (scan_length s)) (drop (nat (scan_offset s)) b)) flt (nat (scan_length s)))))"

lemma strncmp_Some: "n \<le> length as \<Longrightarrow> n \<le> length bs \<Longrightarrow> \<exists>d. strncmp as bs n = Some d"
  by (induction as bs n rule: strncmp.induct) auto

lemma attr_diff_Some: "n \<le> length as \<Longrightarrow> n \<le> length bs \<Longrightarrow> \<exists>d. attr_diff t as bs n = Some d"
  using strncmp_Some [of n as bs] by (auto simp: attr_diff_def split: Datatype.splits)

lemma take_drop_read_bytes: "i + n \<le> m \<Longrightarrow> take n (drop i (read_bytes p a m)) = read_bytes p (a + i) n"
  by (rule nth_equalityI) (auto simp: add.assoc)

lemma matchRec_eq:
  assumes inv: "page_inv pg" and k: "live pg k" and ok: "filter_ok s"
  shows "matchRec s pg \<lparr>ref_offset = soff pg k, ref_length = slen pg k\<rparr> = Some (rec_matches s (the (page_recs pg k)))"
proof (cases "scan_filter s")
  case (Some flt)
  have l: "0 < slen pg k" "0 \<le> soff pg k" "soff pg k + slen pg k \<le> freePtr pg" "freePtr pg \<le> 1004"
    using page_inv_liveD [OF inv k] inv by (auto simp: page_inv_def)
  let ?o = "scan_offset s" and ?n = "scan_length s"
  have o: "0 \<le> ?o" "1 \<le> ?n" "int_ok (?o + ?n)" "nat ?n \<le> length flt" using ok Some by (auto simp: filter_ok_def)
  then have w: "swrap 4 (?o + ?n - 1) = ?o + ?n - 1" by (intro swrap_4) (simp add: int_ok_def)
  let ?a = "read_bytes pg (nat (soff pg k + ?o)) (nat ?n)"
  obtain d where d: "attr_diff (scan_type s) ?a flt (nat ?n) = Some d" using attr_diff_Some [of "nat ?n" ?a flt] o(4) by auto
  have "take (nat ?n) (drop (nat ?o) (read_bytes pg (nat (soff pg k)) (nat (slen pg k)))) = ?a" if "?o + ?n \<le> slen pg k"
    using that o l by (subst take_drop_read_bytes) (auto simp: nat_add_distrib)
  then show ?thesis using Some w l o d k by (auto simp: matchRec_def rec_matches_def page_recs_def)
qed (simp add: matchRec_def rec_matches_def)


section \<open>Positions of a scan\<close>

text \<open>The scan has page \<open>p\<close> pinned, the pages \<open>qs\<close> follow.\<close>

definition scan_at :: "'a buf_state_scheme \<Rightarrow> HeapFileScan \<Rightarrow> int \<Rightarrow> int list \<Rightarrow> bool" where
  "scan_at w s p qs \<longleftrightarrow> pool_ok w \<and> curPageNo s = p \<and> holds w (filePtr s) p (hf_curPage s) \<and> movable w (filePtr s) p \<and>
     chain (lpage w (filePtr s)) (p # qs) \<and> (\<forall>q \<in> set (p # qs). buf_legal w (filePtr s, q)) \<and>
     (curDirtyFlag s \<or> clean w (filePtr s) p) \<and> (\<forall>q \<in> set qs. clean w (filePtr s) q) \<and> - 1 \<le> slotNo (curRec s)"

text \<open>The records the scan has not reached yet.\<close>

definition to_come :: "'a buf_state_scheme \<Rightarrow> HeapFileScan \<Rightarrow> int \<Rightarrow> int list \<Rightarrow> RID list" where
  "to_come w s p qs = filter (\<lambda>r. slotNo (curRec s) < slotNo r) (page_rids (the (lpage w (filePtr s) p))) @ heap_rids (lpage w (filePtr s)) qs"

text \<open>What moving a scan changes: its current page and record, and the pins of the two pages.\<close>

definition scan_moved :: "'a buf_state_scheme \<Rightarrow> HeapFileScan \<Rightarrow> 'a buf_state_scheme \<Rightarrow> HeapFileScan \<Rightarrow> bool" where
  "scan_moved w s w' s' \<longleftrightarrow> view_same w w' \<and>
     s' = s\<lparr>hf_curPage := hf_curPage s', curPageNo := curPageNo s', curDirtyFlag := curDirtyFlag s', curRec := curRec s'\<rparr> \<and>
     (\<forall>g q j. holds w g q j \<longrightarrow> (g, q) \<noteq> (filePtr s, curPageNo s) \<or> 1 < pins w (filePtr s) (curPageNo s) \<longrightarrow> holds w' g q j) \<and>
     (\<forall>g q. pins w' g q = pins w g q - (if (g, q) = (filePtr s, curPageNo s) then 1 else 0) +
        (if (g, q) = (filePtr s, curPageNo s') then 1 else 0))"

lemma scan_moved_refl: "pool_ok w \<Longrightarrow> scan_moved w s w (s\<lparr>curRec := r\<rparr>)"
  by (simp add: scan_moved_def)

lemma scan_moved_sel:
  assumes "scan_moved w s w' s'"
  shows "filePtr s' = filePtr s" "headerPage s' = headerPage s" "headerPageNo s' = headerPageNo s" "hdrDirtyFlag s' = hdrDirtyFlag s"
    "scan_filter s' = scan_filter s" "rec_matches s' = rec_matches s" "filter_ok s' = filter_ok s"
proof -
  obtain a b c d where "s' = s\<lparr>hf_curPage := a, curPageNo := b, curDirtyFlag := c, curRec := d\<rparr>"
    using assms by (auto simp: scan_moved_def)
  then show "filePtr s' = filePtr s" "headerPage s' = headerPage s" "headerPageNo s' = headerPageNo s" "hdrDirtyFlag s' = hdrDirtyFlag s"
    "scan_filter s' = scan_filter s" "rec_matches s' = rec_matches s" "filter_ok s' = filter_ok s"
    by (simp_all add: rec_matches_def filter_ok_def fun_eq_iff split: option.splits)
qed

lemma scan_moved_view: "scan_moved w s w' s' \<Longrightarrow> view_same w w'"
  unfolding scan_moved_def by blast

lemma scan_moved_trans:
  assumes a: "scan_moved w s w1 s1" and b: "scan_moved w1 s1 w2 s2"
  shows "scan_moved w s w2 s2"
proof -
  note sel = scan_moved_sel [OF a]
  let ?f = "filePtr s"
  have pn: "pins w1 g q = pins w g q - (if (g, q) = (?f, curPageNo s) then 1 else 0) + (if (g, q) = (?f, curPageNo s1) then 1 else 0)" for g q
    using a by (simp add: scan_moved_def)
  have "holds w2 g q j" if h: "holds w g q j" "(g, q) \<noteq> (?f, curPageNo s) \<or> 1 < pins w ?f (curPageNo s)" for g q j
  proof -
    have h1: "holds w1 g q j" using a h unfolding scan_moved_def by blast
    have "(g, q) \<noteq> (?f, curPageNo s1) \<or> 1 < pins w1 ?f (curPageNo s1)"
      using h pn [of ?f "curPageNo s1"] by (auto simp: holds_def split: if_splits)
    then show ?thesis using b h1 sel(1) unfolding scan_moved_def by metis
  qed
  moreover have "s2 = s\<lparr>hf_curPage := hf_curPage s2, curPageNo := curPageNo s2, curDirtyFlag := curDirtyFlag s2, curRec := curRec s2\<rparr>"
    using a b by (cases s; cases s1; cases s2) (simp add: scan_moved_def)
  ultimately show ?thesis
    using a b pn sel(1) view_same_trans [of w w1 w2] unfolding scan_moved_def by auto
qed

lemma scan_at_page:
  assumes "scan_at w s p qs"
  obtains pg where "frame_at w (hf_curPage s) = Some pg" "lpage w (filePtr s) p = Some (page_img pg)" "page_inv pg" "curPage pg = p"
    "nextPage pg = (if qs = [] then - 1 else hd qs)" "page_rids (the (lpage w (filePtr s) p)) = page_rids pg"
proof -
  have a: "pool_ok w" "holds w (filePtr s) p (hf_curPage s)" "chain (lpage w (filePtr s)) (p # qs)" using assms by (simp_all add: scan_at_def)
  obtain pg where pg: "frame_at w (hf_curPage s) = Some pg" "lpage w (filePtr s) p = Some (page_img pg)"
    using holds_frame_at [OF a(1,2)] by blast
  then show thesis using a(3) that by auto
qed

text \<open>Going to the next page.\<close>

lemma next_page_step:
  assumes at: "scan_at w s p (q # qs)"
  shows "\<exists>w1 cp w2. BufMgr_unPinPage w (filePtr s) p (curDirtyFlag s) = Some (OK, w1) \<and>
     BufMgr_readPage w1 (filePtr s) q None = Some (OK, cp, w2) \<and>
     (\<forall>r. - 1 \<le> slotNo r \<longrightarrow> scan_at w2 (s\<lparr>curPageNo := q, curDirtyFlag := False, hf_curPage := cp, curRec := r\<rparr>) q qs) \<and>
     (\<forall>r. scan_moved w s w2 (s\<lparr>curPageNo := q, curDirtyFlag := False, hf_curPage := cp, curRec := r\<rparr>))"
proof -
  let ?f = "filePtr s"
  have a: "pool_ok w" "curPageNo s = p" "holds w ?f p (hf_curPage s)" "movable w ?f p" "chain (lpage w ?f) (q # qs)"
     "\<forall>x \<in> set (q # qs). buf_legal w (?f, x)" "curDirtyFlag s \<or> clean w ?f p" "\<forall>x \<in> set (q # qs). clean w ?f x"
    using at by (auto simp: scan_at_def)
  obtain w1 where u: "BufMgr_unPinPage w ?f p (curDirtyFlag s) = Some (OK, w1)" "view_same w w1"
     "\<forall>g x. pins w1 g x = pins w g x - (if (g, x) = (?f, p) then 1 else 0)"
     "\<forall>g x j. holds w g x j \<longrightarrow> (g, x) \<noteq> (?f, p) \<or> 1 < pins w ?f p \<longrightarrow> holds w1 g x j" "\<not> all_pinned w1"
    using unpin_step [OF a(1,3,7)] a(4) by blast
  have l1: "pool_ok w1" "buf_legal w1 (?f, q)" using view_sameD(1) [OF u(2)] view_same_legal [OF u(2)] a(6) by simp_all
  obtain cp w2 where r: "BufMgr_readPage w1 ?f q None = Some (OK, cp, w2)" "view_same w1 w2" "holds w2 ?f q cp"
     "\<forall>g x j. holds w1 g x j \<longrightarrow> holds w2 g x j" "\<forall>g x. pins w2 g x = pins w1 g x + (if (g, x) = (?f, q) then 1 else 0)" "movable w2 ?f q"
    using read_step [OF l1 u(5), of None] by blast
  note v = view_same_trans [OF u(2) r(2)]
  have "\<forall>x \<in> set (q # qs). clean w2 ?f x" using a(6,8) view_sameD(6) [OF v] by (auto simp: buf_legal_def)
  then have "scan_at w2 (s\<lparr>curPageNo := q, curDirtyFlag := False, hf_curPage := cp, curRec := x\<rparr>) q qs" if "- 1 \<le> slotNo x" for x
    using a(5,6) r(3,6) view_sameD(1,2) [OF v] view_same_legal [OF v] that by (simp add: scan_at_def)
  moreover have "scan_moved w s w2 (s\<lparr>curPageNo := q, curDirtyFlag := False, hf_curPage := cp, curRec := x\<rparr>)" for x
    using v u(3,4) r(4,5) a(2) by (simp add: scan_moved_def)
  ultimately show ?thesis using u(1) r(1) by blast
qed

text \<open>A run that has passed the records before \<open>rids\<close> and ends in \<open>w'\<close> with the scan at \<open>s'\<close>.\<close>

definition pages_stop :: "(Status option \<times> HeapFileScan \<times> 'a buf_state_scheme) option \<Rightarrow> RID list \<Rightarrow>
    'a buf_state_scheme \<Rightarrow> HeapFileScan \<Rightarrow> int \<Rightarrow> int list \<Rightarrow> bool" where
  "pages_stop res rids w' s' p' qs' \<longleftrightarrow> scan_at w' s' p' qs' \<and>
     (case rids of
        [] \<Rightarrow> res = Some (Some FILEEOF, s', w') \<and> to_come w' s' p' qs' = []
      | r # rs \<Rightarrow> res = Some (None, s', w') \<and> curRec s' = r \<and> r \<in> set (page_rids (the (lpage w' (filePtr s') p'))) \<and>
          to_come w' s' p' qs' = rs)"

definition records_stop :: "(Status \<times> RID \<times> HeapFileScan \<times> 'a buf_state_scheme) option \<Rightarrow> RID \<Rightarrow> RID list \<Rightarrow>
    'a buf_state_scheme \<Rightarrow> HeapFileScan \<Rightarrow> int \<Rightarrow> int list \<Rightarrow> bool" where
  "records_stop res out rids w' s' p' qs' \<longleftrightarrow> scan_at w' s' p' qs' \<and>
     (case rids of
        [] \<Rightarrow> res = Some (FILEEOF, out, s', w') \<and> to_come w' s' p' qs' = []
      | r # rs \<Rightarrow> res = Some (OK, r, s', w') \<and> curRec s' = r \<and> r \<in> set (page_rids (the (lpage w' (filePtr s') p'))) \<and>
          to_come w' s' p' qs' = rs)"

text \<open>The inner loop stops at the first record of a later page, or at the end of the file.\<close>

lemma scan_pages_spec:
  assumes "scan_at w s p qs" "st = ENDOFPAGE \<or> st = NORECORDS" "to_come w s p qs = heap_rids (lpage w (filePtr s)) qs"
  shows "\<exists>s' w' p' qs'. scan_moved w s w' s' \<and>
     pages_stop (scan_pages w s st) (heap_rids (lpage w (filePtr s)) qs) w' s' p' qs' \<and> set (p' # qs') \<subseteq> set (p # qs)"
  using assms
proof (induction qs arbitrary: w s p st)
  case Nil
  obtain pg where pg: "frame_at w (hf_curPage s) = Some pg" "nextPage pg = - 1" by (rule scan_at_page [OF Nil(1)]) auto
  have "pool_ok w" using Nil(1) by (simp add: scan_at_def)
  then have "scan_moved w s w s" using scan_moved_refl [of w s "curRec s"] by simp
  then show ?case
    using Nil pg by (intro exI [of _ s] exI [of _ w] exI [of _ p] exI [of _ "[]"])
      (simp add: pages_stop_def, subst scan_pages.simps, auto simp: Page_getNextPage_def)
next
  case (Cons q qs)
  let ?f = "filePtr s"
  obtain pg where pg: "frame_at w (hf_curPage s) = Some pg" "nextPage pg = q" by (rule scan_at_page [OF Cons(2)]) auto
  have leg: "buf_legal w (?f, q)" "pool_ok w" "curPageNo s = p" using Cons(2) by (simp_all add: scan_at_def)
  then have q: "q \<noteq> - 1" using used_file [of q ?f w] by (auto simp: buf_legal_def in_use_def)
  obtain w1 cp w2 where n: "BufMgr_unPinPage w ?f p (curDirtyFlag s) = Some (OK, w1)" "BufMgr_readPage w1 ?f q None = Some (OK, cp, w2)"
     and at: "\<And>r. - 1 \<le> slotNo r \<Longrightarrow> scan_at w2 (s\<lparr>curPageNo := q, curDirtyFlag := False, hf_curPage := cp, curRec := r\<rparr>) q qs"
     and mv: "\<And>r. scan_moved w s w2 (s\<lparr>curPageNo := q, curDirtyFlag := False, hf_curPage := cp, curRec := r\<rparr>)"
    using next_page_step [OF Cons(2)] by blast
  let ?s = "\<lambda>r. s\<lparr>curPageNo := q, curDirtyFlag := False, hf_curPage := cp, curRec := r\<rparr>"
  have same: "lpage w2 = lpage w" using mv [of "curRec s"] view_sameD(2) [of w w2] unfolding scan_moved_def by blast
  have c: "- 1 \<le> slotNo (curRec s)" using Cons(2) by (simp add: scan_at_def)
  obtain pg2 where pg2: "frame_at w2 cp = Some pg2" "page_inv pg2" "page_rids (the (lpage w2 ?f q)) = page_rids pg2"
    by (rule scan_at_page [OF at [OF c]]) simp
  have run: "scan_pages w s st = (case page_rids pg2 of [] \<Rightarrow> scan_pages w2 (?s (curRec s)) NORECORDS | r # rs \<Rightarrow> scan_pages w2 (?s r) OK)"
    using Cons.prems(2) pg q n pg2(1) leg(3)
    by (subst scan_pages.simps) (auto simp: Page_getNextPage_def firstRecord_rids [OF pg2(2)] split: list.splits)
  show ?case
  proof (cases "page_rids pg2")
    case Nil
    have tc: "to_come w2 (?s (curRec s)) q qs = heap_rids (lpage w2 ?f) qs" using Nil pg2(3) by (simp add: to_come_def)
    have rids: "heap_rids (lpage w ?f) (q # qs) = heap_rids (lpage w2 ?f) qs" using Nil pg2(3) same by simp
    obtain s' w' p' qs' where r: "scan_moved w2 (?s (curRec s)) w' s'"
       "pages_stop (scan_pages w2 (?s (curRec s)) NORECORDS) (heap_rids (lpage w2 ?f) qs) w' s' p' qs'" "set (p' # qs') \<subseteq> set (q # qs)"
      using Cons.IH [OF at [OF c], of NORECORDS] tc by auto
    have "scan_pages w s st = scan_pages w2 (?s (curRec s)) NORECORDS" unfolding run Nil by simp
    moreover have "set (p' # qs') \<subseteq> set (p # q # qs)" using r(3) by auto
    ultimately show ?thesis unfolding rids using r(2) scan_moved_trans [OF mv r(1)] by metis
  next
    case (Cons x xs)
    have mem: "x \<in> set (page_rids pg2)" using Cons by simp
    then have x: "- 1 \<le> slotNo x" by (auto simp: page_rids_mem)
    have "scan_pages w2 (?s x) OK = Some (None, ?s x, w2)" by (subst scan_pages.simps) simp
    moreover have "to_come w2 (?s x) q qs = xs @ heap_rids (lpage w ?f) qs"
      using page_rids_first_tail [OF Cons] pg2(3) same by (simp add: to_come_def)
    ultimately show ?thesis
      using mv [of x] at [OF x] run Cons pg2(3) same mem
      by (intro exI [of _ "?s x"] exI [of _ w2] exI [of _ q] exI [of _ qs]) (auto simp: pages_stop_def)
  qed
qed

text \<open>The outer loop stops at the first record to come that satisfies the predicate.\<close>

definition wanted :: "'a buf_state_scheme \<Rightarrow> HeapFileScan \<Rightarrow> RID \<Rightarrow> bool" where
  "wanted w s r \<longleftrightarrow> rec_matches s (the (page_recs (the (lpage w (filePtr s) (pageNo r))) (nat (slotNo r))))"

lemma wanted_moved: "scan_moved w s w' s' \<Longrightarrow> wanted w' s' = wanted w s"
  using scan_moved_sel(1,6) [of w s w' s'] view_sameD(2) [OF scan_moved_view, of w s w' s']
  by (auto simp: wanted_def fun_eq_iff)

text \<open>One round: the current record becomes the next one to come.\<close>

lemma scan_round:
  assumes at: "scan_at w s p qs" and ok: "filter_ok s"
  shows "\<exists>s' w' p' qs'. scan_moved w s w' s' \<and> scan_at w' s' p' qs' \<and> set (p' # qs') \<subseteq> set (p # qs) \<and>
     (case to_come w s p qs of
        [] \<Rightarrow> scan_records w s out = Some (FILEEOF, out, s', w') \<and> to_come w' s' p' qs' = []
      | r # rs \<Rightarrow> scan_records w s out = (if wanted w s r then Some (OK, r, s', w') else scan_records w' s' out) \<and> curRec s' = r \<and>
          r \<in> set (page_rids (the (lpage w' (filePtr s') p'))) \<and> to_come w' s' p' qs' = rs)"
proof -
  let ?f = "filePtr s"
  obtain pg where pg: "frame_at w (hf_curPage s) = Some pg" "lpage w ?f p = Some (page_img pg)" "page_inv pg" "curPage pg = p"
     "page_rids (the (lpage w ?f p)) = page_rids pg" by (rule scan_at_page [OF at])
  have c: "- 1 \<le> slotNo (curRec s)" "pool_ok w" using at by (simp_all add: scan_at_def)
  let ?after = "filter (\<lambda>r. slotNo (curRec s) < slotNo r) (page_rids pg)"
  have tc: "to_come w s p qs = ?after @ heap_rids (lpage w ?f) qs" using pg(5) by (simp add: to_come_def)
  note nx = nextRecord_rids [OF pg(3) c(1), of NULLRID]
  have att: "(do {
         p \<leftarrow> frame_at w' (hf_curPage s');
         (status, rec) \<leftarrow> Page_getRecord p (curRec s') no_rec;
         if status \<noteq> OK then Some (status, out, s', w')
         else do {
           match \<leftarrow> matchRec s' p rec;
           if match then Some (OK, curRec s', s', w') else scan_records w' s' out
         }
       }) = (if wanted w s (curRec s') then Some (OK, curRec s', s', w') else scan_records w' s' out)"
    if mv: "scan_moved w s w' s'" and at': "scan_at w' s' p' qs'" and mem: "curRec s' \<in> set (page_rids (the (lpage w' (filePtr s') p')))"
    for w' s' p' qs'
  proof -
    obtain pg' where pg': "frame_at w' (hf_curPage s') = Some pg'" "lpage w' (filePtr s') p' = Some (page_img pg')" "page_inv pg'" "curPage pg' = p'"
       "page_rids (the (lpage w' (filePtr s') p')) = page_rids pg'" by (rule scan_at_page [OF at'])
    obtain k where k: "curRec s' = RID p' (int k)" "live pg' k" using mem pg' by (auto simp: page_rids_mem)
    have "wanted w' s' (curRec s') = rec_matches s' (the (page_recs pg' k))" using k pg' by (simp add: wanted_def page_img_recs)
    then show ?thesis
      using k pg' getRecord_eq [OF pg'(3), of "curRec s'" k] matchRec_eq [OF pg'(3) k(2), of s'] ok scan_moved_sel(7) [OF mv] wanted_moved [OF mv]
      by simp
  qed
  show ?thesis
  proof (cases ?after)
    case Nil
    have eq: "to_come w s p qs = heap_rids (lpage w ?f) qs" using tc Nil by simp
    obtain s' w' p' qs' where r: "scan_moved w s w' s'" "scan_at w' s' p' qs'"
        "pages_stop (scan_pages w s ENDOFPAGE) (heap_rids (lpage w ?f) qs) w' s' p' qs'" "set (p' # qs') \<subseteq> set (p # qs)"
      using scan_pages_spec [OF at _ eq, of ENDOFPAGE] unfolding pages_stop_def by blast
    show ?thesis
    proof (cases "heap_rids (lpage w ?f) qs")
      case Nil2: Nil
      have "scan_records w s out = Some (FILEEOF, out, s', w')"
        using pg(1) nx Nil r(3) Nil2 unfolding pages_stop_def by (subst scan_records.simps) simp
      then show ?thesis using r Nil2 eq by (intro exI [of _ s'] exI [of _ w'] exI [of _ p'] exI [of _ qs']) (simp add: pages_stop_def)
    next
      case (Cons x xs)
      then have x: "scan_pages w s ENDOFPAGE = Some (None, s', w')" "curRec s' = x" "to_come w' s' p' qs' = xs"
         "curRec s' \<in> set (page_rids (the (lpage w' (filePtr s') p')))" using r(3) by (simp_all add: pages_stop_def)
      have "scan_records w s out = (if wanted w s x then Some (OK, x, s', w') else scan_records w' s' out)"
        using pg(1) nx Nil x(1,2) att [OF r(1,2) x(4)] by (subst scan_records.simps) simp
      then show ?thesis using r(1,2,4) Cons eq x by (intro exI [of _ s'] exI [of _ w'] exI [of _ p'] exI [of _ qs']) simp
    qed
  next
    case (Cons x xs)
    let ?s = "s\<lparr>curRec := x\<rparr>"
    have mem: "x \<in> set (page_rids pg)" using Cons by (auto simp: filter_eq_Cons_iff)
    then have x: "- 1 \<le> slotNo x" by (auto simp: page_rids_mem)
    have mv: "scan_moved w s w ?s" by (rule scan_moved_refl [OF c(2)])
    have at': "scan_at w ?s p qs" using at x by (simp add: scan_at_def)
    have "scan_records w s out = (if wanted w s x then Some (OK, x, ?s, w) else scan_records w ?s out)"
      using pg(1) nx Cons att [OF mv at'] mem pg(5) by (subst scan_records.simps) simp
    moreover have "to_come w ?s p qs = xs @ heap_rids (lpage w ?f) qs" using page_rids_tail [OF Cons] pg(5) by (simp add: to_come_def)
    ultimately show ?thesis using mv at' tc Cons mem pg(5) by (intro exI [of _ ?s] exI [of _ w] exI [of _ p] exI [of _ qs]) simp
  qed
qed

lemma scan_records_spec:
  assumes "scan_at w s p qs" "filter_ok s"
  shows "\<exists>s' w' p' qs'. scan_moved w s w' s' \<and>
     records_stop (scan_records w s out) out (dropWhile (\<lambda>r. \<not> wanted w s r) (to_come w s p qs)) w' s' p' qs' \<and>
     set (p' # qs') \<subseteq> set (p # qs)"
  using assms
proof (induction "length (to_come w s p qs)" arbitrary: w s p qs)
  case 0
  then show ?case using scan_round [OF 0(2,3), of out] by (auto simp: records_stop_def)
next
  case (Suc n)
  then obtain x xs where tc: "to_come w s p qs = x # xs" by (cases "to_come w s p qs") auto
  obtain s1 w1 p1 qs1 where r: "scan_moved w s w1 s1" "scan_at w1 s1 p1 qs1"
     "scan_records w s out = (if wanted w s x then Some (OK, x, s1, w1) else scan_records w1 s1 out)" "curRec s1 = x" "to_come w1 s1 p1 qs1 = xs"
     "set (p1 # qs1) \<subseteq> set (p # qs)" "x \<in> set (page_rids (the (lpage w1 (filePtr s1) p1)))"
    using scan_round [OF Suc.prems, of out] unfolding tc by auto
  show ?case
  proof (cases "wanted w s x")
    case True
    then show ?thesis using r tc by (intro exI [of _ s1] exI [of _ w1] exI [of _ p1] exI [of _ qs1]) (simp add: records_stop_def)
  next
    case False
    have "n = length (to_come w1 s1 p1 qs1)" "filter_ok s1" using Suc.hyps(2) tc r(5) Suc.prems(2) scan_moved_sel(7) [OF r(1)] by simp_all
    from Suc.hyps(1) [OF this(1) r(2) this(2)] obtain s2 w2 p2 qs2 where q: "scan_moved w1 s1 w2 s2"
      "records_stop (scan_records w1 s1 out) out (dropWhile (\<lambda>r. \<not> wanted w1 s1 r) xs) w2 s2 p2 qs2" "set (p2 # qs2) \<subseteq> set (p1 # qs1)"
      unfolding r(5) by blast
    then show ?thesis
      using scan_moved_trans [OF r(1) q(1)] r(3) False tc wanted_moved [OF r(1)] subset_trans [OF q(3) r(6)]
      by (intro exI [of _ s2] exI [of _ w2] exI [of _ p2] exI [of _ qs2]) simp
  qed
qed

end
