(* ===== verification/HeapOps.thy ===== *)
theory HeapOps
  imports HeapScan
begin

text \<open>
  The other operations of heap files: what an open heap file object may rely on
  (\<open>hf_open\<close>), and inserting, deleting and fetching records as updates of the contents map.
\<close>

section \<open>Chains by index\<close>

lemma chain_nth:
  "chain P ps \<longleftrightarrow> ps \<noteq> [] \<and> (\<forall>i < length ps. \<exists>pg. P (ps ! i) = Some pg \<and> page_inv pg \<and> curPage pg = ps ! i \<and>
     nextPage pg = (if Suc i < length ps then ps ! Suc i else - 1))"
proof (induction ps)
  case (Cons p ps)
  have "(\<forall>i < length (p # ps). Q i) \<longleftrightarrow> Q 0 \<and> (\<forall>i < length ps. Q (Suc i))" for Q
    by (auto simp: less_Suc_eq_0_disj)
  then show ?case using Cons by (cases ps) auto
qed simp

lemma chain_cong: "(\<And>p. p \<in> set ps \<Longrightarrow> P' p = P p) \<Longrightarrow> chain P' ps = chain P ps"
  by (auto simp: chain_nth)

lemma heap_recs_cong: "(\<And>p. p \<in> set ps \<Longrightarrow> P' p = P p) \<Longrightarrow> heap_recs P' ps = heap_recs P ps"
  by (rule ext) (simp add: heap_recs_def)

text \<open>Changing one page without its links.\<close>

lemma chain_update:
  assumes "chain P ps" "P p = Some pg" "page_inv pg'" "curPage pg' = curPage pg" "nextPage pg' = nextPage pg"
  shows "chain (P(p \<mapsto> pg')) ps"
  using assms unfolding chain_nth by fastforce

text \<open>Appending a page.\<close>

lemma chain_append:
  assumes ch: "chain P ps" and d: "distinct ps" "n \<notin> set ps" and last: "P (last ps) = Some pg"
    and pg': "page_inv pg'" "curPage pg' = curPage pg" "nextPage pg' = n"
    and new: "page_inv npg" "curPage npg = n" "nextPage npg = - 1"
  shows "chain (P(last ps \<mapsto> pg', n \<mapsto> npg)) (ps @ [n])"
proof -
  have ne: "ps \<noteq> []" using ch by auto
  have idx: "ps ! i = last ps \<longleftrightarrow> Suc i = length ps" if "i < length ps" for i
    using that d(1) ne nth_eq_iff_index_eq [of ps i "length ps - 1"] by (auto simp: last_conv_nth)
  have mem: "ps ! i \<noteq> n" if "i < length ps" for i using that d(2) nth_mem by blast
  show ?thesis unfolding chain_nth
  proof (intro conjI allI impI)
    fix i
    assume i: "i < length (ps @ [n])"
    show "\<exists>pga. (P(last ps \<mapsto> pg', n \<mapsto> npg)) ((ps @ [n]) ! i) = Some pga \<and> page_inv pga \<and> curPage pga = (ps @ [n]) ! i \<and>
        nextPage pga = (if Suc i < length (ps @ [n]) then (ps @ [n]) ! Suc i else - 1)"
    proof (cases "i < length ps")
      case True
      then obtain q where q: "P (ps ! i) = Some q" "page_inv q" "curPage q = ps ! i" "nextPage q = (if Suc i < length ps then ps ! Suc i else - 1)"
        using ch unfolding chain_nth by blast
      show ?thesis
        using True q idx [OF True] mem [OF True] last pg' by (cases "Suc i = length ps") (auto simp: nth_append)
    next
      case False
      then show ?thesis using i new by (simp add: nth_append)
    qed
  qed simp
qed

section \<open>Counting records\<close>

lemma page_rids_pageNo: "r \<in> set (page_rids pg) \<Longrightarrow> pageNo r = curPage pg"
  by (auto simp: page_rids_mem)

lemma distinct_page_rids: "distinct (page_rids pg)"
  by (simp add: page_rids_def distinct_map inj_on_def)

lemma distinct_heap_rids: "chain P ps \<Longrightarrow> distinct ps \<Longrightarrow> distinct (heap_rids P ps)"
proof (induction ps)
  case (Cons p ps)
  obtain pg where pg: "P p = Some pg" "curPage pg = p" using Cons.prems(1) by auto
  show ?case
  proof (cases "ps = []")
    case False
    then have ch: "chain P ps" using Cons.prems(1) by auto
    have "pageNo r \<in> set ps" if "r \<in> set (heap_rids P ps)" for r
      using heap_rids_mem [OF ch that] by (auto simp: heap_recs_def split: if_splits)
    then have "set (page_rids pg) \<inter> set (heap_rids P ps) = {}" using page_rids_pageNo [of _ pg] pg Cons.prems(2) by fastforce
    then show ?thesis using Cons ch pg distinct_page_rids by simp
  qed (use pg distinct_page_rids in simp)
qed simp

lemma heap_len: "chain P ps \<Longrightarrow> distinct ps \<Longrightarrow> length (heap_rids P ps) = card (dom (heap_recs P ps)) \<and> finite (dom (heap_recs P ps))"
  using distinct_card [OF distinct_heap_rids, of P ps] heap_rids_set [of P ps] by (metis List.finite_set)

lemma heap_recs_page:
  assumes "p \<in> set ps" "P p = Some pg" "page_recs pg' = (page_recs pg)(k := v)"
  shows "heap_recs (P(p \<mapsto> pg')) ps = (heap_recs P ps)(RID p (int k) := v)"
proof
  fix r
  show "heap_recs (P(p \<mapsto> pg')) ps r = ((heap_recs P ps)(RID p (int k) := v)) r"
    using assms by (cases r) (auto simp: heap_recs_def)
qed

section \<open>Open heap file objects\<close>

definition hf_open :: "'a buf_state_scheme \<Rightarrow> 'h HeapFile_scheme \<Rightarrow> int list \<Rightarrow> bool" where
  "hf_open w h ps \<longleftrightarrow> pool_ok w \<and> heap_file w (filePtr h) (headerPageNo h) ps \<and>
     holds w (filePtr h) (headerPageNo h) (headerPage h) \<and> (hdrDirtyFlag h \<or> clean w (filePtr h) (headerPageNo h)) \<and>
     (\<forall>q \<in> set ps. clean w (filePtr h) q \<or> hf_curPage h \<noteq> None \<and> q = curPageNo h \<and> curDirtyFlag h) \<and>
     (hf_curPage h \<noteq> None \<longrightarrow> curPageNo h \<in> set ps \<and> holds w (filePtr h) (curPageNo h) (hf_curPage h))"

text \<open>The contents of the file of an open object.\<close>

abbreviation recs_of :: "'a buf_state_scheme \<Rightarrow> 'h HeapFile_scheme \<Rightarrow> int list \<Rightarrow> RID \<Rightarrow> byte list option" where
  "recs_of w h ps \<equiv> heap_recs (lpage w (filePtr h)) ps"

lemma hf_openD:
  assumes "hf_open w h ps"
  shows "pool_ok w" "chain (lpage w (filePtr h)) ps" "distinct ps" "headerPageNo h \<notin> set ps"
    "\<forall>p \<in> set (headerPageNo h # ps). buf_legal w (filePtr h, p)" "holds w (filePtr h) (headerPageNo h) (headerPage h)"
  using assms by (auto simp: hf_open_def heap_file_def)

lemma hf_open_header:
  assumes "hf_open w h ps"
  obtains hp where "frame_at w (headerPage h) = Some hp" "lpage w (filePtr h) (headerPageNo h) = Some (page_img hp)"
    "hdr_ok hp (lpage w (filePtr h)) ps"
proof -
  obtain hp where "frame_at w (headerPage h) = Some hp" "lpage w (filePtr h) (headerPageNo h) = Some (page_img hp)"
    using holds_frame_at [OF hf_openD(1,6) [OF assms]] by blast
  then show thesis using assms that by (auto simp: hf_open_def heap_file_def hdr_ok_def)
qed

lemma hf_open_current:
  assumes "hf_open w h ps" "hf_curPage h \<noteq> None"
  obtains pg where "frame_at w (hf_curPage h) = Some pg" "lpage w (filePtr h) (curPageNo h) = Some (page_img pg)"
    "page_inv pg" "curPage pg = curPageNo h" "curPageNo h \<in> set ps" "holds w (filePtr h) (curPageNo h) (hf_curPage h)"
proof -
  have h: "holds w (filePtr h) (curPageNo h) (hf_curPage h)" "curPageNo h \<in> set ps" using assms by (simp_all add: hf_open_def)
  obtain pg where pg: "frame_at w (hf_curPage h) = Some pg" "lpage w (filePtr h) (curPageNo h) = Some (page_img pg)"
    using holds_frame_at [OF hf_openD(1) [OF assms(1)] h(1)] by blast
  then show thesis using chain_page [OF hf_openD(2) [OF assms(1)] h(2)] that h by auto
qed

section \<open>Changing the header and the current page\<close>

text \<open>\<open>lpage\<close> after a change of one page of file \<open>f\<close>.\<close>

definition page_changed :: "'a buf_state_scheme \<Rightarrow> ptr \<Rightarrow> int \<Rightarrow> page \<Rightarrow> 'a buf_state_scheme \<Rightarrow> bool" where
  "page_changed w f p pg w' \<longleftrightarrow> pool_ok w' \<and> env_same w w' \<and>
     (\<forall>g q. lpage w' g q = (if (g, q) = (f, p) then Some (page_img pg) else lpage w g q)) \<and>
     (\<forall>g. used_pages g w' = used_pages g w) \<and> pins w' = pins w \<and> (\<forall>g q j. holds w' g q j = holds w g q j) \<and>
     (\<forall>g q. (g, q) \<noteq> (f, p) \<longrightarrow> clean w g q \<longrightarrow> clean w' g q) \<and> all_pinned w' = all_pinned w"

lemma store_changed:
  "pool_ok w \<Longrightarrow> holds w f p pp \<Longrightarrow> \<exists>w'. store_at w pp pg = Some w' \<and> page_changed w f p pg w' \<and> frame_at w' pp = Some pg"
  using store_step [of w f p pp pg] unfolding page_changed_def by blast

lemma page_changed_lpage: "page_changed w f p pg w' \<Longrightarrow> lpage w' f = (lpage w f)(p \<mapsto> page_img pg)"
  by (auto simp: page_changed_def)

lemma page_changed_legal: "page_changed w f p pg w' \<Longrightarrow> buf_legal w' k = buf_legal w k"
  by (simp add: page_changed_def buf_legal_def env_same_def)

lemma frame_at_changed:
  assumes "page_changed w f p pg w'" "pool_ok w" "holds w g q pp" "(g, q) \<noteq> (f, p)" "frame_at w pp = Some x"
  shows "\<exists>y. frame_at w' pp = Some y \<and> page_img y = page_img x"
proof -
  have "pool_ok w'" "holds w' g q pp" "lpage w' g q = lpage w g q" using assms by (auto simp: page_changed_def)
  then show ?thesis using holds_frame_at [of w' g q pp] holds_frame_at [OF assms(2,3)] assms(5) by auto
qed

text \<open>The header after the number of records has changed.\<close>

lemma hdr_recCnt_ok:
  assumes "hdr_ok hp P ps" "length (heap_rids P' ps) = length (heap_rids P ps) + 1"
  shows "hdr_ok (set_hdr_recCnt hp (hdr_recCnt hp + 1)) P' ps"
proof -
  have "swrap 4 (swrap 4 n + 1) = swrap 4 (1 + n)" for n by (simp add: swrap_def mod_simps)
  then show ?thesis
    using assms by (simp add: hdr_ok_def set_hdr_recCnt_def hdr_firstPage_def hdr_lastPage_def hdr_pageCnt_def hdr_recCnt_def
        mem_simps get_put_int_wrap)
qed

lemma hdr_recCnt_less:
  assumes "hdr_ok hp P ps" "length (heap_rids P ps) = length (heap_rids P' ps) + 1"
  shows "hdr_ok (set_hdr_recCnt hp (hdr_recCnt hp - 1)) P' ps"
proof -
  have "swrap 4 (swrap 4 (1 + n) - 1) = swrap 4 n" for n
  proof -
    have "swrap 4 (swrap 4 m - 1) = swrap 4 (m - 1)" for m by (simp add: swrap_def mod_simps)
    from this [of "1 + n"] show ?thesis by simp
  qed
  then show ?thesis
    using assms by (simp add: hdr_ok_def set_hdr_recCnt_def hdr_firstPage_def hdr_lastPage_def hdr_pageCnt_def hdr_recCnt_def
        mem_simps get_put_int_wrap)
qed

lemma hdr_ok_img [simp]: "hdr_ok (page_img hp) P ps = hdr_ok hp P ps"
  by (simp add: hdr_ok_def)


section \<open>Insertion\<close>

text \<open>The part of \<open>hf_open\<close> that depends on the state only through what \<open>page_changed\<close> keeps.\<close>

lemma hf_open_change:
  assumes op: "hf_open w h ps" and cur: "hf_curPage h \<noteq> None"
    and c1: "page_changed w (filePtr h) (curPageNo h) pg w1" and c2: "page_changed w1 (filePtr h) (headerPageNo h) hp w2"
    and ch: "chain (lpage w2 (filePtr h)) ps" and hd: "hdr_ok hp (lpage w2 (filePtr h)) ps"
  shows "hf_open w2 (h\<lparr>hdrDirtyFlag := True, curDirtyFlag := True\<rparr>) ps"
proof -
  let ?f = "filePtr h"
  have "lpage w2 ?f (headerPageNo h) = Some (page_img hp)" using page_changed_lpage [OF c2] by simp
  moreover have "buf_legal w2 k = buf_legal w k" for k using page_changed_legal [OF c1] page_changed_legal [OF c2] by simp
  ultimately have "heap_file w2 ?f (headerPageNo h) ps" using op ch hd by (auto simp: hf_open_def heap_file_def)
  moreover have "holds w2 g q j = holds w g q j" for g q j using c1 c2 by (simp add: page_changed_def)
  moreover have "clean w2 ?f q" if q: "q \<in> set ps" "q \<noteq> curPageNo h" for q
  proof -
    have "clean w ?f q" "q \<noteq> headerPageNo h" using op q hf_openD(4) [OF op] by (auto simp: hf_open_def)
    then show ?thesis using c1 c2 q(2) by (simp add: page_changed_def)
  qed
  ultimately show ?thesis using op cur c2 by (auto simp: hf_open_def page_changed_def)
qed

text \<open>A record that fits on the current page.\<close>

lemma place_record:
  assumes op: "hf_open w h ps" and cur: "hf_curPage h \<noteq> None" and b: "storable b"
    and pg: "frame_at w (hf_curPage h) = Some pg" and fits: "int (length b) + 4 \<le> freeSpace pg"
  shows "\<exists>k x w1 w'. Page_insertRecord pg \<lparr>rec_data = b, rec_length = int (length b)\<rparr> NULLRID = Some (OK, x, RID (curPageNo h) (int k)) \<and>
     store_at w (hf_curPage h) x = Some w1 \<and> count_record w1 (headerPage h) = Some w' \<and>
     hf_open w' (h\<lparr>hdrDirtyFlag := True, curDirtyFlag := True\<rparr>) ps \<and> recs_of w h ps (RID (curPageNo h) (int k)) = None \<and>
     recs_of w' h ps = (recs_of w h ps)(RID (curPageNo h) (int k) \<mapsto> b) \<and> env_same w w' \<and> pins w' = pins w \<and>
     (\<forall>g q. g \<noteq> filePtr h \<longrightarrow> lpage w' g q = lpage w g q) \<and> (\<forall>g. used_pages g w' = used_pages g w) \<and> all_pinned w' = all_pinned w \<and>
     lpage w' (filePtr h) 0 = lpage w (filePtr h) 0 \<and> (\<forall>g q. g \<noteq> filePtr h \<longrightarrow> clean w g q \<longrightarrow> clean w' g q) \<and> (\<forall>g q j. holds w' g q j = holds w g q j)"
proof -
  let ?f = "filePtr h" and ?p = "curPageNo h" and ?r = "\<lparr>rec_data = b, rec_length = int (length b)\<rparr>"
  note od = hf_openD [OF op]
  obtain q where q: "frame_at w (hf_curPage h) = Some q" "lpage w ?f ?p = Some (page_img q)" "page_inv q" "curPage q = ?p"
     "?p \<in> set ps" "holds w ?f ?p (hf_curPage h)" by (rule hf_open_current [OF op cur])
  then have [simp]: "q = pg" using pg by simp
  obtain x k where x: "Page_insertRecord pg ?r NULLRID = Some (OK, x, RID (curPage pg) (int k))" "page_inv x" "page_recs pg k = None"
     "page_recs x = (page_recs pg)(k \<mapsto> b)" "inserted pg k b x"
    using page_ins_cases [OF _ b, of pg NULLRID] q(3) fits by auto
  have ln: "curPage x = ?p" "nextPage x = nextPage pg" using x(5) q(4) by (auto simp: inserted_def)
  obtain w1 where w1: "store_at w (hf_curPage h) x = Some w1" "page_changed w ?f ?p x w1" using store_changed [OF od(1) q(6)] by blast
  obtain hp0 where hp0: "frame_at w (headerPage h) = Some hp0" "hdr_ok hp0 (lpage w ?f) ps" by (rule hf_open_header [OF op])
  have ne: "(?f, headerPageNo h) \<noteq> (?f, ?p)" using od(4) q(5) by auto
  obtain hp where hp: "frame_at w1 (headerPage h) = Some hp" "page_img hp = page_img hp0"
    using frame_at_changed [OF w1(2) od(1,6) ne hp0(1)] by blast
  have ok1: "pool_ok w1" "holds w1 ?f (headerPageNo h) (headerPage h)" using w1(2) od(6) by (simp_all add: page_changed_def)
  let ?hp = "set_hdr_recCnt hp (hdr_recCnt hp + 1)"
  obtain w2 where w2: "store_at w1 (headerPage h) ?hp = Some w2" "page_changed w1 ?f (headerPageNo h) ?hp w2" using store_changed [OF ok1] by blast
  have lp: "lpage w2 ?f = (lpage w ?f)(?p \<mapsto> page_img x, headerPageNo h \<mapsto> page_img ?hp)"
    using page_changed_lpage [OF w1(2)] page_changed_lpage [OF w2(2)] by simp
  have sub: "lpage w2 ?f y = ((lpage w ?f)(?p \<mapsto> page_img x)) y" if "y \<in> set ps" for y using that od(4) unfolding lp by auto
  have rec: "recs_of w2 h ps = (recs_of w h ps)(RID ?p (int k) \<mapsto> b)"
    using heap_recs_cong [of ps "lpage w2 ?f" "(lpage w ?f)(?p \<mapsto> page_img x)", OF sub]
      heap_recs_page [where P = "lpage w ?f", OF q(5,2), of "page_img x" k "Some b"] x(2,4) q(3)
    by (simp add: page_img_recs del: fun_upd_apply)
  have ch: "chain (lpage w2 ?f) ps"
    using chain_cong [of ps "lpage w2 ?f" "(lpage w ?f)(?p \<mapsto> page_img x)", OF sub] chain_update [OF od(2) q(2), of "page_img x"] x(2) ln q(4) by simp
  have fresh: "recs_of w h ps (RID ?p (int k)) = None" using x(3) q(2,3) by (simp add: heap_recs_def page_img_recs)
  have "length (heap_rids (lpage w2 ?f) ps) = length (heap_rids (lpage w ?f) ps) + 1"
    using heap_len [OF ch od(3)] heap_len [OF od(2,3)] fresh unfolding rec by (simp add: domIff card_insert_disjoint)
  moreover have "hdr_ok hp (lpage w ?f) ps" using hp0(2) hp(2) hdr_ok_img by metis
  ultimately have hd: "hdr_ok ?hp (lpage w2 ?f) ps" by (rule hdr_recCnt_ok [rotated])
  have op2: "hf_open w2 (h\<lparr>hdrDirtyFlag := True, curDirtyFlag := True\<rparr>) ps" by (rule hf_open_change [OF op cur w1(2) w2(2) ch hd])
  have "count_record w1 (headerPage h) = Some w2" using hp(1) w2(1) by (simp add: count_record_def)
  moreover have "env_same w w2" "pins w2 = pins w" "\<forall>g q. g \<noteq> ?f \<longrightarrow> lpage w2 g q = lpage w g q" "\<forall>g. used_pages g w2 = used_pages g w"
     "all_pinned w2 = all_pinned w" "\<forall>g q. g \<noteq> ?f \<longrightarrow> clean w g q \<longrightarrow> clean w2 g q" "\<forall>g q j. holds w2 g q j = holds w g q j"
    using w1(2) w2(2) env_same_trans [of w w1 w2] by (simp_all add: page_changed_def)
  moreover have "lpage w2 ?f 0 = lpage w ?f 0"
    using lp used_int_ok [of ?p ?f w] used_int_ok [of "headerPageNo h" ?f w] od(5) q(5) by (auto simp: buf_legal_def)
  ultimately show ?thesis using op2 fresh rec x(1) w1(1) q(4) by (intro exI [of _ k] exI [of _ x] exI [of _ w1] exI [of _ w2]) simp
qed

lemma insert_here:
  assumes op: "hf_open w h ps" and cur: "hf_curPage h \<noteq> None" and b: "storable b" "length b \<le> 1004"
    and pg: "frame_at w (hf_curPage h) = Some pg" and fits: "int (length b) + 4 \<le> freeSpace pg"
  shows "\<exists>k w'. insertRecord w h \<lparr>rec_data = b, rec_length = int (length b)\<rparr> out =
       Some (OK, RID (curPageNo h) (int k), h\<lparr>hdrDirtyFlag := True, curDirtyFlag := True\<rparr>, w') \<and>
     hf_open w' (h\<lparr>hdrDirtyFlag := True, curDirtyFlag := True\<rparr>) ps \<and> recs_of w h ps (RID (curPageNo h) (int k)) = None \<and>
     recs_of w' h ps = (recs_of w h ps)(RID (curPageNo h) (int k) \<mapsto> b) \<and> env_same w w' \<and> pins w' = pins w \<and>
     (\<forall>g q. g \<noteq> filePtr h \<longrightarrow> lpage w' g q = lpage w g q) \<and> (\<forall>g. used_pages g w' = used_pages g w) \<and> all_pinned w' = all_pinned w \<and>
     lpage w' (filePtr h) 0 = lpage w (filePtr h) 0 \<and> (\<forall>g q. g \<noteq> filePtr h \<longrightarrow> clean w g q \<longrightarrow> clean w' g q) \<and> (\<forall>g q j. holds w' g q j = holds w g q j)"
proof -
  have len: "int (length b) mod 2 ^ 32 = int (length b)" using b(2) by simp
  obtain k x w1 w' where r: "Page_insertRecord pg \<lparr>rec_data = b, rec_length = int (length b)\<rparr> NULLRID = Some (OK, x, RID (curPageNo h) (int k))"
     "store_at w (hf_curPage h) x = Some w1" "count_record w1 (headerPage h) = Some w'"
     "hf_open w' (h\<lparr>hdrDirtyFlag := True, curDirtyFlag := True\<rparr>) ps" "recs_of w h ps (RID (curPageNo h) (int k)) = None"
     "recs_of w' h ps = (recs_of w h ps)(RID (curPageNo h) (int k) \<mapsto> b)" "env_same w w'" "pins w' = pins w"
     "\<forall>g q. g \<noteq> filePtr h \<longrightarrow> lpage w' g q = lpage w g q" "\<forall>g. used_pages g w' = used_pages g w" "all_pinned w' = all_pinned w"
     "lpage w' (filePtr h) 0 = lpage w (filePtr h) 0" "\<forall>g q. g \<noteq> filePtr h \<longrightarrow> clean w g q \<longrightarrow> clean w' g q" "\<forall>g q j. holds w' g q j = holds w g q j"
    using place_record [OF op cur b(1) pg fits] by blast
  have "insertRecord w h \<lparr>rec_data = b, rec_length = int (length b)\<rparr> out =
       Some (OK, RID (curPageNo h) (int k), h\<lparr>hdrDirtyFlag := True, curDirtyFlag := True\<rparr>, w')"
    using cur pg r(1-3) len b(2) by (auto simp: insertRecord_def)
  then show ?thesis using r(4-) by blast
qed


section \<open>A new page\<close>

lemma page_init_link:
  assumes "int_ok n"
  shows "page_inv (set_nextPage (Page_init pg n) (- 1))" "page_recs (set_nextPage (Page_init pg n) (- 1)) = Map.empty"
    "curPage (set_nextPage (Page_init pg n) (- 1)) = n" "nextPage (set_nextPage (Page_init pg n) (- 1)) = - 1"
    "freeSpace (set_nextPage (Page_init pg n) (- 1)) = 1004"
proof -
  show "page_inv (set_nextPage (Page_init pg n) (- 1))" "page_recs (set_nextPage (Page_init pg n) (- 1)) = Map.empty"
    by (simp_all add: setNextPage_view page_inv_init page_recs_init)
  show "curPage (set_nextPage (Page_init pg n) (- 1)) = n" using curPage_init [OF assms, of pg]
    by (simp add: curPage_def set_nextPage_def mem_simps)
  show "nextPage (set_nextPage (Page_init pg n) (- 1)) = - 1" by (simp add: nextPage_def set_nextPage_def mem_simps int_ok_def)
  show "freeSpace (set_nextPage (Page_init pg n) (- 1)) = 1004" using freeSpace_init [of pg n]
    by (simp add: freeSpace_def set_nextPage_def mem_simps)
qed

lemma set_nextPage_sel: "int_ok n \<Longrightarrow> nextPage (set_nextPage p n) = n" "curPage (set_nextPage p n) = curPage p"
  by (simp_all add: nextPage_def curPage_def set_nextPage_def mem_simps)

lemma hdr_append_ok:
  assumes "hdr_ok hp P ps" "ps \<noteq> []" "int_ok n" "length (heap_rids P' (ps @ [n])) = length (heap_rids P ps)"
  shows "hdr_ok (set_hdr_pageCnt (set_hdr_lastPage hp n) (hdr_pageCnt (set_hdr_lastPage hp n) + 1)) P' (ps @ [n])"
proof -
  have "swrap 4 (swrap 4 k + 1) = swrap 4 (1 + k)" for k by (simp add: swrap_def mod_simps)
  then show ?thesis
    using assms by (simp add: hdr_ok_def set_hdr_pageCnt_def set_hdr_lastPage_def hdr_firstPage_def hdr_lastPage_def hdr_pageCnt_def hdr_recCnt_def
        mem_simps get_put_int_wrap)
qed

lemma heap_recs_append:
  assumes "chain P ps" "n \<notin> set ps" "\<And>q. q \<in> set ps \<Longrightarrow> page_recs (the (P' q)) = page_recs (the (P q))" "page_recs (the (P' n)) = Map.empty"
  shows "heap_recs P' (ps @ [n]) = heap_recs P ps"
  by (rule ext) (use assms in \<open>auto simp: heap_recs_def\<close>)

text \<open>The pages after a new page \<open>n\<close> has been linked behind page \<open>l\<close>; \<open>pg\<close> is what was in its frame before.\<close>

abbreviation new_page :: "page \<Rightarrow> int \<Rightarrow> page" where
  "new_page pg n \<equiv> set_nextPage (Page_init pg n) (- 1)"

abbreviation longer_header :: "page \<Rightarrow> int \<Rightarrow> page" where
  "longer_header hp n \<equiv> set_hdr_pageCnt (set_hdr_lastPage hp n) (hdr_pageCnt (set_hdr_lastPage hp n) + 1)"

definition linked :: "'a buf_state_scheme \<Rightarrow> ptr \<Rightarrow> int \<Rightarrow> int \<Rightarrow> int \<Rightarrow> page \<Rightarrow> page \<Rightarrow> page \<Rightarrow> 'a buf_state_scheme \<Rightarrow> bool" where
  "linked w f hn l n hp p pg w' \<longleftrightarrow> pool_ok w' \<and> env_same w w' \<and> n \<notin> used_pages f w \<and> int_ok n \<and>
     lpage w f hn = Some (page_img hp) \<and> lpage w f l = Some (page_img p) \<and>
     (\<forall>q \<in> insert n (used_pages f w). lpage w' f q =
        ((lpage w f)(n \<mapsto> page_img (new_page pg n), hn \<mapsto> page_img (longer_header hp n), l \<mapsto> page_img (set_nextPage p n))) q) \<and>
     (\<forall>g q. g \<noteq> f \<longrightarrow> lpage w' g q = lpage w g q) \<and>
     (\<forall>g. used_pages g w' = (if g = f then insert n (used_pages g w) else used_pages g w)) \<and>
     (\<forall>g q j. holds w g q j \<longrightarrow> (g, q) \<noteq> (f, l) \<or> 1 < pins w f l \<longrightarrow> holds w' g q j) \<and> clean w' f l \<and>
     (\<forall>g q. q \<in> used_pages g w \<longrightarrow> (g, q) \<noteq> (f, hn) \<longrightarrow> clean w g q \<longrightarrow> clean w' g q) \<and>
     (\<forall>g q. pins w' g q = pins w g q + (if (g, q) = (f, n) then 1 else 0) - (if (g, q) = (f, l) then 1 else 0)) \<and>
     pins w' f n = 1 \<and> (pins w f l = 1 \<longrightarrow> \<not> all_pinned w') \<and> (\<forall>m. grows w f m \<longrightarrow> m < 2147483647 \<longrightarrow> grows w' f (m + 1))"

lemma link_steps:
  assumes ok: "pool_ok w" and f: "f \<noteq> NULL" "\<not> file_full f w" and free: "\<not> all_pinned w"
    and key: "bht_valid (hashTable w) (f, next_page f w)" and hn: "holds w f hn hpp" and l: "holds w f l cpp" and ne: "hn \<noteq> l"
  defines "n \<equiv> next_page f w"
  shows "\<exists>pp w1 pg w2 hp w3 p w4 w5. BufMgr_allocPage w f 0 None = Some (OK, n, pp, w1) \<and> frame_at w1 pp = Some pg \<and>
     store_at w1 pp (new_page pg n) = Some w2 \<and> frame_at w2 hpp = Some hp \<and> store_at w2 hpp (longer_header hp n) = Some w3 \<and>
     frame_at w3 cpp = Some p \<and> store_at w3 cpp (set_nextPage p n) = Some w4 \<and> BufMgr_unPinPage w4 f l True = Some (OK, w5) \<and>
     holds w5 f n pp \<and> linked w f hn l n hp p pg w5"
proof -
  have used: "hn \<in> used_pages f w" "l \<in> used_pages f w" using holds_used [OF ok hn] holds_used [OF ok l] .
  then have fo: "file_of w f \<noteq> None" using used_file by blast
  obtain pp w1 where a: "BufMgr_allocPage w f 0 None = Some (OK, n, pp, w1)" "pool_ok w1" "env_same w w1" "n \<notin> used_pages f w" "holds w1 f n pp"
     "\<forall>g q j. holds w g q j \<longrightarrow> holds w1 g q j" "\<forall>g q. pins w1 g q = pins w g q + (if (g, q) = (f, n) then 1 else 0)"
     "\<forall>g. used_pages g w1 = (if g = f then insert n (used_pages f w) else used_pages g w)"
     "\<forall>g q. q \<in> used_pages g w \<or> g \<noteq> f \<longrightarrow> lpage w1 g q = lpage w g q" "clean_kept w w1" "pins w1 f n = 1"
     "\<forall>m. grows w f m \<longrightarrow> m < 2147483647 \<longrightarrow> grows w1 f (m + 1)"
    using alloc_step_pool [OF ok f(1) fo f(2) free key, of 0 None] unfolding n_def by blast
  have n: "hn \<noteq> n" "l \<noteq> n" "int_ok n" using a(4,8) used used_int_ok [of n f w1] by auto
  obtain pg where pg: "frame_at w1 pp = Some pg" using holds_frame_at [OF a(2,5)] by blast
  obtain w2 where w2: "store_at w1 pp (new_page pg n) = Some w2" "page_changed w1 f n (new_page pg n) w2" using store_changed [OF a(2,5)] by blast
  have h2: "pool_ok w2" "\<And>g q j. holds w2 g q j = holds w1 g q j" using w2(2) by (auto simp: page_changed_def)
  have hh: "holds w2 f hn hpp" "holds w2 f l cpp" using h2(2) a(6) hn l by auto
  obtain hp where hp: "frame_at w2 hpp = Some hp" "lpage w2 f hn = Some (page_img hp)" using holds_frame_at [OF h2(1) hh(1)] by blast
  obtain w3 where w3: "store_at w2 hpp (longer_header hp n) = Some w3" "page_changed w2 f hn (longer_header hp n) w3"
    using store_changed [OF h2(1) hh(1)] by blast
  have h3: "pool_ok w3" "holds w3 f l cpp" using w3(2) hh(2) by (auto simp: page_changed_def)
  obtain p where p: "frame_at w3 cpp = Some p" "lpage w3 f l = Some (page_img p)" using holds_frame_at [OF h3] by blast
  obtain w4 where w4: "store_at w3 cpp (set_nextPage p n) = Some w4" "page_changed w3 f l (set_nextPage p n) w4"
    using store_changed [OF h3] by blast
  have h4: "pool_ok w4" "holds w4 f l cpp" "\<And>g q j. holds w4 g q j = holds w1 g q j" "pins w4 = pins w1"
    using w4(2) w3(2) w2(2) h3(2) by (auto simp: page_changed_def)
  obtain w5 where w5: "BufMgr_unPinPage w4 f l True = Some (OK, w5)" "view_same w4 w5" "clean w5 f l"
     "\<forall>g q. pins w5 g q = pins w4 g q - (if (g, q) = (f, l) then 1 else 0)"
     "\<forall>g q j. holds w4 g q j \<longrightarrow> (g, q) \<noteq> (f, l) \<or> 1 < pins w4 f l \<longrightarrow> holds w5 g q j" "movable w4 f l \<longrightarrow> \<not> all_pinned w5"
    using unpin_step [OF h4(1,2), of True] by blast
  have lp: "lpage w5 f = (lpage w1 f)(n \<mapsto> page_img (new_page pg n), hn \<mapsto> page_img (longer_header hp n), l \<mapsto> page_img (set_nextPage p n))"
    using page_changed_lpage [OF w2(2)] page_changed_lpage [OF w3(2)] page_changed_lpage [OF w4(2)] view_sameD(2) [OF w5(2)] by simp
  have "lpage w f hn = Some (page_img hp)" "lpage w f l = Some (page_img p)"
    using hp(2) p(2) page_changed_lpage [OF w2(2)] page_changed_lpage [OF w3(2)] a(9) used n ne by simp_all
  moreover have "env_same w w5"
  proof -
    have "env_same w1 w2" "env_same w2 w3" "env_same w3 w4" using w2(2) w3(2) w4(2) by (simp_all add: page_changed_def)
    then show ?thesis using a(3) view_sameD(5) [OF w5(2)] env_same_trans by metis
  qed
  moreover have us: "used_pages g w4 = (if g = f then insert n (used_pages g w) else used_pages g w)" for g
    using a(8) w2(2) w3(2) w4(2) by (simp add: page_changed_def)
  moreover have "clean w5 g q" if q: "q \<in> used_pages g w" "(g, q) \<noteq> (f, hn)" "clean w g q" for g q
  proof (cases "(g, q) = (f, l)")
    case False
    have "(g, q) \<noteq> (f, n)" using q(1) a(4) by auto
    have "clean w1 g q" using a(10) q(1,3) unfolding clean_kept_def by blast
    then have "clean w4 g q" using w2(2) w3(2) w4(2) q(2) False \<open>(g, q) \<noteq> (f, n)\<close> unfolding page_changed_def by blast
    then show ?thesis using view_sameD(6) [OF w5(2), of q g] us [of g] q(1) by (cases "g = f") simp_all
  qed (use w5(3) in simp)
  moreover have "\<not> all_pinned w5" if "pins w f l = 1" using w5(6) a(7) h4(4) that n by (simp add: movable_def)
  moreover have "lpage w5 g q = lpage w g q" if "g \<noteq> f" for g q
    using a(9) w2(2) w3(2) w4(2) view_sameD(2) [OF w5(2)] that by (simp add: page_changed_def)
  moreover have "\<forall>q \<in> insert n (used_pages f w). lpage w5 f q =
        ((lpage w f)(n \<mapsto> page_img (new_page pg n), hn \<mapsto> page_img (longer_header hp n), l \<mapsto> page_img (set_nextPage p n))) q"
    using a(9) unfolding lp by auto
  moreover have "grows w5 f (m + 1)" if "grows w f m" "m < 2147483647" for m
  proof -
    have "n \<noteq> 0" "hn \<noteq> 0" "l \<noteq> 0" using used_int_ok [OF used(1)] used_int_ok [OF used(2)] used_int_ok [of n f w1] a(8) by auto
    then have "lpage w5 f 0 = lpage w1 f 0" using lp by simp
    then show ?thesis using grows_same [OF a(2) view_sameD(1) [OF w5(2)]] a(12) that by blast
  qed
  moreover have "holds w5 g q j" if "holds w g q j" "(g, q) \<noteq> (f, l) \<or> 1 < pins w f l" for g q j
    using that w5(5) h4(3,4) a(6,7) n(2) by auto
  ultimately have "linked w f hn l n hp p pg w5"
    using view_sameD(1,3) [OF w5(2)] a(4,7,11) n w5(3,4) h4(4) unfolding linked_def by (intro conjI) auto
  moreover have "holds w5 f n pp" using w5(5) h4(3) a(5) n(2) by auto
  ultimately show ?thesis using a(1) pg w2(1) hp(1) w3(1) p(1) w4(1) w5(1) by blast
qed

lemma linked_heap:
  assumes op: "hf_open w h ps" and link: "linked w (filePtr h) (headerPageNo h) (last ps) n hp p pg w'"
  shows "chain (lpage w' (filePtr h)) (ps @ [n])" "recs_of w' h (ps @ [n]) = recs_of w h ps" "distinct (headerPageNo h # ps @ [n])"
    "hdr_ok (longer_header hp n) (lpage w' (filePtr h)) (ps @ [n])"
    "lpage w' (filePtr h) (headerPageNo h) = Some (page_img (longer_header hp n))"
proof -
  let ?f = "filePtr h" and ?l = "last ps" and ?hn = "headerPageNo h"
  note od = hf_openD [OF op]
  have ne: "ps \<noteq> []" using od(2) by auto
  then have lmem: "?l \<in> set ps" by simp
  have used: "q \<in> used_pages ?f w" if "q \<in> set (?hn # ps)" for q using that od(5) by (auto simp: buf_legal_def)
  have L: "n \<notin> used_pages ?f w" "int_ok n" "lpage w ?f ?hn = Some (page_img hp)" "lpage w ?f ?l = Some (page_img p)"
     "\<forall>q \<in> insert n (used_pages ?f w). lpage w' ?f q =
        ((lpage w ?f)(n \<mapsto> page_img (new_page pg n), ?hn \<mapsto> page_img (longer_header hp n), ?l \<mapsto> page_img (set_nextPage p n))) q"
    using link unfolding linked_def by blast+
  have n: "n \<notin> set (?hn # ps)" using L(1) used by blast
  have pinv: "page_inv p" "curPage p = ?l" using chain_page [OF od(2) lmem] L(4) by auto
  note new = page_init_link [OF L(2), of pg]
  let ?P = "(lpage w ?f)(?l \<mapsto> page_img (set_nextPage p n), n \<mapsto> page_img (new_page pg n))"
  have eqP: "lpage w' ?f q = ?P q" if "q \<in> set (ps @ [n])" for q
    using that L(5) used [of q] n od(4) lmem by auto
  have "chain ?P (ps @ [n])"
    by (rule chain_append [OF od(2,3) _ L(4)]) (use n pinv new L(2) in \<open>simp_all add: setNextPage_view set_nextPage_sel\<close>)
  then show ch: "chain (lpage w' ?f) (ps @ [n])" using chain_cong [of "ps @ [n]" "lpage w' ?f" ?P, OF eqP] by simp
  show recs: "recs_of w' h (ps @ [n]) = recs_of w h ps"
  proof (rule heap_recs_append [OF od(2)])
    show "n \<notin> set ps" using n by simp
    show "page_recs (the (lpage w' ?f n)) = Map.empty" using eqP [of n] new(1,2) by (simp add: page_img_recs)
    show "page_recs (the (lpage w' ?f q)) = page_recs (the (lpage w ?f q))" if q: "q \<in> set ps" for q
    proof (cases "q = ?l")
      case True
      then show ?thesis using eqP [of q] q n L(4) pinv by (auto simp: page_img_recs setNextPage_view)
    next
      case False
      then show ?thesis using eqP [of q] q n by auto
    qed
  qed
  show dn: "distinct (?hn # ps @ [n])" using od(3,4) n by auto
  have "length (heap_rids (lpage w' ?f) (ps @ [n])) = length (heap_rids (lpage w ?f) ps)"
    using heap_len [OF ch] dn heap_len [OF od(2,3)] recs by simp
  moreover have "hdr_ok hp (lpage w ?f) ps" using op L(3) by (auto simp: hf_open_def heap_file_def)
  ultimately show "hdr_ok (longer_header hp n) (lpage w' ?f) (ps @ [n])" using hdr_append_ok ne L(2) by blast
  show "lpage w' ?f ?hn = Some (page_img (longer_header hp n))" using L(5) used [of ?hn] od(4) lmem by auto
qed

lemma linked_open:
  assumes op: "hf_open w h ps" and cur: "hf_curPage h \<noteq> None" "curPageNo h = last ps"
    and link: "linked w (filePtr h) (headerPageNo h) (last ps) n hp p pg w'" and pp: "holds w' (filePtr h) n pp"
    and key: "bht_valid (hashTable w) (filePtr h, n)"
  shows "hf_open w' (h\<lparr>hdrDirtyFlag := True, hf_curPage := pp, curPageNo := n, curDirtyFlag := True\<rparr>) (ps @ [n])"
proof -
  let ?f = "filePtr h" and ?l = "last ps" and ?hn = "headerPageNo h"
  note od = hf_openD [OF op]
  note lh = linked_heap [OF op link]
  have lmem: "?l \<in> set ps" using od(2) by (cases ps) auto
  have "buf_legal w' (?f, q)" if "q \<in> set (?hn # ps @ [n])" for q
    using that od(5) key link by (auto simp: buf_legal_def linked_def env_same_def)
  then have "heap_file w' ?f ?hn (ps @ [n])" unfolding heap_file_def using lh by (intro conjI exI [of _ "page_img (longer_header hp n)"]) auto
  moreover have "clean w' ?f q" if q: "q \<in> set ps" for q
  proof (cases "q = ?l")
    case True
    then show ?thesis using link by (simp add: linked_def)
  next
    case False
    then have "clean w ?f q" "q \<noteq> ?hn" "q \<in> used_pages ?f w" using op q cur od(4,5) by (auto simp: hf_open_def buf_legal_def)
    then show ?thesis using link unfolding linked_def by blast
  qed
  moreover have "holds w' ?f ?hn (headerPage h)" using link od(4,6) lmem unfolding linked_def by (metis prod.inject)
  moreover have "pp \<noteq> None" "pool_ok w'" using pp link by (auto simp: holds_def linked_def)
  ultimately show ?thesis using pp by (auto simp: hf_open_def)
qed

lemma store_same: "frame_at w pp = Some pg \<Longrightarrow> store_at w pp pg = Some w"
  by (auto simp: frame_at_def store_at_def set_frame_def split: option.splits if_splits)

text \<open>An object that inserts at the end of the file, and what it needs to take a new page.\<close>

definition at_end :: "'a buf_state_scheme \<Rightarrow> HeapFile \<Rightarrow> int list \<Rightarrow> bool" where
  "at_end w h ps \<longleftrightarrow> hf_open w h ps \<and> hf_curPage h \<noteq> None \<and> curPageNo h = last ps"

definition can_grow :: "'a buf_state_scheme \<Rightarrow> ptr \<Rightarrow> bool" where
  "can_grow w f \<longleftrightarrow> \<not> all_pinned w \<and> \<not> file_full f w \<and> bht_valid (hashTable w) (f, next_page f w)"

text \<open>The file of an object has a new record, and no other file has changed.\<close>

definition rec_added :: "'a buf_state_scheme \<Rightarrow> HeapFile \<Rightarrow> int list \<Rightarrow> RID \<Rightarrow> byte list \<Rightarrow> 'a buf_state_scheme \<Rightarrow> HeapFile \<Rightarrow> int list \<Rightarrow> bool" where
  "rec_added w h ps rid b w' h' ps' \<longleftrightarrow> at_end w' h' ps' \<and> filePtr h' = filePtr h \<and> headerPageNo h' = headerPageNo h \<and>
     recs_of w h ps rid = None \<and> recs_of w' h ps' = (recs_of w h ps)(rid \<mapsto> b) \<and> env_same w w' \<and>
     (\<forall>g q. g \<noteq> filePtr h \<longrightarrow> lpage w' g q = lpage w g q) \<and>
     (\<forall>g. used_pages g w' = used_pages g w \<union> (if g = filePtr h then set ps' - set ps else {})) \<and>
     (\<forall>g q. g \<noteq> filePtr h \<longrightarrow> q \<in> used_pages g w \<longrightarrow> clean w g q \<longrightarrow> clean w' g q) \<and>
     (\<forall>g q. pins w' g q = pins w g q + (if (g, q) = (filePtr h, last ps') then 1 else 0) - (if (g, q) = (filePtr h, last ps) then 1 else 0)) \<and>
     (pins w (filePtr h) (last ps) = 1 \<longrightarrow> \<not> all_pinned w \<longrightarrow> \<not> all_pinned w') \<and>
     (\<forall>g q j. holds w g q j \<longrightarrow> (g, q) \<noteq> (filePtr h, last ps) \<or> 1 < pins w (filePtr h) (last ps) \<longrightarrow> holds w' g q j) \<and>
     (\<forall>m. grows w (filePtr h) m \<longrightarrow> m < 2147483647 \<longrightarrow> grows w' (filePtr h) (m + int (length ps') - int (length ps)))"

lemma insert_full:
  assumes ae: "at_end w h ps" and b: "storable b" "length b \<le> 1000" and grow: "can_grow w (filePtr h)"
    and pg: "frame_at w (hf_curPage h) = Some pg" and full: "freeSpace pg < int (length b) + 4"
  defines "n \<equiv> next_page (filePtr h) w"
  shows "\<exists>rid h' w'. insertRecord w h \<lparr>rec_data = b, rec_length = int (length b)\<rparr> out = Some (OK, rid, h', w') \<and>
     rec_added w h ps rid b w' h' (ps @ [n])"
proof -
  let ?f = "filePtr h" and ?r = "\<lparr>rec_data = b, rec_length = int (length b)\<rparr>" and ?hn = "headerPageNo h"
  have op: "hf_open w h ps" "hf_curPage h \<noteq> None" "curPageNo h = last ps" using ae by (simp_all add: at_end_def)
  have g: "\<not> all_pinned w" "\<not> file_full ?f w" "bht_valid (hashTable w) (?f, n)" using grow by (simp_all add: can_grow_def n_def)
  note od = hf_openD [OF op(1)]
  have lmem: "last ps \<in> set ps" using od(2) by (cases ps) auto
  have hc: "holds w ?f (last ps) (hf_curPage h)" "?hn \<noteq> last ps" "?f \<noteq> NULL" using op od(4,5) lmem by (auto simp: hf_open_def buf_legal_def)
  obtain pp w1 pg1 w2 hp w3 p w4 w5 where st: "BufMgr_allocPage w ?f 0 None = Some (OK, n, pp, w1)" "frame_at w1 pp = Some pg1"
     "store_at w1 pp (new_page pg1 n) = Some w2" "frame_at w2 (headerPage h) = Some hp" "store_at w2 (headerPage h) (longer_header hp n) = Some w3"
     "frame_at w3 (hf_curPage h) = Some p" "store_at w3 (hf_curPage h) (set_nextPage p n) = Some w4"
     "BufMgr_unPinPage w4 ?f (last ps) True = Some (OK, w5)" "holds w5 ?f n pp" and L: "linked w ?f ?hn (last ps) n hp p pg1 w5"
    using link_steps [OF od(1) hc(3) g(2,1) _ od(6) hc(1,2)] g(3) unfolding n_def by blast
  define h1 where "h1 = h\<lparr>hdrDirtyFlag := True, hf_curPage := pp, curPageNo := n, curDirtyFlag := True\<rparr>"
  have op5: "hf_open w5 h1 (ps @ [n])" unfolding h1_def by (rule linked_open [OF op L st(9) g(3)])
  obtain y where y: "frame_at w5 pp = Some y" "lpage w5 ?f n = Some (page_img y)"
    using holds_frame_at [OF _ st(9)] L unfolding linked_def by blast
  have pp: "pp \<noteq> None" using st(9) by (auto simp: holds_def)
  have fit: "int (length b) + 4 \<le> freeSpace y"
  proof -
    have "n \<noteq> ?hn" "n \<noteq> last ps" using linked_heap(3) [OF op(1) L] lmem by auto
    then have "page_img y = page_img (new_page pg1 n)" using L y(2) unfolding linked_def by auto
    then have "freeSpace y = freeSpace (new_page pg1 n)" by (metis page_img_fields(3))
    then show ?thesis using page_init_link(5) [of n pg1] L b(2) by (simp add: linked_def)
  qed
  obtain k x w6 w' where r: "Page_insertRecord y ?r NULLRID = Some (OK, x, RID n (int k))" "store_at w5 pp x = Some w6"
     "count_record w6 (headerPage h) = Some w'" "hf_open w' (h1\<lparr>hdrDirtyFlag := True, curDirtyFlag := True\<rparr>) (ps @ [n])"
     "recs_of w5 h1 (ps @ [n]) (RID n (int k)) = None" "recs_of w' h1 (ps @ [n]) = (recs_of w5 h1 (ps @ [n]))(RID n (int k) \<mapsto> b)" "env_same w5 w'"
     "pins w' = pins w5" "\<forall>g q. g \<noteq> ?f \<longrightarrow> lpage w' g q = lpage w5 g q" "\<forall>g. used_pages g w' = used_pages g w5" "all_pinned w' = all_pinned w5"
     "lpage w' ?f 0 = lpage w5 ?f 0" "\<forall>g q. g \<noteq> ?f \<longrightarrow> clean w5 g q \<longrightarrow> clean w' g q" "\<forall>g q j. holds w' g q j = holds w5 g q j"
    using place_record [OF op5 _ b(1) _ fit] y(1) pp by (auto simp: h1_def)
  have len: "int (length b) mod 2 ^ 32 = int (length b)" using b(2) by simp
  let ?h = "h\<lparr>hdrDirtyFlag := True, hf_curPage := pp, curPageNo := n, curDirtyFlag := True\<rparr>"
  have "insertRecord w h ?r out = Some (OK, RID n (int k), ?h, w')"
    using op(2,3) pg insert_nospace [of "int (length b)" pg b NULLRID] b full len store_same [OF pg] st(1-8) y(1) r(1-3)
    by (auto simp: insertRecord_def Page_setNextPage_def int_ok_def Let_def)
  moreover have "rec_added w h ps (RID n (int k)) b w' ?h (ps @ [n])"
  proof -
    have "env_same w w'" using L r(7) env_same_trans unfolding linked_def by blast
    moreover have "recs_of w' h (ps @ [n]) = (recs_of w h ps)(RID n (int k) \<mapsto> b)" "recs_of w h ps (RID n (int k)) = None"
      using r(5,6) linked_heap(2) [OF op(1) L] by (simp_all add: h1_def)
    moreover have "h1\<lparr>hdrDirtyFlag := True, curDirtyFlag := True\<rparr> = ?h" by (cases h) (simp add: h1_def)
    then have "at_end w' ?h (ps @ [n])" using r(4) pp by (simp add: at_end_def)
    moreover have "n \<notin> set ps" using linked_heap(3) [OF op(1) L] by simp
    moreover have "grows w' ?f (m + 1)" if "grows w ?f m" "m < 2147483647" for m
    proof -
      have "grows w5 ?f (m + 1)" "pool_ok w5" using L that unfolding linked_def by blast+
      then show ?thesis using grows_same [OF _ hf_openD(1) [OF r(4)]] r(12) by blast
    qed
    moreover have "clean w' g q" if "g \<noteq> ?f" "q \<in> used_pages g w" "clean w g q" for g q
      using L r(13) that unfolding linked_def by blast
    moreover have "holds w' g q j" if "holds w g q j" "(g, q) \<noteq> (?f, last ps) \<or> 1 < pins w ?f (last ps)" for g q j
      using L r(14) that unfolding linked_def by blast
    ultimately show ?thesis using L r(8-11) unfolding rec_added_def linked_def by (auto simp: op(3))
  qed
  ultimately show ?thesis by blast
qed

lemma insert_spec:
  assumes ae: "at_end w h ps" and b: "storable b" "length b \<le> 1000" and grow: "can_grow w (filePtr h)"
  shows "\<exists>rid h' w' ps'. insertRecord w h \<lparr>rec_data = b, rec_length = int (length b)\<rparr> out = Some (OK, rid, h', w') \<and>
     rec_added w h ps rid b w' h' ps' \<and> (ps' = ps \<or> ps' = ps @ [next_page (filePtr h) w])"
proof -
  have op: "hf_open w h ps" "hf_curPage h \<noteq> None" "curPageNo h = last ps" using ae by (simp_all add: at_end_def)
  obtain pg where pg: "frame_at w (hf_curPage h) = Some pg" by (rule hf_open_current [OF op(1,2)])
  show ?thesis
  proof (cases "int (length b) + 4 \<le> freeSpace pg")
    case True
    have "length b \<le> 1004" using b(2) by simp
    from insert_here [OF op(1,2) b(1) this pg True, of out] obtain k w' where
      r: "insertRecord w h \<lparr>rec_data = b, rec_length = int (length b)\<rparr> out =
          Some (OK, RID (curPageNo h) (int k), h\<lparr>hdrDirtyFlag := True, curDirtyFlag := True\<rparr>, w')"
        "hf_open w' (h\<lparr>hdrDirtyFlag := True, curDirtyFlag := True\<rparr>) ps" "recs_of w h ps (RID (curPageNo h) (int k)) = None"
        "recs_of w' h ps = (recs_of w h ps)(RID (curPageNo h) (int k) \<mapsto> b)" "env_same w w'" "pins w' = pins w"
        "\<forall>g q. g \<noteq> filePtr h \<longrightarrow> lpage w' g q = lpage w g q" "\<forall>g. used_pages g w' = used_pages g w" "all_pinned w' = all_pinned w"
        "lpage w' (filePtr h) 0 = lpage w (filePtr h) 0" "\<forall>g q. g \<noteq> filePtr h \<longrightarrow> clean w g q \<longrightarrow> clean w' g q" "\<forall>g q j. holds w' g q j = holds w g q j"
      by blast
    moreover have "grows w' (filePtr h) m" if "grows w (filePtr h) m" for m
      using grows_same [OF hf_openD(1) [OF op(1)] hf_openD(1) [OF r(2)] r(10) that] .
    ultimately have "rec_added w h ps (RID (curPageNo h) (int k)) b w' (h\<lparr>hdrDirtyFlag := True, curDirtyFlag := True\<rparr>) ps"
      using op by (simp add: rec_added_def at_end_def)
    then show ?thesis using r(1) by blast
  next
    case False
    then show ?thesis using insert_full [OF ae b grow pg, of out] by auto
  qed
qed

section \<open>Deletion\<close>

text \<open>Deleting lowers the count of the header whether or not the page had the record.\<close>

lemma delete_run:
  assumes op: "hf_open w s ps" and cur: "hf_curPage s \<noteq> None" and pg: "frame_at w (hf_curPage s) = Some pg"
    and del: "Page_deleteRecord pg (curRec s) = Some (st, x)"
  shows "\<exists>w1 hp w2. HeapFileScan_deleteRecord w s = Some (st, s\<lparr>hdrDirtyFlag := True, curDirtyFlag := True\<rparr>, w2) \<and>
     page_changed w (filePtr s) (curPageNo s) x w1 \<and> page_changed w1 (filePtr s) (headerPageNo s) (set_hdr_recCnt hp (hdr_recCnt hp - 1)) w2 \<and>
     hdr_ok hp (lpage w (filePtr s)) ps"
proof -
  let ?f = "filePtr s" and ?p = "curPageNo s" and ?hn = "headerPageNo s"
  note od = hf_openD [OF op]
  obtain q where q: "?p \<in> set ps" "holds w ?f ?p (hf_curPage s)" by (rule hf_open_current [OF op cur])
  obtain w1 where w1: "store_at w (hf_curPage s) x = Some w1" "page_changed w ?f ?p x w1" using store_changed [OF od(1) q(2)] by blast
  obtain hp0 where hp0: "frame_at w (headerPage s) = Some hp0" "hdr_ok hp0 (lpage w ?f) ps" by (rule hf_open_header [OF op])
  have ne: "(?f, ?hn) \<noteq> (?f, ?p)" using od(4) q(1) by auto
  obtain hp where hp: "frame_at w1 (headerPage s) = Some hp" "page_img hp = page_img hp0"
    using frame_at_changed [OF w1(2) od(1,6) ne hp0(1)] by blast
  have ok1: "pool_ok w1" "holds w1 ?f ?hn (headerPage s)" using w1(2) od(6) by (simp_all add: page_changed_def)
  let ?hp = "set_hdr_recCnt hp (hdr_recCnt hp - 1)"
  obtain w2 where w2: "store_at w1 (headerPage s) ?hp = Some w2" "page_changed w1 ?f ?hn ?hp w2" using store_changed [OF ok1] by blast
  have "s\<lparr>curDirtyFlag := True, hdrDirtyFlag := True\<rparr> = s\<lparr>hdrDirtyFlag := True, curDirtyFlag := True\<rparr>" by (cases s) simp
  then have "HeapFileScan_deleteRecord w s = Some (st, s\<lparr>hdrDirtyFlag := True, curDirtyFlag := True\<rparr>, w2)"
    using pg del w1(1) hp(1) w2(1) by (simp add: HeapFileScan_deleteRecord_def)
  moreover have "hdr_ok hp (lpage w ?f) ps" using hp0(2) hp(2) hdr_ok_img by metis
  ultimately show ?thesis using w1(2) w2(2) by blast
qed

lemma delete_spec:
  assumes op: "hf_open w s ps" and cur: "hf_curPage s \<noteq> None" "curRec s = RID (curPageNo s) (int k)" "recs_of w s ps (curRec s) = Some b"
  shows "\<exists>w'. HeapFileScan_deleteRecord w s = Some (OK, s\<lparr>hdrDirtyFlag := True, curDirtyFlag := True\<rparr>, w') \<and>
     hf_open w' (s\<lparr>hdrDirtyFlag := True, curDirtyFlag := True\<rparr>) ps \<and> recs_of w' s ps = (recs_of w s ps)(curRec s := None) \<and>
     env_same w w' \<and> pins w' = pins w \<and> (\<forall>g q. g \<noteq> filePtr s \<longrightarrow> lpage w' g q = lpage w g q)"
proof -
  let ?f = "filePtr s" and ?p = "curPageNo s" and ?hn = "headerPageNo s"
  note od = hf_openD [OF op]
  obtain pg where pg: "frame_at w (hf_curPage s) = Some pg" "lpage w ?f ?p = Some (page_img pg)" "page_inv pg" "curPage pg = ?p" "?p \<in> set ps"
    by (rule hf_open_current [OF op cur(1)])
  have b: "page_recs pg k = Some b" using cur(2,3) pg by (simp add: heap_recs_def page_img_recs)
  then have lv: "live pg k" using dom_page_recs [of pg] by blast
  obtain x where x: "Page_deleteRecord pg (curRec s) = Some (OK, x)" "deleted pg k x"
    by (rule delete_live [OF pg(3) lv, of "curRec s"]) (use cur(2) in auto)
  have px: "page_inv x" "page_recs x = (page_recs pg)(k := None)" "curPage x = curPage pg" "nextPage x = nextPage pg"
    using delete_preserves [OF pg(3) lv x(2)] x(2) by (auto simp: deleted_def)
  obtain w1 hp w2 where r: "HeapFileScan_deleteRecord w s = Some (OK, s\<lparr>hdrDirtyFlag := True, curDirtyFlag := True\<rparr>, w2)"
     "page_changed w ?f ?p x w1" "page_changed w1 ?f ?hn (set_hdr_recCnt hp (hdr_recCnt hp - 1)) w2" "hdr_ok hp (lpage w ?f) ps"
    using delete_run [OF op cur(1) pg(1) x(1)] by blast
  let ?hp = "set_hdr_recCnt hp (hdr_recCnt hp - 1)"
  have lp: "lpage w2 ?f = (lpage w ?f)(?p \<mapsto> page_img x, ?hn \<mapsto> page_img ?hp)"
    using page_changed_lpage [OF r(2)] page_changed_lpage [OF r(3)] by simp
  have sub: "lpage w2 ?f y = ((lpage w ?f)(?p \<mapsto> page_img x)) y" if "y \<in> set ps" for y using that od(4) unfolding lp by auto
  have rec: "recs_of w2 s ps = (recs_of w s ps)(curRec s := None)"
    using heap_recs_cong [of ps "lpage w2 ?f" "(lpage w ?f)(?p \<mapsto> page_img x)", OF sub]
      heap_recs_page [where P = "lpage w ?f", OF pg(5,2), of "page_img x" k None] px pg(3) cur(2)
    by (simp add: page_img_recs del: fun_upd_apply)
  have ch: "chain (lpage w2 ?f) ps"
    using chain_cong [of ps "lpage w2 ?f" "(lpage w ?f)(?p \<mapsto> page_img x)", OF sub] chain_update [OF od(2) pg(2), of "page_img x"] px by simp
  have fin: "finite (dom (recs_of w s ps))" "length (heap_rids (lpage w ?f) ps) = card (dom (recs_of w s ps))" using heap_len [OF od(2,3)] by auto
  have "card (dom (recs_of w s ps)) = Suc (card (dom (recs_of w s ps) - {curRec s}))"
    by (rule card.remove [OF fin(1)]) (use cur(3) in blast)
  then have "length (heap_rids (lpage w ?f) ps) = length (heap_rids (lpage w2 ?f) ps) + 1"
    using heap_len [OF ch od(3)] fin(2) unfolding rec by (simp add: dom_fun_upd)
  then have hd: "hdr_ok ?hp (lpage w2 ?f) ps" by (rule hdr_recCnt_less [OF r(4)])
  have "hf_open w2 (s\<lparr>hdrDirtyFlag := True, curDirtyFlag := True\<rparr>) ps" by (rule hf_open_change [OF op cur(1) r(2,3) ch hd])
  moreover have "env_same w w2" using r(2,3) env_same_trans by (auto simp: page_changed_def)
  moreover have "pins w2 = pins w" "\<forall>g q. g \<noteq> ?f \<longrightarrow> lpage w2 g q = lpage w g q" using r(2,3) by (simp_all add: page_changed_def)
  ultimately show ?thesis using r(1) rec by (intro exI [of _ w2]) simp
qed

section \<open>Access by record identifier\<close>

lemma get_on_page:
  assumes inv: "page_inv pg" and r: "0 \<le> slotNo rid"
  shows "\<exists>ref. Page_getRecord pg rid rec = Some (if page_recs pg (nat (slotNo rid)) = None then INVALIDSLOTNO else OK, ref) \<and>
     (\<forall>b. page_recs pg (nat (slotNo rid)) = Some b \<longrightarrow> deref pg ref = Some \<lparr>rec_data = b, rec_length = int (length b)\<rparr>)"
proof -
  have k: "slotNo rid = int (nat (slotNo rid))" using r by simp
  show ?thesis
    using getRecord_eq [OF inv k, of rec] deref_live [OF inv, of "nat (slotNo rid)"] page_inv_liveD [OF inv, of "nat (slotNo rid)"]
    by (auto simp: page_recs_def)
qed

lemma get_spec:
  assumes op: "hf_open w h ps" and rid: "pageNo rid \<in> set ps" "0 \<le> slotNo rid"
    and free: "if hf_curPage h = None then \<not> all_pinned w else movable w (filePtr h) (curPageNo h)"
  shows "\<exists>ref h' w'. HeapFile_getRecord w h rid rec = Some (if recs_of w h ps rid = None then INVALIDSLOTNO else OK, ref, h', w') \<and>
     hf_open w' h' ps \<and> hf_curPage h' \<noteq> None \<and> curPageNo h' = pageNo rid \<and> curRec h' = rid \<and> filePtr h' = filePtr h \<and> view_same w w' \<and>
     (\<forall>b. recs_of w h ps rid = Some b \<longrightarrow> (\<exists>pg. frame_at w' (hf_curPage h') = Some pg \<and> deref pg ref = Some \<lparr>rec_data = b, rec_length = int (length b)\<rparr>))"
proof (cases "hf_curPage h \<noteq> None \<and> pageNo rid = curPageNo h")
  case True
  note od = hf_openD [OF op]
  obtain pg where pg: "frame_at w (hf_curPage h) = Some pg" "lpage w (filePtr h) (curPageNo h) = Some (page_img pg)" "page_inv pg"
    by (rule hf_open_current [OF op]) (use True in auto)
  have rr: "recs_of w h ps rid = page_recs pg (nat (slotNo rid))" using rid pg True by (simp add: heap_recs_def page_img_recs)
  obtain ref where ref: "Page_getRecord pg rid rec = Some (if page_recs pg (nat (slotNo rid)) = None then INVALIDSLOTNO else OK, ref)"
     "\<forall>b. page_recs pg (nat (slotNo rid)) = Some b \<longrightarrow> deref pg ref = Some \<lparr>rec_data = b, rec_length = int (length b)\<rparr>"
    using get_on_page [OF pg(3) rid(2)] by blast
  have "hf_open w (h\<lparr>curRec := rid\<rparr>) ps" using op by (simp add: hf_open_def)
  then show ?thesis
    using True pg(1) ref rr od(1)
    by (intro exI [of _ ref] exI [of _ "h\<lparr>curRec := rid\<rparr>"] exI [of _ w]) (simp add: HeapFile_getRecord_def)
next
  case False
  let ?f = "filePtr h" and ?p = "pageNo rid"
  note od = hf_openD [OF op]
  have "\<exists>w1. (if hf_curPage h \<noteq> None then BufMgr_unPinPage w ?f (curPageNo h) (curDirtyFlag h) else Some (OK, w)) = Some (OK, w1) \<and>
      view_same w w1 \<and> \<not> all_pinned w1 \<and> holds w1 ?f (headerPageNo h) (headerPage h) \<and> (\<forall>q \<in> set ps. clean w1 ?f q) \<and>
      (hdrDirtyFlag h \<or> clean w1 ?f (headerPageNo h))"
  proof (cases "hf_curPage h = None")
    case True
    then show ?thesis using free op od(1) by (intro exI [of _ w]) (simp add: hf_open_def)
  next
    case curp: False
    obtain pg where pg: "curPageNo h \<in> set ps" "holds w ?f (curPageNo h) (hf_curPage h)" by (rule hf_open_current [OF op curp])
    have "curDirtyFlag h \<or> clean w ?f (curPageNo h)" using op pg(1) by (auto simp: hf_open_def)
    from unpin_step [OF od(1) pg(2) this] obtain w1 where u: "BufMgr_unPinPage w ?f (curPageNo h) (curDirtyFlag h) = Some (OK, w1)" "view_same w w1"
      "clean w1 ?f (curPageNo h)" "\<forall>g q j. holds w g q j \<longrightarrow> (g, q) \<noteq> (?f, curPageNo h) \<or> 1 < pins w ?f (curPageNo h) \<longrightarrow> holds w1 g q j"
      "movable w ?f (curPageNo h) \<longrightarrow> \<not> all_pinned w1" by blast
    have us: "q \<in> used_pages ?f w" if "q \<in> set (headerPageNo h # ps)" for q using od(5) that by (auto simp: buf_legal_def)
    have "clean w1 ?f q" if "q \<in> set ps" for q
      using view_sameD(6) [OF u(2), of q ?f] us [of q] that u(3) op by (auto simp: hf_open_def)
    moreover have "hdrDirtyFlag h \<or> clean w1 ?f (headerPageNo h)" using view_sameD(6) [OF u(2)] us [of "headerPageNo h"] op by (auto simp: hf_open_def)
    moreover have "holds w1 ?f (headerPageNo h) (headerPage h)" using u(4) od(4,6) pg(1) by (metis prod.inject)
    ultimately show ?thesis using u curp free by (intro exI [of _ w1]) simp
  qed
  then obtain w1 where u: "(if hf_curPage h \<noteq> None then BufMgr_unPinPage w ?f (curPageNo h) (curDirtyFlag h) else Some (OK, w)) = Some (OK, w1)"
      "view_same w w1" "\<not> all_pinned w1" "holds w1 ?f (headerPageNo h) (headerPage h)" "\<forall>q \<in> set ps. clean w1 ?f q"
      "hdrDirtyFlag h \<or> clean w1 ?f (headerPageNo h)" by blast
  have l1: "pool_ok w1" "buf_legal w1 (?f, ?p)" using view_sameD(1) [OF u(2)] view_same_legal [OF u(2)] od(5) rid(1) by simp_all
  obtain cp w2 where r: "BufMgr_readPage w1 ?f ?p (hf_curPage h) = Some (OK, cp, w2)" "view_same w1 w2" "holds w2 ?f ?p cp"
     "\<forall>g x j. holds w1 g x j \<longrightarrow> holds w2 g x j"
    using read_step [OF l1 u(3), of "hf_curPage h"] by blast
  note v = view_same_trans [OF u(2) r(2)]
  let ?h = "h\<lparr>hf_curPage := cp, curPageNo := ?p, curDirtyFlag := False, curRec := rid\<rparr>"
  have us1: "q \<in> used_pages ?f w1" if "q \<in> set (headerPageNo h # ps)" for q
    using od(5) that view_sameD(3) [OF u(2), of ?f] by (auto simp: buf_legal_def)
  have "clean w2 ?f q" if "q \<in> set ps" for q using view_sameD(6) [OF r(2), of q ?f] us1 [of q] that u(5) by auto
  moreover have "hdrDirtyFlag h \<or> clean w2 ?f (headerPageNo h)" using view_sameD(6) [OF r(2), of "headerPageNo h" ?f] us1 [of "headerPageNo h"] u(6) by auto
  ultimately have op2: "hf_open w2 ?h ps"
    using op rid(1) r(3,4) u(4) view_sameD(1,2) [OF v] view_same_legal [OF v] by (simp add: hf_open_def heap_file_def)
  obtain pg where pg: "frame_at w2 cp = Some pg" "lpage w2 ?f ?p = Some (page_img pg)" "page_inv pg"
    by (rule hf_open_current [OF op2]) (use r(3) in \<open>auto simp: holds_def\<close>)
  have rr: "recs_of w h ps rid = page_recs pg (nat (slotNo rid))"
    using rid pg view_sameD(2) [OF v] by (simp add: heap_recs_def page_img_recs)
  obtain ref where ref: "Page_getRecord pg rid rec = Some (if page_recs pg (nat (slotNo rid)) = None then INVALIDSLOTNO else OK, ref)"
     "\<forall>b. page_recs pg (nat (slotNo rid)) = Some b \<longrightarrow> deref pg ref = Some \<lparr>rec_data = b, rec_length = int (length b)\<rparr>"
    using get_on_page [OF pg(3) rid(2)] by blast
  have "HeapFile_getRecord w h rid rec = Some (if recs_of w h ps rid = None then INVALIDSLOTNO else OK, ref, ?h, w2)"
    unfolding HeapFile_getRecord_def if_not_P [OF False] u(1) using r(1) pg(1) ref(1) rr by simp
  moreover have "cp \<noteq> None" using r(3) by (auto simp: holds_def)
  ultimately show ?thesis using op2 v ref(2) rr pg(1) by (intro exI [of _ ref] exI [of _ ?h] exI [of _ w2]) simp
qed

end
