(* ===== verification/HeapObj.thy ===== *)
theory HeapObj
  imports HeapOps
begin

text \<open>
  Heap files as objects with a lifetime: creating a heap file, the constructors that open it and
  pin its pages, and the destructors that give the pages back and close it.
\<close>

section \<open>Counting pinned frames\<close>

definition pinned_pages :: "'a buf_state_scheme \<Rightarrow> (ptr \<times> int) set" where
  "pinned_pages w = {k. 0 < pins w (fst k) (snd k)}"

text \<open>At least \<open>n\<close> frames hold no pinned page.\<close>

definition spare :: "'a buf_state_scheme \<Rightarrow> nat \<Rightarrow> bool" where
  "spare w n \<longleftrightarrow> card (pinned_pages w) + n \<le> frames w"

lemma pinned_pages_frames:
  assumes "buf_inv w"
  shows "pinned_pages w = (\<lambda>i. desc_key (bufTable w ! i)) ` {i. i < frames w \<and> valid (bufTable w ! i) \<and> pinCnt (bufTable w ! i) \<noteq> 0}" (is "?L = ?R")
proof (intro set_eqI iffI)
  fix k
  assume "k \<in> ?L"
  then have "0 < pins w (fst k) (snd k)" by (simp add: pinned_pages_def)
  then obtain i where "i < frames w" "valid (bufTable w ! i)" "desc_key (bufTable w ! i) = (fst k, snd k)" "pinCnt (bufTable w ! i) = pins w (fst k) (snd k)"
    by (rule pins_frame [OF assms])
  then show "k \<in> ?R" using \<open>0 < pins w (fst k) (snd k)\<close> by force
next
  fix k
  assume "k \<in> ?R"
  then obtain i where i: "i < frames w" "valid (bufTable w ! i)" "pinCnt (bufTable w ! i) \<noteq> 0" "k = desc_key (bufTable w ! i)" by auto
  then have "frame_of w k = Some (int i)" using valid_frame_of [OF assms] by simp
  moreover have "0 \<le> pinCnt (bufTable w ! i)" using buf_inv_desc [OF assms i(1)] by (simp add: desc_ok_def)
  ultimately show "k \<in> ?L" using i(3) by (simp add: pinned_pages_def pins_def)
qed

lemma card_below: "I \<subseteq> {..<n :: nat} \<Longrightarrow> card I \<le> n \<and> (card I = n \<longleftrightarrow> I = {..<n})"
  using card_mono [of "{..<n}" I] card_subset_eq [of "{..<n}" I] by auto

lemma card_pinned_pages:
  assumes "buf_inv w"
  shows "finite (pinned_pages w) \<and> card (pinned_pages w) \<le> frames w \<and> (all_pinned w \<longleftrightarrow> card (pinned_pages w) = frames w)"
proof -
  let ?I = "{i. i < frames w \<and> valid (bufTable w ! i) \<and> pinCnt (bufTable w ! i) \<noteq> 0}"
  have "inj_on (\<lambda>i. desc_key (bufTable w ! i)) ?I" by (rule inj_onI) (use frame_unique [OF assms] in auto)
  then have c: "card (pinned_pages w) = card ?I" unfolding pinned_pages_frames [OF assms] by (rule card_image)
  have "?I \<subseteq> {..<frames w}" by blast
  note card_below [OF this]
  moreover have "finite (pinned_pages w)" unfolding pinned_pages_frames [OF assms] by simp
  moreover have "all_pinned w \<longleftrightarrow> ?I = {..<frames w}" unfolding all_pinned_nth by blast
  ultimately show ?thesis unfolding c by blast
qed

lemma spare_free: "pool_ok w \<Longrightarrow> spare w (Suc n) \<Longrightarrow> \<not> all_pinned w"
  using card_pinned_pages [of w] by (auto simp: spare_def pool_ok_def)

lemma spare_pin:
  assumes "spare w (Suc n)" "pool_ok w" "frames w' = frames w" "\<And>g q. (g, q) \<noteq> k \<Longrightarrow> pins w' g q = pins w g q"
  shows "spare w' n"
proof -
  have "j \<in> insert k (pinned_pages w)" if "j \<in> pinned_pages w'" for j
    using assms(4) [of "fst j" "snd j"] that by (cases "j = k") (auto simp: pinned_pages_def)
  then have "pinned_pages w' \<subseteq> insert k (pinned_pages w)" by blast
  moreover have "finite (pinned_pages w)" using card_pinned_pages [of w] assms(2) by (simp add: pool_ok_def)
  ultimately have "card (pinned_pages w') \<le> Suc (card (pinned_pages w))"
    using card_mono [of "insert k (pinned_pages w)" "pinned_pages w'"] card_insert_le_m1 [of "Suc (card (pinned_pages w))" "pinned_pages w" k]
    by (simp add: card_insert_if split: if_splits)
  then show ?thesis using assms(1,3) by (simp add: spare_def)
qed

lemma spare_le:
  assumes "spare w n" "pool_ok w" "frames w' = frames w" "\<And>g q. pins w' g q \<le> pins w g q"
  shows "spare w' n"
proof -
  have "pinned_pages w' \<subseteq> pinned_pages w" using assms(4) by (auto simp: pinned_pages_def intro: less_le_trans)
  moreover have "finite (pinned_pages w)" using card_pinned_pages [of w] assms(2) by (simp add: pool_ok_def)
  ultimately have "card (pinned_pages w') \<le> card (pinned_pages w)" by (rule card_mono [rotated])
  then show ?thesis using assms(1,3) by (simp add: spare_def)
qed

section \<open>Contents of files by name\<close>

text \<open>The current contents of a named file, whether it is open or not, and the pages in use.\<close>

definition file_view :: "'a db_state_scheme \<Rightarrow> string \<Rightarrow> int \<Rightarrow> page option" where
  "file_view w nm = (case oft_map (openFiles w) nm of Some f \<Rightarrow> lpage w f | None \<Rightarrow> name_page w nm)"

definition file_used :: "'a db_state_scheme \<Rightarrow> string \<Rightarrow> int set" where
  "file_used w nm = (case disk w nm of None \<Rightarrow> {} | Some u \<Rightarrow> in_use u)"

text \<open>The address of the file object that the next \<open>openFile\<close> of a name returns.\<close>

definition handle :: "'a db_state_scheme \<Rightarrow> string \<Rightarrow> ptr" where
  "handle w nm = (case oft_map (openFiles w) nm of Some f \<Rightarrow> f | None \<Rightarrow> newAddr w (newCnt w))"

definition can_open :: "'a db_state_scheme \<Rightarrow> string \<Rightarrow> bool" where
  "can_open w nm \<longleftrightarrow> nm \<noteq> [] \<and> disk w nm \<noteq> None \<and>
     (oft_map (openFiles w) nm = None \<longrightarrow> newAddr w (newCnt w) \<noteq> NULL \<and> files w (newAddr w (newCnt w)) = None)"

lemma db_inv_pool: "db_inv w \<Longrightarrow> pool_ok w"
  by (simp add: db_inv_def pool_ok_def)

lemma db_inv_env: "db_inv w \<Longrightarrow> pool_ok w' \<Longrightarrow> env_same w w' \<Longrightarrow> db_inv w'"
  using db_inv_frame [of w w'] by (simp add: pool_ok_def env_same_def)

lemma open_name_disk: "db_inv w \<Longrightarrow> file_name w f = Some nm \<Longrightarrow> used_pages f w = file_used w nm"
  by (simp add: used_pages_def file_used_def file_of_def)

lemma open_name_table: "db_inv w \<Longrightarrow> file_name w f = Some nm \<longleftrightarrow> oft_map (openFiles w) nm = Some f"
  using db_inv_file_name [of w f] db_inv_obj [of w f] db_inv_table [of w nm f] by (auto simp: file_obj_ok_def)

lemma not_open_not_buffered:
  assumes "db_inv w" "files w f = None"
  shows "frame_of w (f, p) = None"
proof (cases "frame_of w (f, p)")
  case (Some j)
  then have "nat j < frames w" "valid (bufTable w ! nat j)" "bd_file (bufTable w ! nat j) = f"
    using buf_inv_frame_of [of w "(f, p)" j] assms(1) by (auto simp: db_inv_def desc_key_def)
  then show ?thesis using valid_frame_open [of w "nat j"] assms by (simp add: db_inv_def)
qed

lemma same_file_name:
  assumes "db_inv w" "db_inv w'" "\<And>x. oft_map (openFiles w') x = Some g \<longleftrightarrow> oft_map (openFiles w) x = Some g"
  shows "file_name w' g = file_name w g"
  using open_name_table [OF assms(1), of g] open_name_table [OF assms(2), of g] assms(3) by (metis not_Some_eq)

lemma clean_same_pool:
  "same_pool w w' \<Longrightarrow> (frame_of w (g, p) \<noteq> None \<Longrightarrow> disk_page w' g p = disk_page w g p) \<Longrightarrow> clean w g p \<Longrightarrow> clean w' g p"
  by (auto simp: clean_def same_pool_def)

text \<open>What opening a file gives: its contents under the handle, nothing pinned, all else as before.\<close>

definition opened :: "'a db_state_scheme \<Rightarrow> string \<Rightarrow> 'a db_state_scheme \<Rightarrow> bool" where
  "opened w nm w' \<longleftrightarrow> db_inv w' \<and> oft_map (openFiles w') = (oft_map (openFiles w))(nm \<mapsto> handle w nm) \<and> lpage w' (handle w nm) = file_view w nm \<and>
     (\<forall>g. g \<noteq> handle w nm \<longrightarrow> files w' g = files w g \<and> lpage w' g = lpage w g) \<and> pins w' = pins w \<and> same_pool w w' \<and> disk w' = disk w \<and>
     open_count w' (handle w nm) = open_count w (handle w nm) + 1 \<and> (\<forall>g p. clean w g p \<longrightarrow> clean w' g p) \<and>
     newAddr w' = newAddr w \<and> newCnt w' = newCnt w + (if oft_map (openFiles w) nm = None then 1 else 0)"

lemma open_spec:
  assumes inv: "db_inv w" and can: "can_open w nm"
  shows "\<exists>w'. DB_openFile w nm fp = Some (OK, handle w nm, w') \<and> opened w nm w'"
proof (cases "oft_map (openFiles w) nm")
  case (Some f)
  have h: "handle w nm = f" using Some by (simp add: handle_def)
  obtain w' where o: "DB_openFile w nm fp = Some (OK, f, w')" "db_inv w'" "open_count w' f = open_count w f + 1"
     "\<forall>g. g \<noteq> f \<longrightarrow> files w' g = files w g" "openFiles w' = openFiles w" "lpage w' = lpage w" "pins w' = pins w" "same_pool w w'" "disk w' = disk w"
     "disk_page w' = disk_page w" "newAddr w' = newAddr w" "newCnt w' = newCnt w"
  proof -
    obtain fo where fo: "files w f = Some fo" using db_inv_table [OF inv Some] by blast
    obtain w' where w': "DB_openFile w nm fp = Some (OK, f, w')" "db_inv w'" "open_count w' f = open_count w f + 1"
       "\<forall>g. g \<noteq> f \<longrightarrow> files w' g = files w g" "openFiles w' = openFiles w" "lpage w' = lpage w" "pins w' = pins w" "same_pool w w'"
      using open_again [OF inv Some, of fp] can by (auto simp: can_open_def)
    have "disk w' = disk w" "newAddr w' = newAddr w" "newCnt w' = newCnt w"
      using w'(1) can Some fo by (auto simp: DB_openFile_def find_open [OF inv] File_open_def sys_open_def Let_def can_open_def split: if_splits option.splits)
    moreover have "file_name w' = file_name w" by (rule ext, rule same_file_name [OF inv w'(2)]) (simp add: w'(5))
    then have "disk_page w' = disk_page w" using names_cong(2) \<open>disk w' = disk w\<close> by blast
    ultimately show thesis using that w' by blast
  qed
  have "clean w' g p" if "clean w g p" for g p using that o(10) clean_same_pool [OF o(8)] by simp
  then show ?thesis using o Some by (intro exI [of _ w']) (simp add: opened_def h file_view_def fun_upd_idem)
next
  case None
  let ?f = "newAddr w (newCnt w)"
  have h: "handle w nm = ?f" using None by (simp add: handle_def)
  obtain u where u: "disk w nm = Some u" "nm \<noteq> []" "?f \<noteq> NULL" "files w ?f = None" using can None by (auto simp: can_open_def)
  obtain w' where o: "DB_openFile w nm fp = Some (OK, ?f, w')" "db_inv w'" "open_count w' ?f = 1"
     "oft_map (openFiles w') = (oft_map (openFiles w))(nm \<mapsto> ?f)" "disk w' = disk w" "\<forall>g. g \<noteq> ?f \<longrightarrow> files w' g = files w g"
     "\<forall>g q. lpage w' g q = (if g = ?f then name_page w nm q else lpage w g q)" "pins w' = pins w" "same_pool w w'"
     "newAddr w' = newAddr w" "newCnt w' = newCnt w + 1"
    using open_new [OF inv u(2) None u(1) refl u(3,4), of fp] by blast
  have "clean w' g p" if "clean w g p" for g p
  proof (rule clean_same_pool [OF o(9) _ that])
    assume "frame_of w (g, p) \<noteq> None"
    then have "g \<noteq> ?f" using not_open_not_buffered [OF inv u(4), of p] by auto
    then have "file_name w' g = file_name w g" by (intro same_file_name [OF inv o(2)]) (use o(4) None in auto)
    then show "disk_page w' g p = disk_page w g p" using o(5) by (simp add: disk_page_def file_of_def)
  qed
  moreover have "open_count w ?f = 0" using u(4) by (simp add: open_count_def)
  ultimately show ?thesis using o None by (intro exI [of _ w']) (simp add: opened_def h file_view_def fun_eq_iff)
qed


lemma opened_used:
  assumes inv: "db_inv w" and o: "opened w nm w'" and g: "g \<noteq> handle w nm"
  shows "used_pages g w' = used_pages g w"
proof -
  have o': "db_inv w'" "oft_map (openFiles w') = (oft_map (openFiles w))(nm \<mapsto> handle w nm)" "disk w' = disk w" using o by (simp_all add: opened_def)
  have "file_name w' g = file_name w g" by (rule same_file_name [OF inv o'(1)]) (use o'(2) g in \<open>auto simp: handle_def split: option.splits\<close>)
  then show ?thesis using o'(3) by (simp add: used_pages_def file_of_def)
qed

lemma open_handle_used:
  assumes "db_inv w" "q \<in> used_pages (handle w nm) w" "files w (newAddr w (newCnt w)) = None \<or> oft_map (openFiles w) nm \<noteq> None"
  shows "q \<in> file_used w nm"
proof (cases "oft_map (openFiles w) nm")
  case None
  then show ?thesis using assms used_file [OF assms(2)] file_of_files [of w] by (fastforce simp: handle_def)
next
  case (Some f)
  then have "file_name w f = Some nm" using open_name_table [OF assms(1)] by simp
  then show ?thesis using assms(2) open_name_disk [OF assms(1)] Some by (simp add: handle_def)
qed

section \<open>Opening a heap file\<close>

text \<open>A heap file on a map of pages: its header is page 1, the first page of the file.\<close>

definition heap_at :: "(int \<Rightarrow> page option) \<Rightarrow> int set \<Rightarrow> int list \<Rightarrow> bool" where
  "heap_at P U ps \<longleftrightarrow> (\<exists>hp. P 1 = Some hp \<and> hdr_ok hp P ps) \<and> chain P ps \<and> distinct (1 # ps) \<and> set (1 # ps) \<subseteq> U"

definition stored_heap :: "'a db_state_scheme \<Rightarrow> string \<Rightarrow> int list \<Rightarrow> bool" where
  "stored_heap w nm ps \<longleftrightarrow> heap_at (file_view w nm) (file_used w nm) ps"

text \<open>What opening needs: the pages have hash values in range, none of them has changes nobody has marked, and two frames are free.\<close>

definition ready :: "'a db_state_scheme \<Rightarrow> string \<Rightarrow> int list \<Rightarrow> bool" where
  "ready w nm ps \<longleftrightarrow> can_open w nm \<and> spare w 2 \<and>
     (\<forall>p \<in> set (1 # ps). bht_valid (hashTable w) (handle w nm, p) \<and> clean w (handle w nm) p)"

lemma getFirstPage_spec:
  assumes "fs_ok w" "1 \<in> used_pages f w"
  shows "File_getFirstPage w f n = Some (OK, 1)"
proof -
  obtain u where u: "file_of w f = Some u" "1 \<in> in_use u" using used_file [OF assms(2)] by blast
  have ok: "file_ok u" using assms(1) u(1) by (simp add: fs_ok_def)
  have np: "1 < npages u" using u(2) by (simp add: in_use_def)
  then have "has_page u 0" using has_page_npages [OF ok] by simp
  then obtain b where b: "File_intread w f 0 zero_mem = Some (OK, b)" "page_img b = fpage u 0" using intread_ok [OF u(1)] by blast
  have "firstPage b = firstPage (fpage u 0)" using hdr_cong [of b "fpage u 0"] b(2) by simp
  then show ?thesis using b(1) np ok by (simp add: File_getFirstPage_def file_ok_def)
qed

text \<open>The state after a constructor: header and first data page are pinned once more.\<close>

definition started :: "'a db_state_scheme \<Rightarrow> string \<Rightarrow> int list \<Rightarrow> int \<Rightarrow> 'a db_state_scheme \<Rightarrow> 'h HeapFile_scheme \<Rightarrow> bool" where
  "started w nm ps p w' h \<longleftrightarrow> db_inv w' \<and> hf_open w' h ps \<and> filePtr h = handle w nm \<and> headerPageNo h = 1 \<and> hf_curPage h \<noteq> None \<and>
     curPageNo h = p \<and> curRec h = NULLRID \<and> lpage w' (handle w nm) = file_view w nm \<and>
     (\<forall>g. g \<noteq> handle w nm \<longrightarrow> lpage w' g = lpage w g \<and> files w' g = files w g) \<and>
     (\<forall>g q. pins w' g q = pins w g q + (if (g, q) = (handle w nm, 1) then 1 else 0) + (if (g, q) = (handle w nm, p) then 1 else 0)) \<and>
     open_count w' (handle w nm) = open_count w (handle w nm) + 1 \<and>
     oft_map (openFiles w') = (oft_map (openFiles w))(nm \<mapsto> handle w nm) \<and> movable w' (handle w nm) p \<and>
     frames w' = frames w \<and> bht_valid (hashTable w') = bht_valid (hashTable w) \<and> \<not> curDirtyFlag h \<and> used_pages (handle w nm) w' = file_used w nm \<and>
     (\<forall>g. g \<noteq> handle w nm \<longrightarrow> used_pages g w' = used_pages g w) \<and> (\<forall>n. n \<noteq> nm \<longrightarrow> oft_map (openFiles w) n = None \<longrightarrow> disk w' n = disk w n) \<and>
     (\<forall>g q j. holds w g q j \<longrightarrow> holds w' g q j) \<and>
     clean_kept w w' \<and> (\<forall>q \<in> set (1 # ps). clean w' (handle w nm) q) \<and> newAddr w' = newAddr w \<and> newCnt w' = newCnt w + (if oft_map (openFiles w) nm = None then 1 else 0)"

lemma env_same_db:
  "env_same w w' \<Longrightarrow> files w' = files w \<and> openFiles w' = openFiles w \<and> newAddr w' = newAddr w \<and> newCnt w' = newCnt w \<and> frames w' = frames w"
  using db_fields_frame [of w' w] by (simp add: env_same_def buf_frame_def disk_frame_def)

lemma env_same_disk:
  assumes "db_inv w" "env_same w w'" "oft_map (openFiles w) n = None"
  shows "disk w' n = disk w n"
proof -
  have "file_name w g \<noteq> Some n" for g using open_name_table [OF assms(1), of g n] assms(3) by simp
  then show ?thesis using assms(2) by (simp add: env_same_def buf_frame_def disk_frame_def)
qed

lemma HeapFile_new_spec:
  assumes inv: "db_inv w" and sh: "stored_heap w nm ps" and rd: "ready w nm ps"
  shows "\<exists>h' w'. HeapFile_new w h nm = Some (OK, h', w') \<and> started w nm ps (hd ps) w' h' \<and> HeapFile.HeapFile.more h' = HeapFile.HeapFile.more h"
proof -
  let ?f = "handle w nm"
  obtain w1 where o: "DB_openFile w nm (filePtr h) = Some (OK, ?f, w1)" "opened w nm w1" using open_spec [OF inv, of nm] rd by (auto simp: ready_def)
  have o1: "db_inv w1" "oft_map (openFiles w1) nm = Some ?f" "lpage w1 ?f = file_view w nm" "same_pool w w1" "disk w1 = disk w" "pins w1 = pins w"
    using o(2) by (auto simp: opened_def)
  have fn: "file_name w1 ?f = Some nm" using open_name_table [OF o1(1), of ?f nm] o1(2) by simp
  have us: "used_pages ?f w1 = file_used w nm" using open_name_disk [OF o1(1) fn] o1(5) by (simp add: file_used_def)
  have nn: "?f \<noteq> NULL" using o1(1,2) db_inv_table [OF o1(1,2)] db_inv_obj [OF o1(1)] by (auto simp: file_obj_ok_def)
  have ha: "heap_at (lpage w1 ?f) (used_pages ?f w1) ps" using sh o1(3) us by (simp add: stored_heap_def)
  then have ch: "chain (lpage w1 ?f) ps" "distinct (1 # ps)" "set (1 # ps) \<subseteq> used_pages ?f w1" unfolding heap_at_def by blast+
  have ne: "hd ps \<in> set ps" "hd ps \<noteq> 1" using ch by (cases ps; auto)+
  have ht: "hashTable w1 = hashTable w" "frames w1 = frames w" using o1(4) by (simp_all add: same_pool_def)
  have leg: "buf_legal w1 (?f, p)" if "p \<in> set (1 # ps)" for p
    using that ch(3) nn rd ht(1) by (auto simp: buf_legal_def ready_def)
  have cl: "clean w1 ?f p" if "p \<in> set (1 # ps)" for p using that rd o(2) unfolding ready_def opened_def by blast
  have p1: "pool_ok w1" "fs_ok w1" using db_inv_pool [OF o1(1)] by (auto simp: pool_ok_def buf_inv_def)
  have "spare w 2" using rd by (simp add: ready_def)
  then have sp: "spare w1 (Suc (Suc 0))" using spare_le [of w 2 w1] db_inv_pool [OF inv] o1(6) ht(2) by (simp add: numeral_2_eq_2)
  have fp: "File_getFirstPage w1 ?f (headerPageNo h) = Some (OK, 1)" using getFirstPage_spec [OF p1(2)] ch(3) by simp
  have leg1: "buf_legal w1 (?f, 1)" using leg by simp
  obtain hp w2 where r2: "BufMgr_readPage w1 ?f 1 None = Some (OK, hp, w2)" "view_same w1 w2" "holds w2 ?f 1 hp"
     "\<forall>g q. pins w2 g q = pins w1 g q + (if (g, q) = (?f, 1) then 1 else 0)" "\<forall>g q j. holds w1 g q j \<longrightarrow> holds w2 g q j"
    using read_step [OF p1(1) leg1 spare_free [OF p1(1) sp], of None] by blast
  note v2 = view_sameD [OF r2(2)]
  have fr2: "frames w2 = frames w1" using v2(5) by (simp add: env_same_def)
  have sp2: "spare w2 (Suc 0)" by (rule spare_pin [OF sp p1(1) fr2, of "(?f, 1)"]) (use r2(4) in auto)
  obtain hdr where hdr: "frame_at w2 hp = Some hdr" "lpage w1 ?f 1 = Some (page_img hdr)" using holds_frame_at [OF v2(1) r2(3)] v2(2) by auto
  then have hok: "hdr_ok hdr (lpage w1 ?f) ps" using ha by (auto simp: heap_at_def)
  then have fst: "hdr_firstPage hdr = hd ps" by (simp add: hdr_ok_def)
  have leg2: "buf_legal w2 (?f, hd ps)" using view_same_legal [OF r2(2)] leg ne(1) by simp
  obtain cp w3 where r3: "BufMgr_readPage w2 ?f (hd ps) (hf_curPage h) = Some (OK, cp, w3)" "view_same w2 w3" "holds w3 ?f (hd ps) cp"
     "\<forall>g q j. holds w2 g q j \<longrightarrow> holds w3 g q j" "\<forall>g q. pins w3 g q = pins w2 g q + (if (g, q) = (?f, hd ps) then 1 else 0)" "movable w3 ?f (hd ps)"
    using read_step [OF v2(1) leg2 spare_free [OF v2(1) sp2], of "hf_curPage h"] by blast
  note v = view_same_trans [OF r2(2) r3(2)]
  note v3 = view_sameD [OF v]
  define h' where "h' = h\<lparr>filePtr := ?f, headerPageNo := 1, headerPage := hp, hdrDirtyFlag := False, curPageNo := hd ps,
    hf_curPage := cp, curDirtyFlag := False, curRec := NULLRID\<rparr>"
  have run: "HeapFile_new w h nm = Some (OK, h', w3)"
    using o(1) fp r2(1) hdr(1) fst r3(1) by (simp add: HeapFile_new_def h'_def)
  have sel: "filePtr h' = ?f" "headerPageNo h' = 1" "headerPage h' = hp" "\<not> hdrDirtyFlag h'" "hf_curPage h' = cp" "curPageNo h' = hd ps"
     "\<not> curDirtyFlag h'" "curRec h' = NULLRID" "HeapFile.HeapFile.more h' = HeapFile.HeapFile.more h" by (simp_all add: h'_def)
  have "heap_file w3 ?f 1 ps"
    using ha ch view_same_legal [OF v] leg unfolding heap_file_def heap_at_def v3(2) by simp
  moreover have cl3: "clean w3 ?f p" if "p \<in> set (1 # ps)" for p using v3(6) [of p ?f] cl [OF that] that ch(3) by blast
  moreover have "cp \<noteq> None" using r3(3) by (auto simp: holds_def)
  ultimately have "hf_open w3 h' ps" using v3(1) r3(3,4) r2(3) ne(1) by (simp add: hf_open_def sel)
  moreover have "db_inv w3" by (rule db_inv_env [OF o1(1) v3(1,5)])
  moreover have "open_count w3 ?f = open_count w ?f + 1" "\<forall>g. g \<noteq> ?f \<longrightarrow> lpage w3 g = lpage w g \<and> files w3 g = files w g"
    "oft_map (openFiles w3) = (oft_map (openFiles w))(nm \<mapsto> ?f)" "frames w3 = frames w"
    "newAddr w3 = newAddr w" "newCnt w3 = newCnt w + (if oft_map (openFiles w) nm = None then 1 else 0)"
    using env_same_db [OF v3(5)] o(2) v3(2) ht(2) by (simp_all add: opened_def open_count_def)
  moreover have "pins w3 g q = pins w g q + (if (g, q) = (?f, 1) then 1 else 0) + (if (g, q) = (?f, hd ps) then 1 else 0)" for g q
    using r3(5) r2(4) o1(6) by simp
  moreover have "disk w3 n = disk w n" if "n \<noteq> nm" "oft_map (openFiles w) n = None" for n
    using env_same_disk [OF o1(1) v3(5), of n] that o(2) by (simp add: opened_def)
  moreover have "\<forall>g. g \<noteq> ?f \<longrightarrow> used_pages g w3 = used_pages g w" using opened_used [OF inv o(2)] v3(3) by simp
  moreover have "clean_kept w w3"
    unfolding clean_kept_def
  proof (intro allI impI)
    fix g q
    assume q: "q \<in> used_pages g w" "clean w g q"
    have "q \<in> used_pages g w1" using q(1) us opened_used [OF inv o(2), of g] open_handle_used [OF inv, of q nm] rd by (cases "g = ?f") (auto simp: ready_def can_open_def)
    moreover have "clean w1 g q" using o(2) q(2) unfolding opened_def by blast
    ultimately show "clean w3 g q" by (rule v3(6))
  qed
  moreover have "holds w3 g q j" if "holds w g q j" for g q j
  proof -
    have "holds w1 g q j" using that o1(4,6) by (simp add: holds_def same_pool_def)
    then show ?thesis using r2(5) r3(4) by blast
  qed
  ultimately have "started w nm ps (hd ps) w3 h'"
    using o1(3) v3(2,3,4) ht(1) r3(6) us \<open>cp \<noteq> None\<close> cl3 by (simp add: started_def sel)
  then show ?thesis using run sel(9) by blast
qed

section \<open>The constructor for insertion\<close>

lemma started_clean:
  assumes inv: "db_inv w" and rd: "ready w nm ps" and st: "started w nm ps p w1 h" and v: "view_same w1 w'"
  shows "clean_kept w w'"
  unfolding clean_kept_def
proof (intro allI impI)
  fix g q
  assume q: "q \<in> used_pages g w" "clean w g q"
  have s: "clean_kept w w1" "used_pages (handle w nm) w1 = file_used w nm" "g \<noteq> handle w nm \<longrightarrow> used_pages g w1 = used_pages g w"
    using st unfolding started_def by blast+
  have "q \<in> used_pages g w1" using q(1) s(2,3) open_handle_used [OF inv, of q nm] rd by (cases "g = handle w nm") (auto simp: ready_def can_open_def)
  then show "clean w' g q" using view_sameD(6) [OF v] s(1) q unfolding clean_kept_def by blast
qed

lemma InsertFileScan_new_spec:
  assumes inv: "db_inv w" and sh: "stored_heap w nm ps" and rd: "ready w nm ps"
  shows "\<exists>h' w'. InsertFileScan_new w h nm = Some (OK, h', w') \<and> started w nm ps (last ps) w' h'"
proof -
  let ?f = "handle w nm"
  obtain h1 w1 where o: "HeapFile_new w h nm = Some (OK, h1, w1)" "started w nm ps (hd ps) w1 h1" using HeapFile_new_spec [OF inv sh rd, of h] by blast
  have s: "db_inv w1" "hf_open w1 h1 ps" "filePtr h1 = ?f" "headerPageNo h1 = 1" "hf_curPage h1 \<noteq> None" "curPageNo h1 = hd ps" "movable w1 ?f (hd ps)"
     "\<not> curDirtyFlag h1" using o(2) by (simp_all add: started_def)
  note od = hf_openD [OF s(2)]
  obtain hdr where hdr: "frame_at w1 (headerPage h1) = Some hdr" "lpage w1 ?f 1 = Some (page_img hdr)" "hdr_ok hdr (lpage w1 ?f) ps"
    by (rule hf_open_header [OF s(2)]) (simp add: s)
  have ls: "hdr_lastPage hdr = last ps" using hdr(3) by (simp add: hdr_ok_def)
  show ?thesis
  proof (cases "hd ps = last ps")
    case True
    then have "InsertFileScan_new w h nm = Some (OK, h1, w1)" using o(1) s(5,6) hdr(1) ls by (simp add: InsertFileScan_new_def)
    then show ?thesis using o(2) True by auto
  next
    case False
    have ne: "hd ps \<in> set ps" "last ps \<in> set ps" using od(2) by (cases ps; auto)+
    obtain pg where hc: "holds w1 ?f (hd ps) (hf_curPage h1)" by (rule hf_open_current [OF s(2,5)]) (simp add: s)
    have cl: "clean w1 ?f p" if "p \<in> set ps" for p using s(2,3,8) that by (auto simp: hf_open_def)
    have hcl: "clean w1 ?f 1" using o(2) by (simp add: started_def)
    obtain w2 where u: "BufMgr_unPinPage w1 ?f (hd ps) (curDirtyFlag h1) = Some (OK, w2)" "view_same w1 w2"
       "\<forall>g q. pins w2 g q = pins w1 g q - (if (g, q) = (?f, hd ps) then 1 else 0)"
       "\<forall>g q j. holds w1 g q j \<longrightarrow> (g, q) \<noteq> (?f, hd ps) \<or> 1 < pins w1 ?f (hd ps) \<longrightarrow> holds w2 g q j" "\<not> all_pinned w2"
      using unpin_step [OF od(1) hc, of "curDirtyFlag h1"] cl [OF ne(1)] s(7) by blast
    note v2 = view_sameD [OF u(2)]
    have ne1: "hd ps \<noteq> 1" using od(4) s(4) ne(1) by auto
    have hh2: "holds w2 ?f 1 (headerPage h1)" using u(4) od(6) s(3,4) ne1 by auto
    obtain hdr2 where hdr2: "frame_at w2 (headerPage h1) = Some hdr2" "page_img hdr2 = page_img hdr"
      using holds_frame_at [OF v2(1) hh2] v2(2) hdr(2) by auto
    then have ls2: "hdr_lastPage hdr2 = last ps" using ls page_img_fields(5) by metis
    have leg: "buf_legal w2 (?f, p)" if "p \<in> set (1 # ps)" for p using view_same_legal [OF u(2)] od(5) that s(3,4) by auto
    obtain cp w3 where r: "BufMgr_readPage w2 ?f (last ps) (hf_curPage h1) = Some (OK, cp, w3)" "view_same w2 w3" "holds w3 ?f (last ps) cp"
       "\<forall>g q j. holds w2 g q j \<longrightarrow> holds w3 g q j" "\<forall>g q. pins w3 g q = pins w2 g q + (if (g, q) = (?f, last ps) then 1 else 0)" "movable w3 ?f (last ps)"
      using read_step [OF v2(1) leg u(5), of "last ps" "hf_curPage h1"] ne(2) by auto
    note v = view_same_trans [OF u(2) r(2)]
    note v3 = view_sameD [OF v]
    let ?h = "h1\<lparr>curPageNo := last ps, hf_curPage := cp, curDirtyFlag := False\<rparr>"
    have "InsertFileScan_new w h nm = Some (OK, ?h, w3)"
      using o(1) s(3,5,6) hdr(1) ls False u(1) hdr2(1) ls2 r(1) by (simp add: InsertFileScan_new_def)
    moreover have "started w nm ps (last ps) w3 ?h"
    proof -
      have us: "p \<in> used_pages ?f w1" if "p \<in> set (1 # ps)" for p using od(5) that s(3,4) by (auto simp: buf_legal_def)
      have cl3: "clean w3 ?f p" if "p \<in> set (1 # ps)" for p using v3(6) [of p ?f] cl [of p] hcl us [of p] that by auto
      then have "clean w3 ?f 1" "\<And>p. p \<in> set ps \<Longrightarrow> clean w3 ?f p" by simp_all
      moreover have "heap_file w3 ?f 1 ps"
        using s(2,3,4) view_same_legal [OF v] v3(2) by (simp add: hf_open_def heap_file_def)
      moreover have "cp \<noteq> None" using r(3) by (auto simp: holds_def)
      ultimately have "hf_open w3 ?h ps \<and> hf_curPage ?h \<noteq> None" using v3(1) r(3,4) hh2 ne(2) by (simp add: hf_open_def s(3,4))
      moreover have "db_inv w3" by (rule db_inv_env [OF s(1) v3(1,5)])
      moreover have "disk w3 n = disk w n" if "n \<noteq> nm" "oft_map (openFiles w) n = None" for n
        using env_same_disk [OF s(1) v3(5), of n] that o(2) by (simp add: started_def)
      moreover have "holds w3 g q j" if h: "holds w g q j" for g q j
      proof -
        have "holds w1 g q j" "pins w1 ?f (hd ps) = pins w ?f (hd ps) + 1" "0 < pins w g q" using o(2) h ne1 unfolding started_def by (auto simp: holds_def)
        then have "holds w2 g q j" using u(4) by (cases "(g, q) = (?f, hd ps)") auto
        then show ?thesis using r(4) by blast
      qed
      ultimately show ?thesis
        using o(2) v3(2,3,4) env_same_db [OF v3(5)] r(5,6) u(3) started_clean [OF inv rd o(2) v] cl3 unfolding started_def by (auto simp: open_count_def)
    qed
    ultimately show ?thesis by blast
  qed
qed

end
