(* ===== verification/HeapLife.thy ===== *)
theory HeapLife
  imports HeapObj
begin

text \<open>
  The end of the life of a heap file object, and its beginning: closing, the destructors, and
  the creation of a heap file with its header and first data page.
\<close>

section \<open>Closing\<close>

text \<open>What closing a file leaves: its contents under its name, durable if this was the last reference.\<close>

definition closed :: "'a db_state_scheme \<Rightarrow> string \<Rightarrow> ptr \<Rightarrow> 'a db_state_scheme \<Rightarrow> bool" where
  "closed w nm f w' \<longleftrightarrow> db_inv w' \<and> file_view w' nm = lpage w f \<and> file_used w' nm = used_pages f w \<and>
     (\<forall>g. g \<noteq> f \<longrightarrow> lpage w' g = lpage w g \<and> files w' g = files w g \<and> used_pages g w' = used_pages g w) \<and> pins w' = pins w \<and> frames w' = frames w \<and>
     bht_valid (hashTable w') = bht_valid (hashTable w) \<and> newAddr w' = newAddr w \<and> newCnt w' = newCnt w \<and>
     open_count w' f = open_count w f - 1 \<and>
     oft_map (openFiles w') = (if open_count w f = 1 then (oft_map (openFiles w))(nm := None) else oft_map (openFiles w)) \<and>
     (open_count w f = 1 \<longrightarrow> name_page w' nm = lpage w f) \<and> (\<forall>n. oft_map (openFiles w) n = None \<longrightarrow> disk w' n = disk w n) \<and>
     (\<forall>g q. g \<noteq> f \<or> open_count w f \<noteq> 1 \<longrightarrow> clean w g q \<longrightarrow> clean w' g q) \<and> (\<forall>g q j. holds w g q j \<longrightarrow> holds w' g q j)"

lemma close_spec:
  assumes inv: "db_inv w" and nm: "file_name w f = Some nm" and free: "open_count w f = 1 \<Longrightarrow> \<forall>p. pins w f p = 0"
  shows "\<exists>w'. DB_closeFile w f = Some (OK, w') \<and> closed w nm f w'"
proof -
  obtain fo where fo: "files w f = Some fo" using nm by (auto simp: file_name_def split: bind_splits)
  have ot: "oft_map (openFiles w) nm = Some f" using open_name_table [OF inv] nm by simp
  have us: "used_pages f w = file_used w nm" by (rule open_name_disk [OF inv nm])
  have cnt: "1 \<le> open_count w f" using db_inv_obj [OF inv fo] fo by (simp add: file_obj_ok_def open_count_def)
  show ?thesis
  proof (cases "open_count w f = 1")
    case True
    obtain w' where c: "DB_closeFile w f = Some (OK, w')" "db_inv w'" "files w' = (files w)(f := None)"
       "oft_map (openFiles w') = (oft_map (openFiles w))(nm := None)" "\<forall>q. name_page w' nm q = lpage w f q"
       "\<forall>g q. g \<noteq> f \<longrightarrow> lpage w' g q = lpage w g q" "pins w' = pins w" "frames w' = frames w" "bht_valid (hashTable w') = bht_valid (hashTable w)"
       "newAddr w' = newAddr w" "newCnt w' = newCnt w" "\<exists>u. disk w' nm = Some u \<and> in_use u = used_pages f w"
       "\<forall>n. (\<forall>g. file_name w g \<noteq> Some n) \<longrightarrow> disk w' n = disk w n" "\<forall>g q. g \<noteq> f \<longrightarrow> clean w g q \<longrightarrow> clean w' g q" "\<forall>g. g \<noteq> f \<longrightarrow> used_pages g w' = used_pages g w"
       "\<forall>g q. 0 < pins w g q \<longrightarrow> frame_of w' (g, q) = frame_of w (g, q)"
      using close_last [OF inv True nm free [OF True]] by blast
    moreover from c(13) have "\<forall>n. oft_map (openFiles w) n = None \<longrightarrow> disk w' n = disk w n" using open_name_table [OF inv] by simp
    moreover have "\<forall>g q j. holds w g q j \<longrightarrow> holds w' g q j" using c(7,16) by (auto simp: holds_def)
    ultimately have "closed w nm f w'" using True by (auto simp: closed_def file_view_def file_used_def open_count_def fun_eq_iff)
    then show ?thesis using c(1) by blast
  next
    case False
    then have "1 < open_count w f" using cnt by simp
    from close_shared [OF inv this] obtain w' where c: "DB_closeFile w f = Some (OK, w')" "db_inv w'" "open_count w' f = open_count w f - 1"
      "lpage w' = lpage w" "pins w' = pins w" "openFiles w' = openFiles w" "disk w' = disk w" "\<forall>g. g \<noteq> f \<longrightarrow> files w' g = files w g" "same_pool w w'"
      by blast
    have "newAddr w' = newAddr w \<and> newCnt w' = newCnt w"
      using c(1) fo False cnt by (auto simp: DB_closeFile_def File_close_def Let_def open_count_def split: if_splits)
    moreover have fn: "file_name w' g = file_name w g" for g by (rule same_file_name [OF inv c(2)]) (simp add: c(6))
    then have "used_pages g w' = used_pages g w" for g using c(7) by (simp add: used_pages_def file_of_def)
    moreover have "clean w' g q" if "clean w g q" for g q using clean_same_pool [OF c(9) _ that] c(7) fn by (simp add: disk_page_def file_of_def)
    moreover have "holds w' g q j" if "holds w g q j" for g q j using that c(5,9) by (simp add: holds_def same_pool_def)
    ultimately have "closed w nm f w'" using c(2-8) c(9) ot us False by (simp add: closed_def file_view_def file_used_def same_pool_def)
    then show ?thesis using c(1) by blast
  qed
qed

text \<open>Giving back the current page, as the destructors and \<open>endScan\<close> do.\<close>

lemma release_current:
  assumes op: "hf_open w h ps" and cur: "hf_curPage h \<noteq> None" and b: "b \<or> \<not> curDirtyFlag h"
  shows "\<exists>w1. BufMgr_unPinPage w (filePtr h) (curPageNo h) b = Some (OK, w1) \<and> view_same w w1 \<and>
     (\<forall>d n r. hf_open w1 (h\<lparr>hf_curPage := None, curPageNo := n, curDirtyFlag := d, curRec := r\<rparr>) ps) \<and>
     (\<forall>g q. pins w1 g q = pins w g q - (if (g, q) = (filePtr h, curPageNo h) then 1 else 0)) \<and>
     (\<forall>g q j. holds w g q j \<longrightarrow> (g, q) \<noteq> (filePtr h, curPageNo h) \<or> 1 < pins w (filePtr h) (curPageNo h) \<longrightarrow> holds w1 g q j) \<and>
     (movable w (filePtr h) (curPageNo h) \<longrightarrow> \<not> all_pinned w1)"
proof -
  let ?f = "filePtr h"
  note od = hf_openD [OF op]
  obtain pg where pg: "curPageNo h \<in> set ps" "holds w ?f (curPageNo h) (hf_curPage h)" by (rule hf_open_current [OF op cur])
  have "b \<or> clean w ?f (curPageNo h)" using op pg(1) b by (auto simp: hf_open_def)
  from unpin_step [OF od(1) pg(2) this] obtain w1 where u: "BufMgr_unPinPage w ?f (curPageNo h) b = Some (OK, w1)" "view_same w w1"
    "clean w1 ?f (curPageNo h)" "\<forall>g q. pins w1 g q = pins w g q - (if (g, q) = (?f, curPageNo h) then 1 else 0)"
    "\<forall>g q j. holds w g q j \<longrightarrow> (g, q) \<noteq> (?f, curPageNo h) \<or> 1 < pins w ?f (curPageNo h) \<longrightarrow> holds w1 g q j"
    "movable w ?f (curPageNo h) \<longrightarrow> \<not> all_pinned w1" by blast
  note v = view_sameD [OF u(2)]
  have us: "q \<in> used_pages ?f w" if "q \<in> set (headerPageNo h # ps)" for q using od(5) that by (auto simp: buf_legal_def)
  have "clean w1 ?f q" if "q \<in> set ps" for q using v(6) [of q ?f] us [of q] that u(3) op by (cases "q = curPageNo h") (auto simp: hf_open_def)
  moreover have "hdrDirtyFlag h \<or> clean w1 ?f (headerPageNo h)" using v(6) us [of "headerPageNo h"] op by (auto simp: hf_open_def)
  moreover have "holds w1 ?f (headerPageNo h) (headerPage h)" using u(5) od(4,6) pg(1) by (metis prod.inject)
  moreover have "heap_file w1 ?f (headerPageNo h) ps" using op view_same_legal [OF u(2)] v(2) by (simp add: hf_open_def heap_file_def)
  ultimately show ?thesis using u v(1) by (intro exI [of _ w1]) (simp add: hf_open_def)
qed

text \<open>The number of pins an object has on a page.\<close>

definition own_pins :: "'h HeapFile_scheme \<Rightarrow> int \<Rightarrow> int" where
  "own_pins h p = (if p = headerPageNo h then 1 else 0) + (if hf_curPage h \<noteq> None \<and> p = curPageNo h then 1 else 0)"

lemma destroy_unpinned:
  assumes inv: "db_inv w" and op: "hf_open w h ps" and cur: "hf_curPage h = None" and nm: "file_name w (filePtr h) = Some nm"
    and own: "open_count w (filePtr h) = 1 \<Longrightarrow> \<forall>p. pins w (filePtr h) p = own_pins h p"
  shows "\<exists>w1 w'. HeapFile_destroy w h = Some (h, w') \<and> env_same w w1 \<and> lpage w1 = lpage w \<and> (\<forall>g. used_pages g w1 = used_pages g w) \<and>
     (\<forall>g q. pins w1 g q = pins w g q - (if (g, q) = (filePtr h, headerPageNo h) then 1 else 0)) \<and> closed w1 nm (filePtr h) w' \<and>
     clean_kept w w1 \<and> clean w1 (filePtr h) (headerPageNo h) \<and>
     (\<forall>g q j. holds w g q j \<longrightarrow> (g, q) \<noteq> (filePtr h, headerPageNo h) \<or> 1 < pins w (filePtr h) (headerPageNo h) \<longrightarrow> holds w1 g q j)"
proof -
  let ?f = "filePtr h"
  note od = hf_openD [OF op]
  have "hdrDirtyFlag h \<or> clean w ?f (headerPageNo h)" using op by (auto simp: hf_open_def)
  from unpin_step [OF od(1,6) this] obtain w1 where u: "BufMgr_unPinPage w ?f (headerPageNo h) (hdrDirtyFlag h) = Some (OK, w1)" "view_same w w1"
    "\<forall>g q. pins w1 g q = pins w g q - (if (g, q) = (?f, headerPageNo h) then 1 else 0)" "clean w1 ?f (headerPageNo h)"
    "\<forall>g q j. holds w g q j \<longrightarrow> (g, q) \<noteq> (?f, headerPageNo h) \<or> 1 < pins w ?f (headerPageNo h) \<longrightarrow> holds w1 g q j" by blast
  note v = view_sameD [OF u(2)]
  have inv1: "db_inv w1" by (rule db_inv_env [OF inv v(1,5)])
  have fn: "file_name w1 ?f = Some nm" using nm open_name_table [OF inv] open_name_table [OF inv1] env_same_db [OF v(5)] by simp
  have oc: "open_count w1 ?f = open_count w ?f" using env_same_db [OF v(5)] by (simp add: open_count_def)
  have "\<forall>p. pins w1 ?f p = 0" if "open_count w1 ?f = 1" using that own oc u(3) cur by (simp add: own_pins_def)
  from close_spec [OF inv1 fn this] obtain w' where c: "DB_closeFile w1 ?f = Some (OK, w')" "closed w1 nm ?f w'" by blast
  have "HeapFile_destroy w h = Some (h, w')" using cur u(1) c(1) by (simp add: HeapFile_destroy_def)
  moreover have "clean_kept w w1" using u(2) by (simp add: view_same_def)
  ultimately show ?thesis using v c(2) u(3-5) by blast
qed

text \<open>
  What a destructor leaves of the state: the contents of the file stay, and if this was the last
  reference they are on disk.
\<close>

definition finished :: "'a db_state_scheme \<Rightarrow> 'h HeapFile_scheme \<Rightarrow> string \<Rightarrow> 'a db_state_scheme \<Rightarrow> bool" where
  "finished w h nm w' \<longleftrightarrow> db_inv w' \<and> file_view w' nm = lpage w (filePtr h) \<and> file_used w' nm = used_pages (filePtr h) w \<and>
     (\<forall>g. g \<noteq> filePtr h \<longrightarrow> lpage w' g = lpage w g \<and> files w' g = files w g \<and> used_pages g w' = used_pages g w) \<and>
     (\<forall>g q. pins w' g q = pins w g q - (if g = filePtr h then own_pins h q else 0)) \<and> frames w' = frames w \<and>
     bht_valid (hashTable w') = bht_valid (hashTable w) \<and> newAddr w' = newAddr w \<and> newCnt w' = newCnt w \<and>
     open_count w' (filePtr h) = open_count w (filePtr h) - 1 \<and>
     oft_map (openFiles w') = (if open_count w (filePtr h) = 1 then (oft_map (openFiles w))(nm := None) else oft_map (openFiles w)) \<and>
     (open_count w (filePtr h) = 1 \<longrightarrow> name_page w' nm = lpage w (filePtr h)) \<and>
     (\<forall>n. oft_map (openFiles w) n = None \<longrightarrow> disk w' n = disk w n) \<and>
     (\<forall>g q. q \<in> used_pages g w \<longrightarrow> g \<noteq> filePtr h \<or> open_count w (filePtr h) \<noteq> 1 \<longrightarrow>
        clean w g q \<or> g = filePtr h \<and> (q = headerPageNo h \<or> hf_curPage h \<noteq> None \<and> q = curPageNo h) \<longrightarrow> clean w' g q) \<and>
     (\<forall>g q j. holds w g q j \<longrightarrow> (g = filePtr h \<longrightarrow> own_pins h q < pins w g q) \<longrightarrow> holds w' g q j)"

lemma destroy_finished:
  assumes inv: "db_inv w" and op: "hf_open w h ps" and nm: "file_name w (filePtr h) = Some nm"
    and own: "open_count w (filePtr h) = 1 \<Longrightarrow> \<forall>p. pins w (filePtr h) p = own_pins h p"
    and b: "b \<or> \<not> curDirtyFlag h"
  shows "\<exists>w1 w'. (if hf_curPage h \<noteq> None then BufMgr_unPinPage w (filePtr h) (curPageNo h) b = Some (OK, w1) else w1 = w) \<and>
     (\<forall>n d. (hf_curPage h = None \<longrightarrow> n = curPageNo h \<and> d = curDirtyFlag h) \<longrightarrow>
       HeapFile_destroy w1 (h\<lparr>hf_curPage := None, curPageNo := n, curDirtyFlag := d\<rparr>) = Some (h\<lparr>hf_curPage := None, curPageNo := n, curDirtyFlag := d\<rparr>, w')) \<and>
     env_same w w1 \<and> finished w h nm w'"
proof -
  let ?f = "filePtr h"
  let ?h = "\<lambda>n d. h\<lparr>hf_curPage := None, curPageNo := n, curDirtyFlag := d\<rparr>"
  have "\<exists>w1. (if hf_curPage h \<noteq> None then BufMgr_unPinPage w ?f (curPageNo h) b = Some (OK, w1) else w1 = w) \<and> view_same w w1 \<and>
      hf_open w1 (?h 0 False) ps \<and>
      (\<forall>g q. pins w1 g q = pins w g q - (if hf_curPage h \<noteq> None \<and> (g, q) = (?f, curPageNo h) then 1 else 0)) \<and>
      (\<forall>g q j. holds w g q j \<longrightarrow> \<not> (hf_curPage h \<noteq> None \<and> (g, q) = (?f, curPageNo h)) \<or> 1 < pins w g q \<longrightarrow> holds w1 g q j)"
  proof (cases "hf_curPage h = None")
    case True
    then show ?thesis using op hf_openD(1) [OF op] by (intro exI [of _ w]) (simp add: hf_open_def)
  next
    case False
    from release_current [OF op this b] obtain w1 where r: "BufMgr_unPinPage w ?f (curPageNo h) b = Some (OK, w1)" "view_same w w1"
      "\<And>d n r. hf_open w1 (h\<lparr>hf_curPage := None, curPageNo := n, curDirtyFlag := d, curRec := r\<rparr>) ps"
      "\<forall>g q. pins w1 g q = pins w g q - (if (g, q) = (?f, curPageNo h) then 1 else 0)"
      "\<forall>g q j. holds w g q j \<longrightarrow> (g, q) \<noteq> (?f, curPageNo h) \<or> 1 < pins w ?f (curPageNo h) \<longrightarrow> holds w1 g q j" by blast
    have "hf_open w1 (?h 0 False) ps" using r(3) [where n = 0 and d = False and r = "curRec h"] by (simp add: hf_open_def)
    then show ?thesis using r False by auto
  qed
  then obtain w1 where s: "if hf_curPage h \<noteq> None then BufMgr_unPinPage w ?f (curPageNo h) b = Some (OK, w1) else w1 = w" "view_same w w1"
      "hf_open w1 (?h 0 False) ps" "\<forall>g q. pins w1 g q = pins w g q - (if hf_curPage h \<noteq> None \<and> (g, q) = (?f, curPageNo h) then 1 else 0)"
      "\<forall>g q j. holds w g q j \<longrightarrow> \<not> (hf_curPage h \<noteq> None \<and> (g, q) = (?f, curPageNo h)) \<or> 1 < pins w g q \<longrightarrow> holds w1 g q j" by blast
  note v = view_sameD [OF s(2)]
  have inv1: "db_inv w1" by (rule db_inv_env [OF inv v(1,5)])
  have fn: "file_name w1 ?f = Some nm" using nm open_name_table [OF inv] open_name_table [OF inv1] env_same_db [OF v(5)] by simp
  have oc: "open_count w1 ?f = open_count w ?f" using env_same_db [OF v(5)] by (simp add: open_count_def)
  have own1: "\<forall>p. pins w1 ?f p = own_pins (?h 0 False) p" if "open_count w1 ?f = 1" using own oc that s(4) by (simp add: own_pins_def)
  obtain w2 w' where d: "HeapFile_destroy w1 (?h 0 False) = Some (?h 0 False, w')" "env_same w1 w2" "lpage w2 = lpage w1"
      "\<forall>g. used_pages g w2 = used_pages g w1" "\<forall>g q. pins w2 g q = pins w1 g q - (if (g, q) = (?f, headerPageNo h) then 1 else 0)" "closed w2 nm ?f w'"
      "clean_kept w1 w2" "clean w2 ?f (headerPageNo h)"
      "\<forall>g q j. holds w1 g q j \<longrightarrow> (g, q) \<noteq> (?f, headerPageNo h) \<or> 1 < pins w1 ?f (headerPageNo h) \<longrightarrow> holds w2 g q j"
    using destroy_unpinned [OF inv1 s(3), of nm] fn own1 by auto
  have any: "HeapFile_destroy w1 (?h n d) = Some (?h n d, w')" for n d
    using d(1) by (auto simp: HeapFile_destroy_def split: bind_splits)
  have inv2: "env_same w w2" by (rule env_same_trans [OF v(5) d(2)])
  have "disk w2 n = disk w n" if "oft_map (openFiles w) n = None" for n by (rule env_same_disk [OF inv inv2 that])
  moreover have "clean w' g q" if q: "q \<in> used_pages g w" "g \<noteq> ?f \<or> open_count w ?f \<noteq> 1"
     "clean w g q \<or> g = ?f \<and> (q = headerPageNo h \<or> hf_curPage h \<noteq> None \<and> q = curPageNo h)" for g q
  proof -
    have cur: "clean w1 ?f q" if "hf_curPage h \<noteq> None" "q = curPageNo h" using s(3) op that by (simp add: hf_open_def)
    have "clean w2 g q \<or> g = ?f \<and> q = headerPageNo h"
      using q(1,3) cur v(3,6) d(7) unfolding clean_kept_def by blast
    then have "clean w2 g q" using d(8) by blast
    moreover have "open_count w2 ?f = open_count w ?f" using oc env_same_db [OF d(2)] by (simp add: open_count_def)
    ultimately show ?thesis using d(6) q(2) unfolding closed_def by simp
  qed
  moreover have "holds w' g q j" if h: "holds w g q j" "g = ?f \<longrightarrow> own_pins h q < pins w g q" for g q j
  proof -
    have "holds w1 g q j" using s(5) h by (auto simp: own_pins_def split: if_splits)
    moreover have "(g, q) \<noteq> (?f, headerPageNo h) \<or> 1 < pins w1 ?f (headerPageNo h)" using h(2) s(4) by (auto simp: own_pins_def split: if_splits)
    ultimately have "holds w2 g q j" using d(9) by blast
    then show ?thesis using d(6) unfolding closed_def by blast
  qed
  ultimately have "finished w h nm w'"
    using d(3-6) v(2,3,4) s(4) env_same_db [OF v(5)] env_same_db [OF d(2)] d(2) oc
    by (auto simp: finished_def closed_def own_pins_def open_count_def env_same_def)
  then show ?thesis using s(1) any v(5) by blast
qed


section \<open>Destructors\<close>

lemma HeapFile_destroy_spec:
  assumes inv: "db_inv w" and op: "hf_open w h ps" and nm: "file_name w (filePtr h) = Some nm"
    and own: "open_count w (filePtr h) = 1 \<Longrightarrow> \<forall>p. pins w (filePtr h) p = own_pins h p"
  shows "\<exists>h' w'. HeapFile_destroy w h = Some (h', w') \<and> finished w h nm w'"
proof -
  obtain w1 w' where d: "if hf_curPage h \<noteq> None then BufMgr_unPinPage w (filePtr h) (curPageNo h) (curDirtyFlag h) = Some (OK, w1) else w1 = w"
     "\<forall>n d. (hf_curPage h = None \<longrightarrow> n = curPageNo h \<and> d = curDirtyFlag h) \<longrightarrow>
       HeapFile_destroy w1 (h\<lparr>hf_curPage := None, curPageNo := n, curDirtyFlag := d\<rparr>) = Some (h\<lparr>hf_curPage := None, curPageNo := n, curDirtyFlag := d\<rparr>, w')"
     "finished w h nm w'"
    using destroy_finished [OF inv op nm own, of "curDirtyFlag h"] by blast
  show ?thesis
  proof (cases "hf_curPage h = None")
    case True
    then have eq: "h\<lparr>hf_curPage := None, curPageNo := curPageNo h, curDirtyFlag := curDirtyFlag h\<rparr> = h" by (cases h) simp
    have "HeapFile_destroy w1 (h\<lparr>hf_curPage := None, curPageNo := curPageNo h, curDirtyFlag := curDirtyFlag h\<rparr>) =
        Some (h\<lparr>hf_curPage := None, curPageNo := curPageNo h, curDirtyFlag := curDirtyFlag h\<rparr>, w')" using d(2) by blast
    then show ?thesis unfolding eq using d(1,3) True by auto
  next
    case False
    then have "HeapFile_destroy w h = HeapFile_destroy w1 (h\<lparr>hf_curPage := None, curPageNo := 0, curDirtyFlag := False\<rparr>)"
      using d(1) by (simp add: HeapFile_destroy_def)
    moreover have "HeapFile_destroy w1 (h\<lparr>hf_curPage := None, curPageNo := 0, curDirtyFlag := False\<rparr>) =
        Some (h\<lparr>hf_curPage := None, curPageNo := 0, curDirtyFlag := False\<rparr>, w')"
      using d(2) [THEN spec [of _ 0], THEN spec [of _ False]] False by simp
    ultimately show ?thesis using d(3) by auto
  qed
qed

lemma HeapFileScan_destroy_spec:
  assumes inv: "db_inv w" and op: "hf_open w s ps" and nm: "file_name w (filePtr s) = Some nm"
    and own: "open_count w (filePtr s) = 1 \<Longrightarrow> \<forall>p. pins w (filePtr s) p = own_pins s p"
  shows "\<exists>s' w'. HeapFileScan_destroy w s = Some (s', w') \<and> finished w s nm w'"
proof (cases "hf_curPage s = None")
  case True
  then show ?thesis using HeapFile_destroy_spec [OF inv op nm own] by (auto simp: HeapFileScan_destroy_def endScan_def)
next
  case False
  then have "HeapFileScan_destroy w s = HeapFile_destroy w s"
    by (auto simp: HeapFileScan_destroy_def endScan_def HeapFile_destroy_def intro!: Option.bind_cong)
  then show ?thesis using HeapFile_destroy_spec [OF inv op nm own] by simp
qed

lemma InsertFileScan_destroy_spec:
  assumes inv: "db_inv w" and op: "hf_open w h ps" and nm: "file_name w (filePtr h) = Some nm" and cur: "hf_curPage h \<noteq> None"
    and own: "open_count w (filePtr h) = 1 \<Longrightarrow> \<forall>p. pins w (filePtr h) p = own_pins h p"
  shows "\<exists>h' w'. InsertFileScan_destroy w h = Some (h', w') \<and> finished w h nm w'"
proof -
  obtain w1 w' where d: "BufMgr_unPinPage w (filePtr h) (curPageNo h) True = Some (OK, w1)"
     "\<forall>n d. HeapFile_destroy w1 (h\<lparr>hf_curPage := None, curPageNo := n, curDirtyFlag := d\<rparr>) = Some (h\<lparr>hf_curPage := None, curPageNo := n, curDirtyFlag := d\<rparr>, w')"
     "finished w h nm w'"
    using destroy_finished [OF inv op nm own, of True] cur by auto
  have eq: "h\<lparr>hf_curPage := None, curPageNo := 0, curDirtyFlag := curDirtyFlag h\<rparr> = h\<lparr>hf_curPage := None, curPageNo := 0\<rparr>" by (cases h) simp
  have "HeapFile_destroy w1 (h\<lparr>hf_curPage := None, curPageNo := 0, curDirtyFlag := curDirtyFlag h\<rparr>) =
      Some (h\<lparr>hf_curPage := None, curPageNo := 0, curDirtyFlag := curDirtyFlag h\<rparr>, w')" using d(2) by blast
  then have "InsertFileScan_destroy w h = Some (h\<lparr>hf_curPage := None, curPageNo := 0\<rparr>, w')"
    unfolding eq using d(1) cur by (simp add: InsertFileScan_destroy_def)
  then show ?thesis using d(3) by blast
qed

section \<open>Creating a heap file\<close>

lemma grows_alloc_ok: "grows w f n \<Longrightarrow> n < 2147483647 \<Longrightarrow> \<not> file_full f w \<and> file_of w f \<noteq> None"
  by (auto simp: grows_def file_full_def)

lemma grows_changed: "page_changed w f p pg w' \<Longrightarrow> fs_view w' = fs_view w \<Longrightarrow> grows w' g n = grows w g n"
  using fs_view_cong(2) [of w' w] by (simp add: grows_def)

lemma store_view: "store_at w pp pg = Some w' \<Longrightarrow> fs_view w' = fs_view w"
  by (auto simp: store_at_def split: option.splits if_splits)

definition fresh_header :: "page \<Rightarrow> int \<Rightarrow> page" where
  "fresh_header hdr n = set_hdr_firstPage (set_hdr_lastPage (set_hdr_pageCnt (set_hdr_recCnt hdr 0) 1) n) n"

lemma fresh_header_ok:
  assumes "int_ok n" "heap_rids P [n] = []"
  shows "hdr_ok (fresh_header hdr n) P [n]"
proof -
  have "swrap 4 1 = 1" "swrap 4 0 = 0" by (simp_all add: int_ok_def)
  then show ?thesis using assms
    by (simp add: hdr_ok_def fresh_header_def set_hdr_recCnt_def set_hdr_pageCnt_def set_hdr_lastPage_def set_hdr_firstPage_def
        hdr_firstPage_def hdr_lastPage_def hdr_pageCnt_def hdr_recCnt_def mem_simps int_ok_def)
qed

text \<open>The two pages of a new heap file, up to the point where both have been given back.\<close>

lemma init_pages:
  assumes ok: "pool_ok w" and f: "f \<noteq> NULL" "grows w f 1" "used_pages f w = {}" and sp: "spare w 2"
    and key: "bht_valid (hashTable w) (f, 1)" "bht_valid (hashTable w) (f, 2)"
  shows "\<exists>pp1 w1 hdr w2 pp2 w3 pg w4 hdr2 w5 w6 w7. BufMgr_allocPage w f 0 None = Some (OK, 1, pp1, w1) \<and> frame_at w1 pp1 = Some hdr \<and>
     store_at w1 pp1 (strncpy hdr 0 nm 50) = Some w2 \<and> BufMgr_allocPage w2 f 0 pp1 = Some (OK, 2, pp2, w3) \<and> frame_at w3 pp2 = Some pg \<and>
     store_at w3 pp2 (new_page pg 2) = Some w4 \<and> frame_at w4 pp1 = Some hdr2 \<and> store_at w4 pp1 (fresh_header hdr2 2) = Some w5 \<and>
     BufMgr_unPinPage w5 f 2 True = Some (OK, w6) \<and> BufMgr_unPinPage w6 f 1 True = Some (OK, w7) \<and> pool_ok w7 \<and> env_same w w7 \<and>
     lpage w7 f 1 = Some (page_img (fresh_header hdr2 2)) \<and> lpage w7 f 2 = Some (page_img (new_page pg 2)) \<and>
     (\<forall>g q. g \<noteq> f \<longrightarrow> lpage w7 g q = lpage w g q) \<and> pins w7 = pins w \<and> (\<forall>g q. g \<noteq> f \<longrightarrow> q \<in> used_pages g w \<longrightarrow> clean w g q \<longrightarrow> clean w7 g q) \<and>
     (\<forall>g. used_pages g w7 = (if g = f then {1, 2} else used_pages g w)) \<and> grows w7 f 3 \<and>
     (\<forall>g q j. g \<noteq> f \<longrightarrow> holds w g q j \<longrightarrow> holds w7 g q j)"
proof -
  have sp': "spare w (Suc (Suc 0))" using sp by (simp add: numeral_2_eq_2)
  note g1 = grows_alloc_ok [OF f(2)]
  have n1: "next_page f w = 1" by (rule grows_next [OF f(2)])
  obtain pp1 w1 where a1: "BufMgr_allocPage w f 0 None = Some (OK, 1, pp1, w1)" "pool_ok w1" "env_same w w1" "holds w1 f 1 pp1"
     "\<forall>g q j. holds w g q j \<longrightarrow> holds w1 g q j" "\<forall>g q. pins w1 g q = pins w g q + (if (g, q) = (f, 1) then 1 else 0)"
     "\<forall>g. used_pages g w1 = (if g = f then insert 1 (used_pages f w) else used_pages g w)" "\<forall>g q. g \<noteq> f \<longrightarrow> lpage w1 g q = lpage w g q" "clean_kept w w1"
    using alloc_step_pool [OF ok f(1) _ _ spare_free [OF ok sp'], of 0 None] g1 key(1) unfolding n1 by auto
  obtain hdr where hdr: "frame_at w1 pp1 = Some hdr" using holds_frame_at [OF a1(2,4)] by blast
  obtain w2 where w2: "store_at w1 pp1 (strncpy hdr 0 nm 50) = Some w2" "page_changed w1 f 1 (strncpy hdr 0 nm 50) w2"
    using store_changed [OF a1(2,4)] by blast
  have c2: "pool_ok w2" "env_same w1 w2" "pins w2 = pins w1" "holds w2 f 1 pp1" using w2(2) a1(4) by (simp_all add: page_changed_def)
  have bi: "buf_inv w" using ok by (simp add: pool_ok_def)
  have g2: "grows w2 f 2" using allocPage_grows [OF bi f(2) _ a1(1)] grows_changed [OF w2(2) store_view [OF w2(1)]] by simp
  have n2: "next_page f w2 = 2" by (rule grows_next [OF g2])
  have fr: "frames w2 = frames w" using a1(3) c2(2) by (simp add: env_same_def)
  have sp2: "spare w2 (Suc 0)" by (rule spare_pin [OF sp' ok fr, of "(f, 1)"]) (use a1(6) c2(3) in auto)
  have key2: "bht_valid (hashTable w2) (f, 2)" using key(2) a1(3) c2(2) by (simp add: env_same_def)
  obtain pp2 w3 where a3: "BufMgr_allocPage w2 f 0 pp1 = Some (OK, 2, pp2, w3)" "pool_ok w3" "env_same w2 w3" "holds w3 f 2 pp2"
     "\<forall>g q j. holds w2 g q j \<longrightarrow> holds w3 g q j" "\<forall>g q. pins w3 g q = pins w2 g q + (if (g, q) = (f, 2) then 1 else 0)"
     "\<forall>g. used_pages g w3 = (if g = f then insert 2 (used_pages f w2) else used_pages g w2)" "\<forall>g q. g \<noteq> f \<longrightarrow> lpage w3 g q = lpage w2 g q" "clean_kept w2 w3"
    using alloc_step_pool [OF c2(1) f(1) _ _ spare_free [OF c2(1) sp2], of 0 pp1] grows_alloc_ok [OF g2] key2 unfolding n2 by auto
  obtain pg where pg: "frame_at w3 pp2 = Some pg" using holds_frame_at [OF a3(2,4)] by blast
  obtain w4 where w4: "store_at w3 pp2 (new_page pg 2) = Some w4" "page_changed w3 f 2 (new_page pg 2) w4" using store_changed [OF a3(2,4)] by blast
  have c4: "pool_ok w4" "env_same w3 w4" "pins w4 = pins w3" "holds w4 f 1 pp1" using w4(2) a3(5) c2(4) by (simp_all add: page_changed_def)
  obtain hdr2 where hdr2: "frame_at w4 pp1 = Some hdr2" using holds_frame_at [OF c4(1,4)] by blast
  obtain w5 where w5: "store_at w4 pp1 (fresh_header hdr2 2) = Some w5" "page_changed w4 f 1 (fresh_header hdr2 2) w5" using store_changed [OF c4(1,4)] by blast
  have c5: "pool_ok w5" "env_same w4 w5" "pins w5 = pins w4" "holds w5 f 2 pp2" "holds w5 f 1 pp1"
    using w5(2) w4(2) a3(4) c4(4) by (simp_all add: page_changed_def)
  obtain w6 where w6: "BufMgr_unPinPage w5 f 2 True = Some (OK, w6)" "view_same w5 w6"
     "\<forall>g q. pins w6 g q = pins w5 g q - (if (g, q) = (f, 2) then 1 else 0)"
     "\<forall>g q j. holds w5 g q j \<longrightarrow> (g, q) \<noteq> (f, 2) \<or> 1 < pins w5 f 2 \<longrightarrow> holds w6 g q j"
    using unpin_step [OF c5(1,4), of True] by blast
  have h6: "holds w6 f 1 pp1" using w6(4) c5(5) by auto
  obtain w7 where w7: "BufMgr_unPinPage w6 f 1 True = Some (OK, w7)" "view_same w6 w7"
     "\<forall>g q. pins w7 g q = pins w6 g q - (if (g, q) = (f, 1) then 1 else 0)"
     "\<forall>g q j. holds w6 g q j \<longrightarrow> (g, q) \<noteq> (f, 1) \<or> 1 < pins w6 f 1 \<longrightarrow> holds w7 g q j"
    using unpin_step [OF view_sameD(1) [OF w6(2)] h6, of True] by blast
  note v = view_sameD [OF view_same_trans [OF w6(2) w7(2)]]
  have b2: "buf_inv w2" using c2(1) by (simp add: pool_ok_def)
  have "grows w5 f 3"
    using allocPage_grows [OF b2 g2 _ a3(1)] grows_changed [OF w4(2) store_view [OF w4(1)]] grows_changed [OF w5(2) store_view [OF w5(1)]] by simp
  then have "grows w7 f 3" using grows_end_page [OF c5(1)] grows_end_page [OF v(1)] v(2) by simp
  moreover have "pins w7 = pins w" using w7(3) w6(3) c5(3) c4(3) a3(6) c2(3) a1(6) by (auto simp: fun_eq_iff)
  moreover have "env_same w w7"
    using env_same_trans [OF env_same_trans [OF env_same_trans [OF env_same_trans [OF env_same_trans [OF a1(3) c2(2)] a3(3)] c4(2)] c5(2)] v(5)] .
  moreover have us: "used_pages g w7 = (if g = f then {1, 2} else used_pages g w)" for g
    using v(3) w5(2) w4(2) a3(7) w2(2) a1(7) f(3) by (auto simp: page_changed_def)
  moreover have "lpage w7 g q = lpage w g q" if "g \<noteq> f" for g q
    using that v(2) w5(2) w4(2) a3(8) w2(2) a1(7,8) by (simp add: page_changed_def)
  moreover have "clean w7 g q" if q: "g \<noteq> f" "q \<in> used_pages g w" "clean w g q" for g q
  proof -
    have u: "q \<in> used_pages g w1" "q \<in> used_pages g w2" "q \<in> used_pages g w3" using q a1(7) a3(7) w2(2) by (auto simp: page_changed_def)
    have "clean w1 g q" using a1(9) q unfolding clean_kept_def by blast
    then have "clean w2 g q" using w2(2) q(1) by (simp add: page_changed_def)
    then have "clean w3 g q" using a3(9) u(2) unfolding clean_kept_def by blast
    then have "clean w5 g q" "q \<in> used_pages g w5" using w4(2) w5(2) q(1) u(3) by (simp_all add: page_changed_def)
    then show ?thesis using v(6) by blast
  qed
  moreover have "holds w7 g q j" if g: "g \<noteq> f" "holds w g q j" for g q j
  proof -
    have "holds w5 g q j" using g(2) a1(5) w2(2) a3(5) w4(2) w5(2) by (simp add: page_changed_def)
    then show ?thesis using g(1) w6(4) w7(4) by blast
  qed
  moreover have "lpage w7 f 1 = Some (page_img (fresh_header hdr2 2))" "lpage w7 f 2 = Some (page_img (new_page pg 2))"
    using v(2) w5(2) w4(2) by (simp_all add: page_changed_def)
  ultimately show ?thesis
    using a1(1) hdr w2(1) a3(1) pg w4(1) hdr2 w5(1) w6(1) w7(1) v(1) by blast
qed

lemma open_missing_eq:
  assumes inv: "db_inv w" and nm: "nm \<noteq> []" "oft_map (openFiles w) nm = None" "disk w (unix_name nm) = None" "files w (newAddr w (newCnt w)) = None"
  shows "DB_openFile w nm fp = Some (UNIXERR, newAddr w (newCnt w), w\<lparr>newCnt := newCnt w + 1\<rparr>)"
proof -
  have "(files w)(newAddr w (newCnt w) := None) = files w" using nm(4) by auto
  then show ?thesis
    using nm by (simp add: DB_openFile_def find_open [OF inv] File_open_def new_File_def sys_open_def delete_File_def Let_def)
qed

lemma newCnt_same [simp]:
  "db_inv (w\<lparr>newCnt := n\<rparr>) = db_inv w" "lpage (w\<lparr>newCnt := n\<rparr>) = lpage w" "pins (w\<lparr>newCnt := n\<rparr>) = pins w"
proof -
  have v: "fs_view (w\<lparr>newCnt := n\<rparr>) = fs_view w" by (simp add: fs_view_def)
  note c = fs_view_cong [OF v] desc_ok_view [OF v]
  have "fd_name (w\<lparr>newCnt := n\<rparr>) = fd_name w" by (rule fd_name_cong) simp
  then show "db_inv (w\<lparr>newCnt := n\<rparr>) = db_inv w"
    by (simp add: db_inv_def buf_inv_def coherent_def c disk_ok_def file_obj_ok_def)
  show "lpage (w\<lparr>newCnt := n\<rparr>) = lpage w" by (simp add: lpage_def c fun_eq_iff split: option.splits)
  show "pins (w\<lparr>newCnt := n\<rparr>) = pins w" by (simp add: pins_def fun_eq_iff split: option.splits)
qed

lemma empty_file_grows:
  assumes "file_ok u" "in_use u = {}"
  shows "free_list u = [] \<and> npages u = 1"
proof -
  have "1 \<notin> set (free_list u)" "1 \<le> npages u" "set (free_list u) \<subseteq> {2..<npages u}" using assms(1) by (auto simp: file_ok_def)
  moreover have "npages u = 1"
  proof (rule ccontr)
    assume "npages u \<noteq> 1"
    then have "1 \<in> in_use u" using calculation by (simp add: in_use_def)
    then show False using assms(2) by simp
  qed
  ultimately show ?thesis by (cases "free_list u") auto
qed

text \<open>A file that has just been opened and has no page yet becomes an empty heap file.\<close>

lemma init_heap_file:
  assumes inv: "db_inv w" and nm: "file_name w f = Some nm" and f: "grows w f 1" "used_pages f w = {}" "open_count w f = 1" "\<forall>p. pins w f p = 0"
    and sp: "spare w 2" and key: "bht_valid (hashTable w) (f, 1)" "bht_valid (hashTable w) (f, 2)"
  shows "\<exists>pp1 w1 hdr w2 pp2 w3 pg w4 hdr2 w5 w6 w7 w8 w'. BufMgr_allocPage w f 0 None = Some (OK, 1, pp1, w1) \<and> frame_at w1 pp1 = Some hdr \<and>
     store_at w1 pp1 (strncpy hdr 0 (c_str nm) 50) = Some w2 \<and> BufMgr_allocPage w2 f 0 pp1 = Some (OK, 2, pp2, w3) \<and> frame_at w3 pp2 = Some pg \<and>
     store_at w3 pp2 (new_page pg 2) = Some w4 \<and> frame_at w4 pp1 = Some hdr2 \<and> store_at w4 pp1 (fresh_header hdr2 2) = Some w5 \<and>
     BufMgr_unPinPage w5 f 2 True = Some (OK, w6) \<and> BufMgr_unPinPage w6 f 1 True = Some (OK, w7) \<and>
     BufMgr_flushFile w7 f = Some (OK, w8) \<and> DB_closeFile w8 f = Some (OK, w') \<and> db_inv w' \<and>
     heap_at (file_view w' nm) (file_used w' nm) [2] \<and> heap_recs (file_view w' nm) [2] = Map.empty \<and> end_page (file_view w' nm) 3 \<and>
     oft_map (openFiles w') = (oft_map (openFiles w))(nm := None) \<and> pins w' = pins w \<and> frames w' = frames w \<and>
     bht_valid (hashTable w') = bht_valid (hashTable w) \<and> newCnt w' = newCnt w \<and> newAddr w' = newAddr w \<and> files w' = (files w)(f := None) \<and>
     (\<forall>g. g \<noteq> f \<longrightarrow> lpage w' g = lpage w g \<and> used_pages g w' = used_pages g w) \<and>
     (\<forall>g q. g \<noteq> f \<longrightarrow> q \<in> used_pages g w \<longrightarrow> clean w g q \<longrightarrow> clean w' g q) \<and> (\<forall>g q j. g \<noteq> f \<longrightarrow> holds w g q j \<longrightarrow> holds w' g q j) \<and>
     (\<forall>n. oft_map (openFiles w) n = None \<longrightarrow> disk w' n = disk w n)"
proof -
  have ok: "pool_ok w" by (rule db_inv_pool [OF inv])
  have ot: "oft_map (openFiles w) nm = Some f" using open_name_table [OF inv] nm by simp
  have nn: "f \<noteq> NULL" using db_inv_table [OF inv ot] db_inv_obj [OF inv] by (auto simp: file_obj_ok_def)
  obtain pp1 w1 hdr w2 pp2 w3 pg w4 hdr2 w5 w6 w7 where st: "BufMgr_allocPage w f 0 None = Some (OK, 1, pp1, w1)" "frame_at w1 pp1 = Some hdr"
     "store_at w1 pp1 (strncpy hdr 0 (c_str nm) 50) = Some w2" "BufMgr_allocPage w2 f 0 pp1 = Some (OK, 2, pp2, w3)" "frame_at w3 pp2 = Some pg"
     "store_at w3 pp2 (new_page pg 2) = Some w4" "frame_at w4 pp1 = Some hdr2" "store_at w4 pp1 (fresh_header hdr2 2) = Some w5"
     "BufMgr_unPinPage w5 f 2 True = Some (OK, w6)" "BufMgr_unPinPage w6 f 1 True = Some (OK, w7)"
     and w7: "pool_ok w7" "env_same w w7" "lpage w7 f 1 = Some (page_img (fresh_header hdr2 2))" "lpage w7 f 2 = Some (page_img (new_page pg 2))"
     "\<forall>g q. g \<noteq> f \<longrightarrow> lpage w7 g q = lpage w g q" "pins w7 = pins w"
     "\<forall>g. used_pages g w7 = (if g = f then {1, 2} else used_pages g w)" "grows w7 f 3"
     "\<forall>g q. g \<noteq> f \<longrightarrow> q \<in> used_pages g w \<longrightarrow> clean w g q \<longrightarrow> clean w7 g q" "\<forall>g q j. g \<noteq> f \<longrightarrow> holds w g q j \<longrightarrow> holds w7 g q j"
    using init_pages [OF ok nn f(1,2) sp key, of "c_str nm"] by (elim exE conjE) blast
  have b7: "buf_inv w7" "coherent w7" "db_inv w7" using w7(1) db_inv_env [OF inv w7(1,2)] by (simp_all add: pool_ok_def)
  obtain w8 where w8: "BufMgr_flushFile w7 f = Some (OK, w8)" "flushed w7 f w8" using flushFile_spec [OF b7(1,2) nn] f(4) w7(6) by auto
  have c8: "db_inv w8" "lpage w8 = lpage w7" "used_pages g w8 = used_pages g w7" "pins w8 = pins w" "env_same w w8" for g
  proof -
    have fl: "buf_inv w8" "coherent w8" "buf_frame w7 w8" "lpage w8 = lpage w7" "\<forall>g. used_pages g w8 = used_pages g w7"
       "bht_valid (hashTable w8) = bht_valid (hashTable w7)" "frames w8 = frames w7" using w8(2) unfolding flushed_def by blast+
    show "db_inv w8" by (rule db_inv_frame [OF b7(3) fl(1-3)])
    show "env_same w w8" using w7(2) fl(3,6,7) buf_frame_trans by (auto simp: env_same_def)
    show "lpage w8 = lpage w7" "used_pages g w8 = used_pages g w7" "pins w8 = pins w" using fl flushed_pins [OF b7(1) w8(2)] w7(6) by auto
  qed
  note e8 = env_same_db [OF c8(5)]
  have fn: "file_name w8 f = Some nm" using open_name_table [OF c8(1)] ot e8 by simp
  have oc: "open_count w8 f = 1" using e8 f(3) by (simp add: open_count_def)
  obtain w' where c: "DB_closeFile w8 f = Some (OK, w')" "closed w8 nm f w'" using close_spec [OF c8(1) fn] c8(4) f(4) by auto
  have cl: "db_inv w'" "file_view w' nm = lpage w7 f" "file_used w' nm = {1, 2}" "pins w' = pins w" "frames w' = frames w"
     "bht_valid (hashTable w') = bht_valid (hashTable w)" "newAddr w' = newAddr w" "newCnt w' = newCnt w"
     "oft_map (openFiles w') = (oft_map (openFiles w))(nm := None)" "open_count w' f = 0"
     "\<forall>g. g \<noteq> f \<longrightarrow> lpage w' g = lpage w7 g \<and> files w' g = files w g \<and> used_pages g w' = used_pages g w"
    using c(2) c8 w7(7) oc e8 by (auto simp: closed_def env_same_def)
  have "files w' f = None"
    using cl(10) db_inv_obj [OF cl(1), of f] by (cases "files w' f") (auto simp: open_count_def file_obj_ok_def)
  then have fl: "files w' = (files w)(f := None)" using cl(11) by auto
  note np = page_init_link [of 2 pg, unfolded int_ok_def, simplified]
  have ch: "chain (lpage w7 f) [2]" using w7(4) np by simp
  have rids: "heap_rids (lpage w7 f) [2] = []" using w7(4) np by (simp add: page_rids_def page_img_recs)
  have "heap_at (file_view w' nm) (file_used w' nm) [2]"
    using ch w7(3) fresh_header_ok [OF _ rids, of hdr2] cl(2,3) by (simp add: heap_at_def int_ok_def)
  moreover have "heap_recs (file_view w' nm) [2] = Map.empty"
    using w7(4) np cl(2) by (auto simp: heap_recs_def fun_eq_iff page_img_recs)
  moreover have "\<forall>g. g \<noteq> f \<longrightarrow> lpage w' g = lpage w g \<and> used_pages g w' = used_pages g w" using cl(11) w7(5) by (auto simp: fun_eq_iff)
  moreover have "clean w' g q" if "g \<noteq> f" "q \<in> used_pages g w" "clean w g q" for g q
    using c(2) flushed_clean [OF b7(1) w8(2) that(1)] w7(9) that unfolding closed_def by blast
  moreover have "holds w' g q j" if g: "g \<noteq> f" "holds w g q j" for g q j
  proof -
    have "holds w7 g q j" using w7(10) g by blast
    then have "holds w8 g q j" using flushed_frames [OF b7(1) w8(2)] c8(4) w7(6) by (simp add: holds_def)
    then show ?thesis using c(2) unfolding closed_def by blast
  qed
  moreover have "disk w' n = disk w n" if "oft_map (openFiles w) n = None" for n
    using c(2) that e8 env_same_disk [OF inv c8(5) that] by (simp add: closed_def)
  moreover have "end_page (file_view w' nm) 3" using w7(8) grows_end_page [OF w7(1)] cl(2) by simp
  ultimately show ?thesis using st w8(1) c(1) cl(1,4-9) fl by blast
qed

lemma createHeapFile_spec:
  assumes inv: "db_inv w" and nm: "nm \<noteq> []" "disk w nm = None" "unix_name nm = nm" and sp: "spare w 2"
    and a: "files w (newAddr w (newCnt w)) = None"
    and f: "f = newAddr w (newCnt w + 1)" "f \<noteq> NULL" "files w f = None" "bht_valid (hashTable w) (f, 1)" "bht_valid (hashTable w) (f, 2)"
  shows "\<exists>w'. createHeapFile w nm = Some (OK, w') \<and> db_inv w' \<and> stored_heap w' nm [2] \<and> heap_recs (file_view w' nm) [2] = Map.empty \<and>
     end_page (file_view w' nm) 3 \<and> (\<forall>n. n \<noteq> nm \<longrightarrow> oft_map (openFiles w) n = None \<longrightarrow> disk w' n = disk w n) \<and>
     oft_map (openFiles w') = oft_map (openFiles w) \<and> pins w' = pins w \<and> frames w' = frames w \<and> files w' = files w \<and>
     bht_valid (hashTable w') = bht_valid (hashTable w) \<and> newCnt w' = newCnt w + 2 \<and> newAddr w' = newAddr w \<and>
     (\<forall>g q. q \<in> used_pages g w \<longrightarrow> lpage w' g q = lpage w g q) \<and> (\<forall>m g. oft_map (openFiles w) m = Some g \<longrightarrow>
        lpage w' g = lpage w g \<and> used_pages g w' = used_pages g w \<and> (\<forall>q \<in> used_pages g w. clean w g q \<longrightarrow> clean w' g q)) \<and>
     (\<forall>g q j. holds w g q j \<longrightarrow> holds w' g q j)"
proof -
  have no: "oft_map (openFiles w) nm = None" using db_inv_open_disk [OF inv, of nm] nm(2) by (cases "oft_map (openFiles w) nm") auto
  define w1 where "w1 = w\<lparr>newCnt := newCnt w + 1\<rparr>"
  have o1: "DB_openFile w nm NULL = Some (UNIXERR, newAddr w (newCnt w), w1)" unfolding w1_def by (rule open_missing_eq [OF inv nm(1) no _ a]) (use nm(2,3) in simp)
  have inv1: "db_inv w1" "lpage w1 = lpage w" "pins w1 = pins w" using inv by (simp_all add: w1_def)
  obtain w2 u where c: "DB_createFile w1 nm = Some (OK, w2)" "w2 = w1\<lparr>disk := (disk w1)(nm \<mapsto> u)\<rparr>" "db_inv w2" "file_ok u" "in_use u = {}"
     "lpage w2 = lpage w1" "pins w2 = pins w1"
    using createFile_spec [OF inv1(1) nm(1)] nm(2,3) by (auto simp: w1_def)
  have sel: "oft_map (openFiles w2) = oft_map (openFiles w)" "files w2 = files w" "newAddr w2 (newCnt w2) = f" "disk w2 nm = Some u"
     "hashTable w2 = hashTable w" "frames w2 = frames w" "newAddr w2 = newAddr w" "newCnt w2 = newCnt w + 1" "fds w2 = fds w"
    using c(2) f(1) by (simp_all add: w1_def)
  have h: "handle w2 nm = f" using sel no by (simp add: handle_def)
  obtain w3 where o3: "DB_openFile w2 nm (newAddr w (newCnt w)) = Some (OK, f, w3)" "opened w2 nm w3" "newCnt w3 = newCnt w2 + 1" "newAddr w3 = newAddr w2"
    using open_spec [OF c(3), of nm "newAddr w (newCnt w)"] open_new [OF c(3) nm(1) _ sel(4) sel(3) [symmetric] f(2), of "newAddr w (newCnt w)"] sel f nm no h
    by (auto simp: can_open_def)
  have w3: "db_inv w3" "oft_map (openFiles w3) = (oft_map (openFiles w))(nm \<mapsto> f)" "pins w3 = pins w" "hashTable w3 = hashTable w" "frames w3 = frames w"
     "disk w3 = disk w2" "open_count w3 f = 1" "\<forall>g. g \<noteq> f \<longrightarrow> files w3 g = files w g \<and> lpage w3 g = lpage w g"
    using o3(2) sel inv1 c(6,7) f(3) by (auto simp: opened_def h same_pool_def open_count_def)
  have fn: "file_name w3 f = Some nm" using open_name_table [OF w3(1)] w3(2) by simp
  have fo: "file_of w3 f = Some u" using fn w3(6) sel(4) by (simp add: file_of_def)
  have g3: "grows w3 f 1" "used_pages f w3 = {}" using fo empty_file_grows [OF c(4,5)] c(5) by (simp_all add: grows_def used_pages_def)
  have p3: "\<forall>p. pins w3 f p = 0" using w3(3) not_open_not_buffered [OF inv f(3)] by (simp add: pins_def)
  have sp3: "spare w3 2" using spare_le [OF sp db_inv_pool [OF inv], of w3] w3(3,5) by simp
  have k3: "bht_valid (hashTable w3) (f, 1)" "bht_valid (hashTable w3) (f, 2)" using f(4,5) w3(4) by simp_all
  obtain pp1 w4 hdr w5 pp2 w6 pg w7 hdr2 w8 w9 w10 w11 w' where st: "BufMgr_allocPage w3 f 0 None = Some (OK, 1, pp1, w4)" "frame_at w4 pp1 = Some hdr"
     "store_at w4 pp1 (strncpy hdr 0 (c_str nm) 50) = Some w5" "BufMgr_allocPage w5 f 0 pp1 = Some (OK, 2, pp2, w6)" "frame_at w6 pp2 = Some pg"
     "store_at w6 pp2 (new_page pg 2) = Some w7" "frame_at w7 pp1 = Some hdr2" "store_at w7 pp1 (fresh_header hdr2 2) = Some w8"
     "BufMgr_unPinPage w8 f 2 True = Some (OK, w9)" "BufMgr_unPinPage w9 f 1 True = Some (OK, w10)"
     "BufMgr_flushFile w10 f = Some (OK, w11)" "DB_closeFile w11 f = Some (OK, w')"
     and ep: "end_page (file_view w' nm) 3"
     and r: "db_inv w'" "heap_at (file_view w' nm) (file_used w' nm) [2]" "heap_recs (file_view w' nm) [2] = Map.empty"
     "oft_map (openFiles w') = (oft_map (openFiles w3))(nm := None)" "pins w' = pins w3" "frames w' = frames w3"
     "bht_valid (hashTable w') = bht_valid (hashTable w3)" "newCnt w' = newCnt w3" "newAddr w' = newAddr w3" "files w' = (files w3)(f := None)"
     "\<forall>g. g \<noteq> f \<longrightarrow> lpage w' g = lpage w3 g \<and> used_pages g w' = used_pages g w3" "\<forall>n. oft_map (openFiles w3) n = None \<longrightarrow> disk w' n = disk w3 n"
     "\<forall>g q. g \<noteq> f \<longrightarrow> q \<in> used_pages g w3 \<longrightarrow> clean w3 g q \<longrightarrow> clean w' g q" "\<forall>g q j. g \<noteq> f \<longrightarrow> holds w3 g q j \<longrightarrow> holds w' g q j"
    using init_heap_file [OF w3(1) fn g3 w3(7) p3 sp3 k3] by (elim exE conjE) blast
  have run: "createHeapFile w nm = Some (OK, w')"
    using o1 c(1) o3(1) st by (simp add: createHeapFile_def Page_setNextPage_def fresh_header_def)
  have ot: "oft_map (openFiles w') = oft_map (openFiles w)" using r(4) w3(2) no by (simp add: fun_upd_idem)
  have fl: "files w' = files w" using r(10) w3(8) f(3) by auto
  have op: "lpage w' g = lpage w g \<and> used_pages g w' = used_pages g w \<and> (\<forall>q \<in> used_pages g w. clean w g q \<longrightarrow> clean w' g q)"
    if m: "oft_map (openFiles w) m = Some g" for m g
  proof -
    have g: "g \<noteq> f" "m \<noteq> nm" using db_inv_table [OF inv m] f(3) no m by auto
    have n: "file_name w g = Some m" "file_name w2 g = Some m" "file_name w3 g = Some m"
      using open_name_table [OF inv, of g m] open_name_table [OF c(3), of g m] open_name_table [OF w3(1), of g m] m w3(2) sel(1) g(2) by simp_all
    then have "file_of w3 g = file_of w g" "file_of w2 g = file_of w g" using w3(6) c(2) g(2) by (simp_all add: file_of_def w1_def)
    then have u: "used_pages g w3 = used_pages g w" "disk_page w2 g = disk_page w g" by (simp_all add: used_pages_def disk_page_def fun_eq_iff)
    have "clean w3 g q" if "clean w g q" for q
    proof -
      have "clean w2 g q" using that u(2) c(2) by (simp add: clean_def w1_def)
      then show ?thesis using o3(2) unfolding opened_def by blast
    qed
    then show ?thesis using r(11,13) g(1) w3(8) u(1) by auto
  qed
  have "lpage w' g q = lpage w g q" if q: "q \<in> used_pages g w" for g q
  proof -
    obtain m where "file_name w g = Some m" using used_file [OF q] by (auto simp: file_of_def split: bind_splits)
    then show ?thesis using op [of m g] open_name_table [OF inv] by simp
  qed
  moreover have "disk w' n = disk w n" if "n \<noteq> nm" "oft_map (openFiles w) n = None" for n
    using r(12) w3(2,6) c(2) that by (simp add: w1_def)
  moreover have "holds w' g q j" if h: "holds w g q j" for g q j
  proof -
    have "same_pool w2 w3" using o3(2) by (simp add: opened_def)
    then have "holds w3 g q j" using h w3(3) c(2) by (simp add: holds_def same_pool_def w1_def)
    moreover have "g \<noteq> f" using h p3 w3(3) by (auto simp: holds_def)
    ultimately show ?thesis using r(14) by blast
  qed
  ultimately show ?thesis
    using run ep r(1-3) ot fl r(5-9) w3(3,4,5) o3(3,4) sel(7,8) op by (intro exI [of _ w']) (simp add: stored_heap_def)
qed

end
