(* ===== verification/HeapSession.thy ===== *)
theory HeapSession
  imports HeapLife
begin

text \<open>
  Heap files as a client sees them: the locale \<open>cursor\<close> for anything that is read record by
  record, and sessions that open a file, insert or scan and close it again.
\<close>

section \<open>Reading to the end\<close>

text \<open>Calling a \<open>next\<close> operation until it reports the end, at most \<open>n\<close> times.\<close>

fun drain :: "('s \<Rightarrow> ('r option \<times> 's) option) \<Rightarrow> nat \<Rightarrow> 's \<Rightarrow> ('r list \<times> 's) option" where
  "drain nxt 0 s = Some ([], s)"
| "drain nxt (Suc n) s = do {
     (r, s) \<leftarrow> nxt s;
     case r of
       None \<Rightarrow> Some ([], s)
     | Some x \<Rightarrow> do { (xs, s) \<leftarrow> drain nxt n s; Some (x # xs, s) }
   }"

locale cursor =
  fixes at :: "'s \<Rightarrow> 'r list \<Rightarrow> bool"
    and nxt :: "'s \<Rightarrow> ('r option \<times> 's) option"
  assumes nxt_end: "at s [] \<Longrightarrow> \<exists>s'. nxt s = Some (None, s') \<and> at s' []"
    and nxt_more: "at s (r # rs) \<Longrightarrow> \<exists>s'. nxt s = Some (Some r, s') \<and> at s' rs"
begin

lemma drain_all: "at s rs \<Longrightarrow> length rs < n \<Longrightarrow> \<exists>s'. drain nxt n s = Some (rs, s') \<and> at s' []"
proof (induction rs arbitrary: s n)
  case Nil
  then show ?case using nxt_end [of s] by (cases n) auto
next
  case (Cons r rs)
  then obtain m where m: "n = Suc m" "length rs < m" by (cases n) auto
  obtain s1 where s1: "nxt s = Some (Some r, s1)" "at s1 rs" using nxt_more [OF Cons.prems(1)] by blast
  then show ?case using Cons.IH [OF s1(2) m(2)] m(1) by auto
qed

text \<open>Reading a prefix only.\<close>

lemma drain_some: "at s (rs @ rs') \<Longrightarrow> rs' \<noteq> [] \<Longrightarrow> n = length rs \<Longrightarrow> \<exists>s'. drain nxt n s = Some (rs, s') \<and> at s' rs'"
proof (induction rs arbitrary: s n)
  case (Cons r rs)
  obtain s1 where s1: "nxt s = Some (Some r, s1)" "at s1 (rs @ rs')" using nxt_more [of s r "rs @ rs'"] Cons.prems(1) by auto
  then show ?case using Cons.IH [OF s1(2) Cons.prems(2)] Cons.prems(3) by auto
qed simp

end

section \<open>Scanning\<close>

type_synonym item = "RID \<times> byte list"

definition scan_step :: "'a buf_state_scheme \<times> HeapFileScan \<Rightarrow> (item option \<times> 'a buf_state_scheme \<times> HeapFileScan) option" where
  "scan_step st = do {
     (status, rid, s, w) \<leftarrow> scanNext (fst st) (snd st) NULLRID;
     if status = OK then do {
       (status, ref) \<leftarrow> HeapFileScan_getRecord w s no_rec;
       p \<leftarrow> frame_at w (hf_curPage s);
       rec \<leftarrow> deref p ref;
       if status = OK then Some (Some (rid, rec_data rec), w, s) else None
     }
     else if status = FILEEOF then Some (None, w, s) else None
   }"

definition item_at :: "(int \<Rightarrow> page option) \<Rightarrow> RID \<Rightarrow> item" where
  "item_at P r = (r, the (page_recs (the (P (pageNo r))) (nat (slotNo r))))"

text \<open>The records of a chain of pages in the order of a scan.\<close>

definition heap_items :: "(int \<Rightarrow> page option) \<Rightarrow> int list \<Rightarrow> item list" where
  "heap_items P ps = map (item_at P) (heap_rids P ps)"

definition scan_here :: "'a buf_state_scheme \<Rightarrow> HeapFileScan \<Rightarrow> int list \<Rightarrow> 'a buf_state_scheme \<times> HeapFileScan \<Rightarrow> item list \<Rightarrow> bool" where
  "scan_here w s ps st items \<longleftrightarrow> filter_ok (snd st) \<and> scan_moved w s (fst st) (snd st) \<and>
     (\<exists>p qs. scan_at (fst st) (snd st) p qs \<and> set (p # qs) \<subseteq> set ps \<and>
        items = map (item_at (lpage w (filePtr s))) (filter (wanted w s) (to_come (fst st) (snd st) p qs)))"

text \<open>The record at the current position can be read.\<close>

lemma scan_get:
  assumes at: "scan_at w s p qs" and mem: "curRec s \<in> set (page_rids (the (lpage w (filePtr s) p)))"
  shows "\<exists>ref pg. HeapFileScan_getRecord w s no_rec = Some (OK, ref) \<and> frame_at w (hf_curPage s) = Some pg \<and>
     (\<exists>n. deref pg ref = Some \<lparr>rec_data = snd (item_at (lpage w (filePtr s)) (curRec s)), rec_length = n\<rparr>)"
proof -
  obtain pg where pg: "frame_at w (hf_curPage s) = Some pg" "lpage w (filePtr s) p = Some (page_img pg)" "page_inv pg" "curPage pg = p"
     "page_rids (the (lpage w (filePtr s) p)) = page_rids pg" by (rule scan_at_page [OF at])
  obtain k where k: "curRec s = RID p (int k)" "live pg k" using mem pg by (auto simp: page_rids_mem)
  then have "page_recs pg k \<noteq> None" by (simp add: page_recs_def)
  then obtain b where b: "page_recs pg k = Some b" by blast
  obtain ref where "Page_getRecord pg (curRec s) no_rec = Some (OK, ref)" "deref pg ref = Some \<lparr>rec_data = b, rec_length = int (length b)\<rparr>"
    using get_on_page [OF pg(3), of "curRec s" no_rec] k(1) b by auto
  then show ?thesis using pg(1,2,3) k(1) b by (simp add: HeapFileScan_getRecord_def item_at_def page_img_recs)
qed

lemma filter_dropWhile: "filter P xs = (case dropWhile (\<lambda>x. \<not> P x) xs of [] \<Rightarrow> [] | y # ys \<Rightarrow> y # filter P ys)"
  by (induction xs) auto

lemma scan_step_spec:
  assumes "scan_here w s ps st items"
  shows "\<exists>st'. scan_step st = Some (case items of [] \<Rightarrow> None | r # rs \<Rightarrow> Some r, st') \<and> scan_here w s ps st' (tl items)"
proof -
  obtain w1 s1 where st: "st = (w1, s1)" by (cases st)
  obtain p qs where a: "filter_ok s1" "scan_moved w s w1 s1" "scan_at w1 s1 p qs" "set (p # qs) \<subseteq> set ps" "items = map (item_at (lpage w (filePtr s))) (filter (wanted w s) (to_come w1 s1 p qs))"
    using assms by (auto simp: scan_here_def st)
  have wn: "wanted w1 s1 = wanted w s" by (rule wanted_moved [OF a(2)])
  have at: "pool_ok w1" "holds w1 (filePtr s1) p (hf_curPage s1)" "curPageNo s1 = p" using a(3) by (simp_all add: scan_at_def)
  have "0 \<le> p" using used_int_ok [OF holds_used [OF at(1,2)]] by simp
  then have "hf_curPage s1 \<noteq> None" "0 \<le> curPageNo s1" using at(2,3) by (auto simp: holds_def)
  then have run: "scanNext w1 s1 NULLRID = scan_records w1 s1 NULLRID" by (simp add: scanNext_def)
  obtain s2 w2 p2 qs2 where r: "scan_moved w1 s1 w2 s2"
     "records_stop (scan_records w1 s1 NULLRID) NULLRID (dropWhile (\<lambda>r. \<not> wanted w1 s1 r) (to_come w1 s1 p qs)) w2 s2 p2 qs2" "set (p2 # qs2) \<subseteq> set (p # qs)"
    using scan_records_spec [OF a(3,1)] by blast
  have ok: "filter_ok s2" "scan_moved w s w2 s2" "set (p2 # qs2) \<subseteq> set ps"
    using a(1) scan_moved_sel(7) [OF r(1)] scan_moved_trans [OF a(2) r(1)] subset_trans [OF r(3) a(4)] by simp_all
  show ?thesis
  proof (cases "dropWhile (\<lambda>r. \<not> wanted w1 s1 r) (to_come w1 s1 p qs)")
    case Nil
    then have rr: "items = []" using a(5) filter_dropWhile [of "wanted w s" "to_come w1 s1 p qs"] wn by simp
    have rn: "scan_records w1 s1 NULLRID = Some (FILEEOF, NULLRID, s2, w2)" "scan_at w2 s2 p2 qs2" "to_come w2 s2 p2 qs2 = []"
      using r(2) Nil by (simp_all add: records_stop_def)
    have "scan_here w s ps (w2, s2) (tl items)"
      using rr rn(2,3) ok unfolding scan_here_def fst_conv snd_conv by (intro conjI exI [of _ p2] exI [of _ qs2]) simp_all
    then show ?thesis using rr rn(1) by (intro exI [of _ "(w2, s2)"]) (simp add: scan_step_def st run)
  next
    case (Cons x xs)
    then have rr: "items = item_at (lpage w (filePtr s)) x # map (item_at (lpage w (filePtr s))) (filter (wanted w s) xs)" using a(5) filter_dropWhile [of "wanted w s" "to_come w1 s1 p qs"] wn by simp
    have rn: "scan_records w1 s1 NULLRID = Some (OK, x, s2, w2)" "scan_at w2 s2 p2 qs2" "to_come w2 s2 p2 qs2 = xs" "curRec s2 = x" "x \<in> set (page_rids (the (lpage w2 (filePtr s2) p2)))"
      using r(2) Cons by (simp_all add: records_stop_def)
    have "scan_here w s ps (w2, s2) (tl items)"
      using rr rn(2,3) ok unfolding scan_here_def fst_conv snd_conv by (intro conjI exI [of _ p2] exI [of _ qs2]) simp_all
    moreover have "item_at (lpage w2 (filePtr s2)) x = item_at (lpage w (filePtr s)) x"
      using view_sameD(2) [OF scan_moved_view [OF ok(2)]] scan_moved_sel(1) [OF ok(2)] by simp
    moreover obtain ref pg n where "HeapFileScan_getRecord w2 s2 no_rec = Some (OK, ref)" "frame_at w2 (hf_curPage s2) = Some pg"
       "deref pg ref = Some \<lparr>rec_data = snd (item_at (lpage w2 (filePtr s2)) (curRec s2)), rec_length = n\<rparr>"
      using scan_get [OF rn(2)] rn(4,5) by auto
    ultimately show ?thesis using rr rn(1,4) by (intro exI [of _ "(w2, s2)"]) (simp add: scan_step_def st run item_at_def)
  qed
qed

interpretation heap_scan: cursor "scan_here w s ps" scan_step for w s ps
proof unfold_locales
  fix st r rs
  show "\<exists>st'. scan_step st = Some (None, st') \<and> scan_here w s ps st' []" if "scan_here w s ps st []"
    using scan_step_spec [OF that] by simp
  show "\<exists>st'. scan_step st = Some (Some r, st') \<and> scan_here w s ps st' rs" if "scan_here w s ps st (r # rs)"
    using scan_step_spec [OF that] by simp
qed

text \<open>An object whose current page is the first one, with nothing read yet.\<close>

lemma scan_start:
  assumes op: "hf_open w s ps" and s: "hf_curPage s \<noteq> None" "curPageNo s = hd ps" "curRec s = NULLRID" "movable w (filePtr s) (hd ps)" "\<not> curDirtyFlag s"
    and ok: "filter_ok s"
  shows "scan_here w s ps (w, s) (filter (\<lambda>x. rec_matches s (snd x)) (heap_items (lpage w (filePtr s)) ps))"
proof -
  note od = hf_openD [OF op]
  obtain p qs where ps: "ps = p # qs" using od(2) by (cases ps) auto
  obtain pg where pg: "holds w (filePtr s) p (hf_curPage s)" by (rule hf_open_current [OF op s(1)]) (use s(2) ps in auto)
  have "\<forall>q \<in> set ps. clean w (filePtr s) q" using op s(5) by (auto simp: hf_open_def)
  then have at: "scan_at w s p qs" using od(1,2,5) pg s ps by (auto simp: scan_at_def NULLRID_def)
  have "filter (\<lambda>r. slotNo (curRec s) < slotNo r) (page_rids x) = page_rids x" for x
    using s(3) by (auto simp: filter_id_conv page_rids_mem NULLRID_def)
  then have "to_come w s p qs = heap_rids (lpage w (filePtr s)) ps" by (simp add: to_come_def ps)
  moreover have "filter (\<lambda>x. rec_matches s (snd x)) (map (item_at (lpage w (filePtr s))) rs) = map (item_at (lpage w (filePtr s))) (filter (wanted w s) rs)" for rs
    by (induction rs) (simp_all add: item_at_def wanted_def)
  moreover have "scan_moved w s w s" using scan_moved_refl [OF od(1), of s "curRec s"] by simp
  ultimately show ?thesis unfolding scan_here_def fst_conv snd_conv using at ok ps by (intro conjI exI [of _ p] exI [of _ qs]) (simp_all add: heap_items_def)
qed

text \<open>At the end the object is still open on the same pages.\<close>

lemma scan_here_open:
  assumes op: "hf_open w s ps" "\<not> curDirtyFlag s" "hf_curPage s \<noteq> None" and h: "scan_here w s ps (w', s') rids"
  shows "hf_open w' s' ps \<and> hf_curPage s' \<noteq> None"
proof -
  note od = hf_openD [OF op(1)]
  obtain p qs where a: "scan_moved w s w' s'" "scan_at w' s' p qs" "set (p # qs) \<subseteq> set ps" using h by (auto simp: scan_here_def)
  note sel = scan_moved_sel [OF a(1)]
  note v = view_sameD [OF scan_moved_view [OF a(1)]]
  have at: "holds w' (filePtr s) p (hf_curPage s')" "curPageNo s' = p" using a(2) sel(1) by (simp_all add: scan_at_def)
  have us: "q \<in> used_pages (filePtr s) w" if "q \<in> set (headerPageNo s # ps)" for q using od(5) that by (auto simp: buf_legal_def)
  have "clean w' (filePtr s) q" if "q \<in> set ps" for q using v(6) us [of q] that op by (auto simp: hf_open_def)
  moreover have "hdrDirtyFlag s \<or> clean w' (filePtr s) (headerPageNo s)" using v(6) us [of "headerPageNo s"] op(1) by (auto simp: hf_open_def)
  moreover have "holds w' (filePtr s) (headerPageNo s) (headerPage s)"
  proof -
    have "headerPageNo s \<noteq> curPageNo s" using od(4) op by (auto simp: hf_open_def)
    then show ?thesis using a(1) od(6) unfolding scan_moved_def by (metis prod.inject)
  qed
  moreover have "heap_file w' (filePtr s) (headerPageNo s) ps"
    using op(1) v(2) view_same_legal [OF scan_moved_view [OF a(1)]] by (simp add: hf_open_def heap_file_def)
  moreover have "hf_curPage s' \<noteq> None" using at(1) by (auto simp: holds_def)
  ultimately show ?thesis using at a(3) v(1) by (auto simp: hf_open_def sel)
qed


section \<open>Sessions\<close>

text \<open>A heap file that nobody has open, with its data pages and the number of its next page.\<close>

definition idle :: "'a db_state_scheme \<Rightarrow> string \<Rightarrow> int list \<Rightarrow> int \<Rightarrow> bool" where
  "idle w nm ps n \<longleftrightarrow> db_inv w \<and> nm \<noteq> [] \<and> oft_map (openFiles w) nm = None \<and> stored_heap w nm ps \<and> end_page (file_view w nm) n"

text \<open>What a session needs: a fresh address for the file object, free frames, and hash values in range for the pages up to \<open>n\<close>.\<close>

definition room :: "'a db_state_scheme \<Rightarrow> nat \<Rightarrow> int \<Rightarrow> bool" where
  "room w k n \<longleftrightarrow> (let f = newAddr w (newCnt w) in
     f \<noteq> NULL \<and> files w f = None \<and> spare w k \<and> n < 2 ^ 31 \<and> (\<forall>p. 1 \<le> p \<longrightarrow> p < n \<longrightarrow> bht_valid (hashTable w) (f, p)))"

text \<open>During a session: the object is the only one on the file, and its pins are the only new ones.\<close>

definition in_session :: "'a db_state_scheme \<Rightarrow> string \<Rightarrow> 'a db_state_scheme \<Rightarrow> 'h HeapFile_scheme \<Rightarrow> int list \<Rightarrow> bool" where
  "in_session w nm w1 h ps \<longleftrightarrow> db_inv w1 \<and> hf_open w1 h ps \<and> hf_curPage h \<noteq> None \<and> filePtr h = newAddr w (newCnt w) \<and> headerPageNo h = 1 \<and>
     files w (filePtr h) = None \<and> open_count w1 (filePtr h) = 1 \<and> (\<forall>p. pins w (filePtr h) p = 0) \<and>
     (\<forall>g q. pins w1 g q = pins w g q + (if g = filePtr h then own_pins h q else 0)) \<and>
     oft_map (openFiles w1) = (oft_map (openFiles w))(nm \<mapsto> filePtr h) \<and>
     (\<forall>g q. g \<noteq> filePtr h \<longrightarrow> q \<in> used_pages g w \<longrightarrow> lpage w1 g q = lpage w g q) \<and> (\<forall>g. g \<noteq> filePtr h \<longrightarrow> files w1 g = files w g \<and> used_pages g w1 = used_pages g w) \<and>
     frames w1 = frames w \<and> bht_valid (hashTable w1) = bht_valid (hashTable w) \<and>
     (\<forall>n. n \<noteq> nm \<longrightarrow> oft_map (openFiles w) n = None \<longrightarrow> disk w1 n = disk w n) \<and>
     newAddr w1 = newAddr w \<and> newCnt w1 = newCnt w + 1"

lemma end_page_pos:
  assumes "idle w nm ps n" "p \<in> set (1 # ps)"
  shows "1 \<le> p \<and> p < n"
proof -
  have sh: "heap_at (file_view w nm) (file_used w nm) ps" "oft_map (openFiles w) nm = None" "db_inv w" using assms(1) by (simp_all add: idle_def stored_heap_def)
  then have p: "p \<in> file_used w nm" using assms(2) unfolding heap_at_def by blast
  then obtain u where u: "disk w nm = Some u" "p \<in> in_use u" by (auto simp: file_used_def split: option.splits)
  have "file_view w nm 0 = name_page w nm 0" using sh(2) by (simp add: file_view_def)
  moreover obtain pg where "file_view w nm 0 = Some pg" "numPages pg = n" using assms(1) by (auto simp: idle_def end_page_def)
  ultimately have "npages u = n" using u(1) by (auto simp: name_page_def split: if_splits)
  then show ?thesis using u(2) by (auto simp: in_use_def)
qed

lemma idle_ready:
  assumes "idle w nm ps n" "room w k n" "2 \<le> k"
  shows "db_inv w" "stored_heap w nm ps" "ready w nm ps" "handle w nm = newAddr w (newCnt w)" "\<forall>p. pins w (newAddr w (newCnt w)) p = 0"
proof -
  let ?f = "newAddr w (newCnt w)"
  show i: "db_inv w" "stored_heap w nm ps" "handle w nm = ?f" using assms(1) by (simp_all add: idle_def handle_def)
  have r: "?f \<noteq> NULL" "files w ?f = None" "spare w 2" "\<And>p. 1 \<le> p \<Longrightarrow> p < n \<Longrightarrow> bht_valid (hashTable w) (?f, p)"
    using assms(2,3) by (auto simp: room_def Let_def spare_def)
  have nb: "frame_of w (?f, p) = None" for p by (rule not_open_not_buffered [OF i(1) r(2)])
  then show "\<forall>p. pins w ?f p = 0" by (simp add: pins_def)
  have "disk w nm \<noteq> None"
    using assms(1) by (auto simp: idle_def file_view_def end_page_def name_page_def split: option.splits)
  then have "can_open w nm" using assms(1) r(1,2) by (simp add: can_open_def idle_def)
  moreover have "bht_valid (hashTable w) (?f, p) \<and> clean w ?f p" if "p \<in> set (1 # ps)" for p
    using end_page_pos [OF assms(1) that] r(4) nb by (simp add: clean_def)
  ultimately show "ready w nm ps" using r(3) by (simp add: ready_def i(3))
qed

text \<open>A constructor begins a session.\<close>

lemma started_session:
  assumes idle: "idle w nm ps n" and r: "room w k n" "2 \<le> k" and st: "started w nm ps p w1 h"
  shows "in_session w nm w1 h ps"
proof -
  note i = idle_ready [OF idle r]
  have "files w (newAddr w (newCnt w)) = None" using r by (simp add: room_def Let_def)
  moreover from this have "open_count w (newAddr w (newCnt w)) = 0" by (simp add: open_count_def)
  ultimately show ?thesis using st i(4,5) idle unfolding started_def in_session_def by (auto simp: own_pins_def idle_def)
qed

lemma session_own:
  assumes "in_session w nm w1 h ps"
  shows "db_inv w1" "hf_open w1 h ps" "hf_curPage h \<noteq> None" "file_name w1 (filePtr h) = Some nm" "\<forall>p. pins w1 (filePtr h) p = own_pins h p"
proof -
  show i: "db_inv w1" "hf_open w1 h ps" "hf_curPage h \<noteq> None" using assms unfolding in_session_def by blast+
  have "\<forall>p. pins w (filePtr h) p = 0" "\<forall>g q. pins w1 g q = pins w g q + (if g = filePtr h then own_pins h q else 0)"
     "oft_map (openFiles w1) = (oft_map (openFiles w))(nm \<mapsto> filePtr h)" using assms unfolding in_session_def by blast+
  then show "file_name w1 (filePtr h) = Some nm" "\<forall>p. pins w1 (filePtr h) p = own_pins h p"
    using open_name_table [OF i(1), of "filePtr h" nm] by simp_all
qed

text \<open>What is left of a session on a file after the object is gone; \<open>k\<close> file objects have been made.\<close>

definition session_over :: "'a db_state_scheme \<Rightarrow> string \<Rightarrow> nat \<Rightarrow> 'a db_state_scheme \<Rightarrow> bool" where
  "session_over w nm k w' \<longleftrightarrow> db_inv w' \<and> pins w' = pins w \<and> oft_map (openFiles w') = oft_map (openFiles w) \<and> files w' = files w \<and> frames w' = frames w \<and>
     bht_valid (hashTable w') = bht_valid (hashTable w) \<and> (\<forall>g q. q \<in> used_pages g w \<longrightarrow> lpage w' g q = lpage w g q) \<and>
     (\<forall>n. n \<noteq> nm \<longrightarrow> oft_map (openFiles w) n = None \<longrightarrow> disk w' n = disk w n) \<and> newAddr w' = newAddr w \<and> newCnt w' = newCnt w + k"

lemma session_end:
  assumes idle: "idle w nm ps n" and ses: "in_session w nm w1 h ps'" and fin: "finished w1 h nm w'" and e: "end_page (lpage w1 (filePtr h)) n'"
  shows "session_over w nm 1 w' \<and> idle w' nm ps' n' \<and> file_view w' nm = lpage w1 (filePtr h)"
proof -
  let ?f = "filePtr h"
  have s: "files w ?f = None" "open_count w1 ?f = 1" "\<forall>g q. pins w1 g q = pins w g q + (if g = ?f then own_pins h q else 0)"
     "oft_map (openFiles w1) = (oft_map (openFiles w))(nm \<mapsto> ?f)" "\<forall>g q. g \<noteq> ?f \<longrightarrow> q \<in> used_pages g w \<longrightarrow> lpage w1 g q = lpage w g q"
     "\<forall>g. g \<noteq> ?f \<longrightarrow> files w1 g = files w g" "frames w1 = frames w" "bht_valid (hashTable w1) = bht_valid (hashTable w)"
     "\<forall>n. n \<noteq> nm \<longrightarrow> oft_map (openFiles w) n = None \<longrightarrow> disk w1 n = disk w n" "newAddr w1 = newAddr w" "newCnt w1 = newCnt w + 1"
     "hf_open w1 h ps'" "headerPageNo h = 1" using ses unfolding in_session_def by blast+
  have f: "db_inv w'" "file_view w' nm = lpage w1 ?f" "file_used w' nm = used_pages ?f w1" "\<forall>g. g \<noteq> ?f \<longrightarrow> lpage w' g = lpage w1 g \<and> files w' g = files w1 g"
     "\<forall>g q. pins w' g q = pins w1 g q - (if g = ?f then own_pins h q else 0)" "frames w' = frames w1" "bht_valid (hashTable w') = bht_valid (hashTable w1)"
     "newAddr w' = newAddr w1" "newCnt w' = newCnt w1" "open_count w' ?f = 0" "oft_map (openFiles w') = (oft_map (openFiles w1))(nm := None)"
     "\<forall>n. oft_map (openFiles w1) n = None \<longrightarrow> disk w' n = disk w1 n"
    using fin s(2) by (simp_all add: finished_def)
  have no: "oft_map (openFiles w) nm = None" "db_inv w" "nm \<noteq> []" using idle by (simp_all add: idle_def)
  have ot: "oft_map (openFiles w') = oft_map (openFiles w)" using f(11) s(4) no(1) by (simp add: fun_upd_idem)
  have "files w' ?f = None"
    using f(10) db_inv_obj [OF f(1), of ?f] by (cases "files w' ?f") (auto simp: open_count_def file_obj_ok_def)
  then have fl: "files w' = files w" using f(4) s(1,6) by (metis ext)
  have lp: "lpage w' g q = lpage w g q" if "q \<in> used_pages g w" for g q
  proof -
    have "g \<noteq> ?f" using used_file [OF that] file_of_files s(1) by fastforce
    then show ?thesis using f(4) s(5) that by simp
  qed
  have "pins w' = pins w" using f(5) s(3) by (simp add: fun_eq_iff)
  then have "session_over w nm 1 w'" using f s ot fl lp by (simp add: session_over_def)
  moreover have "stored_heap w' nm ps'"
    using s(12,13) f(2,3) by (auto simp: stored_heap_def heap_at_def hf_open_def heap_file_def buf_legal_def)
  ultimately show ?thesis using f(1,2) no ot e by (simp add: idle_def)
qed

lemma session_destroy:
  assumes ses: "in_session w nm w1 h ps"
  shows "\<exists>h' w'. HeapFile_destroy w1 h = Some (h', w') \<and> finished w1 h nm w'"
  using HeapFile_destroy_spec [OF session_own(1,2,4) [OF ses]] session_own(5) [OF ses] by blast


subsection \<open>Reading\<close>

text \<open>The objects differ in the fields of a scan only.\<close>

definition hf_same :: "'h HeapFile_scheme \<Rightarrow> 'h HeapFile_scheme \<Rightarrow> bool" where
  "hf_same s s' \<longleftrightarrow> filePtr s' = filePtr s \<and> headerPage s' = headerPage s \<and> headerPageNo s' = headerPageNo s \<and> hdrDirtyFlag s' = hdrDirtyFlag s \<and>
     hf_curPage s' = hf_curPage s \<and> curPageNo s' = curPageNo s \<and> curDirtyFlag s' = curDirtyFlag s \<and> curRec s' = curRec s"

lemma hf_same_open: "hf_same s s' \<Longrightarrow> hf_open w s' ps = hf_open w s ps" "hf_same s s' \<Longrightarrow> own_pins s' = own_pins s"
  "hf_same s s' \<Longrightarrow> started w nm ps p w1 s' = started w nm ps p w1 s"
  by (simp_all add: hf_same_def hf_open_def own_pins_def started_def fun_eq_iff)

text \<open>Which arguments of \<open>startScan\<close> describe a filter, and which records it selects.\<close>

definition filter_args :: "int \<Rightarrow> int \<Rightarrow> int \<Rightarrow> byte list option \<Rightarrow> bool" where
  "filter_args off len ty flt \<longleftrightarrow> (case flt of None \<Rightarrow> True | Some bs \<Rightarrow>
     0 \<le> off \<and> 1 \<le> len \<and> int_ok (off + len) \<and> nat len \<le> length bs \<and>
     (case Datatype_of_int ty of None \<Rightarrow> False | Some t \<Rightarrow> t \<noteq> STRING \<longrightarrow> len = 4))"

definition selects :: "int \<Rightarrow> int \<Rightarrow> int \<Rightarrow> byte list option \<Rightarrow> Operator \<Rightarrow> byte list \<Rightarrow> bool" where
  "selects off len ty flt op b \<longleftrightarrow> (case flt of None \<Rightarrow> True | Some bs \<Rightarrow>
     off + len \<le> int (length b) \<and>
     op_holds op (the (attr_diff (the (Datatype_of_int ty)) (take (nat len) (drop (nat off) b)) bs (nat len))))"

lemma startScan_spec:
  assumes "filter_args off len ty flt" "scan_filter s = None"
  shows "\<exists>s'. startScan s off len ty flt op = (OK, s') \<and> hf_same s s' \<and> filter_ok s' \<and> rec_matches s' = selects off len ty flt op"
proof (cases flt)
  case None
  then show ?thesis using assms(2) by (simp add: startScan_def hf_same_def filter_ok_def rec_matches_def selects_def fun_eq_iff)
next
  case (Some bs)
  then obtain t where t: "Datatype_of_int ty = Some t" "t \<noteq> STRING \<longrightarrow> len = 4" "0 \<le> off" "1 \<le> len" "int_ok (off + len)" "nat len \<le> length bs"
    using assms(1) by (auto simp: filter_args_def split: option.splits)
  then have "startScan s off len ty flt op = (OK, s\<lparr>scan_offset := off, scan_length := len, scan_type := t, scan_filter := flt, scan_op := op\<rparr>)"
    using Some by (cases t) (simp_all add: startScan_def del: Datatype_of_int.simps)
  then show ?thesis
    using t Some by (simp add: hf_same_def filter_ok_def rec_matches_def selects_def fun_eq_iff del: Datatype_of_int.simps)
qed

text \<open>Opening a file, reading it through a filter and closing it, with at most \<open>k\<close> calls of \<open>scanNext\<close>.\<close>

definition scan_session :: "'a db_state_scheme \<Rightarrow> HeapFileScan \<Rightarrow> string \<Rightarrow> int \<Rightarrow> int \<Rightarrow> int \<Rightarrow> byte list option \<Rightarrow> Operator \<Rightarrow> nat \<Rightarrow>
    (item list \<times> 'a db_state_scheme) option" where
  "scan_session w s nm off len ty flt op k = do {
     (status, s, w) \<leftarrow> HeapFileScan_new w s nm;
     if status \<noteq> OK then None else do {
     let (status, s) = startScan s off len ty flt op;
     if status \<noteq> OK then None else do {
     (items, w, s) \<leftarrow> drain scan_step k (w, s);
     (s, w) \<leftarrow> HeapFileScan_destroy w s;
     Some (items, w)
     }}
   }"

lemma scan_keeps_session:
  assumes ses: "in_session w nm w1 s ps" and d: "\<not> curDirtyFlag s" and h: "scan_here w1 s ps (w2, s2) items"
  shows "in_session w nm w2 s2 ps \<and> lpage w2 = lpage w1 \<and> filePtr s2 = filePtr s"
proof -
  note own = session_own [OF ses]
  have op: "hf_open w2 s2 ps" "hf_curPage s2 \<noteq> None" using scan_here_open [OF own(2) d own(3) h] by blast+
  have mv: "scan_moved w1 s w2 s2" using h by (simp add: scan_here_def)
  note sel = scan_moved_sel [OF mv]
  note v = view_sameD [OF scan_moved_view [OF mv]]
  have inv: "db_inv w2" by (rule db_inv_env [OF own(1) v(1,5)])
  have pn: "pins w2 g q = pins w1 g q - (if (g, q) = (filePtr s, curPageNo s) then 1 else 0) + (if (g, q) = (filePtr s, curPageNo s2) then 1 else 0)" for g q
    using mv unfolding scan_moved_def by blast
  have "pins w2 g q = pins w g q + (if g = filePtr s then own_pins s2 q else 0)" for g q
  proof -
    have "pins w1 g q = pins w g q + (if g = filePtr s then own_pins s q else 0)" using ses unfolding in_session_def by blast
    then show ?thesis using pn [of g q] op(2) own(3) sel by (auto simp: own_pins_def)
  qed
  moreover have "disk w2 n = disk w n" if "n \<noteq> nm" "oft_map (openFiles w) n = None" for n
    using env_same_disk [OF own(1) v(5), of n] that ses unfolding in_session_def by auto
  ultimately show ?thesis
    using ses inv op sel v(2,3,4) env_same_db [OF v(5)] unfolding in_session_def by (auto simp: open_count_def)
qed

lemma scan_session_spec:
  assumes idle: "idle w nm ps n" and r: "room w 2 n" and fa: "filter_args off len ty flt"
    and k: "k = length (filter (\<lambda>x. selects off len ty flt op (snd x)) (heap_items (file_view w nm) ps)) + 1 + j"
  shows "\<exists>w'. scan_session w s nm off len ty flt op k = Some (filter (\<lambda>x. selects off len ty flt op (snd x)) (heap_items (file_view w nm) ps), w') \<and>
     session_over w nm 1 w' \<and> idle w' nm ps n \<and> file_view w' nm = file_view w nm"
proof -
  note rd = idle_ready [OF idle r order_refl]
  obtain s1 w1 where o: "HeapFile_new w s nm = Some (OK, s1, w1)" "started w nm ps (hd ps) w1 s1" using HeapFile_new_spec [OF rd(1-3), of s] by blast
  let ?s1 = "s1\<lparr>scan_filter := None\<rparr>"
  obtain s2 where st: "startScan ?s1 off len ty flt op = (OK, s2)" "hf_same ?s1 s2" "filter_ok s2" "rec_matches s2 = selects off len ty flt op"
    using startScan_spec [OF fa, of ?s1 op] by auto
  have "hf_same s1 s2" using st(2) by (simp add: hf_same_def)
  then have o2: "started w nm ps (hd ps) w1 s2" using o(2) hf_same_open(3) by blast
  have ses: "in_session w nm w1 s2 ps" by (rule started_session [OF idle r order_refl o2])
  have s2: "hf_open w1 s2 ps" "hf_curPage s2 \<noteq> None" "curPageNo s2 = hd ps" "curRec s2 = NULLRID" "movable w1 (filePtr s2) (hd ps)" "\<not> curDirtyFlag s2"
     "filePtr s2 = handle w nm" "lpage w1 (handle w nm) = file_view w nm" using o2 by (simp_all add: started_def)
  let ?items = "filter (\<lambda>x. selects off len ty flt op (snd x)) (heap_items (file_view w nm) ps)"
  have here: "scan_here w1 s2 ps (w1, s2) ?items" using scan_start [OF s2(1-6) st(3)] st(4) s2(7,8) by simp
  obtain st' where dr: "drain scan_step k (w1, s2) = Some (?items, st')" "scan_here w1 s2 ps st' []"
    using heap_scan.drain_all [OF here, of k] k by auto
  obtain w3 s3 where w3: "st' = (w3, s3)" by (cases st')
  have k3: "in_session w nm w3 s3 ps" "lpage w3 = lpage w1" "filePtr s3 = filePtr s2"
    using scan_keeps_session [OF ses s2(6)] dr(2) w3 by blast+
  note own = session_own [OF k3(1)]
  obtain s4 w' where f: "HeapFileScan_destroy w3 s3 = Some (s4, w')" "finished w3 s3 nm w'"
    using HeapFileScan_destroy_spec [OF own(1,2,4)] own(5) by blast
  have e: "end_page (lpage w3 (filePtr s3)) n" using idle k3(2,3) s2(7,8) by (simp add: idle_def)
  have "scan_session w s nm off len ty flt op k = Some (?items, w')"
    using o(1) st(1) dr(1) w3 f(1) by (simp add: scan_session_def HeapFileScan_new_def)
  then show ?thesis using session_end [OF idle k3(1) f(2) e] k3(2,3) s2(7,8) by (intro exI [of _ w']) simp
qed

subsection \<open>Writing\<close>

fun insert_all :: "'a buf_state_scheme \<Rightarrow> HeapFile \<Rightarrow> byte list list \<Rightarrow> (RID list \<times> HeapFile \<times> 'a buf_state_scheme) option" where
  "insert_all w h [] = Some ([], h, w)"
| "insert_all w h (b # bs) = do {
     (status, rid, h, w) \<leftarrow> insertRecord w h \<lparr>rec_data = b, rec_length = int (length b)\<rparr> NULLRID;
     if status \<noteq> OK then None else do {
     (rids, h, w) \<leftarrow> insert_all w h bs;
     Some (rid # rids, h, w)
     }
   }"

definition insert_session :: "'a db_state_scheme \<Rightarrow> HeapFile \<Rightarrow> string \<Rightarrow> byte list list \<Rightarrow> (RID list \<times> 'a db_state_scheme) option" where
  "insert_session w h nm bs = do {
     (status, h, w) \<leftarrow> InsertFileScan_new w h nm;
     if status \<noteq> OK then None else do {
     (rids, h, w) \<leftarrow> insert_all w h bs;
     (h, w) \<leftarrow> InsertFileScan_destroy w h;
     Some (rids, w)
     }
   }"

text \<open>A session that inserts: the current page is the last one, a frame is free, and the file can still grow by \<open>k\<close> pages.\<close>

definition inserting :: "'a db_state_scheme \<Rightarrow> string \<Rightarrow> 'a db_state_scheme \<Rightarrow> HeapFile \<Rightarrow> int list \<Rightarrow> int \<Rightarrow> nat \<Rightarrow> bool" where
  "inserting w nm w1 h ps m k \<longleftrightarrow> in_session w nm w1 h ps \<and> at_end w1 h ps \<and> grows w1 (filePtr h) m \<and> \<not> all_pinned w1 \<and>
     m + int k < 2 ^ 31 \<and> (\<forall>p. 1 \<le> p \<longrightarrow> p < m + int k \<longrightarrow> bht_valid (hashTable w) (newAddr w (newCnt w), p))"

lemma insert_keeps:
  assumes ins: "inserting w nm w1 h ps m (Suc k)" and b: "storable b" "length b \<le> 1000"
  shows "\<exists>rid h' w2 ps' m'. insertRecord w1 h \<lparr>rec_data = b, rec_length = int (length b)\<rparr> out = Some (OK, rid, h', w2) \<and>
     inserting w nm w2 h' ps' m' k \<and> m' \<le> m + 1 \<and> filePtr h' = filePtr h \<and> recs_of w1 h ps rid = None \<and> recs_of w2 h ps' = (recs_of w1 h ps)(rid \<mapsto> b)"
proof -
  let ?f = "filePtr h"
  have i: "in_session w nm w1 h ps" "at_end w1 h ps" "grows w1 ?f m" "\<not> all_pinned w1" "m + int (Suc k) < 2 ^ 31"
     "\<forall>p. 1 \<le> p \<longrightarrow> p < m + int (Suc k) \<longrightarrow> bht_valid (hashTable w) (newAddr w (newCnt w), p)" using ins unfolding inserting_def by blast+
  note own = session_own [OF i(1)]
  note od = hf_openD [OF own(2)]
  have s: "?f = newAddr w (newCnt w)" "bht_valid (hashTable w1) = bht_valid (hashTable w)" "headerPageNo h = 1"
     "\<forall>g q. pins w1 g q = pins w g q + (if g = ?f then own_pins h q else 0)" "oft_map (openFiles w1) = (oft_map (openFiles w))(nm \<mapsto> ?f)"
     "\<forall>g q. g \<noteq> ?f \<longrightarrow> q \<in> used_pages g w \<longrightarrow> lpage w1 g q = lpage w g q" "\<forall>g. g \<noteq> ?f \<longrightarrow> files w1 g = files w g \<and> used_pages g w1 = used_pages g w"
     "\<forall>n. n \<noteq> nm \<longrightarrow> oft_map (openFiles w) n = None \<longrightarrow> disk w1 n = disk w n"
    using i(1) unfolding in_session_def by blast+
  have m: "1 \<le> m" using i(3) own(1) by (auto simp: grows_def db_inv_def buf_inv_def fs_ok_def file_ok_def)
  have ne: "ps \<noteq> []" using od(2) by auto
  have ls: "last ps \<in> set ps" by (rule last_in_set [OF ne])
  moreover from this have "last ps \<noteq> 1" using od(4) s(3) by metis
  ultimately have ls: "last ps \<in> set ps" "last ps \<noteq> 1" "curPageNo h = last ps" using i(2) by (simp_all add: at_end_def)
  have "bht_valid (hashTable w1) (?f, m)" using i(6) [THEN spec [of _ m]] m unfolding s(1,2) by simp
  then have "can_grow w1 ?f" using i(4,5) grows_next [OF i(3)] grows_alloc_ok [OF i(3)] by (simp add: can_grow_def)
  then obtain rid h' w2 ps' where r: "insertRecord w1 h \<lparr>rec_data = b, rec_length = int (length b)\<rparr> out = Some (OK, rid, h', w2)"
     "rec_added w1 h ps rid b w2 h' ps'" "ps' = ps \<or> ps' = ps @ [next_page ?f w1]"
    using insert_spec [OF i(2) b, of out] by blast
  have a: "at_end w2 h' ps'" "filePtr h' = ?f" "headerPageNo h' = headerPageNo h" "recs_of w1 h ps rid = None" "recs_of w2 h ps' = (recs_of w1 h ps)(rid \<mapsto> b)"
     "env_same w1 w2" "\<forall>g q. g \<noteq> ?f \<longrightarrow> q \<in> used_pages g w1 \<longrightarrow> lpage w2 g q = lpage w1 g q"
     "\<forall>g. used_pages g w2 = used_pages g w1 \<union> (if g = ?f then set ps' - set ps else {})"
     "\<forall>g q. pins w2 g q = pins w1 g q + (if (g, q) = (?f, last ps') then 1 else 0) - (if (g, q) = (?f, last ps) then 1 else 0)"
     "pins w1 ?f (last ps) = 1 \<longrightarrow> \<not> all_pinned w1 \<longrightarrow> \<not> all_pinned w2"
     "\<forall>m. grows w1 ?f m \<longrightarrow> m < 2147483647 \<longrightarrow> grows w2 ?f (m + int (length ps') - int (length ps))"
    using r(2) unfolding rec_added_def by blast+
  have op2: "hf_open w2 h' ps'" "hf_curPage h' \<noteq> None" "curPageNo h' = last ps'" using a(1) by (simp_all add: at_end_def)
  have inv2: "db_inv w2" by (rule db_inv_env [OF own(1) hf_openD(1) [OF op2(1)] a(6)])
  have "pins w1 ?f (last ps) = 1" using own(3,5) ls s(3) by (simp add: own_pins_def)
  then have np: "\<not> all_pinned w2" using a(10) i(4) by blast
  define m' where "m' = m + int (length ps') - int (length ps)"
  have m': "grows w2 ?f m'" "m' \<le> m + 1" using a(11) i(3,5) r(3) by (auto simp: m'_def)
  have pn: "pins w2 g q = pins w g q + (if g = ?f then own_pins h' q else 0)" for g q
    using a(3,9) s(3,4) ls op2 own(3) by (simp add: own_pins_def)
  have dk: "disk w2 n = disk w n" if "n \<noteq> nm" "oft_map (openFiles w) n = None" for n
    using env_same_disk [OF own(1) a(6), of n] that s(5,8) by simp
  have lp: "lpage w2 g q = lpage w g q" "used_pages g w2 = used_pages g w" if "g \<noteq> ?f" "q \<in> used_pages g w" for g q
    using that a(7,8) s(6,7) by auto
  have us: "used_pages g w2 = used_pages g w" if "g \<noteq> ?f" for g using that a(8) s(7) by auto
  have "in_session w nm w2 h' ps'"
    using i(1) inv2 op2 a(2,3) s(3) pn dk lp us a(6) env_same_db [OF a(6)] unfolding in_session_def env_same_def by (auto simp: open_count_def)
  then have "inserting w nm w2 h' ps' m' k" using a(1,2) m' np i(5,6) by (auto simp: inserting_def)
  then show ?thesis using r(1) a(2,4,5) m'(2) by blast
qed

lemma insert_all_spec:
  assumes "inserting w nm w1 h ps m (length bs)" "\<forall>b \<in> set bs. storable b \<and> length b \<le> 1000"
  shows "\<exists>rids h' w2 ps' m'. insert_all w1 h bs = Some (rids, h', w2) \<and> inserting w nm w2 h' ps' m' 0 \<and> m' \<le> m + int (length bs) \<and> filePtr h' = filePtr h \<and>
     length rids = length bs \<and> distinct rids \<and> set rids \<inter> dom (recs_of w1 h ps) = {} \<and> recs_of w2 h ps' = recs_of w1 h ps ++ map_of (zip rids bs)"
  using assms
proof (induction bs arbitrary: w1 h ps m)
  case Nil
  then show ?case by fastforce
next
  case (Cons b bs)
  obtain rid h1 w2 ps1 m1 where r: "insertRecord w1 h \<lparr>rec_data = b, rec_length = int (length b)\<rparr> NULLRID = Some (OK, rid, h1, w2)"
     "inserting w nm w2 h1 ps1 m1 (length bs)" "m1 \<le> m + 1" "filePtr h1 = filePtr h" "recs_of w1 h ps rid = None" "recs_of w2 h ps1 = (recs_of w1 h ps)(rid \<mapsto> b)"
    using insert_keeps [of w nm w1 h ps m "length bs" b NULLRID] Cons.prems by auto
  obtain rids h' w3 ps' m' where q: "insert_all w2 h1 bs = Some (rids, h', w3)" "inserting w nm w3 h' ps' m' 0" "m' \<le> m1 + int (length bs)" "filePtr h' = filePtr h1"
     "length rids = length bs" "distinct rids" "set rids \<inter> dom (recs_of w2 h1 ps1) = {}" "recs_of w3 h1 ps' = recs_of w2 h1 ps1 ++ map_of (zip rids bs)"
    using Cons.IH [OF r(2)] Cons.prems(2) by auto
  have rid: "rid \<notin> set rids" using q(7) r(4,6) by auto
  have "recs_of w3 h ps' = recs_of w1 h ps ++ map_of (zip (rid # rids) (b # bs))"
    using q(5,8) r(4,6) rid by (auto simp: fun_eq_iff map_add_def split: option.splits dest!: map_of_SomeD set_zip_leftD)
  moreover have "set (rid # rids) \<inter> dom (recs_of w1 h ps) = {}" using q(7) r(4,5,6) by auto
  moreover have "m' \<le> m + int (length (b # bs))" using q(3) r(3) by simp
  moreover have "insert_all w1 h (b # bs) = Some (rid # rids, h', w3)" "filePtr h' = filePtr h" "length (rid # rids) = length (b # bs)" "distinct (rid # rids)"
    using r(1,4) q(1,4,5,6) rid by simp_all
  ultimately show ?case using q(2) by blast
qed

lemma insert_session_spec:
  assumes idle: "idle w nm ps n" and r: "room w 3 (n + int (length bs))" and b: "\<forall>b \<in> set bs. storable b \<and> length b \<le> 1000"
  shows "\<exists>rids w' ps' n'. insert_session w h nm bs = Some (rids, w') \<and> session_over w nm 1 w' \<and> idle w' nm ps' n' \<and> n' \<le> n + int (length bs) \<and>
     length rids = length bs \<and> distinct rids \<and> set rids \<inter> dom (heap_recs (file_view w nm) ps) = {} \<and>
     heap_recs (file_view w' nm) ps' = heap_recs (file_view w nm) ps ++ map_of (zip rids bs)"
proof -
  have r3: "room w 3 n" using r by (auto simp: room_def Let_def)
  note rd = idle_ready [OF idle r3, simplified]
  obtain h1 w1 where o: "InsertFileScan_new w h nm = Some (OK, h1, w1)" "started w nm ps (last ps) w1 h1" using InsertFileScan_new_spec [OF rd(1-3), of h] by blast
  have ses: "in_session w nm w1 h1 ps" by (rule started_session [OF idle r3 _ o(2)]) simp
  have s: "hf_open w1 h1 ps" "hf_curPage h1 \<noteq> None" "curPageNo h1 = last ps" "filePtr h1 = handle w nm" "lpage w1 (handle w nm) = file_view w nm"
     "frames w1 = frames w" "\<forall>g q. pins w1 g q = pins w g q + (if (g, q) = (handle w nm, 1) then 1 else 0) + (if (g, q) = (handle w nm, last ps) then 1 else 0)"
    using o(2) unfolding started_def by blast+
  have ok: "pool_ok w1" "pool_ok w" using hf_openD(1) [OF s(1)] db_inv_pool [OF rd(1)] .
  have "spare w (Suc (Suc (Suc 0)))" using r3 by (simp add: room_def Let_def numeral_3_eq_3)
  then have "\<not> all_pinned w1"
  proof -
    have "pinned_pages w1 \<subseteq> insert (handle w nm, 1) (insert (handle w nm, last ps) (pinned_pages w))"
      using s(7) by (auto simp: pinned_pages_def split: if_splits)
    moreover have fin: "finite (pinned_pages w)" using card_pinned_pages [of w] ok(2) by (simp add: pool_ok_def)
    ultimately have "card (pinned_pages w1) \<le> card (insert (handle w nm, 1) (insert (handle w nm, last ps) (pinned_pages w)))"
      using card_mono [OF _ \<open>pinned_pages w1 \<subseteq> _\<close>] by simp
    also have "\<dots> \<le> Suc (Suc (card (pinned_pages w)))" using fin by (simp add: card_insert_if)
    finally have "spare w1 (Suc 0)" using \<open>spare w _\<close> s(6) by (simp add: spare_def)
    then show ?thesis by (rule spare_free [OF ok(1)])
  qed
  moreover have "grows w1 (filePtr h1) n" using grows_end_page [OF ok(1)] idle s(4,5) by (simp add: idle_def)
  ultimately have "inserting w nm w1 h1 ps n (length bs)"
    using ses s(1-3) r by (simp add: inserting_def at_end_def room_def Let_def)
  from insert_all_spec [OF this b] obtain rids h2 w2 ps' n' where q: "insert_all w1 h1 bs = Some (rids, h2, w2)" "inserting w nm w2 h2 ps' n' 0"
     "n' \<le> n + int (length bs)" "filePtr h2 = filePtr h1" "length rids = length bs" "distinct rids" "set rids \<inter> dom (recs_of w1 h1 ps) = {}"
     "recs_of w2 h1 ps' = recs_of w1 h1 ps ++ map_of (zip rids bs)" by blast
  have ses2: "in_session w nm w2 h2 ps'" "grows w2 (filePtr h2) n'" using q(2) by (simp_all add: inserting_def)
  note own = session_own [OF ses2(1)]
  obtain h3 w' where f: "InsertFileScan_destroy w2 h2 = Some (h3, w')" "finished w2 h2 nm w'"
    using InsertFileScan_destroy_spec [OF own(1,2,4,3)] own(5) by blast
  have e: "end_page (lpage w2 (filePtr h2)) n'" using ses2(2) grows_end_page [OF hf_openD(1) [OF own(2)]] by simp
  have "insert_session w h nm bs = Some (rids, w')" using o(1) q(1) f(1) by (simp add: insert_session_def)
  then show ?thesis using session_end [OF idle ses2(1) f(2) e] q(3-8) s(4,5)
    by (intro exI [of _ rids] exI [of _ w'] exI [of _ ps'] exI [of _ n']) simp
qed

end
