(* ===== verification/HeapCorrect.thy ===== *)
theory HeapCorrect
  imports HeapSession "HOL-Library.List_Lexorder"
begin

text \<open>
  The properties of heap files: creating, inserting, scanning, reading and deleting, the reference
  meaning of a filter, and the errors the code makes.
\<close>

section \<open>Addresses for file objects\<close>

lemma low_address_valid:
  assumes "0 < HTSIZE t" "0 \<le> p" "uint f + p < 2147483648"
  shows "bht_valid t (f, p)"
proof -
  have "0 \<le> uint f" by simp
  then have "int_ok (uint f)" "int_ok (uint f + p)" using assms(2,3) unfolding int_ok_def by linarith+
  then have "bh_index (HTSIZE t) f p = c_rem (uint f + p) (HTSIZE t)" by (simp add: bh_index_def)
  moreover have "c_rem m n = m mod n" if "0 \<le> m" "0 < n" for m n using that by (auto simp: c_rem_def sgn_if)
  ultimately have "bh_index (HTSIZE t) f p = (uint f + p) mod HTSIZE t" using assms \<open>0 \<le> uint f\<close> by simp
  then show ?thesis using assms(1) by (simp add: bht_valid_def)
qed

text \<open>The next \<open>k\<close> file objects get fresh addresses whose pages below \<open>n\<close> have hash values in range.\<close>

definition addresses :: "'a db_state_scheme \<Rightarrow> nat \<Rightarrow> int \<Rightarrow> bool" where
  "addresses w k n \<longleftrightarrow> n < 2 ^ 31 \<and> (\<forall>i < k. let f = newAddr w (newCnt w + i) in
     f \<noteq> NULL \<and> files w f = None \<and> (\<forall>p. 1 \<le> p \<longrightarrow> p < n \<longrightarrow> bht_valid (hashTable w) (f, p)))"

lemma addresses_over: "session_over w nm j w' \<Longrightarrow> addresses w (j + k) n \<Longrightarrow> addresses w' k n"
  by (simp add: addresses_def session_over_def Let_def add.assoc)

lemma spare_over: "session_over w nm j w' \<Longrightarrow> pool_ok w \<Longrightarrow> spare w k \<Longrightarrow> spare w' k"
  by (auto simp: session_over_def intro: spare_le)

lemma addresses_room: "addresses w (Suc k) n \<Longrightarrow> spare w j \<Longrightarrow> m \<le> n \<Longrightarrow> room w j m"
  by (auto simp: addresses_def room_def Let_def)


section \<open>A sample heap file\<close>

definition sample_heap :: db_state where
  "sample_heap = snd (the (createHeapFile (empty_db 4) ''rel''))"

lemma empty_db_sel: "newAddr (empty_db n) i = 4096 + 64 * of_nat i" "newCnt (empty_db n) = 0" "frames (empty_db n) = nat n"
  "0 < n \<Longrightarrow> 0 < HTSIZE (hashTable (empty_db n))" "0 < n \<Longrightarrow> pinned_pages (empty_db n) = {}"
proof -
  show "newAddr (empty_db n) i = 4096 + 64 * of_nat i" "newCnt (empty_db n) = 0" "frames (empty_db n) = nat n"
    by (simp_all add: empty_db_def BufMgr_new_def)
  show "0 < HTSIZE (hashTable (empty_db n))" if "0 < n" using that by (simp add: empty_db_def BufMgr_new_def BufHashTbl_new_def)
  show "pinned_pages (empty_db n) = {}" if "0 < n"
    using that bht_new [of "n * 6 div 5 * 2 div 2 + 1"] by (simp add: pinned_pages_def pins_def empty_db_def BufMgr_new_def)
qed

lemma empty_db_addresses:
  assumes "0 < bufs" "k \<le> 100" "n \<le> 2 ^ 30"
  shows "addresses (empty_db bufs) k n"
proof -
  have u: "uint (4096 + 64 * of_nat i :: ptr) = 4096 + 64 * int i" if "i < k" for i
  proof -
    have eq: "4096 + 64 * of_nat i = (of_nat (4096 + 64 * i) :: ptr)" by simp
    have "uint (of_nat m :: ptr) = int m" if "m < 18446744073709551616" for m
      using that by (simp add: unsigned_of_nat take_bit_nat_eq_self)
    from this [of "4096 + 64 * i"] show ?thesis unfolding eq using that assms(2) by simp
  qed
  have "bht_valid (hashTable (empty_db bufs)) (4096 + 64 * of_nat i, p)" if "i < k" "1 \<le> p" "p < n" for i p
    by (rule low_address_valid) (use that u [OF that(1)] empty_db_sel(4) assms in simp_all)
  moreover have "4096 + 64 * of_nat i \<noteq> NULL" if "i < k" for i
    using u [OF that] by (auto dest!: arg_cong [of _ _ uint])
  ultimately show ?thesis using assms by (simp add: addresses_def Let_def empty_db_sel empty_db_inv)
qed


section \<open>Creating a heap file\<close>

lemma create_session:
  assumes inv: "db_inv w" and nm: "nm \<noteq> []" "disk w nm = None" "unix_name nm = nm" and sp: "spare w 2" and a: "addresses w 2 3"
  shows "\<exists>w'. createHeapFile w nm = Some (OK, w') \<and> session_over w nm 2 w' \<and> idle w' nm [2] 3 \<and> heap_recs (file_view w' nm) [2] = Map.empty"
proof -
  let ?f = "newAddr w (newCnt w + 1)"
  have f: "newAddr w (newCnt w + i) \<noteq> NULL" "files w (newAddr w (newCnt w + i)) = None"
     "bht_valid (hashTable w) (newAddr w (newCnt w + i), 1)" "bht_valid (hashTable w) (newAddr w (newCnt w + i), 2)" if "i < 2" for i
    using a that by (auto simp: addresses_def Let_def)
  have no: "oft_map (openFiles w) nm = None" using db_inv_open_disk [OF inv, of nm] nm(2) by (cases "oft_map (openFiles w) nm") auto
  obtain w' where r: "createHeapFile w nm = Some (OK, w')" "db_inv w'" "stored_heap w' nm [2]" "heap_recs (file_view w' nm) [2] = Map.empty"
     "end_page (file_view w' nm) 3" "\<forall>n. n \<noteq> nm \<longrightarrow> oft_map (openFiles w) n = None \<longrightarrow> disk w' n = disk w n"
     "oft_map (openFiles w') = oft_map (openFiles w)" "pins w' = pins w" "frames w' = frames w" "files w' = files w"
     "bht_valid (hashTable w') = bht_valid (hashTable w)" "newCnt w' = newCnt w + 2" "newAddr w' = newAddr w"
     "\<forall>g q. q \<in> used_pages g w \<longrightarrow> lpage w' g q = lpage w g q"
    using createHeapFile_spec [OF inv nm sp _ refl f(1,2,3,4) [of 1]] f(2) [of 0] by auto
  then show ?thesis using no nm(1) by (simp add: session_over_def idle_def)
qed

lemma sample_heap_facts:
  shows "createHeapFile (empty_db 4) ''rel'' = Some (OK, sample_heap)" "idle sample_heap ''rel'' [2] 3"
    "heap_recs (file_view sample_heap ''rel'') [2] = Map.empty" "addresses sample_heap 90 1000" "spare sample_heap 4"
proof -
  have e: "db_inv (empty_db 4)" "disk (empty_db 4) ''rel'' = None" using empty_db_inv [of 4] by simp_all
  have sp: "spare (empty_db 4) 4" "spare (empty_db 4) 2" using empty_db_sel [of 4] by (simp_all add: spare_def)
  obtain w' where w: "createHeapFile (empty_db 4) ''rel'' = Some (OK, w')" "session_over (empty_db 4) ''rel'' 2 w'" "idle w' ''rel'' [2] 3"
     "heap_recs (file_view w' ''rel'') [2] = Map.empty"
    using create_session [OF e(1) _ e(2) _ sp(2) empty_db_addresses [of 4 2 3]] by auto
  moreover have "sample_heap = w'" using w(1) by (simp add: sample_heap_def)
  ultimately show "createHeapFile (empty_db 4) ''rel'' = Some (OK, sample_heap)" "idle sample_heap ''rel'' [2] 3"
     "heap_recs (file_view sample_heap ''rel'') [2] = Map.empty" "addresses sample_heap 90 1000" "spare sample_heap 4"
    using addresses_over [OF w(2), of 90 1000] empty_db_addresses [of 4 92 1000] spare_over [OF w(2) db_inv_pool [OF e(1)] sp(1)] by simp_all
qed

lemma sample_heap_room: "room sample_heap 2 3" "room sample_heap 3 900"
proof -
  have a: "addresses sample_heap (Suc 89) 1000" "spare sample_heap 2" "spare sample_heap 3" using sample_heap_facts(4,5) by (simp_all add: spare_def)
  show "room sample_heap 2 3" "room sample_heap 3 900" using addresses_room [OF a(1,2), of 3] addresses_room [OF a(1,3), of 900] by simp_all
qed

lemma heap_items_map:
  assumes "chain P ps" "distinct ps"
  shows "map_of (heap_items P ps) = heap_recs P ps" "distinct (map fst (heap_items P ps))" "map fst (heap_items P ps) = heap_rids P ps"
proof -
  show f: "map fst (heap_items P ps) = heap_rids P ps" by (simp add: heap_items_def item_at_def o_def)
  then show d: "distinct (map fst (heap_items P ps))" using distinct_heap_rids [OF assms] by simp
  have "heap_recs P ps r = Some (the (page_recs (the (P (pageNo r))) (nat (slotNo r))))" if "r \<in> set (heap_rids P ps)" for r
    using heap_rids_mem [OF assms(1) that] by (auto simp: heap_recs_def split: if_splits)
  then have "set (heap_items P ps) = {(r, b). heap_recs P ps r = Some b}"
    using heap_rids_set [OF assms(1)] by (force simp: heap_items_def item_at_def)
  then show "map_of (heap_items P ps) = heap_recs P ps" using map_of_eq_Some_iff [OF d] by (intro ext) (metis (mono_tags, lifting) mem_Collect_eq case_prodI case_prodD not_Some_eq)
qed

lemma idle_items:
  assumes "idle w nm ps n"
  shows "map_of (heap_items (file_view w nm) ps) = heap_recs (file_view w nm) ps" "distinct (map fst (heap_items (file_view w nm) ps))"
  using assms heap_items_map [of "file_view w nm" ps] by (simp_all add: idle_def stored_heap_def heap_at_def)

section \<open>Properties of sessions\<close>

text \<open>
  (C6) Inserting records through an \<open>InsertFileScan\<close>: every record of at most 1000 bytes is stored
  under an identifier that was not in use, across as many new pages as needed, nothing else in the
  file changes, and after the destructor all of it is on disk, every page unpinned and the file closed.
\<close>

theorem heap_insert_durable:
  assumes "idle w nm ps n" "room w 3 (n + int (length bs))" "\<forall>b \<in> set bs. 0 < length b \<and> length b \<le> 1000"
  shows "\<exists>rids w' ps' n'. insert_session w h nm bs = Some (rids, w') \<and> idle w' nm ps' n' \<and> session_over w nm 1 w' \<and>
     length rids = length bs \<and> distinct rids \<and> set rids \<inter> dom (heap_recs (name_page w nm) ps) = {} \<and>
     heap_recs (name_page w' nm) ps' = heap_recs (name_page w nm) ps ++ map_of (zip rids bs)"
proof -
  have "\<forall>b \<in> set bs. storable b \<and> length b \<le> 1000" using assms(3) by fastforce
  moreover have "name_page w nm = file_view w nm" using assms(1) by (simp add: idle_def file_view_def)
  ultimately show ?thesis using insert_session_spec [OF assms(1,2), of h] by (fastforce simp: idle_def file_view_def)
qed

abbreviation new_object :: HeapFile where
  "new_object \<equiv> \<lparr>filePtr = NULL, headerPage = None, headerPageNo = 0, hdrDirtyFlag = False, hf_curPage = None, curPageNo = 0, curDirtyFlag = False, curRec = NULLRID\<rparr>"

theorem heap_insert_durable_witness:
  "\<exists>rids w' ps' n'. insert_session sample_heap new_object ''rel'' [[1, 2, 3], replicate 990 7, [4]] = Some (rids, w') \<and> idle w' ''rel'' ps' n' \<and>
     length rids = 3 \<and> distinct rids \<and> heap_recs (name_page w' ''rel'') ps' = map_of (zip rids [[1, 2, 3], replicate 990 7, [4]])"
proof -
  have "heap_recs (name_page sample_heap ''rel'') [2] = Map.empty" using sample_heap_facts(2,3) by (simp add: idle_def file_view_def)
  moreover have "room sample_heap 3 (3 + int (length [[1, 2, 3], replicate 990 7, [4 :: byte]]))" using sample_heap_room(2) by (simp add: room_def Let_def)
  ultimately obtain rids w' ps' n' where "insert_session sample_heap new_object ''rel'' [[1, 2, 3], replicate 990 7, [4]] = Some (rids, w')" "idle w' ''rel'' ps' n'"
     "length rids = 3" "distinct rids" "heap_recs (name_page w' ''rel'') ps' = map_of (zip rids [[1, 2, 3], replicate 990 7, [4]])"
    using heap_insert_durable [OF sample_heap_facts(2), of "[[1, 2, 3], replicate 990 7, [4]]" new_object] by auto
  then show ?thesis by blast
qed

text \<open>
  (C5) A scan ends and is complete: opened with a filter and advanced until it reports the end, it
  returns exactly the records of the file that satisfy the filter, each once and in the order of
  the page chain, in one call of \<open>scanNext\<close> more than there are such records; pages are pinned only
  while it runs and the file is as before.
\<close>

theorem heap_scan_complete:
  assumes "idle w nm ps n" "room w 2 n" "filter_args off len ty flt"
    and "items = filter (\<lambda>x. selects off len ty flt op (snd x)) (heap_items (name_page w nm) ps)"
  shows "(\<exists>w'. scan_session w s nm off len ty flt op (length items + 1) = Some (items, w') \<and> session_over w nm 1 w' \<and> idle w' nm ps n \<and>
       name_page w' nm = name_page w nm) \<and>
     distinct (map fst items) \<and> set items = {(r, b). heap_recs (name_page w nm) ps r = Some b \<and> selects off len ty flt op b}"
proof -
  have v: "file_view w nm = name_page w nm" using assms(1) by (simp add: idle_def file_view_def)
  note it = idle_items [OF assms(1), unfolded v]
  have "set (heap_items (name_page w nm) ps) = {(r, b). heap_recs (name_page w nm) ps r = Some b}"
    using map_of_eq_Some_iff [OF it(2)] it(1) by auto
  moreover have "distinct (map fst items)" using it(2) by (simp add: assms(4) distinct_map_filter)
  moreover obtain w' where "scan_session w s nm off len ty flt op (length items + 1) = Some (items, w')" "session_over w nm 1 w'" "idle w' nm ps n"
      "file_view w' nm = file_view w nm"
    using scan_session_spec [OF assms(1-3), of "length items + 1" op 0 s] unfolding v assms(4) by auto
  ultimately show ?thesis using assms(4) v by (auto simp: idle_def file_view_def)
qed

abbreviation new_scan :: HeapFileScan where
  "new_scan \<equiv> \<lparr>filePtr = NULL, headerPage = None, headerPageNo = 0, hdrDirtyFlag = False, hf_curPage = None, curPageNo = 0, curDirtyFlag = False, curRec = NULLRID,
     scan_offset = 0, scan_length = 0, scan_type = STRING, scan_filter = None, scan_op = EQ, markedPageNo = 0, markedRec = NULLRID\<rparr>"

text \<open>The sample heap file with one record.\<close>

definition sample_heap1 :: db_state where
  "sample_heap1 = snd (the (insert_session sample_heap new_object ''rel'' [[1, 2, 3]]))"

lemma sample_heap1_facts:
  obtains ps n rid where "idle sample_heap1 ''rel'' ps n" "n \<le> 4" "heap_recs (file_view sample_heap1 ''rel'') ps = [rid \<mapsto> [1, 2, 3]]" "addresses sample_heap1 80 1000" "spare sample_heap1 4"
proof -
  have "room sample_heap 3 (3 + int (length [[1, 2, 3 :: byte]]))" using sample_heap_room(2) by (simp add: room_def Let_def)
  then obtain rids w' ps' n' where r: "insert_session sample_heap new_object ''rel'' [[1, 2, 3]] = Some (rids, w')" "session_over sample_heap ''rel'' 1 w'" "idle w' ''rel'' ps' n'"
     "n' \<le> 4" "length rids = 1" "heap_recs (file_view w' ''rel'') ps' = map_of (zip rids [[1, 2, 3]])"
    using insert_session_spec [OF sample_heap_facts(2), of "[[1, 2, 3]]" new_object] sample_heap_facts(3) by auto
  moreover have "sample_heap1 = w'" using r(1) by (simp add: sample_heap1_def)
  moreover have "addresses w' 80 1000" using addresses_over [OF r(2), of 80 1000] sample_heap_facts(4) by (simp add: addresses_def)
  moreover have "spare w' 4" using spare_over [OF r(2) _ sample_heap_facts(5)] sample_heap_facts(2) db_inv_pool by (auto simp: idle_def)
  moreover obtain rid where "rids = [rid]" using r(5) by (cases rids) auto
  ultimately show thesis using that [of ps' n' rid] by simp
qed

theorem heap_scan_complete_witness:
  "\<exists>rid w'. scan_session sample_heap1 new_scan ''rel'' 1 2 0 (Some [2, 3]) EQ 2 = Some ([(rid, [1, 2, 3])], w')"
proof -
  obtain ps n rid where f: "idle sample_heap1 ''rel'' ps n" "n \<le> 4" "heap_recs (file_view sample_heap1 ''rel'') ps = [rid \<mapsto> [1, 2, 3]]" "addresses sample_heap1 80 1000"
     "spare sample_heap1 4" by (rule sample_heap1_facts)
  have v: "name_page sample_heap1 ''rel'' = file_view sample_heap1 ''rel''" using f(1) by (simp add: idle_def file_view_def)
  have rm: "room sample_heap1 2 n" using addresses_room [of sample_heap1 79 1000 2 n] f(2,4,5) by (simp add: spare_def)
  have fa: "filter_args 1 2 0 (Some [2, 3])" by (simp add: filter_args_def int_ok_def)
  have sel: "selects 1 2 0 (Some [2, 3]) EQ [1, 2, 3]" by (simp add: selects_def attr_diff_def numeral_eq_Suc)
  define items where "items = filter (\<lambda>x. selects 1 2 0 (Some [2, 3]) EQ (snd x)) (heap_items (name_page sample_heap1 ''rel'') ps)"
  note c = heap_scan_complete [OF f(1) rm fa items_def, of new_scan]
  have "set items = {(r, b). heap_recs (name_page sample_heap1 ''rel'') ps r = Some b \<and> selects 1 2 0 (Some [2, 3]) EQ b}" "distinct (map fst items)" using c by blast+
  then have "set items = {(rid, [1, 2, 3])}" "distinct items" using sel f(3) by (auto simp: v distinct_map split: if_splits)
  then have "items = [(rid, [1, 2, 3])]" by (cases items; cases "tl items") auto
  then show ?thesis using c by (auto simp: numeral_2_eq_2)
qed

section \<open>What a filter means\<close>

text \<open>The reference: the attribute and the filter value as integers, numbers or C strings, compared by the order of these.\<close>

fun ref_rel :: "Operator \<Rightarrow> 'v :: linorder \<Rightarrow> 'v \<Rightarrow> bool" where
  "ref_rel LT x y = (x < y)"
| "ref_rel LTE x y = (x \<le> y)"
| "ref_rel EQ x y = (x = y)"
| "ref_rel GTE x y = (x \<ge> y)"
| "ref_rel GT x y = (x > y)"
| "ref_rel NE x y = (x \<noteq> y)"

definition c_string :: "byte list \<Rightarrow> byte list" where
  "c_string bs = takeWhile (\<lambda>b. b \<noteq> 0) bs"

definition int_value :: "byte list \<Rightarrow> int" where
  "int_value bs = get_int (bytes_mem bs) 0"

definition float_value :: "byte list \<Rightarrow> single" where
  "float_value bs = single_of_bits (get_le 4 (bytes_mem bs) 0)"

definition ref_match :: "Datatype \<Rightarrow> Operator \<Rightarrow> byte list \<Rightarrow> byte list \<Rightarrow> bool" where
  "ref_match t op a b = (case t of
     STRING \<Rightarrow> ref_rel op (c_string a) (c_string b)
   | INTEGER \<Rightarrow> ref_rel op (int_value a) (int_value b)
   | FLOAT \<Rightarrow> (case (float_value a, float_value b) of (Finite x, Finite y) \<Rightarrow> ref_rel op x y | _ \<Rightarrow> False))"

lemma op_holds_sgn: "op_holds op (Some (sgn (x - y))) = ref_rel op x (y :: int)"
  by (cases op) (auto simp: sgn_if)

lemma strncmp_ref:
  "n \<le> length as \<Longrightarrow> n \<le> length bs \<Longrightarrow>
   strncmp as bs n = Some (let a = c_string (take n as); b = c_string (take n bs) in if a < b then - 1 else if a = b then 0 else 1)"
  by (induction as bs n rule: strncmp.induct) (auto simp: c_string_def Let_def word_gt_0)

lemma op_holds_order: "op_holds op (Some (if a < b then - 1 else if a = b then 0 else 1)) = ref_rel op a (b :: 'v :: linorder)"
  by (cases op) auto

lemma attr_diff_ref:
  assumes "n = length a" "n \<le> length b" "t \<noteq> STRING \<longrightarrow> n = 4"
    and "t = INTEGER \<longrightarrow> int_ok (int_value a - int_value b)"
    and "t = FLOAT \<longrightarrow> (\<exists>x y. float_value a = Finite x \<and> float_value b = Finite y)"
  shows "op_holds op (the (attr_diff t a b n)) = ref_match t op a (take n b)"
proof -
  have bm: "get_le 4 (bytes_mem (take 4 b)) 0 = get_le 4 (bytes_mem b) 0" if "n = 4"
    using that assms(2) by (auto simp: bytes_mem_def numeral_eq_Suc)
  show ?thesis
  proof (cases t)
    case STRING
    define y where "y = c_string (take n b)"
    have "strncmp a b n = Some (if c_string a < y then - 1 else if c_string a = y then 0 else 1)"
      using strncmp_ref [of n a b] assms(1,2) by (simp add: Let_def y_def)
    then have "attr_diff t a b n = Some (Some (if c_string a < y then - 1 else if c_string a = y then 0 else 1))" by (simp add: attr_diff_def STRING)
    then show ?thesis unfolding STRING ref_match_def y_def [symmetric] by (simp only: option.sel op_holds_order Datatype.case)
  next
    case INTEGER
    then show ?thesis using assms bm by (simp add: attr_diff_def ref_match_def int_value_def get_int_def op_holds_sgn)
  next
    case FLOAT
    then obtain x y where "float_value a = Finite x" "float_value b = Finite y" using assms(5) by blast
    then show ?thesis using FLOAT assms bm by (simp add: attr_diff_def ref_match_def float_value_def op_holds_sgn)
  qed
qed

text \<open>
  (C27) \<open>matchRec\<close> compares the attribute with the filter value the way the type says: a record
  qualifies exactly when it contains the attribute and the attribute, read as a C string, a 32-bit
  integer or a finite single precision number, is in the relation of the operator with the filter
  value; for integers provided the difference does not overflow.
\<close>

theorem filter_matches_reference:
  assumes "page_inv pg" "page_recs pg k = Some b" "filter_ok s" "scan_filter s = Some flt"
    and "attr = take (nat (scan_length s)) (drop (nat (scan_offset s)) b)"
    and "scan_type s = INTEGER \<longrightarrow> int_ok (int_value attr - int_value flt)"
    and "scan_type s = FLOAT \<longrightarrow> (\<exists>x y. float_value attr = Finite x \<and> float_value flt = Finite y)"
  shows "\<exists>ref. Page_getRecord pg (RID n (int k)) no_rec = Some (OK, ref) \<and>
     matchRec s pg ref = Some (scan_offset s + scan_length s \<le> int (length b) \<and>
       ref_match (scan_type s) (scan_op s) attr (take (nat (scan_length s)) flt))"
proof -
  have live: "live pg k" using assms(2) by (simp add: page_recs_def split: if_splits)
  have ok: "0 \<le> scan_offset s" "1 \<le> scan_length s" "scan_type s \<noteq> STRING \<longrightarrow> scan_length s = 4" "nat (scan_length s) \<le> length flt"
    using assms(3,4) by (auto simp: filter_ok_def)
  have "rec_matches s b = (scan_offset s + scan_length s \<le> int (length b) \<and> ref_match (scan_type s) (scan_op s) attr (take (nat (scan_length s)) flt))"
  proof (cases "scan_offset s + scan_length s \<le> int (length b)")
    case True
    then have "length attr = nat (scan_length s)" using ok by (simp add: assms(5))
    then show ?thesis
      using attr_diff_ref [of "nat (scan_length s)" attr flt "scan_type s" "scan_op s"] ok assms(6,7) True by (simp add: rec_matches_def assms(4,5))
  qed (simp add: rec_matches_def assms(4))
  then show ?thesis
    using getRecord_eq [OF assms(1), of "RID n (int k)" k] matchRec_eq [OF assms(1) live assms(3)] live assms(2) by simp
qed

theorem filter_matches_reference_witness:
  "\<exists>ref. Page_getRecord sample_page (RID 7 (int 0)) no_rec = Some (OK, ref) \<and>
     matchRec (new_scan\<lparr>scan_offset := 1, scan_length := 2, scan_filter := Some [2, 4], scan_op := LT\<rparr>) sample_page ref = Some True"
proof -
  have "page_inv sample_page" "page_recs sample_page 0 = Some [1, 2, 3]" using sample_page_insert by auto
  moreover let ?s = "new_scan\<lparr>scan_offset := 1, scan_length := 2, scan_filter := Some [2, 4], scan_op := LT\<rparr>"
  have "filter_ok ?s" by (simp add: filter_ok_def int_ok_def)
  moreover have "ref_match STRING LT [2, 3] [2, 4]" by (simp add: ref_match_def c_string_def)
  ultimately show ?thesis using filter_matches_reference [of sample_page 0 "[1, 2, 3]" ?s "[2, 4]" "[2, 3]" 7] by (simp add: numeral_2_eq_2)
qed

text \<open>
  (C39) The comparison of integers subtracts in 32 bits: for every positive integer \<open>x\<close> the
  attribute \<open>x\<close> passes the filter \<open>< -2147483648\<close>, and fails \<open>> -2147483648\<close>.
\<close>

theorem filter_integer_overflow:
  assumes "int_ok (int_value attr)" "0 \<le> int_value attr" "int_value flt = - 2147483648" "length flt = 4"
  shows "op_holds LT (the (attr_diff INTEGER attr flt 4)) \<and> \<not> op_holds GT (the (attr_diff INTEGER attr flt 4)) \<and>
     \<not> ref_match INTEGER LT attr flt \<and> ref_match INTEGER GT attr flt"
proof -
  have "swrap 4 (int_value attr + 2147483648) = int_value attr - 2147483648" using assms(1,2) by (simp add: swrap_def int_ok_def)
  then have "sgn (swrap 4 (int_value attr - int_value flt)) = - 1" using assms by (simp add: int_ok_def sgn_if)
  then show ?thesis using assms by (simp add: attr_diff_def ref_match_def int_value_def)
qed

theorem filter_integer_overflow_witness:
  "op_holds LT (the (attr_diff INTEGER [5, 0, 0, 0] [0, 0, 0, 128] 4)) \<and> ref_match INTEGER GT [5, 0, 0, 0] [0, 0, 0, 128]"
proof -
  have "int_value [5, 0, 0, 0] = 5" "int_value [0, 0, 0, 128] = - 2147483648"
    by (code_simp, code_simp)
  then show ?thesis using filter_integer_overflow [of "[5, 0, 0, 0]" "[0, 0, 0, 128]"] by (simp add: int_ok_def)
qed

section \<open>Access through an open object\<close>

text \<open>
  (C28) \<open>getRecord\<close> of an open heap file with an identifier whose page is in the chain of data pages and whose slot
  number is not negative, when a frame can be replaced: it returns \<open>OK\<close> exactly when a record is stored under the
  identifier and \<open>INVALIDSLOTNO\<close> otherwise, the reference it returns denotes the stored bytes in the pinned frame,
  the page of the record becomes the current page, and no page changes. The code does not check the
  first two conditions: for the header page or a negative slot, as in \<open>NULLRID\<close>, it can return \<open>OK\<close> as well.
\<close>

theorem heap_get_correct:
  assumes "hf_open w h ps" "pageNo rid \<in> set ps" "0 \<le> slotNo rid"
    and "if hf_curPage h = None then \<not> all_pinned w else movable w (filePtr h) (curPageNo h)"
  shows "\<exists>ref h' w'. HeapFile_getRecord w h rid rec = Some (if recs_of w h ps rid = None then INVALIDSLOTNO else OK, ref, h', w') \<and>
     hf_open w' h' ps \<and> curPageNo h' = pageNo rid \<and> curRec h' = rid \<and> view_same w w' \<and>
     (\<forall>b. recs_of w h ps rid = Some b \<longrightarrow> (\<exists>pg. frame_at w' (hf_curPage h') = Some pg \<and> deref pg ref = Some \<lparr>rec_data = b, rec_length = int (length b)\<rparr>))"
  using get_spec [OF assms, of rec] by blast

text \<open>An object opened on the sample file with one record.\<close>

definition sample_open :: "HeapFileScan \<times> db_state" where
  "sample_open = snd (the (HeapFile_new sample_heap1 new_scan ''rel''))"

lemma sample_open_facts:
  obtains ps rid where "hf_open (snd sample_open) (fst sample_open) ps" "recs_of (snd sample_open) (fst sample_open) ps = [rid \<mapsto> [1, 2, 3]]"
    "pageNo rid \<in> set ps" "0 \<le> slotNo rid" "hf_curPage (fst sample_open) \<noteq> None" "movable (snd sample_open) (filePtr (fst sample_open)) (curPageNo (fst sample_open))"
    "chain (lpage (snd sample_open) (filePtr (fst sample_open))) ps" "distinct ps"
proof -
  obtain ps n rid where f: "idle sample_heap1 ''rel'' ps n" "n \<le> 4" "heap_recs (file_view sample_heap1 ''rel'') ps = [rid \<mapsto> [1, 2, 3]]" "addresses sample_heap1 80 1000"
     "spare sample_heap1 4" by (rule sample_heap1_facts)
  have rm: "room sample_heap1 2 n" using addresses_room [of sample_heap1 79 1000 2 n] f(2,4,5) by (simp add: spare_def)
  note rd = idle_ready [OF f(1) rm order_refl]
  obtain h w where o: "HeapFile_new sample_heap1 new_scan ''rel'' = Some (OK, h, w)" "started sample_heap1 ''rel'' ps (hd ps) w h"
    using HeapFile_new_spec [OF rd(1-3), of new_scan] by blast
  have eq: "fst sample_open = h" "snd sample_open = w" using o(1) by (simp_all add: sample_open_def)
  have s: "hf_open w h ps" "hf_curPage h \<noteq> None" "movable w (filePtr h) (curPageNo h)" "recs_of w h ps = [rid \<mapsto> [1, 2, 3]]" using o(2) f(3) by (simp_all add: started_def)
  have "recs_of w h ps rid \<noteq> None" unfolding s(4) by simp
  then have "pageNo rid \<in> set ps" "0 \<le> slotNo rid" by (auto simp: heap_recs_def split: if_splits)
  then show thesis using that s hf_openD(2,3) [OF s(1)] by (simp add: eq)
qed

theorem heap_get_correct_witness:
  "\<exists>rid ref h' w' pg. HeapFile_getRecord (snd sample_open) (fst sample_open) rid no_rec = Some (OK, ref, h', w') \<and>
     frame_at w' (hf_curPage h') = Some pg \<and> deref pg ref = Some \<lparr>rec_data = [1, 2, 3], rec_length = 3\<rparr>"
proof -
  obtain ps rid where f: "hf_open (snd sample_open) (fst sample_open) ps" "recs_of (snd sample_open) (fst sample_open) ps = [rid \<mapsto> [1, 2, 3]]"
    "pageNo rid \<in> set ps" "0 \<le> slotNo rid" "hf_curPage (fst sample_open) \<noteq> None" "movable (snd sample_open) (filePtr (fst sample_open)) (curPageNo (fst sample_open))"
    by (rule sample_open_facts)
  then have "if hf_curPage (fst sample_open) = None then \<not> all_pinned (snd sample_open) else movable (snd sample_open) (filePtr (fst sample_open)) (curPageNo (fst sample_open))"
    by auto
  from heap_get_correct [OF f(1,3,4) this, of no_rec] f(2) obtain ref h' w' pg where
    "HeapFile_getRecord (snd sample_open) (fst sample_open) rid no_rec = Some (OK, ref, h', w')" "frame_at w' (hf_curPage h') = Some pg"
    "deref pg ref = Some \<lparr>rec_data = [1, 2, 3], rec_length = 3\<rparr>" by auto
  then show ?thesis by blast
qed

text \<open>
  (C29) \<open>deleteRecord\<close> removes the current record and no other, in the page and in the count of the
  header; the object stays open and both pages are marked for writing.
\<close>

theorem heap_delete_correct:
  assumes "hf_open w s ps" "hf_curPage s \<noteq> None" "curRec s = RID (curPageNo s) (int k)" "recs_of w s ps (curRec s) = Some b"
  shows "\<exists>w'. HeapFileScan_deleteRecord w s = Some (OK, s\<lparr>hdrDirtyFlag := True, curDirtyFlag := True\<rparr>, w') \<and>
     hf_open w' (s\<lparr>hdrDirtyFlag := True, curDirtyFlag := True\<rparr>) ps \<and> recs_of w' s ps = (recs_of w s ps)(curRec s := None) \<and>
     HeapFile_getRecCnt w' s = Some (swrap 4 (int (card (dom (recs_of w s ps))) - 1)) \<and>
     pins w' = pins w \<and> (\<forall>g q. g \<noteq> filePtr s \<longrightarrow> lpage w' g q = lpage w g q)"
proof -
  let ?s = "s\<lparr>hdrDirtyFlag := True, curDirtyFlag := True\<rparr>"
  obtain w' where d: "HeapFileScan_deleteRecord w s = Some (OK, ?s, w')" "hf_open w' ?s ps" "recs_of w' s ps = (recs_of w s ps)(curRec s := None)"
     "pins w' = pins w" "\<forall>g q. g \<noteq> filePtr s \<longrightarrow> lpage w' g q = lpage w g q" using delete_spec [OF assms] by blast
  obtain hp where hp: "frame_at w' (headerPage s) = Some hp" "hdr_ok hp (lpage w' (filePtr s)) ps" by (rule hf_open_header [OF d(2)]) simp
  have "length (heap_rids (lpage w' (filePtr s)) ps) = card (dom (recs_of w' s ps))" "finite (dom (recs_of w s ps))"
    using heap_len [OF hf_openD(2,3) [OF d(2)]] heap_len [OF hf_openD(2,3) [OF assms(1)]] by simp_all
  moreover have "curRec s \<in> dom (recs_of w s ps)" using assms(4) by blast
  moreover from this calculation have "int (card (dom (recs_of w s ps) - {curRec s})) = int (card (dom (recs_of w s ps))) - 1"
    by (metis card_Suc_Diff1 add_diff_cancel_left' of_nat_Suc)
  ultimately have "HeapFile_getRecCnt w' s = Some (swrap 4 (int (card (dom (recs_of w s ps))) - 1))"
    using hp d(3) by (simp add: HeapFile_getRecCnt_def hdr_ok_def)
  then show ?thesis using d by blast
qed

text \<open>The sample object after reading its record: the record is the current one.\<close>

lemma sample_current:
  "\<exists>ps h (w :: db_state). hf_open w (h :: HeapFileScan) ps \<and> recs_of w h ps (curRec h) = Some [1, 2, 3] \<and> hf_curPage h \<noteq> None \<and>
     (\<exists>k. curRec h = RID (curPageNo h) (int k))"
proof -
  obtain ps rid where f: "hf_open (snd sample_open) (fst sample_open) ps" "recs_of (snd sample_open) (fst sample_open) ps = [rid \<mapsto> [1, 2, 3]]"
    "pageNo rid \<in> set ps" "0 \<le> slotNo rid" "hf_curPage (fst sample_open) \<noteq> None" "movable (snd sample_open) (filePtr (fst sample_open)) (curPageNo (fst sample_open))"
    by (rule sample_open_facts)
  then have "if hf_curPage (fst sample_open) = None then \<not> all_pinned (snd sample_open) else movable (snd sample_open) (filePtr (fst sample_open)) (curPageNo (fst sample_open))"
    by auto
  from get_spec [OF f(1,3,4) this, of no_rec] obtain ref h w where "HeapFile_getRecord (snd sample_open) (fst sample_open) rid no_rec =
      Some (if recs_of (snd sample_open) (fst sample_open) ps rid = None then INVALIDSLOTNO else OK, ref, h, w)" and g: "hf_open w h ps" "hf_curPage h \<noteq> None" "curPageNo h = pageNo rid" "curRec h = rid"
    "filePtr h = filePtr (fst sample_open)" "view_same (snd sample_open) w" by blast
  have "recs_of w h ps (curRec h) = Some [1, 2, 3]" using view_sameD(2) [OF g(6)] g(4,5) f(2) by simp
  moreover have "curRec h = RID (curPageNo h) (int (nat (slotNo rid)))" using g(3,4) f(4) by (cases rid) simp
  ultimately show ?thesis using g(1,2) by blast
qed

theorem heap_delete_correct_witness:
  "\<exists>ps (s :: HeapFileScan) (w :: db_state) s' w'. recs_of w s ps (curRec s) = Some [1, 2, 3] \<and> HeapFileScan_deleteRecord w s = Some (OK, s', w') \<and>
     hf_open w' s' ps \<and> recs_of w' s ps (curRec s) = None"
proof -
  obtain ps s k and w :: db_state where f: "hf_open w (s :: HeapFileScan) ps" "recs_of w s ps (curRec s) = Some [1, 2, 3]" "hf_curPage s \<noteq> None" "curRec s = RID (curPageNo s) (int k)"
    using sample_current by blast
  from heap_delete_correct [OF f(1,3,4,2)] f(2) show ?thesis by (metis fun_upd_same)
qed

text \<open>
  (C40) \<open>deleteRecord\<close> counts a record less even when there is none: with an identifier under which
  nothing is stored it returns \<open>INVALIDSLOTNO\<close> and keeps the records, but the header of the file now
  counts one record less than the file has.
\<close>

theorem heap_delete_absent:
  assumes "hf_open w s ps" "hf_curPage s \<noteq> None" "curRec s = RID (curPageNo s) (int k)" "recs_of w s ps (curRec s) = None"
  shows "\<exists>s' w'. HeapFileScan_deleteRecord w s = Some (INVALIDSLOTNO, s', w') \<and> recs_of w' s ps = recs_of w s ps \<and>
     HeapFile_getRecCnt w' s' = Some (swrap 4 (int (card (dom (recs_of w' s ps))) - 1))"
proof -
  let ?f = "filePtr s"
  note od = hf_openD [OF assms(1)]
  obtain pg where pg: "frame_at w (hf_curPage s) = Some pg" "lpage w ?f (curPageNo s) = Some (page_img pg)" "page_inv pg" "curPage pg = curPageNo s" "curPageNo s \<in> set ps"
    by (rule hf_open_current [OF assms(1,2)])
  have "\<not> live pg k" using assms(3,4) pg by (auto simp: heap_recs_def page_img_recs page_recs_def split: if_splits)
  then have del: "Page_deleteRecord pg (curRec s) = Some (INVALIDSLOTNO, pg)" using deleteRecord_invalid [OF pg(3), of "curRec s" k] assms(3) by simp
  obtain w1 hp w2 where r: "HeapFileScan_deleteRecord w s = Some (INVALIDSLOTNO, s\<lparr>hdrDirtyFlag := True, curDirtyFlag := True\<rparr>, w2)"
     "page_changed w ?f (curPageNo s) pg w1" "page_changed w1 ?f (headerPageNo s) (set_hdr_recCnt hp (hdr_recCnt hp - 1)) w2" "hdr_ok hp (lpage w ?f) ps"
    using delete_run [OF assms(1,2) pg(1) del] by blast
  have "lpage w2 ?f y = lpage w ?f y" if "y \<in> set ps" for y
    using page_changed_lpage [OF r(2)] page_changed_lpage [OF r(3)] pg(2) that od(4) by auto
  then have rec: "recs_of w2 s ps = recs_of w s ps" by (rule heap_recs_cong)
  have ok2: "pool_ok w2" "holds w2 ?f (headerPageNo s) (headerPage s)" using r(2,3) od(6) by (simp_all add: page_changed_def)
  obtain hp2 where hp2: "frame_at w2 (headerPage s) = Some hp2" "page_img hp2 = page_img (set_hdr_recCnt hp (hdr_recCnt hp - 1))"
    using holds_frame_at [OF ok2] page_changed_lpage [OF r(3)] by auto
  have "hdr_recCnt hp2 = hdr_recCnt (set_hdr_recCnt hp (hdr_recCnt hp - 1))" using get_int_img_eq [OF hp2(2), of 64] by (simp add: hdr_recCnt_def)
  also have "\<dots> = swrap 4 (hdr_recCnt hp - 1)" by (simp add: hdr_recCnt_def set_hdr_recCnt_def get_put_int_wrap)
  also have "\<dots> = swrap 4 (int (card (dom (recs_of w s ps))) - 1)"
    using r(4) heap_len [OF od(2,3)] by (simp add: hdr_ok_def swrap_def mod_simps)
  finally show ?thesis using r(1) rec hp2(1) by (simp add: HeapFile_getRecCnt_def)
qed

lemma sample_absent:
  "\<exists>ps (s :: HeapFileScan) (w :: db_state). hf_open w s ps \<and> hf_curPage s \<noteq> None \<and> curRec s = RID (curPageNo s) (int 999) \<and> recs_of w s ps (curRec s) = None \<and>
     card (dom (recs_of w s ps)) = 1"
proof -
  obtain ps rid where f: "hf_open (snd sample_open) (fst sample_open) ps" "recs_of (snd sample_open) (fst sample_open) ps = [rid \<mapsto> [1, 2, 3]]"
     "hf_curPage (fst sample_open) \<noteq> None" by (rule sample_open_facts)
  let ?r = "RID (curPageNo (fst sample_open)) (int 999)"
  obtain pg where pg: "page_inv pg" "lpage (snd sample_open) (filePtr (fst sample_open)) (curPageNo (fst sample_open)) = Some (page_img pg)"
    by (rule hf_open_current [OF f(1,3)])
  have "page_recs pg 999 = None"
  proof (cases "live pg 999")
    case True
    then have "999 < nslots pg" by (simp add: live_def)
    then show ?thesis using slot_in_pageI [OF pg(1), of 999] by (simp add: slot_in_page_def)
  qed (simp add: page_recs_def)
  then have "recs_of (snd sample_open) (fst sample_open) ps ?r = None" using pg by (simp add: heap_recs_def page_img_recs)
  moreover have "hf_open (snd sample_open) ((fst sample_open)\<lparr>curRec := ?r\<rparr>) ps" using f(1) by (simp add: hf_open_def)
  ultimately show ?thesis using f(2,3)
    by (intro exI [of _ ps] exI [of _ "(fst sample_open)\<lparr>curRec := ?r\<rparr>"] exI [of _ "snd sample_open"]) simp
qed

theorem heap_delete_absent_witness:
  "\<exists>ps (s :: HeapFileScan) (w :: db_state) s' w'. HeapFileScan_deleteRecord w s = Some (INVALIDSLOTNO, s', w') \<and> card (dom (recs_of w' s ps)) = 1 \<and>
     HeapFile_getRecCnt w' s' = Some 0"
proof -
  obtain ps s and w :: db_state where f: "hf_open w (s :: HeapFileScan) ps" "hf_curPage s \<noteq> None" "curRec s = RID (curPageNo s) (int 999)"
     "recs_of w s ps (curRec s) = None" "card (dom (recs_of w s ps)) = 1" using sample_absent by blast
  have "swrap 4 0 = 0" by (simp add: int_ok_def)
  with heap_delete_absent [OF f(1-4)] f(5) show ?thesis by (metis cancel_comm_monoid_add_class.diff_cancel of_nat_1)
qed

text \<open>
  \<open>createHeapFile\<close> on the name of an existing heap file that is closed returns \<open>FILEEXISTS\<close> and
  leaves the file open: its object stays in the table with a count of one that no caller will close.
\<close>

theorem heap_create_existing_open:
  assumes "idle w nm ps n" "room w 0 n"
  shows "\<exists>w'. createHeapFile w nm = Some (FILEEXISTS, w') \<and> oft_map (openFiles w) nm = None \<and>
     oft_map (openFiles w') nm = Some (newAddr w (newCnt w)) \<and> open_count w' (newAddr w (newCnt w)) = 1"
proof -
  have i: "db_inv w" "oft_map (openFiles w) nm = None" "nm \<noteq> []" using assms(1) by (simp_all add: idle_def)
  have f: "newAddr w (newCnt w) \<noteq> NULL" "files w (newAddr w (newCnt w)) = None" using assms(2) by (simp_all add: room_def Let_def)
  have "disk w nm \<noteq> None" using assms(1) by (auto simp: idle_def file_view_def end_page_def name_page_def split: option.splits)
  then have can: "can_open w nm" using i f by (simp add: can_open_def)
  have h: "handle w nm = newAddr w (newCnt w)" using i(2) by (simp add: handle_def)
  obtain w' where o: "DB_openFile w nm NULL = Some (OK, newAddr w (newCnt w), w')" "opened w nm w'" using open_spec [OF i(1) can, of NULL] h by auto
  have "open_count w (newAddr w (newCnt w)) = 0" using f(2) by (simp add: open_count_def)
  then show ?thesis using o i(2) h by (intro exI [of _ w']) (simp add: createHeapFile_def opened_def)
qed

theorem heap_create_existing_open_witness:
  "\<exists>w'. createHeapFile sample_heap ''rel'' = Some (FILEEXISTS, w') \<and> oft_map (openFiles w') ''rel'' \<noteq> None"
proof -
  have "room sample_heap 0 3" using sample_heap_room(1) by (simp add: room_def Let_def spare_def)
  then show ?thesis using heap_create_existing_open [OF sample_heap_facts(2)] by force
qed

end
