(* ===== verification/Catalog.thy ===== *)
theory Catalog
  imports HeapFile
begin

text \<open>
  The relation and attribute catalogs: \<open>catalog.h\<close>, \<open>catalog.cpp\<close>, \<open>create.cpp\<close> and
  \<open>destroy.cpp\<close>. The methods of \<open>RelCatalog\<close> and \<open>AttrCatalog\<close> never use the object they are
  called on: each opens the catalog file again by name. The state is therefore that of the
  database; the catalog objects matter only for the opens and pins their constructors make.

  The parameters \<open>s\<close> and \<open>h\<close> are the memory in which \<open>new\<close> places an object, \<open>u\<close> stands for
  the value of a local variable that is read before it is set. A scan that is given to
  \<open>free\<close> is not destructed: its file stays open and its header page pinned. A function
  that ends without \<open>return\<close>, a loop that does not end and an access outside an object
  have no defined result. A \<open>char\<close> array is a list of bytes; C++ strings end with a zero.
\<close>

section \<open>C strings\<close>

fun strcmp :: "byte list \<Rightarrow> byte list \<Rightarrow> int option" where
  "strcmp (a # as) (b # bs) = (if a \<noteq> b then Some (if a < b then - 1 else 1) else if a = 0 then Some 0 else strcmp as bs)"
| "strcmp _ _ = None"

text \<open>The string at the start of a buffer, if it ends inside the buffer.\<close>

definition zstring :: "byte list \<Rightarrow> byte list option" where
  "zstring bs = (if 0 \<in> set bs then Some (takeWhile (\<lambda>b. b \<noteq> 0) bs) else None)"

definition strcpy :: "byte list \<Rightarrow> byte list \<Rightarrow> byte list option" where
  "strcpy dst src = do {
     cs \<leftarrow> zstring src;
     if length cs < length dst then Some (cs @ 0 # drop (length cs + 1) dst) else None
   }"

text \<open>The buffer behind \<open>c_str()\<close>.\<close>

definition string_buf :: "string \<Rightarrow> byte list" where
  "string_buf s = map of_char s @ [0]"

definition string_of_bytes :: "byte list \<Rightarrow> string" where
  "string_of_bytes bs = map (\<lambda>b. char_of (unat b)) bs"


text \<open>Decimal numbers as \<open>printf\<close> and streams write them.\<close>

fun nat_str :: "nat \<Rightarrow> string" where
  "nat_str n = (if n < 10 then [char_of (48 + n)] else nat_str (n div 10) @ [char_of (48 + n mod 10)])"

definition int_str :: "int \<Rightarrow> string" where
  "int_str i = (if i < 0 then CHR ''-'' # nat_str (nat (- i)) else nat_str (nat i))"


section \<open>Tuples of the catalogs\<close>

definition RELCATNAME :: string where "RELCATNAME = ''relcat''"
definition ATTRCATNAME :: string where "ATTRCATNAME = ''attrcat''"

abbreviation MAXNAME :: nat where "MAXNAME \<equiv> 32"

record RelDesc =
  rd_relName :: "byte list"
  rd_attrCnt :: int

record attrInfo =
  ai_relName :: "byte list"
  ai_attrName :: "byte list"
  ai_attrType :: int
  ai_attrLen :: int
  ai_attrValue :: ptr

record AttrDesc =
  ad_relName :: "byte list"
  ad_attrName :: "byte list"
  ad_attrOffset :: int
  ad_attrType :: int
  ad_attrLen :: int

text \<open>The structures as bytes in memory, and \<open>memcpy\<close> to the address of a structure.\<close>

definition int_bytes :: "int \<Rightarrow> byte list" where
  "int_bytes v = read_bytes (put_int (\<lambda>x. 0) 0 v) 0 4"

definition bytes_int :: "byte list \<Rightarrow> int" where
  "bytes_int bs = get_int (bytes_mem bs) 0"

definition RelDesc_bytes :: "RelDesc \<Rightarrow> byte list" where
  "RelDesc_bytes rd = rd_relName rd @ int_bytes (rd_attrCnt rd)"

definition RelDesc_of_bytes :: "byte list \<Rightarrow> RelDesc" where
  "RelDesc_of_bytes bs = \<lparr>rd_relName = take 32 bs, rd_attrCnt = bytes_int (drop 32 bs)\<rparr>"

definition AttrDesc_bytes :: "AttrDesc \<Rightarrow> byte list" where
  "AttrDesc_bytes ad = ad_relName ad @ ad_attrName ad @ int_bytes (ad_attrOffset ad) @ int_bytes (ad_attrType ad) @ int_bytes (ad_attrLen ad)"

definition AttrDesc_of_bytes :: "byte list \<Rightarrow> AttrDesc" where
  "AttrDesc_of_bytes bs = \<lparr>ad_relName = take 32 bs, ad_attrName = take 32 (drop 32 bs), ad_attrOffset = bytes_int (drop 64 bs),
     ad_attrType = bytes_int (drop 68 bs), ad_attrLen = bytes_int (drop 72 bs)\<rparr>"

definition memcpy_RelDesc :: "RelDesc \<Rightarrow> byte list \<Rightarrow> RelDesc option" where
  "memcpy_RelDesc rd bs = (if length bs \<le> 36 then Some (RelDesc_of_bytes (bs @ drop (length bs) (RelDesc_bytes rd))) else None)"

definition memcpy_AttrDesc :: "AttrDesc \<Rightarrow> byte list \<Rightarrow> AttrDesc option" where
  "memcpy_AttrDesc ad bs = (if length bs \<le> 76 then Some (AttrDesc_of_bytes (bs @ drop (length bs) (AttrDesc_bytes ad))) else None)"

text \<open>\<open>n\<close> bytes from \<open>rec.data\<close> on, and all bytes from there to the end of the page.\<close>

definition rec_bytes :: "'a buf_state_scheme \<Rightarrow> 'h HeapFile_scheme \<Rightarrow> recref \<Rightarrow> int \<Rightarrow> byte list option" where
  "rec_bytes w s rec n = do {
     p \<leftarrow> frame_at w (hf_curPage s);
     if 0 \<le> ref_offset rec \<and> 0 \<le> n \<and> ref_offset rec + n \<le> PAGESIZE then Some (read_bytes p (nat (ref_offset rec)) (nat n)) else None
   }"

definition rec_rest :: "'a buf_state_scheme \<Rightarrow> 'h HeapFile_scheme \<Rightarrow> recref \<Rightarrow> byte list option" where
  "rec_rest w s rec = rec_bytes w s rec (PAGESIZE - ref_offset rec)"


section \<open>The relation catalog\<close>

definition RelCatalog_new :: "'a db_state_scheme \<Rightarrow> HeapFile \<Rightarrow> (Status \<times> HeapFile \<times> 'a db_state_scheme) option" where
  "RelCatalog_new w h = HeapFile_new w h RELCATNAME"

definition RelCatalog_destroy :: "'a db_state_scheme \<Rightarrow> HeapFile \<Rightarrow> (HeapFile \<times> 'a db_state_scheme) option" where
  "RelCatalog_destroy w h = HeapFile_destroy w h"

definition RelCatalog_getInfo :: "'a db_state_scheme \<Rightarrow> HeapFileScan \<Rightarrow> string \<Rightarrow> RelDesc \<Rightarrow> (Status \<times> RelDesc \<times> 'a db_state_scheme) option" where
  "RelCatalog_getInfo w s relation record =
     (if relation = [] then Some (BADCATPARM, record, w)
      else do {
        (heapFileScanReturned, scan, w) \<leftarrow> HeapFileScan_new w s RELCATNAME;
        if heapFileScanReturned \<noteq> OK then Some (heapFileScanReturned, record, w) else do {
        let (startScanReturned, scan) = startScan scan 0 (swrap 4 (int (length relation) + 1)) 0 (Some (string_buf relation)) EQ;
        if startScanReturned \<noteq> OK then Some (startScanReturned, record, w) else do {
        (status, rid, scan, w) \<leftarrow> scanNext w scan NULLRID;
        if status = OK then do {
          (getRecordReturned, rec) \<leftarrow> HeapFileScan_getRecord w scan no_rec;
          if getRecordReturned \<noteq> OK then Some (getRecordReturned, record, w) else do {
          data \<leftarrow> rec_bytes w scan rec (ref_length rec);
          record \<leftarrow> memcpy_RelDesc record data;
          (endScanReturned, scan, w) \<leftarrow> endScan w scan;
          Some (endScanReturned, record, w)
          }
        }
        else do {
          let status = (if status = FILEEOF then RELNOTFOUND else status);
          (endScanReturned, scan, w) \<leftarrow> endScan w scan;
          Some (status, record, w)
        }
        }}
      })"

definition RelCatalog_addInfo :: "'a db_state_scheme \<Rightarrow> HeapFile \<Rightarrow> RelDesc \<Rightarrow> (Status \<times> 'a db_state_scheme) option" where
  "RelCatalog_addInfo w h record = do {
     (insertFileScanReturned, ifs, w) \<leftarrow> InsertFileScan_new w h RELCATNAME;
     if insertFileScanReturned = OK then do {
       (insertRecordReturned, rid, ifs, w) \<leftarrow> insertRecord w ifs \<lparr>rec_data = RelDesc_bytes record, rec_length = 36\<rparr> NULLRID;
       (ifs, w) \<leftarrow> InsertFileScan_destroy w ifs;
       Some (insertRecordReturned, w)
     }
     else Some (insertFileScanReturned, w)
   }"

text \<open>The loop of \<open>removeInfo\<close>; a result of \<open>Inl\<close> is a \<open>return\<close> from inside, \<open>Inr\<close> the end of the loop.\<close>

partial_function (option) rel_remove_loop ::
    "'a db_state_scheme \<Rightarrow> HeapFileScan \<Rightarrow> string \<Rightarrow> Status \<Rightarrow> ((Status + HeapFileScan) \<times> 'a db_state_scheme) option" where
  "rel_remove_loop w hfs relation scanNextReturned =
     (if scanNextReturned = FILEEOF then Some (Inr hfs, w)
      else if scanNextReturned \<noteq> OK then Some (Inl scanNextReturned, w)
      else do {
        (getRecordReturned, recordToFind) \<leftarrow> HeapFileScan_getRecord w hfs no_rec;
        if getRecordReturned \<noteq> OK then Some (Inl getRecordReturned, w) else do {
        data \<leftarrow> rec_bytes w hfs recordToFind 36;
        d \<leftarrow> strcmp data (string_buf relation);
        if d = 0 then do {
          (status, hfs, w) \<leftarrow> HeapFileScan_deleteRecord w hfs;
          Some (Inl OK, w)
        }
        else do {
          (scanNextReturned, rid, hfs, w) \<leftarrow> scanNext w hfs NULLRID;
          rel_remove_loop w hfs relation scanNextReturned
        }
        }
      })"

text \<open>\<open>u\<close> is the value of \<open>status\<close>, which is tested but never set; after the loop there is no \<open>return\<close>.\<close>

definition RelCatalog_removeInfo :: "Status \<Rightarrow> 'a db_state_scheme \<Rightarrow> HeapFileScan \<Rightarrow> string \<Rightarrow> (Status \<times> 'a db_state_scheme) option" where
  "RelCatalog_removeInfo u w s relation =
     (if relation = [] then Some (BADCATPARM, w)
      else do {
        (heapFileScanReturned, hfs, w) \<leftarrow> HeapFileScan_new w s RELCATNAME;
        if u \<noteq> OK then Some (heapFileScanReturned, w) else do {
        let (startScanReturned, hfs) = startScan hfs 0 (swrap 4 (int (length relation) + 1)) 0 (Some (string_buf relation)) EQ;
        if startScanReturned \<noteq> OK then Some (startScanReturned, w) else do {
        (scanNextReturned, rid, hfs, w) \<leftarrow> scanNext w hfs NULLRID;
        (res, w) \<leftarrow> rel_remove_loop w hfs relation scanNextReturned;
        case res of Inl status \<Rightarrow> Some (status, w) | Inr _ \<Rightarrow> None
        }}
      })"


section \<open>The attribute catalog\<close>

definition AttrCatalog_new :: "'a db_state_scheme \<Rightarrow> HeapFile \<Rightarrow> (Status \<times> HeapFile \<times> 'a db_state_scheme) option" where
  "AttrCatalog_new w h = HeapFile_new w h ATTRCATNAME"

definition AttrCatalog_destroy :: "'a db_state_scheme \<Rightarrow> HeapFile \<Rightarrow> (HeapFile \<times> 'a db_state_scheme) option" where
  "AttrCatalog_destroy w h = HeapFile_destroy w h"

text \<open>\<open>record.attrName == attrName\<close>: the array is read as a C string, beyond its end if it has no zero.\<close>

definition attrName_is :: "AttrDesc \<Rightarrow> string \<Rightarrow> bool option" where
  "attrName_is record attrName = map_option (\<lambda>cs. cs = map of_char attrName) (zstring (drop 32 (AttrDesc_bytes record)))"

partial_function (option) attr_find_loop ::
    "'a db_state_scheme \<Rightarrow> HeapFileScan \<Rightarrow> string \<Rightarrow> AttrDesc \<Rightarrow> Status \<Rightarrow> (Status option \<times> Status \<times> AttrDesc \<times> HeapFileScan \<times> 'a db_state_scheme) option" where
  "attr_find_loop w hfs attrName record scanNextReturned =
     (if scanNextReturned \<noteq> OK then Some (None, scanNextReturned, record, hfs, w)
      else do {
        (getRecordReturned, rec) \<leftarrow> HeapFileScan_getRecord w hfs no_rec;
        if getRecordReturned \<noteq> OK then Some (Some getRecordReturned, scanNextReturned, record, hfs, w) else do {
        data \<leftarrow> rec_bytes w hfs rec (ref_length rec);
        record \<leftarrow> memcpy_AttrDesc record data;
        found \<leftarrow> attrName_is record attrName;
        if found then Some (None, scanNextReturned, record, hfs, w)
        else do {
          (scanNextReturned, rid, hfs, w) \<leftarrow> scanNext w hfs NULLRID;
          attr_find_loop w hfs attrName record scanNextReturned
        }
        }
      })"

definition AttrCatalog_getInfo ::
    "'a db_state_scheme \<Rightarrow> HeapFileScan \<Rightarrow> string \<Rightarrow> string \<Rightarrow> AttrDesc \<Rightarrow> (Status \<times> AttrDesc \<times> 'a db_state_scheme) option" where
  "AttrCatalog_getInfo w s relation attrName record =
     (if relation = [] \<or> attrName = [] then Some (BADCATPARM, record, w)
      else do {
        (heapFileScanReturned, hfs, w) \<leftarrow> HeapFileScan_new w s ATTRCATNAME;
        if heapFileScanReturned \<noteq> OK then Some (heapFileScanReturned, record, w) else do {
        let (startScanReturned, hfs) = startScan hfs 0 (swrap 4 (int (length relation) + 1)) 0 (Some (string_buf relation)) EQ;
        if startScanReturned \<noteq> OK then Some (startScanReturned, record, w) else do {
        (scanNextReturned, rid, hfs, w) \<leftarrow> scanNext w hfs NULLRID;
        (ret, scanNextReturned, record, hfs, w) \<leftarrow> attr_find_loop w hfs attrName record scanNextReturned;
        case ret of
          Some status \<Rightarrow> Some (status, record, w)
        | None \<Rightarrow>
            if scanNextReturned \<noteq> FILEEOF then do {
              (status, hfs, w) \<leftarrow> endScan w hfs;
              Some (status, record, w)
            }
            else Some (ATTRNOTFOUND, record, w)
        }}
      })"

definition AttrCatalog_addInfo :: "'a db_state_scheme \<Rightarrow> HeapFile \<Rightarrow> AttrDesc \<Rightarrow> (Status \<times> 'a db_state_scheme) option" where
  "AttrCatalog_addInfo w h record = do {
     (insertFileScanReturned, ifs, w) \<leftarrow> InsertFileScan_new w h ATTRCATNAME;
     if insertFileScanReturned = OK then do {
       (insertRecordReturned, rid, ifs, w) \<leftarrow> insertRecord w ifs \<lparr>rec_data = AttrDesc_bytes record, rec_length = 76\<rparr> NULLRID;
       (ifs, w) \<leftarrow> InsertFileScan_destroy w ifs;
       Some (insertRecordReturned, w)
     }
     else Some (insertFileScanReturned, w)
   }"

text \<open>The loop of \<open>removeInfo\<close> never advances the scan.\<close>

partial_function (option) attr_remove_loop ::
    "'a db_state_scheme \<Rightarrow> HeapFileScan \<Rightarrow> string \<Rightarrow> AttrDesc \<Rightarrow> Status \<Rightarrow> (Status option \<times> 'a db_state_scheme) option" where
  "attr_remove_loop w hfs attrName record scanNextReturned =
     (if scanNextReturned \<noteq> OK then Some (None, w)
      else do {
        (getRecordReturned, rec) \<leftarrow> HeapFileScan_getRecord w hfs no_rec;
        if getRecordReturned \<noteq> OK then Some (Some getRecordReturned, w) else do {
        data \<leftarrow> rec_bytes w hfs rec (ref_length rec);
        record \<leftarrow> memcpy_AttrDesc record data;
        found \<leftarrow> attrName_is record attrName;
        if found then Some (None, w) else attr_remove_loop w hfs attrName record scanNextReturned
        }
      })"

definition AttrCatalog_removeInfo ::
    "'a db_state_scheme \<Rightarrow> HeapFileScan \<Rightarrow> AttrDesc \<Rightarrow> string \<Rightarrow> string \<Rightarrow> (Status \<times> 'a db_state_scheme) option" where
  "AttrCatalog_removeInfo w s record relation attrName =
     (if relation = [] \<or> attrName = [] then Some (BADCATPARM, w)
      else do {
        (heapFileScanReturned, hfs, w) \<leftarrow> HeapFileScan_new w s ATTRCATNAME;
        if heapFileScanReturned \<noteq> OK then Some (heapFileScanReturned, w) else do {
        let (startScanReturned, hfs) = startScan hfs 0 (swrap 4 (int (length relation) + 1)) 0 (Some (string_buf relation)) EQ;
        if startScanReturned \<noteq> OK then Some (startScanReturned, w) else do {
        (scanNextReturned, rid, hfs, w) \<leftarrow> scanNext w hfs NULLRID;
        (ret, w) \<leftarrow> attr_remove_loop w hfs attrName record scanNextReturned;
        case ret of
          Some status \<Rightarrow> Some (status, w)
        | None \<Rightarrow> do {
            (deleteRecordReturned, hfs, w) \<leftarrow> (if scanNextReturned = OK then HeapFileScan_deleteRecord w hfs else Some (RELNOTFOUND, hfs, w));
            (endScanReturned, hfs, w) \<leftarrow> endScan w hfs;
            Some (deleteRecordReturned, w)
          }
        }}
      })"

text \<open>The loop of \<open>getRelInfo\<close> fills the array from its end; \<open>amount\<close> is the index to fill next. A write behind the array is undefined.\<close>

partial_function (option) rel_info_loop ::
    "'a db_state_scheme \<Rightarrow> HeapFileScan \<Rightarrow> string \<Rightarrow> AttrDesc list \<Rightarrow> int \<Rightarrow> Status \<Rightarrow> (Status option \<times> AttrDesc list \<times> 'a db_state_scheme) option" where
  "rel_info_loop w hfs relation attrs amount scanNextReturned =
     (if scanNextReturned = FILEEOF \<or> amount < 0 then Some (None, attrs, w)
      else if scanNextReturned \<noteq> OK then Some (Some scanNextReturned, attrs, w)
      else do {
        (getRecordReturned, rec) \<leftarrow> HeapFileScan_getRecord w hfs no_rec;
        if getRecordReturned \<noteq> OK then Some (Some getRecordReturned, attrs, w) else do {
        data \<leftarrow> rec_bytes w hfs rec 76;
        if int (length attrs) \<le> amount then None else do {
        let attrs = attrs[nat amount := AttrDesc_of_bytes data];
        d \<leftarrow> strcmp data (string_buf relation);
        let amount = (if d = 0 then amount - 1 else amount);
        (scanNextReturned, rid, hfs, w) \<leftarrow> scanNext w hfs NULLRID;
        rel_info_loop w hfs relation attrs amount scanNextReturned
        }}
      })"

text \<open>\<open>rd\<close> and \<open>ad\<close> are the contents of memory that is not initialised; a negative count cannot be allocated.\<close>

definition AttrCatalog_getRelInfo ::
    "RelDesc \<Rightarrow> AttrDesc \<Rightarrow> 'a db_state_scheme \<Rightarrow> HeapFileScan \<Rightarrow> string \<Rightarrow> int \<Rightarrow> AttrDesc list \<Rightarrow>
     (Status \<times> int \<times> AttrDesc list \<times> 'a db_state_scheme) option" where
  "AttrCatalog_getRelInfo rd ad w s relation attrCnt attrs =
     (if relation = [] then Some (BADCATPARM, attrCnt, attrs, w)
      else do {
        (getInfoReturned, descriptor, w) \<leftarrow> RelCatalog_getInfo w s relation rd;
        if getInfoReturned \<noteq> OK then Some (getInfoReturned, attrCnt, attrs, w) else do {
        let attrCnt = rd_attrCnt descriptor;
        if attrCnt < 0 then None else do {
        let attrs = replicate (nat attrCnt) ad;
        (heapFileScanReturned, hfs, w) \<leftarrow> HeapFileScan_new w s ATTRCATNAME;
        if heapFileScanReturned \<noteq> OK then Some (heapFileScanReturned, attrCnt, attrs, w) else do {
        let (startScanReturned, hfs) = startScan hfs 0 0 0 None EQ;
        if startScanReturned \<noteq> OK then Some (startScanReturned, attrCnt, attrs, w) else do {
        (scanNextReturned, rid, hfs, w) \<leftarrow> scanNext w hfs NULLRID;
        (ret, attrs, w) \<leftarrow> rel_info_loop w hfs relation attrs (attrCnt - 1) scanNextReturned;
        case ret of Some status \<Rightarrow> Some (status, attrCnt, attrs, w) | None \<Rightarrow> Some (OK, attrCnt, attrs, w)
        }}}}
      })"

end
