(* ===== verification/HeapShared.thy ===== *)
theory HeapShared
  imports HeapCorrect Catalog
begin

text \<open>
  Heap files that several objects have open at the same time, as the catalogs are: a table keeps its
  contents whoever uses it, an object that is only read from can be left behind without being
  destructed, and work on one table leaves all others as they are.
\<close>

section \<open>Tables\<close>

text \<open>A named heap file, open or not, with its data pages, the number of its next page, and no change that nobody has marked.\<close>

definition table :: "'a db_state_scheme \<Rightarrow> string \<Rightarrow> int list \<Rightarrow> int \<Rightarrow> bool" where
  "table w nm ps n \<longleftrightarrow> nm \<noteq> [] \<and> stored_heap w nm ps \<and> end_page (file_view w nm) n \<and>
     (\<forall>f p. oft_map (openFiles w) nm = Some f \<longrightarrow> p \<in> set (1 # ps) \<longrightarrow> clean w f p)"

text \<open>Addresses for \<open>k\<close> more file objects, and hash values in range for the pages below \<open>n\<close> of these and of all open files.\<close>

definition resources :: "'a db_state_scheme \<Rightarrow> nat \<Rightarrow> int \<Rightarrow> bool" where
  "resources w k n \<longleftrightarrow> addresses w k n \<and> inj_on (\<lambda>i. newAddr w (newCnt w + i)) {..<k} \<and>
     (\<forall>m f p. oft_map (openFiles w) m = Some f \<longrightarrow> 1 \<le> p \<longrightarrow> p < n \<longrightarrow> bht_valid (hashTable w) (f, p))"

definition opens :: "'a db_state_scheme \<Rightarrow> string \<Rightarrow> nat" where
  "opens w nm = (if oft_map (openFiles w) nm = None then 1 else 0)"

text \<open>What work on the file \<open>nm\<close> that makes \<open>j\<close> file objects leaves of the other files.\<close>

definition others_kept :: "'a db_state_scheme \<Rightarrow> string \<Rightarrow> nat \<Rightarrow> 'a db_state_scheme \<Rightarrow> bool" where
  "others_kept w nm j w' \<longleftrightarrow> db_inv w' \<and> frames w' = frames w \<and> bht_valid (hashTable w') = bht_valid (hashTable w) \<and>
     newAddr w' = newAddr w \<and> newCnt w' = newCnt w + j \<and>
     (\<forall>m. m \<noteq> nm \<longrightarrow> oft_map (openFiles w') m = oft_map (openFiles w) m \<and> file_view w' m = file_view w m \<and> file_used w' m = file_used w m \<and>
        (oft_map (openFiles w) m = None \<longrightarrow> disk w' m = disk w m)) \<and>
     (\<forall>m f q. m \<noteq> nm \<longrightarrow> oft_map (openFiles w) m = Some f \<longrightarrow> q \<in> used_pages f w \<longrightarrow> clean w f q \<longrightarrow> clean w' f q) \<and>
     (\<forall>g. files w' g \<noteq> None \<longrightarrow> files w g \<noteq> None \<or> g \<in> (\<lambda>i. newAddr w (newCnt w + i)) ` {..<j}) \<and>
     (\<forall>f. oft_map (openFiles w') nm = Some f \<longrightarrow> oft_map (openFiles w) nm = Some f \<or> f \<in> (\<lambda>i. newAddr w (newCnt w + i)) ` {..<j}) \<and>
     (\<forall>g q i. holds w g q i \<longrightarrow> holds w' g q i)"

lemma kept_holds: "others_kept w nm j w' \<Longrightarrow> holds w g q i \<Longrightarrow> holds w' g q i"
  unfolding others_kept_def by blast

text \<open>A page that others have pinned besides the object \<open>h\<close> stays where it is when \<open>h\<close> gives back its current page.\<close>

lemma held_move:
  assumes "\<forall>g q j. holds w g q j \<longrightarrow> (g, q) \<noteq> (filePtr h, curPageNo h) \<or> 1 < pins w (filePtr h) (curPageNo h) \<longrightarrow> holds w' g q j"
    and "hf_curPage h \<noteq> None" "holds w g q i" "g = filePtr h \<Longrightarrow> own_pins h q < pins w g q"
  shows "holds w' g q i"
proof -
  have "1 \<le> own_pins h (curPageNo h)" using assms(2) by (simp add: own_pins_def)
  then have "(g, q) \<noteq> (filePtr h, curPageNo h) \<or> 1 < pins w (filePtr h) (curPageNo h)" using assms(4) by fastforce
  then show ?thesis using assms(1,3) by blast
qed

lemma open_used: "db_inv w \<Longrightarrow> oft_map (openFiles w) m = Some f \<Longrightarrow> used_pages f w = file_used w m"
  using open_name_disk [of w f m] open_name_table [of w f m] by simp

lemma open_inj: "db_inv w \<Longrightarrow> oft_map (openFiles w) m = Some f \<Longrightarrow> oft_map (openFiles w) m' = Some f \<Longrightarrow> m = m'"
  using open_name_table [of w f m] open_name_table [of w f m'] by simp

lemma table_other:
  assumes k: "others_kept w nm j w'" and inv: "db_inv w" and m: "m \<noteq> nm" and t: "table w m ps n"
  shows "table w' m ps n"
proof -
  have s: "oft_map (openFiles w') m = oft_map (openFiles w) m" "file_view w' m = file_view w m" "file_used w' m = file_used w m"
    "\<forall>f q. oft_map (openFiles w) m = Some f \<longrightarrow> q \<in> used_pages f w \<longrightarrow> clean w f q \<longrightarrow> clean w' f q"
    using k m unfolding others_kept_def by blast+
  have h: "set (1 # ps) \<subseteq> file_used w m" "\<forall>f p. oft_map (openFiles w) m = Some f \<longrightarrow> p \<in> set (1 # ps) \<longrightarrow> clean w f p"
    using t unfolding table_def stored_heap_def heap_at_def by blast+
  have "clean w' f p" if "oft_map (openFiles w) m = Some f" "p \<in> set (1 # ps)" for f p
    using s(4) h that open_used [OF inv that(1)] by blast
  then show ?thesis using t s(1-3) unfolding table_def stored_heap_def by auto
qed

lemma resources_kept:
  assumes k: "others_kept w nm j w'" and r: "resources w (j + k) n"
  shows "resources w' k n"
proof -
  have s: "bht_valid (hashTable w') = bht_valid (hashTable w)" "newAddr w' = newAddr w" "newCnt w' = newCnt w + j"
     "\<forall>m. m \<noteq> nm \<longrightarrow> oft_map (openFiles w') m = oft_map (openFiles w) m"
     "\<forall>g. files w' g \<noteq> None \<longrightarrow> files w g \<noteq> None \<or> g \<in> (\<lambda>i. newAddr w (newCnt w + i)) ` {..<j}"
     "\<forall>f. oft_map (openFiles w') nm = Some f \<longrightarrow> oft_map (openFiles w) nm = Some f \<or> f \<in> (\<lambda>i. newAddr w (newCnt w + i)) ` {..<j}"
    using k unfolding others_kept_def by blast+
  have r': "n < 2 ^ 31" "inj_on (\<lambda>i. newAddr w (newCnt w + i)) {..<j + k}"
     "\<And>m f p. oft_map (openFiles w) m = Some f \<Longrightarrow> 1 \<le> p \<Longrightarrow> p < n \<Longrightarrow> bht_valid (hashTable w) (f, p)"
     "\<And>i. i < j + k \<Longrightarrow> newAddr w (newCnt w + i) \<noteq> NULL \<and> files w (newAddr w (newCnt w + i)) = None"
     "\<And>i p. i < j + k \<Longrightarrow> 1 \<le> p \<Longrightarrow> p < n \<Longrightarrow> bht_valid (hashTable w) (newAddr w (newCnt w + i), p)"
    using r by (auto simp: resources_def addresses_def Let_def)
  have eq: "newAddr w' (newCnt w' + i) = newAddr w (newCnt w + (j + i))" for i using s(2,3) by (simp add: add.assoc)
  have fr: "files w' (newAddr w (newCnt w + (j + i))) = None" if i: "i < k" for i
  proof (rule ccontr)
    assume "files w' (newAddr w (newCnt w + (j + i))) \<noteq> None"
    then have "newAddr w (newCnt w + (j + i)) \<in> (\<lambda>i. newAddr w (newCnt w + i)) ` {..<j}" using s(5) r'(4) [of "j + i"] i by auto
    then obtain l where "l < j" "newAddr w (newCnt w + (j + i)) = newAddr w (newCnt w + l)" by auto
    then show False using inj_onD [OF r'(2), of "j + i" l] i by auto
  qed
  have "inj_on (\<lambda>i. newAddr w' (newCnt w' + i)) {..<k}"
    unfolding eq using r'(2) by (auto simp: inj_on_def) (metis add_left_cancel lessThan_iff nat_add_left_cancel_less)
  moreover have "bht_valid (hashTable w') (f, p)" if "oft_map (openFiles w') m = Some f" "1 \<le> p" "p < n" for m f p
    using that s r'(3,5) by (cases "m = nm") auto
  ultimately show ?thesis using fr r'(1,4,5) s(1) unfolding resources_def addresses_def Let_def eq by auto
qed

lemma others_kept_step:
  assumes k: "others_kept w nm j w1" and inv: "db_inv w" and f: "oft_map (openFiles w1) nm = Some f0" and inv2: "db_inv w2"
    and s: "frames w2 = frames w1" "bht_valid (hashTable w2) = bht_valid (hashTable w1)" "newAddr w2 = newAddr w1" "newCnt w2 = newCnt w1"
    and o: "\<And>m. m \<noteq> nm \<Longrightarrow> oft_map (openFiles w2) m = oft_map (openFiles w1) m"
      "\<And>f. oft_map (openFiles w2) nm = Some f \<Longrightarrow> f = f0" "\<And>g. files w2 g \<noteq> None \<Longrightarrow> files w1 g \<noteq> None"
    and v: "\<And>g. g \<noteq> f0 \<Longrightarrow> lpage w2 g = lpage w1 g" "\<And>g. g \<noteq> f0 \<Longrightarrow> used_pages g w2 = used_pages g w1"
      "\<And>g q. g \<noteq> f0 \<Longrightarrow> q \<in> used_pages g w1 \<Longrightarrow> clean w1 g q \<Longrightarrow> clean w2 g q"
    and d: "\<And>m. oft_map (openFiles w1) m = None \<Longrightarrow> disk w2 m = disk w1 m" and hk: "\<And>g q i. holds w g q i \<Longrightarrow> holds w2 g q i"
  shows "others_kept w nm j w2"
proof -
  have inv1: "db_inv w1" using k unfolding others_kept_def by blast
  have ne: "g \<noteq> f0" if "m \<noteq> nm" "oft_map (openFiles w1) m = Some g" for m g using open_inj [OF inv1 f] that by blast
  have q: "oft_map (openFiles w2) m = oft_map (openFiles w1) m \<and> file_view w2 m = file_view w1 m \<and> file_used w2 m = file_used w1 m" if m: "m \<noteq> nm" for m
  proof (cases "oft_map (openFiles w1) m")
    case None
    then show ?thesis using o(1) [OF m] d [OF None] by (simp add: file_view_def file_used_def name_page_def fun_eq_iff)
  next
    case (Some g)
    then have g: "oft_map (openFiles w2) m = Some g" "g \<noteq> f0" using o(1) [OF m] ne [OF m] by simp_all
    then show ?thesis using Some v(1,2) [OF g(2)] open_used [OF inv1 Some] open_used [OF inv2 g(1)] by (simp add: file_view_def)
  qed
  have c: "clean w2 g q" if m: "m \<noteq> nm" "oft_map (openFiles w) m = Some g" "q \<in> used_pages g w" "clean w g q" for m g q
  proof -
    have e: "oft_map (openFiles w1) m = Some g" "file_used w1 m = file_used w m" "clean w1 g q" using k m unfolding others_kept_def by metis+
    then have "q \<in> used_pages g w1" using m(3) open_used [OF inv m(2)] open_used [OF inv1 e(1)] by simp
    then show ?thesis using v(3) [OF ne [OF m(1) e(1)]] e(3) by simp
  qed
  have k': "frames w1 = frames w" "bht_valid (hashTable w1) = bht_valid (hashTable w)" "newAddr w1 = newAddr w" "newCnt w1 = newCnt w + j"
     "\<forall>m. m \<noteq> nm \<longrightarrow> oft_map (openFiles w1) m = oft_map (openFiles w) m \<and> file_view w1 m = file_view w m \<and> file_used w1 m = file_used w m \<and>
        (oft_map (openFiles w) m = None \<longrightarrow> disk w1 m = disk w m)"
     "\<forall>g. files w1 g \<noteq> None \<longrightarrow> files w g \<noteq> None \<or> g \<in> (\<lambda>i. newAddr w (newCnt w + i)) ` {..<j}"
     "oft_map (openFiles w) nm = Some f0 \<or> f0 \<in> (\<lambda>i. newAddr w (newCnt w + i)) ` {..<j}"
    using k f unfolding others_kept_def by blast+
  show ?thesis unfolding others_kept_def
  proof (intro conjI allI impI)
    fix m assume m: "m \<noteq> nm"
    show "oft_map (openFiles w2) m = oft_map (openFiles w) m" "file_view w2 m = file_view w m" "file_used w2 m = file_used w m" using q [OF m] k'(5) m by simp_all
    show "disk w2 m = disk w m" if "oft_map (openFiles w) m = None" using that k'(5) m d [of m] by simp
  next
    show "clean w2 f q" if "m \<noteq> nm" "oft_map (openFiles w) m = Some f" "q \<in> used_pages f w" "clean w f q" for m f q by (rule c [OF that])
    show "files w g \<noteq> None \<or> g \<in> (\<lambda>i. newAddr w (newCnt w + i)) ` {..<j}" if "files w2 g \<noteq> None" for g using k'(6) o(3) [OF that] by blast
    show "oft_map (openFiles w) nm = Some f \<or> f \<in> (\<lambda>i. newAddr w (newCnt w + i)) ` {..<j}" if "oft_map (openFiles w2) nm = Some f" for f
      using o(2) [OF that] k'(7) by simp
  qed (use inv2 s k' hk in simp_all)
qed

section \<open>Using a table\<close>

lemma table_pages:
  assumes inv: "db_inv w" and t: "table w nm ps n" and p: "p \<in> set (1 # ps)"
  shows "1 \<le> p \<and> p < n"
proof (cases "oft_map (openFiles w) nm")
  case None
  then show ?thesis using end_page_pos [of w nm ps n p] inv t p by (simp add: idle_def table_def)
next
  case (Some f)
  have u: "p \<in> used_pages f w" using t p open_used [OF inv Some] unfolding table_def stored_heap_def heap_at_def by blast
  have "grows w f n" using grows_end_page [OF db_inv_pool [OF inv]] t Some by (simp add: table_def file_view_def)
  then obtain x where "file_of w f = Some x" "npages x = n" by (auto simp: grows_def)
  then show ?thesis using u by (auto simp: used_pages_def in_use_def)
qed

lemma table_ready:
  assumes inv: "db_inv w" and t: "table w nm ps n" and r: "resources w 1 N" "n \<le> N" and sp: "spare w 2"
  shows "stored_heap w nm ps" "ready w nm ps"
proof -
  have t': "nm \<noteq> []" "stored_heap w nm ps" "\<forall>f p. oft_map (openFiles w) nm = Some f \<longrightarrow> p \<in> set (1 # ps) \<longrightarrow> clean w f p" "1 \<in> file_used w nm"
    using t unfolding table_def stored_heap_def heap_at_def by auto
  let ?f = "newAddr w (newCnt w)"
  have a: "?f \<noteq> NULL" "files w ?f = None" "\<And>p. 1 \<le> p \<Longrightarrow> p < N \<Longrightarrow> bht_valid (hashTable w) (?f, p)"
     "\<And>f p. oft_map (openFiles w) nm = Some f \<Longrightarrow> 1 \<le> p \<Longrightarrow> p < N \<Longrightarrow> bht_valid (hashTable w) (f, p)"
    using r(1) by (auto simp: resources_def addresses_def Let_def)
  have "disk w nm \<noteq> None" using t'(4) by (auto simp: file_used_def split: option.splits)
  then have c: "can_open w nm" using t'(1) a(1,2) by (simp add: can_open_def)
  have "bht_valid (hashTable w) (handle w nm, p) \<and> clean w (handle w nm) p" if p: "p \<in> set (1 # ps)" for p
  proof (cases "oft_map (openFiles w) nm")
    case None
    then show ?thesis using a(3) table_pages [OF inv t p] r(2) not_open_not_buffered [OF inv a(2)] by (simp add: handle_def clean_def)
  next
    case (Some f)
    then show ?thesis using a(4) table_pages [OF inv t p] r(2) t'(3) p by (auto simp: handle_def)
  qed
  then show "stored_heap w nm ps" "ready w nm ps" using t'(2) c sp by (simp_all add: ready_def)
qed

text \<open>An object that has the file open and whose pins are the only new ones since \<open>w\<close>.\<close>

definition client :: "'a db_state_scheme \<Rightarrow> string \<Rightarrow> 'a db_state_scheme \<Rightarrow> 'h HeapFile_scheme \<Rightarrow> int list \<Rightarrow> bool" where
  "client w nm w1 h ps \<longleftrightarrow> hf_open w1 h ps \<and> filePtr h = handle w nm \<and> headerPageNo h = 1 \<and> nm \<noteq> [] \<and>
     oft_map (openFiles w1) nm = Some (filePtr h) \<and> open_count w1 (filePtr h) = open_count w (filePtr h) + 1 \<and>
     (\<forall>g q. pins w1 g q = pins w g q + (if g = filePtr h then own_pins h q else 0)) \<and> others_kept w nm (opens w nm) w1"

lemma clientD:
  assumes "client w nm w1 h ps"
  shows "db_inv w1" "hf_open w1 h ps" "filePtr h = handle w nm" "headerPageNo h = 1" "oft_map (openFiles w1) nm = Some (filePtr h)"
    "open_count w1 (filePtr h) = open_count w (filePtr h) + 1" "pins w1 g q = pins w g q + (if g = filePtr h then own_pins h q else 0)"
    "others_kept w nm (opens w nm) w1" "file_view w1 nm = lpage w1 (filePtr h)" "file_used w1 nm = used_pages (filePtr h) w1" "nm \<noteq> []"
proof -
  show i: "db_inv w1" "hf_open w1 h ps" "filePtr h = handle w nm" "headerPageNo h = 1" "oft_map (openFiles w1) nm = Some (filePtr h)"
    "open_count w1 (filePtr h) = open_count w (filePtr h) + 1" "pins w1 g q = pins w g q + (if g = filePtr h then own_pins h q else 0)"
    "others_kept w nm (opens w nm) w1" "nm \<noteq> []"
    using assms unfolding client_def others_kept_def by blast+
  show "file_view w1 nm = lpage w1 (filePtr h)" "file_used w1 nm = used_pages (filePtr h) w1"
    using i(5) open_used [OF i(1,5)] by (simp_all add: file_view_def)
qed

text \<open>Work on the file that keeps the set of open files.\<close>

lemma client_step:
  assumes c: "client w nm w1 h ps" and inv: "db_inv w" and op: "hf_open w2 h2 ps2" and h: "filePtr h2 = filePtr h" "headerPageNo h2 = headerPageNo h"
    and e: "env_same w1 w2" and p: "\<And>g q. pins w2 g q = pins w1 g q + (if g = filePtr h then own_pins h2 q - own_pins h q else 0)"
    and v: "\<And>g. g \<noteq> filePtr h \<Longrightarrow> lpage w2 g = lpage w1 g" "\<And>g. g \<noteq> filePtr h \<Longrightarrow> used_pages g w2 = used_pages g w1"
      "\<And>g q. g \<noteq> filePtr h \<Longrightarrow> q \<in> used_pages g w1 \<Longrightarrow> clean w1 g q \<Longrightarrow> clean w2 g q"
    and hk: "\<And>g q i. holds w1 g q i \<Longrightarrow> (g = filePtr h \<Longrightarrow> own_pins h q < pins w1 g q) \<Longrightarrow> holds w2 g q i"
  shows "client w nm w2 h2 ps2"
proof -
  note cd = clientD [OF c]
  note ed = env_same_db [OF e]
  have inv2: "db_inv w2" by (rule db_inv_env [OF cd(1) hf_openD(1) [OF op] e])
  have b: "bht_valid (hashTable w2) = bht_valid (hashTable w1)" using e by (simp add: env_same_def)
  have hk2: "holds w2 g q i" if "holds w g q i" for g q i
  proof (rule hk)
    show "holds w1 g q i" by (rule kept_holds [OF cd(8) that])
    show "own_pins h q < pins w1 g q" if "g = filePtr h" using that cd(7) [of g q] \<open>holds w g q i\<close> by (simp add: holds_def)
  qed
  have "others_kept w nm (opens w nm) w2"
    by (rule others_kept_step [OF cd(8) inv cd(5) inv2 _ b]) (use ed v env_same_disk [OF cd(1) e] cd(5) hk2 in auto)
  moreover have "pins w2 g q = pins w g q + (if g = filePtr h2 then own_pins h2 q else 0)" for g q using p [of g q] cd(7) [of g q] h by simp
  ultimately show ?thesis using op h cd(3-6,11) ed by (simp add: client_def open_count_def)
qed

lemma started_client:
  assumes inv: "db_inv w" and nm: "nm \<noteq> []" and can: "can_open w nm" and st: "started w nm ps p w1 h"
  shows "client w nm w1 h ps"
proof -
  let ?f = "handle w nm"
  have s: "db_inv w1" "hf_open w1 h ps" "filePtr h = ?f" "headerPageNo h = 1" "hf_curPage h \<noteq> None" "curPageNo h = p"
     "\<forall>g. g \<noteq> ?f \<longrightarrow> lpage w1 g = lpage w g \<and> files w1 g = files w g"
     "\<forall>g q. pins w1 g q = pins w g q + (if (g, q) = (?f, 1) then 1 else 0) + (if (g, q) = (?f, p) then 1 else 0)"
     "open_count w1 ?f = open_count w ?f + 1" "oft_map (openFiles w1) = (oft_map (openFiles w))(nm \<mapsto> ?f)" "frames w1 = frames w"
     "bht_valid (hashTable w1) = bht_valid (hashTable w)" "\<forall>g. g \<noteq> ?f \<longrightarrow> used_pages g w1 = used_pages g w"
     "\<forall>n. n \<noteq> nm \<longrightarrow> oft_map (openFiles w) n = None \<longrightarrow> disk w1 n = disk w n" "clean_kept w w1" "newAddr w1 = newAddr w"
     "newCnt w1 = newCnt w + (if oft_map (openFiles w) nm = None then 1 else 0)" "\<forall>g q j. holds w g q j \<longrightarrow> holds w1 g q j"
    using st unfolding started_def by blast+
  have ne: "g \<noteq> ?f" if "m \<noteq> nm" "oft_map (openFiles w) m = Some g" for m g
  proof -
    have "files w g \<noteq> None" using db_inv_table [OF inv that(2)] by auto
    then show ?thesis using that open_inj [OF inv that(2), of nm] can by (auto simp: handle_def can_open_def split: option.splits)
  qed
  have o: "oft_map (openFiles w1) m = oft_map (openFiles w) m \<and> file_view w1 m = file_view w m \<and> file_used w1 m = file_used w m" if m: "m \<noteq> nm" for m
  proof (cases "oft_map (openFiles w) m")
    case None
    then show ?thesis using s(10,14) m by (simp add: file_view_def file_used_def name_page_def fun_eq_iff)
  next
    case (Some g)
    have g: "oft_map (openFiles w1) m = Some g" using s(10) m Some by simp
    then show ?thesis using Some s(7,13) ne [OF m Some] open_used [OF inv Some] open_used [OF s(1) g] by (simp add: file_view_def)
  qed
  have fl: "files w g \<noteq> None \<or> g \<in> (\<lambda>i. newAddr w (newCnt w + i)) ` {..<opens w nm}" if "files w1 g \<noteq> None" for g
  proof (cases "g = ?f")
    case True
    then show ?thesis using db_inv_table [OF inv, of nm g] by (auto simp: handle_def opens_def split: option.splits)
  qed (use that s(7) in simp)
  have "others_kept w nm (opens w nm) w1"
    unfolding others_kept_def
  proof (intro conjI allI impI)
    show "newCnt w1 = newCnt w + opens w nm" using s(17) by (simp add: opens_def)
    show "files w g \<noteq> None \<or> g \<in> (\<lambda>i. newAddr w (newCnt w + i)) ` {..<opens w nm}" if "files w1 g \<noteq> None" for g by (rule fl [OF that])
    show "clean w1 f q" if "m \<noteq> nm" "oft_map (openFiles w) m = Some f" "q \<in> used_pages f w" "clean w f q" for m f q
      using s(15) that unfolding clean_kept_def by blast
    show "oft_map (openFiles w) nm = Some f \<or> f \<in> (\<lambda>i. newAddr w (newCnt w + i)) ` {..<opens w nm}" if "oft_map (openFiles w1) nm = Some f" for f
      using that s(10) by (auto simp: handle_def opens_def split: option.splits)
  qed (use o s in simp_all)
  moreover have "pins w1 g q = pins w g q + (if g = filePtr h then own_pins h q else 0)" for g q using s(3-6,8) by (simp add: own_pins_def)
  ultimately show ?thesis using s nm by (simp add: client_def)
qed

lemma view_same_others:
  assumes "view_same w1 w2"
  shows "env_same w1 w2" "lpage w2 g = lpage w1 g" "used_pages g w2 = used_pages g w1" "q \<in> used_pages g w1 \<Longrightarrow> clean w1 g q \<Longrightarrow> clean w2 g q"
  using view_sameD [OF assms] by simp_all

lemma client_scan:
  assumes c: "client w nm w1 s ps" and inv: "db_inv w" and d: "\<not> curDirtyFlag s" "hf_curPage s \<noteq> None" and h: "scan_here w1 s ps (w2, s2) items"
  shows "client w nm w2 s2 ps \<and> hf_curPage s2 \<noteq> None \<and> filePtr s2 = filePtr s \<and> view_same w1 w2"
proof -
  note cd = clientD [OF c]
  have op: "hf_open w2 s2 ps" "hf_curPage s2 \<noteq> None" using scan_here_open [OF cd(2) d h] by blast+
  have mv: "scan_moved w1 s w2 s2" using h by (simp add: scan_here_def)
  note sel = scan_moved_sel [OF mv]
  note v = view_same_others [OF scan_moved_view [OF mv]]
  have pn: "pins w2 g q = pins w1 g q - (if (g, q) = (filePtr s, curPageNo s) then 1 else 0) + (if (g, q) = (filePtr s, curPageNo s2) then 1 else 0)" for g q
    using mv unfolding scan_moved_def by blast
  have hk: "holds w2 g q i" if "holds w1 g q i" "g = filePtr s \<Longrightarrow> own_pins s q < pins w1 g q" for g q i
    by (rule held_move [OF _ d(2) that]) (use mv in \<open>auto simp: scan_moved_def\<close>)
  have "client w nm w2 s2 ps"
    by (rule client_step [OF c inv op(1) sel(1,3) v(1)]) (use pn op(2) d(2) sel v(2-4) hk in \<open>auto simp: own_pins_def\<close>)
  then show ?thesis using op(2) sel(1) scan_moved_view [OF mv] by simp
qed

lemma client_release:
  assumes c: "client w nm w1 s ps" and inv: "db_inv w" and cur: "hf_curPage s \<noteq> None"
  shows "\<exists>w2. endScan w1 s = Some (OK, s\<lparr>hf_curPage := None, curPageNo := 0, curDirtyFlag := False\<rparr>, w2) \<and>
     client w nm w2 (s\<lparr>hf_curPage := None, curPageNo := 0, curDirtyFlag := False\<rparr>) ps \<and> view_same w1 w2"
proof -
  note cd = clientD [OF c]
  obtain w2 where r: "BufMgr_unPinPage w1 (filePtr s) (curPageNo s) (curDirtyFlag s) = Some (OK, w2)" "view_same w1 w2"
     "\<And>d n r. hf_open w2 (s\<lparr>hf_curPage := None, curPageNo := n, curDirtyFlag := d, curRec := r\<rparr>) ps"
     "\<forall>g q. pins w2 g q = pins w1 g q - (if (g, q) = (filePtr s, curPageNo s) then 1 else 0)"
     "\<forall>g q j. holds w1 g q j \<longrightarrow> (g, q) \<noteq> (filePtr s, curPageNo s) \<or> 1 < pins w1 (filePtr s) (curPageNo s) \<longrightarrow> holds w2 g q j"
    using release_current [OF cd(2) cur, of "curDirtyFlag s"] by blast
  note v = view_same_others [OF r(2)]
  let ?s = "s\<lparr>hf_curPage := None, curPageNo := 0, curDirtyFlag := False\<rparr>"
  have "hf_open w2 ?s ps" using r(3) [where n = 0 and d = False and r = "curRec s"] by (simp add: hf_open_def)
  moreover have hk: "holds w2 g q i" if "holds w1 g q i" "g = filePtr s \<Longrightarrow> own_pins s q < pins w1 g q" for g q i
    by (rule held_move [OF r(5) cur that])
  ultimately have "client w nm w2 ?s ps"
    by (intro client_step [OF c inv _ _ _ v(1)]) (use r(4) cur v(2-4) hk in \<open>auto simp: own_pins_def\<close>)
  then show ?thesis using r(1,2) cur by (intro exI [of _ w2]) (simp add: endScan_def)
qed

text \<open>The file of an object that has announced its changes is a table.\<close>

lemma client_table:
  assumes c: "client w nm w1 s ps" and cl: "\<forall>p \<in> set (1 # ps). clean w1 (filePtr s) p" and e: "end_page (lpage w1 (filePtr s)) n"
  shows "table w1 nm ps n"
proof -
  note cd = clientD [OF c]
  have "stored_heap w1 nm ps"
    using cd(2,4) unfolding stored_heap_def heap_at_def hf_open_def heap_file_def cd(9,10) by (auto simp: buf_legal_def)
  then show ?thesis using cl cd(5,9,11) e by (auto simp: table_def)
qed

text \<open>An object that is given up without its destructor leaves the file open and the header page pinned.\<close>

lemma client_leave:
  assumes c: "client w nm w1 s ps" and inv: "db_inv w" and cur: "hf_curPage s = None" "clean w1 (filePtr s) 1" and e: "end_page (lpage w1 (filePtr s)) n"
  shows "table w1 nm ps n" "others_kept w nm (opens w nm) w1" "oft_map (openFiles w1) nm = Some (handle w nm)"
    "pins w1 g q = pins w g q + (if (g, q) = (handle w nm, 1) then 1 else 0)" "open_count w1 (handle w nm) = open_count w (handle w nm) + 1"
proof -
  note cd = clientD [OF c]
  have "\<forall>p \<in> set (1 # ps). clean w1 (filePtr s) p" using cd(2) cur by (auto simp: hf_open_def)
  then show "table w1 nm ps n" by (rule client_table [OF c _ e])
  show "others_kept w nm (opens w nm) w1" "oft_map (openFiles w1) nm = Some (handle w nm)" "open_count w1 (handle w nm) = open_count w (handle w nm) + 1"
    using cd(3,5,6,8) by simp_all
  show "pins w1 g q = pins w g q + (if (g, q) = (handle w nm, 1) then 1 else 0)" using cd(3,4) cd(7) [of g q] cur(1) by (simp add: own_pins_def)
qed

text \<open>The destructors.\<close>

lemma client_own:
  assumes c: "client w nm w1 h ps" and inv: "db_inv w" and can: "can_open w nm" and one: "open_count w1 (filePtr h) = 1"
  shows "pins w1 (filePtr h) p = own_pins h p" "oft_map (openFiles w) nm = None"
proof -
  note cd = clientD [OF c]
  have z: "open_count w (handle w nm) = 0" using one cd(3,6) by simp
  show n: "oft_map (openFiles w) nm = None"
  proof (rule ccontr)
    assume "oft_map (openFiles w) nm \<noteq> None"
    then obtain f where f: "oft_map (openFiles w) nm = Some f" by blast
    obtain fo where "files w f = Some fo" using db_inv_table [OF inv f] by blast
    then show False using z f db_inv_obj [OF inv, of f fo] by (simp add: handle_def open_count_def file_obj_ok_def)
  qed
  then have "files w (handle w nm) = None" using can by (simp add: can_open_def handle_def)
  then have "pins w (handle w nm) p = 0" using not_open_not_buffered [OF inv] by (simp add: pins_def)
  then show "pins w1 (filePtr h) p = own_pins h p" using cd(3) cd(7) [of "filePtr h" p] by simp
qed

lemma client_end:
  assumes c: "client w nm w1 h ps" and inv: "db_inv w" and can: "can_open w nm" and fin: "finished w1 h nm w'" and e: "end_page (lpage w1 (filePtr h)) n"
  shows "table w' nm ps n" "others_kept w nm (opens w nm) w'" "oft_map (openFiles w') nm = oft_map (openFiles w) nm" "pins w' = pins w"
    "file_view w' nm = lpage w1 (filePtr h)" "open_count w' (filePtr h) = open_count w (filePtr h)"
proof -
  let ?f = "filePtr h"
  note cd = clientD [OF c]
  have hf: "\<forall>g q j. holds w1 g q j \<longrightarrow> (g = ?f \<longrightarrow> own_pins h q < pins w1 g q) \<longrightarrow> holds w' g q j" using fin unfolding finished_def by blast
  have f: "db_inv w'" "file_view w' nm = lpage w1 ?f" "file_used w' nm = used_pages ?f w1"
     "\<forall>g. g \<noteq> ?f \<longrightarrow> lpage w' g = lpage w1 g \<and> files w' g = files w1 g \<and> used_pages g w' = used_pages g w1"
     "\<forall>g q. pins w' g q = pins w1 g q - (if g = ?f then own_pins h q else 0)" "frames w' = frames w1" "bht_valid (hashTable w') = bht_valid (hashTable w1)"
     "newAddr w' = newAddr w1" "newCnt w' = newCnt w1" "open_count w' ?f = open_count w1 ?f - 1"
     "oft_map (openFiles w') = (if open_count w1 ?f = 1 then (oft_map (openFiles w1))(nm := None) else oft_map (openFiles w1))"
     "\<forall>n. oft_map (openFiles w1) n = None \<longrightarrow> disk w' n = disk w1 n"
     "\<forall>g q. q \<in> used_pages g w1 \<longrightarrow> g \<noteq> ?f \<or> open_count w1 ?f \<noteq> 1 \<longrightarrow>
        clean w1 g q \<or> g = ?f \<and> (q = headerPageNo h \<or> hf_curPage h \<noteq> None \<and> q = curPageNo h) \<longrightarrow> clean w' g q"
    by (insert fin [unfolded finished_def], elim conjE, assumption)+
  have hk: "holds w' g q i" if "holds w g q i" for g q i
  proof -
    have "holds w1 g q i" by (rule kept_holds [OF cd(8) that])
    moreover have "own_pins h q < pins w1 g q" if "g = ?f" using cd(7) [of g q] that \<open>holds w g q i\<close> by (simp add: holds_def)
    ultimately show ?thesis using hf by blast
  qed
  show "pins w' = pins w" using f(5) cd(7) by (simp add: fun_eq_iff)
  show "file_view w' nm = lpage w1 ?f" "open_count w' ?f = open_count w ?f" using f(2,10) cd(6) by simp_all
  show on: "oft_map (openFiles w') nm = oft_map (openFiles w) nm"
  proof (cases "open_count w1 ?f = 1")
    case True
    then show ?thesis using client_own(2) [OF c inv can True] f(11) by simp
  next
    case False
    have "oft_map (openFiles w) nm \<noteq> None"
      using False cd(3,6) can by (auto simp: can_open_def open_count_def handle_def split: option.splits)
    then show ?thesis using False f(11) cd(3,5) by (auto simp: handle_def)
  qed
  have fl: "files w1 g \<noteq> None" if "files w' g \<noteq> None" for g
    using that f(4) db_inv_table [OF cd(1,5)] by (cases "g = ?f") auto
  show "others_kept w nm (opens w nm) w'"
    by (rule others_kept_step [OF cd(8) inv cd(5) f(1) f(6-9)]) (use f(4,11,12,13) cd(5) fl hk in \<open>auto split: if_splits\<close>)
  have us: "p \<in> used_pages ?f w1" if "p \<in> set (1 # ps)" for p using hf_openD(5) [OF cd(2)] that cd(4) by (auto simp: buf_legal_def)
  have "clean w' g p" if g: "oft_map (openFiles w') nm = Some g" "p \<in> set (1 # ps)" for g p
  proof -
    have g': "g = ?f" "open_count w1 ?f \<noteq> 1" using g(1) f(11) cd(5) by (auto split: if_splits)
    have "clean w1 ?f p \<or> p = headerPageNo h \<or> hf_curPage h \<noteq> None \<and> p = curPageNo h" using cd(2,4) g(2) by (auto simp: hf_open_def)
    then show ?thesis using f(13) us [OF g(2)] g' by blast
  qed
  moreover have "stored_heap w' nm ps"
    using cd(2,4) us unfolding stored_heap_def heap_at_def hf_open_def heap_file_def f(2,3) by auto
  ultimately show "table w' nm ps n" using f(2) e cd(11) by (auto simp: table_def)
qed


section \<open>Operations on tables\<close>

subsection \<open>Reading\<close>

lemma table_scan_open:
  assumes inv: "db_inv w" and t: "table w nm ps n" and r: "resources w 1 N" "n \<le> N" and sp: "spare w 2" and fa: "filter_args off len ty flt"
  shows "\<exists>s1 w1 s2. HeapFileScan_new w s nm = Some (OK, s1, w1) \<and> startScan s1 off len ty flt op = (OK, s2) \<and> client w nm w1 s2 ps \<and>
     hf_curPage s2 \<noteq> None \<and> \<not> curDirtyFlag s2 \<and> clean w1 (filePtr s2) 1 \<and> lpage w1 (filePtr s2) = file_view w nm \<and> end_page (lpage w1 (filePtr s2)) n \<and>
     scan_here w1 s2 ps (w1, s2) (filter (\<lambda>x. selects off len ty flt op (snd x)) (heap_items (file_view w nm) ps))"
proof -
  note rd = table_ready [OF inv t r sp]
  have tn: "nm \<noteq> []" "can_open w nm" "end_page (file_view w nm) n" using t rd(2) by (simp_all add: table_def ready_def)
  obtain s1 w1 where o: "HeapFile_new w s nm = Some (OK, s1, w1)" "started w nm ps (hd ps) w1 s1" using HeapFile_new_spec [OF inv rd, of s] by blast
  let ?s1 = "s1\<lparr>scan_filter := None\<rparr>"
  obtain s2 where st: "startScan ?s1 off len ty flt op = (OK, s2)" "hf_same ?s1 s2" "filter_ok s2" "rec_matches s2 = selects off len ty flt op"
    using startScan_spec [OF fa, of ?s1 op] by auto
  have "hf_same s1 s2" using st(2) by (simp add: hf_same_def)
  then have o2: "started w nm ps (hd ps) w1 s2" using o(2) hf_same_open(3) by blast
  have s2: "hf_open w1 s2 ps" "hf_curPage s2 \<noteq> None" "curPageNo s2 = hd ps" "curRec s2 = NULLRID" "movable w1 (filePtr s2) (hd ps)" "\<not> curDirtyFlag s2"
     "filePtr s2 = handle w nm" "lpage w1 (handle w nm) = file_view w nm" "clean w1 (handle w nm) 1" using o2 by (simp_all add: started_def)
  have "scan_here w1 s2 ps (w1, s2) (filter (\<lambda>x. selects off len ty flt op (snd x)) (heap_items (file_view w nm) ps))"
    using scan_start [OF s2(1-6) st(3)] st(4) s2(7,8) by simp
  moreover have "client w nm w1 s2 ps" by (rule started_client [OF inv tn(1,2) o2])
  moreover have "HeapFileScan_new w s nm = Some (OK, ?s1, w1)" using o(1) by (simp add: HeapFileScan_new_def)
  ultimately show ?thesis using st(1) s2(2,6-9) tn(3) by (intro exI [of _ ?s1] exI [of _ w1] exI [of _ s2]) simp
qed

text \<open>The calls a client makes for one record: \<open>scanNext\<close>, \<open>getRecord\<close> and a copy of the bytes.\<close>

lemma scan_raw_end:
  assumes "scan_here w s ps (w1, s1) []"
  shows "\<exists>s2 w2 rid. scanNext w1 s1 NULLRID = Some (FILEEOF, rid, s2, w2) \<and> scan_here w s ps (w2, s2) []"
proof -
  obtain st' where "scan_step (w1, s1) = Some (None, st')" "scan_here w s ps st' []" using scan_step_spec [OF assms] by auto
  then show ?thesis by (cases st') (auto simp: scan_step_def split: if_splits bind_splits)
qed

lemma scan_raw_next:
  assumes "scan_here w s ps (w1, s1) ((rid, b) # items)"
  shows "\<exists>s2 w2 ref. scanNext w1 s1 NULLRID = Some (OK, rid, s2, w2) \<and> HeapFileScan_getRecord w2 s2 no_rec = Some (OK, ref) \<and> ref_length ref = int (length b) \<and>
     (\<forall>k \<le> length b. rec_bytes w2 s2 ref (int k) = Some (take k b)) \<and> scan_here w s ps (w2, s2) items"
proof -
  obtain w2 s2 where st: "scan_step (w1, s1) = Some (Some (rid, b), w2, s2)" "scan_here w s ps (w2, s2) items" using scan_step_spec [OF assms] by fastforce
  then obtain ref p rec where r: "scanNext w1 s1 NULLRID = Some (OK, rid, s2, w2)" "HeapFileScan_getRecord w2 s2 no_rec = Some (OK, ref)"
     "frame_at w2 (hf_curPage s2) = Some p" "deref p ref = Some rec" "rec_data rec = b"
    by (auto simp: scan_step_def split: if_splits bind_splits)
  have d: "0 \<le> ref_offset ref" "0 \<le> ref_length ref" "ref_offset ref + ref_length ref \<le> PAGESIZE" "b = read_bytes p (nat (ref_offset ref)) (nat (ref_length ref))"
    using r(4,5) by (auto simp: deref_def split: if_splits)
  then have l: "ref_length ref = int (length b)" by simp
  moreover have "rec_bytes w2 s2 ref (int k) = Some (take k b)" if "k \<le> length b" for k
  proof -
    have "k \<le> nat (ref_length ref)" using that l by simp
    then have "take k (read_bytes p (nat (ref_offset ref)) (nat (ref_length ref))) = read_bytes p (nat (ref_offset ref)) k"
      using take_drop_read_bytes [of 0 k "nat (ref_length ref)" p "nat (ref_offset ref)"] by simp
    then have "take k b = read_bytes p (nat (ref_offset ref)) k" by (simp only: d(4) [symmetric])
    then show ?thesis using r(3) d(1,3) l that by (simp add: rec_bytes_def)
  qed
  ultimately show ?thesis using r(1,2) st(2) by blast
qed

text \<open>Leaving a table open after reading from it.\<close>

definition left_open :: "'a db_state_scheme \<Rightarrow> string \<Rightarrow> 'a db_state_scheme \<Rightarrow> bool" where
  "left_open w nm w' \<longleftrightarrow> others_kept w nm (opens w nm) w' \<and> file_view w' nm = file_view w nm \<and> oft_map (openFiles w') nm = Some (handle w nm) \<and>
     open_count w' (handle w nm) = open_count w (handle w nm) + 1 \<and>
     (\<forall>g q. pins w' g q = pins w g q + (if (g, q) = (handle w nm, 1) then 1 else 0))"

lemma scan_leave:
  assumes c: "client w nm w1 s ps" and inv: "db_inv w" and d: "\<not> curDirtyFlag s" "hf_curPage s \<noteq> None" and cl: "clean w1 (filePtr s) 1"
    and v: "lpage w1 (filePtr s) = file_view w nm" and e: "end_page (lpage w1 (filePtr s)) n" and h: "scan_here w1 s ps (w2, s2) items"
  shows "\<exists>s3 w3. endScan w2 s2 = Some (OK, s3, w3) \<and> table w3 nm ps n \<and> left_open w nm w3"
proof -
  have c2: "client w nm w2 s2 ps" "hf_curPage s2 \<noteq> None" "filePtr s2 = filePtr s" "view_same w1 w2" using client_scan [OF c inv d h] by blast+
  let ?s = "s2\<lparr>hf_curPage := None, curPageNo := 0, curDirtyFlag := False\<rparr>"
  obtain w3 where r: "endScan w2 s2 = Some (OK, ?s, w3)" "client w nm w3 ?s ps" "view_same w2 w3" using client_release [OF c2(1) inv c2(2)] by blast
  note vs = view_sameD [OF view_same_trans [OF c2(4) r(3)]]
  have f: "filePtr ?s = filePtr s" using c2(3) by simp
  have u: "1 \<in> used_pages (filePtr s) w1" using hf_openD(5) [OF clientD(2) [OF c]] clientD(4) [OF c] by (auto simp: buf_legal_def)
  have "clean w3 (filePtr ?s) 1" unfolding f by (rule vs(6) [OF u cl])
  moreover have "end_page (lpage w3 (filePtr ?s)) n" using e vs(2) f by simp
  moreover have "hf_curPage ?s = None" by simp
  ultimately have lv: "table w3 nm ps n" "others_kept w nm (opens w nm) w3" "oft_map (openFiles w3) nm = Some (handle w nm)"
    "\<And>g q. pins w3 g q = pins w g q + (if (g, q) = (handle w nm, 1) then 1 else 0)" "open_count w3 (handle w nm) = open_count w (handle w nm) + 1"
    using client_leave [OF r(2) inv] by blast+
  have "file_view w3 nm = file_view w nm" using clientD(9) [OF r(2)] v vs(2) f by simp
  then show ?thesis using r(1) lv unfolding left_open_def by blast
qed

subsection \<open>Inserting\<close>

text \<open>What an insertion leaves: the table has a new record, nothing is pinned or opened that was not before.\<close>

definition rec_stored :: "'a db_state_scheme \<Rightarrow> string \<Rightarrow> int list \<Rightarrow> RID \<Rightarrow> byte list \<Rightarrow> int list \<Rightarrow> 'a db_state_scheme \<Rightarrow> bool" where
  "rec_stored w nm ps rid b ps' w' \<longleftrightarrow> others_kept w nm (opens w nm) w' \<and> oft_map (openFiles w') nm = oft_map (openFiles w) nm \<and> pins w' = pins w \<and>
     heap_recs (file_view w nm) ps rid = None \<and> heap_recs (file_view w' nm) ps' = (heap_recs (file_view w nm) ps)(rid \<mapsto> b) \<and> set ps \<subseteq> set ps' \<and>
     (\<forall>g. open_count w' g = open_count w g)"

lemma table_insert:
  assumes inv: "db_inv w" and t: "table w nm ps n" and r: "resources w 1 N" "n + 1 \<le> N" and sp: "spare w 3" and b: "storable b" "length b \<le> 1000"
  shows "\<exists>h1 w1 rid h2 w2 h3 w' ps' n'. InsertFileScan_new w h nm = Some (OK, h1, w1) \<and>
     insertRecord w1 h1 \<lparr>rec_data = b, rec_length = int (length b)\<rparr> out = Some (OK, rid, h2, w2) \<and> InsertFileScan_destroy w2 h2 = Some (h3, w') \<and>
     table w' nm ps' n' \<and> n' \<le> n + 1 \<and> rec_stored w nm ps rid b ps' w'"
proof -
  have sp2: "spare w 2" using sp by (simp add: spare_def)
  note rd = table_ready [OF inv t r(1) _ sp2]
  have rd: "stored_heap w nm ps" "ready w nm ps" using rd r(2) by simp_all
  have tn: "nm \<noteq> []" "can_open w nm" "end_page (file_view w nm) n" using t rd(2) by (simp_all add: table_def ready_def)
  obtain h1 w1 where o: "InsertFileScan_new w h nm = Some (OK, h1, w1)" "started w nm ps (last ps) w1 h1" using InsertFileScan_new_spec [OF inv rd, of h] by blast
  let ?f = "handle w nm"
  have s: "hf_open w1 h1 ps" "hf_curPage h1 \<noteq> None" "curPageNo h1 = last ps" "filePtr h1 = ?f" "lpage w1 ?f = file_view w nm" "frames w1 = frames w"
     "bht_valid (hashTable w1) = bht_valid (hashTable w)"
     "\<forall>g q. pins w1 g q = pins w g q + (if (g, q) = (?f, 1) then 1 else 0) + (if (g, q) = (?f, last ps) then 1 else 0)"
    using o(2) unfolding started_def by blast+
  have c1: "client w nm w1 h1 ps" by (rule started_client [OF inv tn(1,2) o(2)])
  have ok: "pool_ok w1" "pool_ok w" using hf_openD(1) [OF s(1)] db_inv_pool [OF inv] .
  have np: "\<not> all_pinned w1"
  proof -
    have fin: "finite (pinned_pages w)" using card_pinned_pages [of w] ok(2) by (simp add: pool_ok_def)
    have "pinned_pages w1 \<subseteq> insert (?f, 1) (insert (?f, last ps) (pinned_pages w))" using s(8) by (auto simp: pinned_pages_def split: if_splits)
    then have "card (pinned_pages w1) \<le> card (insert (?f, 1) (insert (?f, last ps) (pinned_pages w)))" using fin by (intro card_mono) simp_all
    also have "\<dots> \<le> Suc (Suc (card (pinned_pages w)))" using fin by (simp add: card_insert_if)
    finally have "spare w1 (Suc 0)" using sp s(6) by (simp add: spare_def)
    then show ?thesis by (rule spare_free [OF ok(1)])
  qed
  have g: "grows w1 ?f n" using grows_end_page [OF ok(1)] tn(3) s(5) by simp
  have N: "n < 2147483647" using r by (auto simp: resources_def addresses_def)
  have n1: "1 \<le> n" using table_pages [OF inv t, of 1] by simp
  have "bht_valid (hashTable w) (?f, n)"
    using r n1 by (auto simp: resources_def addresses_def Let_def handle_def split: option.splits)
  then have cg: "can_grow w1 (filePtr h1)" using np grows_next [OF g] grows_alloc_ok [OF g N] s(4,7) by (simp add: can_grow_def)
  have ae: "at_end w1 h1 ps" using s(1-3) by (simp add: at_end_def)
  obtain rid h2 w2 ps' where i: "insertRecord w1 h1 \<lparr>rec_data = b, rec_length = int (length b)\<rparr> out = Some (OK, rid, h2, w2)"
     "rec_added w1 h1 ps rid b w2 h2 ps'" "ps' = ps \<or> ps' = ps @ [next_page (filePtr h1) w1]"
    using insert_spec [OF ae b cg, of out] by blast
  have a: "at_end w2 h2 ps'" "filePtr h2 = ?f" "headerPageNo h2 = headerPageNo h1" "recs_of w1 h1 ps rid = None" "recs_of w2 h1 ps' = (recs_of w1 h1 ps)(rid \<mapsto> b)"
     "env_same w1 w2" "\<forall>g q. g \<noteq> ?f \<longrightarrow> lpage w2 g q = lpage w1 g q" "\<forall>g. used_pages g w2 = used_pages g w1 \<union> (if g = ?f then set ps' - set ps else {})"
     "\<forall>g q. g \<noteq> ?f \<longrightarrow> q \<in> used_pages g w1 \<longrightarrow> clean w1 g q \<longrightarrow> clean w2 g q"
     "\<forall>g q. pins w2 g q = pins w1 g q + (if (g, q) = (?f, last ps') then 1 else 0) - (if (g, q) = (?f, last ps) then 1 else 0)"
     "\<forall>m. grows w1 ?f m \<longrightarrow> m < 2147483647 \<longrightarrow> grows w2 ?f (m + int (length ps') - int (length ps))"
     "\<forall>g q j. holds w1 g q j \<longrightarrow> (g, q) \<noteq> (?f, last ps) \<or> 1 < pins w1 ?f (last ps) \<longrightarrow> holds w2 g q j"
    using i(2) unfolding rec_added_def s(4) by blast+
  have op2: "hf_open w2 h2 ps'" "hf_curPage h2 \<noteq> None" "curPageNo h2 = last ps'" using a(1) by (simp_all add: at_end_def)
  have hk: "holds w2 g q i" if "holds w1 g q i" "g = ?f \<Longrightarrow> own_pins h1 q < pins w1 g q" for g q i
    by (rule held_move [OF _ s(2) that(1)]) (use a(12) s(3,4) that(2) in auto)
  have c2: "client w nm w2 h2 ps'"
    by (rule client_step [OF c1 inv op2(1) _ a(3,6)]) (use a(2,3,7-10) s(2-4) op2 hk in \<open>auto simp: own_pins_def fun_eq_iff\<close>)
  define n' where "n' = n + int (length ps') - int (length ps)"
  have n': "grows w2 ?f n'" "n' \<le> n + 1" using a(11) g N i(3) by (auto simp: n'_def)
  then have e: "end_page (lpage w2 (filePtr h2)) n'" using grows_end_page [OF hf_openD(1) [OF op2(1)]] a(2) by simp
  note cd = clientD [OF c2]
  have fn: "file_name w2 (filePtr h2) = Some nm" using open_name_table [OF cd(1)] cd(5) by simp
  obtain h3 w' where d: "InsertFileScan_destroy w2 h2 = Some (h3, w')" "finished w2 h2 nm w'"
    using InsertFileScan_destroy_spec [OF cd(1,2) fn op2(2)] client_own(1) [OF c2 inv tn(2)] by blast
  note ce = client_end [OF c2 inv tn(2) d(2) e]
  have "open_count w' g = open_count w g" for g
  proof (cases "g = ?f")
    case True
    then show ?thesis using ce(6) a(2) by simp
  next
    case False
    have "\<forall>g. g \<noteq> ?f \<longrightarrow> files w1 g = files w g" using o(2) unfolding started_def by blast
    moreover have "\<forall>g. g \<noteq> filePtr h2 \<longrightarrow> files w' g = files w2 g" using d(2) unfolding finished_def by blast
    ultimately show ?thesis using False a(2) env_same_db [OF a(6)] by (simp add: open_count_def)
  qed
  then have "rec_stored w nm ps rid b ps' w'" using ce(2-5) a(2,4,5) s(4,5) i(3) by (auto simp: rec_stored_def)
  then show ?thesis using o(1) i(1) d(1) ce(1) n'(2) by blast
qed

subsection \<open>Creating\<close>

lemma table_create:
  assumes inv: "db_inv w" and nm: "nm \<noteq> []" "disk w nm = None" "unix_name nm = nm" and sp: "spare w 2" and r: "resources w 2 N" "3 \<le> N"
  shows "\<exists>w'. createHeapFile w nm = Some (OK, w') \<and> table w' nm [2] 3 \<and> heap_recs (file_view w' nm) [2] = Map.empty \<and> others_kept w nm 2 w' \<and>
     pins w' = pins w \<and> oft_map (openFiles w') = oft_map (openFiles w)"
proof -
  have f: "newAddr w (newCnt w + i) \<noteq> NULL" "files w (newAddr w (newCnt w + i)) = None"
     "bht_valid (hashTable w) (newAddr w (newCnt w + i), 1)" "bht_valid (hashTable w) (newAddr w (newCnt w + i), 2)" if "i < 2" for i
    using r that by (auto simp: resources_def addresses_def Let_def)
  have no: "oft_map (openFiles w) nm = None" using db_inv_open_disk [OF inv, of nm] nm(2) by (cases "oft_map (openFiles w) nm") auto
  obtain w' where c: "createHeapFile w nm = Some (OK, w')" "db_inv w'" "stored_heap w' nm [2]" "heap_recs (file_view w' nm) [2] = Map.empty"
     "end_page (file_view w' nm) 3" "\<forall>n. n \<noteq> nm \<longrightarrow> oft_map (openFiles w) n = None \<longrightarrow> disk w' n = disk w n"
     "oft_map (openFiles w') = oft_map (openFiles w)" "pins w' = pins w" "frames w' = frames w" "files w' = files w"
     "bht_valid (hashTable w') = bht_valid (hashTable w)" "newCnt w' = newCnt w + 2" "newAddr w' = newAddr w"
     "\<forall>m g. oft_map (openFiles w) m = Some g \<longrightarrow> lpage w' g = lpage w g \<and> used_pages g w' = used_pages g w \<and> (\<forall>q \<in> used_pages g w. clean w g q \<longrightarrow> clean w' g q)"
     "\<forall>g q j. holds w g q j \<longrightarrow> holds w' g q j"
    using createHeapFile_spec [OF inv nm sp _ refl f(1,2,3,4) [of 1]] f(2) [of 0] by auto
  have o: "file_view w' m = file_view w m \<and> file_used w' m = file_used w m" if m: "m \<noteq> nm" for m
  proof (cases "oft_map (openFiles w) m")
    case None
    then show ?thesis using c(6,7) m by (simp add: file_view_def file_used_def name_page_def fun_eq_iff)
  next
    case (Some g)
    then have "oft_map (openFiles w') m = Some g" using c(7) by simp
    then show ?thesis using c(7,14) Some open_used [OF inv Some] open_used [OF c(2), of m g] by (simp add: file_view_def)
  qed
  have "others_kept w nm 2 w'" using c o no by (auto simp: others_kept_def)
  moreover have "table w' nm [2] 3" using c(3,5,7) nm(1) no by (simp add: table_def)
  ultimately show ?thesis using c(1,4,7,8) by blast
qed

end
