(* ===== verification/CatalogCorrect.thy ===== *)
theory CatalogCorrect
  imports HeapShared
begin

text \<open>
  The catalogs as tables of descriptors: the layout of the tuples, looking up, adding, and what the
  calls leave open. A catalog may be open any number of times when a method is called, as it
  is in the programs, where the catalog objects and every scan that was only freed keep it open.
\<close>

section \<open>Descriptors as bytes\<close>

lemma catalog_unix_name [simp]: "unix_name RELCATNAME = RELCATNAME" "unix_name ATTRCATNAME = ATTRCATNAME"
  by (simp_all add: RELCATNAME_def ATTRCATNAME_def)

definition RelDesc_ok :: "RelDesc \<Rightarrow> bool" where
  "RelDesc_ok rd \<longleftrightarrow> length (rd_relName rd) = MAXNAME \<and> int_ok (rd_attrCnt rd)"

definition AttrDesc_ok :: "AttrDesc \<Rightarrow> bool" where
  "AttrDesc_ok ad \<longleftrightarrow> length (ad_relName ad) = MAXNAME \<and> length (ad_attrName ad) = MAXNAME \<and> int_ok (ad_attrOffset ad) \<and> int_ok (ad_attrType ad) \<and> int_ok (ad_attrLen ad)"

lemma length_int_bytes [simp]: "length (int_bytes v) = 4"
  by (simp add: int_bytes_def)

lemma bytes_int_bytes: "int_ok v \<Longrightarrow> bytes_int (int_bytes v @ bs) = v"
proof -
  assume v: "int_ok v"
  have "get_int (bytes_mem (int_bytes v @ bs)) 0 = get_int (put_int (\<lambda>x. 0) 0 v) 0"
    by (rule get_int_cong) (simp add: bytes_mem_def nth_append int_bytes_def)
  then show ?thesis using get_put_int [OF v] by (simp add: bytes_int_def)
qed

lemma RelDesc_bytes_length: "RelDesc_ok rd \<Longrightarrow> length (RelDesc_bytes rd) = 36"
  by (simp add: RelDesc_ok_def RelDesc_bytes_def)

lemma AttrDesc_bytes_length: "AttrDesc_ok ad \<Longrightarrow> length (AttrDesc_bytes ad) = 76"
  by (simp add: AttrDesc_ok_def AttrDesc_bytes_def)

lemma RelDesc_roundtrip: "RelDesc_ok rd \<Longrightarrow> RelDesc_of_bytes (RelDesc_bytes rd) = rd"
  using bytes_int_bytes [of "rd_attrCnt rd" "[]"] by (simp add: RelDesc_ok_def RelDesc_bytes_def RelDesc_of_bytes_def)

lemma AttrDesc_roundtrip: "AttrDesc_ok ad \<Longrightarrow> AttrDesc_of_bytes (AttrDesc_bytes ad) = ad"
  using bytes_int_bytes [of "ad_attrLen ad" "[]"] by (simp add: AttrDesc_ok_def AttrDesc_bytes_def AttrDesc_of_bytes_def bytes_int_bytes)

lemma RelDesc_of_bytes_ok: "length bs = 36 \<Longrightarrow> RelDesc_ok (RelDesc_of_bytes bs)"
  by (simp add: RelDesc_ok_def RelDesc_of_bytes_def bytes_int_def get_int_range)

lemma AttrDesc_of_bytes_ok: "length bs = 76 \<Longrightarrow> AttrDesc_ok (AttrDesc_of_bytes bs)"
  by (simp add: AttrDesc_ok_def AttrDesc_of_bytes_def bytes_int_def get_int_range)


section \<open>Names\<close>

text \<open>The tuple starts with the name as a C string.\<close>

definition named :: "string \<Rightarrow> byte list \<Rightarrow> bool" where
  "named relation b \<longleftrightarrow> zstring b = Some (map of_char relation)"

text \<open>What a name has to be for the catalogs: not empty, no zero in it.\<close>

definition name_ok :: "string \<Rightarrow> bool" where
  "name_ok nm \<longleftrightarrow> nm \<noteq> [] \<and> (0 :: byte) \<notin> of_char ` set nm \<and> length nm < 2147483647"

lemma name_ok_unix: "name_ok nm \<Longrightarrow> unix_name nm = nm"
proof -
  assume "name_ok nm"
  then have n: "(0 :: byte) \<notin> of_char ` set nm" by (simp add: name_ok_def)
  have "(of_char (CHR 0x00) :: byte) = 0" by simp
  then have "c \<noteq> CHR 0x00" if "c \<in> set nm" for c using that n by (metis imageI)
  then show ?thesis by (simp add: unix_name_def)
qed

lemma zstring_simps: "zstring [] = None" "zstring (a # b) = (if a = 0 then Some [] else map_option ((#) a) (zstring b))"
  by (auto simp: zstring_def)

lemma string_of_chars: "string_of_bytes (map of_char s) = s"
proof -
  have "char_of (unat (of_char c :: byte)) = c" for c :: char
  proof -
    have "unat (of_char c :: byte) = of_char c" using unat_of_nat [where x = "of_char c" and 'a = 8] by (simp add: of_nat_of_char)
    then show ?thesis by simp
  qed
  then show ?thesis by (simp add: string_of_bytes_def o_def)
qed

lemma zstring_take:
  "length xs = n \<Longrightarrow> n < length b \<Longrightarrow> 0 \<notin> set xs \<Longrightarrow> takeWhile (\<lambda>b. b \<noteq> 0) (take (Suc n) b) = xs \<longleftrightarrow> zstring b = Some (xs :: byte list)"
proof (induction b arbitrary: xs n)
  case (Cons a b)
  show ?case
  proof (cases xs)
    case (Cons x ys)
    then show ?thesis using Cons.IH [of ys "n - 1"] Cons.prems by (auto simp: zstring_simps)
  qed (use Cons.prems in \<open>auto simp: zstring_simps\<close>)
qed simp

lemma zstring_length: "zstring b = Some xs \<Longrightarrow> length xs < length b"
  by (induction b arbitrary: xs) (auto simp: zstring_simps split: if_splits)

lemma named_length: "named relation b \<Longrightarrow> length relation < length b"
  using zstring_length [of b] by (fastforce simp: named_def)

lemma name_filter:
  assumes "name_ok relation"
  shows "filter_args 0 (swrap 4 (int (length relation) + 1)) 0 (Some (string_buf relation))"
    "selects 0 (swrap 4 (int (length relation) + 1)) 0 (Some (string_buf relation)) EQ b = named relation b"
proof -
  have k: "int_ok (int (length relation) + 1)" using assms by (simp add: int_ok_def name_ok_def)
  then have w: "swrap 4 (int (length relation) + 1) = int (length relation) + 1" by simp
  have nn: "nat (int (length relation) + 1) = Suc (length relation)" by simp
  have sb: "length (string_buf relation) = Suc (length relation)" by (simp add: string_buf_def)
  have z: "(0 :: byte) \<notin> set (map of_char relation)" using assms by (simp add: name_ok_def)
  then have cs: "c_string (string_buf relation) = map of_char relation"
    by (auto simp: c_string_def string_buf_def takeWhile_append)
  show "filter_args 0 (swrap 4 (int (length relation) + 1)) 0 (Some (string_buf relation))"
    using k sb by (simp add: w filter_args_def)
  show "selects 0 (swrap 4 (int (length relation) + 1)) 0 (Some (string_buf relation)) EQ b = named relation b"
  proof (cases "length relation < length b")
    case True
    have l: "length (take (Suc (length relation)) b) = Suc (length relation)" using True by simp
    have "op_holds EQ (the (attr_diff STRING (take (Suc (length relation)) b) (string_buf relation) (Suc (length relation)))) =
        (c_string (take (Suc (length relation)) b) = map of_char relation)"
      using attr_diff_ref [of "Suc (length relation)" "take (Suc (length relation)) b" "string_buf relation" STRING EQ] l sb cs by (simp add: ref_match_def)
    then show ?thesis using True zstring_take [OF _ True z] by (simp add: selects_def w nn c_string_def named_def)
  next
    case False
    then show ?thesis using named_length [of relation b] by (auto simp: selects_def w)
  qed
qed

section \<open>The relation catalog\<close>

text \<open>The first tuple of a table with a property, in the order of a scan.\<close>

definition first_tuple :: "'a db_state_scheme \<Rightarrow> string \<Rightarrow> int list \<Rightarrow> (byte list \<Rightarrow> bool) \<Rightarrow> byte list option" where
  "first_tuple w nm ps P = map_option snd (find (\<lambda>x. P (snd x)) (heap_items (file_view w nm) ps))"

definition tuples :: "'a db_state_scheme \<Rightarrow> string \<Rightarrow> int list \<Rightarrow> byte list set" where
  "tuples w nm ps = ran (heap_recs (file_view w nm) ps)"

lemma table_tuples:
  assumes "table w nm ps n"
  shows "tuples w nm ps = snd ` set (heap_items (file_view w nm) ps)"
proof -
  have it: "map_of (heap_items (file_view w nm) ps) = heap_recs (file_view w nm) ps" "distinct (map fst (heap_items (file_view w nm) ps))"
    using heap_items_map [of "file_view w nm" ps] assms by (simp_all add: table_def stored_heap_def heap_at_def)
  then show ?thesis using ran_distinct [OF it(2)] by (simp add: tuples_def)
qed

lemma find_filter: "find P xs = (case filter P xs of [] \<Rightarrow> None | x # _ \<Rightarrow> Some x)"
  by (induction xs) auto

lemma first_tuple_cases:
  assumes "table w nm ps n"
  shows "case first_tuple w nm ps P of None \<Rightarrow> \<forall>b \<in> tuples w nm ps. \<not> P b | Some b \<Rightarrow> b \<in> tuples w nm ps \<and> P b"
proof (cases "find (\<lambda>x. P (snd x)) (heap_items (file_view w nm) ps)")
  case None
  then have "\<forall>x \<in> set (heap_items (file_view w nm) ps). \<not> P (snd x)" by (auto simp: find_None_iff)
  then show ?thesis using None by (simp add: first_tuple_def table_tuples [OF assms])
next
  case (Some x)
  have "x \<in> set (heap_items (file_view w nm) ps) \<and> P (snd x)" using Some by (induction "heap_items (file_view w nm) ps" rule: list.induct) (auto simp: find_Some_iff)
  then show ?thesis using Some by (simp add: first_tuple_def table_tuples [OF assms])
qed

lemma RelCatalog_getInfo_spec:
  assumes inv: "db_inv w" and t: "table w RELCATNAME ps n" and r: "resources w 1 N" "n \<le> N" and sp: "spare w 2" and nm: "name_ok relation"
    and len: "\<forall>b \<in> tuples w RELCATNAME ps. length b = 36"
  shows "\<exists>w'. RelCatalog_getInfo w s relation rd =
       Some (case first_tuple w RELCATNAME ps (named relation) of None \<Rightarrow> (RELNOTFOUND, rd, w') | Some b \<Rightarrow> (OK, RelDesc_of_bytes b, w')) \<and>
     table w' RELCATNAME ps n \<and> left_open w RELCATNAME w'"
proof -
  have ne: "relation \<noteq> []" using nm by (simp add: name_ok_def)
  define items where "items = filter (\<lambda>x. named relation (snd x)) (heap_items (file_view w RELCATNAME) ps)"
  obtain s1 w1 s2 where o: "HeapFileScan_new w s RELCATNAME = Some (OK, s1, w1)"
     "startScan s1 0 (swrap 4 (int (length relation) + 1)) 0 (Some (string_buf relation)) EQ = (OK, s2)" "client w RELCATNAME w1 s2 ps"
     "hf_curPage s2 \<noteq> None" "\<not> curDirtyFlag s2" "clean w1 (filePtr s2) 1" "lpage w1 (filePtr s2) = file_view w RELCATNAME"
     "end_page (lpage w1 (filePtr s2)) n" "scan_here w1 s2 ps (w1, s2) items"
    using table_scan_open [OF inv t r sp name_filter(1) [OF nm], of s EQ] unfolding name_filter(2) [OF nm] items_def by blast
  have leave: "\<exists>s3 w3. endScan w2 s' = Some (OK, s3, w3) \<and> table w3 RELCATNAME ps n \<and> left_open w RELCATNAME w3" if "scan_here w1 s2 ps (w2, s') xs" for w2 s' xs
    by (rule scan_leave [OF o(3) inv o(5,4,6,7,8) that])
  have ft: "first_tuple w RELCATNAME ps (named relation) = (case items of [] \<Rightarrow> None | x # _ \<Rightarrow> Some (snd x))"
    unfolding first_tuple_def find_filter items_def [symmetric] by (simp split: list.splits)
  show ?thesis
  proof (cases items)
    case Nil
    obtain s3 w2 rid where e: "scanNext w1 s2 NULLRID = Some (FILEEOF, rid, s3, w2)" "scan_here w1 s2 ps (w2, s3) []" using scan_raw_end o(9) Nil by blast
    obtain s4 w3 where l: "endScan w2 s3 = Some (OK, s4, w3)" "table w3 RELCATNAME ps n" "left_open w RELCATNAME w3" using leave [OF e(2)] by blast
    have "RelCatalog_getInfo w s relation rd = Some (RELNOTFOUND, rd, w3)" using ne o(1,2) e(1) l(1) by (simp add: RelCatalog_getInfo_def)
    then show ?thesis using l ft Nil by auto
  next
    case (Cons x xs)
    obtain rid b where x: "x = (rid, b)" by (cases x)
    have "x \<in> set items" using Cons by simp
    then have "b \<in> tuples w RELCATNAME ps" using table_tuples [OF t] by (force simp: items_def x)
    then have lb: "length b = 36" using len by blast
    obtain s3 w2 ref where e: "scanNext w1 s2 NULLRID = Some (OK, rid, s3, w2)" "HeapFileScan_getRecord w2 s3 no_rec = Some (OK, ref)" "ref_length ref = int (length b)"
       "\<forall>k \<le> length b. rec_bytes w2 s3 ref (int k) = Some (take k b)" "scan_here w1 s2 ps (w2, s3) xs" using scan_raw_next o(9) Cons x by blast
    obtain s4 w3 where l: "endScan w2 s3 = Some (OK, s4, w3)" "table w3 RELCATNAME ps n" "left_open w RELCATNAME w3" using leave [OF e(5)] by blast
    have "rec_bytes w2 s3 ref (ref_length ref) = Some b" using e(3,4) by simp
    moreover have "memcpy_RelDesc rd b = Some (RelDesc_of_bytes b)"
      using lb by (simp add: memcpy_RelDesc_def RelDesc_of_bytes_def bytes_int_def) (rule get_int_cong, simp add: bytes_mem_def nth_append)
    ultimately have "RelCatalog_getInfo w s relation rd = Some (OK, RelDesc_of_bytes b, w3)" using ne o(1,2) e(1,2) l(1) by (simp add: RelCatalog_getInfo_def)
    then show ?thesis using l ft Cons x by auto
  qed
qed

lemma RelCatalog_addInfo_spec:
  assumes inv: "db_inv w" and t: "table w RELCATNAME ps n" and r: "resources w 1 N" "n + 1 \<le> N" and sp: "spare w 3" and rd: "RelDesc_ok rd"
  shows "\<exists>rid w' ps' n'. RelCatalog_addInfo w h rd = Some (OK, w') \<and> table w' RELCATNAME ps' n' \<and> n' \<le> n + 1 \<and>
     rec_stored w RELCATNAME ps rid (RelDesc_bytes rd) ps' w'"
proof -
  have l: "length (RelDesc_bytes rd) = 36" by (rule RelDesc_bytes_length [OF rd])
  then show ?thesis using table_insert [OF inv t r sp, of "RelDesc_bytes rd" h NULLRID] by (fastforce simp: RelCatalog_addInfo_def)
qed

lemma AttrCatalog_addInfo_spec:
  assumes inv: "db_inv w" and t: "table w ATTRCATNAME ps n" and r: "resources w 1 N" "n + 1 \<le> N" and sp: "spare w 3" and ad: "AttrDesc_ok ad"
  shows "\<exists>rid w' ps' n'. AttrCatalog_addInfo w h ad = Some (OK, w') \<and> table w' ATTRCATNAME ps' n' \<and> n' \<le> n + 1 \<and>
     rec_stored w ATTRCATNAME ps rid (AttrDesc_bytes ad) ps' w'"
proof -
  have l: "length (AttrDesc_bytes ad) = 76" by (rule AttrDesc_bytes_length [OF ad])
  then show ?thesis using table_insert [OF inv t r sp, of "AttrDesc_bytes ad" h NULLRID] by (fastforce simp: AttrCatalog_addInfo_def)
qed

section \<open>The attribute catalog\<close>

text \<open>A tuple of the attribute catalog: 76 bytes, the name of the attribute ends inside its array.\<close>

definition attr_tuple :: "byte list \<Rightarrow> bool" where
  "attr_tuple b \<longleftrightarrow> length b = 76 \<and> 0 \<in> set (take 32 (drop 32 b))"

definition attr_named :: "string \<Rightarrow> string \<Rightarrow> byte list \<Rightarrow> bool" where
  "attr_named relation attrName b \<longleftrightarrow> named relation b \<and> zstring (drop 32 b) = Some (map of_char attrName)"

lemma zstring_append: "0 \<in> set xs \<Longrightarrow> zstring (xs @ ys) = zstring xs"
  by (simp add: zstring_def)

lemma memcpy_AttrDesc_full: "length b = 76 \<Longrightarrow> memcpy_AttrDesc rc b = Some (AttrDesc_of_bytes b)"
  by (simp add: memcpy_AttrDesc_def AttrDesc_of_bytes_def bytes_int_def) (intro conjI get_int_cong; simp add: bytes_mem_def nth_append)

lemma attrName_is_tuple:
  assumes "attr_tuple b"
  shows "attrName_is (AttrDesc_of_bytes b) attrName = Some (zstring (drop 32 b) = Some (map of_char attrName))"
proof -
  have l: "length (ad_relName (AttrDesc_of_bytes b)) = 32" "ad_attrName (AttrDesc_of_bytes b) = take 32 (drop 32 b)"
    using assms by (simp_all add: attr_tuple_def AttrDesc_of_bytes_def)
  have z: "0 \<in> set (take 32 (drop 32 b))" using assms by (simp add: attr_tuple_def)
  then obtain cs where cs: "zstring (take 32 (drop 32 b)) = Some cs" by (auto simp: zstring_def)
  have "zstring (drop 32 (AttrDesc_bytes (AttrDesc_of_bytes b))) = Some cs"
    using l cs zstring_append [OF z] by (simp add: AttrDesc_bytes_def)
  moreover have "zstring (drop 32 b) = Some cs"
    using zstring_append [OF z, of "drop 32 (drop 32 b)"] cs append_take_drop_id [of 32 "drop 32 b"] by simp
  ultimately show ?thesis by (simp add: attrName_is_def)
qed

text \<open>The search loop, from the call of \<open>scanNext\<close> before it on.\<close>

lemma attr_find_loop_spec:
  assumes "scan_here w s ps (w1, s1) items" "\<forall>x \<in> set items. attr_tuple (snd x)"
  shows "\<exists>s2 w2 rid st. scanNext w1 s1 NULLRID = Some (st, rid, s2, w2) \<and>
     (\<exists>st' rc' s' w' rest. attr_find_loop w2 s2 attrName rc st = Some (None, st', rc', s', w') \<and> scan_here w s ps (w', s') rest \<and>
       (case find (\<lambda>x. zstring (drop 32 (snd x)) = Some (map of_char attrName)) items of
          None \<Rightarrow> st' = FILEEOF | Some x \<Rightarrow> st' = OK \<and> rc' = AttrDesc_of_bytes (snd x)))"
  using assms
proof (induction items arbitrary: w1 s1 rc)
  case Nil
  then obtain s2 w2 rid where e: "scanNext w1 s1 NULLRID = Some (FILEEOF, rid, s2, w2)" "scan_here w s ps (w2, s2) []" using scan_raw_end by blast
  then show ?case by (auto simp: attr_find_loop.simps [of w2 s2])
next
  case (Cons x xs)
  obtain rid b where x: "x = (rid, b)" by (cases x)
  have b: "attr_tuple b" "length b = 76" using Cons.prems(2) x by (simp_all add: attr_tuple_def)
  obtain s2 w2 ref where e: "scanNext w1 s1 NULLRID = Some (OK, rid, s2, w2)" "HeapFileScan_getRecord w2 s2 no_rec = Some (OK, ref)" "ref_length ref = int (length b)"
     "\<forall>k \<le> length b. rec_bytes w2 s2 ref (int k) = Some (take k b)" "scan_here w s ps (w2, s2) xs" using scan_raw_next Cons.prems(1) x by blast
  let ?P = "\<lambda>x. zstring (drop 32 (snd x)) = Some (map of_char attrName)"
  have rb: "rec_bytes w2 s2 ref (ref_length ref) = Some b" using e(3,4) by simp
  have loop: "attr_find_loop w2 s2 attrName rc OK = (if ?P x then Some (None, OK, AttrDesc_of_bytes b, s2, w2)
      else do { (scanNextReturned, rid, hfs, w) \<leftarrow> scanNext w2 s2 NULLRID; attr_find_loop w hfs attrName (AttrDesc_of_bytes b) scanNextReturned })"
    using e(2) rb memcpy_AttrDesc_full [OF b(2)] attrName_is_tuple [OF b(1), of attrName] by (subst attr_find_loop.simps) (simp add: x)
  show ?case
  proof (cases "?P x")
    case True
    then show ?thesis using e(1,5) loop x by (intro exI [of _ s2] exI [of _ w2] exI [of _ rid] exI [of _ OK] conjI) auto
  next
    case False
    have q: "\<forall>x \<in> set xs. attr_tuple (snd x)" using Cons.prems(2) by simp
    obtain s3 w3 rid' st st' rc' s' w' rest where i: "scanNext w2 s2 NULLRID = Some (st, rid', s3, w3)"
       "attr_find_loop w3 s3 attrName (AttrDesc_of_bytes b) st = Some (None, st', rc', s', w')" "scan_here w s ps (w', s') rest"
       "case find ?P xs of None \<Rightarrow> st' = FILEEOF | Some x \<Rightarrow> st' = OK \<and> rc' = AttrDesc_of_bytes (snd x)"
      using Cons.IH [OF e(5) q, of "AttrDesc_of_bytes b"] by blast
    have "attr_find_loop w2 s2 attrName rc OK = Some (None, st', rc', s', w')" using loop False i(1,2) by simp
    moreover have "find ?P (x # xs) = find ?P xs" using False by simp
    ultimately show ?thesis using e(1) i(3,4) by metis
  qed
qed

text \<open>Without \<open>endScan\<close> the page the scan stands on stays pinned as well.\<close>

definition left_at :: "'a db_state_scheme \<Rightarrow> string \<Rightarrow> int \<Rightarrow> 'a db_state_scheme \<Rightarrow> bool" where
  "left_at w nm p w' \<longleftrightarrow> others_kept w nm (opens w nm) w' \<and> file_view w' nm = file_view w nm \<and> oft_map (openFiles w') nm = Some (handle w nm) \<and>
     open_count w' (handle w nm) = open_count w (handle w nm) + 1 \<and>
     (\<forall>g q. pins w' g q = pins w g q + (if (g, q) = (handle w nm, 1) then 1 else 0) + (if (g, q) = (handle w nm, p) then 1 else 0))"

lemma scan_abandon:
  assumes c: "client w nm w1 s ps" and inv: "db_inv w" and d: "\<not> curDirtyFlag s" "hf_curPage s \<noteq> None"
    and v: "lpage w1 (filePtr s) = file_view w nm" and h: "scan_here w1 s ps (w2, s2) items"
  shows "\<exists>p \<in> set ps. left_at w nm p w2"
proof -
  have c2: "client w nm w2 s2 ps" "hf_curPage s2 \<noteq> None" "filePtr s2 = filePtr s" "view_same w1 w2" using client_scan [OF c inv d h] by blast+
  note cd = clientD [OF c2(1)]
  have p: "curPageNo s2 \<in> set ps" using cd(2) c2(2) by (simp add: hf_open_def)
  have "pins w2 g q = pins w g q + (if (g, q) = (handle w nm, 1) then 1 else 0) + (if (g, q) = (handle w nm, curPageNo s2) then 1 else 0)" for g q
    using cd(7) [of g q] cd(3,4) c2(2) by (auto simp: own_pins_def)
  moreover have "file_view w2 nm = file_view w nm" using cd(9) v view_sameD(2) [OF c2(4)] c2(3) by simp
  ultimately have "left_at w nm (curPageNo s2) w2" using cd(3,5,6,8) by (simp add: left_at_def)
  then show ?thesis using p by blast
qed

lemma scan_abandon_table:
  assumes c: "client w nm w1 s ps" and inv: "db_inv w" and d: "\<not> curDirtyFlag s" "hf_curPage s \<noteq> None" and cl: "clean w1 (filePtr s) 1"
    and e: "end_page (lpage w1 (filePtr s)) n" and h: "scan_here w1 s ps (w2, s2) items"
  shows "table w2 nm ps n"
proof -
  have c2: "client w nm w2 s2 ps" "filePtr s2 = filePtr s" "view_same w1 w2" using client_scan [OF c inv d h] by blast+
  note vs = view_sameD [OF c2(3)]
  note cd = clientD [OF c]
  have "\<forall>p \<in> set (1 # ps). clean w1 (filePtr s) p" using cd(2) cl d(1) by (auto simp: hf_open_def)
  moreover have "\<forall>p \<in> set (1 # ps). p \<in> used_pages (filePtr s) w1" using hf_openD(5) [OF cd(2)] cd(4) by (auto simp: buf_legal_def)
  ultimately have "\<forall>p \<in> set (1 # ps). clean w2 (filePtr s2) p" using vs(6) c2(2) by simp
  then show ?thesis by (rule client_table [OF c2(1)]) (use e vs(2) c2(2) in simp)
qed

lemma find_filter_conj: "find P (filter Q xs) = find (\<lambda>x. Q x \<and> P x) xs"
  by (induction xs) auto

lemma AttrCatalog_getInfo_spec:
  assumes inv: "db_inv w" and t: "table w ATTRCATNAME ps n" and r: "resources w 1 N" "n \<le> N" and sp: "spare w 2" and nm: "name_ok relation" "attrName \<noteq> []"
    and tup: "\<forall>b \<in> tuples w ATTRCATNAME ps. attr_tuple b"
  shows "\<exists>st ad' w'. AttrCatalog_getInfo w s relation attrName ad = Some (st, ad', w') \<and>
     (case first_tuple w ATTRCATNAME ps (attr_named relation attrName) of
        None \<Rightarrow> st = ATTRNOTFOUND \<and> (\<exists>p \<in> set ps. left_at w ATTRCATNAME p w')
      | Some b \<Rightarrow> st = OK \<and> ad' = AttrDesc_of_bytes b \<and> table w' ATTRCATNAME ps n \<and> left_open w ATTRCATNAME w')"
proof -
  have ne: "relation \<noteq> []" using nm(1) by (simp add: name_ok_def)
  define items where "items = filter (\<lambda>x. named relation (snd x)) (heap_items (file_view w ATTRCATNAME) ps)"
  let ?P = "\<lambda>x. zstring (drop 32 (snd x)) = Some (map of_char attrName)"
  obtain s1 w1 s2 where o: "HeapFileScan_new w s ATTRCATNAME = Some (OK, s1, w1)"
     "startScan s1 0 (swrap 4 (int (length relation) + 1)) 0 (Some (string_buf relation)) EQ = (OK, s2)" "client w ATTRCATNAME w1 s2 ps"
     "hf_curPage s2 \<noteq> None" "\<not> curDirtyFlag s2" "clean w1 (filePtr s2) 1" "lpage w1 (filePtr s2) = file_view w ATTRCATNAME"
     "end_page (lpage w1 (filePtr s2)) n" "scan_here w1 s2 ps (w1, s2) items"
    using table_scan_open [OF inv t r sp name_filter(1) [OF nm(1)], of s EQ] unfolding name_filter(2) [OF nm(1)] items_def by blast
  have it: "\<forall>x \<in> set items. attr_tuple (snd x)" using tup table_tuples [OF t] by (auto simp: items_def)
  obtain s3 w2 rid st st' rc' s' w' rest where l: "scanNext w1 s2 NULLRID = Some (st, rid, s3, w2)"
     "attr_find_loop w2 s3 attrName ad st = Some (None, st', rc', s', w')" "scan_here w1 s2 ps (w', s') rest"
     "case find ?P items of None \<Rightarrow> st' = FILEEOF | Some x \<Rightarrow> st' = OK \<and> rc' = AttrDesc_of_bytes (snd x)"
    using attr_find_loop_spec [OF o(9) it, of attrName ad] by blast
  have ft: "first_tuple w ATTRCATNAME ps (attr_named relation attrName) = map_option snd (find ?P items)"
    by (simp add: first_tuple_def items_def find_filter_conj attr_named_def)
  show ?thesis
  proof (cases "find ?P items")
    case None
    then have "AttrCatalog_getInfo w s relation attrName ad = Some (ATTRNOTFOUND, rc', w')" using ne nm(2) o(1,2) l by (simp add: AttrCatalog_getInfo_def)
    then show ?thesis using ft None scan_abandon [OF o(3) inv o(5,4,7) l(3)] by auto
  next
    case (Some x)
    obtain s4 w3 where e: "endScan w' s' = Some (OK, s4, w3)" "table w3 ATTRCATNAME ps n" "left_open w ATTRCATNAME w3"
      using scan_leave [OF o(3) inv o(5,4,6,7,8) l(3)] by blast
    have "AttrCatalog_getInfo w s relation attrName ad = Some (OK, AttrDesc_of_bytes (snd x), w3)"
      using Some ne nm(2) o(1,2) l e(1) by (simp add: AttrCatalog_getInfo_def)
    then show ?thesis using ft Some e(2,3) by auto
  qed
qed

text \<open>The removal loop stays at the first tuple.\<close>

lemma attr_remove_loop_stuck:
  assumes "HeapFileScan_getRecord w hfs no_rec = Some (OK, ref)" "rec_bytes w hfs ref (ref_length ref) = Some b" "length b = 76"
    "attrName_is (AttrDesc_of_bytes b) attrName = Some False"
  shows "attr_remove_loop w hfs attrName rc OK = None"
proof -
  have "\<not> (w' = w \<and> hfs' = hfs \<and> at = attrName \<and> st = OK)" if "attr_remove_loop w' hfs' at rc' st = Some r" for w' hfs' at rc' st r
    using that
    by (rule attr_remove_loop.raw_induct [where P = "\<lambda>w' hfs' at rc' st r. \<not> (w' = w \<and> hfs' = hfs \<and> at = attrName \<and> st = OK)", rotated])
      (auto simp: assms memcpy_AttrDesc_full split: if_splits bind_splits, blast)
  then show ?thesis by (metis not_Some_eq)
qed

end
