(* ===== verification/Schema.thy ===== *)
theory Schema
  imports Catalog
begin

text \<open>
  Creating and destroying relations: \<open>create.cpp\<close> and \<open>destroy.cpp\<close>. Memory parameters are as in
  \<open>Catalog\<close>: \<open>s\<close> and \<open>h\<close> for objects made by \<open>new\<close>, \<open>rd\<close> and \<open>ad\<close> for local structures, \<open>u\<close> for
  local status variables that are read before they are set.
\<close>

section \<open>Creating a relation\<close>

text \<open>The loop over the attributes: the statuses of \<open>addInfo\<close> are not looked at.\<close>

fun create_attrs :: "'a db_state_scheme \<Rightarrow> HeapFile \<Rightarrow> AttrDesc \<Rightarrow> int \<Rightarrow> attrInfo list \<Rightarrow> 'a db_state_scheme option" where
  "create_attrs w h ad attrOff [] = Some w"
| "create_attrs w h ad attrOff (a # attrList) = do {
     attrName \<leftarrow> strcpy (ad_attrName ad) (ai_attrName a);
     relName \<leftarrow> strcpy (ad_relName ad) (ai_relName a);
     let ad = \<lparr>ad_relName = relName, ad_attrName = attrName, ad_attrOffset = attrOff, ad_attrType = ai_attrType a, ad_attrLen = ai_attrLen a\<rparr>;
     let attrOff = swrap 4 (attrOff + ad_attrLen ad);
     (addInfoReturned, w) \<leftarrow> AttrCatalog_addInfo w h ad;
     create_attrs w h ad attrOff attrList
   }"

definition RelCatalog_createRel ::
    "RelDesc \<Rightarrow> AttrDesc \<Rightarrow> 'a db_state_scheme \<Rightarrow> HeapFileScan \<Rightarrow> HeapFile \<Rightarrow> string \<Rightarrow> int \<Rightarrow> attrInfo list \<Rightarrow> (Status \<times> 'a db_state_scheme) option" where
  "RelCatalog_createRel rd ad w s h relation attrCnt attrList =
     (if relation = [] \<or> attrCnt < 1 then Some (BADCATPARM, w)
      else if int (length relation) \<ge> 32 then Some (NAMETOOLONG, w)
      else do {
        (getInfoReturned, rd, w) \<leftarrow> RelCatalog_getInfo w s relation rd;
        if getInfoReturned = OK then Some (RELEXISTS, w)
        else if getInfoReturned \<noteq> RELNOTFOUND then Some (getInfoReturned, w)
        else do {
        relName \<leftarrow> strcpy (rd_relName rd) (string_buf relation);
        (addInfoReturned, w) \<leftarrow> RelCatalog_addInfo w h \<lparr>rd_relName = relName, rd_attrCnt = attrCnt\<rparr>;
        if addInfoReturned \<noteq> OK then Some (addInfoReturned, w)
        else if nat attrCnt \<le> length attrList then do {
          w \<leftarrow> create_attrs w h ad 0 (take (nat attrCnt) attrList);
          createHeapFile w (string_of_bytes (c_str relation))
        }
        else None
        }
      })"


section \<open>Destroying a relation\<close>

text \<open>
  The two loops of \<open>dropRelation\<close> differ in what they return when \<open>scanNext\<close> fails: the first returns
  its status, the second the last status of \<open>getRecord\<close>, which is not set before the first record.
\<close>

partial_function (option) drop_loop ::
    "'a db_state_scheme \<Rightarrow> HeapFileScan \<Rightarrow> string \<Rightarrow> Status option \<Rightarrow> Status \<Rightarrow> ((Status + HeapFileScan) \<times> 'a db_state_scheme) option" where
  "drop_loop w scan relation fail scanNextReturned =
     (if scanNextReturned = FILEEOF then Some (Inr scan, w)
      else if scanNextReturned \<noteq> OK then Some (Inl (case fail of None \<Rightarrow> scanNextReturned | Some getRecordReturned \<Rightarrow> getRecordReturned), w)
      else do {
        (getRecordReturned, recordToDrop) \<leftarrow> HeapFileScan_getRecord w scan no_rec;
        if getRecordReturned \<noteq> OK then Some (Inl getRecordReturned, w) else do {
        data \<leftarrow> rec_rest w scan recordToDrop;
        d \<leftarrow> strcmp data (string_buf relation);
        (status, scan, w) \<leftarrow> (if d = 0 then HeapFileScan_deleteRecord w scan else Some (OK, scan, w));
        (scanNextReturned, rid, scan, w) \<leftarrow> scanNext w scan NULLRID;
        drop_loop w scan relation (map_option (\<lambda>_. getRecordReturned) fail) scanNextReturned
        }
      })"

definition AttrCatalog_dropRelation ::
    "Status \<Rightarrow> Status \<Rightarrow> 'a db_state_scheme \<Rightarrow> HeapFileScan \<Rightarrow> string \<Rightarrow> (Status \<times> 'a db_state_scheme) option" where
  "AttrCatalog_dropRelation getRecordReturned2 endScanReturned2 w s relation =
     (if relation = [] then Some (BADCATPARM, w)
      else do {
        (heapFileScanReturned, scan, w) \<leftarrow> HeapFileScan_new w s RELCATNAME;
        if heapFileScanReturned \<noteq> OK then Some (heapFileScanReturned, w) else do {
        let (startScanReturned, scan) = startScan scan 0 0 0 None EQ;
        if startScanReturned \<noteq> OK then Some (startScanReturned, w) else do {
        (scanNextReturned, rid, scan, w) \<leftarrow> scanNext w scan NULLRID;
        (res, w) \<leftarrow> drop_loop w scan relation None scanNextReturned;
        case res of
          Inl status \<Rightarrow> Some (status, w)
        | Inr scan \<Rightarrow> do {
        (endScanReturned, scan, w) \<leftarrow> endScan w scan;
        if endScanReturned \<noteq> OK then Some (endScanReturned2, w) else do {
        (heapFileScanReturned2, scan, w) \<leftarrow> HeapFileScan_new w s ATTRCATNAME;
        if heapFileScanReturned2 \<noteq> OK then Some (heapFileScanReturned2, w) else do {
        let (startScanReturned2, scan) = startScan scan 0 0 0 None EQ;
        if startScanReturned2 \<noteq> OK then Some (startScanReturned2, w) else do {
        (scanNextReturned2, rid, scan, w) \<leftarrow> scanNext w scan rid;
        (res, w) \<leftarrow> drop_loop w scan relation (Some getRecordReturned2) scanNextReturned2;
        case res of
          Inl status \<Rightarrow> Some (status, w)
        | Inr scan \<Rightarrow> do {
            (endScanReturned2, scan, w) \<leftarrow> endScan w scan;
            Some (endScanReturned2, w)
          }
        }}}}}}
      })"

definition RelCatalog_destroyRel ::
    "Status \<Rightarrow> Status \<Rightarrow> Status \<Rightarrow> 'a db_state_scheme \<Rightarrow> HeapFileScan \<Rightarrow> string \<Rightarrow> (Status \<times> 'a db_state_scheme) option" where
  "RelCatalog_destroyRel u getRecordReturned2 endScanReturned2 w s relation =
     (if relation = [] \<or> relation = RELCATNAME \<or> relation = ATTRCATNAME then Some (BADCATPARM, w)
      else do {
        (removeInfoReturned, w) \<leftarrow> RelCatalog_removeInfo u w s relation;
        if removeInfoReturned \<noteq> OK then Some (removeInfoReturned, w) else do {
        (dropRelationReturned, w) \<leftarrow> AttrCatalog_dropRelation getRecordReturned2 endScanReturned2 w s relation;
        if dropRelationReturned \<noteq> OK then Some (dropRelationReturned, w)
        else destroyHeapFile w relation
        }
      })"

end
