(* ===== verification/SchemaCorrect.thy ===== *)
theory SchemaCorrect
  imports CatalogCorrect Schema
begin

text \<open>
  Creating a relation, and all attributes of a relation: \<open>RelCatalog::createRel\<close> adds the tuples of
  the relation and of its attributes to the two catalogs and creates the heap file of the relation;
  \<open>AttrCatalog::getRelInfo\<close> reads them back into an array.
\<close>

section \<open>Several steps\<close>

lemma others_kept_trans:
  assumes inv: "db_inv w" and a: "others_kept w nm i w1" and b: "others_kept w1 nm j w2"
  shows "others_kept w nm (i + j) w2"
proof -
  have inv1: "db_inv w1" using a unfolding others_kept_def by blast
  have a': "frames w1 = frames w" "bht_valid (hashTable w1) = bht_valid (hashTable w)" "newAddr w1 = newAddr w" "newCnt w1 = newCnt w + i"
     "\<forall>m. m \<noteq> nm \<longrightarrow> oft_map (openFiles w1) m = oft_map (openFiles w) m \<and> file_view w1 m = file_view w m \<and> file_used w1 m = file_used w m \<and>
        (oft_map (openFiles w) m = None \<longrightarrow> disk w1 m = disk w m)"
     "\<forall>m f q. m \<noteq> nm \<longrightarrow> oft_map (openFiles w) m = Some f \<longrightarrow> q \<in> used_pages f w \<longrightarrow> clean w f q \<longrightarrow> clean w1 f q"
     "\<forall>g. files w1 g \<noteq> None \<longrightarrow> files w g \<noteq> None \<or> g \<in> (\<lambda>l. newAddr w (newCnt w + l)) ` {..<i}"
     "\<forall>f. oft_map (openFiles w1) nm = Some f \<longrightarrow> oft_map (openFiles w) nm = Some f \<or> f \<in> (\<lambda>l. newAddr w (newCnt w + l)) ` {..<i}"
    using a unfolding others_kept_def by blast+
  have b': "db_inv w2" "frames w2 = frames w1" "bht_valid (hashTable w2) = bht_valid (hashTable w1)" "newAddr w2 = newAddr w1" "newCnt w2 = newCnt w1 + j"
     "\<forall>m. m \<noteq> nm \<longrightarrow> oft_map (openFiles w2) m = oft_map (openFiles w1) m \<and> file_view w2 m = file_view w1 m \<and> file_used w2 m = file_used w1 m \<and>
        (oft_map (openFiles w1) m = None \<longrightarrow> disk w2 m = disk w1 m)"
     "\<forall>m f q. m \<noteq> nm \<longrightarrow> oft_map (openFiles w1) m = Some f \<longrightarrow> q \<in> used_pages f w1 \<longrightarrow> clean w1 f q \<longrightarrow> clean w2 f q"
     "\<forall>g. files w2 g \<noteq> None \<longrightarrow> files w1 g \<noteq> None \<or> g \<in> (\<lambda>l. newAddr w1 (newCnt w1 + l)) ` {..<j}"
     "\<forall>f. oft_map (openFiles w2) nm = Some f \<longrightarrow> oft_map (openFiles w1) nm = Some f \<or> f \<in> (\<lambda>l. newAddr w1 (newCnt w1 + l)) ` {..<j}"
    using b unfolding others_kept_def by blast+
  have new: "g \<in> (\<lambda>l. newAddr w (newCnt w + l)) ` {..<i + j}" if "g \<in> (\<lambda>l. newAddr w (newCnt w + l)) ` {..<i} \<or> g \<in> (\<lambda>l. newAddr w1 (newCnt w1 + l)) ` {..<j}" for g
  proof -
    have "newAddr w1 (newCnt w1 + l) = newAddr w (newCnt w + (i + l))" for l using a'(3,4) by (simp add: add.assoc)
    then show ?thesis using that by (auto intro: image_eqI [where x = "i + _"])
  qed
  have cl: "clean w2 f q" if m: "m \<noteq> nm" "oft_map (openFiles w) m = Some f" "q \<in> used_pages f w" "clean w f q" for m f q
  proof -
    have o1: "oft_map (openFiles w1) m = Some f" "file_used w1 m = file_used w m" using a'(5) m(1,2) by simp_all
    have "q \<in> used_pages f w1" using m(3) open_used [OF inv m(2)] open_used [OF inv1 o1(1)] o1(2) by simp
    then show ?thesis using b'(7) a'(6) m o1(1) by blast
  qed
  show ?thesis unfolding others_kept_def
  proof (intro conjI allI impI)
    show "clean w2 f q" if "m \<noteq> nm" "oft_map (openFiles w) m = Some f" "q \<in> used_pages f w" "clean w f q" for m f q by (rule cl [OF that])
    show "files w g \<noteq> None \<or> g \<in> (\<lambda>l. newAddr w (newCnt w + l)) ` {..<i + j}" if "files w2 g \<noteq> None" for g using that b'(8) a'(7) new by blast
    show "oft_map (openFiles w) nm = Some f \<or> f \<in> (\<lambda>l. newAddr w (newCnt w + l)) ` {..<i + j}" if "oft_map (openFiles w2) nm = Some f" for f
      using that b'(9) a'(8) new by blast
    show "holds w2 g q l" if "holds w g q l" for g q l by (rule kept_holds [OF b kept_holds [OF a that]])
  qed (use a' b' in simp_all)
qed

lemma others_kept_refl: "db_inv w \<Longrightarrow> others_kept w nm 0 w"
  by (simp add: others_kept_def)

lemma kept_inv: "others_kept w nm j w' \<Longrightarrow> db_inv w'"
  by (simp add: others_kept_def)

lemma kept_spare: "others_kept w nm j w' \<Longrightarrow> db_inv w \<Longrightarrow> spare w k \<Longrightarrow> pins w' = pins w \<Longrightarrow> spare w' k"
  using spare_le [of w k w'] db_inv_pool [of w] by (simp add: others_kept_def)

lemma left_spare: "left_open w nm w' \<Longrightarrow> db_inv w \<Longrightarrow> spare w (Suc k) \<Longrightarrow> spare w' k"
  using spare_pin [of w k w' "(handle w nm, 1)"] db_inv_pool [of w] by (auto simp: left_open_def others_kept_def)

lemma resources_mono: "resources w k n \<Longrightarrow> j \<le> k \<Longrightarrow> resources w j n"
  by (auto simp: resources_def addresses_def inj_on_def)

lemma opens_le: "opens w nm \<le> 1"
  by (simp add: opens_def)

lemma resources_step: "others_kept w nm (opens w nm) w' \<Longrightarrow> resources w (Suc k) n \<Longrightarrow> resources w' k n"
  using resources_kept [of w nm "opens w nm" w' k n] resources_mono [of w "Suc k" n "opens w nm + k"] opens_le [of w nm] by simp

lemma table_disk: "table w nm ps n \<Longrightarrow> disk w nm \<noteq> None"
  by (auto simp: table_def stored_heap_def heap_at_def file_used_def split: option.splits)

section \<open>The attributes of a new relation\<close>

text \<open>What an entry of the attribute list has to be: names that end inside their arrays and numbers that fit.\<close>

definition c_name :: "byte list \<Rightarrow> bool" where
  "c_name bs \<longleftrightarrow> (case zstring bs of None \<Rightarrow> False | Some cs \<Rightarrow> length cs < MAXNAME)"

definition attrInfo_ok :: "attrInfo \<Rightarrow> bool" where
  "attrInfo_ok a \<longleftrightarrow> c_name (ai_relName a) \<and> c_name (ai_attrName a) \<and> int_ok (ai_attrType a) \<and> 0 \<le> ai_attrLen a"

text \<open>The descriptors of a list of attributes that are stored one behind the other from an offset on.\<close>

fun describes :: "attrInfo list \<Rightarrow> int \<Rightarrow> AttrDesc list \<Rightarrow> bool" where
  "describes [] off [] = True"
| "describes (a # as) off (d # ds) \<longleftrightarrow> AttrDesc_ok d \<and> zstring (ad_relName d) = zstring (ai_relName a) \<and> zstring (ad_attrName d) = zstring (ai_attrName a) \<and>
     ad_attrOffset d = off \<and> ad_attrType d = ai_attrType a \<and> ad_attrLen d = ai_attrLen a \<and> describes as (off + ai_attrLen a) ds"
| "describes _ _ _ = False"

lemma strcpy_name:
  assumes "c_name src" "length dst = MAXNAME"
  shows "\<exists>r. strcpy dst src = Some r \<and> length r = MAXNAME \<and> zstring r = zstring src"
proof -
  obtain cs where cs: "zstring src = Some cs" "length cs < MAXNAME" using assms(1) by (auto simp: c_name_def split: option.splits)
  have z: "0 \<notin> set cs" using cs(1) by (auto simp: zstring_def split: if_splits dest: set_takeWhileD)
  have "zstring (cs @ 0 # ys) = Some cs" for ys using z by (induction cs) (auto simp: zstring_simps)
  then show ?thesis using cs assms(2) by (simp add: strcpy_def)
qed

lemma create_attrs_spec:
  assumes "db_inv w" "table w ATTRCATNAME ps n" "resources w (length as) N" "n + int (length as) \<le> N" "spare w 3"
    and "length (ad_relName ad) = MAXNAME" "length (ad_attrName ad) = MAXNAME" "\<forall>a \<in> set as. attrInfo_ok a" "0 \<le> off" "off + (\<Sum>a\<leftarrow>as. ai_attrLen a) < 2147483648"
  shows "\<exists>w' ps' n' ds rids j. create_attrs w h ad off as = Some w' \<and> table w' ATTRCATNAME ps' n' \<and> n' \<le> n + int (length as) \<and> describes as off ds \<and>
     length ds = length as \<and> length rids = length as \<and> distinct rids \<and> set rids \<inter> dom (heap_recs (file_view w ATTRCATNAME) ps) = {} \<and>
     heap_recs (file_view w' ATTRCATNAME) ps' = heap_recs (file_view w ATTRCATNAME) ps ++ map_of (zip rids (map AttrDesc_bytes ds)) \<and>
     others_kept w ATTRCATNAME j w' \<and> j \<le> length as \<and> pins w' = pins w \<and> oft_map (openFiles w') ATTRCATNAME = oft_map (openFiles w) ATTRCATNAME"
  using assms
proof (induction as arbitrary: w ps n ad off)
  case Nil
  then show ?case using others_kept_refl [of w ATTRCATNAME] by (intro exI [of _ w] exI [of _ ps] exI [of _ n] exI [of _ "[]"] exI [of _ "0 :: nat"]) simp
next
  case (Cons a as)
  have a: "c_name (ai_relName a)" "c_name (ai_attrName a)" "int_ok (ai_attrType a)" "0 \<le> ai_attrLen a" using Cons.prems(8) by (simp_all add: attrInfo_ok_def)
  obtain an where an: "strcpy (ad_attrName ad) (ai_attrName a) = Some an" "length an = MAXNAME" "zstring an = zstring (ai_attrName a)"
    using strcpy_name [OF a(2) Cons.prems(7)] by blast
  obtain rn where rn: "strcpy (ad_relName ad) (ai_relName a) = Some rn" "length rn = MAXNAME" "zstring rn = zstring (ai_relName a)"
    using strcpy_name [OF a(1) Cons.prems(6)] by blast
  define d where "d = \<lparr>ad_relName = rn, ad_attrName = an, ad_attrOffset = off, ad_attrType = ai_attrType a, ad_attrLen = ai_attrLen a\<rparr>"
  have sum: "0 \<le> (\<Sum>a\<leftarrow>as. ai_attrLen a)" using Cons.prems(8) by (intro sum_list_nonneg) (auto simp: attrInfo_ok_def)
  have io: "int_ok off" "int_ok (ai_attrLen a)" "int_ok (off + ai_attrLen a)" using Cons.prems(9,10) a(4) sum by (simp_all add: int_ok_def)
  have d: "AttrDesc_ok d" using an(2) rn(2) a(3) io by (simp add: AttrDesc_ok_def d_def)
  have r1: "resources w 1 N" using resources_mono [OF Cons.prems(3), of 1] by simp
  have n1: "n + 1 \<le> N" using Cons.prems(4) by simp
  obtain rid w1 ps1 n1 where i: "AttrCatalog_addInfo w h d = Some (OK, w1)" "table w1 ATTRCATNAME ps1 n1" "n1 \<le> n + 1" "rec_stored w ATTRCATNAME ps rid (AttrDesc_bytes d) ps1 w1"
    using AttrCatalog_addInfo_spec [OF Cons.prems(1,2) r1 n1 Cons.prems(5) d, of h] by blast
  have k: "others_kept w ATTRCATNAME (opens w ATTRCATNAME) w1" "oft_map (openFiles w1) ATTRCATNAME = oft_map (openFiles w) ATTRCATNAME" "pins w1 = pins w"
     "heap_recs (file_view w ATTRCATNAME) ps rid = None"
     "heap_recs (file_view w1 ATTRCATNAME) ps1 = (heap_recs (file_view w ATTRCATNAME) ps)(rid \<mapsto> AttrDesc_bytes d)"
    using i(4) unfolding rec_stored_def by blast+
  have inv1: "db_inv w1" by (rule kept_inv [OF k(1)])
  have res1: "resources w1 (length as) N" using resources_step [OF k(1)] Cons.prems(3) by simp
  have pre: "n1 + int (length as) \<le> N" "spare w1 3" using Cons.prems(4) i(3) kept_spare [OF k(1) Cons.prems(1,5) k(3)] by simp_all
  have pre2: "length (ad_relName d) = MAXNAME" "length (ad_attrName d) = MAXNAME" "\<forall>a \<in> set as. attrInfo_ok a" "0 \<le> off + ai_attrLen a"
     "off + ai_attrLen a + (\<Sum>a\<leftarrow>as. ai_attrLen a) < 2147483648"
    using an(2) rn(2) Cons.prems(8-10) a(4) by (simp_all add: d_def)
  obtain w' ps' n' ds rids j where q: "create_attrs w1 h d (off + ai_attrLen a) as = Some w'" "table w' ATTRCATNAME ps' n'" "n' \<le> n1 + int (length as)"
     "describes as (off + ai_attrLen a) ds" "length ds = length as" "length rids = length as" "distinct rids"
     "set rids \<inter> dom (heap_recs (file_view w1 ATTRCATNAME) ps1) = {}"
     "heap_recs (file_view w' ATTRCATNAME) ps' = heap_recs (file_view w1 ATTRCATNAME) ps1 ++ map_of (zip rids (map AttrDesc_bytes ds))"
     "others_kept w1 ATTRCATNAME j w'" "j \<le> length as" "pins w' = pins w1" "oft_map (openFiles w') ATTRCATNAME = oft_map (openFiles w1) ATTRCATNAME"
    using Cons.IH [OF inv1 i(2) res1 pre pre2] by blast
  have rid: "rid \<notin> set rids" using q(8) k(5) by auto
  have run: "create_attrs w h ad off (a # as) = Some w'"
    using an(1) rn(1) io(3) i(1) q(1) by (simp add: d_def)
  have rec: "heap_recs (file_view w' ATTRCATNAME) ps' = heap_recs (file_view w ATTRCATNAME) ps ++ map_of (zip (rid # rids) (map AttrDesc_bytes (d # ds)))"
    using q(5,6,9) k(5) rid by (auto simp: fun_eq_iff map_add_def split: option.splits dest!: map_of_SomeD set_zip_leftD)
  have dom: "set (rid # rids) \<inter> dom (heap_recs (file_view w ATTRCATNAME) ps) = {}" using q(8) k(4,5) by auto
  have kept: "others_kept w ATTRCATNAME (opens w ATTRCATNAME + j) w'" by (rule others_kept_trans [OF Cons.prems(1) k(1) q(10)])
  have "describes (a # as) off (d # ds)" using d an(3) rn(3) q(4) by (simp add: d_def)
  moreover have "n' \<le> n + int (length (a # as))" "opens w ATTRCATNAME + j \<le> length (a # as)" "length (d # ds) = length (a # as)" "length (rid # rids) = length (a # as)"
     "distinct (rid # rids)" "pins w' = pins w" "oft_map (openFiles w') ATTRCATNAME = oft_map (openFiles w) ATTRCATNAME"
    using q(3,5,6,7,11,12,13) i(3) k(2,3) rid opens_le [of w ATTRCATNAME] by simp_all
  ultimately show ?case using run q(2) rec dom kept by blast
qed

section \<open>Creating a relation\<close>

lemma string_of_c_str:
  assumes "name_ok relation"
  shows "string_of_bytes (c_str relation) = relation"
proof -
  have z: "(0 :: byte) \<notin> set (map of_char relation)" using assms by (simp add: name_ok_def)
  have tw: "takeWhile (\<lambda>b. b \<noteq> 0) (map of_char relation) = (map of_char relation :: byte list)" using z by (auto simp: takeWhile_eq_all_conv)
  show ?thesis unfolding c_str_def tw by (rule string_of_chars)
qed

lemma kept_view: "others_kept w nm j w' \<Longrightarrow> m \<noteq> nm \<Longrightarrow> file_view w' m = file_view w m"
  unfolding others_kept_def by blast

lemma createRel_spec:
  assumes inv: "db_inv w" and tr: "table w RELCATNAME psr nr" and ta: "table w ATTRCATNAME psa na" and len: "\<forall>b \<in> tuples w RELCATNAME psr. length b = 36"
    and nm: "name_ok relation" "length relation < MAXNAME" and new: "\<forall>b \<in> tuples w RELCATNAME psr. \<not> named relation b" "disk w relation = None"
    and mem: "length (rd_relName rd) = MAXNAME" "length (ad_relName ad) = MAXNAME" "length (ad_attrName ad) = MAXNAME"
    and as: "as \<noteq> []" "\<forall>a \<in> set as. attrInfo_ok a" "(\<Sum>a\<leftarrow>as. ai_attrLen a) < 2147483648" "int_ok (int (length as))"
    and r: "resources w (length as + 4) N" "nr + 1 \<le> N" "na + int (length as) \<le> N" and sp: "spare w 4"
  shows "\<exists>w' psr' nr' psa' na' rid rids rd' ds. RelCatalog_createRel rd ad w s h relation (int (length as)) as = Some (OK, w') \<and> db_inv w' \<and>
     table w' RELCATNAME psr' nr' \<and> table w' ATTRCATNAME psa' na' \<and> table w' relation [2] 3 \<and> heap_recs (file_view w' relation) [2] = Map.empty \<and>
     RelDesc_ok rd' \<and> zstring (rd_relName rd') = Some (map of_char relation) \<and> rd_attrCnt rd' = int (length as) \<and>
     heap_recs (file_view w RELCATNAME) psr rid = None \<and> heap_recs (file_view w' RELCATNAME) psr' = (heap_recs (file_view w RELCATNAME) psr)(rid \<mapsto> RelDesc_bytes rd') \<and>
     describes as 0 ds \<and> length rids = length as \<and> distinct rids \<and> set rids \<inter> dom (heap_recs (file_view w ATTRCATNAME) psa) = {} \<and>
     heap_recs (file_view w' ATTRCATNAME) psa' = heap_recs (file_view w ATTRCATNAME) psa ++ map_of (zip rids (map AttrDesc_bytes ds)) \<and>
     (\<forall>m. m \<notin> {RELCATNAME, ATTRCATNAME, relation} \<longrightarrow> file_view w' m = file_view w m)"
proof -
  have ne: "relation \<noteq> []" "RELCATNAME \<noteq> ATTRCATNAME" "relation \<noteq> RELCATNAME" "relation \<noteq> ATTRCATNAME"
    using nm(1) table_disk [OF tr] table_disk [OF ta] new(2) by (auto simp: name_ok_def RELCATNAME_def ATTRCATNAME_def)
  have oo: "oft_map (openFiles w) relation = None" using db_inv_open_disk [OF inv, of relation] new(2) by (cases "oft_map (openFiles w) relation") auto
  have r1: "resources w 1 N" using resources_mono [OF r(1), of 1] by simp
  have "1 \<le> length as" using as(1) by (cases as) auto
  then have nrN: "nr \<le> N" "3 \<le> N" using r(2) table_pages [OF inv ta, of 1] r(3) by simp_all
  have sp2: "spare w 2" "spare w (Suc 3)" using sp by (simp_all add: spare_def)
  obtain w1 where g: "RelCatalog_getInfo w s relation rd = Some (RELNOTFOUND, rd, w1)" "table w1 RELCATNAME psr nr" "left_open w RELCATNAME w1"
    using RelCatalog_getInfo_spec [OF inv tr r1 nrN(1) sp2(1) nm(1) len, of s rd] first_tuple_cases [OF tr, of "named relation"] new(1)
    by (auto split: option.splits)
  have k1: "others_kept w RELCATNAME (opens w RELCATNAME) w1" "file_view w1 RELCATNAME = file_view w RELCATNAME" using g(3) unfolding left_open_def by blast+
  have inv1: "db_inv w1" by (rule kept_inv [OF k1(1)])
  have "resources w (Suc (Suc (Suc (Suc (length as))))) N" using r(1) by (simp add: eval_nat_numeral)
  then have s1: "resources w1 (Suc (Suc (Suc (length as)))) N" "spare w1 3" "table w1 ATTRCATNAME psa na"
    using resources_step [OF k1(1)] left_spare [OF g(3) inv sp2(2)] table_other [OF k1(1) inv _ ta] ne(2) by simp_all
  obtain rn where rn: "strcpy (rd_relName rd) (string_buf relation) = Some rn" "length rn = MAXNAME" "zstring rn = Some (map of_char relation)"
  proof -
    have "zstring (string_buf relation) = Some (map of_char relation)"
      using nm(1) by (auto simp: name_ok_def zstring_def string_buf_def takeWhile_append)
    then show thesis using strcpy_name [OF _ mem(1), of "string_buf relation"] nm(2) that by (auto simp: c_name_def)
  qed
  define rd' where "rd' = \<lparr>rd_relName = rn, rd_attrCnt = int (length as)\<rparr>"
  have rd': "RelDesc_ok rd'" "zstring (rd_relName rd') = Some (map of_char relation)" "rd_attrCnt rd' = int (length as)" using rn as(4) by (simp_all add: rd'_def RelDesc_ok_def)
  obtain rid w2 psr' nr' where a: "RelCatalog_addInfo w1 h rd' = Some (OK, w2)" "table w2 RELCATNAME psr' nr'" "nr' \<le> nr + 1"
     "rec_stored w1 RELCATNAME psr rid (RelDesc_bytes rd') psr' w2"
    using RelCatalog_addInfo_spec [OF inv1 g(2) resources_mono [OF s1(1), of 1] r(2) s1(2) rd'(1), of h] by auto
  have k2: "others_kept w1 RELCATNAME (opens w1 RELCATNAME) w2" "pins w2 = pins w1" "heap_recs (file_view w RELCATNAME) psr rid = None"
     "heap_recs (file_view w2 RELCATNAME) psr' = (heap_recs (file_view w RELCATNAME) psr)(rid \<mapsto> RelDesc_bytes rd')"
    using a(4) k1(2) by (simp_all add: rec_stored_def)
  have inv2: "db_inv w2" by (rule kept_inv [OF k2(1)])
  have s2: "resources w2 (Suc (Suc (length as))) N" "spare w2 3" "table w2 ATTRCATNAME psa na" "file_view w2 ATTRCATNAME = file_view w ATTRCATNAME"
    using resources_step [OF k2(1) s1(1)] kept_spare [OF k2(1) inv1 s1(2) k2(2)] table_other [OF k2(1) inv1 _ s1(3)] ne(2)
      kept_view [OF k1(1), of ATTRCATNAME] kept_view [OF k2(1), of ATTRCATNAME] by simp_all
  obtain w3 psa' na' ds rids j where c: "create_attrs w2 h ad 0 as = Some w3" "table w3 ATTRCATNAME psa' na'" "describes as 0 ds" "length rids = length as" "distinct rids"
     "set rids \<inter> dom (heap_recs (file_view w2 ATTRCATNAME) psa) = {}"
     "heap_recs (file_view w3 ATTRCATNAME) psa' = heap_recs (file_view w2 ATTRCATNAME) psa ++ map_of (zip rids (map AttrDesc_bytes ds))"
     "others_kept w2 ATTRCATNAME j w3" "j \<le> length as" "pins w3 = pins w2"
    using create_attrs_spec [OF inv2 s2(3) resources_mono [OF s2(1), of "length as"] r(3) s2(2) mem(2,3) as(2), of 0 h] as(3) by auto
  have inv3: "db_inv w3" by (rule kept_inv [OF c(8)])
  have "spare w3 3" by (rule kept_spare [OF c(8) inv2 s2(2) c(10)])
  then have s3: "resources w3 2 N" "spare w3 2" "table w3 RELCATNAME psr' nr'" "file_view w3 RELCATNAME = file_view w2 RELCATNAME"
    using resources_kept [OF c(8), of 2 N] resources_mono [OF s2(1), of "j + 2"] c(9) table_other [OF c(8) inv2 ne(2) a(2)]
      kept_view [OF c(8) ne(2)] by (simp_all add: spare_def)
  have d3: "disk w3 relation = None"
  proof -
    have "oft_map (openFiles w1) relation = None \<and> disk w1 relation = None" using k1(1) ne(3) oo new(2) unfolding others_kept_def by metis
    then have "oft_map (openFiles w2) relation = None \<and> disk w2 relation = None" using k2(1) ne(3) unfolding others_kept_def by metis
    then show ?thesis using c(8) ne(4) unfolding others_kept_def by metis
  qed
  obtain w' where e: "createHeapFile w3 relation = Some (OK, w')" "table w' relation [2] 3" "heap_recs (file_view w' relation) [2] = Map.empty" "others_kept w3 relation 2 w'"
    using table_create [OF inv3 ne(1) d3 name_ok_unix [OF nm(1)] s3(2,1) nrN(2)] by blast
  have run: "RelCatalog_createRel rd ad w s h relation (int (length as)) as = Some (OK, w')"
    using ne(1) as(1) nm(2) g(1) rn(1) a(1) c(1) e(1) string_of_c_str [OF nm(1)] by (simp add: RelCatalog_createRel_def rd'_def Suc_leI)
  have t': "table w' RELCATNAME psr' nr'" "table w' ATTRCATNAME psa' na'" using table_other [OF e(4) inv3] s3(3) c(2) ne(3,4) by metis+
  have v: "file_view w' m = file_view w3 m" if "m \<noteq> relation" for m using e(4) that unfolding others_kept_def by blast
  have v': "file_view w' m = file_view w m" if "m \<notin> {RELCATNAME, ATTRCATNAME, relation}" for m
    using v [of m] that k1(1) k2(1) c(8) unfolding others_kept_def by (metis insertCI)
  have recs: "heap_recs (file_view w' RELCATNAME) psr' = (heap_recs (file_view w RELCATNAME) psr)(rid \<mapsto> RelDesc_bytes rd')"
     "heap_recs (file_view w' ATTRCATNAME) psa' = heap_recs (file_view w ATTRCATNAME) psa ++ map_of (zip rids (map AttrDesc_bytes ds))"
     "set rids \<inter> dom (heap_recs (file_view w ATTRCATNAME) psa) = {}"
    using v [of RELCATNAME] v [of ATTRCATNAME] ne(3,4) s3(4) k2(4) c(6,7) s2(4) by simp_all
  show ?thesis using run kept_inv [OF e(4)] t' e(2,3) rd' k2(3) recs c(3-5) v' by blast
qed

section \<open>All attributes of a relation\<close>

lemma strcmp_named:
  "0 \<notin> set xs \<Longrightarrow> length xs < length b \<Longrightarrow> \<exists>d. strcmp b (xs @ [0]) = Some d \<and> (d = 0 \<longleftrightarrow> zstring b = Some xs)"
proof (induction xs arbitrary: b)
  case Nil
  then show ?case by (cases b) (auto simp: zstring_simps)
next
  case (Cons x xs)
  then obtain a b' where b: "b = a # b'" "length xs < length b'" by (cases b) auto
  then show ?case using Cons.IH [of b'] Cons.prems(1) by (auto simp: zstring_simps)
qed

lemma strcmp_relation:
  assumes "name_ok relation" "length relation < length b"
  shows "\<exists>d. strcmp b (string_buf relation) = Some d \<and> (d = 0 \<longleftrightarrow> named relation b)"
  using strcmp_named [of "map of_char relation" b] assms by (simp add: name_ok_def string_buf_def named_def)

text \<open>The loop fills the array from its end, one descriptor for each tuple of the relation.\<close>

lemma rel_info_loop_spec:
  assumes "scan_here w s ps (w1, s1) items" "\<forall>x \<in> set items. length (snd x) = 76" "name_ok relation" "length relation < 76"
    and "length (filter (\<lambda>x. named relation (snd x)) items) = k" "k \<le> length attrs"
  shows "\<exists>s2 w2 rid st. scanNext w1 s1 NULLRID = Some (st, rid, s2, w2) \<and>
     (\<exists>s' w' rest. rel_info_loop w2 s2 relation attrs (int k - 1) st =
       Some (None, rev (map (\<lambda>x. AttrDesc_of_bytes (snd x)) (filter (\<lambda>x. named relation (snd x)) items)) @ drop k attrs, w') \<and> scan_here w s ps (w', s') rest)"
  using assms
proof (induction items arbitrary: w1 s1 attrs k)
  case Nil
  then obtain s2 w2 rid where e: "scanNext w1 s1 NULLRID = Some (FILEEOF, rid, s2, w2)" "scan_here w s ps (w2, s2) []" using scan_raw_end by blast
  then show ?case using Nil.prems(5) by (auto simp: rel_info_loop.simps [of w2 s2])
next
  case (Cons x xs)
  let ?P = "\<lambda>x. named relation (snd x)" and ?D = "\<lambda>x :: item. AttrDesc_of_bytes (snd x)"
  obtain rid b where x: "x = (rid, b)" by (cases x)
  have b: "length b = 76" using Cons.prems(2) x by simp
  obtain s2 w2 ref where e: "scanNext w1 s1 NULLRID = Some (OK, rid, s2, w2)" "HeapFileScan_getRecord w2 s2 no_rec = Some (OK, ref)" "ref_length ref = int (length b)"
     "\<forall>k \<le> length b. rec_bytes w2 s2 ref (int k) = Some (take k b)" "scan_here w s ps (w2, s2) xs" using scan_raw_next Cons.prems(1) x by blast
  show ?case
  proof (cases "k = 0")
    case True
    then have "rel_info_loop w2 s2 relation attrs (int k - 1) OK = Some (None, attrs, w2)" by (simp add: rel_info_loop.simps [of w2 s2])
    moreover have "filter ?P (x # xs) = []" using True Cons.prems(5) by simp
    ultimately show ?thesis using e(1,5) True by (intro exI [of _ s2] exI [of _ w2] exI [of _ rid] exI [of _ OK] conjI) auto
  next
    case False
    obtain d where d: "strcmp b (string_buf relation) = Some d" "d = 0 \<longleftrightarrow> named relation b" using strcmp_relation [OF Cons.prems(3), of b] Cons.prems(4) b by auto
    obtain j where j: "k = Suc j" using False by (cases k) auto
    define attrs' where "attrs' = attrs[j := AttrDesc_of_bytes b]"
    define k' where "k' = (if named relation b then k - 1 else k)"
    have rb: "rec_bytes w2 s2 ref 76 = Some b" using e(4) [THEN spec, of 76] b by simp
    have ik: "int k' - 1 = (if d = 0 then int j - 1 else int j)" using d(2) by (simp add: k'_def j)
    have jl: "j < length attrs" using Cons.prems(6) j by simp
    have loop: "rel_info_loop w2 s2 relation attrs (int k - 1) OK =
        do { (scanNextReturned, rid, hfs, w) \<leftarrow> scanNext w2 s2 NULLRID; rel_info_loop w hfs relation attrs' (int k' - 1) scanNextReturned }"
      unfolding ik using e(2) rb d(1) by (subst rel_info_loop.simps) (simp add: attrs'_def Let_def j jl not_le [THEN iffD2, OF jl])
    have pre: "\<forall>x \<in> set xs. length (snd x) = 76" "length (filter ?P xs) = k'" "k' \<le> length attrs'"
      using Cons.prems(2,5,6) x by (auto simp: k'_def attrs'_def)
    obtain s3 w3 rid' st s' w' rest where i: "scanNext w2 s2 NULLRID = Some (st, rid', s3, w3)"
       "rel_info_loop w3 s3 relation attrs' (int k' - 1) st = Some (None, rev (map ?D (filter ?P xs)) @ drop k' attrs', w')" "scan_here w s ps (w', s') rest"
      using Cons.IH [OF e(5) pre(1) Cons.prems(3,4) pre(2,3)] by blast
    have dr: "rev (map ?D (filter ?P xs)) @ drop k' attrs' = rev (map ?D (filter ?P (x # xs))) @ drop k attrs"
    proof (cases "named relation b")
      case True
      have "drop j attrs' = AttrDesc_of_bytes b # drop k attrs" using jl by (simp add: attrs'_def j Cons_nth_drop_Suc [symmetric])
      then show ?thesis using True x by (simp add: k'_def j)
    next
      case False
      then show ?thesis using x by (simp add: k'_def attrs'_def j)
    qed
    have "rel_info_loop w2 s2 relation attrs (int k - 1) OK = Some (None, rev (map ?D (filter ?P (x # xs))) @ drop k attrs, w')"
      using loop i(1,2) unfolding dr by simp
    then show ?thesis using e(1) i(3) by blast
  qed
qed

text \<open>The tuples of a relation in the attribute catalog, in the order of a scan.\<close>

definition attr_tuples :: "'a db_state_scheme \<Rightarrow> int list \<Rightarrow> string \<Rightarrow> byte list list" where
  "attr_tuples w ps relation = filter (named relation) (map snd (heap_items (file_view w ATTRCATNAME) ps))"

lemma getRelInfo_spec:
  assumes inv: "db_inv w" and tr: "table w RELCATNAME psr nr" and ta: "table w ATTRCATNAME psa na" and nm: "name_ok relation" "length relation < MAXNAME"
    and len: "\<forall>b \<in> tuples w RELCATNAME psr. length b = 36" "\<forall>b \<in> tuples w ATTRCATNAME psa. length b = 76"
    and r: "resources w 2 N" "nr \<le> N" "na \<le> N" and sp: "spare w 3"
    and b: "first_tuple w RELCATNAME psr (named relation) = Some b" "rd_attrCnt (RelDesc_of_bytes b) = int (length (attr_tuples w psa relation))"
  shows "\<exists>w' p. AttrCatalog_getRelInfo rd ad w s relation n0 attrs0 =
       Some (OK, int (length (attr_tuples w psa relation)), rev (map AttrDesc_of_bytes (attr_tuples w psa relation)), w') \<and>
     p \<in> set psa \<and> table w' RELCATNAME psr nr \<and> table w' ATTRCATNAME psa na \<and> (\<exists>w1. left_open w RELCATNAME w1 \<and> left_at w1 ATTRCATNAME p w')"
proof -
  have ne: "relation \<noteq> []" "ATTRCATNAME \<noteq> RELCATNAME" using nm(1) by (auto simp: name_ok_def RELCATNAME_def ATTRCATNAME_def)
  have r1: "resources w 1 N" using resources_mono [OF r(1)] by simp
  have sp2: "spare w 2" "spare w (Suc 2)" using sp by (simp_all add: spare_def)
  obtain w1 where g: "RelCatalog_getInfo w s relation rd = Some (OK, RelDesc_of_bytes b, w1)" "left_open w RELCATNAME w1" "table w1 RELCATNAME psr nr"
    using RelCatalog_getInfo_spec [OF inv tr r1 r(2) sp2(1) nm(1) len(1), of s rd] b(1) by auto
  have k1: "others_kept w RELCATNAME (opens w RELCATNAME) w1" using g(2) unfolding left_open_def by blast
  have inv1: "db_inv w1" by (rule kept_inv [OF k1])
  have "resources w (Suc 1) N" using r(1) by (simp add: numeral_2_eq_2)
  then have s1: "resources w1 1 N" "spare w1 2" "table w1 ATTRCATNAME psa na" "file_view w1 ATTRCATNAME = file_view w ATTRCATNAME"
    using resources_step [OF k1] left_spare [OF g(2) inv sp2(2)] table_other [OF k1 inv ne(2) ta] kept_view [OF k1 ne(2)] by blast+
  define items where "items = heap_items (file_view w1 ATTRCATNAME) psa"
  have at: "attr_tuples w psa relation = map snd (filter (\<lambda>x. named relation (snd x)) items)"
    by (simp add: attr_tuples_def items_def s1(4) filter_map o_def)
  have fa: "filter_args 0 0 0 None" by (simp add: filter_args_def)
  obtain s1' w2 s2 where o: "HeapFileScan_new w1 s ATTRCATNAME = Some (OK, s1', w2)" "startScan s1' 0 0 0 None EQ = (OK, s2)" "client w1 ATTRCATNAME w2 s2 psa"
     "hf_curPage s2 \<noteq> None" "\<not> curDirtyFlag s2" "lpage w2 (filePtr s2) = file_view w1 ATTRCATNAME"
     "scan_here w2 s2 psa (w2, s2) items" "clean w2 (filePtr s2) 1" "end_page (lpage w2 (filePtr s2)) na"
    using table_scan_open [OF inv1 s1(3,1) r(3) s1(2) fa, of s EQ] by (auto simp: selects_def items_def)
  have it: "\<forall>x \<in> set items. length (snd x) = 76"
    using len(2) table_tuples [OF ta] by (auto simp: items_def s1(4))
  define k where "k = length (attr_tuples w psa relation)"
  have pre: "length (filter (\<lambda>x. named relation (snd x)) items) = k" "k \<le> length (replicate k ad)" "length relation < 76" using nm(2) by (simp_all add: k_def at)
  obtain s3 w3 rid st s' w' rest where l: "scanNext w2 s2 NULLRID = Some (st, rid, s3, w3)"
     "rel_info_loop w3 s3 relation (replicate k ad) (int k - 1) st =
       Some (None, rev (map (\<lambda>x. AttrDesc_of_bytes (snd x)) (filter (\<lambda>x. named relation (snd x)) items)), w')" "scan_here w2 s2 psa (w', s') rest"
    using rel_info_loop_spec [OF o(7) it nm(1) pre(3,1,2)] by auto
  have d: "rev (map (\<lambda>x. AttrDesc_of_bytes (snd x)) (filter (\<lambda>x. named relation (snd x)) items)) = rev (map AttrDesc_of_bytes (attr_tuples w psa relation))"
    by (simp add: at o_def)
  have "AttrCatalog_getRelInfo rd ad w s relation n0 attrs0 = Some (OK, int k, rev (map AttrDesc_of_bytes (attr_tuples w psa relation)), w')"
    using ne(1) g(1) b(2) o(1,2) l(1,2) unfolding d k_def [symmetric] by (simp add: AttrCatalog_getRelInfo_def)
  moreover obtain p where p: "p \<in> set psa" "left_at w1 ATTRCATNAME p w'" using scan_abandon [OF o(3) inv1 o(5,4,6) l(3)] by blast
  moreover have "table w' ATTRCATNAME psa na" by (rule scan_abandon_table [OF o(3) inv1 o(5,4,8,9) l(3)])
  moreover have "table w' RELCATNAME psr nr"
    by (rule table_other [OF _ inv1 _ g(3)]) (use p(2) ne(2) in \<open>auto simp: left_at_def\<close>)
  ultimately show ?thesis using g(2) unfolding k_def by blast
qed

end
