(* ===== verification/CatalogProps.thy ===== *)
theory CatalogProps
  imports SchemaCorrect
begin

text \<open>
  The properties of the catalogs, with a sample database on which they are instantiated: first the
  two empty catalogs, then the catalogs that describe a relation with one attribute.
\<close>

section \<open>A sample database\<close>

lemma empty_db_resources:
  assumes "0 < bufs" "k \<le> 100" "n \<le> 2 ^ 30"
  shows "resources (empty_db bufs) k n"
proof -
  have inj: "inj_on (\<lambda>i. newAddr (empty_db bufs) (newCnt (empty_db bufs) + i)) {..<k}"
  proof (rule inj_onI)
    fix i j assume ij: "i \<in> {..<k}" "j \<in> {..<k}" "newAddr (empty_db bufs) (newCnt (empty_db bufs) + i) = newAddr (empty_db bufs) (newCnt (empty_db bufs) + j)"
    have u: "uint (of_nat m :: ptr) = int m" if "m < 18446744073709551616" for m
      using that by (simp add: unsigned_of_nat take_bit_nat_eq_self)
    have b: "4096 + 64 * i < 18446744073709551616" "4096 + 64 * j < 18446744073709551616" using ij(1,2) assms(2) by simp_all
    have "(of_nat (4096 + 64 * i) :: ptr) = of_nat (4096 + 64 * j)" using ij(3) by (simp add: empty_db_sel)
    then have "int (4096 + 64 * i) = int (4096 + 64 * j)" using u [OF b(1)] u [OF b(2)] by metis
    then show "i = j" by simp
  qed
  have "oft_map (openFiles (empty_db bufs)) m = None" for m
    using empty_db_inv [OF assms(1)] db_inv_open_disk [of "empty_db bufs" m] by (cases "oft_map (openFiles (empty_db bufs)) m") auto
  then show ?thesis using inj empty_db_addresses [OF assms] by (simp add: resources_def)
qed

definition sample_cat :: db_state where
  "sample_cat = snd (the (createHeapFile (snd (the (createHeapFile (empty_db 8) RELCATNAME))) ATTRCATNAME))"

lemma sample_cat_facts:
  "db_inv sample_cat" "table sample_cat RELCATNAME [2] 3" "table sample_cat ATTRCATNAME [2] 3" "heap_recs (file_view sample_cat RELCATNAME) [2] = Map.empty"
  "heap_recs (file_view sample_cat ATTRCATNAME) [2] = Map.empty" "resources sample_cat 60 1000" "spare sample_cat 8" "disk sample_cat ''emp'' = None"
proof -
  let ?w = "empty_db 8"
  have e: "db_inv ?w" "\<And>n. disk ?w n = None" using empty_db_inv [of 8] by simp_all
  have ne: "RELCATNAME \<noteq> []" "ATTRCATNAME \<noteq> []" "RELCATNAME \<noteq> ATTRCATNAME" "''emp'' \<noteq> RELCATNAME" "''emp'' \<noteq> ATTRCATNAME" by (simp_all add: RELCATNAME_def ATTRCATNAME_def)
  have sp: "spare ?w 8" "spare ?w 2" using empty_db_sel [of 8] by (simp_all add: spare_def)
  have rs: "resources ?w 64 1000" "resources ?w 2 1000" using empty_db_resources [of 8] by simp_all
  have oo: "oft_map (openFiles w) n = None" if "db_inv w" "disk w n = None" for w :: db_state and n
    using db_inv_open_disk [OF that(1), of n] that(2) by (cases "oft_map (openFiles w) n") auto
  obtain w1 where c1: "createHeapFile ?w RELCATNAME = Some (OK, w1)" "table w1 RELCATNAME [2] 3" "heap_recs (file_view w1 RELCATNAME) [2] = Map.empty"
     "others_kept ?w RELCATNAME 2 w1" "pins w1 = pins ?w" using table_create [OF e(1) ne(1) e(2) _ sp(2) rs(2)] by auto
  have inv1: "db_inv w1" by (rule kept_inv [OF c1(4)])
  have d1: "disk w1 n = None" if "n \<noteq> RELCATNAME" for n using c1(4) that oo [OF e] e(2) unfolding others_kept_def by metis
  have s1: "spare w1 8" "spare w1 2" using kept_spare [OF c1(4) e(1) sp(1) c1(5)] by (simp_all add: spare_def)
  have r1: "resources w1 62 1000" "resources w1 2 1000" using resources_kept [OF c1(4), of 62 1000] rs(1) resources_mono [of w1 62 1000 2] by simp_all
  obtain w2 where c2: "createHeapFile w1 ATTRCATNAME = Some (OK, w2)" "table w2 ATTRCATNAME [2] 3" "heap_recs (file_view w2 ATTRCATNAME) [2] = Map.empty"
     "others_kept w1 ATTRCATNAME 2 w2" "pins w2 = pins w1" using table_create [OF inv1 ne(2) d1 _ s1(2) r1(2)] ne(3) by auto
  have inv2: "db_inv w2" by (rule kept_inv [OF c2(4)])
  have w2: "sample_cat = w2" using c1(1) c2(1) by (simp add: sample_cat_def)
  have "disk w2 ''emp'' = None" using c2(4) ne(4,5) oo [OF inv1] d1 [of "''emp''"] unfolding others_kept_def by metis
  moreover have "resources w2 60 1000" using resources_kept [OF c2(4), of 60 1000] r1(1) by simp
  moreover have "heap_recs (file_view w2 RELCATNAME) [2] = Map.empty" using kept_view [OF c2(4) ne(3)] c1(3) by simp
  ultimately show "db_inv sample_cat" "table sample_cat RELCATNAME [2] 3" "table sample_cat ATTRCATNAME [2] 3" "heap_recs (file_view sample_cat RELCATNAME) [2] = Map.empty"
    "heap_recs (file_view sample_cat ATTRCATNAME) [2] = Map.empty" "resources sample_cat 60 1000" "spare sample_cat 8" "disk sample_cat ''emp'' = None"
    using inv2 table_other [OF c2(4) inv1 ne(3) c1(2)] c2(2,3) kept_spare [OF c2(4) inv1 s1(1) c2(5)] unfolding w2 by simp_all
qed

text \<open>A relation with one attribute.\<close>

definition name32 :: "string \<Rightarrow> byte list" where
  "name32 s = map of_char s @ replicate (MAXNAME - length s) 0"

definition emp_rd :: RelDesc where
  "emp_rd = \<lparr>rd_relName = name32 ''emp'', rd_attrCnt = 1\<rparr>"

definition emp_ad :: AttrDesc where
  "emp_ad = \<lparr>ad_relName = name32 ''emp'', ad_attrName = name32 ''id'', ad_attrOffset = 0, ad_attrType = 1, ad_attrLen = 4\<rparr>"

lemma emp_name: "name_ok ''emp''"
  by (simp add: name_ok_def)

lemma emp_ok: "RelDesc_ok emp_rd" "AttrDesc_ok emp_ad" "zstring (rd_relName emp_rd) = Some (map of_char ''emp'')"
  "zstring (ad_relName emp_ad) = Some (map of_char ''emp'')" "zstring (ad_attrName emp_ad) = Some (map of_char ''id'')"
  by code_simp+

lemma zstring_zero: "zstring b = Some cs \<Longrightarrow> 0 \<in> set b"
  by (simp add: zstring_def split: if_splits)

lemma named_RelDesc: "zstring (rd_relName rd) = Some (map of_char relation) \<Longrightarrow> named relation (RelDesc_bytes rd)"
  using zstring_append [OF zstring_zero] by (simp add: named_def RelDesc_bytes_def)

lemma named_AttrDesc:
  assumes "AttrDesc_ok ad" "zstring (ad_relName ad) = Some (map of_char relation)" "zstring (ad_attrName ad) = Some cs"
  shows "named relation (AttrDesc_bytes ad)" "zstring (drop 32 (AttrDesc_bytes ad)) = Some cs" "attr_tuple (AttrDesc_bytes ad)"
  using zstring_append [OF zstring_zero [OF assms(2)]] zstring_append [OF zstring_zero [OF assms(3)]] zstring_zero [OF assms(3)] assms
  by (simp_all add: named_def AttrDesc_bytes_def attr_tuple_def AttrDesc_ok_def)

definition sample_emp :: db_state where
  "sample_emp = snd (the (AttrCatalog_addInfo (snd (the (RelCatalog_addInfo sample_cat new_object emp_rd))) new_object emp_ad))"

lemma sample_emp_facts:
  obtains psr nr psa na where "db_inv sample_emp" "table sample_emp RELCATNAME psr nr" "table sample_emp ATTRCATNAME psa na" "nr \<le> 4" "na \<le> 4"
    "tuples sample_emp RELCATNAME psr = {RelDesc_bytes emp_rd}" "map snd (heap_items (file_view sample_emp ATTRCATNAME) psa) = [AttrDesc_bytes emp_ad]"
    "resources sample_emp 50 1000" "spare sample_emp 8"
proof -
  note f = sample_cat_facts
  have ne: "ATTRCATNAME \<noteq> RELCATNAME" by (simp add: RELCATNAME_def ATTRCATNAME_def)
  have sp: "spare sample_cat 3" using f(7) by (simp add: spare_def)
  obtain rid w1 psr nr where a: "RelCatalog_addInfo sample_cat new_object emp_rd = Some (OK, w1)" "table w1 RELCATNAME psr nr" "nr \<le> 4" "rec_stored sample_cat RELCATNAME [2] rid (RelDesc_bytes emp_rd) psr w1"
    using RelCatalog_addInfo_spec [OF f(1,2) resources_mono [OF f(6), of 1] _ sp emp_ok(1), of new_object] by auto
  have k1: "others_kept sample_cat RELCATNAME (opens sample_cat RELCATNAME) w1" "pins w1 = pins sample_cat" "heap_recs (file_view w1 RELCATNAME) psr = [rid \<mapsto> RelDesc_bytes emp_rd]"
    using a(4) f(4) by (simp_all add: rec_stored_def)
  have inv1: "db_inv w1" by (rule kept_inv [OF k1(1)])
  have s1: "spare w1 8" "spare w1 3" "table w1 ATTRCATNAME [2] 3" "heap_recs (file_view w1 ATTRCATNAME) [2] = Map.empty" "resources w1 55 1000" "resources w1 1 1000"
    using kept_spare [OF k1(1) f(1,7) k1(2)] table_other [OF k1(1) f(1) ne f(3)] kept_view [OF k1(1) ne] f(5) resources_step [OF k1(1) resources_mono [OF f(6)], of 55]
      resources_step [OF k1(1) resources_mono [OF f(6)], of 1] by (simp_all add: spare_def)
  obtain rid' w2 psa na where b: "AttrCatalog_addInfo w1 new_object emp_ad = Some (OK, w2)" "table w2 ATTRCATNAME psa na" "na \<le> 4" "rec_stored w1 ATTRCATNAME [2] rid' (AttrDesc_bytes emp_ad) psa w2"
    using AttrCatalog_addInfo_spec [OF inv1 s1(3,6) _ s1(2) emp_ok(2), of new_object] by auto
  have k2: "others_kept w1 ATTRCATNAME (opens w1 ATTRCATNAME) w2" "pins w2 = pins w1" "heap_recs (file_view w2 ATTRCATNAME) psa = [rid' \<mapsto> AttrDesc_bytes emp_ad]"
    using b(4) s1(4) by (simp_all add: rec_stored_def)
  have w2: "sample_emp = w2" using a(1) b(1) by (simp add: sample_emp_def)
  have ch: "chain (file_view w2 ATTRCATNAME) psa" "distinct psa" using b(2) by (simp_all add: table_def stored_heap_def heap_at_def)
  note it = heap_items_map [OF ch]
  have "x \<in> set (heap_items (file_view w2 ATTRCATNAME) psa) \<longleftrightarrow> x = (rid', AttrDesc_bytes emp_ad)" for x
    using map_of_eq_Some_iff [OF it(2), of "fst x" "snd x"] it(1) k2(3) by (cases x) (auto split: if_splits)
  then have "set (heap_items (file_view w2 ATTRCATNAME) psa) = {(rid', AttrDesc_bytes emp_ad)}" by blast
  moreover have "distinct (heap_items (file_view w2 ATTRCATNAME) psa)" using it(2) by (simp add: distinct_map)
  ultimately have items: "heap_items (file_view w2 ATTRCATNAME) psa = [(rid', AttrDesc_bytes emp_ad)]"
    by (cases "heap_items (file_view w2 ATTRCATNAME) psa"; cases "tl (heap_items (file_view w2 ATTRCATNAME) psa)") auto
  have "tuples w2 RELCATNAME psr = {RelDesc_bytes emp_rd}" using k1(3) kept_view [OF k2(1), of RELCATNAME] ne by (simp add: tuples_def)
  then show thesis
    using that [of psr nr psa na] kept_inv [OF k2(1)] table_other [OF k2(1) inv1 _ a(2)] ne b(2,3) a(3) items
      resources_step [OF k2(1) resources_mono [OF s1(5)], of 50] kept_spare [OF k2(1) inv1 s1(1) k2(2)] unfolding w2 by simp
qed

section \<open>Properties\<close>

text \<open>
  (C3) \<open>createRel\<close> of a new relation: on any database with well-formed catalogs, whether or not they
  are open, it returns \<open>OK\<close>; the relation catalog has one new tuple with the name and the number
  of attributes, the attribute catalog one new tuple for each attribute with the offsets summed up
  from zero, the heap file of the relation exists and is empty, and no other file has changed.
\<close>

theorem create_relation_correct:
  assumes "db_inv w" "table w RELCATNAME psr nr" "table w ATTRCATNAME psa na" "\<forall>b \<in> tuples w RELCATNAME psr. length b = 36"
    and "name_ok relation" "length relation < MAXNAME" "\<forall>b \<in> tuples w RELCATNAME psr. \<not> named relation b" "disk w relation = None"
    and "length (rd_relName rd) = MAXNAME" "length (ad_relName ad) = MAXNAME" "length (ad_attrName ad) = MAXNAME"
    and "as \<noteq> []" "\<forall>a \<in> set as. attrInfo_ok a" "(\<Sum>a\<leftarrow>as. ai_attrLen a) < 2147483648" "int_ok (int (length as))"
    and "resources w (length as + 4) N" "nr + 1 \<le> N" "na + int (length as) \<le> N" "spare w 4"
  shows "\<exists>w' psr' nr' psa' na' rid rids rd' ds. RelCatalog_createRel rd ad w s h relation (int (length as)) as = Some (OK, w') \<and> db_inv w' \<and>
     table w' RELCATNAME psr' nr' \<and> table w' ATTRCATNAME psa' na' \<and> table w' relation [2] 3 \<and> heap_recs (file_view w' relation) [2] = Map.empty \<and>
     RelDesc_ok rd' \<and> zstring (rd_relName rd') = Some (map of_char relation) \<and> rd_attrCnt rd' = int (length as) \<and>
     heap_recs (file_view w RELCATNAME) psr rid = None \<and> heap_recs (file_view w' RELCATNAME) psr' = (heap_recs (file_view w RELCATNAME) psr)(rid \<mapsto> RelDesc_bytes rd') \<and>
     describes as 0 ds \<and> length rids = length as \<and> distinct rids \<and> set rids \<inter> dom (heap_recs (file_view w ATTRCATNAME) psa) = {} \<and>
     heap_recs (file_view w' ATTRCATNAME) psa' = heap_recs (file_view w ATTRCATNAME) psa ++ map_of (zip rids (map AttrDesc_bytes ds)) \<and>
     (\<forall>m. m \<notin> {RELCATNAME, ATTRCATNAME, relation} \<longrightarrow> file_view w' m = file_view w m)"
  by (rule createRel_spec) (fact assms)+

definition emp_attrs :: "attrInfo list" where
  "emp_attrs = [\<lparr>ai_relName = name32 ''emp'', ai_attrName = name32 ''id'', ai_attrType = 1, ai_attrLen = 4, ai_attrValue = NULL\<rparr>,
     \<lparr>ai_relName = name32 ''emp'', ai_attrName = name32 ''name'', ai_attrType = 0, ai_attrLen = 20, ai_attrValue = NULL\<rparr>]"

lemma emp_attrs_ok: "\<forall>a \<in> set emp_attrs. attrInfo_ok a" "(\<Sum>a\<leftarrow>emp_attrs. ai_attrLen a) < 2147483648" "emp_attrs \<noteq> []" "length emp_attrs = 2"
  by code_simp+

theorem create_relation_correct_witness:
  "\<exists>w' ds. RelCatalog_createRel emp_rd emp_ad sample_cat new_scan new_object ''emp'' 2 emp_attrs = Some (OK, w') \<and> db_inv w' \<and> table w' ''emp'' [2] 3 \<and>
     describes emp_attrs 0 ds"
proof -
  note f = sample_cat_facts
  have t: "\<forall>b \<in> tuples sample_cat RELCATNAME [2]. length b = 36" "\<forall>b \<in> tuples sample_cat RELCATNAME [2]. \<not> named ''emp'' b" using f(4) by (simp_all add: tuples_def)
  have m: "length (rd_relName emp_rd) = MAXNAME" "length (ad_relName emp_ad) = MAXNAME" "length (ad_attrName emp_ad) = MAXNAME"
    by (simp_all add: emp_rd_def emp_ad_def name32_def)
  have l: "length ''emp'' < MAXNAME" "int_ok (int (length emp_attrs))" "3 + int (length emp_attrs) \<le> 1000" "3 + 1 \<le> (1000 :: int)" using emp_attrs_ok(4) by (simp_all add: int_ok_def)
  have r: "resources sample_cat (length emp_attrs + 4) 1000" "spare sample_cat 4" using resources_mono [OF f(6)] f(7) emp_attrs_ok(4) by (simp_all add: spare_def)
  show ?thesis
    using create_relation_correct [OF f(1-3) t(1) emp_name l(1) t(2) f(8) m emp_attrs_ok(3,1,2) l(2) r(1) l(4,3) r(2), of new_scan new_object] emp_attrs_ok(4) by auto
qed

text \<open>
  (C9) \<open>RelCatalog::getInfo\<close> finds a relation exactly if the catalog has a tuple with that name, and
  returns the first one; the catalog is not changed, but the scan is only freed, so that the
  file stays open once more and its header page pinned once more than before the call.
\<close>

theorem relcat_get_correct:
  assumes "db_inv w" "table w RELCATNAME ps n" "resources w 1 N" "n \<le> N" "spare w 2" "name_ok relation" "\<forall>b \<in> tuples w RELCATNAME ps. length b = 36"
  shows "\<exists>w'. RelCatalog_getInfo w s relation rd =
       Some (case first_tuple w RELCATNAME ps (named relation) of None \<Rightarrow> (RELNOTFOUND, rd, w') | Some b \<Rightarrow> (OK, RelDesc_of_bytes b, w')) \<and>
     (first_tuple w RELCATNAME ps (named relation) = None \<longleftrightarrow> (\<forall>b \<in> tuples w RELCATNAME ps. \<not> named relation b)) \<and>
     table w' RELCATNAME ps n \<and> file_view w' = file_view w \<and> oft_map (openFiles w') RELCATNAME = Some (handle w RELCATNAME) \<and>
     open_count w' (handle w RELCATNAME) = open_count w (handle w RELCATNAME) + 1 \<and> pins w' (handle w RELCATNAME) 1 = pins w (handle w RELCATNAME) 1 + 1"
proof -
  obtain w' where g: "RelCatalog_getInfo w s relation rd =
       Some (case first_tuple w RELCATNAME ps (named relation) of None \<Rightarrow> (RELNOTFOUND, rd, w') | Some b \<Rightarrow> (OK, RelDesc_of_bytes b, w'))"
     "table w' RELCATNAME ps n" "left_open w RELCATNAME w'" using RelCatalog_getInfo_spec [OF assms, of s rd] by blast
  have "file_view w' m = file_view w m" for m using g(3) kept_view [of w RELCATNAME _ w' m] by (cases "m = RELCATNAME") (auto simp: left_open_def)
  then have "file_view w' = file_view w" by (rule ext)
  moreover have "first_tuple w RELCATNAME ps (named relation) = None \<longleftrightarrow> (\<forall>b \<in> tuples w RELCATNAME ps. \<not> named relation b)"
    using first_tuple_cases [OF assms(2), of "named relation"] by (auto split: option.splits)
  ultimately show ?thesis using g by (intro exI [of _ w']) (auto simp: left_open_def)
qed

theorem relcat_get_correct_witness:
  "\<exists>w'. RelCatalog_getInfo sample_emp new_scan ''emp'' \<lparr>rd_relName = [], rd_attrCnt = 0\<rparr> = Some (OK, emp_rd, w') \<and>
     open_count w' (handle sample_emp RELCATNAME) = open_count sample_emp (handle sample_emp RELCATNAME) + 1"
proof -
  obtain psr nr psa na where f: "db_inv sample_emp" "table sample_emp RELCATNAME psr nr" "table sample_emp ATTRCATNAME psa na" "nr \<le> 4" "na \<le> 4"
    "tuples sample_emp RELCATNAME psr = {RelDesc_bytes emp_rd}" "map snd (heap_items (file_view sample_emp ATTRCATNAME) psa) = [AttrDesc_bytes emp_ad]"
    "resources sample_emp 50 1000" "spare sample_emp 8" by (rule sample_emp_facts)
  have "first_tuple sample_emp RELCATNAME psr (named ''emp'') = Some (RelDesc_bytes emp_rd)"
    using first_tuple_cases [OF f(2), of "named ''emp''"] f(6) named_RelDesc [OF emp_ok(3)] by (auto split: option.splits)
  moreover have "resources sample_emp 1 1000" "spare sample_emp 2" "nr \<le> 1000" "\<forall>b \<in> tuples sample_emp RELCATNAME psr. length b = 36"
    using resources_mono [OF f(8)] f(4,6,9) RelDesc_bytes_length [OF emp_ok(1)] by (simp_all add: spare_def)
  ultimately show ?thesis
    using relcat_get_correct [OF f(1,2) _ _ _ emp_name, of 1000 new_scan "\<lparr>rd_relName = [], rd_attrCnt = 0\<rparr>"] RelDesc_roundtrip [OF emp_ok(1)] by auto
qed

text \<open>
  What \<open>RelCatalog::addInfo\<close> stores, \<open>getInfo\<close> gives back: after adding a descriptor under a name
  that the catalog does not have, looking the name up returns \<open>OK\<close> and the same descriptor.
\<close>

theorem relcat_add_get:
  assumes "db_inv w" "table w RELCATNAME ps n" "resources w 2 N" "n + 1 \<le> N" "spare w 3" "name_ok relation" "\<forall>b \<in> tuples w RELCATNAME ps. length b = 36"
    and "RelDesc_ok rd" "zstring (rd_relName rd) = Some (map of_char relation)" "\<forall>b \<in> tuples w RELCATNAME ps. \<not> named relation b"
  shows "\<exists>w1 w2. RelCatalog_addInfo w h rd = Some (OK, w1) \<and> RelCatalog_getInfo w1 s relation rd0 = Some (OK, rd, w2) \<and>
     (\<exists>ps' n'. table w2 RELCATNAME ps' n' \<and> tuples w2 RELCATNAME ps' = insert (RelDesc_bytes rd) (tuples w RELCATNAME ps))"
proof -
  obtain rid w1 ps' n' where a: "RelCatalog_addInfo w h rd = Some (OK, w1)" "table w1 RELCATNAME ps' n'" "n' \<le> n + 1" "rec_stored w RELCATNAME ps rid (RelDesc_bytes rd) ps' w1"
    using RelCatalog_addInfo_spec [OF assms(1,2) resources_mono [OF assms(3)] assms(4,5,8), of h] by auto
  have k: "others_kept w RELCATNAME (opens w RELCATNAME) w1" "pins w1 = pins w" "heap_recs (file_view w RELCATNAME) ps rid = None"
     "heap_recs (file_view w1 RELCATNAME) ps' = (heap_recs (file_view w RELCATNAME) ps)(rid \<mapsto> RelDesc_bytes rd)" using a(4) by (simp_all add: rec_stored_def)
  have tu: "tuples w1 RELCATNAME ps' = insert (RelDesc_bytes rd) (tuples w RELCATNAME ps)" using k(3,4) by (simp add: tuples_def)
  have s1: "resources w1 1 N" "spare w1 2" "n' \<le> N" "\<forall>b \<in> tuples w1 RELCATNAME ps'. length b = 36"
    using resources_step [OF k(1), of 1 N] assms(3,4,7) a(3) kept_spare [OF k(1) assms(1,5) k(2)] tu RelDesc_bytes_length [OF assms(8)]
    by (auto simp: spare_def numeral_2_eq_2)
  obtain w2 where g: "RelCatalog_getInfo w1 s relation rd0 =
       Some (case first_tuple w1 RELCATNAME ps' (named relation) of None \<Rightarrow> (RELNOTFOUND, rd0, w2) | Some b \<Rightarrow> (OK, RelDesc_of_bytes b, w2))"
     "table w2 RELCATNAME ps' n'" "left_open w1 RELCATNAME w2" using RelCatalog_getInfo_spec [OF kept_inv [OF k(1)] a(2) s1(1,3,2) assms(6) s1(4), of s rd0] by blast
  have "first_tuple w1 RELCATNAME ps' (named relation) = Some (RelDesc_bytes rd)"
    using first_tuple_cases [OF a(2), of "named relation"] tu assms(10) named_RelDesc [OF assms(9)] by (auto split: option.splits)
  moreover have "tuples w2 RELCATNAME ps' = tuples w1 RELCATNAME ps'" using g(3) by (simp add: tuples_def left_open_def)
  ultimately show ?thesis using a(1) g RelDesc_roundtrip [OF assms(8)] tu by auto
qed

theorem relcat_add_get_witness:
  "\<exists>w1 w2. RelCatalog_addInfo sample_cat new_object emp_rd = Some (OK, w1) \<and> RelCatalog_getInfo w1 new_scan ''emp'' \<lparr>rd_relName = [], rd_attrCnt = 0\<rparr> = Some (OK, emp_rd, w2)"
proof -
  note f = sample_cat_facts
  have t: "tuples sample_cat RELCATNAME [2] = {}" using f(4) by (simp add: tuples_def)
  have "resources sample_cat 2 1000" "spare sample_cat 3" using resources_mono [OF f(6)] f(7) by (simp_all add: spare_def)
  then show ?thesis
    using relcat_add_get [OF f(1,2) _ _ _ emp_name _ emp_ok(1,3), of 1000 new_object new_scan "\<lparr>rd_relName = [], rd_attrCnt = 0\<rparr>"] t by auto
qed

text \<open>The sample database has what the properties below ask for.\<close>

lemma sample_emp_ready:
  obtains psr nr psa na where "db_inv sample_emp" "table sample_emp RELCATNAME psr nr" "table sample_emp ATTRCATNAME psa na"
    "first_tuple sample_emp RELCATNAME psr (named ''emp'') = Some (RelDesc_bytes emp_rd)" "attr_tuples sample_emp psa ''emp'' = [AttrDesc_bytes emp_ad]"
    "tuples sample_emp ATTRCATNAME psa = {AttrDesc_bytes emp_ad}"
    "\<forall>b \<in> tuples sample_emp RELCATNAME psr. length b = 36" "\<forall>b \<in> tuples sample_emp ATTRCATNAME psa. length b = 76"
    "resources sample_emp 2 1000" "resources sample_emp 1 1000" "nr \<le> 1000" "na \<le> 1000" "spare sample_emp 3" "spare sample_emp 2"
proof -
  obtain psr nr psa na where f: "db_inv sample_emp" "table sample_emp RELCATNAME psr nr" "table sample_emp ATTRCATNAME psa na" "nr \<le> 4" "na \<le> 4"
    "tuples sample_emp RELCATNAME psr = {RelDesc_bytes emp_rd}" "map snd (heap_items (file_view sample_emp ATTRCATNAME) psa) = [AttrDesc_bytes emp_ad]"
    "resources sample_emp 50 1000" "spare sample_emp 8" by (rule sample_emp_facts)
  have t: "tuples sample_emp ATTRCATNAME psa = {AttrDesc_bytes emp_ad}" using table_tuples [OF f(3)] f(7) by (simp add: set_map [symmetric] del: set_map)
  have at: "attr_tuples sample_emp psa ''emp'' = [AttrDesc_bytes emp_ad]" using f(7) named_AttrDesc(1) [OF emp_ok(2,4,5)] by (simp add: attr_tuples_def)
  have ft: "first_tuple sample_emp RELCATNAME psr (named ''emp'') = Some (RelDesc_bytes emp_rd)"
    using first_tuple_cases [OF f(2), of "named ''emp''"] f(6) named_RelDesc [OF emp_ok(3)] by (auto split: option.splits)
  show thesis
    by (rule that [OF f(1-3) ft at t]) (use resources_mono [OF f(8)] f(4,5,6,9) t RelDesc_bytes_length [OF emp_ok(1)] AttrDesc_bytes_length [OF emp_ok(2)] in \<open>simp_all add: spare_def\<close>)
qed

text \<open>
  (C20) \<open>AttrCatalog::getInfo\<close> returns the first tuple with the given relation and attribute names, if
  the catalog has one, and \<open>ATTRNOTFOUND\<close> exactly if it has none. In the second case it
  does not end the scan: one data page of the catalog stays pinned besides the header page.
\<close>

theorem attrcat_get_correct:
  assumes "db_inv w" "table w ATTRCATNAME ps n" "resources w 1 N" "n \<le> N" "spare w 2" "name_ok relation" "attrName \<noteq> []"
    and "\<forall>b \<in> tuples w ATTRCATNAME ps. attr_tuple b"
  shows "\<exists>st ad' w'. AttrCatalog_getInfo w s relation attrName ad = Some (st, ad', w') \<and> file_view w' = file_view w \<and>
     (if \<exists>b \<in> tuples w ATTRCATNAME ps. attr_named relation attrName b
      then st = OK \<and> Some ad' = map_option AttrDesc_of_bytes (first_tuple w ATTRCATNAME ps (attr_named relation attrName)) \<and> left_open w ATTRCATNAME w'
      else st = ATTRNOTFOUND \<and> (\<exists>p \<in> set ps. left_at w ATTRCATNAME p w'))"
proof -
  obtain st ad' w' where g: "AttrCatalog_getInfo w s relation attrName ad = Some (st, ad', w')"
     "case first_tuple w ATTRCATNAME ps (attr_named relation attrName) of
        None \<Rightarrow> st = ATTRNOTFOUND \<and> (\<exists>p \<in> set ps. left_at w ATTRCATNAME p w')
      | Some b \<Rightarrow> st = OK \<and> ad' = AttrDesc_of_bytes b \<and> table w' ATTRCATNAME ps n \<and> left_open w ATTRCATNAME w'"
    using AttrCatalog_getInfo_spec [OF assms, of s ad] by blast
  note ft = first_tuple_cases [OF assms(2), of "attr_named relation attrName"]
  have "others_kept w ATTRCATNAME (opens w ATTRCATNAME) w'" "file_view w' ATTRCATNAME = file_view w ATTRCATNAME"
    using g(2) by (auto simp: left_open_def left_at_def split: option.splits)
  then have "file_view w' m = file_view w m" for m using kept_view [of w ATTRCATNAME _ w' m] by (cases "m = ATTRCATNAME") auto
  then have "file_view w' = file_view w" by (rule ext)
  then show ?thesis using g ft by (auto split: option.splits)
qed

theorem attrcat_get_correct_witness:
  "(\<exists>w'. AttrCatalog_getInfo sample_emp new_scan ''emp'' ''id'' emp_ad = Some (OK, emp_ad, w')) \<and>
   (\<exists>ad' w'. AttrCatalog_getInfo sample_emp new_scan ''emp'' ''age'' emp_ad = Some (ATTRNOTFOUND, ad', w') \<and> (\<exists>p. left_at sample_emp ATTRCATNAME p w'))"
proof -
  obtain psr nr psa na where f: "db_inv sample_emp" "table sample_emp RELCATNAME psr nr" "table sample_emp ATTRCATNAME psa na"
    "first_tuple sample_emp RELCATNAME psr (named ''emp'') = Some (RelDesc_bytes emp_rd)" "attr_tuples sample_emp psa ''emp'' = [AttrDesc_bytes emp_ad]"
    "tuples sample_emp ATTRCATNAME psa = {AttrDesc_bytes emp_ad}"
    "\<forall>b \<in> tuples sample_emp RELCATNAME psr. length b = 36" "\<forall>b \<in> tuples sample_emp ATTRCATNAME psa. length b = 76"
    "resources sample_emp 2 1000" "resources sample_emp 1 1000" "nr \<le> 1000" "na \<le> 1000" "spare sample_emp 3" "spare sample_emp 2" by (rule sample_emp_ready)
  note nd = named_AttrDesc [OF emp_ok(2,4,5)]
  have an: "attr_named ''emp'' ''id'' (AttrDesc_bytes emp_ad)" "\<not> attr_named ''emp'' ''age'' (AttrDesc_bytes emp_ad)" using nd by (simp_all add: attr_named_def)
  have ft: "first_tuple sample_emp ATTRCATNAME psa (attr_named ''emp'' ''id'') = Some (AttrDesc_bytes emp_ad)"
    using first_tuple_cases [OF f(3), of "attr_named ''emp'' ''id''"] f(6) an(1) by (auto split: option.splits)
  have "\<forall>b \<in> tuples sample_emp ATTRCATNAME psa. attr_tuple b" using f(6) nd(3) by simp
  note get = attrcat_get_correct [OF f(1,3,10,12,14) emp_name _ this]
  show ?thesis using get [of "''id''" new_scan emp_ad] get [of "''age''" new_scan emp_ad] f(6) an ft AttrDesc_roundtrip [OF emp_ok(2)] by auto
qed

text \<open>
  (C37) \<open>AttrCatalog::removeInfo\<close> of an attribute that is not the first one of its relation never
  returns: its loop tests the tuple the scan stands on again and again without moving the scan.
\<close>

theorem attrcat_remove_diverges:
  assumes "db_inv w" "table w ATTRCATNAME ps n" "resources w 1 N" "n \<le> N" "spare w 2" "name_ok relation" "attrName \<noteq> []"
    and "first_tuple w ATTRCATNAME ps (named relation) = Some b" "attr_tuple b" "zstring (drop 32 b) \<noteq> Some (map of_char attrName)"
  shows "AttrCatalog_removeInfo w s rc relation attrName = None"
proof -
  have ne: "relation \<noteq> []" using assms(6) by (simp add: name_ok_def)
  have lb: "length b = 76" using assms(9) by (simp add: attr_tuple_def)
  define items where "items = filter (\<lambda>x. named relation (snd x)) (heap_items (file_view w ATTRCATNAME) ps)"
  obtain rid xs where items: "items = (rid, b) # xs"
    using assms(8) unfolding first_tuple_def find_filter items_def [symmetric] by (auto split: list.splits)
  obtain s1 w1 s2 where o: "HeapFileScan_new w s ATTRCATNAME = Some (OK, s1, w1)"
     "startScan s1 0 (swrap 4 (int (length relation) + 1)) 0 (Some (string_buf relation)) EQ = (OK, s2)" "scan_here w1 s2 ps (w1, s2) items"
    using table_scan_open [OF assms(1-5) name_filter(1) [OF assms(6)], of s EQ] unfolding name_filter(2) [OF assms(6)] items_def by blast
  obtain s3 w2 ref where e: "scanNext w1 s2 NULLRID = Some (OK, rid, s3, w2)" "HeapFileScan_getRecord w2 s3 no_rec = Some (OK, ref)" "ref_length ref = int (length b)"
     "\<forall>k \<le> length b. rec_bytes w2 s3 ref (int k) = Some (take k b)" using scan_raw_next o(3) items by blast
  have "attr_remove_loop w2 s3 attrName rc OK = None"
    by (rule attr_remove_loop_stuck [OF e(2) _ lb]) (use e(3,4) attrName_is_tuple [OF assms(9)] assms(10) in simp_all)
  then show ?thesis using ne assms(7) o(1,2) e(1) by (simp add: AttrCatalog_removeInfo_def)
qed

theorem attrcat_remove_diverges_witness: "AttrCatalog_removeInfo sample_emp new_scan emp_ad ''emp'' ''age'' = None"
proof -
  obtain psr nr psa na where f: "db_inv sample_emp" "table sample_emp RELCATNAME psr nr" "table sample_emp ATTRCATNAME psa na"
    "first_tuple sample_emp RELCATNAME psr (named ''emp'') = Some (RelDesc_bytes emp_rd)" "attr_tuples sample_emp psa ''emp'' = [AttrDesc_bytes emp_ad]"
    "tuples sample_emp ATTRCATNAME psa = {AttrDesc_bytes emp_ad}"
    "\<forall>b \<in> tuples sample_emp RELCATNAME psr. length b = 36" "\<forall>b \<in> tuples sample_emp ATTRCATNAME psa. length b = 76"
    "resources sample_emp 2 1000" "resources sample_emp 1 1000" "nr \<le> 1000" "na \<le> 1000" "spare sample_emp 3" "spare sample_emp 2" by (rule sample_emp_ready)
  note nd = named_AttrDesc [OF emp_ok(2,4,5)]
  have "first_tuple sample_emp ATTRCATNAME psa (named ''emp'') = Some (AttrDesc_bytes emp_ad)"
    using first_tuple_cases [OF f(3), of "named ''emp''"] f(6) nd(1) by (auto split: option.splits)
  then show ?thesis using attrcat_remove_diverges [OF f(1,3,10,12,14) emp_name] nd(2,3) by simp
qed

text \<open>
  (C10) \<open>AttrCatalog::getRelInfo\<close> of a relation whose tuple has the right number of attributes: the array
  has one descriptor for each tuple of the relation in the attribute catalog, in the reverse of the
  order of a scan, and no file has changed; both catalogs stay open once more.
\<close>

theorem attrcat_relinfo_correct:
  assumes "db_inv w" "table w RELCATNAME psr nr" "table w ATTRCATNAME psa na" "name_ok relation" "length relation < MAXNAME"
    and "\<forall>b \<in> tuples w RELCATNAME psr. length b = 36" "\<forall>b \<in> tuples w ATTRCATNAME psa. length b = 76"
    and "resources w 2 N" "nr \<le> N" "na \<le> N" "spare w 3"
    and "first_tuple w RELCATNAME psr (named relation) = Some b" "rd_attrCnt (RelDesc_of_bytes b) = int (length (attr_tuples w psa relation))"
  shows "\<exists>w'. AttrCatalog_getRelInfo rd ad w s relation n0 attrs0 =
       Some (OK, int (length (attr_tuples w psa relation)), rev (map AttrDesc_of_bytes (attr_tuples w psa relation)), w') \<and> file_view w' = file_view w"
proof -
  obtain w' p w1 where g: "AttrCatalog_getRelInfo rd ad w s relation n0 attrs0 =
       Some (OK, int (length (attr_tuples w psa relation)), rev (map AttrDesc_of_bytes (attr_tuples w psa relation)), w')"
     "left_open w RELCATNAME w1" "left_at w1 ATTRCATNAME p w'" using getRelInfo_spec [OF assms, of rd ad s n0 attrs0] by blast
  have "file_view w1 m = file_view w m" for m using g(2) kept_view [of w RELCATNAME _ w1 m] by (cases "m = RELCATNAME") (auto simp: left_open_def)
  moreover have "file_view w' m = file_view w1 m" for m using g(3) kept_view [of w1 ATTRCATNAME _ w' m] by (cases "m = ATTRCATNAME") (auto simp: left_at_def)
  ultimately have "file_view w' = file_view w" by (simp add: fun_eq_iff)
  then show ?thesis using g(1) by blast
qed

theorem attrcat_relinfo_correct_witness:
  "\<exists>w'. AttrCatalog_getRelInfo emp_rd emp_ad sample_emp new_scan ''emp'' 0 [] = Some (OK, 1, [emp_ad], w')"
proof -
  obtain psr nr psa na where f: "db_inv sample_emp" "table sample_emp RELCATNAME psr nr" "table sample_emp ATTRCATNAME psa na"
    "first_tuple sample_emp RELCATNAME psr (named ''emp'') = Some (RelDesc_bytes emp_rd)" "attr_tuples sample_emp psa ''emp'' = [AttrDesc_bytes emp_ad]"
    "tuples sample_emp ATTRCATNAME psa = {AttrDesc_bytes emp_ad}"
    "\<forall>b \<in> tuples sample_emp RELCATNAME psr. length b = 36" "\<forall>b \<in> tuples sample_emp ATTRCATNAME psa. length b = 76"
    "resources sample_emp 2 1000" "resources sample_emp 1 1000" "nr \<le> 1000" "na \<le> 1000" "spare sample_emp 3" "spare sample_emp 2" by (rule sample_emp_ready)
  have "rd_attrCnt (RelDesc_of_bytes (RelDesc_bytes emp_rd)) = int (length (attr_tuples sample_emp psa ''emp''))"
    unfolding f(5) RelDesc_roundtrip [OF emp_ok(1)] by (simp add: emp_rd_def)
  then show ?thesis
    using attrcat_relinfo_correct [OF f(1-3) emp_name _ f(7-9,11-13,4), of emp_rd emp_ad new_scan 0 "[]"] f(5) AttrDesc_roundtrip [OF emp_ok(2)] by auto
qed

end
