(* ===== verification/HeapJoint.thy ===== *)
theory HeapJoint
  imports SchemaCorrect
begin

text \<open>
  Several objects at work on different heap files at the same time, as in a join: what work on some
  files leaves of the others (\<open>work\<close>), objects that stay usable meanwhile (\<open>live_obj\<close>, \<open>scanning\<close>, \<open>adding\<close>),
  and the count of the pins and opens they have (\<open>owes\<close>).
\<close>

section \<open>Work on a set of files\<close>

definition work :: "'a db_state_scheme \<Rightarrow> string set \<Rightarrow> nat \<Rightarrow> 'a db_state_scheme \<Rightarrow> bool" where
  "work w N j w' \<longleftrightarrow> db_inv w' \<and> frames w' = frames w \<and> bht_valid (hashTable w') = bht_valid (hashTable w) \<and>
     newAddr w' = newAddr w \<and> newCnt w' = newCnt w + j \<and>
     (\<forall>m. m \<notin> N \<longrightarrow> oft_map (openFiles w') m = oft_map (openFiles w) m \<and> file_view w' m = file_view w m \<and> file_used w' m = file_used w m \<and>
        (oft_map (openFiles w) m = None \<longrightarrow> disk w' m = disk w m)) \<and>
     (\<forall>m f q. m \<notin> N \<longrightarrow> oft_map (openFiles w) m = Some f \<longrightarrow> q \<in> used_pages f w \<longrightarrow> clean w f q \<longrightarrow> clean w' f q) \<and>
     (\<forall>g. files w' g \<noteq> None \<longrightarrow> files w g \<noteq> None \<or> g \<in> (\<lambda>i. newAddr w (newCnt w + i)) ` {..<j}) \<and>
     (\<forall>m f. oft_map (openFiles w') m = Some f \<longrightarrow> oft_map (openFiles w) m = Some f \<or> f \<in> (\<lambda>i. newAddr w (newCnt w + i)) ` {..<j}) \<and>
     (\<forall>m f q i. m \<notin> N \<longrightarrow> oft_map (openFiles w) m = Some f \<longrightarrow> holds w f q i \<longrightarrow> holds w' f q i)"

lemma workD:
  assumes "work w N j w'"
  shows "db_inv w'" "frames w' = frames w" "bht_valid (hashTable w') = bht_valid (hashTable w)" "newAddr w' = newAddr w" "newCnt w' = newCnt w + j"
    "m \<notin> N \<Longrightarrow> oft_map (openFiles w') m = oft_map (openFiles w) m" "m \<notin> N \<Longrightarrow> file_view w' m = file_view w m"
    "m \<notin> N \<Longrightarrow> file_used w' m = file_used w m" "m \<notin> N \<Longrightarrow> oft_map (openFiles w) m = None \<Longrightarrow> disk w' m = disk w m"
    "m \<notin> N \<Longrightarrow> oft_map (openFiles w) m = Some f \<Longrightarrow> q \<in> used_pages f w \<Longrightarrow> clean w f q \<Longrightarrow> clean w' f q"
    "files w' g \<noteq> None \<Longrightarrow> files w g \<noteq> None \<or> g \<in> (\<lambda>i. newAddr w (newCnt w + i)) ` {..<j}"
    "oft_map (openFiles w') m = Some f \<Longrightarrow> oft_map (openFiles w) m = Some f \<or> f \<in> (\<lambda>i. newAddr w (newCnt w + i)) ` {..<j}"
    "m \<notin> N \<Longrightarrow> oft_map (openFiles w) m = Some f \<Longrightarrow> holds w f q i \<Longrightarrow> holds w' f q i"
  using assms unfolding work_def by blast+

lemma work_refl: "db_inv w \<Longrightarrow> work w N 0 w"
  by (simp add: work_def)

lemma kept_work:
  assumes "others_kept w nm j w'"
  shows "work w {nm} j w'"
proof -
  have o: "oft_map (openFiles w) m = Some f \<or> f \<in> (\<lambda>i. newAddr w (newCnt w + i)) ` {..<j}" if "oft_map (openFiles w') m = Some f" for m f
    using assms that unfolding others_kept_def by (cases "m = nm") simp_all
  show ?thesis using assms o unfolding others_kept_def work_def by simp
qed

lemma work_mono: "work w N j w' \<Longrightarrow> N \<subseteq> M \<Longrightarrow> work w M j w'"
  unfolding work_def by (elim conjE, intro conjI) (assumption | blast)+

lemma work_trans:
  assumes inv: "db_inv w" and a: "work w N i w1" and b: "work w1 N j w2"
  shows "work w N (i + j) w2"
proof -
  note a' = workD [OF a] and b' = workD [OF b]
  have new: "g \<in> (\<lambda>l. newAddr w (newCnt w + l)) ` {..<i + j}" if "g \<in> (\<lambda>l. newAddr w (newCnt w + l)) ` {..<i} \<or> g \<in> (\<lambda>l. newAddr w1 (newCnt w1 + l)) ` {..<j}" for g
  proof -
    have "newAddr w1 (newCnt w1 + l) = newAddr w (newCnt w + (i + l))" for l using a'(4,5) by (simp add: add.assoc)
    then show ?thesis using that by (auto intro: image_eqI [where x = "i + _"])
  qed
  have cl: "clean w2 f q" if m: "m \<notin> N" "oft_map (openFiles w) m = Some f" "q \<in> used_pages f w" "clean w f q" for m f q
  proof -
    have o1: "oft_map (openFiles w1) m = Some f" "file_used w1 m = file_used w m" using a'(6,8) m(1,2) by simp_all
    have "q \<in> used_pages f w1" using m(3) open_used [OF inv m(2)] open_used [OF a'(1) o1(1)] o1(2) by simp
    then show ?thesis using b'(10) [OF m(1) o1(1)] a'(10) [OF m] by blast
  qed
  show ?thesis unfolding work_def
  proof (intro conjI allI impI)
    show "clean w2 f q" if "m \<notin> N" "oft_map (openFiles w) m = Some f" "q \<in> used_pages f w" "clean w f q" for m f q by (rule cl [OF that])
    show "files w g \<noteq> None \<or> g \<in> (\<lambda>l. newAddr w (newCnt w + l)) ` {..<i + j}" if "files w2 g \<noteq> None" for g using b'(11) [OF that] a'(11) [of g] new by blast
    show "oft_map (openFiles w) m = Some f \<or> f \<in> (\<lambda>l. newAddr w (newCnt w + l)) ` {..<i + j}" if "oft_map (openFiles w2) m = Some f" for m f
      using b'(12) [OF that] a'(12) [of m f] new by blast
    show "holds w2 f q l" if "m \<notin> N" "oft_map (openFiles w) m = Some f" "holds w f q l" for m f q l
      using b'(13) [OF that(1)] a'(6) [OF that(1)] a'(13) [OF that] that(2) by simp
  qed (use a'(2-9) b'(1-9) in simp_all)
qed

lemma work_table:
  assumes k: "work w N j w'" and inv: "db_inv w" and m: "m \<notin> N" and t: "table w m ps n"
  shows "table w' m ps n"
proof -
  note k' = workD [OF k]
  have h: "set (1 # ps) \<subseteq> file_used w m" "\<forall>f p. oft_map (openFiles w) m = Some f \<longrightarrow> p \<in> set (1 # ps) \<longrightarrow> clean w f p"
    using t unfolding table_def stored_heap_def heap_at_def by blast+
  have "clean w' f p" if "oft_map (openFiles w) m = Some f" "p \<in> set (1 # ps)" for f p
    using k'(10) [OF m that(1)] h that open_used [OF inv that(1)] by blast
  then show ?thesis using t k'(6-8) [OF m] unfolding table_def stored_heap_def by auto
qed

lemma work_resources:
  assumes k: "work w N j w'" and r: "resources w (j + k) n"
  shows "resources w' k n"
proof -
  note s = workD [OF k]
  have r': "n < 2 ^ 31" "inj_on (\<lambda>i. newAddr w (newCnt w + i)) {..<j + k}"
     "\<And>m f p. oft_map (openFiles w) m = Some f \<Longrightarrow> 1 \<le> p \<Longrightarrow> p < n \<Longrightarrow> bht_valid (hashTable w) (f, p)"
     "\<And>i. i < j + k \<Longrightarrow> newAddr w (newCnt w + i) \<noteq> NULL \<and> files w (newAddr w (newCnt w + i)) = None"
     "\<And>i p. i < j + k \<Longrightarrow> 1 \<le> p \<Longrightarrow> p < n \<Longrightarrow> bht_valid (hashTable w) (newAddr w (newCnt w + i), p)"
    using r by (auto simp: resources_def addresses_def Let_def)
  have eq: "newAddr w' (newCnt w' + i) = newAddr w (newCnt w + (j + i))" for i using s(4,5) by (simp add: add.assoc)
  have fr: "files w' (newAddr w (newCnt w + (j + i))) = None" if i: "i < k" for i
  proof (rule ccontr)
    assume "files w' (newAddr w (newCnt w + (j + i))) \<noteq> None"
    then have "newAddr w (newCnt w + (j + i)) \<in> (\<lambda>i. newAddr w (newCnt w + i)) ` {..<j}" using s(11) [of "newAddr w (newCnt w + (j + i))"] r'(4) [of "j + i"] i by simp
    then obtain l where "l < j" "newAddr w (newCnt w + (j + i)) = newAddr w (newCnt w + l)" by auto
    then show False using inj_onD [OF r'(2), of "j + i" l] i by auto
  qed
  have "inj_on (\<lambda>i. newAddr w' (newCnt w' + i)) {..<k}"
    unfolding eq using r'(2) by (auto simp: inj_on_def) (metis add_left_cancel lessThan_iff nat_add_left_cancel_less)
  moreover have "bht_valid (hashTable w') (f, p)" if "oft_map (openFiles w') m = Some f" "1 \<le> p" "p < n" for m f p
    using s(12) [OF that(1)] that(2,3) s(3) r'(3,5) by auto
  ultimately show ?thesis using fr r'(1,4,5) s(3) unfolding resources_def addresses_def Let_def eq by auto
qed

section \<open>Live objects\<close>

definition live_obj :: "'a db_state_scheme \<Rightarrow> string \<Rightarrow> 'h HeapFile_scheme \<Rightarrow> int list \<Rightarrow> bool" where
  "live_obj w nm h ps \<longleftrightarrow> hf_open w h ps \<and> headerPageNo h = 1 \<and> nm \<noteq> [] \<and> oft_map (openFiles w) nm = Some (filePtr h)"

lemma hf_open_pages:
  assumes op: "hf_open w h ps" and ok: "pool_ok w'" and v: "lpage w' (filePtr h) = lpage w (filePtr h)"
    and u: "used_pages (filePtr h) w' = used_pages (filePtr h) w" and b: "bht_valid (hashTable w') = bht_valid (hashTable w)"
    and c: "\<And>q. q \<in> used_pages (filePtr h) w \<Longrightarrow> clean w (filePtr h) q \<Longrightarrow> clean w' (filePtr h) q"
    and hd: "\<And>q i. holds w (filePtr h) q i \<Longrightarrow> holds w' (filePtr h) q i"
  shows "hf_open w' h ps"
proof -
  note od = hf_openD [OF op]
  have us: "q \<in> used_pages (filePtr h) w" if "q \<in> set (headerPageNo h # ps)" for q using od(5) that by (auto simp: buf_legal_def)
  have "buf_legal w' (filePtr h, q) = buf_legal w (filePtr h, q)" for q using u b by (simp add: buf_legal_def)
  then have "heap_file w' (filePtr h) (headerPageNo h) ps" using op v by (simp add: hf_open_def heap_file_def)
  then show ?thesis using op ok hd c us by (auto simp: hf_open_def)
qed

lemma live_work:
  assumes l: "live_obj w nm h ps" and inv: "db_inv w" and k: "work w N j w'" and m: "nm \<notin> N"
  shows "live_obj w' nm h ps" "lpage w' (filePtr h) = lpage w (filePtr h)" "used_pages (filePtr h) w' = used_pages (filePtr h) w"
proof -
  have lv: "hf_open w h ps" "headerPageNo h = 1" "nm \<noteq> []" "oft_map (openFiles w) nm = Some (filePtr h)" using l by (simp_all add: live_obj_def)
  note k' = workD [OF k]
  have o: "oft_map (openFiles w') nm = Some (filePtr h)" using k'(6) [OF m] lv(4) by simp
  show v: "lpage w' (filePtr h) = lpage w (filePtr h)" using k'(7) [OF m] o lv(4) by (simp add: file_view_def)
  show u: "used_pages (filePtr h) w' = used_pages (filePtr h) w" using k'(8) [OF m] open_used [OF inv lv(4)] open_used [OF k'(1) o] by simp
  have "hf_open w' h ps"
    by (rule hf_open_pages [OF lv(1) db_inv_pool [OF k'(1)] v u k'(3)]) (use k'(10,13) [OF m lv(4)] in blast)+
  then show "live_obj w' nm h ps" using lv o by (simp add: live_obj_def)
qed

text \<open>A step on an open file that keeps the table of open files.\<close>

lemma work_step:
  assumes inv: "db_inv w1" and f: "oft_map (openFiles w1) nm = Some f0" and inv2: "db_inv w2"
    and s: "frames w2 = frames w1" "bht_valid (hashTable w2) = bht_valid (hashTable w1)" "newAddr w2 = newAddr w1" "newCnt w2 = newCnt w1"
    and o: "\<And>m. m \<noteq> nm \<Longrightarrow> oft_map (openFiles w2) m = oft_map (openFiles w1) m"
      "\<And>f. oft_map (openFiles w2) nm = Some f \<Longrightarrow> f = f0" "\<And>g. files w2 g \<noteq> None \<Longrightarrow> files w1 g \<noteq> None"
    and v: "\<And>g. g \<noteq> f0 \<Longrightarrow> lpage w2 g = lpage w1 g" "\<And>g. g \<noteq> f0 \<Longrightarrow> used_pages g w2 = used_pages g w1"
      "\<And>g q. g \<noteq> f0 \<Longrightarrow> q \<in> used_pages g w1 \<Longrightarrow> clean w1 g q \<Longrightarrow> clean w2 g q"
    and d: "\<And>m. oft_map (openFiles w1) m = None \<Longrightarrow> disk w2 m = disk w1 m" and hk: "\<And>g q i. g \<noteq> f0 \<Longrightarrow> holds w1 g q i \<Longrightarrow> holds w2 g q i"
  shows "work w1 {nm} 0 w2"
proof -
  have ne: "g \<noteq> f0" if "m \<noteq> nm" "oft_map (openFiles w1) m = Some g" for m g using open_inj [OF inv f] that by blast
  have q: "oft_map (openFiles w2) m = oft_map (openFiles w1) m \<and> file_view w2 m = file_view w1 m \<and> file_used w2 m = file_used w1 m" if m: "m \<noteq> nm" for m
  proof (cases "oft_map (openFiles w1) m")
    case None
    then show ?thesis using o(1) [OF m] d [OF None] by (simp add: file_view_def file_used_def name_page_def fun_eq_iff)
  next
    case (Some g)
    then have g: "oft_map (openFiles w2) m = Some g" "g \<noteq> f0" using o(1) [OF m] ne [OF m] by simp_all
    then show ?thesis using Some v(1,2) [OF g(2)] open_used [OF inv Some] open_used [OF inv2 g(1)] by (simp add: file_view_def)
  qed
  have op: "oft_map (openFiles w1) m = Some g" if "oft_map (openFiles w2) m = Some g" for m g
    using that o(2) [of g] q [of m] f by (cases "m = nm") simp_all
  show ?thesis unfolding work_def
  proof (intro conjI allI impI)
    show "clean w2 g p" if "m \<notin> {nm}" "oft_map (openFiles w1) m = Some g" "p \<in> used_pages g w1" "clean w1 g p" for m g p
      using v(3) [OF ne [of m g]] that by simp
    show "holds w2 g p i" if "m \<notin> {nm}" "oft_map (openFiles w1) m = Some g" "holds w1 g p i" for m g p i using hk [OF ne [of m g]] that by simp
    show "files w1 g \<noteq> None \<or> g \<in> (\<lambda>i. newAddr w1 (newCnt w1 + i)) ` {..<0}" if "files w2 g \<noteq> None" for g using o(3) [OF that] by blast
    show "oft_map (openFiles w1) m = Some g \<or> g \<in> (\<lambda>i. newAddr w1 (newCnt w1 + i)) ` {..<0}" if "oft_map (openFiles w2) m = Some g" for m g using op [OF that] by blast
  qed (use inv2 s q d in simp_all)
qed

lemma live_step:
  assumes l: "live_obj w nm h ps" and inv: "db_inv w" and op: "hf_open w2 h2 ps2" and h: "filePtr h2 = filePtr h" "headerPageNo h2 = headerPageNo h" and e: "env_same w w2"
    and v: "\<And>g. g \<noteq> filePtr h \<Longrightarrow> lpage w2 g = lpage w g" "\<And>g. g \<noteq> filePtr h \<Longrightarrow> used_pages g w2 = used_pages g w"
      "\<And>g q. g \<noteq> filePtr h \<Longrightarrow> q \<in> used_pages g w \<Longrightarrow> clean w g q \<Longrightarrow> clean w2 g q" "\<And>g q i. g \<noteq> filePtr h \<Longrightarrow> holds w g q i \<Longrightarrow> holds w2 g q i"
  shows "work w {nm} 0 w2" "live_obj w2 nm h2 ps2" "open_count w2 = open_count w"
proof -
  have lv: "oft_map (openFiles w) nm = Some (filePtr h)" using l by (simp add: live_obj_def)
  note ed = env_same_db [OF e]
  have b: "bht_valid (hashTable w2) = bht_valid (hashTable w)" "frames w2 = frames w" using e by (simp_all add: env_same_def)
  have inv2: "db_inv w2" by (rule db_inv_env [OF inv hf_openD(1) [OF op] e])
  show "work w {nm} 0 w2"
    by (rule work_step [OF inv lv inv2 b(2,1)]) (use ed v env_same_disk [OF inv e] lv in auto)
  show "live_obj w2 nm h2 ps2" using l op h ed by (simp add: live_obj_def)
  show "open_count w2 = open_count w" using ed by (simp add: open_count_def fun_eq_iff)
qed

section \<open>The record under an object\<close>

definition rec_is :: "'a buf_state_scheme \<Rightarrow> 'h HeapFile_scheme \<Rightarrow> recref \<Rightarrow> byte list \<Rightarrow> bool" where
  "rec_is w s ref b \<longleftrightarrow> (\<exists>p. frame_at w (hf_curPage s) = Some p \<and> 0 \<le> ref_offset ref \<and> ref_length ref = int (length b) \<and>
     ref_offset ref + int (length b) \<le> PAGESIZE \<and> read_bytes p (nat (ref_offset ref)) (length b) = b)"

lemma rec_is_bytes:
  assumes "rec_is w s ref b" "0 \<le> i" "0 \<le> n" "i + n \<le> int (length b)"
  shows "rec_bytes w s (ref\<lparr>ref_offset := ref_offset ref + i\<rparr>) n = Some (take (nat n) (drop (nat i) b))"
proof -
  obtain p where p: "frame_at w (hf_curPage s) = Some p" "0 \<le> ref_offset ref" "ref_offset ref + int (length b) \<le> PAGESIZE" "read_bytes p (nat (ref_offset ref)) (length b) = b"
    using assms(1) by (auto simp: rec_is_def)
  have "take (nat n) (drop (nat i) (read_bytes p (nat (ref_offset ref)) (length b))) = read_bytes p (nat (ref_offset ref) + nat i) (nat n)"
    by (rule take_drop_read_bytes) (use assms(2-4) in simp)
  then show ?thesis using p assms(2-4) by (simp add: rec_bytes_def nat_add_distrib)
qed

lemma rec_is_rest:
  assumes "rec_is w s ref b" "0 \<le> i" "i \<le> int (length b)"
  shows "\<exists>flt. rec_rest w s (ref\<lparr>ref_offset := ref_offset ref + i\<rparr>) = Some flt \<and> length b - nat i \<le> length flt \<and> take (length b - nat i) flt = drop (nat i) b"
proof -
  obtain p where p: "frame_at w (hf_curPage s) = Some p" "0 \<le> ref_offset ref" "ref_offset ref + int (length b) \<le> PAGESIZE" "read_bytes p (nat (ref_offset ref)) (length b) = b"
    using assms(1) by (auto simp: rec_is_def)
  let ?m = "nat (PAGESIZE - (ref_offset ref + i))" and ?a = "nat (ref_offset ref) + nat i"
  have "rec_rest w s (ref\<lparr>ref_offset := ref_offset ref + i\<rparr>) = Some (read_bytes p ?a ?m)"
    using p(1-3) assms(2,3) by (simp add: rec_rest_def rec_bytes_def nat_add_distrib)
  moreover have le: "length b - nat i \<le> ?m" using p(2,3) assms(2,3) by simp
  moreover have "take (length b - nat i) (read_bytes p ?a ?m) = drop (nat i) b"
  proof -
    have "take (length b - nat i) (drop (nat i) (read_bytes p (nat (ref_offset ref)) (length b))) = read_bytes p ?a (length b - nat i)"
      by (rule take_drop_read_bytes) (use assms(2,3) in simp)
    moreover have "take (length b - nat i) (drop 0 (read_bytes p ?a ?m)) = read_bytes p (?a + 0) (length b - nat i)"
      by (rule take_drop_read_bytes) (use le in simp)
    ultimately show ?thesis using p(4) by simp
  qed
  ultimately show ?thesis by simp
qed

lemma rec_is_work:
  assumes l: "live_obj w nm s ps" "hf_curPage s \<noteq> None" and inv: "db_inv w" and k: "work w N j w'" "nm \<notin> N" and r: "rec_is w s ref b"
  shows "rec_is w' s ref b"
proof -
  obtain p where p: "frame_at w (hf_curPage s) = Some p" "0 \<le> ref_offset ref" "ref_length ref = int (length b)" "ref_offset ref + int (length b) \<le> PAGESIZE" "read_bytes p (nat (ref_offset ref)) (length b) = b"
    using r by (auto simp: rec_is_def)
  have op: "hf_open w s ps" "oft_map (openFiles w) nm = Some (filePtr s)" using l(1) by (simp_all add: live_obj_def)
  obtain pg where h: "frame_at w (hf_curPage s) = Some pg" "lpage w (filePtr s) (curPageNo s) = Some (page_img pg)" "holds w (filePtr s) (curPageNo s) (hf_curPage s)" by (rule hf_open_current [OF op(1) l(2)])
  have "holds w' (filePtr s) (curPageNo s) (hf_curPage s)" by (rule workD(13) [OF k op(2) h(3)])
  then obtain pg' where h': "frame_at w' (hf_curPage s) = Some pg'" "lpage w' (filePtr s) (curPageNo s) = Some (page_img pg')"
    using holds_frame_at [OF db_inv_pool [OF workD(1) [OF k(1)]]] by blast
  have e: "page_img pg' = page_img p" using h h'(2) p(1) live_work(2) [OF l(1) inv k] by simp
  have "pg' x = p x" if "x < 1024" for x
  proof -
    have "page_img pg' x = page_img p x" by (rule fun_cong [OF e])
    then show ?thesis using that unfolding page_img_def by simp
  qed
  then have "read_bytes pg' (nat (ref_offset ref)) (length b) = read_bytes p (nat (ref_offset ref)) (length b)"
    using p(2,4) by (intro nth_equalityI) auto
  then show ?thesis using h'(1) p unfolding rec_is_def by auto
qed

section \<open>Pins and opens\<close>

text \<open>The pins and opens in \<open>w\<close> that are not in \<open>w0\<close>.\<close>

definition owes :: "'a db_state_scheme \<Rightarrow> 'a db_state_scheme \<Rightarrow> (ptr \<Rightarrow> int \<Rightarrow> int) \<Rightarrow> (ptr \<Rightarrow> int) \<Rightarrow> bool" where
  "owes w0 w P C \<longleftrightarrow> (\<forall>g q. pins w g q = pins w0 g q + P g q) \<and> (\<forall>g. open_count w g = open_count w0 g + C g)"

definition its_pins :: "'h HeapFile_scheme \<Rightarrow> ptr \<Rightarrow> int \<Rightarrow> int" where
  "its_pins h g q = (if g = filePtr h then own_pins h q else 0)"

definition its_open :: "'h HeapFile_scheme \<Rightarrow> ptr \<Rightarrow> int" where
  "its_open h g = (if g = filePtr h then 1 else 0)"

lemma owes_trans: "owes w0 w P C \<Longrightarrow> owes w w' P' C' \<Longrightarrow> owes w0 w' (\<lambda>g q. P g q + P' g q) (\<lambda>g. C g + C' g)"
  by (simp add: owes_def)

text \<open>Pages that are pinned only by a few objects leave the other frames free.\<close>

lemma owes_spare:
  assumes o: "owes w0 w P C" and ok: "pool_ok w0" and fr: "frames w = frames w0" and K: "finite K" "\<And>g q. (g, q) \<notin> K \<Longrightarrow> P g q \<le> 0" and sp: "spare w0 (card K + n)"
  shows "spare w n"
proof -
  have fin: "finite (pinned_pages w0)" using card_pinned_pages [of w0] ok by (simp add: pool_ok_def)
  have "k \<in> pinned_pages w0 \<union> K" if "k \<in> pinned_pages w" for k
  proof (cases "k \<in> K")
    case False
    then have "P (fst k) (snd k) \<le> 0" using K(2) [of "fst k" "snd k"] by simp
    moreover have "pins w (fst k) (snd k) = pins w0 (fst k) (snd k) + P (fst k) (snd k)" using o unfolding owes_def by blast
    ultimately show ?thesis using that by (simp add: pinned_pages_def)
  qed simp
  then have "pinned_pages w \<subseteq> pinned_pages w0 \<union> K" by blast
  then have "card (pinned_pages w) \<le> card (pinned_pages w0 \<union> K)" using fin K(1) by (intro card_mono) simp_all
  also have "\<dots> \<le> card (pinned_pages w0) + card K" by (rule card_Un_le)
  finally show ?thesis using sp fr by (simp add: spare_def)
qed

text \<open>The pages an object has pinned.\<close>

definition its_pages :: "'h HeapFile_scheme \<Rightarrow> (ptr \<times> int) set" where
  "its_pages h = {(filePtr h, headerPageNo h), (filePtr h, curPageNo h)}"

lemma its_pages_facts: "finite (its_pages h)" "card (its_pages h) \<le> 2" "(g, q) \<notin> its_pages h \<Longrightarrow> its_pins h g q = 0"
  by (auto simp: its_pages_def its_pins_def own_pins_def card_insert_if)

section \<open>A scan\<close>

lemma scan_rebase:
  assumes "scan_here w s ps (w', s') items"
  shows "scan_here w' s' ps (w', s') items"
proof -
  obtain p qs where a: "filter_ok s'" "scan_moved w s w' s'" "scan_at w' s' p qs" "set (p # qs) \<subseteq> set ps"
     "items = map (item_at (lpage w (filePtr s))) (filter (wanted w s) (to_come w' s' p qs))" using assms by (auto simp: scan_here_def)
  have "pool_ok w'" using a(3) by (simp add: scan_at_def)
  then have "scan_moved w' s' w' s'" using scan_moved_refl [of w' s' "curRec s'"] by simp
  moreover have "lpage w' (filePtr s') = lpage w (filePtr s)" using view_sameD(2) [OF scan_moved_view [OF a(2)]] scan_moved_sel(1) [OF a(2)] by simp
  ultimately show ?thesis using a wanted_moved [OF a(2)] unfolding scan_here_def fst_conv snd_conv by auto
qed

lemma scan_here_open_clean:
  assumes op: "hf_open w s ps" "\<forall>q \<in> set ps. clean w (filePtr s) q" "hf_curPage s \<noteq> None" and h: "scan_here w s ps (w', s') rids"
  shows "hf_open w' s' ps" "hf_curPage s' \<noteq> None" "\<forall>q \<in> set ps. clean w' (filePtr s') q"
proof -
  note od = hf_openD [OF op(1)]
  obtain p qs where a: "scan_moved w s w' s'" "scan_at w' s' p qs" "set (p # qs) \<subseteq> set ps" using h by (auto simp: scan_here_def)
  note sel = scan_moved_sel [OF a(1)]
  note v = view_sameD [OF scan_moved_view [OF a(1)]]
  have at: "holds w' (filePtr s) p (hf_curPage s')" "curPageNo s' = p" using a(2) sel(1) by (simp_all add: scan_at_def)
  have us: "q \<in> used_pages (filePtr s) w" if "q \<in> set (headerPageNo s # ps)" for q using od(5) that by (auto simp: buf_legal_def)
  show cl: "\<forall>q \<in> set ps. clean w' (filePtr s') q" using v(6) us op(2) sel(1) by auto
  have "hdrDirtyFlag s \<or> clean w' (filePtr s) (headerPageNo s)" using v(6) us [of "headerPageNo s"] op(1) by (auto simp: hf_open_def)
  moreover have "holds w' (filePtr s) (headerPageNo s) (headerPage s)"
  proof -
    have "headerPageNo s \<noteq> curPageNo s" using od(4) op(1,3) by (auto simp: hf_open_def)
    then show ?thesis using a(1) od(6) unfolding scan_moved_def by (metis prod.inject)
  qed
  moreover have "heap_file w' (filePtr s) (headerPageNo s) ps"
    using op(1) v(2) view_same_legal [OF scan_moved_view [OF a(1)]] by (simp add: hf_open_def heap_file_def)
  moreover show "hf_curPage s' \<noteq> None" using at(1) by (auto simp: holds_def)
  ultimately show "hf_open w' s' ps" using at a(3) v(1) cl by (auto simp: hf_open_def sel)
qed

definition scanning :: "'a db_state_scheme \<Rightarrow> string \<Rightarrow> HeapFileScan \<Rightarrow> int list \<Rightarrow> item list \<Rightarrow> bool" where
  "scanning w nm s ps items \<longleftrightarrow> live_obj w nm s ps \<and> hf_curPage s \<noteq> None \<and> (\<forall>q \<in> set ps. clean w (filePtr s) q) \<and> scan_here w s ps (w, s) items"

lemma scanning_work:
  assumes l: "scanning w nm s ps items" and inv: "db_inv w" and k: "work w N j w'" "nm \<notin> N" and sp: "spare w' 1"
  shows "scanning w' nm s ps items"
proof -
  have lv: "live_obj w nm s ps" "hf_curPage s \<noteq> None" "\<forall>q \<in> set ps. clean w (filePtr s) q" "scan_here w s ps (w, s) items" using l by (simp_all add: scanning_def)
  have o: "oft_map (openFiles w) nm = Some (filePtr s)" "hf_open w s ps" using lv(1) by (simp_all add: live_obj_def)
  note lw = live_work [OF lv(1) inv k]
  note k' = workD [OF k(1)]
  have us: "q \<in> used_pages (filePtr s) w" if "q \<in> set ps" for q using hf_openD(5) [OF o(2)] that by (auto simp: buf_legal_def)
  have cl: "\<forall>q \<in> set ps. clean w' (filePtr s) q" using k'(10) [OF k(2) o(1)] us lv(3) by blast
  have lg: "buf_legal w' (filePtr s, q) = buf_legal w (filePtr s, q)" for q using lw(3) k'(3) by (simp add: buf_legal_def)
  obtain p qs where a: "filter_ok s" "scan_at w s p qs" "set (p # qs) \<subseteq> set ps" "items = map (item_at (lpage w (filePtr s))) (filter (wanted w s) (to_come w s p qs))"
    using lv(4) by (auto simp: scan_here_def)
  have ok: "pool_ok w'" using db_inv_pool [OF k'(1)] .
  have "spare w' (Suc 0)" using sp by simp
  then have "movable w' (filePtr s) p" using spare_free [OF ok] by (simp add: movable_def)
  then have at: "scan_at w' s p qs" using a(2,3) ok lg lw(2) cl k'(13) [OF k(2) o(1)] by (auto simp: scan_at_def)
  have tc: "to_come w' s p qs = to_come w s p qs" using lw(2) by (simp add: to_come_def)
  have wt: "wanted w' s = wanted w s" by (intro ext) (simp add: wanted_def lw(2))
  note eq = tc wt
  have "scan_moved w' s w' s" using scan_moved_refl [OF ok, of s "curRec s"] by simp
  then have "scan_here w' s ps (w', s) items" using a(1,3,4) at eq lw(2) unfolding scan_here_def fst_conv snd_conv by (intro conjI exI [of _ p] exI [of _ qs]) simp_all
  then show ?thesis using lw(1) lv(2) cl by (simp add: scanning_def)
qed

section \<open>Beginning and end\<close>

lemma started_work:
  assumes inv: "db_inv w" and nm: "nm \<noteq> []" "can_open w nm" and st: "started w nm ps p w1 h"
  shows "work w {nm} (opens w nm) w1" "live_obj w1 nm h ps" "owes w w1 (its_pins h) (its_open h)"
proof -
  note c = started_client [OF inv nm st]
  note cd = clientD [OF c]
  show "work w {nm} (opens w nm) w1" by (rule kept_work [OF cd(8)])
  show "live_obj w1 nm h ps" using cd(2,4,5) nm(1) by (simp add: live_obj_def)
  have "\<forall>g. g \<noteq> handle w nm \<longrightarrow> files w1 g = files w g" using st unfolding started_def by blast
  then have "open_count w1 g = open_count w g" if "g \<noteq> handle w nm" for g using that by (simp add: open_count_def)
  then show "owes w w1 (its_pins h) (its_open h)" using cd(3,6,7) by (simp add: owes_def its_pins_def its_open_def)
qed

lemma finished_work:
  assumes l: "live_obj w nm h ps" and inv: "db_inv w" and fin: "finished w h nm w'" and e: "end_page (lpage w (filePtr h)) n"
  shows "work w {nm} 0 w'" "table w' nm ps n" "owes w w' (\<lambda>g q. - its_pins h g q) (\<lambda>g. - its_open h g)" "file_view w' nm = lpage w (filePtr h)"
    "oft_map (openFiles w') nm = (if open_count w (filePtr h) = 1 then None else Some (filePtr h))"
proof -
  let ?f = "filePtr h"
  have lv: "hf_open w h ps" "headerPageNo h = 1" "nm \<noteq> []" "oft_map (openFiles w) nm = Some ?f" using l by (simp_all add: live_obj_def)
  have f: "db_inv w'" "file_view w' nm = lpage w ?f" "file_used w' nm = used_pages ?f w"
     "\<forall>g. g \<noteq> ?f \<longrightarrow> lpage w' g = lpage w g \<and> files w' g = files w g \<and> used_pages g w' = used_pages g w"
     "\<forall>g q. pins w' g q = pins w g q - (if g = ?f then own_pins h q else 0)" "frames w' = frames w" "bht_valid (hashTable w') = bht_valid (hashTable w)"
     "newAddr w' = newAddr w" "newCnt w' = newCnt w" "open_count w' ?f = open_count w ?f - 1"
     "oft_map (openFiles w') = (if open_count w ?f = 1 then (oft_map (openFiles w))(nm := None) else oft_map (openFiles w))"
     "\<forall>n. oft_map (openFiles w) n = None \<longrightarrow> disk w' n = disk w n"
     "\<forall>g q. q \<in> used_pages g w \<longrightarrow> g \<noteq> ?f \<or> open_count w ?f \<noteq> 1 \<longrightarrow>
        clean w g q \<or> g = ?f \<and> (q = headerPageNo h \<or> hf_curPage h \<noteq> None \<and> q = curPageNo h) \<longrightarrow> clean w' g q"
     "\<forall>g q j. holds w g q j \<longrightarrow> (g = ?f \<longrightarrow> own_pins h q < pins w g q) \<longrightarrow> holds w' g q j"
    by (insert fin [unfolded finished_def], elim conjE, assumption)+
  have fl: "files w g \<noteq> None" if "files w' g \<noteq> None" for g
    using that f(4) db_inv_table [OF inv lv(4)] by (cases "g = ?f") auto
  show "work w {nm} 0 w'"
    by (rule work_step [OF inv lv(4) f(1) f(6-9)]) (use f(4,11,12,13,14) lv(4) fl in \<open>auto split: if_splits\<close>)
  have "open_count w' g = open_count w g - its_open h g" for g using f(4,10) by (cases "g = ?f") (simp_all add: its_open_def open_count_def)
  then show "owes w w' (\<lambda>g q. - its_pins h g q) (\<lambda>g. - its_open h g)" using f(5) by (simp add: owes_def its_pins_def)
  show "file_view w' nm = lpage w ?f" by (rule f(2))
  show "oft_map (openFiles w') nm = (if open_count w ?f = 1 then None else Some ?f)" using f(11) lv(4) by simp
  have us: "p \<in> used_pages ?f w" if "p \<in> set (1 # ps)" for p using hf_openD(5) [OF lv(1)] that lv(2) by (auto simp: buf_legal_def)
  have "clean w' g p" if g: "oft_map (openFiles w') nm = Some g" "p \<in> set (1 # ps)" for g p
  proof -
    have g': "g = ?f" "open_count w ?f \<noteq> 1" using g(1) f(11) lv(4) by (auto split: if_splits)
    have "clean w ?f p \<or> p = headerPageNo h \<or> hf_curPage h \<noteq> None \<and> p = curPageNo h" using lv(1,2) g(2) by (auto simp: hf_open_def)
    then show ?thesis using f(13) us [OF g(2)] g' by blast
  qed
  moreover have "stored_heap w' nm ps"
    using lv(1,2) us unfolding stored_heap_def heap_at_def hf_open_def heap_file_def f(2,3) by auto
  ultimately show "table w' nm ps n" using f(2) e lv(3) by (auto simp: table_def)
qed

text \<open>The pins on a file that was not open before are those of the object.\<close>

lemma own_only:
  assumes inv: "db_inv w0" and can: "can_open w0 nm" and h: "filePtr h = handle w0 nm" and o: "owes w0 w P C"
    and p: "\<And>q. P (filePtr h) q = own_pins h q" "C (filePtr h) = 1"
  shows "open_count w (filePtr h) = 1 \<Longrightarrow> \<forall>q. pins w (filePtr h) q = own_pins h q"
    "(if open_count w (filePtr h) = 1 then None else Some (filePtr h)) = oft_map (openFiles w0) nm"
proof -
  have oc: "open_count w (filePtr h) = open_count w0 (handle w0 nm) + 1" using o p(2) h by (simp add: owes_def)
  have c: "oft_map (openFiles w0) nm = None \<longleftrightarrow> open_count w0 (handle w0 nm) = 0"
  proof (cases "oft_map (openFiles w0) nm")
    case None
    then show ?thesis using can by (simp add: handle_def can_open_def open_count_def)
  next
    case (Some f)
    obtain fo where "files w0 f = Some fo" using db_inv_table [OF inv Some] by blast
    then show ?thesis using Some db_inv_obj [OF inv, of f fo] by (auto simp: handle_def open_count_def file_obj_ok_def)
  qed
  show "(if open_count w (filePtr h) = 1 then None else Some (filePtr h)) = oft_map (openFiles w0) nm"
  proof (cases "oft_map (openFiles w0) nm")
    case None
    then show ?thesis using oc c by simp
  next
    case (Some f)
    then show ?thesis using oc c h by (simp add: handle_def)
  qed
  assume "open_count w (filePtr h) = 1"
  then have "oft_map (openFiles w0) nm = None" using c oc by simp
  then have "files w0 (handle w0 nm) = None" using can by (simp add: can_open_def handle_def)
  then have "pins w0 (handle w0 nm) q = 0" for q using not_open_not_buffered [OF inv] by (simp add: pins_def)
  then show "\<forall>q. pins w (filePtr h) q = own_pins h q" using o p(1) h by (simp add: owes_def)
qed

lemma live_file_name: "live_obj w nm h ps \<Longrightarrow> db_inv w \<Longrightarrow> file_name w (filePtr h) = Some nm"
  using open_name_table [of w "filePtr h" nm] by (simp add: live_obj_def)

section \<open>Steps of a scan\<close>

lemma scan_open_work:
  assumes inv: "db_inv w" and t: "table w nm ps n" and r: "resources w 1 N" "n \<le> N" and sp: "spare w 2" and fa: "filter_args off len ty flt"
  shows "\<exists>s1 w1 s2. HeapFileScan_new w s nm = Some (OK, s1, w1) \<and> startScan s1 off len ty flt op = (OK, s2) \<and>
     scanning w1 nm s2 ps (filter (\<lambda>x. selects off len ty flt op (snd x)) (heap_items (file_view w nm) ps)) \<and> filePtr s2 = handle w nm \<and>
     work w {nm} (opens w nm) w1 \<and> owes w w1 (its_pins s2) (its_open s2) \<and> lpage w1 (filePtr s2) = file_view w nm"
proof -
  note rd = table_ready [OF inv t r sp]
  have tn: "nm \<noteq> []" "can_open w nm" using t rd(2) by (simp_all add: table_def ready_def)
  obtain s1 w1 where o: "HeapFile_new w s nm = Some (OK, s1, w1)" "started w nm ps (hd ps) w1 s1" using HeapFile_new_spec [OF inv rd, of s] by blast
  let ?s1 = "s1\<lparr>scan_filter := None\<rparr>"
  obtain s2 where st: "startScan ?s1 off len ty flt op = (OK, s2)" "hf_same ?s1 s2" "filter_ok s2" "rec_matches s2 = selects off len ty flt op"
    using startScan_spec [OF fa, of ?s1 op] by auto
  have "hf_same s1 s2" using st(2) by (simp add: hf_same_def)
  then have o2: "started w nm ps (hd ps) w1 s2" using o(2) hf_same_open(3) by blast
  have s2: "hf_open w1 s2 ps" "hf_curPage s2 \<noteq> None" "curPageNo s2 = hd ps" "curRec s2 = NULLRID" "movable w1 (filePtr s2) (hd ps)" "\<not> curDirtyFlag s2"
     "filePtr s2 = handle w nm" "lpage w1 (handle w nm) = file_view w nm" "\<forall>q \<in> set ps. clean w1 (handle w nm) q" using o2 by (simp_all add: started_def)
  have "scan_here w1 s2 ps (w1, s2) (filter (\<lambda>x. selects off len ty flt op (snd x)) (heap_items (file_view w nm) ps))"
    using scan_start [OF s2(1-6) st(3)] st(4) s2(7,8) by simp
  moreover note sw = started_work [OF inv tn o2]
  ultimately have "scanning w1 nm s2 ps (filter (\<lambda>x. selects off len ty flt op (snd x)) (heap_items (file_view w nm) ps))"
    using s2(2,7,9) by (simp add: scanning_def)
  moreover have "HeapFileScan_new w s nm = Some (OK, ?s1, w1)" using o(1) by (simp add: HeapFileScan_new_def)
  ultimately show ?thesis using st(1) s2(7,8) sw by (intro exI [of _ ?s1] exI [of _ w1] exI [of _ s2]) simp
qed

lemma scan_moved_work:
  assumes l: "scanning w nm s ps items" and inv: "db_inv w" and h: "scan_here w s ps (w2, s2) items2"
  shows "scanning w2 nm s2 ps items2" "work w {nm} 0 w2" "owes w w2 (\<lambda>g q. its_pins s2 g q - its_pins s g q) (\<lambda>g. 0)" "filePtr s2 = filePtr s"
    "lpage w2 (filePtr s2) = lpage w (filePtr s)"
proof -
  have lv: "live_obj w nm s ps" "hf_curPage s \<noteq> None" "\<forall>q \<in> set ps. clean w (filePtr s) q" using l by (simp_all add: scanning_def)
  have o: "hf_open w s ps" using lv(1) by (simp add: live_obj_def)
  note op = scan_here_open_clean [OF o lv(3,2) h]
  have mv: "scan_moved w s w2 s2" using h by (simp add: scan_here_def)
  note sel = scan_moved_sel [OF mv]
  note v = view_same_others [OF scan_moved_view [OF mv]]
  have hk: "holds w2 g q i" if "g \<noteq> filePtr s" "holds w g q i" for g q i using mv that unfolding scan_moved_def by (metis prod.inject)
  note st = live_step [OF lv(1) inv op(1) sel(1,3) v(1-4) hk]
  show "work w {nm} 0 w2" using st(1) by simp
  show "filePtr s2 = filePtr s" by (rule sel(1))
  show "lpage w2 (filePtr s2) = lpage w (filePtr s)" using sel(1) v(2) by simp
  show "scanning w2 nm s2 ps items2" using st(2) op(2,3) scan_rebase [OF h] by (simp add: scanning_def)
  have pn: "pins w2 g q = pins w g q - (if (g, q) = (filePtr s, curPageNo s) then 1 else 0) + (if (g, q) = (filePtr s, curPageNo s2) then 1 else 0)" for g q
    using mv unfolding scan_moved_def by blast
  have "pins w2 g q = pins w g q + (its_pins s2 g q - its_pins s g q)" for g q
    using pn [of g q] lv(2) op(2) sel(1,3) by (simp add: its_pins_def own_pins_def)
  then show "owes w w2 (\<lambda>g q. its_pins s2 g q - its_pins s g q) (\<lambda>g. 0)" using st(3) by (simp add: owes_def)
qed

lemma scan_end_work:
  assumes l: "scanning w nm s ps []" and inv: "db_inv w"
  shows "\<exists>s2 w2 rid. scanNext w s NULLRID = Some (FILEEOF, rid, s2, w2) \<and> scanning w2 nm s2 ps [] \<and> work w {nm} 0 w2 \<and>
     owes w w2 (\<lambda>g q. its_pins s2 g q - its_pins s g q) (\<lambda>g. 0) \<and> filePtr s2 = filePtr s \<and> lpage w2 (filePtr s2) = lpage w (filePtr s)"
proof -
  have "scan_here w s ps (w, s) []" using l by (simp add: scanning_def)
  from scan_raw_end [OF this] obtain s2 w2 rid where r: "scanNext w s NULLRID = Some (FILEEOF, rid, s2, w2)" "scan_here w s ps (w2, s2) []" by blast
  then show ?thesis using scan_moved_work [OF l inv r(2)] by blast
qed

lemma rec_isI: "rec_bytes w s ref (int (length b)) = Some b \<Longrightarrow> ref_length ref = int (length b) \<Longrightarrow> rec_is w s ref b"
  by (auto simp: rec_bytes_def rec_is_def split: bind_splits if_splits)

lemma scan_next_work:
  assumes l: "scanning w nm s ps ((rid, b) # items)" and inv: "db_inv w"
  shows "\<exists>s2 w2 ref. scanNext w s NULLRID = Some (OK, rid, s2, w2) \<and> HeapFileScan_getRecord w2 s2 no_rec = Some (OK, ref) \<and> rec_is w2 s2 ref b \<and>
     scanning w2 nm s2 ps items \<and> work w {nm} 0 w2 \<and>
     owes w w2 (\<lambda>g q. its_pins s2 g q - its_pins s g q) (\<lambda>g. 0) \<and> filePtr s2 = filePtr s \<and> lpage w2 (filePtr s2) = lpage w (filePtr s)"
proof -
  have "scan_here w s ps (w, s) ((rid, b) # items)" using l by (simp add: scanning_def)
  from scan_raw_next [OF this] obtain s2 w2 ref where r: "scanNext w s NULLRID = Some (OK, rid, s2, w2)" "HeapFileScan_getRecord w2 s2 no_rec = Some (OK, ref)"
    "ref_length ref = int (length b)" "\<forall>k \<le> length b. rec_bytes w2 s2 ref (int k) = Some (take k b)" "scan_here w s ps (w2, s2) items" by blast
  have "rec_bytes w2 s2 ref (int (length b)) = Some b" using r(4) by simp
  then have "rec_is w2 s2 ref b" using r(3) by (rule rec_isI)
  then show ?thesis using r(1,2) scan_moved_work [OF l inv r(5)] by blast
qed

lemma scan_close_work:
  assumes l: "live_obj w nm s ps" and inv: "db_inv w" and own: "open_count w (filePtr s) = 1 \<Longrightarrow> \<forall>q. pins w (filePtr s) q = own_pins s q"
    and e: "end_page (lpage w (filePtr s)) n"
  shows "\<exists>s' w'. HeapFileScan_destroy w s = Some (s', w') \<and> work w {nm} 0 w' \<and> table w' nm ps n \<and>
     owes w w' (\<lambda>g q. - its_pins s g q) (\<lambda>g. - its_open s g) \<and> file_view w' nm = lpage w (filePtr s) \<and>
     oft_map (openFiles w') nm = (if open_count w (filePtr s) = 1 then None else Some (filePtr s))"
proof -
  have o: "hf_open w s ps" using l by (simp add: live_obj_def)
  obtain s' w' where d: "HeapFileScan_destroy w s = Some (s', w')" "finished w s nm w'"
    using HeapFileScan_destroy_spec [OF inv o live_file_name [OF l inv] own] by blast
  then show ?thesis using finished_work [OF l inv d(2) e] by blast
qed

text \<open>A scan of one table from the start to the destructor leaves everything as it was.\<close>

lemma scan_over:
  assumes inv: "db_inv w0" and t: "table w0 nm ps n" and r: "resources w0 1 N" "n \<le> N" and sp: "spare w0 2" and s: "scanning w nm s ps items" and k: "work w0 {nm} j w"
    and ow: "owes w0 w (its_pins s) (its_open s)" and h: "filePtr s = handle w0 nm" and v: "lpage w (filePtr s) = file_view w0 nm"
  shows "\<exists>s' w'. HeapFileScan_destroy w s = Some (s', w') \<and> file_view w' = file_view w0 \<and> pins w' = pins w0 \<and> oft_map (openFiles w') = oft_map (openFiles w0)"
proof -
  have can: "can_open w0 nm" using table_ready(2) [OF inv t r sp] by (simp add: ready_def)
  have P: "its_pins s (filePtr s) q = own_pins s q" for q by (simp add: its_pins_def)
  have C: "its_open s (filePtr s) = 1" by (simp add: its_open_def)
  note own = own_only [OF inv can h ow, OF P C]
  have lv: "live_obj w nm s ps" using s by (simp add: scanning_def)
  have e: "end_page (lpage w (filePtr s)) n" using t v by (simp add: table_def)
  note kd = workD [OF k]
  obtain s' w' where c: "HeapFileScan_destroy w s = Some (s', w')" "work w {nm} 0 w'" "owes w w' (\<lambda>g q. - its_pins s g q) (\<lambda>g. - its_open s g)"
     "file_view w' nm = lpage w (filePtr s)" "oft_map (openFiles w') nm = (if open_count w (filePtr s) = 1 then None else Some (filePtr s))"
    using scan_close_work [OF lv kd(1) own(1) e] by blast
  have "file_view w' = file_view w0"
    by (rule ext, case_tac "x = nm") (use workD(7) [OF c(2)] kd(7) c(4) v in simp_all)
  moreover have "pins w' = pins w0" using owes_trans [OF ow c(3)] by (simp add: owes_def fun_eq_iff)
  moreover have "oft_map (openFiles w') = oft_map (openFiles w0)"
    by (rule ext, case_tac "x = nm") (use workD(6) [OF c(2)] kd(6) c(5) own(2) in simp_all)
  ultimately show ?thesis using c(1) by blast
qed

section \<open>Steps of an insertion\<close>

definition adding :: "'a db_state_scheme \<Rightarrow> string \<Rightarrow> HeapFile \<Rightarrow> int list \<Rightarrow> int \<Rightarrow> bool" where
  "adding w nm h ps n \<longleftrightarrow> live_obj w nm h ps \<and> hf_curPage h \<noteq> None \<and> curPageNo h = last ps \<and> end_page (lpage w (filePtr h)) n"

lemma adding_work:
  assumes a: "adding w nm h ps n" and inv: "db_inv w" and k: "work w N j w'" "nm \<notin> N"
  shows "adding w' nm h ps n" "lpage w' (filePtr h) = lpage w (filePtr h)"
proof -
  have l: "live_obj w nm h ps" using a by (simp add: adding_def)
  show "lpage w' (filePtr h) = lpage w (filePtr h)" by (rule live_work(2) [OF l inv k])
  then show "adding w' nm h ps n" using a live_work(1) [OF l inv k] by (simp add: adding_def)
qed

lemma add_open_work:
  assumes inv: "db_inv w" and t: "table w nm ps n" and r: "resources w 1 N" "n \<le> N" and sp: "spare w 2"
  shows "\<exists>h1 w1. InsertFileScan_new w h nm = Some (OK, h1, w1) \<and> adding w1 nm h1 ps n \<and> filePtr h1 = handle w nm \<and>
     work w {nm} (opens w nm) w1 \<and> owes w w1 (its_pins h1) (its_open h1) \<and> lpage w1 (filePtr h1) = file_view w nm"
proof -
  note rd = table_ready [OF inv t r sp]
  have tn: "nm \<noteq> []" "can_open w nm" "end_page (file_view w nm) n" using t rd(2) by (simp_all add: table_def ready_def)
  obtain h1 w1 where o: "InsertFileScan_new w h nm = Some (OK, h1, w1)" "started w nm ps (last ps) w1 h1" using InsertFileScan_new_spec [OF inv rd, of h] by blast
  have s: "hf_curPage h1 \<noteq> None" "curPageNo h1 = last ps" "filePtr h1 = handle w nm" "lpage w1 (handle w nm) = file_view w nm" using o(2) by (simp_all add: started_def)
  then have "adding w1 nm h1 ps n" using started_work(2) [OF inv tn(1,2) o(2)] tn(3) by (simp add: adding_def)
  then show ?thesis using o(1) s(3,4) started_work(1,3) [OF inv tn(1,2) o(2)] by auto
qed

lemma add_work:
  assumes a: "adding w nm h ps n" and inv: "db_inv w" and sp: "spare w 1" and r: "resources w k N" "n < N" and b: "storable b" "length b \<le> 1000"
  shows "\<exists>rid h2 w2 ps2 n2. insertRecord w h \<lparr>rec_data = b, rec_length = int (length b)\<rparr> out = Some (OK, rid, h2, w2) \<and> adding w2 nm h2 ps2 n2 \<and> n2 \<le> n + 1 \<and>
     work w {nm} 0 w2 \<and> owes w w2 (\<lambda>g q. its_pins h2 g q - its_pins h g q) (\<lambda>g. 0) \<and> filePtr h2 = filePtr h \<and>
     recs_of w h ps rid = None \<and> recs_of w2 h2 ps2 = (recs_of w h ps)(rid \<mapsto> b)"
proof -
  let ?f = "filePtr h"
  have l: "live_obj w nm h ps" "hf_open w h ps" "hf_curPage h \<noteq> None" "curPageNo h = last ps" "end_page (lpage w ?f) n" "headerPageNo h = 1" "oft_map (openFiles w) nm = Some ?f"
    using a by (simp_all add: adding_def live_obj_def)
  note od = hf_openD [OF l(2)]
  have ok: "pool_ok w" by (rule od(1))
  have g: "grows w ?f n" using grows_end_page [OF ok] l(5) by simp
  have n1: "1 \<le> n"
  proof -
    obtain x where x: "file_of w ?f = Some x" "npages x = n" using g by (auto simp: grows_def)
    have "1 \<in> used_pages ?f w" using od(5) l(6) by (auto simp: buf_legal_def)
    then show ?thesis using x by (auto simp: used_pages_def in_use_def)
  qed
  have N: "n < 2147483647" "bht_valid (hashTable w) (?f, n)" using r n1 l(7) by (auto simp: resources_def addresses_def)
  have "\<not> all_pinned w" using spare_free [OF ok, of 0] sp by simp
  then have cg: "can_grow w ?f" using grows_next [OF g] grows_alloc_ok [OF g N(1)] N(2) by (simp add: can_grow_def)
  have ae: "at_end w h ps" using l(2-4) by (simp add: at_end_def)
  obtain rid h2 w2 ps2 where i: "insertRecord w h \<lparr>rec_data = b, rec_length = int (length b)\<rparr> out = Some (OK, rid, h2, w2)"
     "rec_added w h ps rid b w2 h2 ps2" "ps2 = ps \<or> ps2 = ps @ [next_page ?f w]"
    using insert_spec [OF ae b cg, of out] by blast
  have a2: "at_end w2 h2 ps2" "filePtr h2 = ?f" "headerPageNo h2 = headerPageNo h" "recs_of w h ps rid = None" "recs_of w2 h ps2 = (recs_of w h ps)(rid \<mapsto> b)"
     "env_same w w2" "\<forall>g q. g \<noteq> ?f \<longrightarrow> lpage w2 g q = lpage w g q" "\<forall>g. used_pages g w2 = used_pages g w \<union> (if g = ?f then set ps2 - set ps else {})"
     "\<forall>g q. g \<noteq> ?f \<longrightarrow> q \<in> used_pages g w \<longrightarrow> clean w g q \<longrightarrow> clean w2 g q"
     "\<forall>g q. pins w2 g q = pins w g q + (if (g, q) = (?f, last ps2) then 1 else 0) - (if (g, q) = (?f, last ps) then 1 else 0)"
     "\<forall>m. grows w ?f m \<longrightarrow> m < 2147483647 \<longrightarrow> grows w2 ?f (m + int (length ps2) - int (length ps))"
     "\<forall>g q j. holds w g q j \<longrightarrow> (g, q) \<noteq> (?f, last ps) \<or> 1 < pins w ?f (last ps) \<longrightarrow> holds w2 g q j"
    using i(2) unfolding rec_added_def by blast+
  have op2: "hf_open w2 h2 ps2" "hf_curPage h2 \<noteq> None" "curPageNo h2 = last ps2" using a2(1) by (simp_all add: at_end_def)
  have hk: "holds w2 g q i" if "g \<noteq> ?f" "holds w g q i" for g q i using a2(12) that by (metis prod.inject)
  have v: "lpage w2 g = lpage w g" "used_pages g w2 = used_pages g w" if "g \<noteq> ?f" for g using a2(7,8) that by (simp_all add: fun_eq_iff)
  have cl: "clean w2 g q" if "g \<noteq> ?f" "q \<in> used_pages g w" "clean w g q" for g q using a2(9) that by blast
  note st = live_step [OF l(1) inv op2(1) a2(2,3,6) v cl hk]
  define n2 where "n2 = n + int (length ps2) - int (length ps)"
  have n2: "grows w2 ?f n2" "n2 \<le> n + 1" using a2(11) g N i(3) by (auto simp: n2_def)
  then have e: "end_page (lpage w2 (filePtr h2)) n2" using grows_end_page [OF hf_openD(1) [OF op2(1)]] a2(2) by simp
  have ad: "adding w2 nm h2 ps2 n2" using st(2) op2 e by (simp add: adding_def)
  have "pins w2 g q = pins w g q + (its_pins h2 g q - its_pins h g q)" for g q
    using a2(10) [rule_format, of g q] l(3,4) op2(2,3) a2(2,3) by (simp add: its_pins_def own_pins_def)
  then have "owes w w2 (\<lambda>g q. its_pins h2 g q - its_pins h g q) (\<lambda>g. 0)" using st(3) by (simp add: owes_def)
  then show ?thesis using i(1) ad n2(2) st(1) a2(2,4,5) by (intro exI [of _ rid] exI [of _ h2] exI [of _ w2] exI [of _ ps2] exI [of _ n2]) simp
qed

lemma add_close_work:
  assumes a: "adding w nm h ps n" and inv: "db_inv w" and own: "open_count w (filePtr h) = 1 \<Longrightarrow> \<forall>q. pins w (filePtr h) q = own_pins h q"
  shows "\<exists>h' w'. InsertFileScan_destroy w h = Some (h', w') \<and> work w {nm} 0 w' \<and> table w' nm ps n \<and>
     owes w w' (\<lambda>g q. - its_pins h g q) (\<lambda>g. - its_open h g) \<and> file_view w' nm = lpage w (filePtr h) \<and>
     oft_map (openFiles w') nm = (if open_count w (filePtr h) = 1 then None else Some (filePtr h))"
proof -
  have l: "live_obj w nm h ps" "hf_open w h ps" "hf_curPage h \<noteq> None" "end_page (lpage w (filePtr h)) n" using a by (simp_all add: adding_def live_obj_def)
  obtain h' w' where d: "InsertFileScan_destroy w h = Some (h', w')" "finished w h nm w'"
    using InsertFileScan_destroy_spec [OF inv l(2) live_file_name [OF l(1) inv] l(3) own] by blast
  then show ?thesis using finished_work [OF l(1) inv d(2) l(4)] by blast
qed

end
