(* ===== verification/JoinHT.thy ===== *)
theory JoinHT
  imports Catalog
begin

text \<open>
  The hash table for joins: \<open>joinHT.h\<close> and \<open>joinHT.cpp\<close>. A pointer to an attribute is the list of
  bytes from there to the end of the object; reading behind it, an overflowing conversion to
  \<open>int\<close> and a table of size zero have no defined result. The destructor only frees memory.
\<close>

section \<open>Single precision arithmetic\<close>

text \<open>
  Rounding of a number given in units of \<open>2\<close> to the power \<open>-149\<close> to 24 significant bits, to nearest,
  ties to even; the largest finite number is \<open>(2 ^ 24 - 1) * 2 ^ 253\<close> units.
\<close>

fun bit_len :: "nat \<Rightarrow> nat" where
  "bit_len n = (if n = 0 then 0 else Suc (bit_len (n div 2)))"

definition round_single :: "int \<Rightarrow> single" where
  "round_single m =
     (let a = nat \<bar>m\<bar>; e = bit_len a - 24; q = a div 2 ^ e; r = a mod 2 ^ e;
          q' = (if 2 * r < 2 ^ e \<or> 2 * r = 2 ^ e \<and> even q then q else q + 1)
      in if q' * 2 ^ e \<ge> 2 ^ 277 then Infinite (m < 0) else Finite (sgn m * int (q' * 2 ^ e)))"

text \<open>The product of a single with an \<open>int\<close> that is converted to \<open>float\<close> first.\<close>

fun single_times :: "single \<Rightarrow> int \<Rightarrow> single" where
  "single_times (Finite x) n =
     (case round_single (n * 2 ^ 149) of Finite y \<Rightarrow> round_single (x * (y div 2 ^ 149)) | _ \<Rightarrow> NaN)"
| "single_times (Infinite neg) n = (if n = 0 then NaN else Infinite (neg \<noteq> (n < 0)))"
| "single_times NaN n = NaN"

text \<open>The conversion to \<open>int\<close> truncates; outside the range of \<open>int\<close> it is undefined.\<close>

fun single_to_int :: "single \<Rightarrow> int option" where
  "single_to_int (Finite x) = (let i = sgn x * (\<bar>x\<bar> div 2 ^ 149) in if int_ok i then Some i else None)"
| "single_to_int _ = None"

fun single_eq :: "single \<Rightarrow> single \<Rightarrow> bool" where
  "single_eq NaN _ = False"
| "single_eq _ NaN = False"
| "single_eq a b = (a = b)"


section \<open>The table\<close>

datatype JAttrType = IValue int | FValue single | SValue "byte list" | NoValue

record joinhashBucket =
  jb_attrValue :: JAttrType
  jb_rid :: RID

record HTentry =
  bucketCnt :: int
  je_chain :: "joinhashBucket list"

record joinHashTbl =
  joinAttr :: AttrDesc
  jt_HTSIZE :: int
  jt_ht :: "HTentry list"

definition joinHashTbl_new :: "int \<Rightarrow> AttrDesc \<Rightarrow> joinHashTbl option" where
  "joinHashTbl_new n attr =
     (if n < 0 then None
      else Some \<lparr>joinAttr = attr, jt_HTSIZE = n, jt_ht = replicate (nat n) \<lparr>bucketCnt = 0, je_chain = []\<rparr>\<rparr>)"

text \<open>Values at an address.\<close>

definition int_at :: "byte list \<Rightarrow> int option" where
  "int_at bs = (if 4 \<le> length bs then Some (get_int (bytes_mem bs) 0) else None)"

definition single_at :: "byte list \<Rightarrow> single option" where
  "single_at bs = (if 4 \<le> length bs then Some (single_of_bits (get_le 4 (bytes_mem bs) 0)) else None)"

text \<open>\<open>while (*attrPtr++) value = 31*value + (int)*attrPtr\<close>.\<close>

fun string_hash :: "int \<Rightarrow> byte list \<Rightarrow> int option" where
  "string_hash value [] = None"
| "string_hash value (c # cs) =
     (if c = 0 then Some value
      else case cs of
        [] \<Rightarrow> None
      | d # ds \<Rightarrow> string_hash (swrap 4 (swrap 4 (31 * value) + swrap 1 (uint d))) cs)"

definition joinHashTbl_hash :: "joinHashTbl \<Rightarrow> byte list \<Rightarrow> int \<Rightarrow> int option" where
  "joinHashTbl_hash t attrPtr attrType = do {
     value \<leftarrow>
       (case Datatype_of_int attrType of
          Some INTEGER \<Rightarrow> map_option (\<lambda>i. swrap 4 (swrap 4 (i * jt_HTSIZE t) * 31)) (int_at attrPtr)
        | Some FLOAT \<Rightarrow> do {
            f \<leftarrow> single_at attrPtr;
            single_to_int (single_times (single_times f (jt_HTSIZE t)) 31)
          }
        | Some STRING \<Rightarrow> string_hash 0 attrPtr
        | None \<Rightarrow> Some 0);
     if jt_HTSIZE t = 0 then None else Some \<bar>c_rem value (jt_HTSIZE t)\<bar>
   }"

text \<open>\<open>tuple + joinAttr.attrOffset\<close>.\<close>

definition attr_ptr :: "AttrDesc \<Rightarrow> byte list \<Rightarrow> byte list option" where
  "attr_ptr a tuple = (if 0 \<le> ad_attrOffset a \<and> nat (ad_attrOffset a) \<le> length tuple then Some (drop (nat (ad_attrOffset a)) tuple) else None)"

definition attr_value :: "AttrDesc \<Rightarrow> byte list \<Rightarrow> JAttrType option" where
  "attr_value a p =
     (case Datatype_of_int (ad_attrType a) of
        Some INTEGER \<Rightarrow> map_option IValue (int_at p)
      | Some FLOAT \<Rightarrow> map_option FValue (single_at p)
      | Some STRING \<Rightarrow> if 0 \<le> ad_attrLen a \<and> nat (ad_attrLen a) \<le> length p then Some (SValue (take (nat (ad_attrLen a)) p)) else None
      | None \<Rightarrow> Some NoValue)"

definition joinHashTbl_insert :: "joinHashTbl \<Rightarrow> RID \<Rightarrow> byte list \<Rightarrow> (Status \<times> joinHashTbl) option" where
  "joinHashTbl_insert t newRid tuple = do {
     joinAttrPtr \<leftarrow> attr_ptr (joinAttr t) tuple;
     index \<leftarrow> joinHashTbl_hash t joinAttrPtr (ad_attrType (joinAttr t));
     if nat index < length (jt_ht t) then do {
       let e = jt_ht t ! nat index;
       v \<leftarrow> attr_value (joinAttr t) joinAttrPtr;
       let tmpBuc = \<lparr>jb_attrValue = v, jb_rid = newRid\<rparr>;
       Some (OK, t\<lparr>jt_ht := (jt_ht t)[nat index := \<lparr>bucketCnt = bucketCnt e + 1, je_chain = tmpBuc # je_chain e\<rparr>]\<rparr>)
     }
     else None
   }"

text \<open>Whether a bucket has the value at an address.\<close>

definition bucket_matches :: "AttrDesc \<Rightarrow> byte list \<Rightarrow> joinhashBucket \<Rightarrow> bool option" where
  "bucket_matches a p b =
     (case jb_attrValue b of
        IValue i \<Rightarrow> map_option (\<lambda>j. i = j) (int_at p)
      | FValue x \<Rightarrow> map_option (\<lambda>y. single_eq x y) (single_at p)
      | SValue cs \<Rightarrow> map_option (\<lambda>d. d = 0) (strncmp cs p (nat (ad_attrLen a)))
      | NoValue \<Rightarrow> Some False)"

text \<open>The scan of the chain; writing behind the end of the array \<open>outRids\<close> has no defined result.\<close>

fun collect_rids :: "AttrDesc \<Rightarrow> byte list \<Rightarrow> int \<Rightarrow> RID list \<Rightarrow> joinhashBucket list \<Rightarrow> RID list option" where
  "collect_rids a p n outRids [] = Some outRids"
| "collect_rids a p n outRids (b # chain) = do {
     m \<leftarrow> bucket_matches a p b;
     if m then if int (length outRids) < n then collect_rids a p n (outRids @ [jb_rid b]) chain else None
     else collect_rids a p n outRids chain
   }"

definition joinHashTbl_lookup :: "joinHashTbl \<Rightarrow> byte list \<Rightarrow> (Status \<times> int \<times> RID list) option" where
  "joinHashTbl_lookup t innerJoinAttrPtr = do {
     index \<leftarrow> joinHashTbl_hash t innerJoinAttrPtr (ad_attrType (joinAttr t));
     if nat index < length (jt_ht t) then do {
       let e = jt_ht t ! nat index;
       outRids \<leftarrow> collect_rids (joinAttr t) innerJoinAttrPtr (bucketCnt e) [] (je_chain e);
       Some (OK, int (length outRids), outRids)
     }
     else None
   }"

end
