(* ===== verification/Query.thy ===== *)
theory Query
  imports JoinHT
begin

text \<open>
  The query layer: \<open>query.h\<close>, \<open>select.cpp\<close>, \<open>join.cpp\<close>, \<open>insert.cpp\<close>, \<open>delete.cpp\<close> and the partitioning of
  heap files in \<open>partition.h\<close> and \<open>partition.cpp\<close>. Objects on the stack are destructed on every return,
  in the reverse order of their construction. A failed \<open>ASSERT\<close> ends the process: no result.
\<close>

section \<open>Joins\<close>

datatype JoinType = NLJoin | SMJoin | HashJoin

text \<open>\<open>string(desc.relName)\<close>.\<close>

definition relName_string :: "AttrDesc \<Rightarrow> string option" where
  "relName_string a = map_option string_of_bytes (zstring (AttrDesc_bytes a))"

text \<open>A \<open>char\<close> array of an \<open>attrInfo\<close> as an argument of type \<open>string\<close>.\<close>

definition array_string :: "byte list \<Rightarrow> string option" where
  "array_string bs = map_option string_of_bytes (zstring bs)"

fun lookup_attrs ::
    "'a db_state_scheme \<Rightarrow> HeapFileScan \<Rightarrow> AttrDesc \<Rightarrow> attrInfo list \<Rightarrow> (Status \<times> AttrDesc list \<times> 'a db_state_scheme) option" where
  "lookup_attrs w s ad [] = Some (OK, [], w)"
| "lookup_attrs w s ad (p # projNames) = do {
     rel \<leftarrow> array_string (ai_relName p);
     name \<leftarrow> array_string (ai_attrName p);
     (status, d, w) \<leftarrow> AttrCatalog_getInfo w s rel name ad;
     if status \<noteq> OK then Some (status, [], w)
     else do {
       (status, ds, w) \<leftarrow> lookup_attrs w s ad projNames;
       Some (status, d # ds, w)
     }
   }"

fun swap_op :: "Operator \<Rightarrow> Operator" where
  "swap_op EQ = EQ"
| "swap_op GT = LT"
| "swap_op GTE = LTE"
| "swap_op LT = GT"
| "swap_op LTE = GTE"
| "swap_op NE = NE"

text \<open>The output record: the projected attributes, each from the outer or the inner record.\<close>

fun join_output ::
    "'a buf_state_scheme \<Rightarrow> HeapFileScan \<Rightarrow> recref \<Rightarrow> HeapFileScan \<Rightarrow> recref \<Rightarrow> AttrDesc \<Rightarrow> AttrDesc list \<Rightarrow> byte list option" where
  "join_output w outer outerRec inner innerRec attrDesc1 [] = Some []"
| "join_output w outer outerRec inner innerRec attrDesc1 (d # ds) = do {
     c \<leftarrow> strcmp (AttrDesc_bytes d) (AttrDesc_bytes attrDesc1);
     bs \<leftarrow> (if c = 0 then rec_bytes w outer (outerRec\<lparr>ref_offset := ref_offset outerRec + ad_attrOffset d\<rparr>) (ad_attrLen d)
           else rec_bytes w inner (innerRec\<lparr>ref_offset := ref_offset innerRec + ad_attrOffset d\<rparr>) (ad_attrLen d));
     rest \<leftarrow> join_output w outer outerRec inner innerRec attrDesc1 ds;
     Some (bs @ rest)
   }"

partial_function (option) inner_loop ::
    "'a db_state_scheme \<Rightarrow> HeapFile \<Rightarrow> HeapFileScan \<Rightarrow> recref \<Rightarrow> HeapFileScan \<Rightarrow> AttrDesc \<Rightarrow> AttrDesc list \<Rightarrow> int \<Rightarrow> int \<Rightarrow>
     (HeapFile \<times> HeapFileScan \<times> int \<times> 'a db_state_scheme) option" where
  "inner_loop w resultRel outer outerRec inner attrDesc1 attrDescs reclen resultTupCnt = do {
     (status, innerRID, inner, w) \<leftarrow> scanNext w inner NULLRID;
     if status \<noteq> OK then Some (resultRel, inner, resultTupCnt, w)
     else do {
       (status, innerRec) \<leftarrow> HeapFileScan_getRecord w inner no_rec;
       if status \<noteq> OK then None
       else do {
         outputData \<leftarrow> join_output w outer outerRec inner innerRec attrDesc1 attrDescs;
         (status, outRID, resultRel, w) \<leftarrow> insertRecord w resultRel \<lparr>rec_data = outputData, rec_length = reclen\<rparr> NULLRID;
         if status \<noteq> OK then None
         else inner_loop w resultRel outer outerRec inner attrDesc1 attrDescs reclen (swrap 4 (resultTupCnt + 1))
       }
     }
   }"

text \<open>The scan of the inner table for one outer record: \<open>Inl\<close> is a \<open>return\<close> of the whole join.\<close>

definition join_inner ::
    "'a db_state_scheme \<Rightarrow> HeapFileScan \<Rightarrow> HeapFile \<Rightarrow> HeapFileScan \<Rightarrow> recref \<Rightarrow> AttrDesc \<Rightarrow> AttrDesc \<Rightarrow> Operator \<Rightarrow> AttrDesc list \<Rightarrow> int \<Rightarrow> int \<Rightarrow>
     (Status option \<times> HeapFile \<times> int \<times> 'a db_state_scheme) option" where
  "join_inner w s resultRel outer outerRec attrDesc1 attrDesc2 myop attrDescs reclen resultTupCnt = do {
     name2 \<leftarrow> relName_string attrDesc2;
     (status, inner, w) \<leftarrow> HeapFileScan_new w s name2;
     if status \<noteq> OK then do {
       (inner, w) \<leftarrow> HeapFileScan_destroy w inner;
       Some (Some status, resultRel, resultTupCnt, w)
     }
     else do {
       flt \<leftarrow> rec_rest w outer (outerRec\<lparr>ref_offset := ref_offset outerRec + ad_attrOffset attrDesc1\<rparr>);
       let (status, inner) = startScan inner (ad_attrOffset attrDesc2) (ad_attrLen attrDesc2) (ad_attrType attrDesc2) (Some flt) myop;
       if status \<noteq> OK then do {
         (inner, w) \<leftarrow> HeapFileScan_destroy w inner;
         Some (Some status, resultRel, resultTupCnt, w)
       }
       else do {
         (resultRel, inner, resultTupCnt, w) \<leftarrow> inner_loop w resultRel outer outerRec inner attrDesc1 attrDescs reclen resultTupCnt;
         (inner, w) \<leftarrow> HeapFileScan_destroy w inner;
         Some (None, resultRel, resultTupCnt, w)
       }
     }
   }"

partial_function (option) outer_loop ::
    "'a db_state_scheme \<Rightarrow> HeapFileScan \<Rightarrow> HeapFile \<Rightarrow> HeapFileScan \<Rightarrow> AttrDesc \<Rightarrow> AttrDesc \<Rightarrow> Operator \<Rightarrow> AttrDesc list \<Rightarrow> int \<Rightarrow> int \<Rightarrow>
     (Status option \<times> HeapFile \<times> HeapFileScan \<times> int \<times> 'a db_state_scheme) option" where
  "outer_loop w s resultRel outer attrDesc1 attrDesc2 myop attrDescs reclen resultTupCnt = do {
     (status, outerRID, outer, w) \<leftarrow> scanNext w outer NULLRID;
     if status \<noteq> OK then Some (None, resultRel, outer, resultTupCnt, w)
     else do {
       (status, outerRec) \<leftarrow> HeapFileScan_getRecord w outer no_rec;
       if status \<noteq> OK then None
       else do {
         (ret, resultRel, resultTupCnt, w) \<leftarrow> join_inner w s resultRel outer outerRec attrDesc1 attrDesc2 myop attrDescs reclen resultTupCnt;
         if ret \<noteq> None then Some (ret, resultRel, outer, resultTupCnt, w)
         else outer_loop w s resultRel outer attrDesc1 attrDesc2 myop attrDescs reclen resultTupCnt
       }
     }
   }"

text \<open>The part of the join after the attributes have been looked up.\<close>

definition join_files ::
    "'a db_state_scheme \<Rightarrow> HeapFileScan \<Rightarrow> HeapFile \<Rightarrow> string \<Rightarrow> AttrDesc \<Rightarrow> AttrDesc \<Rightarrow> Operator \<Rightarrow> AttrDesc list \<Rightarrow> (Status \<times> int \<times> 'a db_state_scheme) option" where
  "join_files w s h result attrDesc1 attrDesc2 op attrDescs = do {
     let reclen = fold (\<lambda>d n. swrap 4 (n + ad_attrLen d)) attrDescs 0;
     (status, resultRel, w) \<leftarrow> InsertFileScan_new w h result;
     if status \<noteq> OK then do {
       (resultRel, w) \<leftarrow> InsertFileScan_destroy w resultRel;
       Some (status, 0, w)
     }
     else if reclen < 1 then None
     else do {
       name1 \<leftarrow> relName_string attrDesc1;
       (status, outer, w) \<leftarrow> HeapFileScan_new w s name1;
       if status \<noteq> OK then do {
         (outer, w) \<leftarrow> HeapFileScan_destroy w outer;
         (resultRel, w) \<leftarrow> InsertFileScan_destroy w resultRel;
         Some (status, 0, w)
       }
       else do {
         let (status, outer) = startScan outer 0 0 0 None EQ;
         if status \<noteq> OK then do {
           (outer, w) \<leftarrow> HeapFileScan_destroy w outer;
           (resultRel, w) \<leftarrow> InsertFileScan_destroy w resultRel;
           Some (status, 0, w)
         }
         else do {
         (ret, resultRel, outer, resultTupCnt, w) \<leftarrow> outer_loop w s resultRel outer attrDesc1 attrDesc2 (swap_op op) attrDescs reclen 0;
         (outer, w) \<leftarrow> HeapFileScan_destroy w outer;
         (resultRel, w) \<leftarrow> InsertFileScan_destroy w resultRel;
         Some (case ret of None \<Rightarrow> OK | Some status \<Rightarrow> status, resultTupCnt, w)
         }
       }
     }
   }"

definition QU_NL_Join ::
    "AttrDesc \<Rightarrow> 'a db_state_scheme \<Rightarrow> HeapFileScan \<Rightarrow> HeapFile \<Rightarrow> string \<Rightarrow> attrInfo list \<Rightarrow> attrInfo \<Rightarrow> Operator \<Rightarrow> attrInfo \<Rightarrow>
     (Status \<times> string \<times> 'a db_state_scheme) option" where
  "QU_NL_Join ad w s h result projNames attr1 op attr2 =
     (if ai_attrType attr1 \<noteq> ai_attrType attr2 \<or> ai_attrLen attr1 \<noteq> ai_attrLen attr2 then Some (ATTRTYPEMISMATCH, [], w)
      else do {
        (status, attrDescs, w) \<leftarrow> lookup_attrs w s ad projNames;
        if status \<noteq> OK then Some (status, [], w) else do {
        (status, ds, w) \<leftarrow> lookup_attrs w s ad [attr1];
        if status \<noteq> OK then Some (status, [], w) else do {
        (status, ds', w) \<leftarrow> lookup_attrs w s ad [attr2];
        if status \<noteq> OK then Some (status, [], w) else do {
        (status, resultTupCnt, w) \<leftarrow> join_files w s h result (hd ds) (hd ds') op attrDescs;
        if status \<noteq> OK then Some (status, [], w)
        else Some (OK, ''tuple nested join produced '' @ int_str resultTupCnt @ '' result tuples '' @ [CHR 0x0A], w)
        }}}
      })"

text \<open>The other join methods are not implemented: they check the types and report an empty result.\<close>

definition QU_SM_Join :: "'a db_state_scheme \<Rightarrow> attrInfo \<Rightarrow> attrInfo \<Rightarrow> Status \<times> string \<times> 'a db_state_scheme" where
  "QU_SM_Join w attr1 attr2 =
     (if ai_attrType attr1 \<noteq> ai_attrType attr2 \<or> ai_attrLen attr1 \<noteq> ai_attrLen attr2 then (ATTRTYPEMISMATCH, [], w)
      else (OK, ''sm join produced 0 result tuples '' @ [CHR 0x0A], w))"

definition QU_Hash_Join :: "'a db_state_scheme \<Rightarrow> attrInfo \<Rightarrow> attrInfo \<Rightarrow> Status \<times> string \<times> 'a db_state_scheme" where
  "QU_Hash_Join w attr1 attr2 =
     (if ai_attrType attr1 \<noteq> ai_attrType attr2 \<or> ai_attrLen attr1 \<noteq> ai_attrLen attr2 then (ATTRTYPEMISMATCH, [], w)
      else (OK, ''blockNL Hash join produced 0 result tuples '' @ [CHR 0x0A], w))"

definition QU_Join ::
    "JoinType \<Rightarrow> AttrDesc \<Rightarrow> 'a db_state_scheme \<Rightarrow> HeapFileScan \<Rightarrow> HeapFile \<Rightarrow> string \<Rightarrow> attrInfo list \<Rightarrow> attrInfo \<Rightarrow> Operator \<Rightarrow> attrInfo \<Rightarrow>
     (Status \<times> string \<times> 'a db_state_scheme) option" where
  "QU_Join JoinMethod ad w s h result projNames attr1 op attr2 =
     (if JoinMethod = NLJoin \<or> JoinMethod = HashJoin \<and> op \<noteq> EQ then QU_NL_Join ad w s h result projNames attr1 op attr2
      else if JoinMethod = SMJoin then Some (QU_SM_Join w attr1 attr2)
      else Some (QU_Hash_Join w attr1 attr2))"

text \<open>The comparison function of \<open>join.cpp\<close>: the difference of two floats is rounded, then truncated.\<close>

fun single_minus :: "single \<Rightarrow> single \<Rightarrow> single" where
  "single_minus (Finite x) (Finite y) = round_single (x - y)"
| "single_minus (Finite x) (Infinite neg) = Infinite (\<not> neg)"
| "single_minus (Infinite neg) (Finite y) = Infinite neg"
| "single_minus (Infinite neg) (Infinite neg') = (if neg = neg' then NaN else Infinite neg)"
| "single_minus _ _ = NaN"

definition join_matchRec :: "byte list \<Rightarrow> byte list \<Rightarrow> AttrDesc \<Rightarrow> AttrDesc \<Rightarrow> int option" where
  "join_matchRec outerRec innerRec attrDesc1 attrDesc2 =
     (case Datatype_of_int (ad_attrType attrDesc1) of
        None \<Rightarrow> Some 0
      | Some t \<Rightarrow> do {
          p \<leftarrow> attr_ptr attrDesc1 outerRec;
          q \<leftarrow> attr_ptr attrDesc2 innerRec;
          case t of
            INTEGER \<Rightarrow> do { i \<leftarrow> int_at p; j \<leftarrow> int_at q; Some (swrap 4 (i - j)) }
          | FLOAT \<Rightarrow> do { x \<leftarrow> single_at p; y \<leftarrow> single_at q; single_to_int (single_minus x y) }
          | STRING \<Rightarrow> strcmp p q
        })"


section \<open>Selection, insertion, deletion\<close>

text \<open>\<open>ScanSelect\<close> prints a line and ends without \<open>return\<close>.\<close>

definition ScanSelect :: "'a db_state_scheme \<Rightarrow> string \<Rightarrow> AttrDesc list \<Rightarrow> AttrDesc \<Rightarrow> Operator \<Rightarrow> byte list \<Rightarrow> int \<Rightarrow> (Status \<times> 'a db_state_scheme) option" where
  "ScanSelect w result projNames attrDesc op flt reclen = None"

text \<open>
  \<open>i\<close> is the loop counter, which is not initialised; \<open>atoi\<close> and \<open>atof\<close> give the results of the library
  functions, the latter after the conversion to the \<open>int\<close> variable it is assigned to.
\<close>

definition QU_Select ::
    "int \<Rightarrow> (byte list \<Rightarrow> int) \<Rightarrow> (byte list \<Rightarrow> int) \<Rightarrow> AttrDesc \<Rightarrow> 'a db_state_scheme \<Rightarrow> HeapFileScan \<Rightarrow> string \<Rightarrow> attrInfo list \<Rightarrow> attrInfo option \<Rightarrow>
     Operator \<Rightarrow> byte list \<Rightarrow> (Status \<times> 'a db_state_scheme) option" where
  "QU_Select i atoi atof ad w s result projNames attr op attrValue =
     (if i < 0 then None
      else do {
        (status, projs, w) \<leftarrow> lookup_attrs w s ad (drop (nat i) projNames);
        if status \<noteq> OK then Some (status, w)
        else case attr of
          None \<Rightarrow> Some (ATTRTYPEMISMATCH, w)
        | Some attr \<Rightarrow> do {
            (status, ds, w) \<leftarrow> lookup_attrs w s ad [attr];
            if status \<noteq> OK then Some (status, w)
            else do {
              let attrDesc = hd ds;
              let change = (if ad_attrType attrDesc = 2 then int_bytes (atof attrValue)
                            else if ad_attrType attrDesc = 1 then int_bytes (atoi attrValue) else attrValue);
              ScanSelect w result (replicate (nat i) ad @ projs) attrDesc op change 0
            }
          }
      })"

definition QU_Insert :: "'a db_state_scheme \<Rightarrow> string \<Rightarrow> attrInfo list \<Rightarrow> Status \<times> 'a db_state_scheme" where
  "QU_Insert w relation attrList = (OK, w)"

definition QU_Delete :: "'a db_state_scheme \<Rightarrow> string \<Rightarrow> string \<Rightarrow> Operator \<Rightarrow> Datatype \<Rightarrow> byte list \<Rightarrow> Status \<times> 'a db_state_scheme" where
  "QU_Delete w relation attrName op type attrValue = (OK, w)"


section \<open>Partitions\<close>

record Partition =
  part_P :: int
  part_names :: "string list option"

definition part_name :: "string \<Rightarrow> nat \<Rightarrow> string" where
  "part_name fname p = ''/tmp/'' @ fname @ ''.'' @ nat_str p @ [char_of (0 :: nat)]"

fun open_parts :: "'a db_state_scheme \<Rightarrow> HeapFile \<Rightarrow> string list \<Rightarrow> (Status \<times> HeapFile list \<times> 'a db_state_scheme) option" where
  "open_parts w h [] = Some (OK, [], w)"
| "open_parts w h (nm # nms) = do {
     (status, part, w) \<leftarrow> InsertFileScan_new w h nm;
     if status \<noteq> OK then Some (status, [], w)
     else do {
       (status, parts, w) \<leftarrow> open_parts w h nms;
       Some (status, part # parts, w)
     }
   }"

partial_function (option) part_loop ::
    "(byte list \<Rightarrow> int \<Rightarrow> int) \<Rightarrow> int \<Rightarrow> 'a db_state_scheme \<Rightarrow> HeapFileScan \<Rightarrow> HeapFile list \<Rightarrow>
     (Status \<times> bool \<times> HeapFileScan \<times> HeapFile list \<times> 'a db_state_scheme) option" where
  "part_loop hashfcn P w rel parts = do {
     (status, rid, rel, w) \<leftarrow> scanNext w rel NULLRID;
     if status \<noteq> OK then Some (status, False, rel, parts, w)
     else do {
       (status, rec) \<leftarrow> HeapFileScan_getRecord w rel no_rec;
       if status \<noteq> OK then Some (status, True, rel, parts, w)
       else do {
         data \<leftarrow> rec_bytes w rel rec (ref_length rec);
         let p = hashfcn data P;
         if 0 \<le> p \<and> nat p < length parts then do {
           (status, rid, part, w) \<leftarrow> insertRecord w (parts ! nat p) \<lparr>rec_data = data, rec_length = ref_length rec\<rparr> rid;
           let parts = parts[nat p := part];
           if status \<noteq> OK then Some (status, True, rel, parts, w) else part_loop hashfcn P w rel parts
         }
         else None
       }
     }
   }"

fun close_parts :: "'a db_state_scheme \<Rightarrow> HeapFile list \<Rightarrow> 'a db_state_scheme option" where
  "close_parts w [] = Some w"
| "close_parts w (part # parts) = do {
     (part, w) \<leftarrow> InsertFileScan_destroy w part;
     close_parts w parts
   }"

definition Partition_new ::
    "(byte list \<Rightarrow> int \<Rightarrow> int) \<Rightarrow> 'a db_state_scheme \<Rightarrow> HeapFile \<Rightarrow> HeapFileScan \<Rightarrow> string \<Rightarrow> int \<Rightarrow>
     (Status \<times> Partition \<times> string list \<times> HeapFileScan \<times> 'a db_state_scheme) option" where
  "Partition_new hashfcn w h rel fname P =
     (if P < 0 then None
      else do {
        let names = map (part_name fname) [0..<nat P];
        (status, parts, w) \<leftarrow> open_parts w h names;
        if status \<noteq> OK
        then Some (status, \<lparr>part_P = P, part_names = None\<rparr>, map (\<lambda>i. if i \<le> length parts then part_name fname i else []) [0..<nat P], rel, w)
        else do {
          let this = \<lparr>part_P = P, part_names = Some names\<rparr>;
          let (status, rel) = startScan rel 0 4 1 None EQ;
          if status \<noteq> OK then Some (status, this, names, rel, w) else do {
          (status, early, rel, parts, w) \<leftarrow> part_loop hashfcn P w rel parts;
          if early \<or> status \<noteq> FILEEOF then Some (status, this, names, rel, w) else do {
          w \<leftarrow> close_parts w parts;
          (status, rel, w) \<leftarrow> endScan w rel;
          Some (status, this, names, rel, w)
          }}
        }
      })"

fun destroy_parts :: "'a db_state_scheme \<Rightarrow> string list \<Rightarrow> 'a db_state_scheme option" where
  "destroy_parts w [] = Some w"
| "destroy_parts w (nm # nms) = do {
     (status, w) \<leftarrow> DB_destroyFile w nm;
     destroy_parts w nms
   }"

definition Partition_destroy :: "'a db_state_scheme \<Rightarrow> Partition \<Rightarrow> 'a db_state_scheme option" where
  "Partition_destroy w p = (case part_names p of None \<Rightarrow> Some w | Some names \<Rightarrow> destroy_parts w names)"

end
