(* ===== verification/JoinCorrect.thy ===== *)
theory JoinCorrect
  imports JoinHT HeapCorrect
begin

text \<open>
  The hash table for joins is a multimap from attribute values to record identifiers.
\<close>

section \<open>Attributes as keys\<close>

text \<open>Two attributes have the same value: the reference for the comparison in \<open>lookup\<close>.\<close>

definition same_value :: "AttrDesc \<Rightarrow> byte list \<Rightarrow> byte list \<Rightarrow> bool" where
  "same_value a p q \<longleftrightarrow>
     (case Datatype_of_int (ad_attrType a) of
        Some INTEGER \<Rightarrow> int_at p = int_at q
      | Some FLOAT \<Rightarrow> single_eq (the (single_at p)) (the (single_at q))
      | Some STRING \<Rightarrow> c_string (take (nat (ad_attrLen a)) p) = c_string (take (nat (ad_attrLen a)) q)
      | None \<Rightarrow> False)"

text \<open>An attribute the table can handle: its bytes are there, a string ends inside it, and its hash value is defined.\<close>

definition hash_of :: "int \<Rightarrow> AttrDesc \<Rightarrow> byte list \<Rightarrow> int option" where
  "hash_of n a p = joinHashTbl_hash \<lparr>joinAttr = a, jt_HTSIZE = n, jt_ht = []\<rparr> p (ad_attrType a)"

definition joinable :: "int \<Rightarrow> AttrDesc \<Rightarrow> byte list \<Rightarrow> bool" where
  "joinable n a p \<longleftrightarrow> attr_value a p \<noteq> None \<and> hash_of n a p \<noteq> None \<and>
     (Datatype_of_int (ad_attrType a) = Some STRING \<longrightarrow> 0 \<in> set (take (nat (ad_attrLen a)) p))"

lemma hash_table: "jt_HTSIZE t = n \<Longrightarrow> joinHashTbl_hash t p (ad_attrType a) = hash_of n a p"
  by (simp add: joinHashTbl_hash_def hash_of_def)

lemma hash_bound: "hash_of n a p = Some i \<Longrightarrow> 0 < n \<Longrightarrow> 0 \<le> i \<and> i < n"
proof -
  assume a: "hash_of n a p = Some i" "0 < n"
  then obtain v where "i = \<bar>c_rem v n\<bar>" by (auto simp: hash_of_def joinHashTbl_hash_def split: bind_splits)
  moreover have "\<bar>\<bar>v\<bar> mod n\<bar> < n" using a(2) by simp
  ultimately show ?thesis using a(2) by (auto simp: c_rem_def abs_mult sgn_if)
qed

lemma string_hash_Cons: "string_hash v (c # d # ds) = (if c = 0 then Some v else string_hash (swrap 4 (swrap 4 (31 * v) + swrap 1 (uint d))) (d # ds))"
  by simp

lemma string_hash_c: "string_hash v (cs @ 0 # rest) = string_hash v (cs @ [0])" if "0 \<notin> set cs"
  using that
proof (induction cs arbitrary: v)
  case (Cons c cs)
  show ?case
  proof (cases cs)
    case ds: (Cons d ds)
    have "0 \<notin> set cs" using Cons.prems by simp
    from Cons.IH [OF this] show ?thesis by (simp only: ds append_Cons string_hash_Cons)
  qed simp
qed simp

lemma string_hash_same: "0 \<in> set p \<Longrightarrow> string_hash v p = string_hash v (c_string p @ [0])"
proof -
  assume "0 \<in> set p"
  then obtain cs rest where p: "p = cs @ 0 # rest" "0 \<notin> set cs" by (meson split_list_first)
  have "takeWhile (\<lambda>b. b \<noteq> 0) (cs @ 0 # rest) = cs" using p(2) by (induction cs) auto
  then have "c_string p = cs" by (simp add: c_string_def p(1))
  then show ?thesis using string_hash_c [OF p(2)] p(1) by simp
qed

lemma c_string_take: "0 \<in> set (take n p) \<Longrightarrow> c_string p = c_string (take n p)"
  using takeWhile_append1 [of 0 "take n p" "\<lambda>b. b \<noteq> 0" "drop n p"] by (simp add: c_string_def)

lemma single_eq_eq: "single_eq x y \<Longrightarrow> x = y"
  by (cases x; cases y) auto

lemma same_hash:
  assumes "joinable n a p" "joinable n a q" "same_value a p q"
  shows "hash_of n a p = hash_of n a q"
proof (cases "Datatype_of_int (ad_attrType a)")
  case (Some t)
  show ?thesis
  proof (cases t)
    case STRING
    then have z: "0 \<in> set (take (nat (ad_attrLen a)) p)" "0 \<in> set (take (nat (ad_attrLen a)) q)" using assms(1,2) Some by (simp_all add: joinable_def)
    then have "0 \<in> set p" "0 \<in> set q" by (meson in_set_takeD)+
    moreover have "c_string p = c_string q" using assms(3) Some STRING c_string_take [OF z(1)] c_string_take [OF z(2)] by (simp add: same_value_def)
    ultimately show ?thesis using string_hash_same [of p 0] string_hash_same [of q 0] Some STRING by (simp add: hash_of_def joinHashTbl_hash_def)
  next
    case INTEGER
    then show ?thesis using assms(3) Some by (simp add: same_value_def hash_of_def joinHashTbl_hash_def)
  next
    case FLOAT
    then have "single_at p \<noteq> None" "single_at q \<noteq> None" using assms(1,2) Some by (auto simp: joinable_def attr_value_def hash_of_def joinHashTbl_hash_def)
    then have "single_at p = single_at q" using assms(3) Some FLOAT single_eq_eq by (auto simp: same_value_def)
    then show ?thesis using Some FLOAT by (simp add: hash_of_def joinHashTbl_hash_def)
  qed
qed (use assms(3) in \<open>simp add: same_value_def\<close>)

lemma matches_same:
  assumes "joinable n a p" "joinable n a q"
  shows "bucket_matches a q \<lparr>jb_attrValue = the (attr_value a p), jb_rid = r\<rparr> = Some (same_value a p q)"
proof (cases "Datatype_of_int (ad_attrType a)")
  case None
  then show ?thesis by (simp add: bucket_matches_def same_value_def attr_value_def)
next
  case (Some t)
  show ?thesis
  proof (cases t)
    case STRING
    let ?n = "nat (ad_attrLen a)"
    have l: "?n \<le> length p" "?n \<le> length q" using assms Some STRING by (auto simp: joinable_def attr_value_def split: if_splits)
    then show ?thesis
      using strncmp_ref [of ?n "take ?n p" q] assms(1) Some STRING by (auto simp: bucket_matches_def same_value_def attr_value_def joinable_def Let_def split: if_splits)
  next
    case INTEGER
    then show ?thesis using assms Some by (auto simp: bucket_matches_def same_value_def attr_value_def joinable_def)
  next
    case FLOAT
    then show ?thesis using assms Some by (auto simp: bucket_matches_def same_value_def attr_value_def joinable_def)
  qed
qed

section \<open>The table as a multimap\<close>

definition entry_of :: "AttrDesc \<Rightarrow> RID \<times> byte list \<Rightarrow> joinhashBucket" where
  "entry_of a x = \<lparr>jb_attrValue = the (attr_value a (the (attr_ptr a (snd x)))), jb_rid = fst x\<rparr>"

definition chain_at :: "int \<Rightarrow> AttrDesc \<Rightarrow> (RID \<times> byte list) list \<Rightarrow> nat \<Rightarrow> joinhashBucket list" where
  "chain_at n a ins i = rev (map (entry_of a) (filter (\<lambda>x. hash_of n a (the (attr_ptr a (snd x))) = Some (int i)) ins))"

definition holds_pairs :: "joinHashTbl \<Rightarrow> int \<Rightarrow> AttrDesc \<Rightarrow> (RID \<times> byte list) list \<Rightarrow> bool" where
  "holds_pairs t n a ins \<longleftrightarrow> joinAttr t = a \<and> jt_HTSIZE t = n \<and> length (jt_ht t) = nat n \<and>
     (\<forall>i < nat n. jt_ht t ! i = \<lparr>bucketCnt = int (length (chain_at n a ins i)), je_chain = chain_at n a ins i\<rparr>)"

definition tuple_ok :: "int \<Rightarrow> AttrDesc \<Rightarrow> byte list \<Rightarrow> bool" where
  "tuple_ok n a tuple \<longleftrightarrow> (\<exists>p. attr_ptr a tuple = Some p \<and> joinable n a p)"

lemma holds_pairs_new: "0 < n \<Longrightarrow> \<exists>t. joinHashTbl_new n a = Some t \<and> holds_pairs t n a []"
  by (simp add: joinHashTbl_new_def holds_pairs_def chain_at_def)

lemma holds_pairs_insert:
  assumes t: "holds_pairs t n a ins" and n: "0 < n" and ok: "tuple_ok n a tuple"
  shows "\<exists>t'. joinHashTbl_insert t rid tuple = Some (OK, t') \<and> holds_pairs t' n a (ins @ [(rid, tuple)])"
proof -
  obtain p where p: "attr_ptr a tuple = Some p" "joinable n a p" using ok by (auto simp: tuple_ok_def)
  then obtain i v where i: "hash_of n a p = Some i" "attr_value a p = Some v" by (auto simp: joinable_def)
  have b: "0 \<le> i" "i < n" using hash_bound [OF i(1) n] by simp_all
  have s: "joinAttr t = a" "jt_HTSIZE t = n" "length (jt_ht t) = nat n"
     "\<And>j. j < nat n \<Longrightarrow> jt_ht t ! j = \<lparr>bucketCnt = int (length (chain_at n a ins j)), je_chain = chain_at n a ins j\<rparr>" using t by (simp_all add: holds_pairs_def)
  let ?e = "jt_ht t ! nat i"
  let ?t = "t\<lparr>jt_ht := (jt_ht t)[nat i := \<lparr>bucketCnt = bucketCnt ?e + 1, je_chain = \<lparr>jb_attrValue = v, jb_rid = rid\<rparr> # je_chain ?e\<rparr>]\<rparr>"
  have "joinHashTbl_insert t rid tuple = Some (OK, ?t)"
    using p(1) i b s(1-3) hash_table [OF s(2), of p a] by (simp add: joinHashTbl_insert_def Let_def)
  moreover have "chain_at n a (ins @ [(rid, tuple)]) j = (if j = nat i then [\<lparr>jb_attrValue = v, jb_rid = rid\<rparr>] else []) @ chain_at n a ins j" for j
    using p(1) i b by (auto simp: chain_at_def entry_of_def)
  ultimately show ?thesis using s b by (auto simp: holds_pairs_def nth_list_update)
qed

text \<open>Inserting many pairs.\<close>

fun insert_pairs :: "joinHashTbl \<Rightarrow> (RID \<times> byte list) list \<Rightarrow> joinHashTbl option" where
  "insert_pairs t [] = Some t"
| "insert_pairs t ((rid, tuple) # xs) = do {
     (status, t) \<leftarrow> joinHashTbl_insert t rid tuple;
     if status \<noteq> OK then None else insert_pairs t xs
   }"

lemma insert_pairs_holds:
  assumes "holds_pairs t n a ins" "0 < n" "\<forall>x \<in> set xs. tuple_ok n a (snd x)"
  shows "\<exists>t'. insert_pairs t xs = Some t' \<and> holds_pairs t' n a (ins @ xs)"
  using assms
proof (induction xs arbitrary: t ins)
  case (Cons x xs)
  obtain rid tuple where x: "x = (rid, tuple)" by (cases x)
  obtain t1 where t1: "joinHashTbl_insert t rid tuple = Some (OK, t1)" "holds_pairs t1 n a (ins @ [x])"
    using holds_pairs_insert [OF Cons.prems(1,2), of tuple rid] Cons.prems(3) x by auto
  then show ?case using Cons.IH [OF t1(2) Cons.prems(2)] Cons.prems(3) x by auto
qed simp

lemma collect_rids_eq:
  assumes "\<forall>b \<in> set bs. bucket_matches a p b = Some (M b)" "int (length outRids + length (filter M bs)) \<le> n"
  shows "collect_rids a p n outRids bs = Some (outRids @ map jb_rid (filter M bs))"
  using assms by (induction bs arbitrary: outRids) auto

lemma lookup_pairs:
  assumes t: "holds_pairs t n a ins" and n: "0 < n" and ok: "\<forall>x \<in> set ins. tuple_ok n a (snd x)" and q: "joinable n a q"
  defines "rids \<equiv> rev (map fst (filter (\<lambda>x. same_value a (the (attr_ptr a (snd x))) q) ins))"
  shows "joinHashTbl_lookup t q = Some (OK, int (length rids), rids)"
proof -
  obtain i where i: "hash_of n a q = Some i" using q by (auto simp: joinable_def)
  have b: "0 \<le> i" "i < n" using hash_bound [OF i n] by simp_all
  let ?c = "chain_at n a ins (nat i)"
  let ?same = "\<lambda>x. same_value a (the (attr_ptr a (snd x))) q"
  let ?M = "\<lambda>b. the (bucket_matches a q b)"
  have m: "bucket_matches a q (entry_of a x) = Some (?same x)" if "x \<in> set ins" for x
    using ok that q matches_same [of n a _ q] by (auto simp: tuple_ok_def entry_of_def)
  have sub: "set (filter (\<lambda>x. hash_of n a (the (attr_ptr a (snd x))) = Some (int (nat i))) ins) \<subseteq> set ins" by auto
  have "map jb_rid (filter ?M (map (entry_of a) xs)) = map fst (filter ?same xs)" if "set xs \<subseteq> set ins" for xs
    using that m by (induction xs) (auto simp: entry_of_def)
  from this [OF sub] have "map jb_rid (filter ?M ?c) = rev (map fst (filter ?same (filter (\<lambda>x. hash_of n a (the (attr_ptr a (snd x))) = Some (int (nat i))) ins)))"
    by (simp add: chain_at_def rev_map [symmetric] rev_filter [symmetric])
  moreover have "filter ?same (filter (\<lambda>x. hash_of n a (the (attr_ptr a (snd x))) = Some (int (nat i))) ins) = filter ?same ins"
    unfolding filter_filter
  proof (rule filter_cong [OF refl])
    fix x
    assume "x \<in> set ins"
    then show "(hash_of n a (the (attr_ptr a (snd x))) = Some (int (nat i)) \<and> ?same x) = ?same x"
      using same_hash [of n a _ q] q ok i b by (auto simp: tuple_ok_def)
  qed
  ultimately have r: "map jb_rid (filter ?M ?c) = rids" by (simp add: rids_def)
  have "\<forall>b \<in> set ?c. bucket_matches a q b = Some (?M b)" using m by (auto simp: chain_at_def)
  then have "collect_rids a q (int (length ?c)) [] ?c = Some rids"
    using collect_rids_eq [of ?c a q ?M "[]" "int (length ?c)"] r by (simp add: length_filter_le)
  then show ?thesis using t i b hash_table [of t n q a] by (simp add: joinHashTbl_lookup_def holds_pairs_def)
qed

text \<open>
  (C19) The join hash table is a multimap: after inserting any list of tuples into a new table, \<open>lookup\<close>
  of an attribute returns exactly the identifiers of the tuples with the same attribute value,
  latest first, and never writes behind the array it allocates.
\<close>

theorem joinht_lookup_correct:
  assumes "0 < n" "\<forall>x \<in> set ins. tuple_ok n a (snd x)" "joinable n a q"
    and "rids = rev (map fst (filter (\<lambda>x. same_value a (the (attr_ptr a (snd x))) q) ins))"
  shows "\<exists>t t'. joinHashTbl_new n a = Some t \<and> insert_pairs t ins = Some t' \<and> joinHashTbl_lookup t' q = Some (OK, int (length rids), rids)"
proof -
  obtain t where t: "joinHashTbl_new n a = Some t" "holds_pairs t n a []" using holds_pairs_new [OF assms(1)] by blast
  obtain t' where "insert_pairs t ins = Some t'" "holds_pairs t' n a ins" using insert_pairs_holds [OF t(2) assms(1,2)] by auto
  then show ?thesis using t(1) lookup_pairs [of t' n a ins q] assms by blast
qed


abbreviation sample_attr :: AttrDesc where
  "sample_attr \<equiv> \<lparr>ad_relName = [], ad_attrName = [], ad_attrOffset = 1, ad_attrType = 0, ad_attrLen = 3\<rparr>"

theorem joinht_lookup_correct_witness:
  "\<exists>t t'. joinHashTbl_new 5 sample_attr = Some t \<and> insert_pairs t [(RID 2 0, [9, 65, 0, 0]), (RID 2 1, [9, 66, 0, 0]), (RID 3 0, [8, 65, 0, 7])] = Some t' \<and>
     joinHashTbl_lookup t' [65, 0, 1] = Some (OK, 2, [RID 3 0, RID 2 0])"
proof -
  let ?ins = "[(RID 2 0, [9, 65, 0, 0]), (RID 2 1, [9, 66, 0, 0]), (RID 3 0, [8, 65, 0, 7 :: byte])]"
  have ok: "\<forall>x \<in> set ?ins. tuple_ok 5 sample_attr (snd x)" "joinable 5 sample_attr [65, 0, 1]"
    by (simp_all add: tuple_ok_def joinable_def attr_ptr_def attr_value_def hash_of_def joinHashTbl_hash_def numeral_3_eq_3)
  have eq: "[RID 3 0, RID 2 0] = rev (map fst (filter (\<lambda>x. same_value sample_attr (the (attr_ptr sample_attr (snd x))) [65, 0, 1]) ?ins))"
    by (simp add: same_value_def attr_ptr_def c_string_def numeral_3_eq_3)
  have "int (length [RID 3 0, RID 2 0]) = 2" "(0 :: int) < 5" by simp_all
  with joinht_lookup_correct [OF _ ok eq] show ?thesis by metis
qed

text \<open>
  (C36) The hash function does not spread integers: without overflow the value is a multiple of the
  table size, so that every integer attribute falls on chain 0.
\<close>

theorem joinht_integer_hash_zero:
  assumes "jt_HTSIZE t \<noteq> 0" "int_at p = Some i" "int_ok (i * jt_HTSIZE t)" "int_ok (i * jt_HTSIZE t * 31)"
  shows "joinHashTbl_hash t p 1 = Some 0"
proof -
  have "i * jt_HTSIZE t * 31 = (i * 31) * jt_HTSIZE t" by simp
  then have "\<bar>i * jt_HTSIZE t * 31\<bar> mod \<bar>jt_HTSIZE t\<bar> = 0" by (simp add: abs_mult)
  then show ?thesis using assms by (simp add: joinHashTbl_hash_def c_rem_def)
qed

theorem joinht_integer_hash_zero_witness:
  "joinHashTbl_hash \<lparr>joinAttr = sample_attr, jt_HTSIZE = 7, jt_ht = []\<rparr> [200, 1, 0, 0] 1 = Some 0"
proof (rule joinht_integer_hash_zero)
  show "int_at [200, 1, 0, 0] = Some 456" by code_simp
qed (simp_all only: int_ok_def joinHashTbl.simps, simp_all)

end
