(* ===== verification/JoinNL.thy ===== *)
theory JoinNL
  imports HeapJoint Query JoinCorrect
begin

text \<open>
  The nested loops join of \<open>join.cpp\<close>: the loop over the inner relation inserts one row for every
  record that the filter lets pass, the loop over the outer relation opens a new scan of the inner one
  for every record, and the whole is the theta join of the two relations.
\<close>

section \<open>Records that have been added\<close>

definition added :: "(RID \<Rightarrow> byte list option) \<Rightarrow> (RID \<Rightarrow> byte list option) \<Rightarrow> RID list \<Rightarrow> byte list list \<Rightarrow> bool" where
  "added R R' rids bs \<longleftrightarrow> length rids = length bs \<and> distinct rids \<and> set rids \<inter> dom R = {} \<and> R' = R ++ map_of (zip rids bs)"

lemma added_none: "added R R [] []"
  by (simp add: added_def)

lemma added_step:
  assumes "R rid = None" "added (R(rid \<mapsto> b)) R' rids bs"
  shows "added R R' (rid # rids) (b # bs)"
proof -
  have a: "length rids = length bs" "distinct rids" "rid \<notin> set rids" "set rids \<inter> dom R = {}" "R' = R(rid \<mapsto> b) ++ map_of (zip rids bs)"
    using assms(2) by (auto simp: added_def)
  have "R(rid \<mapsto> b) ++ map_of (zip rids bs) = R ++ map_of (zip (rid # rids) (b # bs))"
    using a(1,3) by (auto simp: map_add_def fun_eq_iff map_of_zip_nth dest: map_of_SomeD set_zip_leftD split: option.splits)
  then show ?thesis using assms(1) a by (auto simp: added_def)
qed

lemma added_append:
  assumes "added R R1 rids1 bs1" "added R1 R2 rids2 bs2"
  shows "added R R2 (rids1 @ rids2) (bs1 @ bs2)"
proof -
  have a: "length rids1 = length bs1" "distinct rids1" "set rids1 \<inter> dom R = {}" "R1 = R ++ map_of (zip rids1 bs1)"
    "length rids2 = length bs2" "distinct rids2" "set rids2 \<inter> dom R1 = {}" "R2 = R1 ++ map_of (zip rids2 bs2)"
    using assms by (simp_all add: added_def)
  have d1: "dom R1 = dom R \<union> set rids1" using a(1,4) by auto
  then have dj: "set rids1 \<inter> set rids2 = {}" "set rids2 \<inter> dom R = {}" using a(7) by auto
  have "dom (map_of (zip rids1 bs1)) \<inter> dom (map_of (zip rids2 bs2)) = {}" using a(1,5) dj(1) by simp
  then have "R2 = R ++ (map_of (zip rids2 bs2) ++ map_of (zip rids1 bs1))" using a(4) a(8) map_add_comm [of "map_of (zip rids1 bs1)" "map_of (zip rids2 bs2)"] by (metis map_add_assoc)
  also have "map_of (zip rids2 bs2) ++ map_of (zip rids1 bs1) = map_of (zip (rids1 @ rids2) (bs1 @ bs2))" using a(1) by (simp add: map_of_append)
  finally show ?thesis using a dj by (auto simp: added_def)
qed

section \<open>The objects of a join\<close>

definition joining :: "'a db_state_scheme \<Rightarrow> 'a db_state_scheme \<Rightarrow> nat \<Rightarrow> int \<Rightarrow> string \<Rightarrow> HeapFileScan \<Rightarrow> int list \<Rightarrow> item list \<Rightarrow>
    string \<Rightarrow> HeapFileScan \<Rightarrow> int list \<Rightarrow> item list \<Rightarrow> string \<Rightarrow> HeapFile \<Rightarrow> int list \<Rightarrow> int \<Rightarrow> bool" where
  "joining w0 w k N nm1 s1 ps1 items1 nm2 s2 ps2 items2 nm h ps n \<longleftrightarrow> db_inv w \<and> frames w = frames w0 \<and> resources w k N \<and> distinct [nm1, nm2, nm] \<and>
     owes w0 w (\<lambda>g q. its_pins s1 g q + its_pins s2 g q + its_pins h g q) (\<lambda>g. its_open s1 g + its_open s2 g + its_open h g) \<and>
     scanning w nm1 s1 ps1 items1 \<and> scanning w nm2 s2 ps2 items2 \<and> adding w nm h ps n"

lemma three_spare:
  assumes o: "owes w0 w (\<lambda>g q. its_pins s1 g q + its_pins s2 g q + its_pins h g q) C" and ok: "pool_ok w0" "frames w = frames w0" and sp: "spare w0 (6 + k)"
  shows "spare w k"
proof -
  let ?K = "its_pages s1 \<union> its_pages s2 \<union> its_pages h"
  have "card ?K \<le> card (its_pages s1) + card (its_pages s2) + card (its_pages h)"
    using card_Un_le [of "its_pages s1 \<union> its_pages s2" "its_pages h"] card_Un_le [of "its_pages s1" "its_pages s2"] by linarith
  also have "\<dots> \<le> 6" using its_pages_facts(2) [of s1] its_pages_facts(2) [of s2] its_pages_facts(2) [of h] by linarith
  finally have "spare w0 (card ?K + k)" using sp by (simp add: spare_def)
  then show ?thesis by (rule owes_spare [OF o ok, rotated -1]) (simp_all add: its_pages_facts)
qed

lemma joining_scan:
  assumes j: "joining w0 w k N nm1 s1 ps1 items1 nm2 s2 ps2 items2 nm h ps n" and ok: "pool_ok w0" "spare w0 7"
    and s: "scanning w' nm2 s2' ps2 items2'" "work w {nm2} 0 w'" "owes w w' (\<lambda>g q. its_pins s2' g q - its_pins s2 g q) (\<lambda>g. 0)" "filePtr s2' = filePtr s2"
  shows "joining w0 w' k N nm1 s1 ps1 items1 nm2 s2' ps2 items2' nm h ps n"
proof -
  have a: "db_inv w" "frames w = frames w0" "resources w k N" "distinct [nm1, nm2, nm]"
     "owes w0 w (\<lambda>g q. its_pins s1 g q + its_pins s2 g q + its_pins h g q) (\<lambda>g. its_open s1 g + its_open s2 g + its_open h g)"
     "scanning w nm1 s1 ps1 items1" "scanning w nm2 s2 ps2 items2" "adding w nm h ps n" using j unfolding joining_def by blast+
  note k = workD [OF s(2)]
  have o: "owes w0 w' (\<lambda>g q. its_pins s1 g q + its_pins s2' g q + its_pins h g q) (\<lambda>g. its_open s1 g + its_open s2' g + its_open h g)"
    using owes_trans [OF a(5) s(3)] s(4) by (simp add: owes_def its_open_def)
  have fr: "frames w' = frames w0" using a(2) k(2) by simp
  have sp: "spare w' 1" by (rule three_spare [OF o ok(1) fr]) (use ok(2) in simp)
  have "scanning w' nm1 s1 ps1 items1" by (rule scanning_work [OF a(6,1) s(2) _ sp]) (use a(4) in simp)
  moreover have "adding w' nm h ps n" by (rule adding_work(1) [OF a(8,1) s(2)]) (use a(4) in auto)
  moreover have "resources w' k N" using work_resources [OF s(2)] a(3) by simp
  ultimately show ?thesis using k(1) fr a(4) o s(1) unfolding joining_def by blast
qed

lemma joining_add:
  assumes j: "joining w0 w k N nm1 s1 ps1 items1 nm2 s2 ps2 items2 nm h ps n" and ok: "pool_ok w0" "spare w0 7"
    and s: "adding w' nm h' ps' n'" "work w {nm} 0 w'" "owes w w' (\<lambda>g q. its_pins h' g q - its_pins h g q) (\<lambda>g. 0)" "filePtr h' = filePtr h"
  shows "joining w0 w' k N nm1 s1 ps1 items1 nm2 s2 ps2 items2 nm h' ps' n'"
proof -
  have a: "db_inv w" "frames w = frames w0" "resources w k N" "distinct [nm1, nm2, nm]"
     "owes w0 w (\<lambda>g q. its_pins s1 g q + its_pins s2 g q + its_pins h g q) (\<lambda>g. its_open s1 g + its_open s2 g + its_open h g)"
     "scanning w nm1 s1 ps1 items1" "scanning w nm2 s2 ps2 items2" "adding w nm h ps n" using j unfolding joining_def by blast+
  note k = workD [OF s(2)]
  have o: "owes w0 w' (\<lambda>g q. its_pins s1 g q + its_pins s2 g q + its_pins h' g q) (\<lambda>g. its_open s1 g + its_open s2 g + its_open h' g)"
    using owes_trans [OF a(5) s(3)] s(4) by (simp add: owes_def its_open_def)
  have fr: "frames w' = frames w0" using a(2) k(2) by simp
  have sp: "spare w' 1" by (rule three_spare [OF o ok(1) fr]) (use ok(2) in simp)
  have "scanning w' nm1 s1 ps1 items1" by (rule scanning_work [OF a(6,1) s(2) _ sp]) (use a(4) in auto)
  moreover have "scanning w' nm2 s2 ps2 items2" by (rule scanning_work [OF a(7,1) s(2) _ sp]) (use a(4) in auto)
  moreover have "resources w' k N" using work_resources [OF s(2)] a(3) by simp
  ultimately show ?thesis using k(1) fr a(4) o s(1) unfolding joining_def by blast
qed

section \<open>The rows of a join\<close>

definition same_rel :: "AttrDesc \<Rightarrow> AttrDesc \<Rightarrow> bool" where
  "same_rel d a \<longleftrightarrow> zstring (ad_relName d) = zstring (ad_relName a)"

text \<open>The projected attributes, those of the relation of \<open>a\<close> from the outer record, the others from the inner one.\<close>

definition join_row :: "AttrDesc \<Rightarrow> AttrDesc list \<Rightarrow> byte list \<Rightarrow> byte list \<Rightarrow> byte list" where
  "join_row a ds ob ib = concat (map (\<lambda>d. take (nat (ad_attrLen d)) (drop (nat (ad_attrOffset d)) (if same_rel d a then ob else ib))) ds)"

definition fits :: "AttrDesc \<Rightarrow> AttrDesc list \<Rightarrow> byte list \<Rightarrow> byte list \<Rightarrow> bool" where
  "fits a ds ob ib \<longleftrightarrow> c_name (ad_relName a) \<and> (\<forall>d \<in> set ds. c_name (ad_relName d) \<and> 0 \<le> ad_attrOffset d \<and> 0 \<le> ad_attrLen d \<and>
     ad_attrOffset d + ad_attrLen d \<le> int (length (if same_rel d a then ob else ib)))"

definition row_len :: "AttrDesc list \<Rightarrow> int" where
  "row_len ds = (\<Sum>d\<leftarrow>ds. ad_attrLen d)"

lemma strcmp_zstring: "zstring b = Some xs \<Longrightarrow> zstring c = Some ys \<Longrightarrow> \<exists>d. strcmp b c = Some d \<and> (d = 0 \<longleftrightarrow> xs = ys)"
proof (induction b c arbitrary: xs ys rule: strcmp.induct)
  case (1 a as b bs)
  show ?case
  proof (cases "a = b \<and> a \<noteq> 0")
    case True
    then obtain xs' ys' where s: "zstring as = Some xs'" "zstring bs = Some ys'" "xs = a # xs'" "ys = b # ys'" using 1(2,3) by (auto simp: zstring_simps)
    then show ?thesis using 1(1) [OF _ _ s(1,2)] True by auto
  qed (use 1 in \<open>auto simp: zstring_simps split: if_splits\<close>)
qed (simp_all add: zstring_simps)

lemma strcmp_rel:
  assumes "c_name (ad_relName d)" "c_name (ad_relName a)"
  shows "\<exists>c. strcmp (AttrDesc_bytes d) (AttrDesc_bytes a) = Some c \<and> (c = 0 \<longleftrightarrow> same_rel d a)"
proof -
  obtain xs ys where z: "zstring (ad_relName d) = Some xs" "zstring (ad_relName a) = Some ys" using assms by (auto simp: c_name_def split: option.splits)
  then have "0 \<in> set (ad_relName d)" "0 \<in> set (ad_relName a)" by (auto simp: zstring_def split: if_splits)
  then have "zstring (AttrDesc_bytes d) = Some xs" "zstring (AttrDesc_bytes a) = Some ys" using z by (simp_all add: AttrDesc_bytes_def zstring_append)
  then show ?thesis using strcmp_zstring z by (simp add: same_rel_def)
qed

lemma join_output_row:
  assumes o: "rec_is w outer oref ob" and i: "rec_is w inner iref ib" and f: "fits a ds ob ib"
  shows "join_output w outer oref inner iref a ds = Some (join_row a ds ob ib)"
  using f
proof (induction ds)
  case (Cons d ds)
  have d: "c_name (ad_relName d)" "c_name (ad_relName a)" "0 \<le> ad_attrOffset d" "0 \<le> ad_attrLen d"
     "ad_attrOffset d + ad_attrLen d \<le> int (length (if same_rel d a then ob else ib))" "fits a ds ob ib" using Cons.prems by (simp_all add: fits_def)
  obtain c where c: "strcmp (AttrDesc_bytes d) (AttrDesc_bytes a) = Some c" "c = 0 \<longleftrightarrow> same_rel d a" using strcmp_rel [OF d(1,2)] by blast
  show ?case
  proof (cases "same_rel d a")
    case True
    then show ?thesis using rec_is_bytes [OF o d(3,4)] d(5,6) c Cons.IH by (simp add: join_row_def)
  next
    case False
    then show ?thesis using rec_is_bytes [OF i d(3,4)] d(5,6) c Cons.IH by (simp add: join_row_def)
  qed
qed (simp add: join_row_def)

lemma join_row_length: "fits a ds ob ib \<Longrightarrow> int (length (join_row a ds ob ib)) = row_len ds"
proof (induction ds)
  case (Cons d ds)
  have d: "0 \<le> ad_attrOffset d" "0 \<le> ad_attrLen d" "ad_attrOffset d + ad_attrLen d \<le> int (length (if same_rel d a then ob else ib))" "fits a ds ob ib"
    using Cons.prems by (simp_all add: fits_def)
  have "nat (ad_attrLen d) \<le> length (if same_rel d a then ob else ib) - nat (ad_attrOffset d)" using d(1-3) by linarith
  then show ?case using Cons.IH [OF d(4)] d(2) by (simp add: join_row_def row_len_def min_def)
qed (simp add: join_row_def row_len_def)

section \<open>The loop over the inner relation\<close>

lemma inner_loop_spec:
  assumes "joining w0 w k N nm1 outer ps1 items1 nm2 inner ps2 items nm h ps n" "pool_ok w0" "spare w0 7" "rec_is w outer oref ob" "n + int (length items) \<le> N"
    and "\<forall>x \<in> set items. fits a ds ob (snd x)" "0 < row_len ds" "row_len ds \<le> 1000" "0 \<le> cnt" "cnt + int (length items) < 2147483648"
  shows "\<exists>h' inner' w' ps' n' rids. inner_loop w h outer oref inner a ds (row_len ds) cnt = Some (h', inner', cnt + int (length items), w') \<and>
     joining w0 w' k N nm1 outer ps1 items1 nm2 inner' ps2 [] nm h' ps' n' \<and> n' \<le> n + int (length items) \<and> work w {nm2, nm} 0 w' \<and>
     filePtr h' = filePtr h \<and> filePtr inner' = filePtr inner \<and> lpage w' (filePtr inner) = lpage w (filePtr inner) \<and>
     added (recs_of w h ps) (recs_of w' h' ps') rids (map (\<lambda>x. join_row a ds ob (snd x)) items)"
  using assms
proof (induction items arbitrary: w h inner ps n cnt)
  case Nil
  have j: "db_inv w" "scanning w nm2 inner ps2 []" "distinct [nm1, nm2, nm]" "adding w nm h ps n" using Nil(1) unfolding joining_def by blast+
  obtain s2 w2 rid where r: "scanNext w inner NULLRID = Some (FILEEOF, rid, s2, w2)" "scanning w2 nm2 s2 ps2 []" "work w {nm2} 0 w2"
     "owes w w2 (\<lambda>g q. its_pins s2 g q - its_pins inner g q) (\<lambda>g. 0)" "filePtr s2 = filePtr inner" "lpage w2 (filePtr s2) = lpage w (filePtr inner)"
    using scan_end_work [OF j(2,1)] by blast
  have j2: "joining w0 w2 k N nm1 outer ps1 items1 nm2 s2 ps2 [] nm h ps n" by (rule joining_scan [OF Nil(1-3) r(2-5)])
  have "lpage w2 (filePtr h) = lpage w (filePtr h)" by (rule adding_work(2) [OF j(4,1) r(3)]) (use j(3) in auto)
  moreover have "inner_loop w h outer oref inner a ds (row_len ds) cnt = Some (h, s2, cnt, w2)" using r(1) by (subst inner_loop.simps) simp
  moreover have "work w {nm2, nm} 0 w2" by (rule work_mono [OF r(3)]) simp
  ultimately show ?case using j2 r(5,6) added_none
    by (intro exI [of _ h] exI [of _ s2] exI [of _ w2] exI [of _ ps] exI [of _ n] exI [of _ "[]"]) (simp add: added_none)
next
  case (Cons x items)
  obtain rid b where x: "x = (rid, b)" by (cases x)
  have j: "db_inv w" "scanning w nm2 inner ps2 ((rid, b) # items)" "distinct [nm1, nm2, nm]" "adding w nm h ps n" "scanning w nm1 outer ps1 items1"
    using Cons.prems(1) unfolding joining_def x by blast+
  have lv: "live_obj w nm1 outer ps1" "hf_curPage outer \<noteq> None" using j(5) by (simp_all add: scanning_def)
  obtain s2 w2 ref where r: "scanNext w inner NULLRID = Some (OK, rid, s2, w2)" "HeapFileScan_getRecord w2 s2 no_rec = Some (OK, ref)" "rec_is w2 s2 ref b"
     "scanning w2 nm2 s2 ps2 items" "work w {nm2} 0 w2"
     "owes w w2 (\<lambda>g q. its_pins s2 g q - its_pins inner g q) (\<lambda>g. 0)" "filePtr s2 = filePtr inner" "lpage w2 (filePtr s2) = lpage w (filePtr inner)"
    using scan_next_work [OF j(2,1)] by blast
  have j2: "joining w0 w2 k N nm1 outer ps1 items1 nm2 s2 ps2 items nm h ps n" by (rule joining_scan [OF Cons.prems(1-3) r(4-7)])
  have j2': "db_inv w2" "adding w2 nm h ps n" "scanning w2 nm1 outer ps1 items1" "frames w2 = frames w0" "resources w2 k N" "scanning w2 nm2 s2 ps2 items"
     "owes w0 w2 (\<lambda>g q. its_pins outer g q + its_pins s2 g q + its_pins h g q) (\<lambda>g. its_open outer g + its_open s2 g + its_open h g)"
    using j2 unfolding joining_def by blast+
  have lh: "lpage w2 (filePtr h) = lpage w (filePtr h)" by (rule adding_work(2) [OF j(4,1) r(5)]) (use j(3) in auto)
  have or: "rec_is w2 outer oref ob" by (rule rec_is_work [OF lv j(1) r(5) _ Cons.prems(4)]) (use j(3) in auto)
  have f: "fits a ds ob b" using Cons.prems(6) x by simp
  define bs where "bs = join_row a ds ob b"
  have out: "join_output w2 outer oref s2 ref a ds = Some bs" unfolding bs_def by (rule join_output_row [OF or r(3) f])
  have len: "int (length bs) = row_len ds" unfolding bs_def by (rule join_row_length [OF f])
  have st: "storable bs" "length bs \<le> 1000" using len Cons.prems(7,8) by linarith+
  have sp: "spare w2 1" by (rule three_spare [OF j2'(7) Cons.prems(2) j2'(4)]) (use Cons.prems(3) in simp)
  have nN: "n < N" using Cons.prems(5) by simp
  obtain orid h2 w3 ps3 n3 where i: "insertRecord w2 h \<lparr>rec_data = bs, rec_length = int (length bs)\<rparr> NULLRID = Some (OK, orid, h2, w3)" "adding w3 nm h2 ps3 n3" "n3 \<le> n + 1"
     "work w2 {nm} 0 w3" "owes w2 w3 (\<lambda>g q. its_pins h2 g q - its_pins h g q) (\<lambda>g. 0)" "filePtr h2 = filePtr h"
     "recs_of w2 h ps orid = None" "recs_of w3 h2 ps3 = (recs_of w2 h ps)(orid \<mapsto> bs)"
    using add_work [OF j2'(2,1) sp j2'(5) nN st, of NULLRID] by blast
  have j3: "joining w0 w3 k N nm1 outer ps1 items1 nm2 s2 ps2 items nm h2 ps3 n3" by (rule joining_add [OF j2 Cons.prems(2,3) i(2,4-6)])
  have lv2: "live_obj w2 nm1 outer ps1" "live_obj w2 nm2 s2 ps2" using j2'(3,6) by (simp_all add: scanning_def)
  have or3: "rec_is w3 outer oref ob" by (rule rec_is_work [OF lv2(1) lv(2) j2'(1) i(4) _ or]) (use j(3) in auto)
  have l3: "lpage w3 (filePtr s2) = lpage w2 (filePtr s2)" by (rule live_work(2) [OF lv2(2) j2'(1) i(4)]) (use j(3) in auto)
  have pre: "n3 + int (length items) \<le> N" "\<forall>x \<in> set items. fits a ds ob (snd x)" "0 \<le> cnt + 1" "cnt + 1 + int (length items) < 2147483648"
    using Cons.prems(5,6,9,10) i(3) by simp_all
  obtain h' inner' w' ps' n' rids where q: "inner_loop w3 h2 outer oref s2 a ds (row_len ds) (cnt + 1) = Some (h', inner', cnt + 1 + int (length items), w')"
     "joining w0 w' k N nm1 outer ps1 items1 nm2 inner' ps2 [] nm h' ps' n'" "n' \<le> n3 + int (length items)" "work w3 {nm2, nm} 0 w'"
     "filePtr h' = filePtr h2" "filePtr inner' = filePtr s2" "lpage w' (filePtr s2) = lpage w3 (filePtr s2)"
     "added (recs_of w3 h2 ps3) (recs_of w' h' ps') rids (map (\<lambda>x. join_row a ds ob (snd x)) items)"
    using Cons.IH [OF j3 Cons.prems(2,3) or3 pre(1,2) Cons.prems(7,8) pre(3,4)] by blast
  have cnt: "swrap 4 (cnt + 1) = cnt + 1" using Cons.prems(9,10) by (intro swrap_4) (simp add: int_ok_def)
  have run: "inner_loop w h outer oref inner a ds (row_len ds) cnt = Some (h', inner', cnt + int (length (x # items)), w')"
    using r(1,2) out i(1) len q(1) cnt by (subst inner_loop.simps) (simp add: add.assoc add.commute add.left_commute)
  have k1: "work w {nm2, nm} 0 w2" by (rule work_mono [OF r(5)]) simp
  have k2: "work w2 {nm2, nm} 0 w3" by (rule work_mono [OF i(4)]) simp
  have "work w {nm2, nm} 0 w'" using work_trans [OF j(1) k1 work_trans [OF j2'(1) k2 q(4)]] by simp
  moreover have "added (recs_of w h ps) (recs_of w' h' ps') (orid # rids) (map (\<lambda>x. join_row a ds ob (snd x)) (x # items))"
  proof -
    have "recs_of w h ps orid = None" "added ((recs_of w h ps)(orid \<mapsto> bs)) (recs_of w' h' ps') rids (map (\<lambda>x. join_row a ds ob (snd x)) items)"
      using i(7,8) q(8) lh by simp_all
    from added_step [OF this] show ?thesis by (simp add: bs_def x)
  qed
  moreover have "n' \<le> n + int (length (x # items))" using q(3) i(3) by simp
  moreover have "lpage w' (filePtr inner) = lpage w (filePtr inner)" using q(7) l3 r(7,8) by simp
  ultimately show ?case using run q(2) q(5,6) i(6) r(7)
    by (intro exI [of _ h'] exI [of _ inner'] exI [of _ w'] exI [of _ ps'] exI [of _ n'] exI [of _ "orid # rids"]) simp
qed

lemma selects_prefix:
  assumes "take (nat len) f = take (nat len) g" "nat len \<le> length f" "nat len \<le> length g" "0 \<le> len" "Datatype_of_int ty = Some t" "t \<noteq> STRING \<longrightarrow> len = 4"
  shows "selects off len ty (Some f) op = selects off len ty (Some g) op"
proof -
  have n: "f ! i = g ! i" if "i < nat len" for i using assms(1) that by (metis nth_take)
  have b: "bytes_mem f i = bytes_mem g i" if "i < nat len" for i using n [OF that] that assms(2,3) by (simp add: bytes_mem_def)
  have s: "strncmp as f k = strncmp as g k" if "take k f = take k g" "k \<le> length f" "k \<le> length g" for as k using that
  proof (induction as f k arbitrary: g rule: strncmp.induct)
    case (2 a as b bs n)
    then show ?case by (cases g) auto
  qed auto
  have "attr_diff t x f (nat len) = attr_diff t x g (nat len)" for x
    using assms s [of "nat len" x] b [of 0] b [of 1] b [of 2] b [of 3] by (cases t) (simp_all add: attr_diff_def get_int_def numeral_eq_Suc)
  then show ?thesis using assms(5) by (simp add: selects_def fun_eq_iff)
qed

lemma owes_diff: "owes w0 w P C \<Longrightarrow> owes w0 w' P' C' \<Longrightarrow> owes w w' (\<lambda>g q. P' g q - P g q) (\<lambda>g. C' g - C g)"
  by (simp add: owes_def)

lemma live_distinct: "live_obj w nm h ps \<Longrightarrow> live_obj w nm' h' ps' \<Longrightarrow> db_inv w \<Longrightarrow> nm \<noteq> nm' \<Longrightarrow> filePtr h \<noteq> filePtr h'"
  using open_inj [of w nm "filePtr h" nm'] by (auto simp: live_obj_def)

section \<open>One record of the outer relation\<close>

text \<open>The scan of the outer relation and the object that inserts into the result.\<close>

definition outer_state :: "'a db_state_scheme \<Rightarrow> 'a db_state_scheme \<Rightarrow> nat \<Rightarrow> int \<Rightarrow> string \<Rightarrow> HeapFileScan \<Rightarrow> int list \<Rightarrow> item list \<Rightarrow>
    string \<Rightarrow> HeapFile \<Rightarrow> int list \<Rightarrow> int \<Rightarrow> bool" where
  "outer_state w0 w k N nm1 s1 ps1 items1 nm h ps n \<longleftrightarrow> db_inv w \<and> frames w = frames w0 \<and> resources w k N \<and>
     owes w0 w (\<lambda>g q. its_pins s1 g q + its_pins h g q) (\<lambda>g. its_open s1 g + its_open h g) \<and>
     scanning w nm1 s1 ps1 items1 \<and> adding w nm h ps n"

lemma two_spare:
  assumes o: "owes w0 w (\<lambda>g q. its_pins s1 g q + its_pins h g q) C" and ok: "pool_ok w0" "frames w = frames w0" and sp: "spare w0 (4 + k)"
  shows "spare w k"
proof -
  let ?K = "its_pages s1 \<union> its_pages h"
  have "card ?K \<le> 4" using card_Un_le [of "its_pages s1" "its_pages h"] its_pages_facts(2) [of s1] its_pages_facts(2) [of h] by linarith
  then have "spare w0 (card ?K + k)" using sp by (simp add: spare_def)
  then show ?thesis by (rule owes_spare [OF o ok, rotated -1]) (simp_all add: its_pages_facts)
qed

text \<open>What the attribute descriptors of a join have to be.\<close>

definition join_attrs :: "AttrDesc \<Rightarrow> AttrDesc \<Rightarrow> bool" where
  "join_attrs a1 a2 \<longleftrightarrow> 0 \<le> ad_attrOffset a1 \<and> 0 \<le> ad_attrOffset a2 \<and> 1 \<le> ad_attrLen a2 \<and> int_ok (ad_attrOffset a2 + ad_attrLen a2) \<and>
     (case Datatype_of_int (ad_attrType a2) of None \<Rightarrow> False | Some t \<Rightarrow> t \<noteq> STRING \<longrightarrow> ad_attrLen a2 = 4)"

definition join_match :: "AttrDesc \<Rightarrow> AttrDesc \<Rightarrow> Operator \<Rightarrow> byte list \<Rightarrow> byte list \<Rightarrow> bool" where
  "join_match a1 a2 op ob ib \<longleftrightarrow> selects (ad_attrOffset a2) (ad_attrLen a2) (ad_attrType a2) (Some (drop (nat (ad_attrOffset a1)) ob)) op ib"

definition partners :: "AttrDesc \<Rightarrow> AttrDesc \<Rightarrow> Operator \<Rightarrow> byte list \<Rightarrow> item list \<Rightarrow> item list" where
  "partners a1 a2 op ob items = filter (\<lambda>x. join_match a1 a2 op ob (snd x)) items"

lemma inner_open:
  assumes j: "outer_state w0 w (Suc k) N nm1 s1 ps1 items1 nm h ps n" and t: "table w nm2 ps2 n2" "n2 \<le> N" and d: "distinct [nm1, nm2, nm]"
    and ok: "pool_ok w0" "spare w0 7" and r: "rec_is w s1 oref ob" and a: "join_attrs a1 a2" "ad_attrOffset a1 + ad_attrLen a2 \<le> int (length ob)"
  shows "\<exists>s1' w1 flt s2. HeapFileScan_new w s nm2 = Some (OK, s1', w1) \<and> rec_rest w1 s1 (oref\<lparr>ref_offset := ref_offset oref + ad_attrOffset a1\<rparr>) = Some flt \<and>
     startScan s1' (ad_attrOffset a2) (ad_attrLen a2) (ad_attrType a2) (Some flt) op = (OK, s2) \<and> filePtr s2 = handle w nm2 \<and>
     work w {nm2} (opens w nm2) w1 \<and> lpage w1 (filePtr s2) = file_view w nm2 \<and> lpage w1 (filePtr h) = lpage w (filePtr h) \<and> rec_is w1 s1 oref ob \<and>
     joining w0 w1 k N nm1 s1 ps1 items1 nm2 s2 ps2 (partners a1 a2 op ob (heap_items (file_view w nm2) ps2)) nm h ps n"
proof -
  have a': "db_inv w" "frames w = frames w0" "resources w (Suc k) N" "owes w0 w (\<lambda>g q. its_pins s1 g q + its_pins h g q) (\<lambda>g. its_open s1 g + its_open h g)"
     "scanning w nm1 s1 ps1 items1" "adding w nm h ps n" using j unfolding outer_state_def by blast+
  have lv: "live_obj w nm1 s1 ps1" "hf_curPage s1 \<noteq> None" using a'(5) by (simp_all add: scanning_def)
  have sp: "spare w 2" by (rule two_spare [OF a'(4) ok(1) a'(2)]) (use ok(2) in \<open>simp add: spare_def\<close>)
  have r1: "resources w 1 N" by (rule resources_mono [OF a'(3)]) simp
  obtain s0 w1 where o0: "HeapFileScan_new w s nm2 = Some (OK, s0, w1)" "work w {nm2} (opens w nm2) w1"
    using scan_open_work [OF a'(1) t(1) r1 t(2) sp, of 0 0 0 None s EQ] by (auto simp: filter_args_def)
  have or: "rec_is w1 s1 oref ob" by (rule rec_is_work [OF lv a'(1) o0(2) _ r]) (use d in auto)
  let ?o1 = "nat (ad_attrOffset a1)" and ?l = "nat (ad_attrLen a2)"
  obtain t2 where at: "0 \<le> ad_attrOffset a1" "0 \<le> ad_attrOffset a2" "1 \<le> ad_attrLen a2" "int_ok (ad_attrOffset a2 + ad_attrLen a2)"
     "Datatype_of_int (ad_attrType a2) = Some t2" "t2 \<noteq> STRING \<longrightarrow> ad_attrLen a2 = 4" using a(1) by (auto simp: join_attrs_def split: option.splits)
  have le: "ad_attrOffset a1 \<le> int (length ob)" using a(2) at(3) by simp
  obtain flt where f: "rec_rest w1 s1 (oref\<lparr>ref_offset := ref_offset oref + ad_attrOffset a1\<rparr>) = Some flt" "length ob - ?o1 \<le> length flt"
     "take (length ob - ?o1) flt = drop ?o1 ob" using rec_is_rest [OF or at(1) le] by blast
  have ll: "?l \<le> length ob - ?o1" using a(2) at(1,3) by linarith
  have fl: "?l \<le> length flt" "?l \<le> length (drop ?o1 ob)" using ll f(2) by simp_all
  have tk: "take ?l flt = take ?l (drop ?o1 ob)" using f(3) ll by (metis min.absorb1 take_take)
  have fa: "filter_args (ad_attrOffset a2) (ad_attrLen a2) (ad_attrType a2) (Some flt)" using at fl(1) by (simp add: filter_args_def)
  have sel: "selects (ad_attrOffset a2) (ad_attrLen a2) (ad_attrType a2) (Some flt) op = join_match a1 a2 op ob"
    using selects_prefix [OF tk fl _ at(5,6)] at(3) by (simp add: join_match_def fun_eq_iff)
  obtain s1' w1' s2 where n: "HeapFileScan_new w s nm2 = Some (OK, s1', w1')" "startScan s1' (ad_attrOffset a2) (ad_attrLen a2) (ad_attrType a2) (Some flt) op = (OK, s2)"
     "scanning w1' nm2 s2 ps2 (partners a1 a2 op ob (heap_items (file_view w nm2) ps2))" "filePtr s2 = handle w nm2"
     "owes w w1' (its_pins s2) (its_open s2)" "lpage w1' (filePtr s2) = file_view w nm2"
    using scan_open_work [OF a'(1) t(1) r1 t(2) sp fa, of s op] unfolding sel partners_def by blast
  have e: "s1' = s0" "w1' = w1" using n(1) o0(1) by simp_all
  note k1 = workD [OF o0(2)]
  have o: "owes w0 w1 (\<lambda>g q. its_pins s1 g q + its_pins s2 g q + its_pins h g q) (\<lambda>g. its_open s1 g + its_open s2 g + its_open h g)"
    using owes_trans [OF a'(4) n(5)] e by (simp add: owes_def)
  have fr: "frames w1 = frames w0" using a'(2) k1(2) by simp
  have sp1: "spare w1 1" by (rule three_spare [OF o ok(1) fr]) (use ok(2) in simp)
  have "scanning w1 nm1 s1 ps1 items1" by (rule scanning_work [OF a'(5,1) o0(2) _ sp1]) (use d in auto)
  moreover have "adding w1 nm h ps n" "lpage w1 (filePtr h) = lpage w (filePtr h)" using adding_work [OF a'(6,1) o0(2)] d by auto
  moreover have "resources w (opens w nm2 + k) N" by (rule resources_mono [OF a'(3)]) (use opens_le [of w nm2] in simp)
  then have "resources w1 k N" by (rule work_resources [OF o0(2)])
  ultimately have "joining w0 w1 k N nm1 s1 ps1 items1 nm2 s2 ps2 (partners a1 a2 op ob (heap_items (file_view w nm2) ps2)) nm h ps n" "lpage w1 (filePtr h) = lpage w (filePtr h)"
    using k1(1) fr d o n(3) e unfolding joining_def by blast+
  then show ?thesis using o0 f(1) n(2,4,6) or e by blast
qed

lemma inner_close:
  assumes j: "outer_state w0 w k' N nm1 s1 ps1 items1 nm h ps n" and t: "table w nm2 ps2 n2" and can: "can_open w nm2"
    and j3: "joining w0 w3 k N nm1 s1 ps1 items1 nm2 s2 ps2 items2 nm h3 ps3 n3" and ok: "pool_ok w0" "spare w0 7"
    and f: "filePtr s2 = handle w nm2" "filePtr h3 = filePtr h" "lpage w3 (filePtr s2) = file_view w nm2"
  shows "\<exists>s' w'. HeapFileScan_destroy w3 s2 = Some (s', w') \<and> work w3 {nm2} 0 w' \<and> outer_state w0 w' k N nm1 s1 ps1 items1 nm h3 ps3 n3 \<and>
     table w' nm2 ps2 n2 \<and> file_view w' nm2 = file_view w nm2 \<and> oft_map (openFiles w') nm2 = oft_map (openFiles w) nm2 \<and>
     lpage w' (filePtr h3) = lpage w3 (filePtr h3)"
proof -
  have a: "db_inv w" "frames w = frames w0" "owes w0 w (\<lambda>g q. its_pins s1 g q + its_pins h g q) (\<lambda>g. its_open s1 g + its_open h g)"
     using j unfolding outer_state_def by blast+
  have b: "db_inv w3" "frames w3 = frames w0" "resources w3 k N" "distinct [nm1, nm2, nm]"
     "owes w0 w3 (\<lambda>g q. its_pins s1 g q + its_pins s2 g q + its_pins h3 g q) (\<lambda>g. its_open s1 g + its_open s2 g + its_open h3 g)"
     "scanning w3 nm1 s1 ps1 items1" "scanning w3 nm2 s2 ps2 items2" "adding w3 nm h3 ps3 n3" using j3 unfolding joining_def by blast+
  have lv: "live_obj w3 nm1 s1 ps1" "live_obj w3 nm2 s2 ps2" "live_obj w3 nm h3 ps3" using b(6-8) by (simp_all add: scanning_def adding_def)
  have ne: "filePtr h3 \<noteq> filePtr s2" using live_distinct [OF lv(3,2) b(1)] b(4) by auto
  note o = owes_diff [OF a(3) b(5)]
  have P: "its_pins s1 (filePtr s2) q + its_pins s2 (filePtr s2) q + its_pins h3 (filePtr s2) q - (its_pins s1 (filePtr s2) q + its_pins h (filePtr s2) q) = own_pins s2 q" for q
    using ne f(2) by (simp add: its_pins_def)
  have C: "its_open s1 (filePtr s2) + its_open s2 (filePtr s2) + its_open h3 (filePtr s2) - (its_open s1 (filePtr s2) + its_open h (filePtr s2)) = 1"
    using ne f(2) by (simp add: its_open_def)
  note ow = own_only [OF a(1) can f(1) o, OF P C]
  have e: "end_page (lpage w3 (filePtr s2)) n2" using t f(3) by (simp add: table_def)
  obtain s' w' where d: "HeapFileScan_destroy w3 s2 = Some (s', w')" "work w3 {nm2} 0 w'" "table w' nm2 ps2 n2"
     "owes w3 w' (\<lambda>g q. - its_pins s2 g q) (\<lambda>g. - its_open s2 g)" "file_view w' nm2 = lpage w3 (filePtr s2)"
     "oft_map (openFiles w') nm2 = (if open_count w3 (filePtr s2) = 1 then None else Some (filePtr s2))"
    using scan_close_work [OF lv(2) b(1) ow(1) e] by blast
  note k = workD [OF d(2)]
  have o': "owes w0 w' (\<lambda>g q. its_pins s1 g q + its_pins h3 g q) (\<lambda>g. its_open s1 g + its_open h3 g)"
    using owes_trans [OF b(5) d(4)] by (simp add: owes_def)
  have fr: "frames w' = frames w0" using b(2) k(2) by simp
  have sp: "spare w' 1" by (rule two_spare [OF o' ok(1) fr]) (use ok(2) in \<open>simp add: spare_def\<close>)
  have "scanning w' nm1 s1 ps1 items1" by (rule scanning_work [OF b(6,1) d(2) _ sp]) (use b(4) in auto)
  moreover have "adding w' nm h3 ps3 n3" "lpage w' (filePtr h3) = lpage w3 (filePtr h3)" using adding_work [OF b(8,1) d(2)] b(4) by auto
  moreover have "resources w' k N" using work_resources [OF d(2)] b(3) by simp
  ultimately have "outer_state w0 w' k N nm1 s1 ps1 items1 nm h3 ps3 n3" "lpage w' (filePtr h3) = lpage w3 (filePtr h3)"
    using k(1) fr o' unfolding outer_state_def by blast+
  then show ?thesis using d(1-3,5,6) f(3) ow(2) by (intro exI [of _ s'] exI [of _ w']) simp
qed

lemma join_inner_spec:
  assumes j: "outer_state w0 w (Suc k) N nm1 s1 ps1 items1 nm h ps n" and t: "table w nm2 ps2 n2" "n2 \<le> N" and d: "distinct [nm1, nm2, nm]"
    and ok: "pool_ok w0" "spare w0 7" and r: "rec_is w s1 oref ob" and a: "join_attrs a1 a2" "ad_attrOffset a1 + ad_attrLen a2 \<le> int (length ob)"
    and nm: "relName_string a2 = Some nm2" and items: "items = partners a1 a2 op ob (heap_items (file_view w nm2) ps2)"
    and b: "n + int (length items) \<le> N" "\<forall>x \<in> set items. fits a1 ds ob (snd x)" "0 < row_len ds" "row_len ds \<le> 1000" "0 \<le> cnt" "cnt + int (length items) < 2147483648"
  shows "\<exists>h' w' ps' n' rids j. join_inner w s h s1 oref a1 a2 op ds (row_len ds) cnt = Some (None, h', cnt + int (length items), w') \<and>
     outer_state w0 w' k N nm1 s1 ps1 items1 nm h' ps' n' \<and> n' \<le> n + int (length items) \<and> work w {nm2, nm} j w' \<and> j \<le> 1 \<and>
     table w' nm2 ps2 n2 \<and> file_view w' nm2 = file_view w nm2 \<and> oft_map (openFiles w') nm2 = oft_map (openFiles w) nm2 \<and> filePtr h' = filePtr h \<and>
     added (recs_of w h ps) (recs_of w' h' ps') rids (map (\<lambda>x. join_row a1 ds ob (snd x)) items)"
proof -
  have a': "db_inv w" "frames w = frames w0" "resources w (Suc k) N" "owes w0 w (\<lambda>g q. its_pins s1 g q + its_pins h g q) (\<lambda>g. its_open s1 g + its_open h g)"
    using j unfolding outer_state_def by blast+
  have "spare w 2" by (rule two_spare [OF a'(4) ok(1) a'(2)]) (use ok(2) in \<open>simp add: spare_def\<close>)
  moreover have "resources w 1 N" by (rule resources_mono [OF a'(3)]) simp
  ultimately have can: "can_open w nm2" using table_ready(2) [OF a'(1) t(1) _ t(2)] by (simp add: ready_def)
  obtain s1' w1 flt s2 where o: "HeapFileScan_new w s nm2 = Some (OK, s1', w1)" "rec_rest w1 s1 (oref\<lparr>ref_offset := ref_offset oref + ad_attrOffset a1\<rparr>) = Some flt"
     "startScan s1' (ad_attrOffset a2) (ad_attrLen a2) (ad_attrType a2) (Some flt) op = (OK, s2)" "filePtr s2 = handle w nm2"
     "work w {nm2} (opens w nm2) w1" "lpage w1 (filePtr s2) = file_view w nm2" "lpage w1 (filePtr h) = lpage w (filePtr h)" "rec_is w1 s1 oref ob"
     "joining w0 w1 k N nm1 s1 ps1 items1 nm2 s2 ps2 items nm h ps n"
    using inner_open [OF j t d ok r a, of s op] unfolding items by blast
  obtain h3 s3 w3 ps3 n3 rids where q: "inner_loop w1 h s1 oref s2 a1 ds (row_len ds) cnt = Some (h3, s3, cnt + int (length items), w3)"
     "joining w0 w3 k N nm1 s1 ps1 items1 nm2 s3 ps2 [] nm h3 ps3 n3" "n3 \<le> n + int (length items)" "work w1 {nm2, nm} 0 w3" "filePtr h3 = filePtr h" "filePtr s3 = filePtr s2"
     "lpage w3 (filePtr s2) = lpage w1 (filePtr s2)" "added (recs_of w1 h ps) (recs_of w3 h3 ps3) rids (map (\<lambda>x. join_row a1 ds ob (snd x)) items)"
    using inner_loop_spec [OF o(9) ok o(8) b] by blast
  have s3: "filePtr s3 = handle w nm2" "lpage w3 (filePtr s3) = file_view w nm2" using q(6,7) o(4,6) by simp_all
  obtain s4 w4 where c: "HeapFileScan_destroy w3 s3 = Some (s4, w4)" "work w3 {nm2} 0 w4" "outer_state w0 w4 k N nm1 s1 ps1 items1 nm h3 ps3 n3"
     "table w4 nm2 ps2 n2" "file_view w4 nm2 = file_view w nm2" "oft_map (openFiles w4) nm2 = oft_map (openFiles w) nm2" "lpage w4 (filePtr h3) = lpage w3 (filePtr h3)"
    using inner_close [OF j t(1) can q(2) ok s3(1) q(5) s3(2)] by blast
  have run: "join_inner w s h s1 oref a1 a2 op ds (row_len ds) cnt = Some (None, h3, cnt + int (length items), w4)"
    using nm o(1-3) q(1) c(1) by (simp add: join_inner_def)
  have k1: "work w {nm2, nm} (opens w nm2) w1" by (rule work_mono [OF o(5)]) simp
  have k2: "work w3 {nm2, nm} 0 w4" by (rule work_mono [OF c(2)]) simp
  have "work w {nm2, nm} (opens w nm2) w4" using work_trans [OF a'(1) k1 work_trans [OF workD(1) [OF k1] q(4) k2]] by simp
  moreover have "added (recs_of w h ps) (recs_of w4 h3 ps3) rids (map (\<lambda>x. join_row a1 ds ob (snd x)) items)" using q(8) o(7) c(7) by simp
  ultimately show ?thesis using run c(3-6) q(3,5) opens_le [of w nm2] by blast
qed

section \<open>The loop over the outer relation\<close>

text \<open>The rows of the result, in the order in which they are inserted.\<close>

definition join_rows :: "AttrDesc \<Rightarrow> AttrDesc \<Rightarrow> Operator \<Rightarrow> AttrDesc list \<Rightarrow> item list \<Rightarrow> item list \<Rightarrow> byte list list" where
  "join_rows a1 a2 op ds items1 items2 = concat (map (\<lambda>x. map (\<lambda>y. join_row a1 ds (snd x) (snd y)) (partners a1 a2 op (snd x) items2)) items1)"

definition join_ok :: "AttrDesc \<Rightarrow> AttrDesc \<Rightarrow> AttrDesc list \<Rightarrow> item list \<Rightarrow> item list \<Rightarrow> bool" where
  "join_ok a1 a2 ds items1 items2 \<longleftrightarrow> join_attrs a1 a2 \<and> 0 < row_len ds \<and> row_len ds \<le> 1000 \<and>
     (\<forall>x \<in> set items1. ad_attrOffset a1 + ad_attrLen a2 \<le> int (length (snd x)) \<and> (\<forall>y \<in> set items2. fits a1 ds (snd x) (snd y)))"

lemma join_rows_Cons: "join_rows a1 a2 op ds (x # items1) items2 = map (\<lambda>y. join_row a1 ds (snd x) (snd y)) (partners a1 a2 op (snd x) items2) @ join_rows a1 a2 op ds items1 items2"
  by (simp add: join_rows_def)

lemma outer_scan:
  assumes j: "outer_state w0 w k N nm1 s1 ps1 items1 nm h ps n" and ok: "pool_ok w0" "spare w0 7" and d: "nm1 \<noteq> nm"
    and s: "scanning w' nm1 s1' ps1 items1'" "work w {nm1} 0 w'" "owes w w' (\<lambda>g q. its_pins s1' g q - its_pins s1 g q) (\<lambda>g. 0)" "filePtr s1' = filePtr s1"
  shows "outer_state w0 w' k N nm1 s1' ps1 items1' nm h ps n" "lpage w' (filePtr h) = lpage w (filePtr h)"
proof -
  have a: "db_inv w" "frames w = frames w0" "resources w k N" "owes w0 w (\<lambda>g q. its_pins s1 g q + its_pins h g q) (\<lambda>g. its_open s1 g + its_open h g)"
     "adding w nm h ps n" using j unfolding outer_state_def by blast+
  note k = workD [OF s(2)]
  have "owes w0 w' (\<lambda>g q. its_pins s1' g q + its_pins h g q) (\<lambda>g. its_open s1' g + its_open h g)"
    using owes_trans [OF a(4) s(3)] s(4) by (simp add: owes_def its_open_def)
  moreover have "resources w' k N" using work_resources [OF s(2)] a(3) by simp
  moreover have "adding w' nm h ps n" by (rule adding_work(1) [OF a(5,1) s(2)]) (use d in auto)
  ultimately show "outer_state w0 w' k N nm1 s1' ps1 items1' nm h ps n" using k(1,2) a(2) s(1) unfolding outer_state_def by simp
  show "lpage w' (filePtr h) = lpage w (filePtr h)" by (rule adding_work(2) [OF a(5,1) s(2)]) (use d in auto)
qed

lemma outer_loop_spec:
  assumes "outer_state w0 w (length items1 + k) N nm1 s1 ps1 items1 nm h ps n" "table w nm2 ps2 n2" "n2 \<le> N" "distinct [nm1, nm2, nm]" "pool_ok w0" "spare w0 7"
    and "relName_string a2 = Some nm2" "heap_items (file_view w nm2) ps2 = items2" "join_ok a1 a2 ds items1 items2"
    and "n + int (length (join_rows a1 a2 op ds items1 items2)) \<le> N" "0 \<le> cnt" "cnt + int (length (join_rows a1 a2 op ds items1 items2)) < 2147483648"
  shows "\<exists>h' s1' w' ps' n' rids j. outer_loop w s h s1 a1 a2 op ds (row_len ds) cnt = Some (None, h', s1', cnt + int (length (join_rows a1 a2 op ds items1 items2)), w') \<and>
     outer_state w0 w' k N nm1 s1' ps1 [] nm h' ps' n' \<and> n' \<le> n + int (length (join_rows a1 a2 op ds items1 items2)) \<and> work w {nm1, nm2, nm} j w' \<and> j \<le> length items1 \<and>
     table w' nm2 ps2 n2 \<and> file_view w' nm2 = file_view w nm2 \<and> oft_map (openFiles w') nm2 = oft_map (openFiles w) nm2 \<and> filePtr h' = filePtr h \<and>
     filePtr s1' = filePtr s1 \<and> lpage w' (filePtr s1) = lpage w (filePtr s1) \<and>
     added (recs_of w h ps) (recs_of w' h' ps') rids (join_rows a1 a2 op ds items1 items2)"
  using assms
proof (induction items1 arbitrary: w h s1 ps n cnt)
  case Nil
  have j: "db_inv w" "scanning w nm1 s1 ps1 []" "adding w nm h ps n" using Nil(1) unfolding outer_state_def by blast+
  have d: "nm1 \<noteq> nm" "nm2 \<notin> {nm1}" using Nil(4) by auto
  obtain s2 w2 rid where r: "scanNext w s1 NULLRID = Some (FILEEOF, rid, s2, w2)" "scanning w2 nm1 s2 ps1 []" "work w {nm1} 0 w2"
     "owes w w2 (\<lambda>g q. its_pins s2 g q - its_pins s1 g q) (\<lambda>g. 0)" "filePtr s2 = filePtr s1" "lpage w2 (filePtr s2) = lpage w (filePtr s1)"
    using scan_end_work [OF j(2,1)] by blast
  have j0: "outer_state w0 w k N nm1 s1 ps1 [] nm h ps n" using Nil(1) by simp
  note j2 = outer_scan [OF j0 Nil(5,6) d(1) r(2-5)]
  have "outer_loop w s h s1 a1 a2 op ds (row_len ds) cnt = Some (None, h, s2, cnt, w2)" using r(1) by (subst outer_loop.simps) simp
  moreover have "work w {nm1, nm2, nm} 0 w2" by (rule work_mono [OF r(3)]) simp
  moreover have "table w2 nm2 ps2 n2" by (rule work_table [OF r(3) j(1) d(2) Nil(2)])
  moreover have "added (recs_of w h ps) (recs_of w2 h ps) [] (join_rows a1 a2 op ds [] items2)" using j2(2) by (simp add: join_rows_def added_none)
  ultimately show ?case using j2(1) r(5,6) workD(6,7) [OF r(3) d(2)]
    by (intro exI [of _ h] exI [of _ s2] exI [of _ w2] exI [of _ ps] exI [of _ n] exI [of _ "[]"] exI [of _ "0 :: nat"]) (simp add: join_rows_def)
next
  case (Cons x items1)
  obtain rid ob where x: "x = (rid, ob)" by (cases x)
  have j: "db_inv w" "scanning w nm1 s1 ps1 ((rid, ob) # items1)" "adding w nm h ps n" using Cons.prems(1) unfolding outer_state_def x by blast+
  have d: "nm1 \<noteq> nm" "nm2 \<notin> {nm1}" using Cons.prems(4) by auto
  obtain s2 w2 ref where r: "scanNext w s1 NULLRID = Some (OK, rid, s2, w2)" "HeapFileScan_getRecord w2 s2 no_rec = Some (OK, ref)" "rec_is w2 s2 ref ob"
     "scanning w2 nm1 s2 ps1 items1" "work w {nm1} 0 w2"
     "owes w w2 (\<lambda>g q. its_pins s2 g q - its_pins s1 g q) (\<lambda>g. 0)" "filePtr s2 = filePtr s1" "lpage w2 (filePtr s2) = lpage w (filePtr s1)"
    using scan_next_work [OF j(2,1)] by blast
  note j2 = outer_scan [OF Cons.prems(1,5,6) d(1) r(4-7)]
  have t2: "table w2 nm2 ps2 n2" by (rule work_table [OF r(5) j(1) d(2) Cons.prems(2)])
  have v2: "file_view w2 nm2 = file_view w nm2" "oft_map (openFiles w2) nm2 = oft_map (openFiles w) nm2" using workD(6,7) [OF r(5) d(2)] by simp_all
  let ?ps = "partners a1 a2 op ob items2" and ?rest = "join_rows a1 a2 op ds items1 items2"
  have jo: "join_attrs a1 a2" "0 < row_len ds" "row_len ds \<le> 1000" "ad_attrOffset a1 + ad_attrLen a2 \<le> int (length ob)" "\<forall>y \<in> set ?ps. fits a1 ds ob (snd y)"
     "join_ok a1 a2 ds items1 items2" using Cons.prems(9) x by (auto simp: join_ok_def partners_def)
  have len: "int (length (join_rows a1 a2 op ds (x # items1) items2)) = int (length ?ps) + int (length ?rest)" by (simp add: join_rows_Cons x)
  have j2': "outer_state w0 w2 (Suc (length items1 + k)) N nm1 s2 ps1 items1 nm h ps n" using j2(1) by simp
  have it: "?ps = partners a1 a2 op ob (heap_items (file_view w2 nm2) ps2)" using Cons.prems(8) v2(1) by simp
  have b: "n + int (length ?ps) \<le> N" "cnt + int (length ?ps) < 2147483648" using Cons.prems(10,12) len by linarith+
  obtain h3 w3 ps3 n3 rids i where q: "join_inner w2 s h s2 ref a1 a2 op ds (row_len ds) cnt = Some (None, h3, cnt + int (length ?ps), w3)"
     "outer_state w0 w3 (length items1 + k) N nm1 s2 ps1 items1 nm h3 ps3 n3" "n3 \<le> n + int (length ?ps)" "work w2 {nm2, nm} i w3" "i \<le> 1"
     "table w3 nm2 ps2 n2" "file_view w3 nm2 = file_view w2 nm2" "oft_map (openFiles w3) nm2 = oft_map (openFiles w2) nm2" "filePtr h3 = filePtr h"
     "added (recs_of w2 h ps) (recs_of w3 h3 ps3) rids (map (\<lambda>y. join_row a1 ds ob (snd y)) ?ps)"
    using join_inner_spec [OF j2' t2 Cons.prems(3-6) r(3) jo(1,4) Cons.prems(7) it b(1) jo(5,2,3) Cons.prems(11) b(2), of s] by blast
  have inv2: "db_inv w2" and l2: "live_obj w2 nm1 s2 ps1" using j2' unfolding outer_state_def scanning_def by blast+
  have l3: "lpage w3 (filePtr s2) = lpage w2 (filePtr s2)" by (rule live_work(2) [OF l2 inv2 q(4)]) (use Cons.prems(4) in auto)
  have v3: "heap_items (file_view w3 nm2) ps2 = items2" using q(7) v2(1) Cons.prems(8) by simp
  have b3: "n3 + int (length ?rest) \<le> N" "0 \<le> cnt + int (length ?ps)" "cnt + int (length ?ps) + int (length ?rest) < 2147483648"
    using Cons.prems(10-12) len q(3) by linarith+
  obtain h' s1' w' ps' n' rids' i' where e: "outer_loop w3 s h3 s2 a1 a2 op ds (row_len ds) (cnt + int (length ?ps)) = Some (None, h', s1', cnt + int (length ?ps) + int (length ?rest), w')"
     "outer_state w0 w' k N nm1 s1' ps1 [] nm h' ps' n'" "n' \<le> n3 + int (length ?rest)" "work w3 {nm1, nm2, nm} i' w'" "i' \<le> length items1"
     "table w' nm2 ps2 n2" "file_view w' nm2 = file_view w3 nm2" "oft_map (openFiles w') nm2 = oft_map (openFiles w3) nm2" "filePtr h' = filePtr h3"
     "filePtr s1' = filePtr s2" "lpage w' (filePtr s2) = lpage w3 (filePtr s2)" "added (recs_of w3 h3 ps3) (recs_of w' h' ps') rids' ?rest"
    using Cons.IH [OF q(2,6) Cons.prems(3-7) v3 jo(6) b3] by blast
  have run: "outer_loop w s h s1 a1 a2 op ds (row_len ds) cnt = Some (None, h', s1', cnt + int (length (join_rows a1 a2 op ds (x # items1) items2)), w')"
    using r(1,2) q(1) e(1) len by (subst outer_loop.simps) (simp add: add.assoc)
  have k1: "work w {nm1, nm2, nm} 0 w2" by (rule work_mono [OF r(5)]) simp
  have k2: "work w2 {nm1, nm2, nm} i w3" by (rule work_mono [OF q(4)]) auto
  have k: "work w {nm1, nm2, nm} (i + i') w'" using work_trans [OF j(1) k1 work_trans [OF inv2 k2 e(4)]] by simp
  have ad: "added (recs_of w h ps) (recs_of w' h' ps') (rids @ rids') (join_rows a1 a2 op ds (x # items1) items2)"
    using added_append [OF q(10) e(12)] j2(2) by (simp add: join_rows_Cons x)
  have n': "n' \<le> n + int (length (join_rows a1 a2 op ds (x # items1) items2))" "i + i' \<le> length (x # items1)" using q(3,5) e(3,5) len by simp_all
  show ?case using run e(2,6) n' k ad e(7-11) q(7-9) v2 r(7,8) l3
    by (intro exI [of _ h'] exI [of _ s1'] exI [of _ w'] exI [of _ ps'] exI [of _ n'] exI [of _ "rids @ rids'"] exI [of _ "i + i'"]) simp
qed

section \<open>The join of two relations\<close>

lemma row_len_reclen:
  assumes "\<forall>d \<in> set ds. 0 \<le> ad_attrLen d" "0 \<le> k" "k + row_len ds < 2147483648"
  shows "fold (\<lambda>d n. swrap 4 (n + ad_attrLen d)) ds k = k + row_len ds"
  using assms
proof (induction ds arbitrary: k)
  case (Cons d ds)
  have "0 \<le> row_len ds" unfolding row_len_def using Cons.prems(1) by (intro sum_list_nonneg) auto
  then have "int_ok (k + ad_attrLen d)" "k + ad_attrLen d + row_len ds < 2147483648" "0 \<le> k + ad_attrLen d" using Cons.prems by (auto simp: int_ok_def row_len_def)
  then show ?case using Cons.IH [of "k + ad_attrLen d"] Cons.prems(1) by (simp add: swrap_4 row_len_def)
qed (simp add: row_len_def)

lemma outer_open:
  assumes inv: "db_inv w" and t1: "table w nm1 ps1 n1" "n1 \<le> N" and t: "table w nm ps n" "n \<le> N" and d: "nm1 \<noteq> nm"
    and r: "resources w (Suc (Suc k)) N" and sp: "spare w 7"
  shows "\<exists>h1 w1 s1 w2 s2. InsertFileScan_new w h nm = Some (OK, h1, w1) \<and> HeapFileScan_new w1 s nm1 = Some (OK, s1, w2) \<and> startScan s1 0 0 0 None EQ = (OK, s2) \<and>
     filePtr h1 = handle w nm \<and> filePtr s2 = handle w1 nm1 \<and> work w {nm} (opens w nm) w1 \<and> work w1 {nm1} (opens w1 nm1) w2 \<and> owes w w1 (its_pins h1) (its_open h1) \<and>
     lpage w2 (filePtr h1) = file_view w nm \<and> lpage w2 (filePtr s2) = file_view w nm1 \<and> can_open w nm \<and> can_open w1 nm1 \<and>
     outer_state w w2 k N nm1 s2 ps1 (heap_items (file_view w nm1) ps1) nm h1 ps n"
proof -
  have sp2: "spare w 2" using sp by (simp add: spare_def)
  have r1: "resources w 1 N" by (rule resources_mono [OF r]) simp
  obtain h1 w1 where o: "InsertFileScan_new w h nm = Some (OK, h1, w1)" "adding w1 nm h1 ps n" "filePtr h1 = handle w nm" "work w {nm} (opens w nm) w1"
     "owes w w1 (its_pins h1) (its_open h1)" "lpage w1 (filePtr h1) = file_view w nm"
    using add_open_work [OF inv t(1) r1 t(2) sp2, of h] by blast
  note k1 = workD [OF o(4)]
  have t1': "table w1 nm1 ps1 n1" by (rule work_table [OF o(4) inv _ t1(1)]) (use d in simp)
  have v1: "file_view w1 nm1 = file_view w nm1" using k1(7) d by simp
  have "resources w (opens w nm + Suc k) N" by (rule resources_mono [OF r]) (use opens_le [of w nm] in simp)
  then have r2: "resources w1 (Suc k) N" by (rule work_resources [OF o(4)])
  have r3: "resources w1 1 N" by (rule resources_mono [OF r2]) simp
  have ok: "pool_ok w" by (rule db_inv_pool [OF inv])
  have sp3: "spare w1 2"
  proof (rule owes_spare [OF o(5) ok k1(2)])
    show "finite (its_pages h1)" by (rule its_pages_facts(1))
    show "its_pins h1 g q \<le> 0" if "(g, q) \<notin> its_pages h1" for g q using its_pages_facts(3) [OF that] by simp
    show "spare w (card (its_pages h1) + 2)" using its_pages_facts(2) [of h1] sp by (simp add: spare_def)
  qed
  have fa: "filter_args 0 0 0 None" by (simp add: filter_args_def)
  have sel: "filter (\<lambda>x. selects 0 0 0 None EQ (snd x)) xs = xs" for xs :: "item list" by (simp add: selects_def)
  obtain s1 w2 s2 where p: "HeapFileScan_new w1 s nm1 = Some (OK, s1, w2)" "startScan s1 0 0 0 None EQ = (OK, s2)"
     "scanning w2 nm1 s2 ps1 (heap_items (file_view w1 nm1) ps1)" "filePtr s2 = handle w1 nm1" "work w1 {nm1} (opens w1 nm1) w2" "owes w1 w2 (its_pins s2) (its_open s2)"
     "lpage w2 (filePtr s2) = file_view w1 nm1"
    using scan_open_work [OF k1(1) t1' r3 t1(2) sp3 fa, of s EQ] unfolding sel by blast
  note k2 = workD [OF p(5)]
  have "resources w1 (opens w1 nm1 + k) N" by (rule resources_mono [OF r2]) (use opens_le [of w1 nm1] in simp)
  then have r4: "resources w2 k N" by (rule work_resources [OF p(5)])
  have ad: "adding w2 nm h1 ps n" "lpage w2 (filePtr h1) = lpage w1 (filePtr h1)" using adding_work [OF o(2) k1(1) p(5)] d by auto
  have "owes w w2 (\<lambda>g q. its_pins s2 g q + its_pins h1 g q) (\<lambda>g. its_open s2 g + its_open h1 g)"
    using owes_trans [OF o(5) p(6)] by (simp add: add.commute)
  then have "outer_state w w2 k N nm1 s2 ps1 (heap_items (file_view w nm1) ps1) nm h1 ps n"
    using k1(2) k2(1,2) r4 p(3) ad(1) v1 by (simp add: outer_state_def)
  moreover have "can_open w nm" using table_ready(2) [OF inv t(1) r1 t(2) sp2] by (simp add: ready_def)
  moreover have "can_open w1 nm1" using table_ready(2) [OF k1(1) t1' r3 t1(2) sp3] by (simp add: ready_def)
  ultimately show ?thesis using o p(1,2,4,5,7) ad(2) v1 by (intro exI [of _ h1] exI [of _ w1] exI [of _ s1] exI [of _ w2] exI [of _ s2]) simp
qed

lemma outer_close:
  assumes inv: "db_inv w" and w1: "work w {nm} j w1" "owes w w1 (its_pins h1) (its_open h1)" and can: "can_open w nm" "can_open w1 nm1" and d: "nm1 \<noteq> nm"
    and j: "outer_state w w3 k N nm1 s2 ps1 items nm h2 ps2 n2"
    and f: "filePtr h1 = handle w nm" "filePtr h2 = filePtr h1" "filePtr s2 = handle w1 nm1" and t: "table w nm1 ps1 n1" and l: "lpage w3 (filePtr s2) = file_view w nm1"
  shows "\<exists>s3 w4 h3 w5. HeapFileScan_destroy w3 s2 = Some (s3, w4) \<and> InsertFileScan_destroy w4 h2 = Some (h3, w5) \<and> work w3 {nm1, nm} 0 w5 \<and>
     table w5 nm1 ps1 n1 \<and> file_view w5 nm1 = file_view w nm1 \<and> table w5 nm ps2 n2 \<and> file_view w5 nm = lpage w3 (filePtr h2) \<and> pins w5 = pins w \<and> open_count w5 = open_count w \<and>
     oft_map (openFiles w5) nm1 = oft_map (openFiles w) nm1 \<and> oft_map (openFiles w5) nm = oft_map (openFiles w) nm"
proof -
  have b: "db_inv w3" "owes w w3 (\<lambda>g q. its_pins s2 g q + its_pins h2 g q) (\<lambda>g. its_open s2 g + its_open h2 g)" "scanning w3 nm1 s2 ps1 items" "adding w3 nm h2 ps2 n2"
    using j unfolding outer_state_def by blast+
  have lv: "live_obj w3 nm1 s2 ps1" "live_obj w3 nm h2 ps2" using b(3,4) by (simp_all add: scanning_def adding_def)
  have ne: "filePtr h2 \<noteq> filePtr s2" using live_distinct [OF lv(2,1) b(1)] d by auto
  note o = owes_diff [OF w1(2) b(2)]
  have P: "its_pins s2 (filePtr s2) q + its_pins h2 (filePtr s2) q - its_pins h1 (filePtr s2) q = own_pins s2 q" for q using ne f(2) by (simp add: its_pins_def)
  have C: "its_open s2 (filePtr s2) + its_open h2 (filePtr s2) - its_open h1 (filePtr s2) = 1" using ne f(2) by (simp add: its_open_def)
  note ow = own_only [OF workD(1) [OF w1(1)] can(2) f(3) o, OF P C]
  have e: "end_page (lpage w3 (filePtr s2)) n1" using t l by (simp add: table_def)
  obtain s3 w4 where c: "HeapFileScan_destroy w3 s2 = Some (s3, w4)" "work w3 {nm1} 0 w4" "table w4 nm1 ps1 n1"
     "owes w3 w4 (\<lambda>g q. - its_pins s2 g q) (\<lambda>g. - its_open s2 g)" "file_view w4 nm1 = lpage w3 (filePtr s2)"
     "oft_map (openFiles w4) nm1 = (if open_count w3 (filePtr s2) = 1 then None else Some (filePtr s2))"
    using scan_close_work [OF lv(1) b(1) ow(1) e] by blast
  have ad: "adding w4 nm h2 ps2 n2" "lpage w4 (filePtr h2) = lpage w3 (filePtr h2)" using adding_work [OF b(4,1) c(2)] d by auto
  have o4: "owes w w4 (its_pins h2) (its_open h2)" using owes_trans [OF b(2) c(4)] by (simp add: owes_def)
  have f2: "filePtr h2 = handle w nm" using f(1,2) by simp
  have P2: "its_pins h2 (filePtr h2) q = own_pins h2 q" for q by (simp add: its_pins_def)
  have C2: "its_open h2 (filePtr h2) = 1" by (simp add: its_open_def)
  note ow2 = own_only [OF inv can(1) f2 o4, OF P2 C2]
  obtain h3 w5 where g: "InsertFileScan_destroy w4 h2 = Some (h3, w5)" "work w4 {nm} 0 w5" "table w5 nm ps2 n2"
     "owes w4 w5 (\<lambda>g q. - its_pins h2 g q) (\<lambda>g. - its_open h2 g)" "file_view w5 nm = lpage w4 (filePtr h2)"
     "oft_map (openFiles w5) nm = (if open_count w4 (filePtr h2) = 1 then None else Some (filePtr h2))"
    using add_close_work [OF ad(1) workD(1) [OF c(2)] ow2(1)] by blast
  have m: "nm1 \<notin> {nm}" using d by simp
  note k5 = workD [OF g(2)]
  have "owes w w5 (\<lambda>g q. 0) (\<lambda>g. 0)" using owes_trans [OF o4 g(4)] by (simp add: owes_def)
  then have "pins w5 = pins w" "open_count w5 = open_count w" by (simp_all add: owes_def fun_eq_iff)
  moreover have "work w3 {nm1, nm} 0 w5"
  proof -
    have "work w3 {nm1, nm} 0 w4" "work w4 {nm1, nm} 0 w5" by (rule work_mono [OF c(2)] work_mono [OF g(2)]; simp)+
    then show ?thesis using work_trans [OF b(1)] by fastforce
  qed
  moreover have "oft_map (openFiles w5) nm1 = oft_map (openFiles w) nm1" using k5(6) [OF m] c(6) ow(2) workD(6) [OF w1(1) m] by simp
  moreover have "table w5 nm1 ps1 n1" by (rule work_table [OF g(2) workD(1) [OF c(2)] m c(3)])
  ultimately show ?thesis using c(1,5) g(1,3,5,6) ad(2) ow2(2) k5(7) [OF m] l by (intro exI [of _ s3] exI [of _ w4] exI [of _ h3] exI [of _ w5]) simp
qed

text \<open>What a join leaves: the rows are in the result, everything else is as before.\<close>

definition joined :: "'a db_state_scheme \<Rightarrow> string \<Rightarrow> int list \<Rightarrow> byte list list \<Rightarrow> int list \<Rightarrow> 'a db_state_scheme \<Rightarrow> bool" where
  "joined w nm ps rows ps' w' \<longleftrightarrow> (\<exists>rids. added (heap_recs (file_view w nm) ps) (heap_recs (file_view w' nm) ps') rids rows) \<and>
     (\<forall>m. m \<noteq> nm \<longrightarrow> file_view w' m = file_view w m) \<and> pins w' = pins w \<and> oft_map (openFiles w') = oft_map (openFiles w) \<and> db_inv w'"

lemma join_files_spec:
  assumes inv: "db_inv w" and t1: "table w nm1 ps1 n1" "n1 \<le> N" and t2: "table w nm2 ps2 n2" "n2 \<le> N" and t: "table w nm ps n"
    and d: "distinct [nm1, nm2, nm]" and nms: "relName_string a1 = Some nm1" "relName_string a2 = Some nm2"
    and items: "items1 = heap_items (file_view w nm1) ps1" "items2 = heap_items (file_view w nm2) ps2" and jo: "join_ok a1 a2 ds items1 items2"
    and len: "\<forall>d \<in> set ds. 0 \<le> ad_attrLen d" and rows: "rows = join_rows a1 a2 (swap_op op) ds items1 items2" and nN: "n + int (length rows) \<le> N"
    and r: "resources w (length items1 + 2) N" and sp: "spare w 7"
  shows "\<exists>w' ps' n'. join_files w s h nm a1 a2 op ds = Some (OK, int (length rows), w') \<and> joined w nm ps rows ps' w' \<and> table w' nm ps' n' \<and>
     table w' nm1 ps1 n1 \<and> table w' nm2 ps2 n2"
proof -
  have ne: "nm1 \<noteq> nm" "nm2 \<notin> {nm}" "nm2 \<notin> {nm1}" "nm2 \<notin> {nm1, nm}" using d by auto
  have n: "n \<le> N" using nN by simp
  have r': "resources w (Suc (Suc (length items1))) N" using r by simp
  obtain h1 w1 s1 w2 s2 where o: "InsertFileScan_new w h nm = Some (OK, h1, w1)" "HeapFileScan_new w1 s nm1 = Some (OK, s1, w2)" "startScan s1 0 0 0 None EQ = (OK, s2)"
     "filePtr h1 = handle w nm" "filePtr s2 = handle w1 nm1" "work w {nm} (opens w nm) w1" "work w1 {nm1} (opens w1 nm1) w2" "owes w w1 (its_pins h1) (its_open h1)"
     "lpage w2 (filePtr h1) = file_view w nm" "lpage w2 (filePtr s2) = file_view w nm1" "can_open w nm" "can_open w1 nm1"
     "outer_state w w2 (length items1) N nm1 s2 ps1 items1 nm h1 ps n"
    using outer_open [OF inv t1 t n ne(1) r' sp, of h s] unfolding items(1) [symmetric] by blast
  note k1 = workD [OF o(6)] and k2 = workD [OF o(7)]
  have t2': "table w2 nm2 ps2 n2" by (rule work_table [OF o(7) k1(1) ne(3) work_table [OF o(6) inv ne(2) t2(1)]])
  have v2: "file_view w2 nm2 = file_view w nm2" "oft_map (openFiles w2) nm2 = oft_map (openFiles w) nm2" using k1(6,7) [OF ne(2)] k2(6,7) [OF ne(3)] by simp_all
  have i2: "heap_items (file_view w2 nm2) ps2 = items2" using v2(1) items(2) by simp
  have os: "outer_state w w2 (length items1 + 0) N nm1 s2 ps1 items1 nm h1 ps n" using o(13) by simp
  have "1 \<le> n" using table_pages [OF inv t, of 1] by simp
  moreover have "N < 2147483648" using r by (simp add: resources_def addresses_def)
  ultimately have b: "(0 :: int) \<le> 0" "0 + int (length rows) < 2147483648" using nN by simp_all
  have bl: "row_len ds < 2147483648" "1 \<le> row_len ds" using jo by (auto simp: join_ok_def)
  obtain h3 s3 w3 ps3 n3 rids j where l: "outer_loop w2 s h1 s2 a1 a2 (swap_op op) ds (row_len ds) 0 = Some (None, h3, s3, 0 + int (length rows), w3)"
     "outer_state w w3 0 N nm1 s3 ps1 [] nm h3 ps3 n3" "work w2 {nm1, nm2, nm} j w3" "table w3 nm2 ps2 n2" "file_view w3 nm2 = file_view w2 nm2"
     "oft_map (openFiles w3) nm2 = oft_map (openFiles w2) nm2" "filePtr h3 = filePtr h1" "filePtr s3 = filePtr s2" "lpage w3 (filePtr s2) = lpage w2 (filePtr s2)"
     "added (recs_of w2 h1 ps) (recs_of w3 h3 ps3) rids rows"
    using outer_loop_spec [OF os t2' t2(2) d db_inv_pool [OF inv] sp nms(2) i2 jo, of "swap_op op" 0 s] nN b unfolding rows [symmetric] by blast
  have f: "filePtr s3 = handle w1 nm1" "lpage w3 (filePtr s3) = file_view w nm1" using l(8,9) o(5,10) by simp_all
  obtain s4 w4 h4 w5 where c: "HeapFileScan_destroy w3 s3 = Some (s4, w4)" "InsertFileScan_destroy w4 h3 = Some (h4, w5)" "work w3 {nm1, nm} 0 w5"
     "table w5 nm1 ps1 n1" "file_view w5 nm1 = file_view w nm1" "table w5 nm ps3 n3" "file_view w5 nm = lpage w3 (filePtr h3)" "pins w5 = pins w"
     "oft_map (openFiles w5) nm1 = oft_map (openFiles w) nm1" "oft_map (openFiles w5) nm = oft_map (openFiles w) nm"
    using outer_close [OF inv o(6,8,11,12) ne(1) l(2) o(4) l(7) f(1) t1(1) f(2)] by blast
  have run: "join_files w s h nm a1 a2 op ds = Some (OK, int (length rows), w5)"
    using o(1-3) l(1) c(1,2) nms(1) row_len_reclen [OF len, of 0] bl by (simp add: join_files_def Let_def)
  have inv3: "db_inv w3" using l(2) unfolding outer_state_def by blast
  have "work w {nm1, nm2, nm} (opens w nm) w1" "work w1 {nm1, nm2, nm} (opens w1 nm1) w2" "work w3 {nm1, nm2, nm} 0 w5"
    by (rule work_mono [OF o(6)] work_mono [OF o(7)] work_mono [OF c(3)]; simp)+
  then have k: "work w {nm1, nm2, nm} (opens w nm + (opens w1 nm1 + (j + 0))) w5" using work_trans inv k1(1) k2(1) inv3 l(3) by meson
  note kd = workD [OF k]
  have v: "file_view w5 m = file_view w m" if "m \<noteq> nm" for m
    using kd(7) [of m] c(5) workD(7) [OF c(3) ne(4)] l(5) v2(1) that by (cases "m = nm1 \<or> m = nm2") auto
  have "oft_map (openFiles w5) m = oft_map (openFiles w) m" for m
    using kd(6) [of m] c(9,10) workD(6) [OF c(3) ne(4)] l(6) v2(2) by (cases "m = nm1 \<or> m = nm2 \<or> m = nm") auto
  then have "oft_map (openFiles w5) = oft_map (openFiles w)" by (rule ext)
  moreover have "added (heap_recs (file_view w nm) ps) (heap_recs (file_view w5 nm) ps3) rids rows" using l(10) c(7) o(9) by simp
  ultimately have "joined w nm ps rows ps3 w5" using v c(8) kd(1) unfolding joined_def by blast
  moreover have "table w5 nm2 ps2 n2" by (rule work_table [OF c(3) inv3 ne(4) l(4)])
  ultimately show ?thesis using run c(4,6) by blast
qed

section \<open>What the rows mean\<close>

text \<open>The reference: all pairs of records whose attributes are in the relation of the operator, in the order of the two files.\<close>

definition attr_of :: "AttrDesc \<Rightarrow> byte list \<Rightarrow> byte list" where
  "attr_of a b = take (nat (ad_attrLen a)) (drop (nat (ad_attrOffset a)) b)"

definition theta_join :: "AttrDesc \<Rightarrow> AttrDesc \<Rightarrow> Datatype \<Rightarrow> Operator \<Rightarrow> AttrDesc list \<Rightarrow> byte list list \<Rightarrow> byte list list \<Rightarrow> byte list list" where
  "theta_join a1 a2 t op ds bs1 bs2 = concat (map (\<lambda>x. map (join_row a1 ds x) (filter (\<lambda>y. ref_match t op (attr_of a1 x) (attr_of a2 y)) bs2)) bs1)"

text \<open>The comparison of two values says what it means: no difference of integers overflows, floating point numbers are finite.\<close>

definition comparable :: "Datatype \<Rightarrow> byte list \<Rightarrow> byte list \<Rightarrow> bool" where
  "comparable t x y \<longleftrightarrow> (t = INTEGER \<longrightarrow> int_ok (int_value y - int_value x)) \<and>
     (t = FLOAT \<longrightarrow> (\<exists>p q. float_value x = Finite p \<and> float_value y = Finite q))"

lemma ref_rel_swap: "ref_rel (swap_op op) x y = ref_rel op y x"
  by (cases op) auto

lemma get_le_take: "4 \<le> length f \<Longrightarrow> get_le 4 (bytes_mem (take 4 f)) 0 = get_le 4 (bytes_mem f) 0"
  by (auto simp: bytes_mem_def numeral_eq_Suc)

lemma join_match_ref:
  assumes "join_attrs a1 a2" "Datatype_of_int (ad_attrType a2) = Some t" "ad_attrLen a1 = ad_attrLen a2"
    and "ad_attrOffset a1 + ad_attrLen a1 \<le> int (length x)" "ad_attrOffset a2 + ad_attrLen a2 \<le> int (length y)" "comparable t (attr_of a1 x) (attr_of a2 y)"
  shows "join_match a1 a2 (swap_op op) x y = ref_match t op (attr_of a1 x) (attr_of a2 y)"
proof -
  have a: "0 \<le> ad_attrOffset a1" "0 \<le> ad_attrOffset a2" "1 \<le> ad_attrLen a2" "t \<noteq> STRING \<longrightarrow> ad_attrLen a2 = 4" using assms(1,2) by (auto simp: join_attrs_def)
  let ?n = "nat (ad_attrLen a2)" and ?f = "drop (nat (ad_attrOffset a1)) x"
  have l: "?n = length (attr_of a2 y)" "?n \<le> length ?f" "take ?n ?f = attr_of a1 x" "?n = length (attr_of a1 x)"
    using assms(3-5) a(1-3) by (simp_all add: attr_of_def)
  have n4: "t \<noteq> STRING \<longrightarrow> ?n = 4" using a(4) by simp
  have fv: "get_le 4 (bytes_mem ?f) 0 = get_le 4 (bytes_mem (attr_of a1 x)) 0" if "?n = 4"
    using get_le_take [of ?f] l(2,3) that by simp
  have v: "t = INTEGER \<longrightarrow> int_ok (int_value (attr_of a2 y) - int_value ?f)" "t = FLOAT \<longrightarrow> (\<exists>p q. float_value (attr_of a2 y) = Finite p \<and> float_value ?f = Finite q)"
    using assms(6) n4 fv by (auto simp: comparable_def int_value_def float_value_def get_int_def)
  have "join_match a1 a2 (swap_op op) x y = op_holds (swap_op op) (the (attr_diff t (attr_of a2 y) ?f ?n))"
    using assms(2,5) by (simp add: join_match_def selects_def attr_of_def)
  also have "\<dots> = ref_match t (swap_op op) (attr_of a2 y) (attr_of a1 x)" using attr_diff_ref [OF l(1,2) n4 v, of "swap_op op"] l(3) by simp
  also have "\<dots> = ref_match t op (attr_of a1 x) (attr_of a2 y)"
    by (cases t) (auto simp: ref_match_def ref_rel_swap split: single.splits)
  finally show ?thesis .
qed

end
