(* ===== verification/JoinNLProps.thy ===== *)
theory JoinNLProps
  imports JoinNL CatalogProps "HOL-Library.Multiset"
begin

text \<open>
  The correctness of the nested loops join, from the lookup of the attributes in the catalog on, and a
  database with two relations on which it is instantiated.
\<close>

section \<open>Looking up the attributes\<close>

text \<open>The state after \<open>k\<close> successful lookups in a catalog: each has left its object behind, with the header page pinned.\<close>

definition looked_up :: "'a db_state_scheme \<Rightarrow> string \<Rightarrow> nat \<Rightarrow> 'a db_state_scheme \<Rightarrow> bool" where
  "looked_up w nm k w' \<longleftrightarrow> others_kept w nm (if k = 0 then 0 else opens w nm) w' \<and> file_view w' nm = file_view w nm \<and>
     oft_map (openFiles w') nm = (if k = 0 then oft_map (openFiles w) nm else Some (handle w nm)) \<and>
     (\<forall>g q. pins w' g q = pins w g q + (if (g, q) = (handle w nm, 1) then int k else 0))"

lemma looked_up_none: "db_inv w \<Longrightarrow> looked_up w nm 0 w"
  by (simp add: looked_up_def others_kept_refl)

lemma looked_up_step:
  assumes inv: "db_inv w" and a: "looked_up w nm k w1" and b: "left_open w1 nm w2"
  shows "looked_up w nm (Suc k) w2"
proof -
  have k: "others_kept w nm (if k = 0 then 0 else opens w nm) w1" "file_view w1 nm = file_view w nm"
     "oft_map (openFiles w1) nm = (if k = 0 then oft_map (openFiles w) nm else Some (handle w nm))"
     "\<forall>g q. pins w1 g q = pins w g q + (if (g, q) = (handle w nm, 1) then int k else 0)" using a unfolding looked_up_def by blast+
  have l: "others_kept w1 nm (opens w1 nm) w2" "file_view w2 nm = file_view w1 nm" "oft_map (openFiles w2) nm = Some (handle w1 nm)"
     "\<forall>g q. pins w2 g q = pins w1 g q + (if (g, q) = (handle w1 nm, 1) then 1 else 0)" using b unfolding left_open_def by blast+
  have n: "newAddr w1 = newAddr w" "newCnt w1 = newCnt w + (if k = 0 then 0 else opens w nm)" using k(1) unfolding others_kept_def by blast+
  have h: "handle w1 nm = handle w nm \<and> (if k = 0 then 0 else opens w nm) + opens w1 nm = opens w nm"
  proof (cases "k = 0")
    case True
    then have e: "oft_map (openFiles w1) nm = oft_map (openFiles w) nm" "newCnt w1 = newCnt w" using k(3) n(2) by simp_all
    show ?thesis unfolding handle_def opens_def e n(1) using True by simp
  next
    case False
    then have o: "oft_map (openFiles w1) nm = Some (handle w nm)" using k(3) by simp
    then have "handle w1 nm = handle w nm" by (simp only: handle_def [of w1] option.case)
    moreover have "opens w1 nm = 0" using o by (simp only: opens_def option.distinct if_False)
    ultimately show ?thesis using False by simp
  qed
  then have h: "handle w1 nm = handle w nm" "(if k = 0 then 0 else opens w nm) + opens w1 nm = opens w nm" by blast+
  have "others_kept w nm (opens w nm) w2" using others_kept_trans [OF inv k(1) l(1)] h(2) by simp
  moreover have "pins w2 g q = pins w g q + (if (g, q) = (handle w nm, 1) then int (Suc k) else 0)" for g q
    using k(4) l(4) unfolding h(1) by simp
  moreover have "oft_map (openFiles w2) nm = Some (handle w nm)" using l(3) h(1) by simp
  ultimately show ?thesis using k(2) l(2) unfolding looked_up_def by simp
qed

definition attr_lookup :: "'a db_state_scheme \<Rightarrow> int list \<Rightarrow> attrInfo \<Rightarrow> AttrDesc option" where
  "attr_lookup w ps p = do {
     relation \<leftarrow> array_string (ai_relName p);
     attrName \<leftarrow> array_string (ai_attrName p);
     b \<leftarrow> first_tuple w ATTRCATNAME ps (attr_named relation attrName);
     if name_ok relation \<and> attrName \<noteq> [] then Some (AttrDesc_of_bytes b) else None
   }"

lemma looked_up_spare:
  assumes inv: "db_inv w" and l: "looked_up w nm k w'" and sp: "spare w (Suc j)"
  shows "spare w' j"
proof -
  have p: "\<forall>g q. pins w' g q = pins w g q + (if (g, q) = (handle w nm, 1) then int k else 0)" "frames w' = frames w"
    using l unfolding looked_up_def others_kept_def by blast+
  have ok: "pool_ok w" by (rule db_inv_pool [OF inv])
  have o: "owes w w' (\<lambda>g q. if (g, q) = (handle w nm, 1) then int k else 0) (\<lambda>g. open_count w' g - open_count w g)" using p(1) by (simp add: owes_def)
  show ?thesis by (rule owes_spare [OF o ok p(2), of "{(handle w nm, 1)}"]) (use sp in auto)
qed

lemma looked_up_view: "looked_up w nm k w' \<Longrightarrow> file_view w' = file_view w"
  unfolding looked_up_def others_kept_def by (rule ext) metis

lemma lookup_attrs_spec:
  assumes inv: "db_inv w" and t: "table w ATTRCATNAME ps n" and r: "resources w 2 N" "n \<le> N" and sp: "spare w 3" and tup: "\<forall>b \<in> tuples w ATTRCATNAME ps. attr_tuple b"
    and l: "looked_up w ATTRCATNAME k w1" "table w1 ATTRCATNAME ps n" and f: "map (attr_lookup w ps) projs = map Some ds"
  shows "\<exists>w2. lookup_attrs w1 s ad projs = Some (OK, ds, w2) \<and> looked_up w ATTRCATNAME (k + length projs) w2 \<and> table w2 ATTRCATNAME ps n"
  using l f
proof (induction projs arbitrary: ds k w1)
  case Nil
  then show ?case by simp
next
  case (Cons p projs)
  obtain d ds' where ds: "ds = d # ds'" "attr_lookup w ps p = Some d" "map (attr_lookup w ps) projs = map Some ds'" using Cons.prems(3) by (cases ds) auto
  then obtain relation attrName b where p: "array_string (ai_relName p) = Some relation" "array_string (ai_attrName p) = Some attrName"
     "first_tuple w ATTRCATNAME ps (attr_named relation attrName) = Some b" "name_ok relation" "attrName \<noteq> []" "d = AttrDesc_of_bytes b"
    by (auto simp: attr_lookup_def split: bind_splits if_splits)
  have k1: "others_kept w ATTRCATNAME (if k = 0 then 0 else opens w ATTRCATNAME) w1" using Cons.prems(1) by (simp add: looked_up_def)
  have inv1: "db_inv w1" by (rule kept_inv [OF k1])
  have v: "file_view w1 = file_view w" by (rule looked_up_view [OF Cons.prems(1)])
  have ft: "first_tuple w1 ATTRCATNAME ps (attr_named relation attrName) = Some b" "\<forall>b \<in> tuples w1 ATTRCATNAME ps. attr_tuple b"
    using p(3) tup v by (simp_all add: first_tuple_def tuples_def)
  have sp1: "spare w1 2" by (rule looked_up_spare [OF inv Cons.prems(1)]) (use sp in simp)
  have "resources w ((if k = 0 then 0 else opens w ATTRCATNAME) + 1) N" by (rule resources_mono [OF r(1)]) (use opens_le [of w ATTRCATNAME] in simp)
  then have r1: "resources w1 1 N" by (rule resources_kept [OF k1])
  obtain w2 where g: "AttrCatalog_getInfo w1 s relation attrName ad = Some (OK, d, w2)" "table w2 ATTRCATNAME ps n" "left_open w1 ATTRCATNAME w2"
    using AttrCatalog_getInfo_spec [OF inv1 Cons.prems(2) r1 r(2) sp1 p(4,5) ft(2), of s ad] ft(1) p(6) by auto
  have l2: "looked_up w ATTRCATNAME (Suc k) w2" by (rule looked_up_step [OF inv Cons.prems(1) g(3)])
  obtain w3 where q: "lookup_attrs w2 s ad projs = Some (OK, ds', w3)" "looked_up w ATTRCATNAME (Suc k + length projs) w3" "table w3 ATTRCATNAME ps n"
    using Cons.IH [OF l2 g(2) ds(3)] by blast
  then show ?case using p(1,2) g(1) ds(1) by (intro exI [of _ w3]) simp
qed

section \<open>The nested loops join\<close>

text \<open>What the descriptors and the records of a join have to be.\<close>

definition join_input :: "AttrDesc \<Rightarrow> AttrDesc \<Rightarrow> Datatype \<Rightarrow> AttrDesc list \<Rightarrow> byte list list \<Rightarrow> byte list list \<Rightarrow> bool" where
  "join_input a1 a2 t ds bs1 bs2 \<longleftrightarrow> join_attrs a1 a2 \<and> Datatype_of_int (ad_attrType a2) = Some t \<and> ad_attrLen a1 = ad_attrLen a2 \<and>
     0 < row_len ds \<and> row_len ds \<le> 1000 \<and> (\<forall>d \<in> set ds. 0 \<le> ad_attrLen d) \<and>
     (\<forall>x \<in> set bs1. ad_attrOffset a1 + ad_attrLen a1 \<le> int (length x)) \<and> (\<forall>y \<in> set bs2. ad_attrOffset a2 + ad_attrLen a2 \<le> int (length y)) \<and>
     (\<forall>x \<in> set bs1. \<forall>y \<in> set bs2. fits a1 ds x y \<and> comparable t (attr_of a1 x) (attr_of a2 y))"

lemma join_input_ok:
  assumes "join_input a1 a2 t ds (map snd items1) (map snd items2)"
  shows "join_ok a1 a2 ds items1 items2" "join_rows a1 a2 (swap_op op) ds items1 items2 = theta_join a1 a2 t op ds (map snd items1) (map snd items2)"
proof -
  show "join_ok a1 a2 ds items1 items2" using assms by (auto simp: join_input_def join_ok_def)
  have m: "join_match a1 a2 (swap_op op) x y = ref_match t op (attr_of a1 x) (attr_of a2 y)" if "x \<in> snd ` set items1" "y \<in> snd ` set items2" for x y
    by (rule join_match_ref) (use assms that in \<open>auto simp: join_input_def\<close>)
  have "map (\<lambda>y. join_row a1 ds (snd x) (snd y)) (partners a1 a2 (swap_op op) (snd x) items2) =
      map (join_row a1 ds (snd x)) (filter (\<lambda>y. ref_match t op (attr_of a1 (snd x)) (attr_of a2 y)) (map snd items2))" if "x \<in> set items1" for x
  proof -
    have "partners a1 a2 (swap_op op) (snd x) items2 = filter ((\<lambda>y. ref_match t op (attr_of a1 (snd x)) (attr_of a2 y)) \<circ> snd) items2"
      unfolding partners_def by (rule filter_cong) (use m that in auto)
    then show ?thesis by (simp add: filter_map comp_def)
  qed
  then show "join_rows a1 a2 (swap_op op) ds items1 items2 = theta_join a1 a2 t op ds (map snd items1) (map snd items2)"
    by (simp add: join_rows_def theta_join_def comp_def cong: map_cong)
qed

text \<open>
  (C2) The nested loops join computes the theta join of the two relations: \<open>QU_Join\<close> with this method, or
  with the hash method and an operator other than \<open>EQ\<close>, inserts for every record of the first relation and
  every record of the second one whose attributes are in the relation of the operator one record into the
  result, made of the projected attributes, in this order; it reports the number of these records and
  changes no other file. Each of its lookups leaves the header page of the attribute catalog pinned.
\<close>

theorem nl_join_correct:
  assumes "db_inv w" "spare w 8" "resources w (length bs1 + 3) N" "table w ATTRCATNAME psa na" "na \<le> N" "\<forall>b \<in> tuples w ATTRCATNAME psa. attr_tuple b"
    and "table w nm1 ps1 n1" "n1 \<le> N" "table w nm2 ps2 n2" "n2 \<le> N" "table w nm ps n" "distinct [ATTRCATNAME, nm1, nm2, nm]"
    and "bs1 = map snd (heap_items (file_view w nm1) ps1)" "bs2 = map snd (heap_items (file_view w nm2) ps2)"
    and "ai_attrType attr1 = ai_attrType attr2" "ai_attrLen attr1 = ai_attrLen attr2" "map (attr_lookup w psa) projNames = map Some ds"
    and "attr_lookup w psa attr1 = Some a1" "attr_lookup w psa attr2 = Some a2" "relName_string a1 = Some nm1" "relName_string a2 = Some nm2"
    and "join_input a1 a2 t ds bs1 bs2" "rows = theta_join a1 a2 t op ds bs1 bs2" "n + int (length rows) \<le> N" "M = NLJoin \<or> M = HashJoin \<and> op \<noteq> EQ"
  shows "\<exists>w' ps' n' rids. QU_Join M ad w s h nm projNames attr1 op attr2 =
       Some (OK, ''tuple nested join produced '' @ int_str (int (length rows)) @ '' result tuples '' @ [CHR 0x0A], w') \<and>
     table w' nm ps' n' \<and> added (heap_recs (file_view w nm) ps) (heap_recs (file_view w' nm) ps') rids rows \<and> (\<forall>m. m \<noteq> nm \<longrightarrow> file_view w' m = file_view w m) \<and>
     (\<forall>g q. pins w' g q = pins w g q + (if (g, q) = (handle w ATTRCATNAME, 1) then int (length projNames + 2) else 0))"
proof -
  have sp: "spare w 3" and r2: "resources w 2 N" using assms(2) resources_mono [OF assms(3), of 2] by (simp_all add: spare_def)
  note look = lookup_attrs_spec [OF assms(1,4) r2 assms(5) sp assms(6)]
  obtain w1 where l1: "lookup_attrs w s ad projNames = Some (OK, ds, w1)" "looked_up w ATTRCATNAME (length projNames) w1" "table w1 ATTRCATNAME psa na"
    using look [OF looked_up_none [OF assms(1)] assms(4,17)] by auto
  obtain w2 where l2: "lookup_attrs w1 s ad [attr1] = Some (OK, [a1], w2)" "looked_up w ATTRCATNAME (length projNames + 1) w2" "table w2 ATTRCATNAME psa na"
    using look [OF l1(2,3), of "[attr1]" "[a1]"] assms(18) by auto
  obtain w3 where l3: "lookup_attrs w2 s ad [attr2] = Some (OK, [a2], w3)" "looked_up w ATTRCATNAME (length projNames + 2) w3"
    using look [OF l2(2,3), of "[attr2]" "[a2]"] assms(19) by auto
  have k: "others_kept w ATTRCATNAME (opens w ATTRCATNAME) w3" "file_view w3 = file_view w"
     "\<forall>g q. pins w3 g q = pins w g q + (if (g, q) = (handle w ATTRCATNAME, 1) then int (length projNames + 2) else 0)"
    using l3(2) looked_up_view [OF l3(2)] by (simp_all add: looked_up_def)
  have t: "table w3 nm1 ps1 n1" "table w3 nm2 ps2 n2" "table w3 nm ps n" using table_other [OF k(1) assms(1)] assms(7,9,11,12) by auto
  have "resources w (opens w ATTRCATNAME + (length bs1 + 2)) N" by (rule resources_mono [OF assms(3)]) (use opens_le [of w ATTRCATNAME] in simp)
  then have "resources w3 (length bs1 + 2) N" by (rule resources_kept [OF k(1)])
  then have r3: "resources w3 (length (heap_items (file_view w3 nm1) ps1) + 2) N" using assms(13) k(2) by simp
  have sp3: "spare w3 7" by (rule looked_up_spare [OF assms(1) l3(2)]) (use assms(2) in simp)
  have ji: "join_input a1 a2 t ds (map snd (heap_items (file_view w3 nm1) ps1)) (map snd (heap_items (file_view w3 nm2) ps2))" using assms(13,14,22) k(2) by simp
  have len: "\<forall>d \<in> set ds. 0 \<le> ad_attrLen d" using assms(22) by (simp add: join_input_def)
  have rows: "rows = join_rows a1 a2 (swap_op op) ds (heap_items (file_view w3 nm1) ps1) (heap_items (file_view w3 nm2) ps2)"
    using join_input_ok(2) [OF ji, of op] assms(13,14,23) k(2) by simp
  have d: "distinct [nm1, nm2, nm]" using assms(12) by simp
  obtain w' ps' n' where j: "join_files w3 s h nm a1 a2 op ds = Some (OK, int (length rows), w')" "joined w3 nm ps rows ps' w'" "table w' nm ps' n'"
    using join_files_spec [OF kept_inv [OF k(1)] t(1) assms(8) t(2) assms(10) t(3) d assms(20,21) refl refl join_input_ok(1) [OF ji] len rows assms(24) r3 sp3, of s h]
    by blast
  have "QU_NL_Join ad w s h nm projNames attr1 op attr2 = Some (OK, ''tuple nested join produced '' @ int_str (int (length rows)) @ '' result tuples '' @ [CHR 0x0A], w')"
    using assms(15,16) l1(1) l2(1) l3(1) j(1) by (simp add: QU_NL_Join_def del: lookup_attrs.simps)
  then show ?thesis using assms(25) j(2,3) k(2,3) by (auto simp: QU_Join_def joined_def)
qed

section \<open>A sample database\<close>

text \<open>A closed database of heap files with the given records.\<close>

definition sample_tables :: "db_state \<Rightarrow> nat \<Rightarrow> (string \<Rightarrow> byte list list option) \<Rightarrow> bool" where
  "sample_tables w k T \<longleftrightarrow> db_inv w \<and> spare w 8 \<and> resources w k 1000 \<and> (\<forall>m. case T m of None \<Rightarrow> disk w m = None
     | Some bs \<Rightarrow> \<exists>ps n. table w m ps n \<and> n \<le> 3 + int (length bs) \<and> mset (map snd (heap_items (file_view w m) ps)) = mset bs)"

lemma sample_tables_at:
  assumes "sample_tables w k T"
  shows "T m = None \<Longrightarrow> disk w m = None"
    "T m = Some bs \<Longrightarrow> \<exists>ps n. table w m ps n \<and> n \<le> 3 + int (length bs) \<and> mset (map snd (heap_items (file_view w m) ps)) = mset bs"
proof -
  have "case T m of None \<Rightarrow> disk w m = None
     | Some bs \<Rightarrow> \<exists>ps n. table w m ps n \<and> n \<le> 3 + int (length bs) \<and> mset (map snd (heap_items (file_view w m) ps)) = mset bs"
    using assms unfolding sample_tables_def by blast
  then show "T m = None \<Longrightarrow> disk w m = None"
    "T m = Some bs \<Longrightarrow> \<exists>ps n. table w m ps n \<and> n \<le> 3 + int (length bs) \<and> mset (map snd (heap_items (file_view w m) ps)) = mset bs" by simp_all
qed

definition put_record :: "db_state \<Rightarrow> string \<Rightarrow> byte list \<Rightarrow> db_state" where
  "put_record w nm b = the (do {
     (status, h, w) \<leftarrow> InsertFileScan_new w new_object nm;
     (status, rid, h, w) \<leftarrow> insertRecord w h \<lparr>rec_data = b, rec_length = int (length b)\<rparr> NULLRID;
     (h, w) \<leftarrow> InsertFileScan_destroy w h;
     Some w
   })"

definition make_file :: "db_state \<Rightarrow> string \<Rightarrow> db_state" where
  "make_file w nm = snd (the (createHeapFile w nm))"

lemma sample_tables_other:
  assumes s: "sample_tables w k T" and a: "others_kept w nm j w'" "pins w' = pins w" "resources w (j + k') 1000"
    and m: "\<exists>ps n. table w' nm ps n \<and> n \<le> 3 + int (length bs) \<and> mset (map snd (heap_items (file_view w' nm) ps)) = mset bs"
  shows "sample_tables w' k' (T(nm \<mapsto> bs))"
proof -
  have i: "db_inv w" "spare w 8" using s by (simp_all add: sample_tables_def)
  have "case T x of None \<Rightarrow> disk w' x = None
     | Some bs \<Rightarrow> \<exists>ps n. table w' x ps n \<and> n \<le> 3 + int (length bs) \<and> mset (map snd (heap_items (file_view w' x) ps)) = mset bs" if x: "x \<noteq> nm" for x
  proof (cases "T x")
    case None
    then have d: "disk w x = None" by (rule sample_tables_at(1) [OF s])
    then have "oft_map (openFiles w) x = None" using db_inv_open_disk [OF i(1), of x] by (cases "oft_map (openFiles w) x") auto
    then show ?thesis using None d a(1) x unfolding others_kept_def by simp
  next
    case (Some bs')
    then obtain ps n where t: "table w x ps n" "n \<le> 3 + int (length bs')" "mset (map snd (heap_items (file_view w x) ps)) = mset bs'"
      using sample_tables_at(2) [OF s] by blast
    then show ?thesis using Some table_other [OF a(1) i(1) x t(1)] kept_view [OF a(1) x] by auto
  qed
  then show ?thesis using kept_inv [OF a(1)] kept_spare [OF a(1) i(1,2) a(2)] resources_kept [OF a(1,3)] m by (simp add: sample_tables_def)
qed

lemma sample_tables_make:
  assumes s: "sample_tables w (k + 2) T" and m: "T nm = None" "nm \<noteq> []" "unix_name nm = nm"
  shows "sample_tables (make_file w nm) k (T(nm \<mapsto> []))"
proof -
  have i: "db_inv w" "spare w 2" "resources w (k + 2) 1000" "disk w nm = None"
    using s sample_tables_at(1) [OF s m(1)] unfolding sample_tables_def by (simp_all add: spare_def)
  have r: "resources w 2 1000" by (rule resources_mono [OF i(3)]) simp
  obtain w' where c: "createHeapFile w nm = Some (OK, w')" "table w' nm [2] 3" "heap_recs (file_view w' nm) [2] = Map.empty" "others_kept w nm 2 w'" "pins w' = pins w"
    using table_create [OF i(1) m(2) i(4) m(3) i(2) r] by auto
  have "tuples w' nm [2] = {}" using c(3) by (simp add: tuples_def)
  then have e: "heap_items (file_view w' nm) [2] = []" using table_tuples [OF c(2)] by simp
  have "\<exists>ps n. table w' nm ps n \<and> n \<le> 3 + int (length []) \<and> mset (map snd (heap_items (file_view w' nm) ps)) = mset []"
    by (rule exI [of _ "[2]"], rule exI [of _ 3]) (use c(2) e in simp)
  then have "sample_tables w' k (T(nm \<mapsto> []))" by (rule sample_tables_other [OF s c(4,5), rotated]) (use i(3) in \<open>simp add: add.commute\<close>)
  then show ?thesis using c(1) by (simp add: make_file_def)
qed

lemma items_add:
  assumes "table w nm ps n" "table w' nm ps' n'" "heap_recs (file_view w nm) ps rid = None"
    "heap_recs (file_view w' nm) ps' = (heap_recs (file_view w nm) ps)(rid \<mapsto> b)"
  shows "mset (map snd (heap_items (file_view w' nm) ps')) = add_mset b (mset (map snd (heap_items (file_view w nm) ps)))"
proof -
  let ?xs = "heap_items (file_view w nm) ps" and ?ys = "heap_items (file_view w' nm) ps'"
  have x: "map_of ?xs = heap_recs (file_view w nm) ps" "distinct (map fst ?xs)"
    using heap_items_map [of "file_view w nm" ps] assms(1) by (simp_all add: table_def stored_heap_def heap_at_def)
  have y: "map_of ?ys = heap_recs (file_view w' nm) ps'" "distinct (map fst ?ys)"
    using heap_items_map [of "file_view w' nm" ps'] assms(2) by (simp_all add: table_def stored_heap_def heap_at_def)
  have n: "rid \<notin> fst ` set ?xs" using x(1) assms(3) by (metis map_of_eq_None_iff)
  have d: "distinct (map fst ((rid, b) # ?xs))" using x(2) n by simp
  have "map_of ?ys = map_of ((rid, b) # ?xs)" using x(1) y(1) assms(4) by simp
  then have "set ?ys = set ((rid, b) # ?xs)" using map_of_eq_Some_iff [OF y(2)] map_of_eq_Some_iff [OF d] by (metis subset_antisym subrelI)
  moreover have "distinct ?ys" "distinct ((rid, b) # ?xs)" using y(2) d distinct_map by blast+
  ultimately have "mset ?ys = mset ((rid, b) # ?xs)" using set_eq_iff_mset_eq_distinct by blast
  then have "mset (map snd ?ys) = mset (map snd ((rid, b) # ?xs))" by (simp only: mset_map)
  then show ?thesis by simp
qed

lemma sample_tables_put:
  assumes s: "sample_tables w (k + 1) T" and m: "T nm = Some bs" and b: "storable b" "length b \<le> 1000" "length bs < 100"
  shows "sample_tables (put_record w nm b) k (T(nm \<mapsto> b # bs))"
proof -
  have i: "db_inv w" "spare w 3" "resources w (k + 1) 1000" using s by (simp_all add: sample_tables_def spare_def)
  obtain ps n where t: "table w nm ps n" "n \<le> 3 + int (length bs)" "mset (map snd (heap_items (file_view w nm) ps)) = mset bs"
    using sample_tables_at(2) [OF s m] by blast
  have r: "resources w 1 1000" by (rule resources_mono [OF i(3)]) simp
  have n: "n + 1 \<le> 1000" using t(2) b(3) by simp
  obtain h1 w1 rid h2 w2 h3 w' ps' n' where p: "InsertFileScan_new w new_object nm = Some (OK, h1, w1)"
     "insertRecord w1 h1 \<lparr>rec_data = b, rec_length = int (length b)\<rparr> NULLRID = Some (OK, rid, h2, w2)" "InsertFileScan_destroy w2 h2 = Some (h3, w')"
     "table w' nm ps' n'" "n' \<le> n + 1" "rec_stored w nm ps rid b ps' w'"
    using table_insert [OF i(1) t(1) r n i(2) b(1,2), of new_object NULLRID] by blast
  have k: "others_kept w nm (opens w nm) w'" "pins w' = pins w" "heap_recs (file_view w nm) ps rid = None"
     "heap_recs (file_view w' nm) ps' = (heap_recs (file_view w nm) ps)(rid \<mapsto> b)" using p(6) unfolding rec_stored_def by blast+
  have "\<exists>ps n. table w' nm ps n \<and> n \<le> 3 + int (length (b # bs)) \<and> mset (map snd (heap_items (file_view w' nm) ps)) = mset (b # bs)"
    using p(4,5) t(2) items_add [OF t(1) p(4) k(3,4)] t(3) by (intro exI [of _ ps'] exI [of _ n']) simp
  moreover have "resources w (opens w nm + k) 1000" by (rule resources_mono [OF i(3)]) (use opens_le [of w nm] in simp)
  ultimately have "sample_tables w' k (T(nm \<mapsto> b # bs))" by (rule sample_tables_other [OF s k(1,2), rotated])
  then show ?thesis using p(1-3) by (simp add: put_record_def)
qed

lemma sample_tables_empty: "sample_tables (empty_db 8) 64 (\<lambda>_. None)"
  using empty_db_inv [of 8] empty_db_sel [of 8] empty_db_resources [of 8 64 1000] by (simp add: sample_tables_def spare_def)


text \<open>Two relations with one attribute and one record each, and an empty result relation.\<close>

definition dep_ad :: AttrDesc where
  "dep_ad = \<lparr>ad_relName = name32 ''dep'', ad_attrName = name32 ''no'', ad_attrOffset = 0, ad_attrType = 1, ad_attrLen = 4\<rparr>"

definition emp_id :: attrInfo where
  "emp_id = \<lparr>ai_relName = name32 ''emp'', ai_attrName = name32 ''id'', ai_attrType = 1, ai_attrLen = 4, ai_attrValue = NULL\<rparr>"

definition dep_no :: attrInfo where
  "dep_no = \<lparr>ai_relName = name32 ''dep'', ai_attrName = name32 ''no'', ai_attrType = 1, ai_attrLen = 4, ai_attrValue = NULL\<rparr>"

definition sample_join :: db_state where
  "sample_join = put_record (put_record (put_record (put_record (fold (\<lambda>nm w. make_file w nm) [ATTRCATNAME, ''emp'', ''dep'', ''out''] (empty_db 8))
     ATTRCATNAME (AttrDesc_bytes emp_ad)) ATTRCATNAME (AttrDesc_bytes dep_ad)) ''emp'' [1, 0, 0, 0]) ''dep'' [2, 0, 0, 0]"

lemma dep_ok: "AttrDesc_ok dep_ad" "zstring (ad_relName dep_ad) = Some (map of_char ''dep'')" "zstring (ad_attrName dep_ad) = Some (map of_char ''no'')"
  by code_simp+

lemma sample_join_db:
  "sample_tables sample_join 52 [ATTRCATNAME \<mapsto> [AttrDesc_bytes dep_ad, AttrDesc_bytes emp_ad], ''emp'' \<mapsto> [[1, 0, 0, 0]], ''dep'' \<mapsto> [[2, 0, 0, 0]], ''out'' \<mapsto> []]"
proof -
  have ne: "ATTRCATNAME \<noteq> []" "ATTRCATNAME \<noteq> ''emp''" "ATTRCATNAME \<noteq> ''dep''" "ATTRCATNAME \<noteq> ''out''" by (simp_all add: ATTRCATNAME_def)
  have l: "length (AttrDesc_bytes emp_ad) = 76" "length (AttrDesc_bytes dep_ad) = 76" using AttrDesc_bytes_length emp_ok(2) dep_ok(1) by blast+
  define w4 where "w4 = fold (\<lambda>nm w. make_file w nm) [ATTRCATNAME, ''emp'', ''dep'', ''out''] (empty_db 8)"
  have "sample_tables (make_file (empty_db 8) ATTRCATNAME) 62 [ATTRCATNAME \<mapsto> []]"
    using sample_tables_make [of "empty_db 8" 62 "\<lambda>_. None" ATTRCATNAME] sample_tables_empty ne by simp
  then have "sample_tables (make_file (make_file (empty_db 8) ATTRCATNAME) ''emp'') 60 [ATTRCATNAME \<mapsto> [], ''emp'' \<mapsto> []]"
    using sample_tables_make [of _ 60 "[ATTRCATNAME \<mapsto> []]" "''emp''"] ne by simp
  then have "sample_tables (make_file (make_file (make_file (empty_db 8) ATTRCATNAME) ''emp'') ''dep'') 58 [ATTRCATNAME \<mapsto> [], ''emp'' \<mapsto> [], ''dep'' \<mapsto> []]"
    using sample_tables_make [of _ 58 "[ATTRCATNAME \<mapsto> [], ''emp'' \<mapsto> []]" "''dep''"] ne by simp
  then have "sample_tables w4 56 [ATTRCATNAME \<mapsto> [], ''emp'' \<mapsto> [], ''dep'' \<mapsto> [], ''out'' \<mapsto> []]"
    using sample_tables_make [of _ 56 "[ATTRCATNAME \<mapsto> [], ''emp'' \<mapsto> [], ''dep'' \<mapsto> []]" "''out''"] ne by (simp add: w4_def)
  then have "sample_tables (put_record w4 ATTRCATNAME (AttrDesc_bytes emp_ad)) 55 ([ATTRCATNAME \<mapsto> [], ''emp'' \<mapsto> [], ''dep'' \<mapsto> [], ''out'' \<mapsto> []](ATTRCATNAME \<mapsto> [AttrDesc_bytes emp_ad]))" (is "sample_tables ?w5 55 ?T5")
    using sample_tables_put [of w4 55 "[ATTRCATNAME \<mapsto> [], ''emp'' \<mapsto> [], ''dep'' \<mapsto> [], ''out'' \<mapsto> []]" ATTRCATNAME "[]" "AttrDesc_bytes emp_ad"] ne l by simp
  then have "sample_tables (put_record (put_record w4 ATTRCATNAME (AttrDesc_bytes emp_ad)) ATTRCATNAME (AttrDesc_bytes dep_ad)) 54
      ([ATTRCATNAME \<mapsto> [], ''emp'' \<mapsto> [], ''dep'' \<mapsto> [], ''out'' \<mapsto> []](ATTRCATNAME \<mapsto> [AttrDesc_bytes emp_ad], ATTRCATNAME \<mapsto> [AttrDesc_bytes dep_ad, AttrDesc_bytes emp_ad]))" (is "sample_tables ?w6 54 ?T6")
    using sample_tables_put [of ?w5 54 ?T5 ATTRCATNAME "[AttrDesc_bytes emp_ad]" "AttrDesc_bytes dep_ad"] l by simp
  then have "sample_tables (put_record ?w6 ''emp'' [1, 0, 0, 0]) 53 (?T6(''emp'' \<mapsto> [[1, 0, 0, 0]]))"
    using sample_tables_put [of ?w6 53 ?T6 "''emp''" "[]" "[1, 0, 0, 0]"] ne by simp
  then have "sample_tables (put_record (put_record ?w6 ''emp'' [1, 0, 0, 0]) ''dep'' [2, 0, 0, 0]) 52 (?T6(''emp'' \<mapsto> [[1, 0, 0, 0]], ''dep'' \<mapsto> [[2, 0, 0, 0]]))"
    using sample_tables_put [of _ 52 "?T6(''emp'' \<mapsto> [[1, 0, 0, 0]])" "''dep''" "[]" "[2, 0, 0, 0]"] ne by simp
  moreover have "?T6(''emp'' \<mapsto> [[1, 0, 0, 0]], ''dep'' \<mapsto> [[2, 0, 0, 0]]) =
      [ATTRCATNAME \<mapsto> [AttrDesc_bytes dep_ad, AttrDesc_bytes emp_ad], ''emp'' \<mapsto> [[1, 0, 0, 0]], ''dep'' \<mapsto> [[2, 0, 0, 0]], ''out'' \<mapsto> []]"
    using ne by (auto simp: fun_eq_iff)
  ultimately show ?thesis by (simp add: sample_join_def w4_def)
qed

lemma sample_join_facts:
  obtains psa na ps1 n1 ps2 n2 ps n where "db_inv sample_join" "spare sample_join 8" "resources sample_join 52 1000"
    "table sample_join ATTRCATNAME psa na" "na \<le> 5" "tuples sample_join ATTRCATNAME psa = {AttrDesc_bytes emp_ad, AttrDesc_bytes dep_ad}"
    "table sample_join ''emp'' ps1 n1" "n1 \<le> 4" "map snd (heap_items (file_view sample_join ''emp'') ps1) = [[1, 0, 0, 0]]"
    "table sample_join ''dep'' ps2 n2" "n2 \<le> 4" "map snd (heap_items (file_view sample_join ''dep'') ps2) = [[2, 0, 0, 0]]"
    "table sample_join ''out'' ps n" "n \<le> 3" "heap_recs (file_view sample_join ''out'') ps = Map.empty"
proof -
  note s = sample_join_db
  note at = sample_tables_at(2) [OF s]
  have ne: "ATTRCATNAME \<noteq> ''emp''" "ATTRCATNAME \<noteq> ''dep''" "ATTRCATNAME \<noteq> ''out''" by (simp_all add: ATTRCATNAME_def)
  obtain psa na where a: "table sample_join ATTRCATNAME psa na" "na \<le> 5"
     "mset (map snd (heap_items (file_view sample_join ATTRCATNAME) psa)) = mset [AttrDesc_bytes dep_ad, AttrDesc_bytes emp_ad]"
    using at [of ATTRCATNAME "[AttrDesc_bytes dep_ad, AttrDesc_bytes emp_ad]"] ne by auto
  obtain ps1 n1 where e: "table sample_join ''emp'' ps1 n1" "n1 \<le> 4" "mset (map snd (heap_items (file_view sample_join ''emp'') ps1)) = mset [[1, 0, 0, 0]]"
    using at [of "''emp''" "[[1, 0, 0, 0]]"] by auto
  obtain ps2 n2 where d: "table sample_join ''dep'' ps2 n2" "n2 \<le> 4" "mset (map snd (heap_items (file_view sample_join ''dep'') ps2)) = mset [[2, 0, 0, 0]]"
    using at [of "''dep''" "[[2, 0, 0, 0]]"] by auto
  obtain ps n where r: "table sample_join ''out'' ps n" "n \<le> 3" "mset (map snd (heap_items (file_view sample_join ''out'') ps)) = mset []"
    using at [of "''out''" "[]"] by auto
  have "set (map snd (heap_items (file_view sample_join ATTRCATNAME) psa)) = {AttrDesc_bytes emp_ad, AttrDesc_bytes dep_ad}"
    using mset_eq_setD [OF a(3)] by auto
  then have tup: "tuples sample_join ATTRCATNAME psa = {AttrDesc_bytes emp_ad, AttrDesc_bytes dep_ad}" using table_tuples [OF a(1)] by simp
  have single: "xs = [x]" if "mset xs = mset [x]" for xs :: "byte list list" and x using that by simp
  have "tuples sample_join ''out'' ps = {}" using table_tuples [OF r(1)] r(3) by simp
  then have "heap_recs (file_view sample_join ''out'') ps = Map.empty" by (intro ext) (metis empty_iff not_Some_eq ranI tuples_def)
  then show thesis
    using that [OF _ _ _ a(1,2) tup e(1,2) single [OF e(3)] d(1,2) single [OF d(3)] r(1,2)] s unfolding sample_tables_def by blast
qed

lemma sample_lookup:
  assumes t: "table w ATTRCATNAME ps n" "tuples w ATTRCATNAME ps = {AttrDesc_bytes emp_ad, AttrDesc_bytes dep_ad}"
  shows "attr_lookup w ps emp_id = Some emp_ad" "attr_lookup w ps dep_no = Some dep_ad"
proof -
  note ne = named_AttrDesc [OF emp_ok(2,4,5)] and nd = named_AttrDesc [OF dep_ok]
  have x: "map of_char ''emp'' \<noteq> (map of_char ''dep'' :: byte list)" by code_simp
  have an: "attr_named ''emp'' ''id'' (AttrDesc_bytes emp_ad)" "\<not> attr_named ''emp'' ''id'' (AttrDesc_bytes dep_ad)"
    "attr_named ''dep'' ''no'' (AttrDesc_bytes dep_ad)" "\<not> attr_named ''dep'' ''no'' (AttrDesc_bytes emp_ad)"
    using ne nd x by (auto simp: attr_named_def named_def)
  have e: "first_tuple w ATTRCATNAME ps (attr_named ''emp'' ''id'') = Some (AttrDesc_bytes emp_ad)"
    using first_tuple_cases [OF t(1), of "attr_named ''emp'' ''id''"] t(2) an(1,2) by (auto split: option.splits)
  have d: "first_tuple w ATTRCATNAME ps (attr_named ''dep'' ''no'') = Some (AttrDesc_bytes dep_ad)"
    using first_tuple_cases [OF t(1), of "attr_named ''dep'' ''no''"] t(2) an(3,4) by (auto split: option.splits)
  have s: "array_string (ai_relName emp_id) = Some ''emp''" "array_string (ai_attrName emp_id) = Some ''id''"
    "array_string (ai_relName dep_no) = Some ''dep''" "array_string (ai_attrName dep_no) = Some ''no''" by code_simp+
  have n: "name_ok ''emp''" "name_ok ''dep''" by (simp_all add: name_ok_def)
  show "attr_lookup w ps emp_id = Some emp_ad" "attr_lookup w ps dep_no = Some dep_ad"
    using s n e d AttrDesc_roundtrip [OF emp_ok(2)] AttrDesc_roundtrip [OF dep_ok(1)] by (simp_all add: attr_lookup_def)
qed

lemma sample_join_input:
  "join_input emp_ad dep_ad INTEGER [emp_ad, dep_ad] [[1, 0, 0, 0]] [[2, 0, 0, 0]]"
  "theta_join emp_ad dep_ad INTEGER LT [emp_ad, dep_ad] [[1, 0, 0, 0]] [[2, 0, 0, 0]] = [[1, 0, 0, 0, 2, 0, 0, 0]]"
  "relName_string emp_ad = Some ''emp''" "relName_string dep_ad = Some ''dep''"
proof -
  have "same_rel emp_ad emp_ad" "\<not> same_rel dep_ad emp_ad" "c_name (ad_relName emp_ad)" "c_name (ad_relName dep_ad)" by code_simp+
  note r = this
  have v: "int_value [1, 0, 0, 0] = 1" "int_value [2, 0, 0, 0] = 2" by code_simp+
  have a: "ad_attrOffset emp_ad = 0" "ad_attrLen emp_ad = 4" "ad_attrType emp_ad = 1" "ad_attrOffset dep_ad = 0" "ad_attrLen dep_ad = 4" "ad_attrType dep_ad = 1"
    by (simp_all add: emp_ad_def dep_ad_def)
  have at: "attr_of emp_ad [1, 0, 0, 0] = [1, 0, 0, 0]" "attr_of dep_ad [2, 0, 0, 0] = [2, 0, 0, 0]" using a by (simp_all add: attr_of_def)
  show "join_input emp_ad dep_ad INTEGER [emp_ad, dep_ad] [[1, 0, 0, 0]] [[2, 0, 0, 0]]"
    using a r at v by (simp add: join_input_def join_attrs_def row_len_def fits_def comparable_def int_ok_def)
  have "join_row emp_ad [emp_ad, dep_ad] [1, 0, 0, 0] [2, 0, 0, 0] = [1, 0, 0, 0, 2, 0, 0, 0]" using a r by (simp add: join_row_def)
  then show "theta_join emp_ad dep_ad INTEGER LT [emp_ad, dep_ad] [[1, 0, 0, 0]] [[2, 0, 0, 0]] = [[1, 0, 0, 0, 2, 0, 0, 0]]"
    using at v by (simp add: theta_join_def ref_match_def)
  show "relName_string emp_ad = Some ''emp''" "relName_string dep_ad = Some ''dep''" by code_simp+
qed

theorem nl_join_correct_witness:
  "\<exists>w' ps' n' rid. QU_Join NLJoin emp_ad sample_join new_scan new_object ''out'' [emp_id, dep_no] emp_id LT dep_no =
       Some (OK, ''tuple nested join produced 1 result tuples '' @ [CHR 0x0A], w') \<and>
     table w' ''out'' ps' n' \<and> heap_recs (file_view w' ''out'') ps' = [rid \<mapsto> [1, 0, 0, 0, 2, 0, 0, 0]]"
proof -
  obtain psa na ps1 n1 ps2 n2 ps n where f: "db_inv sample_join" "spare sample_join 8" "resources sample_join 52 1000"
    "table sample_join ATTRCATNAME psa na" "na \<le> 5" "tuples sample_join ATTRCATNAME psa = {AttrDesc_bytes emp_ad, AttrDesc_bytes dep_ad}"
    "table sample_join ''emp'' ps1 n1" "n1 \<le> 4" "map snd (heap_items (file_view sample_join ''emp'') ps1) = [[1, 0, 0, 0]]"
    "table sample_join ''dep'' ps2 n2" "n2 \<le> 4" "map snd (heap_items (file_view sample_join ''dep'') ps2) = [[2, 0, 0, 0]]"
    "table sample_join ''out'' ps n" "n \<le> 3" "heap_recs (file_view sample_join ''out'') ps = Map.empty" by (rule sample_join_facts)
  note lk = sample_lookup [OF f(4,6)]
  have r: "resources sample_join (length [[1, 0, 0, 0 :: byte]] + 3) 1000" by (rule resources_mono [OF f(3)]) simp
  have tup: "\<forall>b \<in> tuples sample_join ATTRCATNAME psa. attr_tuple b" using f(6) named_AttrDesc(3) [OF emp_ok(2,4,5)] named_AttrDesc(3) [OF dep_ok] by simp
  have b: "na \<le> 1000" "n1 \<le> 1000" "n2 \<le> 1000" "n + int (length [[1, 0, 0, 0, 2, 0, 0, 0 :: byte]]) \<le> 1000" using f(5,8,11,14) by simp_all
  have d: "distinct [ATTRCATNAME, ''emp'', ''dep'', ''out'']" by (simp add: ATTRCATNAME_def)
  have t: "ai_attrType emp_id = ai_attrType dep_no" "ai_attrLen emp_id = ai_attrLen dep_no" by (simp_all add: emp_id_def dep_no_def)
  have p: "map (attr_lookup sample_join psa) [emp_id, dep_no] = map Some [emp_ad, dep_ad]" using lk by simp
  have m: "NLJoin = NLJoin \<or> NLJoin = HashJoin \<and> LT \<noteq> EQ" by simp
  have i: "int_str (int (length [[1, 0, 0, 0, 2, 0, 0, 0 :: byte]])) = ''1''" by code_simp
  obtain w' ps' n' rids where q: "QU_Join NLJoin emp_ad sample_join new_scan new_object ''out'' [emp_id, dep_no] emp_id LT dep_no =
       Some (OK, ''tuple nested join produced '' @ int_str (int (length [[1, 0, 0, 0, 2, 0, 0, 0 :: byte]])) @ '' result tuples '' @ [CHR 0x0A], w')"
     "table w' ''out'' ps' n'" "added (heap_recs (file_view sample_join ''out'') ps) (heap_recs (file_view w' ''out'') ps') rids [[1, 0, 0, 0, 2, 0, 0, 0]]"
    using nl_join_correct [OF f(1,2) r f(4) b(1) tup f(7) b(2) f(10) b(3) f(13) d f(9) [symmetric] f(12) [symmetric] t p lk sample_join_input(3,4,1)
      sample_join_input(2) [symmetric] b(4) m, of emp_ad new_scan new_object] by (elim exE conjE) (rule that)
  obtain rid where "rids = [rid]" using q(3) by (auto simp: added_def length_Suc_conv)
  then have "heap_recs (file_view w' ''out'') ps' = [rid \<mapsto> [1, 0, 0, 0, 2, 0, 0, 0]]" using q(3) f(15) by (simp add: added_def)
  then show ?thesis using q(1,2) unfolding i by auto
qed

end
