(* ===== verification/Sort.thy ===== *)
theory Sort
  imports Catalog
begin

text \<open>
  Sorting heap files: \<open>sort.h\<close> and \<open>sort.cpp\<close>. The source file is split into runs of at most \<open>maxItems\<close>
  records, each run is sorted in memory and written to a temporary heap file, and \<open>next\<close> merges
  the runs. The library function \<open>qsort\<close> is a parameter, of which only what its specification
  promises is used. A record pointer is a frame and a reference into it. Pointers that have not
  been set are \<open>None\<close>; using one has no defined result, and neither has converting a
  difference that is not a number to \<open>int\<close>. Memory parameters are as in \<open>Catalog\<close>.
\<close>

section \<open>Comparing attributes\<close>

fun memcmp :: "byte list \<Rightarrow> byte list \<Rightarrow> nat \<Rightarrow> int option" where
  "memcmp as bs 0 = Some 0"
| "memcmp (a # as) (b # bs) (Suc n) = (if a \<noteq> b then Some (if a < b then - 1 else 1) else memcmp as bs n)"
| "memcmp _ _ _ = None"

definition reccmp :: "byte list \<Rightarrow> byte list \<Rightarrow> int \<Rightarrow> int \<Rightarrow> Datatype \<Rightarrow> int option" where
  "reccmp p1 p2 p1Len p2Len type =
     (case type of
        INTEGER \<Rightarrow>
          if 4 \<le> length p1 \<and> 4 \<le> length p2 then Some (sgn (swrap 4 (get_int (bytes_mem p1) 0 - get_int (bytes_mem p2) 0))) else None
      | FLOAT \<Rightarrow>
          if 4 \<le> length p1 \<and> 4 \<le> length p2
          then single_diff_sgn (single_of_bits (get_le 4 (bytes_mem p1) 0)) (single_of_bits (get_le 4 (bytes_mem p2) 0)) else None
      | STRING \<Rightarrow> memcmp p1 p2 (nat (min p1Len p2Len)))"

record SORTREC =
  sr_rid :: RID
  sr_field :: "byte list"
  sr_length :: int

definition intcmp :: "SORTREC \<Rightarrow> SORTREC \<Rightarrow> int option" where
  "intcmp p1 p2 = reccmp (sr_field p1) (sr_field p2) (sr_length p1) (sr_length p2) INTEGER"

definition floatcmp :: "SORTREC \<Rightarrow> SORTREC \<Rightarrow> int option" where
  "floatcmp p1 p2 = reccmp (sr_field p1) (sr_field p2) (sr_length p1) (sr_length p2) FLOAT"

definition stringcmp :: "SORTREC \<Rightarrow> SORTREC \<Rightarrow> int option" where
  "stringcmp p1 p2 = reccmp (sr_field p1) (sr_field p2) (sr_length p1) (sr_length p2) STRING"

type_synonym sorter = "(SORTREC \<Rightarrow> SORTREC \<Rightarrow> int option) \<Rightarrow> SORTREC list \<Rightarrow> SORTREC list option"


section \<open>Sorted files\<close>

record RUN =
  run_name :: string
  inFile :: "HeapFileScan option"
  run_valid :: bool
  run_rec :: "pageptr \<times> recref"
  run_rid :: RID
  run_mark :: RID

record SortedFile =
  sf_runs :: "RUN list"
  sf_fileName :: string
  sf_type :: Datatype
  sf_offset :: int
  sf_length :: int
  sf_buffer :: bool
  sf_maxItems :: int

text \<open>\<open>fileName.sort.n\<close>, with the zero that \<open>ends\<close> writes.\<close>

definition run_file_name :: "string \<Rightarrow> nat \<Rightarrow> string" where
  "run_file_name fname n = fname @ ''.sort.'' @ nat_str n @ [char_of (0 :: nat)]"

text \<open>Reading up to \<open>n\<close> records into the buffer: \<open>Inl\<close> is a \<open>return\<close> with an error.\<close>

fun fill_buffer ::
    "'a db_state_scheme \<Rightarrow> HeapFileScan \<Rightarrow> int \<Rightarrow> int \<Rightarrow> nat \<Rightarrow> ((Status + SORTREC list) \<times> HeapFileScan \<times> 'a db_state_scheme) option" where
  "fill_buffer w hfs off len 0 = Some (Inr [], hfs, w)"
| "fill_buffer w hfs off len (Suc n) = do {
     (status, rid, hfs, w) \<leftarrow> scanNext w hfs NULLRID;
     if status = FILEEOF then Some (Inr [], hfs, w)
     else if status \<noteq> OK then Some (Inl status, hfs, w)
     else do {
       (status, rec) \<leftarrow> HeapFileScan_getRecord w hfs no_rec;
       if status \<noteq> OK then Some (Inl status, hfs, w)
       else do {
         field \<leftarrow> rec_bytes w hfs (rec\<lparr>ref_offset := ref_offset rec + off\<rparr>) len;
         (res, hfs, w) \<leftarrow> fill_buffer w hfs off len n;
         case res of
           Inl status \<Rightarrow> Some (Inl status, hfs, w)
         | Inr buffer \<Rightarrow> Some (Inr (\<lparr>sr_rid = rid, sr_field = field, sr_length = len\<rparr> # buffer), hfs, w)
       }
     }
   }"

text \<open>Copying the records of a sorted buffer from the source file to the run.\<close>

fun write_run ::
    "'a db_state_scheme \<Rightarrow> HeapFile \<Rightarrow> HeapFile \<Rightarrow> SORTREC list \<Rightarrow> (Status \<times> HeapFile \<times> HeapFile \<times> 'a db_state_scheme) option" where
  "write_run w hfile outFile [] = Some (OK, hfile, outFile, w)"
| "write_run w hfile outFile (r # rs) = do {
     (status, record, hfile, w) \<leftarrow> HeapFile_getRecord w hfile (sr_rid r) no_rec;
     if status \<noteq> OK then Some (status, hfile, outFile, w)
     else do {
       data \<leftarrow> rec_bytes w hfile record (ref_length record);
       (status, rid, outFile, w) \<leftarrow> insertRecord w outFile \<lparr>rec_data = data, rec_length = ref_length record\<rparr> NULLRID;
       if status \<noteq> OK then Some (status, hfile, outFile, w)
       else write_run w hfile outFile rs
     }
   }"

definition generateRun ::
    "sorter \<Rightarrow> 'a db_state_scheme \<Rightarrow> HeapFile \<Rightarrow> RUN \<Rightarrow> SortedFile \<Rightarrow> SORTREC list \<Rightarrow> (Status \<times> SortedFile \<times> 'a db_state_scheme) option" where
  "generateRun qsort w h newRun sf buffer = do {
     buffer \<leftarrow> qsort (case sf_type sf of INTEGER \<Rightarrow> intcmp | FLOAT \<Rightarrow> floatcmp | STRING \<Rightarrow> stringcmp) buffer;
     let name = run_file_name (sf_fileName sf) (length (sf_runs sf) + 1);
     let sf = sf\<lparr>sf_runs := sf_runs sf @ [newRun\<lparr>run_name := name, inFile := None\<rparr>]\<rparr>;
     (status, w) \<leftarrow> DB_createFile w name;
     if status \<noteq> OK then Some (status, sf, w) else do {
     (status, w) \<leftarrow> DB_destroyFile w name;
     if status \<noteq> OK then Some (status, sf, w) else do {
     (status, outFile, w) \<leftarrow> InsertFileScan_new w h name;
     if status \<noteq> OK then Some (status, sf, w) else do {
     (status, hfile, w) \<leftarrow> HeapFile_new w h (sf_fileName sf);
     if status \<noteq> OK then Some (status, sf, w) else do {
     (status, hfile, outFile, w) \<leftarrow> write_run w hfile outFile buffer;
     if status \<noteq> OK then Some (status, sf, w) else do {
     (outFile, w) \<leftarrow> InsertFileScan_destroy w outFile;
     (hfile, w) \<leftarrow> HeapFile_destroy w hfile;
     Some (OK, sf, w)
     }}}}}
   }"

text \<open>The \<open>do\<close> loop of \<open>sortFile\<close>.\<close>

partial_function (option) sort_loop ::
    "sorter \<Rightarrow> 'a db_state_scheme \<Rightarrow> HeapFile \<Rightarrow> RUN \<Rightarrow> SortedFile \<Rightarrow> HeapFileScan \<Rightarrow> (Status \<times> SortedFile \<times> HeapFileScan \<times> 'a db_state_scheme) option" where
  "sort_loop qsort w h newRun sf hfs = do {
     (res, hfs, w) \<leftarrow> fill_buffer w hfs (sf_offset sf) (sf_length sf) (nat (sf_maxItems sf));
     case res of
       Inl status \<Rightarrow> Some (status, sf, hfs, w)
     | Inr buffer \<Rightarrow>
         if buffer = [] then Some (OK, sf, hfs, w)
         else do {
           (status, sf, w) \<leftarrow> generateRun qsort w h newRun sf buffer;
           if status \<noteq> OK then Some (status, sf, hfs, w) else sort_loop qsort w h newRun sf hfs
         }
   }"

fun startScans :: "'a db_state_scheme \<Rightarrow> HeapFileScan \<Rightarrow> RUN list \<Rightarrow> (Status \<times> RUN list \<times> 'a db_state_scheme) option" where
  "startScans w s [] = Some (OK, [], w)"
| "startScans w s (run # runs) = do {
     (status, scan, w) \<leftarrow> HeapFileScan_new w s (run_name run);
     if status \<noteq> OK then Some (status, run\<lparr>inFile := Some scan\<rparr> # runs, w)
     else do {
       let (status, scan) = startScan scan 0 0 0 None EQ;
       if status \<noteq> OK then Some (status, run\<lparr>inFile := Some scan\<rparr> # runs, w)
       else do {
         (status, runs, w) \<leftarrow> startScans w s runs;
         Some (status, run\<lparr>inFile := Some scan, run_valid := False, run_rid := RID (- 1) (- 1)\<rparr> # runs, w)
       }
     }
   }"

definition sortFile ::
    "sorter \<Rightarrow> 'a db_state_scheme \<Rightarrow> HeapFileScan \<Rightarrow> HeapFile \<Rightarrow> RUN \<Rightarrow> SortedFile \<Rightarrow> (Status \<times> SortedFile \<times> 'a db_state_scheme) option" where
  "sortFile qsort w s h newRun sf = do {
     (status, hfs, w) \<leftarrow> HeapFileScan_new w s (sf_fileName sf);
     if status \<noteq> OK then Some (status, sf, w) else do {
     let (status, hfs) = startScan hfs 0 0 0 None EQ;
     if status \<noteq> OK then Some (status, sf, w) else do {
     (status, sf, hfs, w) \<leftarrow> sort_loop qsort w h newRun sf hfs;
     if status \<noteq> OK then Some (status, sf, w) else do {
     (hfs, w) \<leftarrow> HeapFileScan_destroy w hfs;
     (status, runs, w) \<leftarrow> startScans w s (sf_runs sf);
     let sf = sf\<lparr>sf_runs := runs\<rparr>;
     if status \<noteq> OK then Some (status, sf, w) else Some (OK, sf, w)
     }}}
   }"

text \<open>The constructor; the type is one of the enumeration by typing.\<close>

definition SortedFile_new ::
    "sorter \<Rightarrow> 'a db_state_scheme \<Rightarrow> HeapFileScan \<Rightarrow> HeapFile \<Rightarrow> RUN \<Rightarrow> string \<Rightarrow> int \<Rightarrow> int \<Rightarrow> Datatype \<Rightarrow> int \<Rightarrow>
     (Status \<times> SortedFile \<times> 'a db_state_scheme) option" where
  "SortedFile_new qsort w s h newRun fname off len type maxItems =
     (let sf = \<lparr>sf_runs = [], sf_fileName = fname, sf_type = type, sf_offset = off, sf_length = len, sf_buffer = False, sf_maxItems = maxItems\<rparr>
      in if off < 0 \<or> len < 1 then Some (BADSORTPARM, sf, w)
      else if type = INTEGER \<and> len \<noteq> 4 \<or> type = FLOAT \<and> len \<noteq> 4 then Some (BADSORTPARM, sf, w)
      else if maxItems < 2 then Some (INSUFMEM, sf, w)
      else sortFile qsort w s h newRun (sf\<lparr>sf_buffer := True\<rparr>))"


section \<open>Merging the runs\<close>

text \<open>The bytes from the sort attribute of the current record of a run to the end of the page.\<close>

definition run_attr :: "'a buf_state_scheme \<Rightarrow> int \<Rightarrow> RUN \<Rightarrow> byte list option" where
  "run_attr w off run = do {
     p \<leftarrow> frame_at w (fst (run_rec run));
     let a = ref_offset (snd (run_rec run)) + off;
     if 0 \<le> a \<and> a \<le> PAGESIZE then Some (read_bytes p (nat a) (nat (PAGESIZE - a))) else None
   }"

text \<open>Fetching the next record of a run that has none in memory.\<close>

definition fetch_run :: "'a buf_state_scheme \<Rightarrow> RUN \<Rightarrow> (Status \<times> RUN \<times> 'a buf_state_scheme) option" where
  "fetch_run w run =
     (if run_valid run then Some (OK, run, w)
      else do {
        scan \<leftarrow> inFile run;
        (status, rid, scan, w) \<leftarrow> scanNext w scan (run_rid run);
        let run = run\<lparr>inFile := Some scan, run_rid := rid\<rparr>;
        if status = FILEEOF then Some (OK, run\<lparr>run_rid := RID (- 1) (slotNo (run_rid run)), run_valid := True\<rparr>, w)
        else if status \<noteq> OK then Some (status, run, w)
        else do {
          (status, rec) \<leftarrow> HeapFileScan_getRecord w scan (snd (run_rec run));
          if status \<noteq> OK then Some (status, run, w)
          else Some (OK, run\<lparr>run_rec := (hf_curPage scan, rec), run_valid := True\<rparr>, w)
        }
      })"

text \<open>The loop over the runs from number \<open>i\<close> on; \<open>small\<close> is the number of the run with the smallest record so far.\<close>

function next_loop ::
    "'a buf_state_scheme \<Rightarrow> SortedFile \<Rightarrow> nat \<Rightarrow> nat option \<Rightarrow> (Status \<times> nat option \<times> SortedFile \<times> 'a buf_state_scheme) option" where
  "next_loop w sf i small =
     (if i < length (sf_runs sf) then do {
        (status, run, w) \<leftarrow> fetch_run w (sf_runs sf ! i);
        let runs = (sf_runs sf)[i := run];
        let sf' = sf\<lparr>sf_runs := runs\<rparr>;
        if status \<noteq> OK then Some (status, small, sf', w)
        else if pageNo (run_rid run) < 0 then next_loop w sf' (Suc i) small
        else case small of
          None \<Rightarrow> next_loop w sf' (Suc i) (Some i)
        | Some j \<Rightarrow> do {
            a \<leftarrow> run_attr w (sf_offset sf) (runs ! j);
            b \<leftarrow> run_attr w (sf_offset sf) run;
            d \<leftarrow> reccmp a b (sf_length sf) (sf_length sf) (sf_type sf);
            next_loop w sf' (Suc i) (if d > 0 then Some i else Some j)
          }
      }
      else Some (OK, small, sf, w))"
  by pat_completeness auto
termination
  by (relation "measure (\<lambda>(w, sf, i, small). length (sf_runs sf) - i)") auto

definition SortedFile_next :: "'a buf_state_scheme \<Rightarrow> SortedFile \<Rightarrow> pageptr \<times> recref \<Rightarrow> (Status \<times> (pageptr \<times> recref) \<times> SortedFile \<times> 'a buf_state_scheme) option" where
  "SortedFile_next w sf rec =
     (if sf_runs sf = [] then Some (FILEEOF, rec, sf, w)
      else do {
        (status, small, sf, w) \<leftarrow> next_loop w sf 0 None;
        if status \<noteq> OK then Some (status, rec, sf, w)
        else case small of
          None \<Rightarrow> Some (FILEEOF, rec, sf, w)
        | Some j \<Rightarrow> Some (OK, run_rec (sf_runs sf ! j), sf\<lparr>sf_runs := (sf_runs sf)[j := (sf_runs sf ! j)\<lparr>run_valid := False\<rparr>]\<rparr>, w)
      })"

fun setMark_runs :: "RUN list \<Rightarrow> RUN list option" where
  "setMark_runs [] = Some []"
| "setMark_runs (run # runs) = do {
     scan \<leftarrow> inFile run;
     let (status, scan) = markScan scan;
     runs \<leftarrow> setMark_runs runs;
     Some (run\<lparr>inFile := Some scan, run_mark := run_rid run\<rparr> # runs)
   }"

definition SortedFile_setMark :: "SortedFile \<Rightarrow> (Status \<times> SortedFile) option" where
  "SortedFile_setMark sf = do {
     runs \<leftarrow> setMark_runs (sf_runs sf);
     Some (OK, sf\<lparr>sf_runs := runs\<rparr>)
   }"

fun gotoMark_runs :: "'a buf_state_scheme \<Rightarrow> RUN list \<Rightarrow> (Status \<times> RUN list \<times> 'a buf_state_scheme) option" where
  "gotoMark_runs w [] = Some (OK, [], w)"
| "gotoMark_runs w (run # runs) = do {
     scan \<leftarrow> inFile run;
     (status, scan, w) \<leftarrow> resetScan w scan;
     let run = run\<lparr>inFile := Some scan\<rparr>;
     if status \<noteq> OK then Some (status, run # runs, w)
     else do {
       let run = run\<lparr>run_rid := run_mark run\<rparr>;
       (status, run) \<leftarrow>
         (if pageNo (run_rid run) \<ge> 0 then do {
            (status, rec) \<leftarrow> HeapFileScan_getRecord w scan (snd (run_rec run));
            Some (status, if status = OK then run\<lparr>run_rec := (hf_curPage scan, rec)\<rparr> else run)
          }
          else Some (OK, run));
       if status \<noteq> OK then Some (status, run # runs, w)
       else do {
         (status, runs, w) \<leftarrow> gotoMark_runs w runs;
         Some (status, run\<lparr>run_valid := True\<rparr> # runs, w)
       }
     }
   }"

definition SortedFile_gotoMark :: "'a buf_state_scheme \<Rightarrow> SortedFile \<Rightarrow> (Status \<times> SortedFile \<times> 'a buf_state_scheme) option" where
  "SortedFile_gotoMark w sf = do {
     (status, runs, w) \<leftarrow> gotoMark_runs w (sf_runs sf);
     Some (status, sf\<lparr>sf_runs := runs\<rparr>, w)
   }"

text \<open>The destructor deletes the scans, whether they have been set or not, and the buffer.\<close>

fun destroy_runs :: "'a db_state_scheme \<Rightarrow> RUN list \<Rightarrow> 'a db_state_scheme option" where
  "destroy_runs w [] = Some w"
| "destroy_runs w (run # runs) = do {
     scan \<leftarrow> inFile run;
     (scan, w) \<leftarrow> HeapFileScan_destroy w scan;
     (status, w) \<leftarrow> DB_destroyFile w (run_name run);
     destroy_runs w runs
   }"

definition SortedFile_destroy :: "'a db_state_scheme \<Rightarrow> SortedFile \<Rightarrow> 'a db_state_scheme option" where
  "SortedFile_destroy w sf = do {
     w \<leftarrow> destroy_runs w (sf_runs sf);
     if sf_buffer sf then Some w else None
   }"

end
