(* ===== verification/SortProps.thy ===== *)
theory SortProps
  imports HeapJoint Sort JoinNLProps
begin

text \<open>
  What sorting does with a stored relation: an empty one gives no runs and the end of the file at once, for
  any other one the constructor fails when it opens the file of the first run.
\<close>

section \<open>The first buffer\<close>

definition sort_record :: "int \<Rightarrow> int \<Rightarrow> item \<Rightarrow> SORTREC" where
  "sort_record off len x = \<lparr>sr_rid = fst x, sr_field = take (nat len) (drop (nat off) (snd x)), sr_length = len\<rparr>"

lemma fill_buffer_spec:
  assumes "scanning w nm s ps items" "db_inv w" "0 \<le> off" "0 \<le> len" "\<forall>x \<in> set items. off + len \<le> int (length (snd x))"
  shows "\<exists>s' w'. fill_buffer w s off len n = Some (Inr (map (sort_record off len) (take n items)), s', w') \<and> scanning w' nm s' ps (drop n items) \<and>
     work w {nm} 0 w' \<and> owes w w' (\<lambda>g q. its_pins s' g q - its_pins s g q) (\<lambda>g. 0) \<and> filePtr s' = filePtr s \<and> lpage w' (filePtr s') = lpage w (filePtr s)"
  using assms
proof (induction n arbitrary: w s items)
  case 0
  then show ?case using work_refl [of w] by (intro exI [of _ s] exI [of _ w]) (simp add: owes_def)
next
  case (Suc n)
  show ?case
  proof (cases items)
    case Nil
    have sc: "scanning w nm s ps []" using Suc.prems(1) Nil by simp
    obtain s2 w2 rid where r: "scanNext w s NULLRID = Some (FILEEOF, rid, s2, w2)" "scanning w2 nm s2 ps []" "work w {nm} 0 w2"
       "owes w w2 (\<lambda>g q. its_pins s2 g q - its_pins s g q) (\<lambda>g. 0)" "filePtr s2 = filePtr s" "lpage w2 (filePtr s2) = lpage w (filePtr s)"
      using scan_end_work [OF sc Suc.prems(2)] by blast
    then show ?thesis using Nil by (intro exI [of _ s2] exI [of _ w2]) simp
  next
    case (Cons x xs)
    obtain rid b where x: "x = (rid, b)" by (cases x)
    have sc: "scanning w nm s ps ((rid, b) # xs)" using Suc.prems(1) Cons x by simp
    obtain s2 w2 ref where r: "scanNext w s NULLRID = Some (OK, rid, s2, w2)" "HeapFileScan_getRecord w2 s2 no_rec = Some (OK, ref)" "rec_is w2 s2 ref b"
       "scanning w2 nm s2 ps xs" "work w {nm} 0 w2" "owes w w2 (\<lambda>g q. its_pins s2 g q - its_pins s g q) (\<lambda>g. 0)" "filePtr s2 = filePtr s" "lpage w2 (filePtr s2) = lpage w (filePtr s)"
      using scan_next_work [OF sc Suc.prems(2)] by blast
    have f: "rec_bytes w2 s2 (ref\<lparr>ref_offset := ref_offset ref + off\<rparr>) len = Some (take (nat len) (drop (nat off) b))"
      by (rule rec_is_bytes [OF r(3)]) (use Suc.prems(3-5) Cons x in auto)
    have l: "\<forall>x \<in> set xs. off + len \<le> int (length (snd x))" using Suc.prems(5) Cons by simp
    obtain s3 w3 where i: "fill_buffer w2 s2 off len n = Some (Inr (map (sort_record off len) (take n xs)), s3, w3)" "scanning w3 nm s3 ps (drop n xs)"
       "work w2 {nm} 0 w3" "owes w2 w3 (\<lambda>g q. its_pins s3 g q - its_pins s2 g q) (\<lambda>g. 0)" "filePtr s3 = filePtr s2" "lpage w3 (filePtr s3) = lpage w2 (filePtr s2)"
      using Suc.IH [OF r(4) workD(1) [OF r(5)] Suc.prems(3,4) l] by blast
    have "fill_buffer w s off len (Suc n) = Some (Inr (map (sort_record off len) (take (Suc n) items)), s3, w3)"
      using r(1,2) f i(1) Cons x by (simp add: sort_record_def)
    moreover have "work w {nm} 0 w3" using work_trans [OF Suc.prems(2) r(5) i(3)] by simp
    moreover have "owes w w3 (\<lambda>g q. its_pins s3 g q - its_pins s g q) (\<lambda>g. 0)" using owes_trans [OF r(6) i(4)] by simp
    ultimately show ?thesis using i(2,5,6) r(7,8) Cons by (intro exI [of _ s3] exI [of _ w3]) simp
  qed
qed

text \<open>
  Opening a file that is not there: with an object whose page pointer is null, and with one whose page pointer
  is not null and whose header pointer is.
\<close>

lemma insert_open_missing:
  assumes inv: "db_inv w" and nm: "nm \<noteq> []" "disk w (unix_name nm) = None" and a: "files w (newAddr w (newCnt w)) = None"
  shows "hf_curPage h = None \<Longrightarrow> \<exists>h'. InsertFileScan_new w h nm = Some (UNIXERR, h', w\<lparr>newCnt := newCnt w + 1\<rparr>)"
    "hf_curPage h \<noteq> None \<Longrightarrow> headerPage h = None \<Longrightarrow> InsertFileScan_new w h nm = None"
proof -
  have "oft_map (openFiles w) nm = None"
    using db_inv_open_disk [OF inv, of nm] open_unix_name [OF inv, of nm] nm(2) by (cases "oft_map (openFiles w) nm") auto
  note m = open_missing_eq [OF inv nm(1) this nm(2) a]
  show "hf_curPage h = None \<Longrightarrow> \<exists>h'. InsertFileScan_new w h nm = Some (UNIXERR, h', w\<lparr>newCnt := newCnt w + 1\<rparr>)"
    using m by (simp add: InsertFileScan_new_def HeapFile_new_def)
  show "hf_curPage h \<noteq> None \<Longrightarrow> headerPage h = None \<Longrightarrow> InsertFileScan_new w h nm = None"
    using m by (simp add: InsertFileScan_new_def HeapFile_new_def frame_at_def)
qed

text \<open>The file of a run that is made and removed again leaves the disk as it was.\<close>

lemma make_and_remove:
  assumes inv: "db_inv w" and nm: "nm \<noteq> []" "disk w (unix_name nm) = None"
  shows "\<exists>w1. DB_createFile w nm = Some (OK, w1) \<and> DB_destroyFile w1 nm = Some (OK, w)"
proof -
  let ?u = "unix_name nm"
  have o: "oft_map (openFiles w) nm = None"
    using db_inv_open_disk [OF inv, of nm] open_unix_name [OF inv, of nm] nm(2) by (cases "oft_map (openFiles w) nm") auto
  obtain w1 u where c: "DB_createFile w nm = Some (OK, w1)" "w1 = w\<lparr>disk := (disk w)(?u \<mapsto> u)\<rparr>" "db_inv w1" using createFile_spec [OF inv nm(1)] nm(2) by auto
  have "oft_map (openFiles w1) nm = None" "disk w1 ?u \<noteq> None" using c(2) o by simp_all
  then obtain w2 where d: "DB_destroyFile w1 nm = Some (OK, w2)" "w2 = w1\<lparr>disk := (disk w1)(?u := None)\<rparr>" using destroyFile_spec [OF c(3) nm(1)] by auto
  have "(disk w)(?u := None) = disk w" using nm(2) by auto
  then have "w2 = w" using c(2) d(2) by simp
  then show ?thesis using c(1) d(1) by blast
qed

text \<open>The Unix file of the first run; the zero at the end of the name does not count.\<close>

lemma run_file_unix:
  assumes "unix_name nm = nm"
  shows "unix_name (run_file_name nm 1) = nm @ ''.sort.1''"
proof -
  have "unix_name (nm @ cs) = nm @ unix_name cs" for cs
    using assms by (simp add: unix_name_def takeWhile_eq_all_conv takeWhile_append2)
  moreover have "nat_str 1 = ''1''" "char_of (0 :: nat) = CHR 0x00" by code_simp+
  ultimately show ?thesis by (simp add: run_file_name_def)
qed

lemma table_on_disk: "db_inv w \<Longrightarrow> table w nm ps n \<Longrightarrow> disk w nm \<noteq> None"
  using db_inv_open_disk [of w nm]
  by (cases "oft_map (openFiles w) nm") (auto simp: table_def stored_heap_def heap_at_def file_view_def name_page_def split: option.splits)

lemma table_unix: "db_inv w \<Longrightarrow> table w nm ps n \<Longrightarrow> unix_name nm = nm"
  using table_on_disk [of w nm ps n] disk_unix [of w nm] by (auto simp: db_inv_def)

section \<open>The constructor\<close>

definition sort_args :: "int \<Rightarrow> int \<Rightarrow> Datatype \<Rightarrow> int \<Rightarrow> bool" where
  "sort_args off len type maxItems \<longleftrightarrow> 0 \<le> off \<and> 1 \<le> len \<and> (type \<noteq> STRING \<longrightarrow> len = 4) \<and> 2 \<le> maxItems"

abbreviation sort_cmp :: "Datatype \<Rightarrow> SORTREC \<Rightarrow> SORTREC \<Rightarrow> int option" where
  "sort_cmp type \<equiv> (case type of INTEGER \<Rightarrow> intcmp | FLOAT \<Rightarrow> floatcmp | STRING \<Rightarrow> stringcmp)"

lemma file_view_newCnt: "file_view (w\<lparr>newCnt := n\<rparr>) = file_view w"
  by (rule ext)+ (simp add: file_view_def name_page_def split: option.splits)

text \<open>The first buffer is read; nothing has changed but the position of the scan.\<close>

lemma sort_first_buffer:
  assumes inv: "db_inv w" and t: "table w nm ps n" and r: "resources w 1 N" "n \<le> N" and sp: "spare w 2" and a: "0 \<le> off" "0 \<le> len"
    and l: "\<forall>x \<in> set (heap_items (file_view w nm) ps). off + len \<le> int (length (snd x))"
  shows "\<exists>s1 w1 s2 s3 w2 items. HeapFileScan_new w s nm = Some (OK, s1, w1) \<and> startScan s1 0 0 0 None EQ = (OK, s2) \<and>
     fill_buffer w1 s2 off len k = Some (Inr (map (sort_record off len) (take k (heap_items (file_view w nm) ps))), s3, w2) \<and> scanning w2 nm s3 ps items \<and>
     work w {nm} (opens w nm) w2 \<and> owes w w2 (its_pins s3) (its_open s3) \<and> filePtr s3 = handle w nm \<and> lpage w2 (filePtr s3) = file_view w nm \<and> file_view w2 = file_view w"
proof -
  have fa: "filter_args 0 0 0 None" by (simp add: filter_args_def)
  have sel: "filter (\<lambda>x. selects 0 0 0 None EQ (snd x)) xs = xs" for xs :: "item list" by (simp add: selects_def)
  obtain s1 w1 s2 where o: "HeapFileScan_new w s nm = Some (OK, s1, w1)" "startScan s1 0 0 0 None EQ = (OK, s2)" "scanning w1 nm s2 ps (heap_items (file_view w nm) ps)"
     "filePtr s2 = handle w nm" "work w {nm} (opens w nm) w1" "owes w w1 (its_pins s2) (its_open s2)" "lpage w1 (filePtr s2) = file_view w nm"
    using scan_open_work [OF inv t r sp fa, of s EQ] unfolding sel by blast
  obtain s3 w2 where f: "fill_buffer w1 s2 off len k = Some (Inr (map (sort_record off len) (take k (heap_items (file_view w nm) ps))), s3, w2)"
     "scanning w2 nm s3 ps (drop k (heap_items (file_view w nm) ps))" "work w1 {nm} 0 w2" "owes w1 w2 (\<lambda>g q. its_pins s3 g q - its_pins s2 g q) (\<lambda>g. 0)" "filePtr s3 = filePtr s2"
     "lpage w2 (filePtr s3) = lpage w1 (filePtr s2)"
    using fill_buffer_spec [OF o(3) workD(1) [OF o(5)] a l, of k] by blast
  have k: "work w {nm} (opens w nm) w2" using work_trans [OF inv o(5) f(3)] by simp
  have lv: "live_obj w2 nm s3 ps" using f(2) by (simp add: scanning_def)
  have "file_view w2 m = file_view w m" for m
    using workD(7) [OF k, of m] lv f(6) o(7) by (cases "m = nm") (simp_all add: live_obj_def file_view_def)
  moreover have "owes w w2 (its_pins s3) (its_open s3)" using owes_trans [OF o(6) f(4)] f(5) by (simp add: owes_def its_open_def)
  ultimately show ?thesis using o(1,2,4,7) f(1,2,5,6) k by (intro exI [of _ s1] exI [of _ w1] exI [of _ s2] exI [of _ s3] exI [of _ w2] exI) (simp add: fun_eq_iff)
qed

text \<open>The file of the first run must not be there; it is made, removed, and cannot be opened then.\<close>

lemma generateRun_first:
  assumes inv: "db_inv w" and nm: "u = unix_name (run_file_name (sf_fileName sf) 1)" and r: "resources w 1 N"
    and q: "\<forall>rs. qsort (sort_cmp (sf_type sf)) rs \<noteq> None" and runs: "sf_runs sf = []"
  shows "disk w u \<noteq> None \<Longrightarrow> \<exists>sf'. generateRun qsort w h newRun sf buf = Some (FILEEXISTS, sf', w)"
    "disk w u = None \<Longrightarrow> hf_curPage h = None \<Longrightarrow> \<exists>sf'. generateRun qsort w h newRun sf buf = Some (UNIXERR, sf', w\<lparr>newCnt := newCnt w + 1\<rparr>)"
    "disk w u = None \<Longrightarrow> hf_curPage h \<noteq> None \<Longrightarrow> headerPage h = None \<Longrightarrow> generateRun qsort w h newRun sf buf = None"
proof -
  let ?nm = "run_file_name (sf_fileName sf) 1"
  have ne: "?nm \<noteq> []" by (simp add: run_file_name_def)
  obtain buf' where b: "qsort (sort_cmp (sf_type sf)) buf = Some buf'" using q by blast
  show "\<exists>sf'. generateRun qsort w h newRun sf buf = Some (FILEEXISTS, sf', w)" if d: "disk w u \<noteq> None"
  proof -
    have "DB_createFile w ?nm = Some (FILEEXISTS, w)" using createFile_spec [OF inv ne] d nm by simp
    then show ?thesis using b runs by (simp add: generateRun_def)
  qed
  have a: "files w (newAddr w (newCnt w)) = None" using r by (auto simp: resources_def addresses_def Let_def)
  show "\<exists>sf'. generateRun qsort w h newRun sf buf = Some (UNIXERR, sf', w\<lparr>newCnt := newCnt w + 1\<rparr>)" if d: "disk w u = None" "hf_curPage h = None"
  proof -
    have d': "disk w (unix_name ?nm) = None" using d(1) nm by simp
    obtain w3 where "DB_createFile w ?nm = Some (OK, w3)" "DB_destroyFile w3 ?nm = Some (OK, w)" using make_and_remove [OF inv ne d'] by blast
    moreover obtain h' where "InsertFileScan_new w h ?nm = Some (UNIXERR, h', w\<lparr>newCnt := newCnt w + 1\<rparr>)"
      using insert_open_missing(1) [OF inv ne d' a d(2)] by blast
    ultimately show ?thesis using b runs by (simp add: generateRun_def)
  qed
  show "generateRun qsort w h newRun sf buf = None" if d: "disk w u = None" "hf_curPage h \<noteq> None" "headerPage h = None"
  proof -
    have d': "disk w (unix_name ?nm) = None" using d(1) nm by simp
    obtain w3 where "DB_createFile w ?nm = Some (OK, w3)" "DB_destroyFile w3 ?nm = Some (OK, w)" using make_and_remove [OF inv ne d'] by blast
    then show ?thesis using b runs insert_open_missing(2) [OF inv ne d' a d(2,3)] by (simp add: generateRun_def)
  qed
qed

lemma work_disk:
  assumes inv: "db_inv w" and k: "work w N j w'" and m: "m \<notin> N"
  shows "disk w' m = None \<longleftrightarrow> disk w m = None"
proof (cases "oft_map (openFiles w) m")
  case None
  then show ?thesis using workD(9) [OF k m] by simp
next
  case (Some f)
  then have "oft_map (openFiles w') m = Some f" using workD(6) [OF k m] by simp
  then show ?thesis using db_inv_open_disk [OF inv Some] db_inv_open_disk [OF workD(1) [OF k], of m f] by auto
qed

text \<open>
  (C12) \<open>SortedFile\<close> works only on empty files. The arguments are valid, the relation is a heap file whose records
  have the sort attribute, and \<open>qsort\<close> returns. On an empty relation the constructor returns \<open>OK\<close> without runs,
  and \<open>next\<close> returns the end of the file. On any other relation it never succeeds: if the Unix file
  \<open>name.sort.1\<close> exists (the zero byte that \<open>ends\<close> puts behind the name does not count), it fails with \<open>FILEEXISTS\<close>.
  If it does not, the constructor makes the file, removes it and then opens it, expecting \<open>InsertFileScan\<close> to make
  it again; that fails, and the constructor of \<open>InsertFileScan\<close> goes on with \<open>curPage\<close>, which nothing has set: if
  the memory of the object has a null pointer there, the result is \<open>UNIXERR\<close>; if it has another pointer there and
  null for \<open>headerPage\<close>, the program reads through a null pointer and the result is undefined. Where a
  status is returned, no file has changed.
\<close>

theorem sort_only_empty:
  assumes "db_inv w" "table w nm ps n" "resources w 2 N" "n \<le> N" "spare w 2" "sort_args off len type maxItems"
    and "items = heap_items (file_view w nm) ps" "\<forall>x \<in> set items. off + len \<le> int (length (snd x))" "\<forall>rs. qsort (sort_cmp type) rs \<noteq> None"
  shows "if items = [] then \<exists>sf w'. SortedFile_new qsort w s h newRun nm off len type maxItems = Some (OK, sf, w') \<and>
       SortedFile_next w' sf rec = Some (FILEEOF, rec, sf, w') \<and> file_view w' = file_view w \<and> pins w' = pins w \<and> oft_map (openFiles w') = oft_map (openFiles w)
     else if disk w (nm @ ''.sort.1'') \<noteq> None then
       \<exists>sf w'. SortedFile_new qsort w s h newRun nm off len type maxItems = Some (FILEEXISTS, sf, w') \<and> file_view w' = file_view w
     else if hf_curPage h = None then
       \<exists>sf w'. SortedFile_new qsort w s h newRun nm off len type maxItems = Some (UNIXERR, sf, w') \<and> file_view w' = file_view w
     else headerPage h = None \<longrightarrow> SortedFile_new qsort w s h newRun nm off len type maxItems = None"
proof -
  have a: "0 \<le> off" "1 \<le> len" "0 \<le> len" "type \<noteq> STRING \<longrightarrow> len = 4" "2 \<le> maxItems" using assms(6) by (simp_all add: sort_args_def)
  have r1: "resources w 1 N" by (rule resources_mono [OF assms(3)]) simp
  let ?sf = "\<lparr>sf_runs = [], sf_fileName = nm, sf_type = type, sf_offset = off, sf_length = len, sf_buffer = True, sf_maxItems = maxItems\<rparr>"
  let ?buf = "map (sort_record off len) (take (nat maxItems) items)"
  obtain s1 w1 s2 s3 w2 rest where o: "HeapFileScan_new w s nm = Some (OK, s1, w1)" "startScan s1 0 0 0 None EQ = (OK, s2)" "fill_buffer w1 s2 off len (nat maxItems) = Some (Inr ?buf, s3, w2)"
     "scanning w2 nm s3 ps rest" "work w {nm} (opens w nm) w2" "owes w w2 (its_pins s3) (its_open s3)" "filePtr s3 = handle w nm" "lpage w2 (filePtr s3) = file_view w nm" "file_view w2 = file_view w"
    using sort_first_buffer [OF assms(1,2) r1 assms(4,5) a(1,3), of s "nat maxItems"] assms(7,8) by blast
  have new: "SortedFile_new qsort w s h newRun nm off len type maxItems = sortFile qsort w s h newRun ?sf" using a by (auto simp: SortedFile_new_def)
  show ?thesis
  proof (cases "items = []")
    case True
    obtain s4 w3 where c: "HeapFileScan_destroy w2 s3 = Some (s4, w3)" "file_view w3 = file_view w" "pins w3 = pins w" "oft_map (openFiles w3) = oft_map (openFiles w)"
      using scan_over [OF assms(1,2) r1 assms(4,5) o(4-8)] by blast
    have "sort_loop qsort w1 h newRun ?sf s2 = Some (OK, ?sf, s3, w2)" using o(3) True by (subst sort_loop.simps) simp
    then have "sortFile qsort w s h newRun ?sf = Some (OK, ?sf, w3)" using o(1,2) c(1) by (simp add: sortFile_def)
    then show ?thesis using new True c(2-4) by (simp add: SortedFile_next_def)
  next
    case False
    let ?u = "nm @ ''.sort.1''"
    have u: "?u = unix_name (run_file_name (sf_fileName ?sf) 1)" using run_file_unix [OF table_unix [OF assms(1,2)]] by simp
    have d: "disk w2 ?u = None \<longleftrightarrow> disk w ?u = None" by (rule work_disk [OF assms(1) o(5)]) simp
    have "resources w (opens w nm + 1) N" by (rule resources_mono [OF assms(3)]) (use opens_le [of w nm] in simp)
    then have r2: "resources w2 1 N" by (rule work_resources [OF o(5)])
    have q: "\<forall>rs. qsort (sort_cmp (sf_type ?sf)) rs \<noteq> None" "sf_runs ?sf = []" using assms(9) by simp_all
    note g = generateRun_first [where qsort = qsort and sf = ?sf and h = h and newRun = newRun and buf = ?buf, OF workD(1) [OF o(5)] u r2 q, unfolded d]
    have lp: "sort_loop qsort w1 h newRun ?sf s2 = do {
         (status, sf, w) \<leftarrow> generateRun qsort w2 h newRun ?sf ?buf;
         if status \<noteq> OK then Some (status, sf, s3, w) else sort_loop qsort w h newRun sf s3}"
      using o(3) False a(5) by (subst sort_loop.simps) simp
    have up: "\<exists>sf w'. SortedFile_new qsort w s h newRun nm off len type maxItems = Some (st, sf, w') \<and> file_view w' = file_view w"
      if "\<exists>sf'. generateRun qsort w2 h newRun ?sf ?buf = Some (st, sf', w')" "st \<noteq> OK" "file_view w' = file_view w2" for st w'
    proof -
      from that(1) obtain sf' where "generateRun qsort w2 h newRun ?sf ?buf = Some (st, sf', w')" ..
      then have "sortFile qsort w s h newRun ?sf = Some (st, sf', w')" using o(1,2) lp that(2) by (simp add: sortFile_def)
      then show ?thesis using new that(3) o(9) by simp
    qed
    have un: "SortedFile_new qsort w s h newRun nm off len type maxItems = None" if "generateRun qsort w2 h newRun ?sf ?buf = None"
      using o(1,2) lp that new by (simp add: sortFile_def)
    consider "disk w ?u \<noteq> None" | "disk w ?u = None" "hf_curPage h = None" | "disk w ?u = None" "hf_curPage h \<noteq> None" by blast
    then show ?thesis
    proof cases
      case 1
      then show ?thesis using up [OF g(1)] False by simp
    next
      case 2
      then show ?thesis using up [OF g(2) _ file_view_newCnt] False by simp
    next
      case 3
      then show ?thesis using un [OF g(3)] False by auto
    qed
  qed
qed

abbreviation new_run :: RUN where
  "new_run \<equiv> \<lparr>run_name = [], inFile = None, run_valid = False, run_rec = (None, no_rec), run_rid = NULLRID, run_mark = NULLRID\<rparr>"

text \<open>One relation whose first run is on disk already, one for which it is not, and an empty one.\<close>

definition sample_sort :: db_state where
  "sample_sort = make_file sample_join ''emp.sort.1''"

lemma sample_sort_facts:
  obtains ps1 n1 ps2 n2 ps n where "db_inv sample_sort" "spare sample_sort 2" "resources sample_sort 2 1000" "disk sample_sort ''emp.sort.1'' \<noteq> None" "disk sample_sort ''dep.sort.1'' = None"
    "table sample_sort ''emp'' ps1 n1" "n1 \<le> 1000" "map snd (heap_items (file_view sample_sort ''emp'') ps1) = [[1, 0, 0, 0]]"
    "table sample_sort ''dep'' ps2 n2" "n2 \<le> 1000" "map snd (heap_items (file_view sample_sort ''dep'') ps2) = [[2, 0, 0, 0]]"
    "table sample_sort ''out'' ps n" "n \<le> 1000" "heap_items (file_view sample_sort ''out'') ps = []"
proof -
  let ?T = "[ATTRCATNAME \<mapsto> [AttrDesc_bytes dep_ad, AttrDesc_bytes emp_ad], ''emp'' \<mapsto> [[1, 0, 0, 0]], ''dep'' \<mapsto> [[2, 0, 0, 0]], ''out'' \<mapsto> []]"
  have s: "sample_tables sample_sort 50 (?T(''emp.sort.1'' \<mapsto> []))"
    using sample_tables_make [of sample_join 50 ?T "''emp.sort.1''"] sample_join_db by (simp add: sample_sort_def ATTRCATNAME_def)
  note at = sample_tables_at(2) [OF s]
  have single: "xs = [x]" if "mset xs = mset [x]" for xs :: "byte list list" and x using that by simp
  obtain ps0 n0 where r0: "table sample_sort ''emp.sort.1'' ps0 n0" using at [of "''emp.sort.1''" "[]"] by auto
  obtain ps1 n1 where e: "table sample_sort ''emp'' ps1 n1" "n1 \<le> 4" "mset (map snd (heap_items (file_view sample_sort ''emp'') ps1)) = mset [[1, 0, 0, 0]]"
    using at [of "''emp''" "[[1, 0, 0, 0]]"] by auto
  obtain ps2 n2 where d: "table sample_sort ''dep'' ps2 n2" "n2 \<le> 4" "mset (map snd (heap_items (file_view sample_sort ''dep'') ps2)) = mset [[2, 0, 0, 0]]"
    using at [of "''dep''" "[[2, 0, 0, 0]]"] by auto
  obtain ps n where r: "table sample_sort ''out'' ps n" "n \<le> 3" "mset (map snd (heap_items (file_view sample_sort ''out'') ps)) = mset []"
    using at [of "''out''" "[]"] by auto
  have k: "db_inv sample_sort" "spare sample_sort 8" "resources sample_sort 50 1000" using s unfolding sample_tables_def by blast+
  have "disk sample_sort ''dep.sort.1'' = None" by (rule sample_tables_at(1) [OF s]) (simp add: ATTRCATNAME_def)
  moreover have "spare sample_sort 2" "resources sample_sort 2 1000" using k(2) resources_mono [OF k(3), of 2] by (simp_all add: spare_def)
  ultimately show thesis
    using that [OF k(1) _ _ table_on_disk [OF k(1) r0] _ e(1) _ single [OF e(3)] d(1) _ single [OF d(3)] r(1)] e(2) d(2) r(2,3) by auto
qed

theorem sort_only_empty_witness:
  "(\<exists>sf w'. SortedFile_new (\<lambda>cmp rs. Some rs) sample_sort new_scan new_object new_run ''emp'' 0 4 INTEGER 2 = Some (FILEEXISTS, sf, w')) \<and>
   (\<exists>sf w'. SortedFile_new (\<lambda>cmp rs. Some rs) sample_sort new_scan new_object new_run ''dep'' 0 4 INTEGER 2 = Some (UNIXERR, sf, w')) \<and>
   SortedFile_new (\<lambda>cmp rs. Some rs) sample_sort new_scan (new_object\<lparr>hf_curPage := Some 0\<rparr>) new_run ''dep'' 0 4 INTEGER 2 = None \<and>
   (\<exists>sf w'. SortedFile_new (\<lambda>cmp rs. Some rs) sample_sort new_scan new_object new_run ''out'' 0 4 INTEGER 2 = Some (OK, sf, w') \<and>
     SortedFile_next w' sf (None, no_rec) = Some (FILEEOF, (None, no_rec), sf, w'))"
proof -
  obtain ps1 n1 ps2 n2 ps n where f: "db_inv sample_sort" "spare sample_sort 2" "resources sample_sort 2 1000" "disk sample_sort ''emp.sort.1'' \<noteq> None" "disk sample_sort ''dep.sort.1'' = None"
    "table sample_sort ''emp'' ps1 n1" "n1 \<le> 1000" "map snd (heap_items (file_view sample_sort ''emp'') ps1) = [[1, 0, 0, 0]]"
    "table sample_sort ''dep'' ps2 n2" "n2 \<le> 1000" "map snd (heap_items (file_view sample_sort ''dep'') ps2) = [[2, 0, 0, 0]]"
    "table sample_sort ''out'' ps n" "n \<le> 1000" "heap_items (file_view sample_sort ''out'') ps = []" by (rule sample_sort_facts)
  have sa: "sort_args 0 4 INTEGER 2" by (simp add: sort_args_def)
  have q: "\<forall>rs. (\<lambda>cmp rs :: SORTREC list. Some rs) (sort_cmp INTEGER) rs \<noteq> None" by simp
  have l: "\<forall>x \<in> set (heap_items (file_view sample_sort ''emp'') ps1). 0 + 4 \<le> int (length (snd x))"
    "\<forall>x \<in> set (heap_items (file_view sample_sort ''dep'') ps2). 0 + 4 \<le> int (length (snd x))" using f(8,11) by auto
  have "\<exists>sf w'. SortedFile_new (\<lambda>cmp rs. Some rs) sample_sort new_scan new_object new_run ''emp'' 0 4 INTEGER 2 = Some (FILEEXISTS, sf, w')"
    using sort_only_empty [OF f(1,6,3,7,2) sa refl l(1) q, of new_scan new_object new_run] f(4,8) by auto
  moreover have "\<exists>sf w'. SortedFile_new (\<lambda>cmp rs. Some rs) sample_sort new_scan new_object new_run ''dep'' 0 4 INTEGER 2 = Some (UNIXERR, sf, w')"
    using sort_only_empty [OF f(1,9,3,10,2) sa refl l(2) q, of new_scan new_object new_run] f(5,11) by auto
  moreover have "SortedFile_new (\<lambda>cmp rs. Some rs) sample_sort new_scan (new_object\<lparr>hf_curPage := Some 0\<rparr>) new_run ''dep'' 0 4 INTEGER 2 = None"
    using sort_only_empty [OF f(1,9,3,10,2) sa refl l(2) q, of new_scan "new_object\<lparr>hf_curPage := Some 0\<rparr>" new_run] f(5,11) by (auto split: if_splits)
  moreover have "\<exists>sf w'. SortedFile_new (\<lambda>cmp rs. Some rs) sample_sort new_scan new_object new_run ''out'' 0 4 INTEGER 2 = Some (OK, sf, w') \<and>
     SortedFile_next w' sf (None, no_rec) = Some (FILEEOF, (None, no_rec), sf, w')"
    using sort_only_empty [OF f(1,12,3,13,2) sa refl _ q, of new_scan new_object new_run "(None, no_rec)"] f(14) by auto
  ultimately show ?thesis by blast
qed

end
