(* ===== verification/Utilities.thy ===== *)
theory Utilities
  imports Catalog
begin

text \<open>
  The utility layer: \<open>load.cpp\<close>, \<open>print.cpp\<close>, \<open>help.cpp\<close> and \<open>quit.cpp\<close>, and the start of the programs
  \<open>dbcreate.cpp\<close> and \<open>minirel.cpp\<close>. What is written to standard output is a value of type \<open>string\<close>;
  \<open>printf\<close> and the stream operators are modelled as far as they are used. Changing the working
  directory and the parser are not modelled. \<open>Inl\<close> of a status is \<open>exit(1)\<close> after printing it.
\<close>

section \<open>Output\<close>

abbreviation newline :: string where "newline \<equiv> [CHR 0x0A]"

text \<open>Padding on the right (\<open>%-*s\<close>) and on the left (\<open>setw\<close>).\<close>

definition pad_right :: "int \<Rightarrow> string \<Rightarrow> string" where
  "pad_right n s = s @ replicate (nat n - length s) (CHR '' '')"

definition pad_left :: "int \<Rightarrow> string \<Rightarrow> string" where
  "pad_left n s = replicate (nat n - length s) (CHR '' '') @ s"

text \<open>
  \<open>%.2f\<close>: the exact value in hundredths, rounded to the nearest, ties to even. The sign of a zero and
  of a not-a-number is that of bit 31.
\<close>

definition hundredths :: "int \<Rightarrow> int" where
  "hundredths x = (let q = (x * 100) div 2 ^ 149; r = (x * 100) mod 2 ^ 149
     in if 2 * r < 2 ^ 149 \<or> 2 * r = 2 ^ 149 \<and> even q then q else q + 1)"

definition float_str :: "int \<Rightarrow> string" where
  "float_str b = (let sign = (if b div 2 ^ 31 mod 2 = 1 then ''-'' else '''') in
     sign @ (case single_of_bits b of
       NaN \<Rightarrow> ''nan''
     | Infinite neg \<Rightarrow> ''inf''
     | Finite x \<Rightarrow> let h = hundredths \<bar>x\<bar> in nat_str (nat (h div 100)) @ ''.'' @ nat_str (nat (h div 10 mod 10)) @ nat_str (nat (h mod 10))))"

text \<open>\<open>%-*.*s\<close> with width and precision \<open>n\<close>: at most \<open>n\<close> characters, fewer if a zero comes first.\<close>

definition string_field :: "int \<Rightarrow> byte list \<Rightarrow> string option" where
  "string_field n bs =
     (let cs = takeWhile (\<lambda>b. b \<noteq> 0) (take (nat n) bs)
      in if length cs < nat n \<and> length cs = length bs then None else Some (pad_right n (string_of_bytes cs)))"

fun concat_opt :: "'a list option list \<Rightarrow> 'a list option" where
  "concat_opt [] = Some []"
| "concat_opt (x # xs) = do { a \<leftarrow> x; as \<leftarrow> concat_opt xs; Some (a @ as) }"


section \<open>Printing a relation\<close>

text \<open>The width of a column; \<open>w0\<close> is what the array element holds when the type is none of the three.\<close>

definition column_width :: "int \<Rightarrow> AttrDesc \<Rightarrow> int option" where
  "column_width w0 a = do {
     name \<leftarrow> zstring (drop 32 (AttrDesc_bytes a));
     let namelen = int (length name);
     Some (case Datatype_of_int (ad_attrType a) of
        Some STRING \<Rightarrow> min (max namelen (ad_attrLen a)) 20
      | Some _ \<Rightarrow> min (max namelen 5) 7
      | None \<Rightarrow> w0)
   }"

fun UT_computeWidth :: "int \<Rightarrow> AttrDesc list \<Rightarrow> (Status \<times> int list) option" where
  "UT_computeWidth w0 [] = Some (OK, [])"
| "UT_computeWidth w0 (a # attrs) = do {
     n \<leftarrow> column_width w0 a;
     (status, ns) \<leftarrow> UT_computeWidth w0 attrs;
     Some (status, n # ns)
   }"

text \<open>One attribute of a record at \<open>rec.data\<close>.\<close>

definition print_attr :: "'a buf_state_scheme \<Rightarrow> HeapFileScan \<Rightarrow> recref \<Rightarrow> AttrDesc \<Rightarrow> int \<Rightarrow> string option" where
  "print_attr w s rec a n = do {
     let attr = rec\<lparr>ref_offset := ref_offset rec + ad_attrOffset a\<rparr>;
     case Datatype_of_int (ad_attrType a) of
       Some INTEGER \<Rightarrow> do { bs \<leftarrow> rec_bytes w s attr 4; Some (pad_right n (int_str (bytes_int bs)) @ ''  '') }
     | Some FLOAT \<Rightarrow> do { bs \<leftarrow> rec_bytes w s attr 4; Some (pad_right n (float_str (get_le 4 (bytes_mem bs) 0)) @ ''  '') }
     | _ \<Rightarrow> do { bs \<leftarrow> rec_rest w s attr; f \<leftarrow> string_field n bs; Some (f @ ''  '') }
   }"

definition UT_printRec :: "'a buf_state_scheme \<Rightarrow> HeapFileScan \<Rightarrow> AttrDesc list \<Rightarrow> int list \<Rightarrow> recref \<Rightarrow> string option" where
  "UT_printRec w s attrs attrWidth rec = do {
     line \<leftarrow> concat_opt (map (\<lambda>(a, n). print_attr w s rec a n) (zip attrs attrWidth));
     Some (line @ newline)
   }"

text \<open>The loop over the records: the status that ends it, the text and the number of records.\<close>

partial_function (option) print_loop ::
    "'a buf_state_scheme \<Rightarrow> HeapFileScan \<Rightarrow> AttrDesc list \<Rightarrow> int list \<Rightarrow> string \<Rightarrow> int \<Rightarrow>
     (Status \<times> bool \<times> string \<times> int \<times> HeapFileScan \<times> 'a buf_state_scheme) option" where
  "print_loop w hfile attrs attrWidth out records = do {
     (status, rid, hfile, w) \<leftarrow> scanNext w hfile NULLRID;
     if status \<noteq> OK then Some (status, False, out, records, hfile, w)
     else do {
       (status, rec) \<leftarrow> HeapFileScan_getRecord w hfile no_rec;
       if status \<noteq> OK then Some (status, True, out, records, hfile, w)
       else do {
         line \<leftarrow> UT_printRec w hfile attrs attrWidth rec;
         print_loop w hfile attrs attrWidth (out @ line) (swrap 4 (records + 1))
       }
     }
   }"

definition print_head :: "AttrDesc list \<Rightarrow> int list \<Rightarrow> string option" where
  "print_head attrs attrWidth = do {
     names \<leftarrow> concat_opt (map (\<lambda>(a, n). map_option (\<lambda>f. f @ '' '') (string_field n (drop 32 (AttrDesc_bytes a)))) (zip attrs attrWidth));
     Some (names @ newline @ concat (map (\<lambda>n. replicate (nat n) (CHR ''-'') @ ''  '') attrWidth) @ newline)
   }"

definition UT_Print ::
    "RelDesc \<Rightarrow> AttrDesc \<Rightarrow> int \<Rightarrow> 'a db_state_scheme \<Rightarrow> HeapFileScan \<Rightarrow> string \<Rightarrow> (Status \<times> string \<times> 'a db_state_scheme) option" where
  "UT_Print rd ad w0 w s relation = do {
     let relation = (if relation = [] then RELCATNAME else relation);
     (status, rd, w) \<leftarrow> RelCatalog_getInfo w s relation rd;
     if status \<noteq> OK then Some (status, [], w) else do {
     name \<leftarrow> zstring (RelDesc_bytes rd);
     (status, attrCnt, attrs, w) \<leftarrow> AttrCatalog_getRelInfo rd ad w s (string_of_bytes name) 0 [];
     if status \<noteq> OK then Some (status, [], w) else do {
     (status, attrWidth) \<leftarrow> UT_computeWidth w0 attrs;
     (status, hfile, w) \<leftarrow> HeapFileScan_new w s (string_of_bytes name);
     if status \<noteq> OK then Some (status, [], w) else do {
     head \<leftarrow> print_head attrs attrWidth;
     let out = ''Relation name: '' @ string_of_bytes name @ newline @ newline @ head;
     let (status, hfile) = startScan hfile 0 0 1 None EQ;
     if status \<noteq> OK then Some (status, out, w) else do {
     (status, early, out, records, hfile, w) \<leftarrow> print_loop w hfile attrs attrWidth out 0;
     if early \<or> status \<noteq> FILEEOF then Some (status, out, w) else do {
     let out = out @ newline @ ''Number of records: '' @ int_str records @ newline;
     (status, hfile, w) \<leftarrow> endScan w hfile;
     if status \<noteq> OK then Some (status, out, w) else do {
     (hfile, w) \<leftarrow> HeapFileScan_destroy w hfile;
     Some (OK, out, w)
     }}}}}}
   }"

section \<open>Help\<close>

definition type_name :: "int \<Rightarrow> string" where
  "type_name t = (if t = 1 then ''int'' else if t = 0 then ''string'' else ''float'')"

definition help_line :: "AttrDesc \<Rightarrow> string option" where
  "help_line a = do {
     name \<leftarrow> zstring (drop 32 (AttrDesc_bytes a));
     Some (pad_left 8 (string_of_bytes name) @ pad_left 20 (int_str (ad_attrLen a)) @ pad_left 18 (type_name (ad_attrType a)) @
       pad_left 15 (int_str (ad_attrOffset a)) @ newline)
   }"

definition RelCatalog_help ::
    "RelDesc \<Rightarrow> AttrDesc \<Rightarrow> int \<Rightarrow> 'a db_state_scheme \<Rightarrow> HeapFileScan \<Rightarrow> string \<Rightarrow> (Status \<times> string \<times> 'a db_state_scheme) option" where
  "RelCatalog_help rd ad w0 w s relation =
     (if relation = [] then UT_Print rd ad w0 w s RELCATNAME
      else do {
        (getInfoReturned, rd, w) \<leftarrow> RelCatalog_getInfo w s relation rd;
        if getInfoReturned \<noteq> OK then Some (getInfoReturned, [], w) else do {
        (getRelInfoReturned, attrCnt, attrs, w) \<leftarrow> AttrCatalog_getRelInfo rd ad w s relation 0 [];
        if getRelInfoReturned \<noteq> OK then Some (getRelInfoReturned, [], w) else do {
        name \<leftarrow> zstring (RelDesc_bytes rd);
        lines \<leftarrow> concat_opt (map help_line attrs);
        Some (OK,
          ''All Relations Currently in Catalog: '' @ newline @ newline @
          ''Name of Relation: '' @ string_of_bytes name @ '' | Number of Attributes: '' @ int_str (rd_attrCnt rd) @ '' '' @ newline @ newline @
          ''Attribute Name | Attribute Length | Attribute Type | Attribute Offset '' @ newline @
          ''_______________|__________________|________________|_________________'' @ newline @ lines, w)
        }}
      })"

section \<open>Loading\<close>

text \<open>The loop that reads tuples of \<open>width\<close> bytes from position \<open>pos\<close> on and inserts them.\<close>

partial_function (option) load_loop ::
    "'a db_state_scheme \<Rightarrow> HeapFile \<Rightarrow> string \<Rightarrow> nat \<Rightarrow> nat \<Rightarrow> int \<Rightarrow> (Status option \<times> int \<times> HeapFile \<times> 'a db_state_scheme) option" where
  "load_loop w iFile fname pos width records = do {
     u \<leftarrow> disk w fname;
     if min width (fsize u - pos) = width then do {
       let data = read_bytes (fdata u) pos width;
       (status, rid, iFile, w) \<leftarrow> insertRecord w iFile \<lparr>rec_data = data, rec_length = int width\<rparr> NULLRID;
       if status \<noteq> OK then Some (Some status, records, iFile, w)
       else load_loop w iFile fname (pos + width) width (swrap 4 (records + 1))
     }
     else Some (None, records, iFile, w)
   }"

definition UT_Load ::
    "RelDesc \<Rightarrow> AttrDesc \<Rightarrow> 'a db_state_scheme \<Rightarrow> HeapFileScan \<Rightarrow> HeapFile \<Rightarrow> string \<Rightarrow> string \<Rightarrow> (Status \<times> 'a db_state_scheme) option" where
  "UT_Load rd ad w s h relation fname =
     (if relation = [] \<or> fname = [] \<or> relation = RELCATNAME \<or> relation = ATTRCATNAME then Some (BADCATPARM, w)
      else do {
        let (fd, w) = sys_open w (unix_name fname);
        if fd < 0 then Some (UNIXERR, w) else do {
        (getInfoReturned, rd, w) \<leftarrow> RelCatalog_getInfo w s relation rd;
        if getInfoReturned \<noteq> OK then Some (getInfoReturned, w) else do {
        name \<leftarrow> zstring (RelDesc_bytes rd);
        (getRelInfoReturned, attrCnt, attrs, w) \<leftarrow> AttrCatalog_getRelInfo rd ad w s (string_of_bytes name) 0 [];
        if getRelInfoReturned \<noteq> OK then Some (getRelInfoReturned, w) else do {
        (insertFileScanReturned, iFile, w) \<leftarrow> InsertFileScan_new w h (string_of_bytes name);
        if insertFileScanReturned \<noteq> OK then Some (insertFileScanReturned, w) else do {
        let width = fold (\<lambda>a n. swrap 4 (n + ad_attrLen a)) attrs 0;
        if width < 0 then None else do {
        (ret, records, iFile, w) \<leftarrow> load_loop w iFile (unix_name fname) 0 (nat width) 0;
        case ret of
          Some status \<Rightarrow> Some (status, w)
        | None \<Rightarrow> let (rc, w) = sys_close w fd in if rc < 0 then Some (UNIXERR, w) else Some (OK, w)
        }}}}}
      })"

section \<open>Start and end of the programs\<close>

text \<open>The end: the catalogs are closed and the buffer manager flushes its pages.\<close>

definition UT_Quit :: "'a db_state_scheme \<Rightarrow> HeapFile \<Rightarrow> HeapFile \<Rightarrow> 'a db_state_scheme option" where
  "UT_Quit w relCat attrCat = do {
     (relCat, w) \<leftarrow> RelCatalog_destroy w relCat;
     (attrCat, w) \<leftarrow> AttrCatalog_destroy w attrCat;
     BufMgr_destroy w
   }"

definition minirel_start :: "'a db_state_scheme \<Rightarrow> HeapFile \<Rightarrow> HeapFile \<Rightarrow> (Status + HeapFile \<times> HeapFile \<times> 'a db_state_scheme) option" where
  "minirel_start w h h' = do {
     let w = (BufMgr_new w 100)\<lparr>bufMgr := True\<rparr>;
     (status, relCat, w) \<leftarrow> RelCatalog_new w h;
     if status \<noteq> OK then Some (Inl status) else do {
     (status, attrCat, w) \<leftarrow> AttrCatalog_new w h';
     if status \<noteq> OK then Some (Inl status) else Some (Inr (relCat, attrCat, w))
     }
   }"

text \<open>The tuples that describe the catalogs; the names are copied into the same two structures again and again.\<close>

fun add_attrs :: "'a db_state_scheme \<Rightarrow> HeapFile \<Rightarrow> AttrDesc \<Rightarrow> int \<Rightarrow> (string \<times> int \<times> int) list \<Rightarrow> (Status + AttrDesc \<times> 'a db_state_scheme) option" where
  "add_attrs w h ad off [] = Some (Inr (ad, w))"
| "add_attrs w h ad off ((name, ty, len) # rest) = do {
     attrName \<leftarrow> strcpy (ad_attrName ad) (string_buf name);
     let ad = ad\<lparr>ad_attrName := attrName, ad_attrOffset := off, ad_attrType := ty, ad_attrLen := len\<rparr>;
     (status, w) \<leftarrow> AttrCatalog_addInfo w h ad;
     if status \<noteq> OK then Some (Inl status) else add_attrs w h ad (off + len) rest
   }"

definition dbcreate_main ::
    "RelDesc \<Rightarrow> AttrDesc \<Rightarrow> 'a db_state_scheme \<Rightarrow> HeapFile \<Rightarrow> (Status + 'a db_state_scheme) option" where
  "dbcreate_main rd ad w h = do {
     let w = (BufMgr_new w 100)\<lparr>bufMgr := True\<rparr>;
     (status, w) \<leftarrow> createHeapFile w ''relcat'';
     if status \<noteq> OK then Some (Inl status) else do {
     (status, w) \<leftarrow> createHeapFile w ''attrcat'';
     if status \<noteq> OK then Some (Inl status) else do {
     (status, relCat, w) \<leftarrow> RelCatalog_new w h;
     if status \<noteq> OK then Some (Inl status) else do {
     (status, attrCat, w) \<leftarrow> AttrCatalog_new w h;
     if status \<noteq> OK then Some (Inl status) else do {
     relName \<leftarrow> strcpy (rd_relName rd) (string_buf RELCATNAME);
     (status, w) \<leftarrow> RelCatalog_addInfo w h \<lparr>rd_relName = relName, rd_attrCnt = 2\<rparr>;
     if status \<noteq> OK then Some (Inl status) else do {
     adRel \<leftarrow> strcpy (ad_relName ad) (string_buf RELCATNAME);
     r \<leftarrow> add_attrs w h (ad\<lparr>ad_relName := adRel\<rparr>) 0 [(''relName'', 0, 32), (''attrCnt'', 1, 4)];
     case r of
       Inl status \<Rightarrow> Some (Inl status)
     | Inr (ad, w) \<Rightarrow> do {
     relName \<leftarrow> strcpy relName (string_buf ATTRCATNAME);
     (status, w) \<leftarrow> RelCatalog_addInfo w h \<lparr>rd_relName = relName, rd_attrCnt = 5\<rparr>;
     if status \<noteq> OK then Some (Inl status) else do {
     adRel \<leftarrow> strcpy (ad_relName ad) (string_buf ATTRCATNAME);
     r \<leftarrow> add_attrs w h (ad\<lparr>ad_relName := adRel\<rparr>) 0
         [(''relName'', 0, 32), (''attrName'', 0, 32), (''attrOffset'', 1, 4), (''attrType'', 1, 4), (''attrLen'', 1, 4)];
     case r of
       Inl status \<Rightarrow> Some (Inl status)
     | Inr (ad, w) \<Rightarrow> do {
     (relCat, w) \<leftarrow> RelCatalog_destroy w relCat;
     (attrCat, w) \<leftarrow> AttrCatalog_destroy w attrCat;
     w \<leftarrow> BufMgr_destroy w;
     Some (Inr w)
     }}}}}}}}
   }"

end
