(* ===== verification/PrintProps.thy ===== *)
theory PrintProps
  imports HeapJoint Utilities JoinNLProps
begin

text \<open>
  Printing a relation: the two lookups in the catalogs with which the utilities begin, the text of a record
  and of the head of the table as functions of descriptors and bytes, and the loop over the records.
\<close>

section \<open>The description of a relation\<close>

lemma left_at_spare:
  assumes inv: "db_inv w" and l: "left_at w nm p w'" and sp: "spare w (k + 2)"
  shows "spare w' k"
proof -
  have a: "\<forall>g q. pins w' g q = pins w g q + (if (g, q) = (handle w nm, 1) then 1 else 0) + (if (g, q) = (handle w nm, p) then 1 else 0)" "frames w' = frames w"
    using l unfolding left_at_def others_kept_def by blast+
  have o: "owes w w' (\<lambda>g q. (if (g, q) = (handle w nm, 1) then 1 else 0) + (if (g, q) = (handle w nm, p) then 1 else 0)) (\<lambda>g. open_count w' g - open_count w g)"
    using a(1) by (simp add: owes_def)
  have "card {(handle w nm, 1), (handle w nm, p)} \<le> 2" by (simp add: card_insert_if)
  then have "spare w (card {(handle w nm, 1), (handle w nm, p)} + k)" using sp by (simp add: spare_def)
  then show ?thesis by (intro owes_spare [OF o db_inv_pool [OF inv] a(2), of "{(handle w nm, 1), (handle w nm, p)}"]) auto
qed

text \<open>The name in a tuple of the relation catalog.\<close>

lemma named_of_char:
  assumes "named relation b" "length relation < MAXNAME" "length b = 36"
  shows "zstring (RelDesc_bytes (RelDesc_of_bytes b)) = Some (map of_char relation)" "string_of_bytes (map of_char relation) = relation"
proof -
  have z: "zstring b = Some (map of_char relation)" using assms(1) by (simp add: named_def)
  have tw: "takeWhile (\<lambda>x. x \<noteq> 0) (take 32 b) = map of_char relation" "0 \<in> set (take 32 b)"
  proof -
    have "zstring b = Some xs \<Longrightarrow> length xs < n \<Longrightarrow> zstring (take n b) = Some xs" for xs n
      by (induction b arbitrary: xs n) (auto simp: zstring_simps take_Cons' split: if_splits)
    from this [OF z, of 32] have "zstring (take 32 b) = Some (map of_char relation)" using assms(2) by simp
    then show "takeWhile (\<lambda>x. x \<noteq> 0) (take 32 b) = map of_char relation" "0 \<in> set (take 32 b)" by (auto simp: zstring_def split: if_splits)
  qed
  then show "zstring (RelDesc_bytes (RelDesc_of_bytes b)) = Some (map of_char relation)" by (simp add: zstring_append RelDesc_bytes_def RelDesc_of_bytes_def) (simp add: zstring_def)
  show "string_of_bytes (map of_char relation) = relation" by (rule string_of_chars)
qed

text \<open>The two lookups with which the utilities begin.\<close>

definition described :: "'a db_state_scheme \<Rightarrow> int list \<Rightarrow> int list \<Rightarrow> string \<Rightarrow> AttrDesc list \<Rightarrow> bool" where
  "described w psr psa relation attrs \<longleftrightarrow> name_ok relation \<and> length relation < MAXNAME \<and> 
     (\<forall>b \<in> tuples w RELCATNAME psr. length b = 36) \<and> (\<forall>b \<in> tuples w ATTRCATNAME psa. length b = 76) \<and>
     attrs = rev (map AttrDesc_of_bytes (attr_tuples w psa relation)) \<and>
     (\<exists>b. first_tuple w RELCATNAME psr (named relation) = Some b \<and> rd_attrCnt (RelDesc_of_bytes b) = int (length attrs))"

lemma catalog_info:
  assumes inv: "db_inv w" and tr: "table w RELCATNAME psr nr" and ta: "table w ATTRCATNAME psa na" and d: "described w psr psa relation attrs"
    and r: "resources w (k + 3) N" "1 \<le> k" "nr \<le> N" "na \<le> N" and sp: "spare w (j + 4)"
  shows "\<exists>rd' w1 w2 i. RelCatalog_getInfo w s relation rd = Some (OK, rd', w1) \<and> zstring (RelDesc_bytes rd') = Some (map of_char relation) \<and> string_of_bytes (map of_char relation) = relation \<and>
     AttrCatalog_getRelInfo rd' ad w1 s relation 0 [] = Some (OK, int (length attrs), attrs, w2) \<and> work w {RELCATNAME, ATTRCATNAME} i w2 \<and>
     file_view w2 = file_view w \<and> resources w2 k N \<and> spare w2 j \<and> table w2 RELCATNAME psr nr \<and> table w2 ATTRCATNAME psa na"
proof -
  obtain b where nm: "name_ok relation" "length relation < MAXNAME" "\<forall>b \<in> tuples w RELCATNAME psr. length b = 36" "\<forall>b \<in> tuples w ATTRCATNAME psa. length b = 76"
     "attrs = rev (map AttrDesc_of_bytes (attr_tuples w psa relation))" "first_tuple w RELCATNAME psr (named relation) = Some b"
     "rd_attrCnt (RelDesc_of_bytes b) = int (length attrs)" using d unfolding described_def by blast
  have b: "named relation b" "length b = 36" using first_tuple_cases [OF tr, of "named relation"] nm(3,6) by auto
  have ne: "ATTRCATNAME \<noteq> RELCATNAME" by (simp add: RELCATNAME_def ATTRCATNAME_def)
  have r1: "resources w 1 N" by (rule resources_mono [OF r(1)]) simp
  have s0: "spare w 2" "spare w (Suc (j + 3))" using sp by (simp_all add: spare_def)
  obtain w1 where g: "RelCatalog_getInfo w s relation rd = Some (OK, RelDesc_of_bytes b, w1)" "table w1 RELCATNAME psr nr" "left_open w RELCATNAME w1"
    using RelCatalog_getInfo_spec [OF inv tr r1 r(3) s0(1) nm(1,3), of s rd] nm(6) by auto
  have k1: "others_kept w RELCATNAME (opens w RELCATNAME) w1" "file_view w1 RELCATNAME = file_view w RELCATNAME" using g(3) unfolding left_open_def by blast+
  have inv1: "db_inv w1" by (rule kept_inv [OF k1(1)])
  have v1: "file_view w1 = file_view w"
    by (rule ext, case_tac "x = RELCATNAME") (use k1 kept_view [OF k1(1)] in auto)
  have "resources w (Suc (k + 2)) N" by (rule resources_mono [OF r(1)]) simp
  then have r2: "resources w1 (k + 2) N" by (rule resources_step [OF k1(1)])
  have r2': "resources w1 2 N" by (rule resources_mono [OF r2]) simp
  have sp1: "spare w1 (Suc (j + 2))" using left_spare [OF g(3) inv s0(2)] by (simp add: numeral_3_eq_3)
  have sp1': "spare w1 3" using sp1 by (simp add: spare_def)
  have ta1: "table w1 ATTRCATNAME psa na" by (rule table_other [OF k1(1) inv ne ta])
  have c: "\<forall>b \<in> tuples w1 RELCATNAME psr. length b = 36" "\<forall>b \<in> tuples w1 ATTRCATNAME psa. length b = 76" "first_tuple w1 RELCATNAME psr (named relation) = Some b"
     "rd_attrCnt (RelDesc_of_bytes b) = int (length (attr_tuples w1 psa relation))" "attrs = rev (map AttrDesc_of_bytes (attr_tuples w1 psa relation))"
    using nm(3-7) v1 by (simp_all add: tuples_def first_tuple_def attr_tuples_def)
  obtain w2 p w3 where q: "AttrCatalog_getRelInfo (RelDesc_of_bytes b) ad w1 s relation 0 [] = Some (OK, int (length attrs), attrs, w2)"
     "left_open w1 RELCATNAME w3" "left_at w3 ATTRCATNAME p w2" "table w2 RELCATNAME psr nr" "table w2 ATTRCATNAME psa na"
    using getRelInfo_spec [OF inv1 g(2) ta1 nm(1,2) c(1,2) r2' r(3,4) sp1' c(3,4), of "RelDesc_of_bytes b" ad s 0 "[]"] c(5) by auto
  have k3: "others_kept w1 RELCATNAME (opens w1 RELCATNAME) w3" "file_view w3 RELCATNAME = file_view w1 RELCATNAME" using q(2) unfolding left_open_def by blast+
  have k2: "others_kept w3 ATTRCATNAME (opens w3 ATTRCATNAME) w2" "file_view w2 ATTRCATNAME = file_view w3 ATTRCATNAME" using q(3) unfolding left_at_def by blast+
  have inv3: "db_inv w3" by (rule kept_inv [OF k3(1)])
  have "file_view w3 = file_view w1" by (rule ext, case_tac "x = RELCATNAME") (use k3 kept_view [OF k3(1)] in auto)
  moreover have "file_view w2 = file_view w3" by (rule ext, case_tac "x = ATTRCATNAME") (use k2 kept_view [OF k2(1)] in auto)
  ultimately have v: "file_view w2 = file_view w" using v1 by simp
  have "resources w1 (Suc (k + 1)) N" using r2 by simp
  then have "resources w3 (Suc k) N" using resources_step [OF k3(1), of "k + 1"] by simp
  then have rs: "resources w2 k N" by (rule resources_step [OF k2(1)])
  have "spare w3 (j + 2)" by (rule left_spare [OF q(2) inv1 sp1])
  then have sp2: "spare w2 j" by (rule left_at_spare [OF inv3 q(3)])
  have "work w {RELCATNAME, ATTRCATNAME} (opens w RELCATNAME) w1" "work w1 {RELCATNAME, ATTRCATNAME} (opens w1 RELCATNAME) w3"
     "work w3 {RELCATNAME, ATTRCATNAME} (opens w3 ATTRCATNAME) w2"
    by (rule work_mono [OF kept_work [OF k1(1)]] work_mono [OF kept_work [OF k3(1)]] work_mono [OF kept_work [OF k2(1)]]; simp)+
  then have "work w {RELCATNAME, ATTRCATNAME} (opens w RELCATNAME + (opens w1 RELCATNAME + opens w3 ATTRCATNAME)) w2" using work_trans inv inv1 inv3 by meson
  then show ?thesis using g(1) q(1,4,5) v rs sp2 named_of_char [OF b(1) nm(2) b(2)] by blast
qed


section \<open>What is printed\<close>

text \<open>The text of a relation, from the descriptors of its attributes and the bytes of its records.\<close>

definition col_width :: "AttrDesc \<Rightarrow> int" where
  "col_width a = (let m = int (length (c_string (ad_attrName a)))
     in if Datatype_of_int (ad_attrType a) = Some STRING then min (max m (ad_attrLen a)) 20 else min (max m 5) 7)"

definition show_head :: "AttrDesc list \<Rightarrow> string" where
  "show_head attrs = concat (map (\<lambda>a. pad_right (col_width a) (take (nat (col_width a)) (string_of_bytes (c_string (ad_attrName a)))) @ '' '') attrs) @ newline @
     concat (map (\<lambda>a. replicate (nat (col_width a)) (CHR ''-'') @ ''  '') attrs) @ newline"

definition show_value :: "AttrDesc \<Rightarrow> byte list \<Rightarrow> string" where
  "show_value a b = (let x = drop (nat (ad_attrOffset a)) b in case Datatype_of_int (ad_attrType a) of
       Some INTEGER \<Rightarrow> int_str (int_value (take 4 x))
     | Some FLOAT \<Rightarrow> float_str (get_le 4 (bytes_mem (take 4 x)) 0)
     | _ \<Rightarrow> take (nat (col_width a)) (string_of_bytes (c_string (take (nat (ad_attrLen a)) x))))"

definition show_row :: "AttrDesc list \<Rightarrow> byte list \<Rightarrow> string" where
  "show_row attrs b = concat (map (\<lambda>a. pad_right (col_width a) (show_value a b) @ ''  '') attrs) @ newline"

text \<open>
  The bytes of the attribute lie in the record; a number has four of them; a string ends with a zero byte among
  them or fills its column. A string that does neither is excluded: the code prints the bytes behind it as well.
\<close>

definition printable :: "AttrDesc \<Rightarrow> bool" where
  "printable a \<longleftrightarrow> 0 \<le> ad_attrOffset a \<and> Datatype_of_int (ad_attrType a) \<noteq> None \<and> 0 \<in> set (ad_attrName a)"

definition shown_in :: "AttrDesc \<Rightarrow> byte list \<Rightarrow> bool" where
  "shown_in a b \<longleftrightarrow> 0 \<le> ad_attrLen a \<and> ad_attrOffset a + ad_attrLen a \<le> int (length b) \<and>
     (if Datatype_of_int (ad_attrType a) = Some STRING
      then 0 \<in> set (take (nat (ad_attrLen a)) (drop (nat (ad_attrOffset a)) b)) \<or> col_width a \<le> ad_attrLen a else ad_attrLen a = 4)"

lemma col_width_pos: "0 \<le> col_width a"
  by (auto simp: col_width_def Let_def le_max_iff_disj)

lemma takeWhile_take: "takeWhile P (take n xs) = take n (takeWhile P xs)"
  by (induction xs arbitrary: n) (auto simp: take_Cons')

lemma string_of_take: "string_of_bytes (take n x) = take n (string_of_bytes x)"
  by (simp add: string_of_bytes_def take_map)

lemma string_field_prefix:
  assumes x: "take (length x) flt = x" "length x \<le> length flt" and z: "0 \<in> set x \<or> nat n \<le> length x"
  shows "string_field n flt = Some (pad_right n (take (nat n) (string_of_bytes (c_string x))))"
proof -
  obtain y where y: "flt = x @ y" using x by (metis append_take_drop_id)
  have cs: "takeWhile (\<lambda>b. b \<noteq> 0) (take (nat n) flt) = take (nat n) (c_string x)"
  proof (cases "0 \<in> set x")
    case True
    then have "takeWhile (\<lambda>b. b \<noteq> 0) (x @ y) = c_string x" unfolding c_string_def by (rule takeWhile_append1) simp
    then show ?thesis unfolding y takeWhile_take by simp
  next
    case False
    then have "take (nat n) flt = take (nat n) x" using z y by simp
    then show ?thesis by (simp add: takeWhile_take c_string_def)
  qed
  have lt: "length (take (nat n) (c_string x)) < length flt" if l: "length (take (nat n) (c_string x)) < nat n"
  proof (cases "0 \<in> set x")
    case True
    then have "length (c_string x) < length x" unfolding c_string_def by (induction x) auto
    then show ?thesis using x(2) by simp
  next
    case False
    then show ?thesis using l z x(2) by simp
  qed
  have "\<not> (length (take (nat n) (c_string x)) < nat n \<and> length (take (nat n) (c_string x)) = length flt)" using lt by (metis less_irrefl)
  then show ?thesis unfolding string_field_def cs Let_def string_of_take by (simp only: if_False)
qed

lemma rec_is_field:
  assumes "rec_is w s ref b" "0 \<le> ad_attrOffset a" "shown_in a b" "Datatype_of_int (ad_attrType a) \<noteq> None"
  shows "print_attr w s ref a (col_width a) = Some (pad_right (col_width a) (show_value a b) @ ''  '')"
proof (cases "Datatype_of_int (ad_attrType a) = Some STRING")
  case True
  let ?d = "drop (nat (ad_attrOffset a)) b" and ?n = "nat (ad_attrLen a)"
  let ?x = "take ?n ?d"
  have l: "ad_attrOffset a \<le> int (length b)" "?n \<le> length ?d" "0 \<in> set ?x \<or> col_width a \<le> ad_attrLen a"
    using True assms(2,3) by (auto simp: shown_in_def simp del: Datatype_of_int.simps)
  have lx: "length ?x = ?n" using l(2) by simp
  have z: "0 \<in> set ?x \<or> nat (col_width a) \<le> length ?x" using l(3) unfolding lx by (meson nat_mono)
  obtain flt where f: "rec_rest w s (ref\<lparr>ref_offset := ref_offset ref + ad_attrOffset a\<rparr>) = Some flt" "length ?d \<le> length flt" "take (length ?d) flt = ?d"
    using rec_is_rest [OF assms(1,2) l(1)] by auto
  have "take ?n flt = take ?n (take (length ?d) flt)" using l(2) by (simp add: min_absorb1)
  then have g: "take (length ?x) flt = ?x" "length ?x \<le> length flt" unfolding lx f(3) using l(2) f(2) by simp_all
  show ?thesis using f(1) True string_field_prefix [OF g z] by (simp add: print_attr_def show_value_def Let_def del: Datatype_of_int.simps)
next
  case False
  then have "ad_attrOffset a + 4 \<le> int (length b)" using assms(3) by (simp add: shown_in_def del: Datatype_of_int.simps)
  then have l: "4 \<le> length (drop (nat (ad_attrOffset a)) b)" using assms(2) unfolding length_drop by arith
  then have "rec_bytes w s (ref\<lparr>ref_offset := ref_offset ref + ad_attrOffset a\<rparr>) 4 = Some (take 4 (drop (nat (ad_attrOffset a)) b))"
    using rec_is_bytes [OF assms(1,2), of 4] assms(2) by simp
  then show ?thesis using False assms(4)
    by (auto simp: print_attr_def show_value_def int_value_def bytes_int_def Let_def simp del: Datatype_of_int.simps split: Datatype.splits)
qed

lemma concat_opt_map: "\<forall>x \<in> set xs. f x = Some (g x) \<Longrightarrow> concat_opt (map f xs) = Some (concat (map g xs))"
  by (induction xs) auto

lemma zip_map_self: "zip xs (map f xs) = map (\<lambda>x. (x, f x)) xs"
  by (induction xs) auto

lemma printRec_spec:
  assumes "rec_is w s ref b" "\<forall>a \<in> set attrs. printable a \<and> shown_in a b"
  shows "UT_printRec w s attrs (map col_width attrs) ref = Some (show_row attrs b)"
proof -
  have "concat_opt (map (\<lambda>(a, n). print_attr w s ref a n) (zip attrs (map col_width attrs))) = Some (concat (map (\<lambda>a. pad_right (col_width a) (show_value a b) @ ''  '') attrs))"
    unfolding zip_map_self map_map comp_def prod.case by (rule concat_opt_map) (use rec_is_field [OF assms(1)] assms(2) in \<open>auto simp: printable_def\<close>)
  then show ?thesis by (simp add: UT_printRec_def show_row_def)
qed

lemma computeWidth_spec:
  assumes "\<forall>a \<in> set attrs. AttrDesc_ok a \<and> printable a"
  shows "UT_computeWidth w0 attrs = Some (OK, map col_width attrs)" "print_head attrs (map col_width attrs) = Some (show_head attrs)"
proof -
  have nm: "drop 32 (AttrDesc_bytes a) = ad_attrName a @ int_bytes (ad_attrOffset a) @ int_bytes (ad_attrType a) @ int_bytes (ad_attrLen a)" if "a \<in> set attrs" for a
    using assms that by (simp add: AttrDesc_bytes_def AttrDesc_ok_def)
  have z: "zstring (ad_attrName a) = Some (c_string (ad_attrName a))" "0 \<in> set (ad_attrName a)" if "a \<in> set attrs" for a
    using assms that by (simp_all add: printable_def zstring_def c_string_def)
  have cw: "column_width w0 a = Some (col_width a)" if "a \<in> set attrs" for a
    using nm [OF that] z [OF that] assms that by (auto simp: column_width_def zstring_append col_width_def printable_def Let_def simp del: Datatype_of_int.simps split: option.splits Datatype.splits)
  have "set as \<subseteq> set attrs \<Longrightarrow> UT_computeWidth w0 as = Some (OK, map col_width as)" for as by (induction as) (simp_all add: cw)
  then show "UT_computeWidth w0 attrs = Some (OK, map col_width attrs)" by simp
  have sf: "string_field (col_width a) (drop 32 (AttrDesc_bytes a)) = Some (pad_right (col_width a) (take (nat (col_width a)) (string_of_bytes (c_string (ad_attrName a)))))"
    if "a \<in> set attrs" for a unfolding nm [OF that] by (rule string_field_prefix) (use z(2) [OF that] in simp_all)
  have "concat_opt (map (\<lambda>(a, n). map_option (\<lambda>f. f @ '' '') (string_field n (drop 32 (AttrDesc_bytes a)))) (zip attrs (map col_width attrs))) =
      Some (concat (map (\<lambda>a. pad_right (col_width a) (take (nat (col_width a)) (string_of_bytes (c_string (ad_attrName a)))) @ '' '') attrs))"
    unfolding zip_map_self map_map comp_def prod.case by (rule concat_opt_map) (use sf in auto)
  then show "print_head attrs (map col_width attrs) = Some (show_head attrs)" by (simp add: print_head_def show_head_def comp_def)
qed


section \<open>Printing a relation\<close>

lemma print_loop_spec:
  assumes "scanning w nm s ps items" "db_inv w" "\<forall>a \<in> set attrs. printable a \<and> (\<forall>x \<in> set items. shown_in a (snd x))" "0 \<le> k" "k + int (length items) < 2147483648"
  shows "\<exists>s' w'. print_loop w s attrs (map col_width attrs) out k = Some (FILEEOF, False, out @ concat (map (\<lambda>x. show_row attrs (snd x)) items), k + int (length items), s', w') \<and>
     scanning w' nm s' ps [] \<and> work w {nm} 0 w' \<and> owes w w' (\<lambda>g q. its_pins s' g q - its_pins s g q) (\<lambda>g. 0) \<and> filePtr s' = filePtr s \<and>
     lpage w' (filePtr s') = lpage w (filePtr s)"
  using assms
proof (induction items arbitrary: w s out k)
  case Nil
  obtain s2 w2 rid where r: "scanNext w s NULLRID = Some (FILEEOF, rid, s2, w2)" "scanning w2 nm s2 ps []" "work w {nm} 0 w2"
     "owes w w2 (\<lambda>g q. its_pins s2 g q - its_pins s g q) (\<lambda>g. 0)" "filePtr s2 = filePtr s" "lpage w2 (filePtr s2) = lpage w (filePtr s)"
    using scan_end_work [OF Nil.prems(1,2)] by blast
  then show ?case by (subst print_loop.simps) (intro exI [of _ s2] exI [of _ w2], simp)
next
  case (Cons x items)
  obtain rid b where x: "x = (rid, b)" by (cases x)
  have sc: "scanning w nm s ps ((rid, b) # items)" using Cons.prems(1) x by simp
  obtain s2 w2 ref where r: "scanNext w s NULLRID = Some (OK, rid, s2, w2)" "HeapFileScan_getRecord w2 s2 no_rec = Some (OK, ref)" "rec_is w2 s2 ref b"
     "scanning w2 nm s2 ps items" "work w {nm} 0 w2" "owes w w2 (\<lambda>g q. its_pins s2 g q - its_pins s g q) (\<lambda>g. 0)" "filePtr s2 = filePtr s" "lpage w2 (filePtr s2) = lpage w (filePtr s)"
    using scan_next_work [OF sc Cons.prems(2)] by blast
  have p: "UT_printRec w2 s2 attrs (map col_width attrs) ref = Some (show_row attrs b)"
    by (rule printRec_spec [OF r(3)]) (use Cons.prems(3) x in auto)
  have n: "swrap 4 (k + 1) = k + 1" using Cons.prems(4,5) by (simp add: swrap_def)
  have q: "\<forall>a \<in> set attrs. printable a \<and> (\<forall>x \<in> set items. shown_in a (snd x))" "0 \<le> k + 1" "k + 1 + int (length items) < 2147483648"
    using Cons.prems(3-5) by simp_all
  obtain s3 w3 where i: "print_loop w2 s2 attrs (map col_width attrs) (out @ show_row attrs b) (k + 1) =
       Some (FILEEOF, False, (out @ show_row attrs b) @ concat (map (\<lambda>x. show_row attrs (snd x)) items), k + 1 + int (length items), s3, w3)" "scanning w3 nm s3 ps []"
     "work w2 {nm} 0 w3" "owes w2 w3 (\<lambda>g q. its_pins s3 g q - its_pins s2 g q) (\<lambda>g. 0)" "filePtr s3 = filePtr s2" "lpage w3 (filePtr s3) = lpage w2 (filePtr s2)"
    using Cons.IH [OF r(4) workD(1) [OF r(5)] q, of "out @ show_row attrs b"] by blast
  have "print_loop w s attrs (map col_width attrs) out k = Some (FILEEOF, False, out @ concat (map (\<lambda>x. show_row attrs (snd x)) (x # items)), k + int (length (x # items)), s3, w3)"
    using r(1,2) p n i(1) x by (subst print_loop.simps) simp
  moreover have "work w {nm} 0 w3" using work_trans [OF Cons.prems(2) r(5) i(3)] by simp
  moreover have "owes w w3 (\<lambda>g q. its_pins s3 g q - its_pins s g q) (\<lambda>g. 0)" using owes_trans [OF r(6) i(4)] by simp
  ultimately show ?case using i(2,5,6) r(7,8) by (intro exI [of _ s3] exI [of _ w3]) simp
qed

text \<open>The explicit end of a scan before the destructor.\<close>

lemma end_then_destroy:
  assumes l: "scanning w nm s ps items" and d: "HeapFileScan_destroy w s = Some (s', w')"
  shows "\<exists>s1 w1. endScan w s = Some (OK, s1, w1) \<and> HeapFileScan_destroy w1 s1 = Some (s', w')"
proof -
  have op: "hf_open w s ps" "hf_curPage s \<noteq> None" using l by (simp_all add: scanning_def live_obj_def)
  obtain w1 where u: "BufMgr_unPinPage w (filePtr s) (curPageNo s) (curDirtyFlag s) = Some (OK, w1)"
    using release_current [OF op, of "curDirtyFlag s"] by blast
  let ?s = "s\<lparr>hf_curPage := None, curPageNo := 0, curDirtyFlag := False\<rparr>"
  have e: "endScan w s = Some (OK, ?s, w1)" using op(2) u by (simp add: endScan_def)
  moreover have "endScan w1 ?s = Some (OK, ?s, w1)" by (simp add: endScan_def)
  ultimately have "HeapFileScan_destroy w1 ?s = Some (s', w')" using d by (simp add: HeapFileScan_destroy_def)
  then show ?thesis using e by blast
qed


lemma described_attrs:
  assumes ta: "table w ATTRCATNAME psa na" and d: "described w psr psa relation attrs"
  shows "\<forall>a \<in> set attrs. AttrDesc_ok a"
proof -
  have "set (attr_tuples w psa relation) \<subseteq> tuples w ATTRCATNAME psa" using table_tuples [OF ta] by (auto simp: attr_tuples_def)
  then show ?thesis using d AttrDesc_of_bytes_ok unfolding described_def by fastforce
qed

text \<open>The pages of a table and the end of its file are determined by its contents.\<close>

lemma chain_unique:
  "chain P ps \<Longrightarrow> chain P qs \<Longrightarrow> hd ps = hd qs \<Longrightarrow> \<forall>p \<in> set ps \<union> set qs. p \<noteq> - 1 \<Longrightarrow> ps = qs"
proof (induction ps arbitrary: qs)
  case (Cons p ps)
  obtain qs' where q: "qs = p # qs'" using Cons.prems(2,3) by (cases qs) auto
  show ?case
  proof (cases "ps = []")
    case True
    then show ?thesis using Cons.prems q by (cases qs') auto
  next
    case False
    then have "qs' \<noteq> []" using Cons.prems q by (cases ps) auto
    then have "chain P ps" "chain P qs'" "hd ps = hd qs'" using Cons.prems q False by auto
    then show ?thesis using Cons.IH [of qs'] Cons.prems(4) q by auto
  qed
qed simp

lemma table_unique:
  assumes inv: "db_inv w" and t: "table w nm ps n" "table w nm qs m"
  shows "ps = qs \<and> n = m"
proof -
  let ?P = "file_view w nm"
  have p: "\<forall>p \<in> set ps \<union> set qs. p \<noteq> - 1" using table_pages [OF inv t(1)] table_pages [OF inv t(2)] by fastforce
  have "chain ?P ps" "chain ?P qs" "hd ps = hd qs" using t by (auto simp: table_def stored_heap_def heap_at_def hdr_ok_def)
  then have "ps = qs" using chain_unique p by blast
  moreover have "n = m" using t by (auto simp: table_def end_page_def)
  ultimately show ?thesis by simp
qed

text \<open>After the lookups the relation itself is still a table, also when it is one of the catalogs.\<close>

lemma looked_up_table:
  assumes inv: "db_inv w" and c: "table w RELCATNAME psr nr" "table w ATTRCATNAME psa na" "table w2 RELCATNAME psr nr" "table w2 ATTRCATNAME psa na"
    and k: "work w {RELCATNAME, ATTRCATNAME} i w2" and t: "table w relation ps n"
  shows "table w2 relation ps n"
proof (cases "relation \<in> {RELCATNAME, ATTRCATNAME}")
  case True
  then show ?thesis using table_unique [OF inv t, of psr nr] table_unique [OF inv t, of psa na] c by auto
next
  case False
  then show ?thesis by (rule work_table [OF k inv _ t])
qed

text \<open>
  (C11) \<open>UT_Print\<close> of a relation that the catalogs describe, which may be one of the catalogs and is the relation
  catalog when the name is empty, prints its name, the head of the table, one line for every record in the order of
  the scan, and the number of records; no file has changed. The column of an attribute is as wide as
  \<open>UT_computeWidth\<close> makes it; numbers are not cut. The value of a string is made of the bytes of the attribute
  alone, up to a zero byte or the width of the column. The condition is that the attributes lie
  in the records, that numbers have four bytes, and that a string has a zero byte or is as long as its
  column: for a string that is not, the code goes on to print the bytes of the next attribute.
\<close>

theorem print_correct:
  assumes "db_inv w" "table w RELCATNAME psr nr" "table w ATTRCATNAME psa na" "table w relation ps n" "nr \<le> N" "na \<le> N" "n \<le> N" "resources w 4 N" "spare w 6"
    and "relation = (if q = [] then RELCATNAME else q)"
    and "described w psr psa relation attrs" "bs = map snd (heap_items (file_view w relation) ps)" "int (length bs) < 2147483648"
    and "\<forall>a \<in> set attrs. printable a \<and> (\<forall>b \<in> set bs. shown_in a b)"
  shows "\<exists>w'. UT_Print rd ad w0 w s q = Some (OK, ''Relation name: '' @ relation @ newline @ newline @ show_head attrs @
       concat (map (show_row attrs) bs) @ newline @ ''Number of records: '' @ int_str (int (length bs)) @ newline, w') \<and> file_view w' = file_view w"
proof -
  have r4: "resources w (1 + 3) N" and sp: "spare w (2 + 4)" using assms(8,9) by simp_all
  obtain rd' w1 w2 i where c: "RelCatalog_getInfo w s relation rd = Some (OK, rd', w1)" "zstring (RelDesc_bytes rd') = Some (map of_char relation)"
     "string_of_bytes (map of_char relation) = relation" "AttrCatalog_getRelInfo rd' ad w1 s relation 0 [] = Some (OK, int (length attrs), attrs, w2)"
     "work w {RELCATNAME, ATTRCATNAME} i w2" "file_view w2 = file_view w" "resources w2 1 N" "spare w2 2" "table w2 RELCATNAME psr nr" "table w2 ATTRCATNAME psa na"
    using catalog_info [OF assms(1,2,3,11) r4 _ assms(5,6) sp, of s rd ad] by blast
  note inv2 = workD(1) [OF c(5)]
  have t: "table w2 relation ps n" by (rule looked_up_table [OF assms(1,2,3) c(9,10,5) assms(4)])
  have fa: "filter_args 0 0 1 None" by (simp add: filter_args_def)
  have sel: "filter (\<lambda>x. selects 0 0 1 None EQ (snd x)) xs = xs" for xs :: "item list" by (simp add: selects_def)
  let ?items = "heap_items (file_view w relation) ps"
  obtain s1 w3 s2 where o: "HeapFileScan_new w2 s relation = Some (OK, s1, w3)" "startScan s1 0 0 1 None EQ = (OK, s2)" "scanning w3 relation s2 ps ?items"
     "filePtr s2 = handle w2 relation" "work w2 {relation} (opens w2 relation) w3" "owes w2 w3 (its_pins s2) (its_open s2)" "lpage w3 (filePtr s2) = file_view w2 relation"
    using scan_open_work [OF inv2 t c(7) assms(7) c(8) fa, of s EQ] unfolding sel c(6) by blast
  let ?head = "''Relation name: '' @ relation @ newline @ newline @ show_head attrs"
  have p: "\<forall>a \<in> set attrs. printable a \<and> (\<forall>x \<in> set ?items. shown_in a (snd x))" using assms(12,14) by auto
  have l: "0 + int (length ?items) < 2147483648" using assms(12,13) by simp
  obtain s3 w4 where r: "print_loop w3 s2 attrs (map col_width attrs) ?head 0 = Some (FILEEOF, False, ?head @ concat (map (\<lambda>x. show_row attrs (snd x)) ?items), 0 + int (length ?items), s3, w4)"
     "scanning w4 relation s3 ps []" "work w3 {relation} 0 w4" "owes w3 w4 (\<lambda>g q. its_pins s3 g q - its_pins s2 g q) (\<lambda>g. 0)" "filePtr s3 = filePtr s2"
     "lpage w4 (filePtr s3) = lpage w3 (filePtr s2)"
    using print_loop_spec [OF o(3) workD(1) [OF o(5)] p _ l] by blast
  have k: "work w2 {relation} (opens w2 relation) w4" using work_trans [OF inv2 o(5) r(3)] by simp
  have ow: "owes w2 w4 (its_pins s3) (its_open s3)" using owes_trans [OF o(6) r(4)] r(5) by (simp add: owes_def its_open_def)
  have h: "filePtr s3 = handle w2 relation" "lpage w4 (filePtr s3) = file_view w2 relation" using r(5,6) o(4,7) by simp_all
  obtain s5 w5 where d: "HeapFileScan_destroy w4 s3 = Some (s5, w5)" "file_view w5 = file_view w2"
    using scan_over [OF inv2 t c(7) assms(7) c(8) r(2) k ow h] by blast
  obtain s4 w6 where f: "endScan w4 s3 = Some (OK, s4, w6)" "HeapFileScan_destroy w6 s4 = Some (s5, w5)" using end_then_destroy [OF r(2) d(1)] by blast
  have cw: "\<forall>a \<in> set attrs. AttrDesc_ok a \<and> printable a" using described_attrs [OF assms(3,11)] assms(14) by blast
  have "UT_Print rd ad w0 w s q = Some (OK, (?head @ concat (map (\<lambda>x. show_row attrs (snd x)) ?items)) @ newline @ ''Number of records: '' @ int_str (int (length ?items)) @ newline, w5)"
    using assms(10) [symmetric] c(1-4) computeWidth_spec [OF cw] o(1,2) r(1) f by (simp add: UT_Print_def)
  then show ?thesis using d(2) c(6) assms(12) by (simp add: comp_def)
qed


text \<open>A database with both catalogs, which describe the relation catalog and one relation of one record.\<close>

definition relcat_rd :: RelDesc where
  "relcat_rd = \<lparr>rd_relName = name32 RELCATNAME, rd_attrCnt = 2\<rparr>"

definition relName_ad :: AttrDesc where
  "relName_ad = \<lparr>ad_relName = name32 RELCATNAME, ad_attrName = name32 ''relName'', ad_attrOffset = 0, ad_attrType = 0, ad_attrLen = 32\<rparr>"

definition attrCnt_ad :: AttrDesc where
  "attrCnt_ad = \<lparr>ad_relName = name32 RELCATNAME, ad_attrName = name32 ''attrCnt'', ad_attrOffset = 32, ad_attrType = 1, ad_attrLen = 4\<rparr>"

lemma relcat_name: "name_ok RELCATNAME" "length RELCATNAME < MAXNAME"
  by (simp_all add: name_ok_def RELCATNAME_def)

lemma relcat_ok: "RelDesc_ok relcat_rd" "AttrDesc_ok relName_ad" "AttrDesc_ok attrCnt_ad"
  "zstring (rd_relName relcat_rd) = Some (map of_char RELCATNAME)" "zstring (ad_relName relName_ad) = Some (map of_char RELCATNAME)"
  "zstring (ad_relName attrCnt_ad) = Some (map of_char RELCATNAME)" "zstring (ad_attrName relName_ad) = Some (map of_char ''relName'')"
  "zstring (ad_attrName attrCnt_ad) = Some (map of_char ''attrCnt'')"
  by code_simp+

lemma relcat_named:
  "named RELCATNAME (AttrDesc_bytes relName_ad)" "named RELCATNAME (AttrDesc_bytes attrCnt_ad)" "\<not> named RELCATNAME (AttrDesc_bytes emp_ad)"
  "\<not> named ''emp'' (AttrDesc_bytes relName_ad)" "\<not> named ''emp'' (AttrDesc_bytes attrCnt_ad)" "named ''emp'' (AttrDesc_bytes emp_ad)"
  "named RELCATNAME (RelDesc_bytes relcat_rd)" "\<not> named RELCATNAME (RelDesc_bytes emp_rd)" "\<not> named ''emp'' (RelDesc_bytes relcat_rd)" "named ''emp'' (RelDesc_bytes emp_rd)"
proof -
  have ne: "map of_char RELCATNAME \<noteq> (map of_char ''emp'' :: byte list)" by code_simp
  have x: "named RELCATNAME b \<Longrightarrow> named ''emp'' b \<Longrightarrow> False" for b using ne by (simp add: named_def)
  show n: "named RELCATNAME (AttrDesc_bytes relName_ad)" "named RELCATNAME (AttrDesc_bytes attrCnt_ad)" "named ''emp'' (AttrDesc_bytes emp_ad)"
    "named RELCATNAME (RelDesc_bytes relcat_rd)" "named ''emp'' (RelDesc_bytes emp_rd)"
    using named_AttrDesc(1) [OF relcat_ok(2,5,7)] named_AttrDesc(1) [OF relcat_ok(3,6,8)] named_AttrDesc(1) [OF emp_ok(2,4,5)]
      named_RelDesc [OF relcat_ok(4)] named_RelDesc [OF emp_ok(3)] by blast+
  show "\<not> named RELCATNAME (AttrDesc_bytes emp_ad)" "\<not> named ''emp'' (AttrDesc_bytes relName_ad)" "\<not> named ''emp'' (AttrDesc_bytes attrCnt_ad)"
    "\<not> named RELCATNAME (RelDesc_bytes emp_rd)" "\<not> named ''emp'' (RelDesc_bytes relcat_rd)" using x n by blast+
qed

definition sample_print :: db_state where
  "sample_print = fold (\<lambda>(nm, b) w. put_record w nm b)
     [(RELCATNAME, RelDesc_bytes relcat_rd), (RELCATNAME, RelDesc_bytes emp_rd), (ATTRCATNAME, AttrDesc_bytes relName_ad), (ATTRCATNAME, AttrDesc_bytes attrCnt_ad),
      (ATTRCATNAME, AttrDesc_bytes emp_ad), (''emp'', [1, 0, 0, 0])]
     (fold (\<lambda>nm w. make_file w nm) [RELCATNAME, ATTRCATNAME, ''emp''] (empty_db 8))"

lemma sample_tables_puts:
  assumes "sample_tables w (k + length puts) T" "\<forall>(nm, b) \<in> set puts. T nm \<noteq> None \<and> storable b \<and> length b \<le> 1000"
    "\<forall>nm bs. T nm = Some bs \<longrightarrow> length bs + length puts < 100"
  shows "sample_tables (fold (\<lambda>(nm, b) w. put_record w nm b) puts w) k (fold (\<lambda>(nm, b) T. T(nm \<mapsto> b # the (T nm))) puts T)"
  using assms
proof (induction puts arbitrary: w T)
  case (Cons p puts)
  obtain nm b where p: "p = (nm, b)" by (cases p)
  obtain bs where bs: "T nm = Some bs" using Cons.prems(2) p by auto
  have "sample_tables w ((k + length puts) + 1) T" using Cons.prems(1) by simp
  moreover have "storable b" "length b \<le> 1000" "length bs < 100" using Cons.prems(2,3) bs p by fastforce+
  ultimately have s: "sample_tables (put_record w nm b) (k + length puts) (T(nm \<mapsto> b # bs))" using sample_tables_put [of w "k + length puts" T nm bs b] bs by blast
  have q1: "\<forall>(nm', b') \<in> set puts. (T(nm \<mapsto> b # bs)) nm' \<noteq> None \<and> storable b' \<and> length b' \<le> 1000" using Cons.prems(2) by auto
  have q2: "\<forall>nm' bs'. (T(nm \<mapsto> b # bs)) nm' = Some bs' \<longrightarrow> length bs' + length puts < 100"
  proof (intro allI impI)
    fix nm' bs' assume a: "(T(nm \<mapsto> b # bs)) nm' = Some bs'"
    have "length bs + length (p # puts) < 100" using Cons.prems(3) bs by blast
    moreover have "length bs' + length (p # puts) < 100" if "nm' \<noteq> nm" using Cons.prems(3) a that by simp
    ultimately show "length bs' + length puts < 100" using a by (cases "nm' = nm") auto
  qed
  have T: "T(nm \<mapsto> b # bs) = T(nm \<mapsto> b # the (T nm))" using bs by simp
  show ?case using Cons.IH [OF s q1 q2] unfolding T p by simp
qed simp

lemma sample_print_db:
  "sample_tables sample_print 52 [RELCATNAME \<mapsto> [RelDesc_bytes emp_rd, RelDesc_bytes relcat_rd],
     ATTRCATNAME \<mapsto> [AttrDesc_bytes emp_ad, AttrDesc_bytes attrCnt_ad, AttrDesc_bytes relName_ad], ''emp'' \<mapsto> [[1, 0, 0, 0]]]"
proof -
  have ne: "RELCATNAME \<noteq> []" "ATTRCATNAME \<noteq> []" "RELCATNAME \<noteq> ATTRCATNAME" "ATTRCATNAME \<noteq> RELCATNAME" "RELCATNAME \<noteq> ''emp''" "ATTRCATNAME \<noteq> ''emp''"
    "''emp'' \<noteq> RELCATNAME" "''emp'' \<noteq> ATTRCATNAME"
    by (simp_all add: RELCATNAME_def ATTRCATNAME_def)
  have l: "length (RelDesc_bytes emp_rd) = 36" "length (RelDesc_bytes relcat_rd) = 36" "length (AttrDesc_bytes emp_ad) = 76"
    "length (AttrDesc_bytes relName_ad) = 76" "length (AttrDesc_bytes attrCnt_ad) = 76"
    using RelDesc_bytes_length AttrDesc_bytes_length emp_ok(1,2) relcat_ok(1-3) by blast+
  define w3 where "w3 = fold (\<lambda>nm w. make_file w nm) [RELCATNAME, ATTRCATNAME, ''emp''] (empty_db 8)"
  let ?T = "[RELCATNAME \<mapsto> [], ATTRCATNAME \<mapsto> [], ''emp'' \<mapsto> []]"
  have "sample_tables (make_file (empty_db 8) RELCATNAME) 62 [RELCATNAME \<mapsto> []]"
    using sample_tables_make [of "empty_db 8" 62 "\<lambda>_. None" RELCATNAME] sample_tables_empty ne by simp
  then have "sample_tables (make_file (make_file (empty_db 8) RELCATNAME) ATTRCATNAME) 60 [RELCATNAME \<mapsto> [], ATTRCATNAME \<mapsto> []]"
    using sample_tables_make [of _ 60 "[RELCATNAME \<mapsto> []]" ATTRCATNAME] ne by simp
  then have w3: "sample_tables w3 58 ?T"
    using sample_tables_make [of _ 58 "[RELCATNAME \<mapsto> [], ATTRCATNAME \<mapsto> []]" "''emp''"] ne by (simp add: w3_def)
  let ?puts = "[(RELCATNAME, RelDesc_bytes relcat_rd), (RELCATNAME, RelDesc_bytes emp_rd), (ATTRCATNAME, AttrDesc_bytes relName_ad), (ATTRCATNAME, AttrDesc_bytes attrCnt_ad),
      (ATTRCATNAME, AttrDesc_bytes emp_ad), (''emp'', [1, 0, 0, 0])]"
  have "sample_tables (fold (\<lambda>(nm, b) w. put_record w nm b) ?puts w3) 52 (fold (\<lambda>(nm, b) T. T(nm \<mapsto> b # the (T nm))) ?puts ?T)"
    by (rule sample_tables_puts) (use w3 l ne in \<open>auto split: if_splits\<close>)
  moreover have "fold (\<lambda>(nm, b) T. T(nm \<mapsto> b # the (T nm))) ?puts ?T = [RELCATNAME \<mapsto> [RelDesc_bytes emp_rd, RelDesc_bytes relcat_rd],
     ATTRCATNAME \<mapsto> [AttrDesc_bytes emp_ad, AttrDesc_bytes attrCnt_ad, AttrDesc_bytes relName_ad], ''emp'' \<mapsto> [[1, 0, 0, 0]]]"
    using ne by (simp add: fun_eq_iff)
  ultimately show ?thesis unfolding sample_print_def w3_def by simp
qed

lemma filter_values: "mset xs = mset ys \<Longrightarrow> set (filter P xs) = set (filter P ys) \<and> length (filter P xs) = length (filter P ys)"
  by (metis mset_filter mset_eq_setD mset_eq_length)

lemma one_value: "set xs = {x} \<Longrightarrow> length xs = 1 \<Longrightarrow> xs = [x]"
  by (cases xs) auto

lemma sample_print_facts:
  obtains psr nr psa na ps n attrs where "db_inv sample_print" "spare sample_print 6" "resources sample_print 4 1000"
    "table sample_print RELCATNAME psr nr" "nr \<le> 1000" "table sample_print ATTRCATNAME psa na" "na \<le> 1000" "table sample_print ''emp'' ps n" "n \<le> 1000"
    "map snd (heap_items (file_view sample_print ''emp'') ps) = [[1, 0, 0, 0]]" "described sample_print psr psa ''emp'' [emp_ad]"
    "mset (map snd (heap_items (file_view sample_print RELCATNAME) psr)) = mset [RelDesc_bytes emp_rd, RelDesc_bytes relcat_rd]"
    "described sample_print psr psa RELCATNAME attrs" "set attrs = {relName_ad, attrCnt_ad}"
proof -
  note s = sample_print_db
  have ne: "RELCATNAME \<noteq> ATTRCATNAME" "RELCATNAME \<noteq> ''emp''" "ATTRCATNAME \<noteq> ''emp''" by (simp_all add: RELCATNAME_def ATTRCATNAME_def)
  have single: "xs = [x]" if "mset xs = mset [x]" for xs :: "byte list list" and x using that by simp
  obtain psr nr where r: "table sample_print RELCATNAME psr nr" "nr \<le> 5"
     "mset (map snd (heap_items (file_view sample_print RELCATNAME) psr)) = mset [RelDesc_bytes emp_rd, RelDesc_bytes relcat_rd]"
    using sample_tables_at(2) [OF s, of RELCATNAME "[RelDesc_bytes emp_rd, RelDesc_bytes relcat_rd]"] ne by auto
  obtain psa na where a: "table sample_print ATTRCATNAME psa na" "na \<le> 6"
     "mset (map snd (heap_items (file_view sample_print ATTRCATNAME) psa)) = mset [AttrDesc_bytes emp_ad, AttrDesc_bytes attrCnt_ad, AttrDesc_bytes relName_ad]"
    using sample_tables_at(2) [OF s, of ATTRCATNAME "[AttrDesc_bytes emp_ad, AttrDesc_bytes attrCnt_ad, AttrDesc_bytes relName_ad]"] ne by auto
  obtain ps n where e: "table sample_print ''emp'' ps n" "n \<le> 4" "mset (map snd (heap_items (file_view sample_print ''emp'') ps)) = mset [[1, 0, 0, 0]]"
    using sample_tables_at(2) [OF s, of "''emp''" "[[1, 0, 0, 0]]"] ne by auto
  have tr: "tuples sample_print RELCATNAME psr = {RelDesc_bytes emp_rd, RelDesc_bytes relcat_rd}" using table_tuples [OF r(1)] mset_eq_setD [OF r(3)] by simp
  have ta: "tuples sample_print ATTRCATNAME psa = {AttrDesc_bytes emp_ad, AttrDesc_bytes attrCnt_ad, AttrDesc_bytes relName_ad}"
    using table_tuples [OF a(1)] mset_eq_setD [OF a(3)] by simp
  note at = filter_values [OF a(3)]
  have ae: "attr_tuples sample_print psa ''emp'' = [AttrDesc_bytes emp_ad]"
    unfolding attr_tuples_def by (rule one_value) (use at [of "named ''emp''"] relcat_named in simp_all)
  have ar: "set (attr_tuples sample_print psa RELCATNAME) = {AttrDesc_bytes attrCnt_ad, AttrDesc_bytes relName_ad}" "length (attr_tuples sample_print psa RELCATNAME) = 2"
    using at [of "named RELCATNAME"] relcat_named unfolding attr_tuples_def by simp_all
  have ft: "first_tuple sample_print RELCATNAME psr (named ''emp'') = Some (RelDesc_bytes emp_rd)"
    "first_tuple sample_print RELCATNAME psr (named RELCATNAME) = Some (RelDesc_bytes relcat_rd)"
    using first_tuple_cases [OF r(1), of "named ''emp''"] first_tuple_cases [OF r(1), of "named RELCATNAME"] tr relcat_named by (auto split: option.splits)
  have len: "\<forall>b \<in> tuples sample_print RELCATNAME psr. length b = 36" "\<forall>b \<in> tuples sample_print ATTRCATNAME psa. length b = 76"
    unfolding tr ta using RelDesc_bytes_length AttrDesc_bytes_length emp_ok(1,2) relcat_ok(1-3) by blast+
  have d1: "described sample_print psr psa ''emp'' [emp_ad]"
    using emp_name len ae ft(1) RelDesc_roundtrip [OF emp_ok(1)] AttrDesc_roundtrip [OF emp_ok(2)] by (simp add: described_def emp_rd_def)
  define attrs where "attrs = rev (map AttrDesc_of_bytes (attr_tuples sample_print psa RELCATNAME))"
  have d2: "described sample_print psr psa RELCATNAME attrs"
    using relcat_name len ft(2) ar(2) RelDesc_roundtrip [OF relcat_ok(1)] by (simp add: described_def attrs_def) (simp add: relcat_rd_def)
  have sa: "set attrs = {relName_ad, attrCnt_ad}"
    using ar(1) AttrDesc_roundtrip [OF relcat_ok(2)] AttrDesc_roundtrip [OF relcat_ok(3)] by (auto simp: attrs_def)
  have k: "db_inv sample_print" "spare sample_print 6" using s by (simp_all add: sample_tables_def spare_def)
  have rs: "resources sample_print 4 1000" using s resources_mono [of sample_print 52 1000 4] by (simp add: sample_tables_def)
  have "nr \<le> 1000" "na \<le> 1000" "n \<le> 1000" using r(2) a(2) e(2) by simp_all
  then show thesis by (intro that [OF k rs r(1) _ a(1) _ e(1) _ single [OF e(3)] d1 r(3) d2 sa])
qed

theorem print_correct_witness:
  "(\<exists>w'. UT_Print emp_rd emp_ad 0 sample_print new_scan ''emp'' = Some (OK, ''Relation name: emp'' @ newline @ newline @ ''id    '' @ newline @ ''-----  '' @ newline @
     ''1      '' @ newline @ newline @ ''Number of records: 1'' @ newline, w') \<and> file_view w' = file_view sample_print) \<and>
   (\<exists>attrs bs w'. set attrs = {relName_ad, attrCnt_ad} \<and> set bs = {RelDesc_bytes emp_rd, RelDesc_bytes relcat_rd} \<and>
     UT_Print emp_rd emp_ad 0 sample_print new_scan [] = Some (OK, ''Relation name: relcat'' @ newline @ newline @ show_head attrs @
       concat (map (show_row attrs) bs) @ newline @ ''Number of records: 2'' @ newline, w'))"
proof -
  obtain psr nr psa na ps n attrs where f: "db_inv sample_print" "spare sample_print 6" "resources sample_print 4 1000"
    "table sample_print RELCATNAME psr nr" "nr \<le> 1000" "table sample_print ATTRCATNAME psa na" "na \<le> 1000" "table sample_print ''emp'' ps n" "n \<le> 1000"
    "map snd (heap_items (file_view sample_print ''emp'') ps) = [[1, 0, 0, 0]]" "described sample_print psr psa ''emp'' [emp_ad]"
    "mset (map snd (heap_items (file_view sample_print RELCATNAME) psr)) = mset [RelDesc_bytes emp_rd, RelDesc_bytes relcat_rd]"
    "described sample_print psr psa RELCATNAME attrs" "set attrs = {relName_ad, attrCnt_ad}" by (rule sample_print_facts)
  have p: "\<forall>a \<in> set [emp_ad]. printable a \<and> (\<forall>b \<in> set [[1, 0, 0, 0]]. shown_in a b)" by code_simp
  have h: "show_head [emp_ad] = ''id    '' @ newline @ ''-----  '' @ newline" "show_row [emp_ad] [1, 0, 0, 0] = ''1      '' @ newline" "int_str 1 = ''1''" "int_str 2 = ''2''" by code_simp+
  define bs where "bs = map snd (heap_items (file_view sample_print RELCATNAME) psr)"
  have b: "set bs = {RelDesc_bytes emp_rd, RelDesc_bytes relcat_rd}" "length bs = 2"
    using mset_eq_setD [OF f(12)] mset_eq_length [OF f(12)] by (simp_all add: bs_def)
  have "\<forall>a \<in> set [relName_ad, attrCnt_ad]. printable a \<and> (\<forall>b \<in> set [RelDesc_bytes emp_rd, RelDesc_bytes relcat_rd]. shown_in a b)" by code_simp
  then have q: "\<forall>a \<in> set attrs. printable a \<and> (\<forall>b \<in> set bs. shown_in a b)" unfolding f(14) b(1) by simp
  have c: "RELCATNAME = ''relcat''" by (simp add: RELCATNAME_def)
  have "\<exists>w'. UT_Print emp_rd emp_ad 0 sample_print new_scan ''emp'' = Some (OK, ''Relation name: emp'' @ newline @ newline @ ''id    '' @ newline @ ''-----  '' @ newline @
     ''1      '' @ newline @ newline @ ''Number of records: 1'' @ newline, w') \<and> file_view w' = file_view sample_print"
    using print_correct [OF f(1,4,6,8,5,7,9,3,2) _ f(11) refl, unfolded f(10), of "''emp''", OF _ _ p, of emp_rd emp_ad 0 new_scan] h by simp
  moreover have "\<exists>w'. UT_Print emp_rd emp_ad 0 sample_print new_scan [] = Some (OK, ''Relation name: relcat'' @ newline @ newline @ show_head attrs @
       concat (map (show_row attrs) bs) @ newline @ ''Number of records: 2'' @ newline, w')"
    using print_correct [OF f(1,4,6,4,5,7,5,3,2) _ f(13) bs_def _ q, of "[]" emp_rd emp_ad 0 new_scan] h(4) b(2) c by auto
  ultimately show ?thesis using f(14) b(1) by blast
qed

end
