(* ===== verification/BootProps.thy ===== *)
theory BootProps
  imports HeapJoint Utilities JoinNLProps
begin

text \<open>
  The programs as a whole: \<open>dbcreate\<close> makes a database whose catalogs describe themselves, and \<open>minirel\<close> opens
  and closes it. Both begin and end in states in which no file is open (\<open>at_rest\<close>); in between the catalog
  objects stay open while other objects insert into the same files.
\<close>

section \<open>A process without open files\<close>

text \<open>No file is open and the files on the disk are well-formed; there may be no buffer manager.\<close>

definition at_rest :: "'a db_state_scheme \<Rightarrow> bool" where
  "at_rest w \<longleftrightarrow> disk_ok w \<and> oft_inv (openFiles w) \<and> oft_map (openFiles w) = Map.empty \<and> files w = Map.empty"

definition with_pool :: "'a db_state_scheme \<Rightarrow> 'a db_state_scheme" where
  "with_pool w = (BufMgr_new w 100)\<lparr>bufMgr := True\<rparr>"

lemma with_pool_sel [simp]:
  "disk (with_pool w) = disk w" "files (with_pool w) = files w" "openFiles (with_pool w) = openFiles w" "newAddr (with_pool w) = newAddr w"
  "newCnt (with_pool w) = newCnt w" "frames (with_pool w) = 100" "bufMgr (with_pool w)"
  by (simp_all add: with_pool_def BufMgr_new_def)

lemma with_pool_alt: "with_pool w = BufMgr_new (w\<lparr>bufMgr := True\<rparr>) 100"
  by (cases w) (simp add: with_pool_def BufMgr_new_def)

lemma rest_start:
  assumes "at_rest w"
  shows "db_inv (with_pool w)" "pins (with_pool w) = (\<lambda>f p. 0)" "k \<le> 100 \<Longrightarrow> spare (with_pool w) k" "file_view (with_pool w) = name_page w" "file_view w = name_page w"
proof -
  let ?w = "w\<lparr>bufMgr := True\<rparr>"
  have r: "disk_ok w" "oft_inv (openFiles w)" "oft_map (openFiles w) = Map.empty" "files w = Map.empty" using assms by (simp_all add: at_rest_def)
  have fn: "file_name ?w f = None" for f using r(4) by (simp add: file_name_def)
  then have "fs_ok ?w" by (simp add: fs_ok_def fs_inv_def file_of_def)
  from BufMgr_new_inv [OF this, of 100] have b: "buf_inv (with_pool w)" "coherent (with_pool w)" "frame_of (with_pool w) = Map.empty"
    unfolding with_pool_alt by simp_all
  show "db_inv (with_pool w)" using b(1,2) r by (simp add: db_inv_def disk_ok_def)
  show p: "pins (with_pool w) = (\<lambda>f p. 0)" using b(3) by (simp add: pins_def fun_eq_iff)
  show "spare (with_pool w) k" if "k \<le> 100" using that p by (simp add: spare_def pinned_pages_def)
  show "file_view (with_pool w) = name_page w" "file_view w = name_page w" using r(3) by (simp_all add: file_view_def name_page_def fun_eq_iff)
qed

text \<open>When the last file is closed no page is left in the pool, and the buffer manager can be deleted.\<close>

lemma rest_end:
  assumes inv: "db_inv w" and o: "oft_map (openFiles w) = Map.empty"
  shows "at_rest w" "BufMgr_destroy w = Some w"
proof -
  have "files w f = None" for f using db_inv_obj [OF inv, of f] o by (cases "files w f") (auto simp: file_obj_ok_def)
  then have f: "files w = Map.empty" by (simp add: fun_eq_iff)
  show "at_rest w" using inv o f by (simp add: at_rest_def db_inv_def)
  have b: "0 < numBufs w" "frames w = nat (numBufs w)" "length (bufPool w) = frames w" using inv by (auto simp: db_inv_def buf_inv_def)
  have v: "\<not> valid (bufTable w ! i)" if "i < frames w" for i using valid_frame_open [of w i] inv f that by (auto simp: db_inv_def)
  have fl: "set is \<subseteq> {..<frames w} \<Longrightarrow> flush_all w is = Some w" for "is"
  proof (induction "is")
    case (Cons i "is")
    then have "i < frames w" "set is \<subseteq> {..<frames w}" by simp_all
    then show ?case using Cons.IH v [of i] b(3) by (simp add: frame_in_pool_def)
  qed simp
  then show "BufMgr_destroy w = Some w" using b(2) fl [of "[0..<nat (numBufs w)]"] by (simp add: BufMgr_destroy_def atLeast0LessThan)
qed

section \<open>An object that stays open while others insert\<close>

lemma live_stays:
  assumes l: "live_obj w nm h ps" "hf_curPage h \<noteq> None" and k: "others_kept w m j w'" and o: "oft_map (openFiles w') nm = oft_map (openFiles w) nm"
    and t: "table w' nm ps' n'" "set ps \<subseteq> set ps'" and r: "resources w' i N" "n' \<le> N"
  shows "live_obj w' nm h ps'"
proof -
  let ?f = "filePtr h"
  have lv: "hf_open w h ps" "headerPageNo h = 1" "nm \<noteq> []" "oft_map (openFiles w) nm = Some ?f" using l(1) by (simp_all add: live_obj_def)
  have inv: "db_inv w'" by (rule kept_inv [OF k])
  have o': "oft_map (openFiles w') nm = Some ?f" using o lv(4) by simp
  have sh: "heap_at (file_view w' nm) (file_used w' nm) ps'" and cl: "\<forall>p \<in> set (1 # ps'). clean w' ?f p" using t(1) o' by (auto simp: table_def stored_heap_def)
  have v: "file_view w' nm = lpage w' ?f" "file_used w' nm = used_pages ?f w'" using o' open_used [OF inv o'] by (simp_all add: file_view_def)
  have bl: "buf_legal w' (?f, p)" if p: "p \<in> set (1 # ps')" for p
  proof -
    have "1 \<le> p" "p < N" using table_pages [OF inv t(1) p] r(2) by simp_all
    then have "bht_valid (hashTable w') (?f, p)" using r(1) o' by (auto simp: resources_def)
    moreover have "p \<in> used_pages ?f w'" using sh p v(2) unfolding heap_at_def by auto
    moreover have "?f \<noteq> NULL" using db_inv_table [OF inv o'] db_inv_obj [OF inv] by (auto simp: file_obj_ok_def)
    ultimately show ?thesis by (simp add: buf_legal_def)
  qed
  have h: "holds w' ?f 1 (headerPage h)" "holds w' ?f (curPageNo h) (hf_curPage h)" "curPageNo h \<in> set ps'"
    using lv(1,2) l(2) kept_holds [OF k] t(2) by (auto simp: hf_open_def)
  have "hf_open w' h ps'" unfolding hf_open_def
    using sh cl bl h lv(2) db_inv_pool [OF inv] l(2) unfolding heap_at_def heap_file_def v by auto
  then show ?thesis using lv(2,3) o' by (simp add: live_obj_def)
qed


text \<open>Opening a table without a scan.\<close>

lemma open_obj:
  assumes inv: "db_inv w" and t: "table w nm ps n" and r: "resources w 1 N" "n \<le> N" and sp: "spare w 2"
  shows "\<exists>h1 w1. HeapFile_new w h nm = Some (OK, h1, w1) \<and> table w1 nm ps n \<and> live_obj w1 nm h1 ps \<and> hf_curPage h1 \<noteq> None \<and> filePtr h1 = handle w nm \<and>
     others_kept w nm (opens w nm) w1 \<and> file_view w1 nm = file_view w nm \<and> owes w w1 (its_pins h1) (its_open h1)"
proof -
  note rd = table_ready [OF inv t r sp]
  have tn: "nm \<noteq> []" "can_open w nm" "end_page (file_view w nm) n" using t rd(2) by (simp_all add: table_def ready_def)
  obtain h1 w1 where o: "HeapFile_new w h nm = Some (OK, h1, w1)" "started w nm ps (hd ps) w1 h1" using HeapFile_new_spec [OF inv rd, of h] by blast
  have st: "hf_curPage h1 \<noteq> None" "\<not> curDirtyFlag h1" "lpage w1 (handle w nm) = file_view w nm" "clean w1 (handle w nm) 1" "\<forall>g. g \<noteq> handle w nm \<longrightarrow> files w1 g = files w g"
    using o(2) by (simp_all add: started_def)
  have c: "client w nm w1 h1 ps" by (rule started_client [OF inv tn(1,2) o(2)])
  note cd = clientD [OF c]
  have v: "file_view w1 nm = file_view w nm" using cd(3,9) st(3) by simp
  have sh: "stored_heap w1 nm ps"
    using cd(2) unfolding stored_heap_def heap_at_def hf_open_def heap_file_def cd(4,9,10) by (auto simp: buf_legal_def)
  have "clean w1 (filePtr h1) p" if "p \<in> set (1 # ps)" for p using cd(2,3) st(2,4) that by (auto simp: hf_open_def)
  then have "\<forall>f p. oft_map (openFiles w1) nm = Some f \<longrightarrow> p \<in> set (1 # ps) \<longrightarrow> clean w1 f p" using cd(5) by simp
  then have "table w1 nm ps n" using sh cd(11) tn(3) unfolding table_def v by blast
  moreover have "live_obj w1 nm h1 ps" using cd(2,4,5,11) by (simp add: live_obj_def)
  moreover have "open_count w1 g = open_count w g + its_open h1 g" for g using cd(3,6) st(5) by (cases "g = handle w nm") (simp_all add: its_open_def open_count_def)
  then have "owes w w1 (its_pins h1) (its_open h1)" using cd(7) by (simp add: owes_def its_pins_def)
  ultimately show ?thesis using o(1) st(1) v cd(3,8) by blast
qed

section \<open>The catalogs while they are filled\<close>

definition tab_with :: "'a db_state_scheme \<Rightarrow> string \<Rightarrow> byte list list \<Rightarrow> bool" where
  "tab_with w nm T \<longleftrightarrow> (\<exists>ps n. table w nm ps n \<and> n \<le> 3 + int (length T) \<and> mset (map snd (heap_items (file_view w nm) ps)) = mset T)"

definition cat_at :: "'a db_state_scheme \<Rightarrow> string \<Rightarrow> HeapFile \<Rightarrow> byte list list \<Rightarrow> bool" where
  "cat_at w nm h T \<longleftrightarrow> hf_curPage h \<noteq> None \<and> (\<exists>ps n. table w nm ps n \<and> n \<le> 3 + int (length T) \<and> mset (map snd (heap_items (file_view w nm) ps)) = mset T \<and> live_obj w nm h ps)"

definition filling :: "'a db_state_scheme \<Rightarrow> 'a db_state_scheme \<Rightarrow> HeapFile \<Rightarrow> byte list list \<Rightarrow> HeapFile \<Rightarrow> byte list list \<Rightarrow> bool" where
  "filling b w hr Tr ha Ta \<longleftrightarrow> db_inv w \<and> spare w 3 \<and> resources w 1 100 \<and> cat_at w RELCATNAME hr Tr \<and> cat_at w ATTRCATNAME ha Ta \<and>
     newAddr w = newAddr b \<and> newCnt w = newCnt b \<and> pins w = pins b \<and> (\<forall>g. open_count w g = open_count b g) \<and> oft_map (openFiles w) = oft_map (openFiles b) \<and>
     (\<forall>m. m \<notin> {RELCATNAME, ATTRCATNAME} \<longrightarrow> oft_map (openFiles b) m = None \<longrightarrow> disk w m = disk b m)"

lemma cat_at_add:
  assumes inv: "db_inv w" and c: "cat_at w nm h T" and t: "table w nm ps n" "mset (map snd (heap_items (file_view w nm) ps)) = mset T" "n \<le> 3 + int (length T)" "live_obj w nm h ps"
    and s: "rec_stored w nm ps rid b ps' w'" "table w' nm ps' n'" "n' \<le> n + 1" and r: "resources w' i N" "4 + int (length T) \<le> N"
  shows "cat_at w' nm h (b # T)"
proof -
  have k: "others_kept w nm (opens w nm) w'" "oft_map (openFiles w') nm = oft_map (openFiles w) nm" "heap_recs (file_view w nm) ps rid = None"
     "heap_recs (file_view w' nm) ps' = (heap_recs (file_view w nm) ps)(rid \<mapsto> b)" "set ps \<subseteq> set ps'" using s(1) unfolding rec_stored_def by blast+
  have cp: "hf_curPage h \<noteq> None" using c by (simp add: cat_at_def)
  have "n' \<le> N" using s(3) t(3) r(2) by simp
  then have "live_obj w' nm h ps'" using live_stays [OF t(4) cp k(1,2) s(2) k(5) r(1)] by blast
  moreover have "mset (map snd (heap_items (file_view w' nm) ps')) = mset (b # T)" using items_add [OF t(1) s(2) k(3,4)] t(2) by simp
  ultimately show ?thesis using cp s(2,3) t(3) unfolding cat_at_def by (intro conjI exI [of _ ps'] exI [of _ n']) simp_all
qed

lemma cat_at_other:
  assumes c: "cat_at w nm h T" and inv: "db_inv w" and k: "others_kept w m j w'" "nm \<noteq> m"
  shows "cat_at w' nm h T"
proof -
  obtain ps n where t: "table w nm ps n" "n \<le> 3 + int (length T)" "mset (map snd (heap_items (file_view w nm) ps)) = mset T" "live_obj w nm h ps" "hf_curPage h \<noteq> None"
    using c by (auto simp: cat_at_def)
  have "live_obj w' nm h ps" by (rule live_work(1) [OF t(4) inv kept_work [OF k(1)]]) (use k(2) in simp)
  then show ?thesis using table_other [OF k(1) inv k(2) t(1)] kept_view [OF k(1) k(2)] t unfolding cat_at_def by auto
qed

text \<open>One more tuple in one of the catalogs.\<close>

lemma filling_kept:
  assumes f: "filling b w hr Tr ha Ta" and s: "rec_stored w nm ps rid rc ps' w'" "nm \<in> {RELCATNAME, ATTRCATNAME}"
    and c: "cat_at w' RELCATNAME hr Tr'" "cat_at w' ATTRCATNAME ha Ta'"
  shows "filling b w' hr Tr' ha Ta'"
proof -
  have w: "db_inv w" "spare w 3" "resources w 1 100" "pins w = pins b" "\<forall>g. open_count w g = open_count b g" "oft_map (openFiles w) = oft_map (openFiles b)"
     "\<forall>m. m \<notin> {RELCATNAME, ATTRCATNAME} \<longrightarrow> oft_map (openFiles b) m = None \<longrightarrow> disk w m = disk b m"
     "cat_at w RELCATNAME hr Tr" "cat_at w ATTRCATNAME ha Ta" "newAddr w = newAddr b" "newCnt w = newCnt b" using f unfolding filling_def by blast+
  have k: "others_kept w nm (opens w nm) w'" "oft_map (openFiles w') nm = oft_map (openFiles w) nm" "pins w' = pins w" "\<forall>g. open_count w' g = open_count w g"
    using s(1) unfolding rec_stored_def by blast+
  have "oft_map (openFiles w) nm \<noteq> None" using w(8,9) s(2) by (auto simp: cat_at_def live_obj_def)
  then have o: "opens w nm = 0" by (simp add: opens_def)
  have "oft_map (openFiles w') = oft_map (openFiles w)"
    by (rule ext, case_tac "x = nm") (use k(1,2) in \<open>simp_all add: others_kept_def\<close>)
  moreover have "\<forall>m. m \<notin> {RELCATNAME, ATTRCATNAME} \<longrightarrow> oft_map (openFiles b) m = None \<longrightarrow> disk w' m = disk b m"
    using k(1) w(6,7) s(2) unfolding others_kept_def by auto
  moreover have "resources w' 1 100" using resources_kept [OF k(1)] w(3) o by simp
  moreover have "spare w' 3" by (rule kept_spare [OF k(1) w(1,2) k(3)])
  ultimately show ?thesis using kept_inv [OF k(1)] k(1,3,4) w(4-6,10,11) o c unfolding filling_def by (simp add: others_kept_def)
qed

lemma fill_rel:
  assumes f: "filling b w hr Tr ha Ta" and rd: "RelDesc_ok rd" and l: "length Tr \<le> 50"
  shows "\<exists>w'. RelCatalog_addInfo w h rd = Some (OK, w') \<and> filling b w' hr (RelDesc_bytes rd # Tr) ha Ta"
proof -
  have w: "db_inv w" "spare w 3" "resources w 1 100" "cat_at w RELCATNAME hr Tr" "cat_at w ATTRCATNAME ha Ta" using f unfolding filling_def by blast+
  obtain ps n where t: "table w RELCATNAME ps n" "n \<le> 3 + int (length Tr)" "mset (map snd (heap_items (file_view w RELCATNAME) ps)) = mset Tr" "live_obj w RELCATNAME hr ps"
    using w(4) by (auto simp: cat_at_def)
  have n: "n + 1 \<le> 100" using t(2) l by simp
  obtain rid w' ps' n' where a: "RelCatalog_addInfo w h rd = Some (OK, w')" "table w' RELCATNAME ps' n'" "n' \<le> n + 1" "rec_stored w RELCATNAME ps rid (RelDesc_bytes rd) ps' w'"
    using RelCatalog_addInfo_spec [OF w(1) t(1) w(3) n w(2) rd, of h] by blast
  have k: "others_kept w RELCATNAME (opens w RELCATNAME) w'" using a(4) unfolding rec_stored_def by blast
  have ne: "ATTRCATNAME \<noteq> RELCATNAME" by (simp add: RELCATNAME_def ATTRCATNAME_def)
  have o: "opens w RELCATNAME = 0" using t(4) by (simp add: live_obj_def opens_def)
  have r: "resources w' 1 100" using resources_kept [OF k] w(3) o by simp
  have c: "cat_at w' RELCATNAME hr (RelDesc_bytes rd # Tr)" by (rule cat_at_add [OF w(1,4) t(1,3,2,4) a(4,2,3) r]) (use l in simp)
  show ?thesis using a(1) filling_kept [OF f a(4) _ c cat_at_other [OF w(5,1) k ne]] by simp
qed

lemma fill_attr:
  assumes f: "filling b w hr Tr ha Ta" and ad: "AttrDesc_ok ad" and l: "length Ta \<le> 50"
  shows "\<exists>w'. AttrCatalog_addInfo w h ad = Some (OK, w') \<and> filling b w' hr Tr ha (AttrDesc_bytes ad # Ta)"
proof -
  have w: "db_inv w" "spare w 3" "resources w 1 100" "cat_at w RELCATNAME hr Tr" "cat_at w ATTRCATNAME ha Ta" using f unfolding filling_def by blast+
  obtain ps n where t: "table w ATTRCATNAME ps n" "n \<le> 3 + int (length Ta)" "mset (map snd (heap_items (file_view w ATTRCATNAME) ps)) = mset Ta" "live_obj w ATTRCATNAME ha ps"
    using w(5) by (auto simp: cat_at_def)
  have n: "n + 1 \<le> 100" using t(2) l by simp
  obtain rid w' ps' n' where a: "AttrCatalog_addInfo w h ad = Some (OK, w')" "table w' ATTRCATNAME ps' n'" "n' \<le> n + 1" "rec_stored w ATTRCATNAME ps rid (AttrDesc_bytes ad) ps' w'"
    using AttrCatalog_addInfo_spec [OF w(1) t(1) w(3) n w(2) ad, of h] by blast
  have k: "others_kept w ATTRCATNAME (opens w ATTRCATNAME) w'" using a(4) unfolding rec_stored_def by blast
  have ne: "RELCATNAME \<noteq> ATTRCATNAME" by (simp add: RELCATNAME_def ATTRCATNAME_def)
  have o: "opens w ATTRCATNAME = 0" using t(4) by (simp add: live_obj_def opens_def)
  have r: "resources w' 1 100" using resources_kept [OF k] w(3) o by simp
  have c: "cat_at w' ATTRCATNAME ha (AttrDesc_bytes ad # Ta)" by (rule cat_at_add [OF w(1,5) t(1,3,2,4) a(4,2,3) r]) (use l in simp)
  show ?thesis using a(1) filling_kept [OF f a(4) _ cat_at_other [OF w(4,1) k ne] c] by simp
qed


section \<open>Opening and closing the catalogs\<close>

definition both_open :: "'a db_state_scheme \<Rightarrow> 'a db_state_scheme \<Rightarrow> HeapFile \<Rightarrow> HeapFile \<Rightarrow> bool" where
  "both_open w b hr ha \<longleftrightarrow> filePtr hr \<noteq> filePtr ha \<and> oft_map (openFiles b) = [RELCATNAME \<mapsto> filePtr hr, ATTRCATNAME \<mapsto> filePtr ha] \<and>
     (\<forall>g q. pins b g q = its_pins hr g q + its_pins ha g q) \<and> (\<forall>g. open_count b g = its_open hr g + its_open ha g) \<and>
     newAddr b = newAddr w \<and> newCnt b = newCnt w + 2 \<and> file_view b = file_view w \<and> (\<forall>m. m \<notin> {RELCATNAME, ATTRCATNAME} \<longrightarrow> disk b m = disk w m)"

lemma rest_unused:
  assumes inv: "db_inv w" and o: "oft_map (openFiles w) = Map.empty"
  shows "pins w g q = 0" "open_count w g = 0"
proof -
  have "files w g = None" using rest_end(1) [OF assms] by (simp add: at_rest_def)
  then show "pins w g q = 0" "open_count w g = 0" using not_open_not_buffered [OF inv] by (simp_all add: pins_def open_count_def)
qed

lemma open_catalogs:
  assumes inv: "db_inv w" and o: "oft_map (openFiles w) = Map.empty" and r: "resources w 3 100" and sp: "spare w 7"
    and t: "tab_with w RELCATNAME Tr" "tab_with w ATTRCATNAME Ta" "length Tr \<le> 50" "length Ta \<le> 50"
  shows "\<exists>hr w1 ha b. RelCatalog_new w h = Some (OK, hr, w1) \<and> AttrCatalog_new w1 h' = Some (OK, ha, b) \<and> both_open w b hr ha \<and> filling b b hr Tr ha Ta"
proof -
  have ne: "RELCATNAME \<noteq> ATTRCATNAME" "ATTRCATNAME \<noteq> RELCATNAME" by (simp_all add: RELCATNAME_def ATTRCATNAME_def)
  obtain psr nr where tr: "table w RELCATNAME psr nr" "nr \<le> 3 + int (length Tr)" "mset (map snd (heap_items (file_view w RELCATNAME) psr)) = mset Tr" using t(1) by (auto simp: tab_with_def)
  obtain psa na where ta: "table w ATTRCATNAME psa na" "na \<le> 3 + int (length Ta)" "mset (map snd (heap_items (file_view w ATTRCATNAME) psa)) = mset Ta" using t(2) by (auto simp: tab_with_def)
  have b: "nr \<le> 100" "na \<le> 100" using tr(2) ta(2) t(3,4) by simp_all
  have w0: "resources w 1 100" "spare w 2" using resources_mono [OF r] sp by (simp_all add: spare_def)
  obtain hr w1 where a: "HeapFile_new w h RELCATNAME = Some (OK, hr, w1)" "table w1 RELCATNAME psr nr" "live_obj w1 RELCATNAME hr psr" "hf_curPage hr \<noteq> None"
     "filePtr hr = handle w RELCATNAME" "others_kept w RELCATNAME (opens w RELCATNAME) w1" "file_view w1 RELCATNAME = file_view w RELCATNAME" "owes w w1 (its_pins hr) (its_open hr)"
    using open_obj [OF inv tr(1) w0(1) b(1) w0(2), of h] by blast
  have one: "opens w RELCATNAME = 1" using o by (simp add: opens_def)
  note inv1 = kept_inv [OF a(6)]
  have "resources w (opens w RELCATNAME + 2) 100" using r one by (simp add: numeral_3_eq_3)
  then have r1: "resources w1 2 100" by (rule resources_kept [OF a(6)])
  have fr: "frames w1 = frames w" using a(6) unfolding others_kept_def by blast
  have "spare w (card (its_pages hr) + 5)" using sp its_pages_facts(2) [of hr] by (simp add: spare_def)
  then have sp1: "spare w1 5" by (intro owes_spare [OF a(8) db_inv_pool [OF inv] fr its_pages_facts(1)]) (use its_pages_facts(3) [of _ _ hr] in fastforce)+
  have w1: "resources w1 1 100" "spare w1 2" using resources_mono [OF r1] sp1 by (simp_all add: spare_def)
  have ta1: "table w1 ATTRCATNAME psa na" by (rule table_other [OF a(6) inv ne(2) ta(1)])
  obtain ha w2 where c: "HeapFile_new w1 h' ATTRCATNAME = Some (OK, ha, w2)" "table w2 ATTRCATNAME psa na" "live_obj w2 ATTRCATNAME ha psa" "hf_curPage ha \<noteq> None"
     "filePtr ha = handle w1 ATTRCATNAME" "others_kept w1 ATTRCATNAME (opens w1 ATTRCATNAME) w2" "file_view w2 ATTRCATNAME = file_view w1 ATTRCATNAME" "owes w1 w2 (its_pins ha) (its_open ha)"
    using open_obj [OF inv1 ta1 w1(1) b(2) w1(2), of h'] by blast
  note inv2 = kept_inv [OF c(6)]
  have o1: "oft_map (openFiles w1) m = (if m = RELCATNAME then Some (filePtr hr) else None)" for m
    using a(3,6) o by (cases "m = RELCATNAME") (simp_all add: live_obj_def others_kept_def)
  then have one': "opens w1 ATTRCATNAME = 1" using ne by (simp add: opens_def)
  have l2: "live_obj w2 RELCATNAME hr psr" by (rule live_work(1) [OF a(3) inv1 kept_work [OF c(6)]]) (use ne in simp)
  have o2: "oft_map (openFiles w2) = [RELCATNAME \<mapsto> filePtr hr, ATTRCATNAME \<mapsto> filePtr ha]"
    by (rule ext, case_tac "x = ATTRCATNAME") (use c(3,6) o1 ne in \<open>simp_all add: live_obj_def others_kept_def\<close>)
  have df: "filePtr hr \<noteq> filePtr ha"
    using open_inj [OF inv2, of RELCATNAME "filePtr hr" ATTRCATNAME] o2 ne by auto
  have v1: "file_view w1 = file_view w" by (rule ext, case_tac "x = RELCATNAME") (use a(7) kept_view [OF a(6)] in simp_all)
  have v2: "file_view w2 = file_view w1" by (rule ext, case_tac "x = ATTRCATNAME") (use c(7) kept_view [OF c(6)] in simp_all)
  note z = rest_unused [OF inv o]
  have pn: "pins w2 g q = its_pins hr g q + its_pins ha g q" "open_count w2 g = its_open hr g + its_open ha g" for g q
    using a(8) c(8) z by (simp_all add: owes_def)
  have dk: "disk w2 m = disk w m" if "m \<notin> {RELCATNAME, ATTRCATNAME}" for m
    using a(6) c(6) o o1 [of m] that by (simp add: others_kept_def)
  have ad: "newAddr w2 = newAddr w" "newCnt w2 = newCnt w + 2" using a(6) c(6) one one' by (simp_all add: others_kept_def)
  have "resources w1 (opens w1 ATTRCATNAME + 1) 100" using r1 one' by (simp add: numeral_2_eq_2)
  then have r2: "resources w2 1 100" by (rule resources_kept [OF c(6)])
  have fr2: "frames w2 = frames w1" using c(6) unfolding others_kept_def by blast
  have "spare w1 (card (its_pages ha) + 3)" using sp1 its_pages_facts(2) [of ha] by (simp add: spare_def)
  then have sp2: "spare w2 3" by (intro owes_spare [OF c(8) db_inv_pool [OF inv1] fr2 its_pages_facts(1)]) (use its_pages_facts(3) [of _ _ ha] in fastforce)+
  have tr2: "table w2 RELCATNAME psr nr" by (rule table_other [OF c(6) inv1 ne(1) a(2)])
  have "cat_at w2 RELCATNAME hr Tr" "cat_at w2 ATTRCATNAME ha Ta"
    using a(4) tr2 tr(2,3) l2 c(2-4) ta(2,3) v1 v2 by (auto simp: cat_at_def)
  then have "filling w2 w2 hr Tr ha Ta" using inv2 sp2 r2 by (simp add: filling_def)
  moreover have "both_open w w2 hr ha" using df o2 pn ad v1 v2 dk by (simp add: both_open_def)
  ultimately show ?thesis using a(1) c(1) by (auto simp: RelCatalog_new_def AttrCatalog_new_def)
qed


text \<open>One of two open files is closed by its last object.\<close>

lemma close_obj:
  assumes inv: "db_inv w" and l: "live_obj w nm h ps" and t: "table w nm ps n" and p: "\<forall>q. pins w (filePtr h) q = own_pins h q" "open_count w (filePtr h) = 1"
  shows "\<exists>h' w'. HeapFile_destroy w h = Some (h', w') \<and> work w {nm} 0 w' \<and> table w' nm ps n \<and> owes w w' (\<lambda>g q. - its_pins h g q) (\<lambda>g. - its_open h g) \<and>
     file_view w' nm = file_view w nm \<and> oft_map (openFiles w') nm = None"
proof -
  have lv: "hf_open w h ps" "oft_map (openFiles w) nm = Some (filePtr h)" using l by (simp_all add: live_obj_def)
  then have v: "file_view w nm = lpage w (filePtr h)" by (simp add: file_view_def)
  have e: "end_page (lpage w (filePtr h)) n" using t v by (simp add: table_def)
  obtain h' w' where d: "HeapFile_destroy w h = Some (h', w')" "finished w h nm w'"
    using HeapFile_destroy_spec [OF inv lv(1) live_file_name [OF l inv]] p(1) by blast
  show ?thesis using d(1) finished_work [OF l inv d(2) e] v p(2) by auto
qed

lemma close_catalogs:
  assumes f: "filling b w hr Tr ha Ta" and b: "both_open w0 b hr ha"
  shows "\<exists>hr' w1 ha' w2. RelCatalog_destroy w hr = Some (hr', w1) \<and> AttrCatalog_destroy w1 ha = Some (ha', w2) \<and> BufMgr_destroy w2 = Some w2 \<and> at_rest w2 \<and>
     tab_with w2 RELCATNAME Tr \<and> tab_with w2 ATTRCATNAME Ta \<and> (\<forall>m \<in> {RELCATNAME, ATTRCATNAME}. file_view w2 m = file_view w m) \<and>
     (\<forall>m. m \<notin> {RELCATNAME, ATTRCATNAME} \<longrightarrow> disk w2 m = disk w0 m) \<and> newAddr w2 = newAddr w0 \<and> newCnt w2 = newCnt w0 + 2"
proof -
  have ne: "RELCATNAME \<noteq> ATTRCATNAME" "ATTRCATNAME \<noteq> RELCATNAME" by (simp_all add: RELCATNAME_def ATTRCATNAME_def)
  have w: "db_inv w" "cat_at w RELCATNAME hr Tr" "cat_at w ATTRCATNAME ha Ta" "pins w = pins b" "\<forall>g. open_count w g = open_count b g" "oft_map (openFiles w) = oft_map (openFiles b)"
     "\<forall>m. m \<notin> {RELCATNAME, ATTRCATNAME} \<longrightarrow> oft_map (openFiles b) m = None \<longrightarrow> disk w m = disk b m" "newAddr w = newAddr b" "newCnt w = newCnt b"
    using f unfolding filling_def by blast+
  have bo: "filePtr hr \<noteq> filePtr ha" "oft_map (openFiles b) = [RELCATNAME \<mapsto> filePtr hr, ATTRCATNAME \<mapsto> filePtr ha]"
     "\<forall>g q. pins b g q = its_pins hr g q + its_pins ha g q" "\<forall>g. open_count b g = its_open hr g + its_open ha g"
     "newAddr b = newAddr w0" "newCnt b = newCnt w0 + 2" "\<forall>m. m \<notin> {RELCATNAME, ATTRCATNAME} \<longrightarrow> disk b m = disk w0 m"
    using b unfolding both_open_def by blast+
  obtain psr nr where tr: "table w RELCATNAME psr nr" "nr \<le> 3 + int (length Tr)" "mset (map snd (heap_items (file_view w RELCATNAME) psr)) = mset Tr" "live_obj w RELCATNAME hr psr"
    using w(2) by (auto simp: cat_at_def)
  obtain psa na where ta: "table w ATTRCATNAME psa na" "na \<le> 3 + int (length Ta)" "mset (map snd (heap_items (file_view w ATTRCATNAME) psa)) = mset Ta" "live_obj w ATTRCATNAME ha psa"
    using w(3) by (auto simp: cat_at_def)
  have "\<forall>q. pins w (filePtr hr) q = own_pins hr q" "open_count w (filePtr hr) = 1" using w(4,5) bo(1,3,4) by (simp_all add: its_pins_def its_open_def)
  from close_obj [OF w(1) tr(4,1) this] obtain hr' w1 where c: "HeapFile_destroy w hr = Some (hr', w1)" "work w {RELCATNAME} 0 w1" "table w1 RELCATNAME psr nr"
     "owes w w1 (\<lambda>g q. - its_pins hr g q) (\<lambda>g. - its_open hr g)" "file_view w1 RELCATNAME = file_view w RELCATNAME" "oft_map (openFiles w1) RELCATNAME = None" by blast
  note k1 = workD [OF c(2)]
  have l1: "live_obj w1 ATTRCATNAME ha psa" by (rule live_work(1) [OF ta(4) w(1) c(2)]) (use ne in simp)
  have t1: "table w1 ATTRCATNAME psa na" by (rule work_table [OF c(2) w(1) _ ta(1)]) (use ne in simp)
  have "\<forall>q. pins w1 (filePtr ha) q = own_pins ha q" "open_count w1 (filePtr ha) = 1"
    using c(4) w(4,5) bo(3,4) by (simp_all add: owes_def its_pins_def its_open_def)
  from close_obj [OF k1(1) l1 t1 this] obtain ha' w2 where d: "HeapFile_destroy w1 ha = Some (ha', w2)" "work w1 {ATTRCATNAME} 0 w2" "table w2 ATTRCATNAME psa na"
     "file_view w2 ATTRCATNAME = file_view w1 ATTRCATNAME" "oft_map (openFiles w2) ATTRCATNAME = None" by blast
  note k2 = workD [OF d(2)]
  have t2: "table w2 RELCATNAME psr nr" by (rule work_table [OF d(2) k1(1) _ c(3)]) (use ne in simp)
  have v: "file_view w2 RELCATNAME = file_view w RELCATNAME" "file_view w2 ATTRCATNAME = file_view w ATTRCATNAME"
    using k1(7) [of ATTRCATNAME] k2(7) [of RELCATNAME] c(5) d(4) ne by simp_all
  have o1: "oft_map (openFiles w1) m = oft_map (openFiles w) m" if "m \<noteq> RELCATNAME" for m using k1(6) [of m] that by simp
  have o2: "oft_map (openFiles w2) m = None" for m
  proof (cases "m = ATTRCATNAME")
    case True
    then show ?thesis using d(5) by simp
  next
    case False
    then have "oft_map (openFiles w2) m = oft_map (openFiles w1) m" using k2(6) [of m] by simp
    then show ?thesis using False c(6) o1 [of m] w(6) bo(2) by (cases "m = RELCATNAME") simp_all
  qed
  have e: "oft_map (openFiles w2) = Map.empty" using o2 by (simp add: fun_eq_iff)
  have "disk w2 m = disk w0 m" if m: "m \<notin> {RELCATNAME, ATTRCATNAME}" for m
    using k1(9) [of m] k2(9) [of m] o1 [of m] w(6,7) bo(2,7) m by simp
  moreover have "tab_with w2 RELCATNAME Tr" "tab_with w2 ATTRCATNAME Ta" using t2 d(3) tr(2,3) ta(2,3) v by (auto simp: tab_with_def)
  moreover have "newAddr w2 = newAddr w0" "newCnt w2 = newCnt w0 + 2" using k1(4,5) k2(4,5) w(8,9) bo(5,6) by simp_all
  ultimately show ?thesis using c(1) d(1) rest_end [OF k2(1) e] v by (auto simp: RelCatalog_destroy_def AttrCatalog_destroy_def)
qed

section \<open>The tuples that describe the catalogs\<close>

definition rel_entry :: "RelDesc \<Rightarrow> string \<times> int" where
  "rel_entry rd = (string_of_bytes (c_string (rd_relName rd)), rd_attrCnt rd)"

definition attr_entry :: "AttrDesc \<Rightarrow> string \<times> string \<times> int \<times> int \<times> int" where
  "attr_entry ad = (string_of_bytes (c_string (ad_relName ad)), string_of_bytes (c_string (ad_attrName ad)), ad_attrOffset ad, ad_attrType ad, ad_attrLen ad)"

text \<open>Attributes stored one behind the other.\<close>

fun laid_out :: "string \<Rightarrow> int \<Rightarrow> (string \<times> int \<times> int) list \<Rightarrow> (string \<times> string \<times> int \<times> int \<times> int) list" where
  "laid_out relation off [] = []"
| "laid_out relation off ((name, ty, len) # rest) = (relation, name, off, ty, len) # laid_out relation (off + len) rest"

definition short_name :: "string \<Rightarrow> bool" where
  "short_name s \<longleftrightarrow> (0 :: byte) \<notin> of_char ` set s \<and> length s < MAXNAME"

lemma strcpy_short:
  assumes s: "short_name s" and d: "length dst = MAXNAME"
  shows "\<exists>r. strcpy dst (string_buf s) = Some r \<and> length r = MAXNAME \<and> string_of_bytes (c_string r) = s"
proof -
  have z: "(0 :: byte) \<notin> set (map of_char s)" "length s < MAXNAME" using s by (simp_all add: short_name_def)
  have tw: "takeWhile (\<lambda>b. b \<noteq> 0) (map of_char s @ 0 # ys) = (map of_char s :: byte list)" for ys
    using z(1) by (subst takeWhile_append2) auto
  have "zstring (string_buf s) = Some (map of_char s)" using tw [of "[]"] by (simp add: zstring_def string_buf_def)
  then show ?thesis using z(2) d tw by (simp add: strcpy_def c_string_def string_of_chars)
qed

lemma add_attrs_spec:
  assumes "filling b w hr Tr ha Ta" "length (ad_relName ad) = MAXNAME" "string_of_bytes (c_string (ad_relName ad)) = relation" "length (ad_attrName ad) = MAXNAME"
    and "\<forall>(name, ty, len) \<in> set xs. short_name name \<and> int_ok ty \<and> 0 \<le> len" "0 \<le> off" "off + (\<Sum>(name, ty, len) \<leftarrow> xs. len) < 2147483648" "length Ta + length xs \<le> 50"
  shows "\<exists>ad' w' ads. add_attrs w h ad off xs = Some (Inr (ad', w')) \<and> filling b w' hr Tr ha (rev (map AttrDesc_bytes ads) @ Ta) \<and> map attr_entry ads = laid_out relation off xs \<and>
     length (ad_relName ad') = MAXNAME \<and> length (ad_attrName ad') = MAXNAME \<and> (\<forall>a \<in> set ads. AttrDesc_ok a)"
  using assms
proof (induction xs arbitrary: w ad Ta off)
  case Nil
  then show ?case by (intro exI [of _ ad] exI [of _ w] exI [of _ "[]"]) simp
next
  case (Cons x xs)
  obtain name ty len where x: "x = (name, ty, len)" by (cases x)
  have xs: "\<forall>(name, ty, len) \<in> set xs. short_name name \<and> int_ok ty \<and> 0 \<le> len" and p: "short_name name" "int_ok ty" "0 \<le> len" using Cons.prems(5) x by auto
  have pos: "0 \<le> (\<Sum>(name, ty, len) \<leftarrow> xs. len)" using xs by (intro sum_list_nonneg) auto
  have rng: "off + len + (\<Sum>(name, ty, len) \<leftarrow> xs. len) < 2147483648" using Cons.prems(7) x by simp
  have io: "int_ok off" "int_ok len" using Cons.prems(6) p(3) pos rng by (simp_all add: int_ok_def)
  obtain r where r: "strcpy (ad_attrName ad) (string_buf name) = Some r" "length r = MAXNAME" "string_of_bytes (c_string r) = name"
    using strcpy_short [OF p(1) Cons.prems(4)] by blast
  let ?ad = "ad\<lparr>ad_attrName := r, ad_attrOffset := off, ad_attrType := ty, ad_attrLen := len\<rparr>"
  have ok: "AttrDesc_ok ?ad" using Cons.prems(2) r(2) io p(2) by (simp add: AttrDesc_ok_def)
  obtain w1 where a: "AttrCatalog_addInfo w h ?ad = Some (OK, w1)" "filling b w1 hr Tr ha (AttrDesc_bytes ?ad # Ta)"
    using fill_attr [OF Cons.prems(1) ok, of h] Cons.prems(8) by auto
  have q: "length (ad_relName ?ad) = MAXNAME" "string_of_bytes (c_string (ad_relName ?ad)) = relation" "length (ad_attrName ?ad) = MAXNAME" using Cons.prems(2,3) r(2) by simp_all
  have q2: "0 \<le> off + len" "length (AttrDesc_bytes ?ad # Ta) + length xs \<le> 50" using Cons.prems(6,8) p(3) by simp_all
  obtain ad' w' ads where i: "add_attrs w1 h ?ad (off + len) xs = Some (Inr (ad', w'))" "filling b w' hr Tr ha (rev (map AttrDesc_bytes ads) @ AttrDesc_bytes ?ad # Ta)"
     "map attr_entry ads = laid_out relation (off + len) xs" "length (ad_relName ad') = MAXNAME" "length (ad_attrName ad') = MAXNAME" "\<forall>a \<in> set ads. AttrDesc_ok a"
    using Cons.IH [OF a(2) q xs q2(1) rng q2(2)] by blast
  have e: "attr_entry ?ad = (relation, name, off, ty, len)" using Cons.prems(3) r(3) by (simp add: attr_entry_def)
  show ?case using r(1) a(1) i ok e x by (intro exI [of _ ad'] exI [of _ w'] exI [of _ "?ad # ads"]) simp
qed


section \<open>dbcreate\<close>

definition catalog_rels :: "(string \<times> int) list" where
  "catalog_rels = [(RELCATNAME, 2), (ATTRCATNAME, 5)]"

definition catalog_attrs :: "(string \<times> string \<times> int \<times> int \<times> int) list" where
  "catalog_attrs = laid_out RELCATNAME 0 [(''relName'', 0, 32), (''attrCnt'', 1, 4)] @
     laid_out ATTRCATNAME 0 [(''relName'', 0, 32), (''attrName'', 0, 32), (''attrOffset'', 1, 4), (''attrType'', 1, 4), (''attrLen'', 1, 4)]"

text \<open>The two catalogs on a disk that nobody uses.\<close>

definition catalogs_of :: "'a db_state_scheme \<Rightarrow> RelDesc list \<Rightarrow> AttrDesc list \<Rightarrow> bool" where
  "catalogs_of w rds ads \<longleftrightarrow> at_rest w \<and> tab_with w RELCATNAME (map RelDesc_bytes rds) \<and> tab_with w ATTRCATNAME (map AttrDesc_bytes ads)"

lemma tab_with_mset: "tab_with w nm T \<Longrightarrow> mset T = mset T' \<Longrightarrow> tab_with w nm T'"
  unfolding tab_with_def by (metis mset_eq_length)

lemma catalogs_created:
  assumes inv: "db_inv w" and o: "oft_map (openFiles w) = Map.empty" and d: "disk w RELCATNAME = None" "disk w ATTRCATNAME = None" and r: "resources w 7 100" and sp: "spare w 7"
  shows "\<exists>w1 w2. createHeapFile w RELCATNAME = Some (OK, w1) \<and> createHeapFile w1 ATTRCATNAME = Some (OK, w2) \<and> db_inv w2 \<and> oft_map (openFiles w2) = Map.empty \<and>
     resources w2 3 100 \<and> spare w2 7 \<and> tab_with w2 RELCATNAME [] \<and> tab_with w2 ATTRCATNAME [] \<and> newAddr w2 = newAddr w \<and> newCnt w2 = newCnt w + 4 \<and>
     (\<forall>m. m \<notin> {RELCATNAME, ATTRCATNAME} \<longrightarrow> disk w2 m = disk w m)"
proof -
  have ne: "RELCATNAME \<noteq> ATTRCATNAME" "ATTRCATNAME \<noteq> RELCATNAME" "RELCATNAME \<noteq> []" "ATTRCATNAME \<noteq> []" by (simp_all add: RELCATNAME_def ATTRCATNAME_def)
  have e: "tab_with w' nm []" if "table w' nm [2] 3" "heap_recs (file_view w' nm) [2] = Map.empty" for w' :: "'a db_state_scheme" and nm
  proof -
    have "tuples w' nm [2] = {}" using that(2) by (simp add: tuples_def)
    then have "heap_items (file_view w' nm) [2] = []" using table_tuples [OF that(1)] by simp
    then show ?thesis using that(1) by (auto simp: tab_with_def)
  qed
  have r0: "resources w 2 100" "spare w 2" using resources_mono [OF r] sp by (simp_all add: spare_def)
  obtain w1 where a: "createHeapFile w RELCATNAME = Some (OK, w1)" "table w1 RELCATNAME [2] 3" "heap_recs (file_view w1 RELCATNAME) [2] = Map.empty" "others_kept w RELCATNAME 2 w1"
     "pins w1 = pins w" "oft_map (openFiles w1) = oft_map (openFiles w)" using table_create [OF inv ne(3) d(1) _ r0(2) r0(1)] by auto
  note inv1 = kept_inv [OF a(4)]
  have "resources w (2 + 5) 100" using r by simp
  then have r1: "resources w1 5 100" by (rule resources_kept [OF a(4)])
  have r1': "resources w1 2 100" by (rule resources_mono [OF r1]) simp
  have s1: "spare w1 7" by (rule kept_spare [OF a(4) inv sp a(5)])
  then have s1': "spare w1 2" by (simp add: spare_def)
  have d1: "disk w1 ATTRCATNAME = None" using a(4) d(2) o ne by (simp add: others_kept_def)
  obtain w2 where b: "createHeapFile w1 ATTRCATNAME = Some (OK, w2)" "table w2 ATTRCATNAME [2] 3" "heap_recs (file_view w2 ATTRCATNAME) [2] = Map.empty" "others_kept w1 ATTRCATNAME 2 w2"
     "pins w2 = pins w1" "oft_map (openFiles w2) = oft_map (openFiles w1)" using table_create [OF inv1 ne(4) d1 _ s1' r1'] by auto
  have "resources w1 (2 + 3) 100" using r1 by simp
  then have r2: "resources w2 3 100" by (rule resources_kept [OF b(4)])
  have s2: "spare w2 7" by (rule kept_spare [OF b(4) inv1 s1 b(5)])
  have t: "table w2 RELCATNAME [2] 3" "file_view w2 RELCATNAME = file_view w1 RELCATNAME"
    using table_other [OF b(4) inv1 ne(1) a(2)] kept_view [OF b(4) ne(1)] by blast+
  have k: "newAddr w2 = newAddr w" "newCnt w2 = newCnt w + 4" using a(4) b(4) by (simp_all add: others_kept_def)
  have dk: "disk w2 m = disk w m" if "m \<notin> {RELCATNAME, ATTRCATNAME}" for m using a(4,6) b(4) o that by (simp add: others_kept_def)
  show ?thesis using a(1) b(1) kept_inv [OF b(4)] a(6) b(6) o r2 s2 e [OF b(2,3)] e [OF t(1)] a(3) t(2) k dk by auto
qed

lemma dbcreate_spec:
  assumes rest: "at_rest w" and d: "disk w RELCATNAME = None" "disk w ATTRCATNAME = None" and r: "resources (with_pool w) 7 100"
    and mem: "length (rd_relName rd) = MAXNAME" "length (ad_relName ad) = MAXNAME" "length (ad_attrName ad) = MAXNAME"
  shows "\<exists>w' rds ads. dbcreate_main rd ad w h = Some (Inr w') \<and> catalogs_of w' rds ads \<and> map rel_entry rds = catalog_rels \<and> map attr_entry ads = catalog_attrs \<and>
     (\<forall>a \<in> set ads. AttrDesc_ok a) \<and> (\<forall>m. m \<notin> {RELCATNAME, ATTRCATNAME} \<longrightarrow> disk w' m = disk w m) \<and> newAddr w' = newAddr w \<and> newCnt w' = newCnt w + 6"
proof -
  let ?w = "with_pool w"
  have o: "oft_map (openFiles ?w) = Map.empty" "disk ?w RELCATNAME = None" "disk ?w ATTRCATNAME = None" using rest d by (simp_all add: at_rest_def)
  obtain w1 w2 where c: "createHeapFile ?w RELCATNAME = Some (OK, w1)" "createHeapFile w1 ATTRCATNAME = Some (OK, w2)" "db_inv w2" "oft_map (openFiles w2) = Map.empty"
     "resources w2 3 100" "spare w2 7" "tab_with w2 RELCATNAME []" "tab_with w2 ATTRCATNAME []" "newAddr w2 = newAddr w" "newCnt w2 = newCnt w + 4"
     "\<forall>m. m \<notin> {RELCATNAME, ATTRCATNAME} \<longrightarrow> disk w2 m = disk w m"
    using catalogs_created [OF rest_start(1) [OF rest] o r rest_start(3) [OF rest]] by auto
  obtain hr w3 ha w4 where p: "RelCatalog_new w2 h = Some (OK, hr, w3)" "AttrCatalog_new w3 h = Some (OK, ha, w4)" "both_open w2 w4 hr ha" "filling w4 w4 hr [] ha []"
    using open_catalogs [OF c(3-8), of h h] by auto
  have sn: "short_name RELCATNAME" "short_name ATTRCATNAME" by code_simp+
  obtain r1 where n1: "strcpy (rd_relName rd) (string_buf RELCATNAME) = Some r1" "length r1 = MAXNAME" "string_of_bytes (c_string r1) = RELCATNAME"
    using strcpy_short [OF sn(1) mem(1)] by blast
  let ?rd1 = "\<lparr>rd_relName = r1, rd_attrCnt = 2\<rparr>"
  have ok1: "RelDesc_ok ?rd1" using n1(2) by (simp add: RelDesc_ok_def int_ok_def)
  obtain w5 where a1: "RelCatalog_addInfo w4 h ?rd1 = Some (OK, w5)" "filling w4 w5 hr [RelDesc_bytes ?rd1] ha []" using fill_rel [OF p(4) ok1, of h] by auto
  obtain s1 where n2: "strcpy (ad_relName ad) (string_buf RELCATNAME) = Some s1" "length s1 = MAXNAME" "string_of_bytes (c_string s1) = RELCATNAME"
    using strcpy_short [OF sn(1) mem(2)] by blast
  let ?ad1 = "ad\<lparr>ad_relName := s1\<rparr>" and ?xs1 = "[(''relName'', 0, 32), (''attrCnt'', 1, 4)] :: (string \<times> int \<times> int) list"
  have x1: "\<forall>(name, ty, len) \<in> set ?xs1. short_name name \<and> int_ok ty \<and> 0 \<le> len" by code_simp
  have m1: "length (ad_relName ?ad1) = MAXNAME" "string_of_bytes (c_string (ad_relName ?ad1)) = RELCATNAME" "length (ad_attrName ?ad1) = MAXNAME" using n2(2,3) mem(3) by simp_all
  have z1: "(0 :: int) \<le> 0" "0 + (\<Sum>(name, ty, len) \<leftarrow> ?xs1. len) < 2147483648" "length ([] :: byte list list) + length ?xs1 \<le> 50" by simp_all
  obtain ad2 w6 ads1 where a2: "add_attrs w5 h ?ad1 0 ?xs1 = Some (Inr (ad2, w6))" "filling w4 w6 hr [RelDesc_bytes ?rd1] ha (rev (map AttrDesc_bytes ads1) @ [])"
     "map attr_entry ads1 = laid_out RELCATNAME 0 ?xs1" "length (ad_relName ad2) = MAXNAME" "length (ad_attrName ad2) = MAXNAME" "\<forall>a \<in> set ads1. AttrDesc_ok a"
    using add_attrs_spec [OF a1(2) m1 x1 z1, of h] by blast
  obtain r2 where n3: "strcpy r1 (string_buf ATTRCATNAME) = Some r2" "length r2 = MAXNAME" "string_of_bytes (c_string r2) = ATTRCATNAME"
    using strcpy_short [OF sn(2) n1(2)] by blast
  let ?rd2 = "\<lparr>rd_relName = r2, rd_attrCnt = 5\<rparr>"
  have ok2: "RelDesc_ok ?rd2" using n3(2) by (simp add: RelDesc_ok_def int_ok_def)
  obtain w7 where a3: "RelCatalog_addInfo w6 h ?rd2 = Some (OK, w7)" "filling w4 w7 hr [RelDesc_bytes ?rd2, RelDesc_bytes ?rd1] ha (rev (map AttrDesc_bytes ads1))"
    using fill_rel [OF a2(2) ok2, of h] by auto
  obtain s2 where n4: "strcpy (ad_relName ad2) (string_buf ATTRCATNAME) = Some s2" "length s2 = MAXNAME" "string_of_bytes (c_string s2) = ATTRCATNAME"
    using strcpy_short [OF sn(2) a2(4)] by blast
  let ?ad3 = "ad2\<lparr>ad_relName := s2\<rparr>"
    and ?xs2 = "[(''relName'', 0, 32), (''attrName'', 0, 32), (''attrOffset'', 1, 4), (''attrType'', 1, 4), (''attrLen'', 1, 4)] :: (string \<times> int \<times> int) list"
  have x2: "\<forall>(name, ty, len) \<in> set ?xs2. short_name name \<and> int_ok ty \<and> 0 \<le> len" by code_simp
  have m2: "length (ad_relName ?ad3) = MAXNAME" "string_of_bytes (c_string (ad_relName ?ad3)) = ATTRCATNAME" "length (ad_attrName ?ad3) = MAXNAME" using n4(2,3) a2(5) by simp_all
  have l1: "length ads1 = 2" using arg_cong [OF a2(3), of length] by simp
  have z2: "(0 :: int) \<le> 0" "0 + (\<Sum>(name, ty, len) \<leftarrow> ?xs2. len) < 2147483648" "length (rev (map AttrDesc_bytes ads1)) + length ?xs2 \<le> 50" using l1 by simp_all
  obtain ad4 w8 ads2 where a4: "add_attrs w7 h ?ad3 0 ?xs2 = Some (Inr (ad4, w8))"
     "filling w4 w8 hr [RelDesc_bytes ?rd2, RelDesc_bytes ?rd1] ha (rev (map AttrDesc_bytes ads2) @ rev (map AttrDesc_bytes ads1))"
     "map attr_entry ads2 = laid_out ATTRCATNAME 0 ?xs2" "\<forall>a \<in> set ads2. AttrDesc_ok a"
    using add_attrs_spec [OF a3(2) m2 x2 z2, of h] by blast
  obtain hr' w9 ha' w' where e: "RelCatalog_destroy w8 hr = Some (hr', w9)" "AttrCatalog_destroy w9 ha = Some (ha', w')" "BufMgr_destroy w' = Some w'" "at_rest w'"
     "tab_with w' RELCATNAME [RelDesc_bytes ?rd2, RelDesc_bytes ?rd1]" "tab_with w' ATTRCATNAME (rev (map AttrDesc_bytes ads2) @ rev (map AttrDesc_bytes ads1))"
     "\<forall>m. m \<notin> {RELCATNAME, ATTRCATNAME} \<longrightarrow> disk w' m = disk w2 m" "newAddr w' = newAddr w2" "newCnt w' = newCnt w2 + 2"
    using close_catalogs [OF a4(2) p(3)] by blast
  have t: "tab_with w' RELCATNAME (map RelDesc_bytes [?rd1, ?rd2])" "tab_with w' ATTRCATNAME (map AttrDesc_bytes (ads1 @ ads2))"
    by (rule tab_with_mset [OF e(5)] tab_with_mset [OF e(6)]; simp)+
  have run: "dbcreate_main rd ad w h = Some (Inr w')"
    using c(1,2) p(1,2) n1(1) a1(1) n2(1) a2(1) n3(1) a3(1) n4(1) a4(1) e(1-3)
    by (simp add: dbcreate_main_def with_pool_def RELCATNAME_def ATTRCATNAME_def del: add_attrs.simps)
  have "map rel_entry [?rd1, ?rd2] = catalog_rels" using n1(3) n3(3) by (simp add: rel_entry_def catalog_rels_def)
  moreover have "map attr_entry (ads1 @ ads2) = catalog_attrs" using a2(3) a4(3) by (simp add: catalog_attrs_def del: laid_out.simps)
  moreover have "catalogs_of w' [?rd1, ?rd2] (ads1 @ ads2)" using e(4) t by (simp add: catalogs_of_def)
  moreover have "\<forall>a \<in> set (ads1 @ ads2). AttrDesc_ok a" using a2(6) a4(4) by auto
  ultimately show ?thesis using run e(7-9) c(9-11) by (intro exI [of _ w'] exI [of _ "[?rd1, ?rd2]"] exI [of _ "ads1 @ ads2"]) simp
qed


text \<open>
  (C4) \<open>dbcreate\<close>, run where nobody has a file open and the two catalogs do not exist, succeeds with every
  call: afterwards the relation catalog has exactly the tuples of the two catalogs, the attribute catalog
  exactly the seven tuples of their attributes, one behind the other from offset 0, everything is on the
  disk, no file is open and no other file has changed.
\<close>

theorem dbcreate_correct:
  assumes "at_rest w" "disk w RELCATNAME = None" "disk w ATTRCATNAME = None" "resources (with_pool w) 7 100"
    and "length (rd_relName rd) = MAXNAME" "length (ad_relName ad) = MAXNAME" "length (ad_attrName ad) = MAXNAME"
  shows "\<exists>w' rds ads. dbcreate_main rd ad w h = Some (Inr w') \<and> catalogs_of w' rds ads \<and> map rel_entry rds = catalog_rels \<and> map attr_entry ads = catalog_attrs \<and>
     (\<forall>m. m \<notin> {RELCATNAME, ATTRCATNAME} \<longrightarrow> disk w' m = disk w m)"
  using dbcreate_spec [OF assms, of h] by blast

text \<open>The addresses that are left after an earlier program.\<close>

lemma resources_later:
  assumes "at_rest w" "at_rest w'" "newAddr w' = newAddr w" "newCnt w' = newCnt w + j" and r: "resources (with_pool w) (j + k) N"
  shows "resources (with_pool w') k N"
proof -
  have h: "hashTable (with_pool w') = hashTable (with_pool w)" by (simp add: with_pool_def BufMgr_new_def)
  have f: "files w = Map.empty" "files w' = Map.empty" "oft_map (openFiles w) = Map.empty" "oft_map (openFiles w') = Map.empty" using assms(1,2) by (simp_all add: at_rest_def)
  have "addresses (with_pool w') k N" using r f assms(3,4) h by (simp add: resources_def addresses_def Let_def add.assoc)
  moreover have "inj_on (\<lambda>i. newAddr w (newCnt w + j + i)) {..<k}"
  proof (rule inj_onI)
    fix x y assume a: "x \<in> {..<k}" "y \<in> {..<k}" "newAddr w (newCnt w + j + x) = newAddr w (newCnt w + j + y)"
    have "inj_on (\<lambda>i. newAddr w (newCnt w + i)) {..<j + k}" using r by (simp add: resources_def)
    from inj_onD [OF this, of "j + x" "j + y"] show "x = y" using a by (simp add: add.assoc)
  qed
  ultimately show ?thesis using f assms(3,4) by (simp add: resources_def)
qed

definition blank_rd :: RelDesc where
  "blank_rd = \<lparr>rd_relName = replicate 32 0, rd_attrCnt = 0\<rparr>"

definition blank_ad :: AttrDesc where
  "blank_ad = \<lparr>ad_relName = replicate 32 0, ad_attrName = replicate 32 0, ad_attrOffset = 0, ad_attrType = 0, ad_attrLen = 0\<rparr>"

lemma blank_len: "length (rd_relName blank_rd) = MAXNAME" "length (ad_relName blank_ad) = MAXNAME" "length (ad_attrName blank_ad) = MAXNAME"
  by (simp_all add: blank_rd_def blank_ad_def)

lemma empty_db_rest: "at_rest (empty_db 100)" "disk (empty_db 100) m = None" "k \<le> 100 \<Longrightarrow> resources (with_pool (empty_db 100)) k 100"
proof -
  have e: "db_inv (empty_db 100)" "oft_map (openFiles (empty_db 100)) = Map.empty" "disk (empty_db 100) = Map.empty" using empty_db_inv [of 100] by simp_all
  show "at_rest (empty_db 100)" by (rule rest_end(1) [OF e(1,2)])
  show "disk (empty_db 100) m = None" using e(3) by simp
  have "with_pool (empty_db 100) = empty_db 100" by (simp add: with_pool_def empty_db_def BufMgr_new_def)
  then show "resources (with_pool (empty_db 100)) k 100" if "k \<le> 100" using empty_db_resources [of 100 k 100] that by simp
qed

theorem dbcreate_correct_witness:
  "\<exists>w' rds ads. dbcreate_main blank_rd blank_ad (empty_db 100) new_object = Some (Inr w') \<and> catalogs_of w' rds ads \<and> map rel_entry rds = [(''relcat'', 2), (''attrcat'', 5)] \<and>
     length ads = 7"
proof -
  obtain w' rds ads where c: "dbcreate_main blank_rd blank_ad (empty_db 100) new_object = Some (Inr w')" "catalogs_of w' rds ads" "map rel_entry rds = catalog_rels" "map attr_entry ads = catalog_attrs"
    using dbcreate_correct [OF empty_db_rest(1,2,2) empty_db_rest(3) blank_len, of new_object] by auto
  have "length ads = 7" using arg_cong [OF c(4), of length] by (simp add: catalog_attrs_def)
  then show ?thesis using c(1-3) by (intro exI [of _ w'] exI [of _ rds] exI [of _ ads]) (simp add: catalog_rels_def RELCATNAME_def ATTRCATNAME_def)
qed

text \<open>
  (C14) \<open>minirel\<close> on a database with catalogs: the start opens both catalogs without a change to any file, and
  \<open>UT_Quit\<close> closes them and deletes the buffer manager; afterwards no file is open and every file is on the
  disk as it was.
\<close>

theorem start_quit_correct:
  assumes "catalogs_of w rds ads" "length rds \<le> 50" "length ads \<le> 50" "resources (with_pool w) 3 100"
  shows "\<exists>relCat attrCat w1 w2. minirel_start w h h' = Some (Inr (relCat, attrCat, w1)) \<and> db_inv w1 \<and> file_view w1 = file_view w \<and>
     oft_map (openFiles w1) = [RELCATNAME \<mapsto> filePtr relCat, ATTRCATNAME \<mapsto> filePtr attrCat] \<and>
     UT_Quit w1 relCat attrCat = Some w2 \<and> catalogs_of w2 rds ads \<and> file_view w2 = file_view w"
proof -
  have c: "at_rest w" "tab_with w RELCATNAME (map RelDesc_bytes rds)" "tab_with w ATTRCATNAME (map AttrDesc_bytes ads)" using assms(1) by (simp_all add: catalogs_of_def)
  note s = rest_start [OF c(1)]
  have v: "file_view (with_pool w) = file_view w" using s(4,5) by simp
  have u: "file_used (with_pool w) m = file_used w m" for m by (simp add: file_used_def)
  have "table (with_pool w) m ps n = table w m ps n" for m ps n using c(1) v u by (simp add: table_def stored_heap_def at_rest_def)
  then have t: "tab_with (with_pool w) RELCATNAME (map RelDesc_bytes rds)" "tab_with (with_pool w) ATTRCATNAME (map AttrDesc_bytes ads)" using c(2,3) v by (simp_all add: tab_with_def)
  have o: "oft_map (openFiles (with_pool w)) = Map.empty" "spare (with_pool w) 7" using c(1) s(3) [of 7] by (simp_all add: at_rest_def)
  have l: "length (map RelDesc_bytes rds) \<le> 50" "length (map AttrDesc_bytes ads) \<le> 50" using assms(2,3) by simp_all
  obtain hr w0 ha b where p: "RelCatalog_new (with_pool w) h = Some (OK, hr, w0)" "AttrCatalog_new w0 h' = Some (OK, ha, b)" "both_open (with_pool w) b hr ha"
     "filling b b hr (map RelDesc_bytes rds) ha (map AttrDesc_bytes ads)"
    using open_catalogs [OF s(1) o(1) assms(4) o(2) t l, of h h'] by blast
  have b: "db_inv b" "file_view b = file_view w" "oft_map (openFiles b) = [RELCATNAME \<mapsto> filePtr hr, ATTRCATNAME \<mapsto> filePtr ha]"
    using p(3,4) v by (simp_all add: both_open_def filling_def)
  obtain hr' w3 ha' w2 where q: "RelCatalog_destroy b hr = Some (hr', w3)" "AttrCatalog_destroy w3 ha = Some (ha', w2)" "BufMgr_destroy w2 = Some w2" "at_rest w2"
     "tab_with w2 RELCATNAME (map RelDesc_bytes rds)" "tab_with w2 ATTRCATNAME (map AttrDesc_bytes ads)" "\<forall>m \<in> {RELCATNAME, ATTRCATNAME}. file_view w2 m = file_view b m"
     "\<forall>m. m \<notin> {RELCATNAME, ATTRCATNAME} \<longrightarrow> disk w2 m = disk (with_pool w) m"
    using close_catalogs [OF p(4,3)] by blast
  have "file_view w2 m = file_view w m" for m
  proof (cases "m \<in> {RELCATNAME, ATTRCATNAME}")
    case True
    then show ?thesis using q(7) b(2) by auto
  next
    case False
    then have "disk w2 m = disk w m" using q(8) by simp
    then show ?thesis unfolding rest_start(5) [OF c(1)] rest_start(5) [OF q(4)] by (simp add: name_page_def fun_eq_iff)
  qed
  then have "file_view w2 = file_view w" by (simp add: fun_eq_iff)
  moreover have "minirel_start w h h' = Some (Inr (hr, ha, b))" using p(1,2) by (simp add: minirel_start_def with_pool_def)
  moreover have "UT_Quit b hr ha = Some w2" using q(1-3) by (simp add: UT_Quit_def)
  ultimately show ?thesis using b q(4-6) by (auto simp: catalogs_of_def)
qed

theorem start_quit_correct_witness:
  "\<exists>w relCat attrCat w1 w2. dbcreate_main blank_rd blank_ad (empty_db 100) new_object = Some (Inr w) \<and> minirel_start w new_object new_object = Some (Inr (relCat, attrCat, w1)) \<and>
     UT_Quit w1 relCat attrCat = Some w2 \<and> file_view w2 = file_view w"
proof -
  obtain w rds ads where c: "dbcreate_main blank_rd blank_ad (empty_db 100) new_object = Some (Inr w)" "catalogs_of w rds ads" "map rel_entry rds = catalog_rels" "map attr_entry ads = catalog_attrs"
     "newAddr w = newAddr (empty_db 100)" "newCnt w = newCnt (empty_db 100) + 6"
    using dbcreate_spec [OF empty_db_rest(1,2,2) empty_db_rest(3) blank_len, of new_object] by auto
  have l: "length rds \<le> 50" "length ads \<le> 50" using arg_cong [OF c(3), of length] arg_cong [OF c(4), of length] by (simp_all add: catalog_rels_def catalog_attrs_def)
  have r: "resources (with_pool w) 3 100"
    by (rule resources_later [OF empty_db_rest(1) _ c(5,6)]) (use c(2) empty_db_rest(3) in \<open>simp_all add: catalogs_of_def\<close>)
  show ?thesis using c(1) start_quit_correct [OF c(2) l r, of new_object new_object] by blast
qed

end
