(* ===== verification/Spec2Isabelle.thy ===== *)
theory Spec2Isabelle
  imports CatalogProps JoinNLProps SortProps PrintProps BootProps
begin

text \<open>
  Minirel is a small relational database system in C++ (the files under \<open>src/\<close>). From the bottom up:

  \<^item> \<open>File\<close> and \<open>DB\<close> (\<open>db.h\<close>, \<open>db.cpp\<close>) keep Unix files of 1024-byte pages with a header page and a list
    of free pages, and a hash table of the files that are open, with a count for each.
  \<^item> \<open>BufMgr\<close> (\<open>buf.h\<close>, \<open>buf.cpp\<close>, \<open>bufHash.cpp\<close>) is a pool of frames with pin counts, dirty bits and a
    clock that chooses the frame to reuse; all pages are read and written through it.
  \<^item> \<open>Page\<close> (\<open>page.h\<close>, \<open>page.cpp\<close>) lays records out on a page, with a slot array that grows from the end.
  \<^item> \<open>HeapFile\<close>, \<open>HeapFileScan\<close>, \<open>InsertFileScan\<close> (\<open>heapfile.h\<close>, \<open>heapfile.cpp\<close>) make files of records on a
    chain of pages, with filtered scans.
  \<^item> \<open>RelCatalog\<close> and \<open>AttrCatalog\<close> (\<open>catalog.h\<close>, \<open>catalog.cpp\<close>, \<open>create.cpp\<close>, \<open>destroy.cpp\<close>) are two heap
    files that describe the relations and their attributes.
  \<^item> On top are the utilities (\<open>load.cpp\<close>, \<open>print.cpp\<close>, \<open>help.cpp\<close>, \<open>quit.cpp\<close>), sorting (\<open>sort.h\<close>, \<open>sort.cpp\<close>),
    the queries (\<open>query.h\<close>, \<open>select.cpp\<close>, \<open>join.cpp\<close>, \<open>insert.cpp\<close>, \<open>delete.cpp\<close>, \<open>partition.h\<close>,
    \<open>partition.cpp\<close>, \<open>joinHT.h\<close>, \<open>joinHT.cpp\<close>) and the programs \<open>dbcreate\<close>, \<open>minirel\<close>, \<open>dbdestroy\<close>.

  \<^bold>\<open>The model.\<close> Each theory named after a component holds the translation of its source, one definition for
  each function or loop, in the order of the code:

  \<^item> \<open>Prelude\<close>: bytes in memory, little-endian integers, the wrap-around of 16- and 32-bit arithmetic.
  \<^item> \<open>ErrorCodes\<close>: \<open>Status\<close>, its values and messages.
  \<^item> \<open>Page\<close>: a page is its 1024 bytes, header fields and slots are read and written at their offsets.
  \<^item> \<open>FileLayer\<close>: disk, descriptors and \<open>File\<close> objects (\<open>fs_state\<close>); \<open>intread\<close>, \<open>intwrite\<close>, page allocation. The
    disk has the names that \<open>c_str()\<close> gives, up to the first zero byte (\<open>unix_name\<close>); the names that \<open>sort.cpp\<close> and
    \<open>partition.cpp\<close> make end in such a byte.
  \<^item> \<open>BufHash\<close>, \<open>Buf\<close>: the hash table and the operations of the pool (\<open>buf_state\<close> extends \<open>fs_state\<close>).
  \<^item> \<open>DB\<close>: the table of open files and the class \<open>DB\<close> (\<open>db_state\<close> extends \<open>buf_state\<close>).
  \<^item> \<open>HeapFile\<close>: objects are records that are passed and returned; pages are changed through frame pointers.
  \<^item> \<open>Catalog\<close>, \<open>Schema\<close>, \<open>Utilities\<close>, \<open>Sort\<close>, \<open>JoinHT\<close>, \<open>Query\<close>: the layers above, on \<open>db_state\<close>.

  An operation takes the state and returns an option: \<open>None\<close> stands for behaviour the language leaves
  undefined (an access outside an object, a missing \<open>return\<close>, a read through a null pointer) and for loops
  that do not end; a \<open>Status\<close> is part of the result. Integers are mathematical integers with the
  wrap-around of their width written out where values can leave it; overflow of \<open>int\<close> is taken to wrap, as
  compiled code does. Memory that is not initialised, addresses returned by \<open>new\<close> and the result of \<open>qsort\<close> are
  parameters. Loops that may not end are \<open>partial_function (option)\<close>, and that they do end is part of
  the properties about them; no definition has a fuel. Sessions of a client in the statements
  (\<open>insert_session\<close>, \<open>scan_session\<close>) have a bound on the number of calls, with the number that is enough.

  \<^bold>\<open>What is proved.\<close> The theories with \<open>Correct\<close> or \<open>Props\<close> in their names hold the proofs:

  \<^item> \<open>ChainTable\<close>: the locales \<open>chained_table\<close> and \<open>lookup_table\<close>, with which both hash tables of the
    program are shown to be maps (\<open>BufHash\<close>, \<open>DBCorrect\<close>).
  \<^item> \<open>PageCorrect\<close>: \<open>page_inv\<close> and the contents of a page as a map from slots to bytes; insertion, deletion,
    lookup and iteration refine the map (locales \<open>record_store\<close> and \<open>record_iterator\<close>); every page that the
    operations can reach is safe.
  \<^item> \<open>FileCorrect\<close>: the locales \<open>page_device\<close> and \<open>page_allocator\<close>; allocation gives fresh pages, disposal
    gives them back, the free list stays well-formed.
  \<^item> \<open>BufCorrect\<close>, \<open>BufOps\<close>, \<open>BufProps\<close>: \<open>buf_inv\<close> ties pool, hash table and files together; \<open>lpage\<close> is the
    current contents of a page, in a frame or on disk. The operations keep it (locale \<open>page_cache\<close>), the
    clock ends, flushing makes it durable.
  \<^item> \<open>DBCorrect\<close>: \<open>db_inv\<close> and opening, closing, creating, destroying files.
  \<^item> \<open>HeapPages\<close> to \<open>HeapCorrect\<close>: heap files as maps from record identifiers to bytes, scans as lists of
    records still to come (locale \<open>cursor\<close>), objects from constructor to destructor.
  \<^item> \<open>HeapShared\<close>, \<open>CatalogCorrect\<close>, \<open>SchemaCorrect\<close>, \<open>CatalogProps\<close>: tables that several objects have open at
    once, lookups and insertions in the catalogs, the creation of relations.
  \<^item> \<open>JoinCorrect\<close>: the hash table for joins is a multimap.
  \<^item> \<open>HeapJoint\<close>: objects that work on different files at the same time, what each leaves of the others and
    whose pins are whose. \<open>JoinNL\<close>, \<open>JoinNLProps\<close>: the nested loops join, with the lookups in the catalog, is the
    theta join of two relations; the two relations and the result have to be three different files.
    \<open>SortProps\<close>: sorting returns the end of an empty relation and fails on every other one.
    \<open>PrintProps\<close>: what printing a relation or a catalog writes, from the descriptors in the catalogs and the records.
    \<open>BootProps\<close>: \<open>dbcreate\<close> makes catalogs that describe themselves; \<open>minirel\<close> starts on them and quits
    without a change. Between the programs no file is open (\<open>at_rest\<close>).

  This theory has the property that spans the layers up to heap files. Some properties are about errors of the
  code (a negative hash index, a page disposed of twice, a change never marked dirty, a file closed with a pinned page, a filter whose
  subtraction overflows, a removal that never ends): they state what the code does.

  \<^bold>\<open>Hypotheses.\<close> \<open>spare w k\<close> asks for frames that are not pinned, \<open>addresses\<close> and \<open>resources\<close> for fresh, non-null
  addresses from \<open>new\<close> and page numbers that fit. Each is shown to hold in the witnesses, on a database that
  starts with an empty disk.

  \<^bold>\<open>Not modelled.\<close> The parser that \<open>minirel\<close> calls is not part of the repository. \<open>dbdestroy\<close> and the argument and
  directory handling of the programs are process I/O. Routines that only print for debugging (\<open>dumpPage\<close>,
  \<open>printSelf\<close>, \<open>listFree\<close>) change no state. Failures of \<open>new\<close> and of \<open>read\<close>, \<open>write\<close> and \<open>lseek\<close> on an open
  descriptor are left out, except that a negative page number and reading behind the end of a file fail.
\<close>

lemma items_values:
  assumes "distinct (map fst items)" "map_of items = map_of (zip rids bs)" "distinct rids" "length rids = length bs"
  shows "mset (map snd items) = mset bs"
proof -
  have "set items = set (zip rids bs)"
    using assms map_of_eq_Some_iff [OF assms(1)] map_of_eq_Some_iff [of "zip rids bs"] by (auto simp: set_eq_iff)
  moreover have "distinct items" "distinct (zip rids bs)" using assms by (simp_all add: distinct_map distinct_zipI1)
  ultimately have "mset items = mset (zip rids bs)" by (simp add: set_eq_iff_mset_eq_distinct)
  then have "mset (map snd items) = mset (map snd (zip rids bs))" by (metis mset_map)
  then show ?thesis using assms(4) by simp
qed

text \<open>
  (C1) The layers together: a heap file that is created (its name without a zero byte), filled with any list of records of at most
  1000 bytes, closed, opened again and read through a filter gives back exactly the records that
  satisfy the filter, each as often as it was inserted, and leaves every other closed file, the
  table of open files and all pin counts as they were.
\<close>

theorem heap_create_insert_scan:
  assumes "db_inv w" "nm \<noteq> []" "unix_name nm = nm" "disk w nm = None" "spare w 3" "addresses w 4 (4 + int (length bs))"
    and "\<forall>b \<in> set bs. 0 < length b \<and> length b \<le> 1000" "filter_args off len ty flt"
  shows "\<exists>w1 rids w2 items w3. createHeapFile w nm = Some (OK, w1) \<and> insert_session w1 h nm bs = Some (rids, w2) \<and>
     scan_session w2 s nm off len ty flt op (length items + 1) = Some (items, w3) \<and>
     mset (map snd items) = mset (filter (selects off len ty flt op) bs) \<and>
     pins w3 = pins w \<and> oft_map (openFiles w3) = oft_map (openFiles w) \<and>
     (\<forall>n. n \<noteq> nm \<longrightarrow> oft_map (openFiles w) n = None \<longrightarrow> disk w3 n = disk w n)"
proof -
  note ok = db_inv_pool [OF assms(1)]
  have a: "addresses w (2 + 2) (4 + int (length bs))" "spare w 2" "addresses w 2 3" using assms(5,6) by (auto simp: spare_def addresses_def Let_def)
  obtain w1 where c: "createHeapFile w nm = Some (OK, w1)" "session_over w nm 2 w1" "idle w1 nm [2] 3" "heap_recs (file_view w1 nm) [2] = Map.empty"
    using create_session [OF assms(1,2,4,3) a(2,3)] by blast
  have a1: "addresses w1 2 (4 + int (length bs))" "spare w1 3" using addresses_over [OF c(2) a(1)] spare_over [OF c(2) ok assms(5)] by simp_all
  then have r1: "room w1 3 (3 + int (length bs))" using addresses_room [of w1 "Suc 0" "4 + int (length bs)" 3 "3 + int (length bs)"] by (simp add: numeral_2_eq_2)
  have "\<forall>b \<in> set bs. storable b \<and> length b \<le> 1000" using assms(7) by fastforce
  from insert_session_spec [OF c(3) r1 this, of h] obtain rids w2 ps n where i: "insert_session w1 h nm bs = Some (rids, w2)" "session_over w1 nm 1 w2" "idle w2 nm ps n"
    "n \<le> 3 + int (length bs)" "length rids = length bs" "distinct rids" "heap_recs (file_view w2 nm) ps = map_of (zip rids bs)" using c(4) by auto
  have inv1: "db_inv w1" using c(3) by (simp add: idle_def)
  have r2: "room w2 2 n"
    using addresses_room [of w2 0 "4 + int (length bs)" 2 n] addresses_over [OF i(2), of "Suc 0" "4 + int (length bs)"] a1(1) spare_over [OF i(2) db_inv_pool [OF inv1] a1(2)] i(4) by (simp add: spare_def numeral_2_eq_2)
  let ?sel = "selects off len ty flt op" and ?all = "heap_items (file_view w2 nm) ps"
  obtain w3 where s: "scan_session w2 s nm off len ty flt op (length (filter (\<lambda>x. ?sel (snd x)) ?all) + 1) = Some (filter (\<lambda>x. ?sel (snd x)) ?all, w3)"
     "session_over w2 nm 1 w3"
    using scan_session_spec [OF i(3) r2 assms(8), of _ op 0 s] by auto
  have "mset (map snd ?all) = mset bs" using items_values [of ?all rids bs] idle_items [OF i(3)] i(5-7) by simp
  moreover have "map snd (filter (\<lambda>x. ?sel (snd x)) xs) = filter ?sel (map snd xs)" for xs by (induction xs) auto
  ultimately have "mset (map snd (filter (\<lambda>x. ?sel (snd x)) ?all)) = mset (filter ?sel bs)" by (metis mset_filter)
  then show ?thesis using c(1,2) i(1,2) s by (intro exI [of _ w1] exI [of _ rids] exI [of _ w2] exI [of _ "filter (\<lambda>x. ?sel (snd x)) ?all"] exI [of _ w3]) (simp add: session_over_def)
qed

theorem heap_create_insert_scan_witness:
  "\<exists>w1 rids w2 items w3. createHeapFile (empty_db 4) ''rel'' = Some (OK, w1) \<and> insert_session w1 new_object ''rel'' [[1, 5], [2, 6], [1, 7]] = Some (rids, w2) \<and>
     scan_session w2 new_scan ''rel'' 0 1 0 (Some [1]) EQ (length items + 1) = Some (items, w3) \<and> mset (map snd items) = {#[1, 5], [1, 7]#}"
proof -
  have sel: "filter (selects 0 1 0 (Some [1]) EQ) [[1, 5], [2, 6], [1, 7]] = [[1, 5], [1, 7]]" by (simp add: selects_def attr_diff_def)
  have "filter_args 0 1 0 (Some [1])" by (simp add: filter_args_def int_ok_def)
  moreover have "db_inv (empty_db 4)" "disk (empty_db 4) ''rel'' = None" "spare (empty_db 4) 3" using empty_db_inv [of 4] empty_db_sel [of 4] by (simp_all add: spare_def)
  moreover have "addresses (empty_db 4) 4 (4 + int (length [[1, 5], [2, 6], [1, 7 :: byte]]))" using empty_db_addresses [of 4 4 7] by simp
  ultimately obtain w1 rids w2 items w3 where "createHeapFile (empty_db 4) ''rel'' = Some (OK, w1)" "insert_session w1 new_object ''rel'' [[1, 5], [2, 6], [1, 7]] = Some (rids, w2)"
     "scan_session w2 new_scan ''rel'' 0 1 0 (Some [1]) EQ (length items + 1) = Some (items, w3)" "mset (map snd items) = mset (filter (selects 0 1 0 (Some [1]) EQ) [[1, 5], [2, 6], [1, 7]])"
    using heap_create_insert_scan [of "empty_db 4" "''rel''" "[[1, 5], [2, 6], [1, 7]]" 0 1 0 "Some [1]" new_object new_scan EQ] by auto
  then show ?thesis unfolding sel by auto
qed

end
